(* ===== verification/Prelude.thy ===== *)
theory Prelude
  imports Main "HOL-Library.Word"
begin

unbundle bit_operations_syntax

text \<open>
  Shared vocabulary of the development: names for the C integer types, the size type with its
  wrap-around, the numeric value of a big-endian or little-endian byte string, and the generic
  facts about words and lists that the component theories use.  Nothing here models code; the
  collections \<open>byte_simps\<close> and \<open>op_defs\<close> are what the component proofs rewrite with.
\<close>

named_theorems byte_simps \<open>values of byte strings\<close>
named_theorems op_defs \<open>definitions of small operations that proofs unfold freely\<close>

subsection \<open>C integer types\<close>

type_synonym u8 = "8 word"
type_synonym u16 = "16 word"
type_synonym u32 = "32 word"
type_synonym u64 = "64 word"
type_synonym bytes = "u8 list"

text \<open>
  \<open>size_t\<close> values are natural numbers; the targets the program is built for
  have a 64-bit \<open>size_t\<close>, and every sum that the C code checks for overflow is written with
  \<open>size_add\<close>, which wraps.
\<close>

abbreviation SIZE_MAX :: nat where
  "SIZE_MAX \<equiv> 2 ^ 64 - 1"

definition size_add :: "nat \<Rightarrow> nat \<Rightarrow> nat" where
  "size_add a b = (a + b) mod 2 ^ 64"

lemma size_add_small: "a + b < 2 ^ 64 \<Longrightarrow> size_add a b = a + b"
  by (simp add: size_add_def)

lemma size_add_overflow_iff:
  assumes "a < 2 ^ 64" and "b < 2 ^ 64"
  shows "size_add a b < a \<longleftrightarrow> 2 ^ 64 \<le> a + b"
proof (cases "a + b < 2 ^ 64")
  case True
  then show ?thesis by (simp add: size_add_def)
next
  case False
  with assms have "size_add a b = a + b - 2 ^ 64"
    by (simp add: size_add_def mod_if)
  with False assms show ?thesis by auto
qed

subsection \<open>Words\<close>

lemma unat_u8_lt [simp]: "unat (b :: u8) < 256"
  using unsigned_less [of b] by simp

lemma unat_ucast_widen:
  "LENGTH('a) \<le> LENGTH('b) \<Longrightarrow> unat (ucast (w :: 'a::len word) :: 'b::len word) = unat w"
  by (simp add: unsigned_ucast_eq take_bit_nat_eq_self_iff order_less_le_trans [OF unsigned_less])

lemma bit_unat_bound: "unat (x :: 'a::len word) < 2 ^ k \<Longrightarrow> bit x n \<Longrightarrow> n < k"
proof (rule ccontr)
  assume "unat x < 2 ^ k" and "bit x n" and "\<not> n < k"
  then have "unat x < 2 ^ n" by (meson le_less_trans linorder_not_less nat_less_le
        one_less_numeral_iff power_increasing_iff semiring_norm(76) order_less_le_trans)
  moreover from \<open>bit x n\<close> have "bit (unat x) n" by (simp add: bit_unsigned_iff)
  ultimately show False by (simp add: bit_iff_odd)
qed

lemma unat_push_bit_small:
  assumes "unat (w :: 'a::len word) * 2 ^ k < 2 ^ LENGTH('a)"
  shows "unat (push_bit k w) = unat w * 2 ^ k"
  using assms by (simp only: unsigned_push_bit_eq) (simp add: take_bit_eq_mod push_bit_eq_mult mult.commute)

text \<open>Shifting in \<open>k\<close> low bits, when no high bit is lost.\<close>

lemma unat_shift_or:
  fixes w x :: "'a::len word"
  assumes w: "unat w < 2 ^ (LENGTH('a) - k)" and x: "unat x < 2 ^ k" and k: "k \<le> LENGTH('a)"
  shows "unat (push_bit k w OR x) = unat w * 2 ^ k + unat x"
proof -
  have "(unat w + 1) * 2 ^ k \<le> 2 ^ (LENGTH('a) - k) * 2 ^ k"
    using w by (intro mult_right_mono) auto
  also have "\<dots> = 2 ^ LENGTH('a)" using k by (simp flip: power_add)
  finally have le: "unat w * 2 ^ k + 2 ^ k \<le> 2 ^ LENGTH('a)" by simp
  have "push_bit k w AND x = 0"
    by (rule bit_word_eqI) (auto simp: bit_simps dest: bit_unat_bound [OF x])
  then have "push_bit k w OR x = push_bit k w + x"
    by (simp add: disjunctive_add_eq_or)
  moreover have "(0::nat) < 2 ^ k" by simp
  with le have "unat w * 2 ^ k < 2 ^ LENGTH('a)" by linarith
  then have "unat (push_bit k w) = unat w * 2 ^ k" by (rule unat_push_bit_small)
  moreover have "unat w * 2 ^ k + unat x < 2 ^ LENGTH('a)" using le x by linarith
  ultimately show ?thesis by (simp add: unat_word_ariths)
qed

lemma unat_drop_bit: "unat (drop_bit k (w :: 'a::len word)) = unat w div 2 ^ k"
  by (simp only: unat_drop_bit_eq) (rule drop_bit_eq_div)

lemma drop_bit_eq_0_iff: "drop_bit k (w :: 'a::len word) = 0 \<longleftrightarrow> unat w < 2 ^ k"
proof -
  have "drop_bit k w = 0 \<longleftrightarrow> unat (drop_bit k w) = 0" by (rule unat_eq_0 [symmetric])
  also have "\<dots> \<longleftrightarrow> unat w div 2 ^ k = 0" unfolding unat_drop_bit ..
  finally show ?thesis by (simp add: div_eq_0_iff)
qed

lemma unat_and_low:
  "unat (b AND 0x7f :: u8) = unat b mod 128" "unat (b AND 0x1f :: u8) = unat b mod 32"
proof -
  have "unat b AND mask 7 = unat b mod 2 ^ 7" "unat b AND mask 5 = unat b mod 2 ^ 5"
    by (simp_all only: take_bit_eq_mask [symmetric] take_bit_eq_mod)
  then have "unat b AND 127 = unat b mod 128" "unat b AND 31 = unat b mod 32"
    by (simp_all add: mask_eq_exp_minus_1)
  then show "unat (b AND 0x7f) = unat b mod 128" "unat (b AND 0x1f) = unat b mod 32"
    by (simp_all add: unsigned_and_eq)
qed

lemma odd_div_iff:
  assumes "(n::nat) < 2 * k"
  shows "odd (n div k) \<longleftrightarrow> k \<le> n"
proof (cases "k \<le> n")
  case True
  moreover from assms have "0 < k" by simp
  ultimately have "n div k = Suc ((n - k) div k)" by (rule le_div_geq [rotated])
  moreover from assms True have "(n - k) div k = 0" by simp
  ultimately show ?thesis using True by simp
next
  case False
  then show ?thesis by simp
qed

lemma bit_top_iff:
  assumes "LENGTH('a) = Suc n"
  shows "bit (x :: 'a::len word) n \<longleftrightarrow> 2 ^ n \<le> unat x"
proof -
  have "bit x n \<longleftrightarrow> bit (unat x) n"
    by (simp add: bit_unsigned_iff)
  also have "\<dots> \<longleftrightarrow> odd (unat x div 2 ^ n)"
    by (rule bit_iff_odd)
  also have "\<dots> \<longleftrightarrow> 2 ^ n \<le> unat x"
    by (rule odd_div_iff) (use unsigned_less [of x] assms in simp)
  finally show ?thesis .
qed

lemma word_of_natI: "unat w = n \<Longrightarrow> w = of_nat n"
  by auto

lemma unat_of_nat_u8: "n < 256 \<Longrightarrow> unat (of_nat n :: u8) = n"
  by (simp add: unat_of_nat)

lemma unat_of_nat_u64: "n < 2 ^ 64 \<Longrightarrow> unat (of_nat n :: u64) = n"
  by (simp add: unat_of_nat)

lemma and_0x80: "(b :: u8) AND 0x80 = 0 \<longleftrightarrow> unat b < 128"
proof -
  have "b AND 2 ^ 7 = 0 \<longleftrightarrow> \<not> bit b 7" by (rule and_exp_eq_0_iff_not_bit)
  then show ?thesis using bit_top_iff [of 7 b] by (simp add: not_le)
qed

lemma unat_ucast_u8:
  "unat (ucast (b :: u8) :: u64) = unat b"
  "unat (ucast (b :: u8) :: u32) = unat b"
  "unat (ucast (b :: u8) :: u16) = unat b"
  by (simp_all add: unat_ucast_widen)

lemma ucast_u8_of_nat: "(ucast (of_nat n :: u64) :: u8) = of_nat n"
  by (rule bit_word_eqI) (auto simp: bit_simps)

subsection \<open>Numeric value of a byte string\<close>

definition be_nat :: "bytes \<Rightarrow> nat" where
  "be_nat bs = foldl (\<lambda>n b. n * 256 + unat b) 0 bs"

lemma be_nat_foldl: "foldl (\<lambda>n b. n * 256 + unat b) k bs = k * 256 ^ length bs + be_nat bs"
proof (induction bs arbitrary: k)
  case Nil
  then show ?case by (simp add: be_nat_def)
next
  case (Cons b bs)
  have "be_nat (b # bs) = unat b * 256 ^ length bs + be_nat bs"
    using Cons.IH [of "unat b"] by (simp add: be_nat_def)
  then show ?case
    using Cons.IH [of "k * 256 + unat b"] by (simp add: algebra_simps)
qed

lemma be_nat_Nil [simp, byte_simps]: "be_nat [] = 0"
  by (simp add: be_nat_def)

lemma be_nat_Cons [byte_simps]: "be_nat (b # bs) = unat b * 256 ^ length bs + be_nat bs"
  using be_nat_foldl [of "unat b" bs] by (simp add: be_nat_def)

lemma be_nat_append [byte_simps]: "be_nat (xs @ ys) = be_nat xs * 256 ^ length ys + be_nat ys"
  by (induction xs) (simp_all add: be_nat_Cons power_add algebra_simps)

lemma be_nat_snoc: "be_nat (xs @ [b]) = be_nat xs * 256 + unat b"
  by (simp add: byte_simps)

lemma be_nat_bound: "be_nat bs < 256 ^ length bs"
proof (induction bs rule: rev_induct)
  case Nil
  then show ?case by simp
next
  case (snoc b bs)
  have "unat b < 256" by simp
  moreover from snoc.IH have "be_nat bs * 256 + 256 \<le> 256 ^ length bs * 256" by simp
  ultimately have "be_nat bs * 256 + unat b < 256 ^ length bs * 256" by linarith
  then show ?case by (simp add: be_nat_snoc mult.commute)
qed

lemma be_nat_inj:
  assumes "length xs = length ys" and "be_nat xs = be_nat ys"
  shows "xs = ys"
  using assms
proof (induction xs ys rule: rev_induct2)
  case 1
  then show ?case by simp
next
  case (2 x xs)
  then show ?case by simp
next
  case (3 y ys)
  then show ?case by simp
next
  case (4 x xs y ys)
  then have eq: "be_nat xs * 256 + unat x = be_nat ys * 256 + unat y"
    by (simp add: be_nat_snoc)
  have "(be_nat xs * 256 + unat x) div 256 = be_nat xs"
    and "(be_nat ys * 256 + unat y) div 256 = be_nat ys" by simp_all
  with eq have bs: "be_nat xs = be_nat ys" by metis
  with eq have "unat x = unat y" by simp
  then have "x = y" by (rule unsigned_word_eqI)
  moreover from bs 4 have "xs = ys" by simp
  ultimately show ?case by simp
qed

lemma be_nat_replicate_0 [simp]: "be_nat (replicate n 0 @ bs) = be_nat bs"
  by (induction n) (simp_all add: be_nat_Cons)

text \<open>The \<open>k\<close> bytes of a number, most significant first.\<close>

fun be_bytes :: "nat \<Rightarrow> nat \<Rightarrow> bytes" where
  "be_bytes 0 n = []"
| "be_bytes (Suc k) n = be_bytes k (n div 256) @ [of_nat n]"

lemma length_be_bytes [simp]: "length (be_bytes k n) = k"
  by (induction k arbitrary: n) simp_all

lemma be_nat_be_bytes: "be_nat (be_bytes k n) = n mod 256 ^ k"
proof (induction k arbitrary: n)
  case (Suc k)
  have "unat (of_nat n :: u8) = n mod 256" by (simp add: unat_of_nat)
  moreover have "n mod (256 * 256 ^ k) = 256 * (n div 256 mod 256 ^ k) + n mod 256"
    by (rule mod_mult2_eq)
  ultimately show ?case by (simp add: be_nat_snoc Suc.IH)
qed simp

definition le_nat :: "bytes \<Rightarrow> nat" where
  "le_nat bs = be_nat (rev bs)"

subsection \<open>Lists and options\<close>

lemma take_length_append [simp]: "length xs = n \<Longrightarrow> take n (xs @ ys) = xs"
  by auto

lemma drop_length_append [simp]: "length xs = n \<Longrightarrow> drop n (xs @ ys) = ys"
  by auto

definition bool_int :: "bool \<Rightarrow> int" where
  "bool_int b = (if b then 1 else 0)"

end
