(* ===== verification/Internal.thy ===== *)
theory Internal
  imports Prelude
begin

text \<open>
  \<open>crypto/internal.h\<close> and \<open>crypto/mem.c\<close> of the bundled BoringSSL: the constant-time
  comparison and selection helpers on the 64-bit \<open>crypto_word_t\<close>, byte swaps, loads, stores and
  rotations, and the string helpers that the other components call.  The lemmas give each helper
  its arithmetic meaning: masks are all ones exactly when the comparison holds, byte swaps reverse
  the bytes of a value, a copy of a string keeps within its buffer.
\<close>

section \<open>Constant-time helpers\<close>

definition CONSTTIME_TRUE_W :: u64 where
  "CONSTTIME_TRUE_W = NOT 0"

definition CONSTTIME_FALSE_W :: u64 where
  "CONSTTIME_FALSE_W = 0"

definition constant_time_msb_w :: "u64 \<Rightarrow> u64" where
  "constant_time_msb_w a = 0 - drop_bit 63 a"

definition constant_time_lt_w :: "u64 \<Rightarrow> u64 \<Rightarrow> u64" where
  "constant_time_lt_w a b = constant_time_msb_w (a XOR ((a XOR b) OR ((a - b) XOR a)))"

definition constant_time_lt_8 :: "u64 \<Rightarrow> u64 \<Rightarrow> u8" where
  "constant_time_lt_8 a b = ucast (constant_time_lt_w a b)"

definition constant_time_ge_w :: "u64 \<Rightarrow> u64 \<Rightarrow> u64" where
  "constant_time_ge_w a b = NOT (constant_time_lt_w a b)"

definition constant_time_ge_8 :: "u64 \<Rightarrow> u64 \<Rightarrow> u8" where
  "constant_time_ge_8 a b = ucast (constant_time_ge_w a b)"

definition constant_time_is_zero_w :: "u64 \<Rightarrow> u64" where
  "constant_time_is_zero_w a = constant_time_msb_w (NOT a AND (a - 1))"

definition constant_time_is_zero_8 :: "u64 \<Rightarrow> u8" where
  "constant_time_is_zero_8 a = ucast (constant_time_is_zero_w a)"

definition constant_time_eq_w :: "u64 \<Rightarrow> u64 \<Rightarrow> u64" where
  "constant_time_eq_w a b = constant_time_is_zero_w (a XOR b)"

definition constant_time_eq_8 :: "u64 \<Rightarrow> u64 \<Rightarrow> u8" where
  "constant_time_eq_8 a b = ucast (constant_time_eq_w a b)"

text \<open>An \<open>int\<close> argument is sign-extended by its conversion to \<open>crypto_word_t\<close>.\<close>

definition constant_time_eq_int :: "u32 \<Rightarrow> u32 \<Rightarrow> u64" where
  "constant_time_eq_int a b = constant_time_eq_w (scast a) (scast b)"

definition constant_time_select_w :: "u64 \<Rightarrow> u64 \<Rightarrow> u64 \<Rightarrow> u64" where
  "constant_time_select_w msk a b = (msk AND a) OR (NOT msk AND b)"

definition constant_time_select_8 :: "u8 \<Rightarrow> u8 \<Rightarrow> u8 \<Rightarrow> u8" where
  "constant_time_select_8 msk a b =
     ucast (constant_time_select_w (ucast msk) (ucast a) (ucast b))"

definition constant_time_select_int :: "u64 \<Rightarrow> u32 \<Rightarrow> u32 \<Rightarrow> u32" where
  "constant_time_select_int msk a b = ucast (constant_time_select_w msk (scast a) (scast b))"

lemma bit_63_iff: "bit (x :: u64) 63 \<longleftrightarrow> 2 ^ 63 \<le> unat x"
  by (rule bit_top_iff) simp

lemma unat_diff_u64:
  "unat ((a :: u64) - b) = (if unat b \<le> unat a then unat a - unat b else unat a + 2 ^ 64 - unat b)"
  by (simp add: unat_sub_if_size word_size)

lemma constant_time_msb_w: "constant_time_msb_w a = (if bit a 63 then NOT 0 else 0)"
proof -
  have "drop_bit 63 a = of_bool (bit a 63)"
  proof (rule bit_word_eqI)
    fix n assume "n < LENGTH(64)"
    show "bit (drop_bit 63 a) n = bit (of_bool (bit a 63) :: u64) n"
      by (cases n) (auto simp: bit_simps dest: bit_imp_le_length)
  qed
  then show ?thesis by (simp add: constant_time_msb_w_def)
qed

lemmas bit_ops = bit_xor_iff bit_or_iff bit_and_iff bit_not_iff

lemma constant_time_lt_w: "constant_time_lt_w a b = (if a < b then NOT 0 else 0)"
proof -
  have "unat a < 2 ^ 64" "unat b < 2 ^ 64"
    using unsigned_less [of a] unsigned_less [of b] by simp_all
  then have "bit (a XOR ((a XOR b) OR ((a - b) XOR a))) 63 \<longleftrightarrow> a < b"
    unfolding bit_ops unfolding bit_63_iff unat_diff_u64 word_less_nat_alt by auto
  then show ?thesis by (simp add: constant_time_lt_w_def constant_time_msb_w)
qed

lemma constant_time_is_zero_w: "constant_time_is_zero_w a = (if a = 0 then NOT 0 else 0)"
proof -
  have "unat a < 2 ^ 64" using unsigned_less [of a] by simp
  moreover have "a = 0 \<longleftrightarrow> unat a = 0" by (simp add: unat_eq_0)
  moreover have "bit (NOT a AND (a - 1)) 63 \<longleftrightarrow> \<not> bit a 63 \<and> bit (a - 1) 63"
    by (simp add: bit_ops)
  ultimately have "bit (NOT a AND (a - 1)) 63 \<longleftrightarrow> a = 0"
    unfolding bit_63_iff unat_diff_u64 by auto
  then show ?thesis by (simp add: constant_time_is_zero_w_def constant_time_msb_w)
qed

lemma constant_time_ge_w: "constant_time_ge_w a b = (if b \<le> a then NOT 0 else 0)"
  by (auto simp: constant_time_ge_w_def constant_time_lt_w)

lemma constant_time_eq_w: "constant_time_eq_w a b = (if a = b then NOT 0 else 0)"
proof -
  have "a XOR b = 0 \<longleftrightarrow> a = b"
    by (auto simp: bit_eq_iff bit_xor_iff)
  then show ?thesis by (simp add: constant_time_eq_w_def constant_time_is_zero_w)
qed

lemma constant_time_select_w:
  "constant_time_select_w (NOT 0) a b = a" "constant_time_select_w 0 a b = b"
  by (simp_all add: constant_time_select_w_def)

lemma constant_time_select_8:
  "constant_time_select_8 255 a b = a" "constant_time_select_8 0 a b = b"
proof -
  have "constant_time_select_8 (- 1) a b = a"
    by (rule bit_word_eqI) (auto simp: constant_time_select_8_def constant_time_select_w_def bit_simps)
  moreover have "(255 :: u8) = - 1" by simp
  ultimately show "constant_time_select_8 255 a b = a" by metis
  show "constant_time_select_8 0 a b = b"
    by (rule bit_word_eqI) (auto simp: constant_time_select_8_def constant_time_select_w_def bit_simps)
qed

section \<open>Byte order: swaps, loads, stores\<close>

definition CRYPTO_bswap2 :: "u16 \<Rightarrow> u16" where
  "CRYPTO_bswap2 x = drop_bit 8 x OR push_bit 8 x"

definition CRYPTO_bswap4 :: "u32 \<Rightarrow> u32" where
  "CRYPTO_bswap4 x0 =
     (let x = drop_bit 16 x0 OR push_bit 16 x0
      in drop_bit 8 (x AND 0xff00ff00) OR push_bit 8 (x AND 0x00ff00ff))"

definition CRYPTO_bswap8 :: "u64 \<Rightarrow> u64" where
  "CRYPTO_bswap8 x =
     ucast (CRYPTO_bswap4 (ucast (drop_bit 32 x))) OR push_bit 32 (ucast (CRYPTO_bswap4 (ucast x)))"

text \<open>
  The memory representation of an integer on the little-endian targets of the program: byte
  \<open>i\<close> holds bits \<open>8 * i\<close> to \<open>8 * i + 7\<close>.  A \<open>memcpy\<close> between an integer and a byte array
  is \<open>le_bytes\<close> or \<open>le_word\<close>.
\<close>

definition le_bytes :: "nat \<Rightarrow> 'a::len word \<Rightarrow> bytes" where
  "le_bytes n v = map (\<lambda>i. ucast (drop_bit (8 * i) v)) [0..<n]"

fun le_word :: "bytes \<Rightarrow> 'a::len word" where
  "le_word [] = 0"
| "le_word (b # bs) = ucast b OR push_bit 8 (le_word bs)"

definition CRYPTO_load_u32_le :: "bytes \<Rightarrow> u32" where
  "CRYPTO_load_u32_le inp = le_word (take 4 inp)"

definition CRYPTO_store_u32_le :: "u32 \<Rightarrow> bytes" where
  "CRYPTO_store_u32_le v = le_bytes 4 v"

definition CRYPTO_load_u32_be :: "bytes \<Rightarrow> u32" where
  "CRYPTO_load_u32_be inp = CRYPTO_bswap4 (le_word (take 4 inp))"

definition CRYPTO_store_u32_be :: "u32 \<Rightarrow> bytes" where
  "CRYPTO_store_u32_be v = le_bytes 4 (CRYPTO_bswap4 v)"

definition CRYPTO_load_u64_le :: "bytes \<Rightarrow> u64" where
  "CRYPTO_load_u64_le inp = le_word (take 8 inp)"

definition CRYPTO_store_u64_le :: "u64 \<Rightarrow> bytes" where
  "CRYPTO_store_u64_le v = le_bytes 8 v"

definition CRYPTO_load_u64_be :: "bytes \<Rightarrow> u64" where
  "CRYPTO_load_u64_be inp = CRYPTO_bswap8 (le_word (take 8 inp))"

definition CRYPTO_store_u64_be :: "u64 \<Rightarrow> bytes" where
  "CRYPTO_store_u64_be v = le_bytes 8 (CRYPTO_bswap8 v)"

definition CRYPTO_rotl_u32 :: "u32 \<Rightarrow> nat \<Rightarrow> u32" where
  "CRYPTO_rotl_u32 value sh = push_bit sh value OR drop_bit (nat ((- int sh) mod 32)) value"

definition CRYPTO_rotr_u32 :: "u32 \<Rightarrow> nat \<Rightarrow> u32" where
  "CRYPTO_rotr_u32 value sh = drop_bit sh value OR push_bit (nat ((- int sh) mod 32)) value"

definition CRYPTO_rotl_u64 :: "u64 \<Rightarrow> nat \<Rightarrow> u64" where
  "CRYPTO_rotl_u64 value sh = push_bit sh value OR drop_bit (nat ((- int sh) mod 64)) value"

definition CRYPTO_rotr_u64 :: "u64 \<Rightarrow> nat \<Rightarrow> u64" where
  "CRYPTO_rotr_u64 value sh = drop_bit sh value OR push_bit (nat ((- int sh) mod 64)) value"

lemma length_le_bytes [simp]: "length (le_bytes n v) = n"
  by (simp add: le_bytes_def)

lemma bit_le_word: "bit (le_word bs :: 'a::len word) n \<longleftrightarrow>
    n < LENGTH('a) \<and> n div 8 < length bs \<and> bit (bs ! (n div 8)) (n mod 8)"
proof (induction bs arbitrary: n)
  case Nil
  then show ?case by simp
next
  case (Cons b bs)
  show ?case
  proof (cases "n < 8")
    case True
    then show ?thesis by (auto simp: bit_simps)
  next
    case False
    then obtain m where m: "n = m + 8" by (metis add.commute le_Suc_ex not_less)
    then have "n div 8 = Suc (m div 8)" "n mod 8 = m mod 8" by simp_all
    then show ?thesis
      using bit_imp_le_length [of b n] m
      by (auto simp: bit_simps Cons.IH)
  qed
qed

lemma le_word_le_bytes: "LENGTH('a) = 8 * k \<Longrightarrow> le_word (le_bytes k v) = (v :: 'a::len word)"
  by (rule bit_word_eqI) (auto simp: bit_le_word le_bytes_def bit_simps)

lemma le_bytes_le_word:
  assumes "LENGTH('a) = 8 * length bs"
  shows "le_bytes (length bs) (le_word bs :: 'a::len word) = bs"
proof (rule nth_equalityI)
  fix i assume "i < length (le_bytes (length bs) (le_word bs :: 'a word))"
  then have i: "i < length bs" by simp
  show "le_bytes (length bs) (le_word bs :: 'a word) ! i = bs ! i"
  proof (rule bit_word_eqI)
    fix n assume "n < LENGTH(8)"
    then have "n < 8" by simp
    then have "(8 * i + n) div 8 = i" "(8 * i + n) mod 8 = n" by auto
    moreover have "8 * i + n < LENGTH('a)" using i \<open>n < 8\<close> assms by linarith
    ultimately show "bit (le_bytes (length bs) (le_word bs :: 'a word) ! i) n = bit (bs ! i) n"
      using i \<open>n < 8\<close> by (auto simp: le_bytes_def bit_simps bit_le_word add.commute)
  qed
qed simp

lemma not_bit_u32: "32 \<le> n \<Longrightarrow> \<not> bit (x :: u32) n"
  by (auto dest: bit_imp_le_length)

lemma bit_bswap4: "n < 32 \<Longrightarrow> bit (CRYPTO_bswap4 x) n \<longleftrightarrow> bit x (8 * (3 - n div 8) + n mod 8)"
proof -
  assume "n < 32"
  then have "n \<in> set [0..<32]" by simp
  moreover have "\<forall>n \<in> set [0..<32]. bit (CRYPTO_bswap4 x) n \<longleftrightarrow> bit x (8 * (3 - n div 8) + n mod 8)"
    by (simp add: CRYPTO_bswap4_def Let_def bit_simps upt_rec [of 0] upt_rec [of "Suc 0"]
        numeral_2_eq_2 [symmetric] not_bit_u32)
  ultimately show ?thesis by blast
qed

lemma le_bytes_bswap4: "le_bytes 4 (CRYPTO_bswap4 x) = rev (le_bytes 4 x)"
proof (rule nth_equalityI)
  fix i assume "i < length (le_bytes 4 (CRYPTO_bswap4 x))"
  then have i: "i < 4" by simp
  show "le_bytes 4 (CRYPTO_bswap4 x) ! i = rev (le_bytes 4 x) ! i"
  proof (rule bit_word_eqI)
    fix n assume "n < LENGTH(8)"
    then have n: "n < 8" by simp
    then have "8 * i + n < 32" "(8 * i + n) div 8 = i" "(8 * i + n) mod 8 = n" using i by auto
    then show "bit (le_bytes 4 (CRYPTO_bswap4 x) ! i) n = bit (rev (le_bytes 4 x) ! i) n"
      using i n by (simp add: le_bytes_def rev_nth bit_simps bit_bswap4 add.commute)
  qed
qed simp

lemma bswap4_le_word: "length bs = 4 \<Longrightarrow> CRYPTO_bswap4 (le_word bs) = le_word (rev bs)"
proof -
  assume len: "length bs = 4"
  have "le_bytes 4 (CRYPTO_bswap4 (le_word bs)) = rev bs"
    using le_bytes_le_word [of bs, where 'a = 32] len by (simp add: le_bytes_bswap4)
  then have "le_word (le_bytes 4 (CRYPTO_bswap4 (le_word bs))) = (le_word (rev bs) :: u32)"
    by simp
  then show ?thesis by (simp add: le_word_le_bytes)
qed

lemma load_store_u32_be:
  "CRYPTO_load_u32_be (CRYPTO_store_u32_be v) = v"
  by (simp add: CRYPTO_load_u32_be_def CRYPTO_store_u32_be_def le_bytes_bswap4 bswap4_le_word
      le_word_le_bytes)

lemma load_store_u32_le:
  "CRYPTO_load_u32_le (CRYPTO_store_u32_le v) = v"
  by (simp add: CRYPTO_load_u32_le_def CRYPTO_store_u32_le_def le_word_le_bytes)

lemma rotl_u32:
  assumes "0 < k" and "k < 32"
  shows "CRYPTO_rotl_u32 x k = word_rotl k x"
proof (rule bit_word_eqI)
  fix n assume "n < LENGTH(32)"
  then have n: "n < 32" by simp
  have sh: "nat ((- int k) mod 32) = 32 - k"
    using assms by (simp add: zmod_zminus1_eq_if nat_diff_distrib)
  have ix: "(n + 32 - k) mod 32 = (if k \<le> n then n - k else n + 32 - k)"
    using assms n by (auto simp: mod_if)
  show "bit (CRYPTO_rotl_u32 x k) n = bit (word_rotl k x) n"
    using assms n by (auto simp: CRYPTO_rotl_u32_def sh ix bit_simps not_bit_u32 add.commute [of 32])
qed

section \<open>Memory comparison and C strings\<close>

text \<open>\<open>CRYPTO_memcmp\<close> reads both arrays to the end whatever they hold.\<close>

fun memcmp_loop :: "u8 \<Rightarrow> bytes \<Rightarrow> bytes \<Rightarrow> u8" where
  "memcmp_loop x (a # as) (b # bs) = memcmp_loop (x OR (a XOR b)) as bs"
| "memcmp_loop x _ _ = x"

definition CRYPTO_memcmp :: "bytes \<Rightarrow> bytes \<Rightarrow> nat \<Rightarrow> u8" where
  "CRYPTO_memcmp a b len = memcmp_loop 0 (take len a) (take len b)"

definition OPENSSL_isdigit :: "u8 \<Rightarrow> bool" where
  "OPENSSL_isdigit c \<longleftrightarrow> 0x30 \<le> c \<and> c \<le> 0x39"

definition OPENSSL_isalpha :: "u8 \<Rightarrow> bool" where
  "OPENSSL_isalpha c \<longleftrightarrow> (0x61 \<le> c \<and> c \<le> 0x7a) \<or> (0x41 \<le> c \<and> c \<le> 0x5a)"

definition OPENSSL_isxdigit :: "u8 \<Rightarrow> bool" where
  "OPENSSL_isxdigit c \<longleftrightarrow>
     OPENSSL_isdigit c \<or> (0x61 \<le> c \<and> c \<le> 0x66) \<or> (0x41 \<le> c \<and> c \<le> 0x46)"

definition OPENSSL_fromxdigit :: "u8 \<Rightarrow> u8 option" where
  "OPENSSL_fromxdigit c =
     (if OPENSSL_isdigit c then Some (c - 0x30)
      else if 0x61 \<le> c \<and> c \<le> 0x66 then Some (c - 0x61 + 10)
      else if 0x41 \<le> c \<and> c \<le> 0x46 then Some (c - 0x41 + 10)
      else None)"

definition OPENSSL_tolower :: "u8 \<Rightarrow> u8" where
  "OPENSSL_tolower c = (if 0x41 \<le> c \<and> c \<le> 0x5a then c + (0x61 - 0x41) else c)"

definition OPENSSL_isspace :: "u8 \<Rightarrow> bool" where
  "OPENSSL_isspace c \<longleftrightarrow> c = 9 \<or> c = 10 \<or> c = 11 \<or> c = 12 \<or> c = 13 \<or> c = 32"

text \<open>
  Strings are arrays of bytes from a pointer on; a read or write past the end of the array is
  \<open>None\<close>.  \<open>c_strlen\<close> is the C library's \<open>strlen\<close>.
\<close>

fun c_strlen :: "bytes \<Rightarrow> nat option" where
  "c_strlen [] = None"
| "c_strlen (s # ss) = (if s = 0 then Some 0 else map_option Suc (c_strlen ss))"

fun OPENSSL_strnlen :: "bytes \<Rightarrow> nat \<Rightarrow> nat option" where
  "OPENSSL_strnlen s 0 = Some 0"
| "OPENSSL_strnlen [] (Suc n) = None"
| "OPENSSL_strnlen (c # s) (Suc n) = (if c = 0 then Some 0 else map_option Suc (OPENSSL_strnlen s n))"

text \<open>
  \<open>OPENSSL_strlcpy dst src n\<close> returns the new content of the array \<open>dst\<close> and the C result.  The
  loop copies while more than one byte of room is left and the source has not ended; then, if any
  room is left, it writes the terminator; the result counts the rest of the source too.
\<close>

fun OPENSSL_strlcpy :: "bytes \<Rightarrow> bytes \<Rightarrow> nat \<Rightarrow> (bytes \<times> nat) option" where
  "OPENSSL_strlcpy dst src dst_size =
     (case src of
        [] \<Rightarrow> None
      | s # ss \<Rightarrow>
          if dst_size > 1 \<and> s \<noteq> 0 then
            (case dst of
               [] \<Rightarrow> None
             | _ # ds \<Rightarrow> map_option (\<lambda>(ds', l). (s # ds', Suc l)) (OPENSSL_strlcpy ds ss (dst_size - 1)))
          else if dst_size = 0 then map_option (\<lambda>l. (dst, l)) (c_strlen src)
          else (case dst of [] \<Rightarrow> None | _ # ds \<Rightarrow> map_option (\<lambda>l. (0 # ds, l)) (c_strlen src)))"

declare OPENSSL_strlcpy.simps [simp del]

fun OPENSSL_strlcat :: "bytes \<Rightarrow> bytes \<Rightarrow> nat \<Rightarrow> (bytes \<times> nat) option" where
  "OPENSSL_strlcat dst src dst_size =
     (if dst_size = 0 then OPENSSL_strlcpy dst src 0
      else case dst of
        [] \<Rightarrow> None
      | d # ds \<Rightarrow>
          if d \<noteq> 0 then map_option (\<lambda>(ds', l). (d # ds', Suc l)) (OPENSSL_strlcat ds src (dst_size - 1))
          else OPENSSL_strlcpy dst src dst_size)"

declare OPENSSL_strlcat.simps [simp del]

lemma memcmp_loop_zero:
  "length as = length bs \<Longrightarrow> memcmp_loop x as bs = 0 \<longleftrightarrow> x = 0 \<and> as = bs"
proof (induction as bs arbitrary: x rule: list_induct2)
  case Nil
  then show ?case by simp
next
  case (Cons a as b bs)
  have "x OR (a XOR b) = 0 \<longleftrightarrow> x = 0 \<and> a = b"
    by (metis or.right_neutral or_eq_0_iff xor_self_eq xor.right_neutral word_bw_assocs(3))
  with Cons show ?case by auto
qed

lemma CRYPTO_memcmp_zero:
  assumes "length a = n" and "length b = n"
  shows "CRYPTO_memcmp a b n = 0 \<longleftrightarrow> a = b"
  using assms by (simp add: CRYPTO_memcmp_def memcmp_loop_zero)

text \<open>
  A C string is a run of nonzero bytes followed by a zero byte; \<open>cstring s rest\<close> is the array that
  starts with it.
\<close>

abbreviation cstring :: "bytes \<Rightarrow> bytes \<Rightarrow> bytes" where
  "cstring s rest \<equiv> s @ 0 # rest"

lemma c_strlen_cstring [simp]: "0 \<notin> set s \<Longrightarrow> c_strlen (cstring s rest) = Some (length s)"
  by (induction s) auto

lemma strnlen_cstring:
  "0 \<notin> set s \<Longrightarrow> OPENSSL_strnlen (cstring s rest) n = Some (min (length s) n)"
proof (induction s arbitrary: n)
  case Nil
  then show ?case by (cases n) auto
next
  case (Cons c s)
  then show ?case by (cases n) auto
qed

lemma strnlen_bounded: "n \<le> length s \<Longrightarrow> \<exists>k. OPENSSL_strnlen s n = Some k \<and> k \<le> n"
proof (induction s n rule: OPENSSL_strnlen.induct)
  case (3 c s n)
  then show ?case by (auto split: if_splits)
qed auto

lemma strlcpy_cstring:
  assumes "0 \<notin> set s" and "0 < n" and "n \<le> length dst"
  shows "OPENSSL_strlcpy dst (cstring s rest) n =
    Some (take (n - 1) s @ 0 # drop (Suc (min (n - 1) (length s))) dst, length s)"
  using assms
proof (induction s arbitrary: n dst)
  case Nil
  then show ?case by (cases dst) (auto simp: OPENSSL_strlcpy.simps)
next
  case (Cons c s)
  then obtain d ds where dst: "dst = d # ds" by (cases dst) auto
  show ?case
  proof (cases "n = 1")
    case True
    then show ?thesis
      using Cons.prems by (simp add: OPENSSL_strlcpy.simps [of "d # ds"] dst)
  next
    case False
    then have "OPENSSL_strlcpy ds (cstring s rest) (n - 1) =
        Some (take (n - 1 - 1) s @ 0 # drop (Suc (min (n - 1 - 1) (length s))) ds, length s)"
      using Cons.prems dst by (intro Cons.IH) auto
    moreover obtain m where "n = Suc (Suc m)"
      using False Cons.prems by (metis One_nat_def Suc_pred not0_implies_Suc not_gr_zero)
    ultimately show ?thesis
      using Cons.prems by (simp add: OPENSSL_strlcpy.simps [of "d # ds"] dst)
  qed
qed

lemma fromxdigit_range: "OPENSSL_fromxdigit c = Some v \<Longrightarrow> unat v < 16"
  by (auto simp: OPENSSL_fromxdigit_def OPENSSL_isdigit_def word_le_nat_alt unat_sub_if_size
      split: if_splits)

end
