(* ===== verification/PosixTime.thy ===== *)
theory PosixTime
  imports Prelude "HOL-Library.Signed_Division"
begin

text \<open>
  \<open>crypto/asn1/posix_time.c\<close>: conversion between a broken-down UTC time and seconds since 1970,
  over the years 0000 to 9999.  All quantities are \<open>int\<close>s in range of \<open>int64_t\<close>, and C's division
  and remainder, which truncate towards zero, are \<open>sdiv\<close> and \<open>smod\<close>.
\<close>

abbreviation SECS_PER_HOUR :: int where "SECS_PER_HOUR \<equiv> 60 * 60"
abbreviation SECS_PER_DAY :: int where "SECS_PER_DAY \<equiv> 24 * SECS_PER_HOUR"

definition leap_year :: "int \<Rightarrow> bool" where
  "leap_year year \<longleftrightarrow> (year smod 4 = 0 \<and> year smod 100 \<noteq> 0) \<or> year smod 400 = 0"

definition is_valid_date :: "int \<Rightarrow> int \<Rightarrow> int \<Rightarrow> bool" where
  "is_valid_date year month day \<longleftrightarrow>
     (if day < 1 \<or> month < 1 \<or> year < 0 \<or> year > 9999 then False
      else if month \<in> {1, 3, 5, 7, 8, 10, 12} then day > 0 \<and> day \<le> 31
      else if month \<in> {4, 6, 9, 11} then day > 0 \<and> day \<le> 30
      else if month = 2 then
        (if leap_year year then day > 0 \<and> day \<le> 29 else day > 0 \<and> day \<le> 28)
      else False)"

definition is_valid_time :: "int \<Rightarrow> int \<Rightarrow> int \<Rightarrow> bool" where
  "is_valid_time hours minutes seconds \<longleftrightarrow>
     \<not> (hours < 0 \<or> minutes < 0 \<or> seconds < 0 \<or> hours > 23 \<or> minutes > 59 \<or> seconds > 59)"

definition is_valid_epoch_time :: "int \<Rightarrow> bool" where
  "is_valid_epoch_time time \<longleftrightarrow> - 62167219200 \<le> time \<and> time \<le> 253402300799"

definition posix_time_from_utc :: "int \<Rightarrow> int \<Rightarrow> int \<Rightarrow> int \<Rightarrow> int \<Rightarrow> int \<Rightarrow> int option" where
  "posix_time_from_utc year0 month day hours minutes seconds =
     (if \<not> is_valid_date year0 month day \<or> \<not> is_valid_time hours minutes seconds then None
      else
        let year = (if month \<le> 2 then year0 - 1 else year0);
            era = (if year \<ge> 0 then year else year - 399) sdiv 400;
            year_of_era = year - era * 400;
            day_of_year = (153 * (if month > 2 then month - 3 else month + 9) + 2) sdiv 5 + day - 1;
            day_of_era = year_of_era * 365 + year_of_era sdiv 4 - year_of_era sdiv 100 + day_of_year;
            posix_days = era * 146097 + day_of_era - 719468
        in Some (posix_days * SECS_PER_DAY + hours * SECS_PER_HOUR + minutes * 60 + seconds))"

definition utc_from_posix_time :: "int \<Rightarrow> (int \<times> int \<times> int \<times> int \<times> int \<times> int) option" where
  "utc_from_posix_time time =
     (if \<not> is_valid_epoch_time time then None
      else
        let days0 = time sdiv SECS_PER_DAY;
            left0 = time smod SECS_PER_DAY;
            days1 = (if left0 < 0 then days0 - 1 else days0);
            leftover_seconds = (if left0 < 0 then left0 + SECS_PER_DAY else left0);
            days = days1 + 719468;
            era = (if days > 0 then days else days - 146096) sdiv 146097;
            day_of_era = days - era * 146097;
            year_of_era = (day_of_era - day_of_era sdiv 1460 + day_of_era sdiv 36524
                           - day_of_era sdiv 146096) sdiv 365;
            out_year = year_of_era + era * 400;
            day_of_year = day_of_era - (365 * year_of_era + year_of_era sdiv 4 - year_of_era sdiv 100);
            month_of_year = (5 * day_of_year + 2) sdiv 153;
            out_month = (if month_of_year < 10 then month_of_year + 3 else month_of_year - 9);
            out_year' = (if out_month \<le> 2 then out_year + 1 else out_year);
            out_day = day_of_year - (153 * month_of_year + 2) sdiv 5 + 1;
            out_hours = leftover_seconds sdiv SECS_PER_HOUR;
            left1 = leftover_seconds smod SECS_PER_HOUR
        in Some (out_year', out_month, out_day, out_hours, left1 sdiv 60, left1 smod 60))"

text \<open>The fields of \<open>struct tm\<close> that the code reads and writes.\<close>

record tm =
  tm_year :: int
  tm_mon :: int
  tm_mday :: int
  tm_hour :: int
  tm_min :: int
  tm_sec :: int

definition OPENSSL_tm_to_posix :: "tm \<Rightarrow> int option" where
  "OPENSSL_tm_to_posix t =
     posix_time_from_utc (tm_year t + 1900) (tm_mon t + 1) (tm_mday t) (tm_hour t) (tm_min t) (tm_sec t)"

definition tm_of :: "int \<times> int \<times> int \<times> int \<times> int \<times> int \<Rightarrow> tm" where
  "tm_of = (\<lambda>(y, mo, d, h, mi, s).
     \<lparr>tm_year = y - 1900, tm_mon = mo - 1, tm_mday = d, tm_hour = h, tm_min = mi, tm_sec = s\<rparr>)"

definition OPENSSL_posix_to_tm :: "int \<Rightarrow> tm option" where
  "OPENSSL_posix_to_tm time = map_option tm_of (utc_from_posix_time time)"

text \<open>\<open>OPENSSL_timegm\<close> and \<open>OPENSSL_gmtime\<close>, for a \<open>time_t\<close> of \<open>time_bits\<close> (32 or 64) bits.\<close>

definition OPENSSL_timegm :: "nat \<Rightarrow> tm \<Rightarrow> int option" where
  "OPENSSL_timegm time_bits t =
     (case OPENSSL_tm_to_posix t of
        None \<Rightarrow> None
      | Some posix_time \<Rightarrow>
          if time_bits = 32 \<and> (posix_time > 2 ^ 31 - 1 \<or> posix_time < - (2 ^ 31)) then None
          else Some posix_time)"

definition OPENSSL_gmtime :: "int \<Rightarrow> tm option" where
  "OPENSSL_gmtime time = OPENSSL_posix_to_tm time"

definition OPENSSL_gmtime_adj :: "tm \<Rightarrow> int \<Rightarrow> int \<Rightarrow> tm option" where
  "OPENSSL_gmtime_adj t off_day offset_sec =
     (case OPENSSL_tm_to_posix t of
        None \<Rightarrow> None
      | Some posix_time \<Rightarrow>
          map_option tm_of (utc_from_posix_time (posix_time + off_day * SECS_PER_DAY + offset_sec)))"

definition OPENSSL_gmtime_diff :: "tm \<Rightarrow> tm \<Rightarrow> (int \<times> int) option" where
  "OPENSSL_gmtime_diff frm to =
     (case OPENSSL_tm_to_posix to of
        None \<Rightarrow> None
      | Some time_to \<Rightarrow>
          (case OPENSSL_tm_to_posix frm of
             None \<Rightarrow> None
           | Some time_from \<Rightarrow>
               let timediff = time_to - time_from;
                   daydiff = timediff sdiv SECS_PER_DAY
               in if daydiff > 2 ^ 31 - 1 \<or> daydiff < - (2 ^ 31) then None
                  else Some (daydiff, timediff smod SECS_PER_DAY)))"

section \<open>The calendar\<close>

text \<open>
  The code counts years from the first of March.  \<open>year_start y\<close> is the day of the 400-year era on
  which year \<open>y\<close> of the era starts, \<open>year_len y\<close> its length (its last day is the 29th of February
  of the next civil year, when that is a leap year), \<open>month_start m\<close> the day of the year on which
  month \<open>m\<close> (0 is March) starts and \<open>month_len m\<close> its greatest length.
\<close>

definition year_start :: "int \<Rightarrow> int" where
  "year_start y = 365 * y + y div 4 - y div 100"

definition year_len :: "int \<Rightarrow> int" where
  "year_len y = 365 + (if (y + 1) mod 4 = 0 \<and> (y + 1) mod 100 \<noteq> 0 \<or> (y + 1) mod 400 = 0 then 1 else 0)"

definition month_start :: "int \<Rightarrow> int" where
  "month_start m = (153 * m + 2) div 5"

definition month_len :: "int \<Rightarrow> int" where
  "month_len m = (if m = 11 then 29 else if m \<in> {1, 3, 6, 8} then 30 else 31)"

text \<open>The numerator of the code's formula for the year of the era, and the formula.\<close>

definition year_num :: "int \<Rightarrow> int" where
  "year_num x = x - x div 1460 + x div 36524 - x div 146096"

definition year_of :: "int \<Rightarrow> int" where
  "year_of x = year_num x div 365"

lemma sdiv_nonneg: "0 \<le> a \<Longrightarrow> 0 < b \<Longrightarrow> (a::int) sdiv b = a div b"
  by (simp add: signed_divide_int_def sgn_if)

lemma smod_nonneg: "0 \<le> a \<Longrightarrow> 0 < b \<Longrightarrow> (a::int) smod b = a mod b"
  by (cases "a = 0") (simp_all add: signed_modulo_int_def sgn_if)

lemma smod_eq_0: "0 < b \<Longrightarrow> (a::int) smod b = 0 \<longleftrightarrow> a mod b = 0"
  by (auto simp: signed_modulo_int_def sgn_if mod_eq_0_iff_dvd abs_if split: if_splits)

lemma neg_sdiv:
  assumes "0 < b" and "a < 0"
  shows "(a - (b - 1)) sdiv b = (a::int) div b"
proof -
  have "b - 1 - a = (b - 1 - a mod b) + b * (- (a div b))"
    by (simp add: minus_mult_div_eq_mod [symmetric])
  then have "(b - 1 - a) div b = - (a div b) + (b - 1 - a mod b) div b"
    using assms by (metis div_mult_self2 less_irrefl)
  moreover have "(b - 1 - a mod b) div b = 0"
    using assms pos_mod_bound [of b a] pos_mod_sign [of b a]
    by (intro div_pos_pos_trivial) linarith+
  ultimately have "- ((b - 1 - a) div b) = a div b" by simp
  then show ?thesis
    using assms by (simp add: signed_divide_int_def sgn_if)
qed

lemma floor_sdiv:
  assumes "0 < b" and "c = b - 1"
  shows "(if a \<ge> 0 then a else a - c) sdiv b = (a::int) div b"
    "(if a > 0 then a else a - c) sdiv b = (a::int) div b"
proof -
  have "(0 - (b - 1)) sdiv b = 0"
    using assms by (simp add: signed_divide_int_def)
  then show "(if a \<ge> 0 then a else a - c) sdiv b = a div b"
    "(if a > 0 then a else a - c) sdiv b = a div b"
    using neg_sdiv [of b a] sdiv_nonneg [of a b] assms
    by (cases "a = 0"; auto simp: not_le)+
qed

lemma sdiv_smod_floor:
  assumes "0 < b"
  shows "(if a smod b < 0 then a sdiv b - 1 else a sdiv b) = (a::int) div b"
    "(if a smod b < 0 then a smod b + b else a smod b) = a mod b"
proof -
  have m: "\<not> x mod b < 0" "0 < x mod b \<longleftrightarrow> x mod b \<noteq> 0" "\<not> b < x mod b" for x
    using pos_mod_sign [OF assms, of x] pos_mod_bound [OF assms, of x] by linarith+
  show "(if a smod b < 0 then a sdiv b - 1 else a sdiv b) = a div b"
    using assms zdiv_zminus1_eq_if [of b "- a"]
    by (auto simp: signed_divide_int_def signed_modulo_int_def sgn_if abs_if m)
  show "(if a smod b < 0 then a smod b + b else a smod b) = a mod b"
    using assms zmod_zminus1_eq_if [of "- a" b] pos_mod_bound [OF assms, of "- a"]
    by (auto simp: signed_divide_int_def signed_modulo_int_def sgn_if abs_if m)
qed

lemma div_plus_1:
  assumes "1 < k"
  shows "(x + 1) div k = x div k + (if k dvd x + 1 then 1 else (0::int))"
proof -
  have one: "1 div k = 0" "1 mod k = 1" using assms by simp_all
  have r: "0 \<le> x mod k" "x mod k < k" using assms by simp_all
  have "(x + 1) div k = x div k + (x mod k + 1) div k"
    using div_add1_eq [of x 1 k] one by simp
  moreover have "(x + 1) mod k = (x mod k + 1) mod k"
    by (simp add: mod_add_left_eq)
  moreover have "(x mod k + 1) div k = (if (x mod k + 1) mod k = 0 then 1 else 0)"
  proof (cases "x mod k + 1 = k")
    case True
    then show ?thesis using assms by simp
  next
    case False
    with r have "0 < x mod k + 1" "x mod k + 1 < k" by linarith+
    then show ?thesis by simp
  qed
  ultimately show ?thesis by (simp only: dvd_eq_mod_eq_0)
qed

lemma year_num_step: "year_num x \<le> year_num (x + 1)"
proof -
  have "36524 dvd x + 1" if "146096 dvd x + 1"
    using that by (rule dvd_trans [rotated]) simp
  then show ?thesis
    by (auto simp: year_num_def div_plus_1)
qed

lemma year_num_mono: "x \<le> y \<Longrightarrow> year_num x \<le> year_num y"
proof (induction "nat (y - x)" arbitrary: y)
  case 0
  then show ?case by simp
next
  case (Suc n)
  then have "year_num x \<le> year_num (y - 1)" by (intro Suc.hyps) auto
  also have "\<dots> \<le> year_num (y - 1 + 1)"
    by (rule year_num_step)
  finally show ?case by simp
qed

lemma year_of_mono: "x \<le> y \<Longrightarrow> year_of x \<le> year_of y"
  unfolding year_of_def by (intro zdiv_mono1 year_num_mono) auto

definition year_ok :: "int \<Rightarrow> bool" where
  "year_ok y \<longleftrightarrow> year_of (year_start y) = y \<and> year_of (year_start y + year_len y - 1) = y
     \<and> (y < 399 \<longrightarrow> year_start (y + 1) = year_start y + year_len y)"

lemma year_ok_c0: "\<forall>y \<in> set [0..99]. year_ok y"
  by code_simp

lemma year_ok_c1: "\<forall>y \<in> set [100..199]. year_ok y"
  by code_simp

lemma year_ok_c2: "\<forall>y \<in> set [200..299]. year_ok y"
  by code_simp

lemma year_ok_c3: "\<forall>y \<in> set [300..399]. year_ok y"
  by code_simp

lemma year_ok: "0 \<le> y \<Longrightarrow> y < 400 \<Longrightarrow> year_ok y"
proof -
  assume "0 \<le> y" and "y < 400"
  then consider "y \<in> {0..99}" | "y \<in> {100..199}" | "y \<in> {200..299}" | "y \<in> {300..399}"
    by fastforce
  then show ?thesis
    by cases (erule bspec [OF year_ok_c0 [unfolded set_upto]] bspec [OF year_ok_c1 [unfolded set_upto]]
        bspec [OF year_ok_c2 [unfolded set_upto]] bspec [OF year_ok_c3 [unfolded set_upto]])+
qed

text \<open>The last year of the era ends it, and a day of the era lies in exactly one year.\<close>

lemma year_end: "0 \<le> y \<Longrightarrow> y < 400 \<Longrightarrow> year_start y + year_len y \<le> 146097"
proof (induction "nat (399 - y)" arbitrary: y)
  case 0
  then have "y = 399" by simp
  then show ?case by (simp add: year_start_def year_len_def)
next
  case (Suc n)
  then have "y < 399" by simp
  with Suc have "year_start y + year_len y = year_start (y + 1)"
    using year_ok [of y] by (simp add: year_ok_def)
  also have "\<dots> \<le> year_start (y + 1) + year_len (y + 1)"
    by (simp add: year_len_def)
  also have "\<dots> \<le> 146097"
    using Suc \<open>y < 399\<close> by (intro Suc.hyps) auto
  finally show ?case .
qed

lemma year_of_day:
  assumes "0 \<le> y" and "y < 400" and "0 \<le> d" and "d < year_len y"
  shows "year_of (year_start y + d) = y"
proof -
  have "year_of (year_start y) \<le> year_of (year_start y + d)"
    using assms by (intro year_of_mono) simp
  moreover have "year_of (year_start y + d) \<le> year_of (year_start y + year_len y - 1)"
    using assms by (intro year_of_mono) simp
  ultimately show ?thesis using year_ok [OF assms(1,2)] by (simp add: year_ok_def)
qed

lemma day_in_year:
  assumes "0 \<le> x" and "x < 146097"
  shows "\<exists>y d. 0 \<le> y \<and> y < 400 \<and> 0 \<le> d \<and> d < year_len y \<and> x = year_start y + d"
proof -
  define k where "k = Max {k. k < 400 \<and> year_start (int k) \<le> x}"
  have fin: "finite {k. k < 400 \<and> year_start (int k) \<le> x}"
    by (rule finite_subset [of _ "{..<400}"]) auto
  moreover have "0 \<in> {k. k < 400 \<and> year_start (int k) \<le> x}"
    using assms by (simp add: year_start_def)
  ultimately have k: "k < 400" "year_start (int k) \<le> x"
    using Max_in [OF fin] unfolding k_def by blast+
  have "x < year_start (int k) + year_len (int k)"
  proof (cases "k = 399")
    case True
    then show ?thesis using assms by (simp add: year_start_def year_len_def)
  next
    case False
    have "\<not> year_start (int (Suc k)) \<le> x"
    proof
      assume "year_start (int (Suc k)) \<le> x"
      then have "Suc k \<le> k"
        using False k fin unfolding k_def by (intro Max_ge) auto
      then show False by simp
    qed
    then show ?thesis
      using False k year_ok [of "int k"] by (simp add: year_ok_def add.commute)
  qed
  then show ?thesis
    using k by (intro exI [of _ "int k"] exI [of _ "x - year_start (int k)"]) simp
qed

definition month_of :: "int \<Rightarrow> int" where
  "month_of doy = (5 * doy + 2) div 153"

definition month_ok :: "int \<Rightarrow> bool" where
  "month_ok x \<longleftrightarrow> (let m = month_of x; d = x - month_start m + 1
     in 0 \<le> m \<and> m \<le> 11 \<and> 1 \<le> d \<and> d \<le> month_len m \<and> (306 \<le> x) = (10 \<le> m))"

lemma month_ok_c0: "\<forall>x \<in> set [0..121]. month_ok x"
  by code_simp

lemma month_ok_c1: "\<forall>x \<in> set [122..243]. month_ok x"
  by code_simp

lemma month_ok_c2: "\<forall>x \<in> set [244..365]. month_ok x"
  by code_simp

lemma month_ok: "0 \<le> x \<Longrightarrow> x \<le> 365 \<Longrightarrow> month_ok x"
proof -
  assume "0 \<le> x" and "x \<le> 365"
  then consider "x \<in> {0..121}" | "x \<in> {122..243}" | "x \<in> {244..365}"
    by fastforce
  then show ?thesis
    by cases (erule bspec [OF month_ok_c0 [unfolded set_upto]] bspec [OF month_ok_c1 [unfolded set_upto]]
        bspec [OF month_ok_c2 [unfolded set_upto]])+
qed

lemma month_of_day_all:
  "\<forall>m \<in> set [0..11]. \<forall>d \<in> set [1..month_len m].
     month_of (month_start m + d - 1) = m \<and> 0 \<le> month_start m + d - 1
       \<and> month_start m + d - 1 \<le> (if m = 11 \<and> d = 29 then 365 else 364)"
  by code_simp

lemma day_of_year_march_all:
  "\<forall>m \<in> set [0..9]. month_start m + month_len m - 1 \<le> 305"
  by code_simp

lemma day_of_year_march:
  assumes "0 \<le> m" and "m \<le> 9" and "d \<le> month_len m"
  shows "month_start m + d - 1 \<le> 305"
proof -
  have "month_start m + month_len m - 1 \<le> 305"
    using bspec [OF day_of_year_march_all [unfolded set_upto], of m] assms by simp
  then show ?thesis using assms by simp
qed

lemma month_of_bounds:
  assumes "0 \<le> x" and "x \<le> 365"
  shows "0 \<le> month_of x" "month_of x \<le> 11"
    "1 \<le> x - month_start (month_of x) + 1"
    "x - month_start (month_of x) + 1 \<le> month_len (month_of x)"
  using month_ok [OF assms] by (simp_all add: month_ok_def Let_def)

lemma month_of_day:
  assumes "0 \<le> m" and "m \<le> 11" and "1 \<le> d" and "d \<le> month_len m"
  shows "month_of (month_start m + d - 1) = m" "0 \<le> month_start m + d - 1"
    "month_start m + d - 1 \<le> (if m = 11 \<and> d = 29 then 365 else 364)"
  using bspec [OF bspec [OF month_of_day_all [unfolded set_upto], of m], of d] assms by simp_all

section \<open>Both conversions in terms of the calendar\<close>

text \<open>A civil date as a March-based year, month and day, and the days from the epoch.\<close>

definition shift_year :: "int \<Rightarrow> int \<Rightarrow> int" where
  "shift_year y m = (if m \<le> 2 then y - 1 else y)"

definition shift_month :: "int \<Rightarrow> int" where
  "shift_month m = (if m > 2 then m - 3 else m + 9)"

definition civil_days :: "int \<Rightarrow> int \<Rightarrow> int \<Rightarrow> int" where
  "civil_days y m d = shift_year y m div 400 * 146097 + year_start (shift_year y m mod 400)
     + (month_start (shift_month m) + d - 1) - 719468"

lemma leap_year_mod: "leap_year y \<longleftrightarrow> (y mod 4 = 0 \<and> y mod 100 \<noteq> 0) \<or> y mod 400 = 0"
  by (simp add: leap_year_def smod_eq_0)

lemma leap_year_len: "leap_year (y + 1) \<longleftrightarrow> year_len (y mod 400) = 366"
proof -
  have "(y mod 400 + 1) mod k = (y + 1) mod k" if "k dvd 400" for k
    using that by (metis mod_add_left_eq mod_mod_cancel)
  then have eqs: "(y mod 400 + 1) mod 400 = (y + 1) mod 400" "(y mod 400 + 1) mod 4 = (y + 1) mod 4"
    "(y mod 400 + 1) mod 100 = (y + 1) mod 100" by simp_all
  show ?thesis unfolding leap_year_mod year_len_def eqs by auto
qed

lemma valid_date_iff:
  "is_valid_date y m d \<longleftrightarrow>
     0 \<le> y \<and> y \<le> 9999 \<and> 1 \<le> m \<and> m \<le> 12 \<and> 1 \<le> d \<and> d \<le> month_len (shift_month m)
     \<and> (shift_month m = 11 \<and> d = 29 \<longrightarrow> year_len (shift_year y m mod 400) = 366)"
proof (cases "m = 2")
  case True
  have "leap_year y \<longleftrightarrow> year_len ((y - 1) mod 400) = 366"
    using leap_year_len [of "y - 1"] by simp
  with True show ?thesis
    by (auto simp: is_valid_date_def shift_month_def shift_year_def month_len_def)
next
  case False
  then show ?thesis
    by (auto simp: is_valid_date_def shift_month_def month_len_def; presburger)
qed

lemma day_of_year_bounds:
  assumes "is_valid_date y m d"
  shows "0 \<le> month_start (shift_month m) + d - 1"
    "month_start (shift_month m) + d - 1 < year_len (shift_year y m mod 400)"
    "month_of (month_start (shift_month m) + d - 1) = shift_month m"
proof -
  have v: "0 \<le> shift_month m" "shift_month m \<le> 11" "1 \<le> d" "d \<le> month_len (shift_month m)"
    and leap: "shift_month m = 11 \<and> d = 29 \<longrightarrow> year_len (shift_year y m mod 400) = 366"
    using assms by (auto simp: valid_date_iff shift_month_def split: if_splits)
  from month_of_day [OF v] show "0 \<le> month_start (shift_month m) + d - 1"
    "month_of (month_start (shift_month m) + d - 1) = shift_month m" by auto
  have "365 \<le> year_len (shift_year y m mod 400)" by (simp add: year_len_def)
  with month_of_day(3) [OF v] leap
  show "month_start (shift_month m) + d - 1 < year_len (shift_year y m mod 400)"
    by (auto split: if_splits)
qed

lemma posix_time_from_utc_eq:
  assumes "is_valid_date y m d" and "is_valid_time h mi s"
  shows "posix_time_from_utc y m d h mi s = Some (civil_days y m d * 86400 + h * 3600 + mi * 60 + s)"
proof -
  have "shift_month m \<ge> 0" using assms by (auto simp: valid_date_iff shift_month_def)
  then have mo: "(153 * shift_month m + 2) sdiv 5 = month_start (shift_month m)"
    by (simp add: sdiv_nonneg month_start_def)
  have era: "(if shift_year y m \<ge> 0 then shift_year y m else shift_year y m - 399) sdiv 400
      = shift_year y m div 400"
    by (rule floor_sdiv) simp_all
  have yoe: "shift_year y m - shift_year y m div 400 * 400 = shift_year y m mod 400"
    by (simp add: minus_div_mult_eq_mod)
  have q: "(shift_year y m mod 400) sdiv 4 = shift_year y m mod 400 div 4"
    "(shift_year y m mod 400) sdiv 100 = shift_year y m mod 400 div 100"
    by (simp_all add: sdiv_nonneg)
  show ?thesis
    using assms
    unfolding posix_time_from_utc_def Let_def
    by (simp only: flip: shift_year_def shift_month_def)
      (simp add: era yoe mo q civil_days_def year_start_def)
qed

lemma day_split:
  assumes "0 \<le> (r::int)" and "r < 86400"
  shows "(k * 86400 + r) div 86400 = k" "(k * 86400 + r) mod 86400 = r"
  using assms by simp_all

lemma utc_from_posix_time_eq:
  assumes "is_valid_epoch_time t"
    and t: "t = (era * 146097 + (year_start yo + doy) - 719468) * 86400 + r"
    and "0 \<le> r" "r < 86400" "0 \<le> yo" "yo < 400" "0 \<le> doy" "doy < year_len yo"
  shows "utc_from_posix_time t =
    (let m = (if month_of doy < 10 then month_of doy + 3 else month_of doy - 9)
     in Some (era * 400 + yo + (if m \<le> 2 then 1 else 0), m, doy - month_start (month_of doy) + 1,
              r div 3600, r mod 3600 div 60, r mod 60))"
proof -
  define N where "N = era * 146097 + (year_start yo + doy)"
  have doe: "0 \<le> year_start yo + doy" "year_start yo + doy < 146097"
    using assms year_end [of yo] by (auto simp: year_start_def)
  then have N: "N div 146097 = era" "N mod 146097 = year_start yo + doy"
    by (simp_all add: N_def)
  have tN: "t = (N - 719468) * 86400 + r"
    by (simp add: t N_def)
  have tdiv: "t div 86400 = N - 719468" "t mod 86400 = r"
    unfolding tN by (rule day_split; fact)+
  have days: "(if t smod 86400 < 0 then t sdiv 86400 - 1 else t sdiv 86400) = t div 86400"
    "(if t smod 86400 < 0 then t smod 86400 + 86400 else t smod 86400) = t mod 86400"
    by (rule sdiv_smod_floor; simp)+
  have e: "(if N > 0 then N else N - 146096) sdiv 146097 = era"
    using floor_sdiv(2) [of 146097 146096 N] N by simp
  have y: "(x - x sdiv 1460 + x sdiv 36524 - x sdiv 146096) sdiv 365 = year_of x" if "0 \<le> x" for x
  proof -
    have "year_num 0 \<le> year_num x" using that by (rule year_num_mono)
    then have "0 \<le> year_num x" by (simp add: year_num_def)
    then show ?thesis using that by (simp add: year_of_def year_num_def sdiv_nonneg)
  qed
  have yo: "year_of (year_start yo + doy) = yo"
    using assms by (intro year_of_day)
  have doy: "year_start yo + doy - (365 * yo + yo sdiv 4 - yo sdiv 100) = doy"
    using assms by (simp add: year_start_def sdiv_nonneg)
  have "0 \<le> month_of doy" using assms by (simp add: month_of_def)
  then have mo: "(5 * doy + 2) sdiv 153 = month_of doy"
    "(153 * month_of doy + 2) sdiv 5 = month_start (month_of doy)"
    using assms by (simp_all add: month_of_def month_start_def sdiv_nonneg)
  have r: "r sdiv 3600 = r div 3600" "r smod 3600 sdiv 60 = r mod 3600 div 60"
    "r smod 3600 smod 60 = r mod 60"
    using assms by (simp_all add: sdiv_nonneg smod_nonneg mod_mod_cancel)
  have *: "N - era * 146097 = year_start yo + doy" by (simp add: N_def)
  have cst: "60 * 60 = (3600::int)" "24 * 3600 = (86400::int)" by simp_all
  have "utc_from_posix_time t = (let m = (if month_of doy < 10 then month_of doy + 3 else month_of doy - 9);
      y = yo + era * 400
     in Some (if m \<le> 2 then y + 1 else y, m, doy - month_start (month_of doy) + 1,
              r div 3600, r mod 3600 div 60, r mod 60))"
    unfolding utc_from_posix_time_def Let_def
    by (simp only: assms(1) cst days tdiv diff_add_cancel e * y [OF doe(1)] yo doy mo r
        not_True_eq_False if_False)
  then show ?thesis by (simp add: Let_def)
qed

section \<open>Round trips\<close>

lemma year_start_linear:
  "y div 400 * 146097 + year_start (y mod 400) = 365 * y + y div 4 - y div 100 + y div 400"
proof -
  define e yo where "e = y div 400" and "yo = y mod 400"
  have y: "y = 400 * e + yo" by (simp add: e_def yo_def)
  have "(400 * e + yo) div 4 = 100 * e + yo div 4" "(400 * e + yo) div 100 = 4 * e + yo div 100"
    by simp_all
  then show ?thesis
    unfolding e_def [symmetric] yo_def [symmetric] by (simp add: y year_start_def)
qed

lemma civil_days_linear:
  "civil_days y m d = 365 * shift_year y m + shift_year y m div 4 - shift_year y m div 100
     + shift_year y m div 400 + (month_start (shift_month m) + d - 1) - 719468"
  unfolding civil_days_def year_start_linear ..

lemma civil_days_range:
  assumes "is_valid_date y m d"
  shows "- 719528 \<le> civil_days y m d" "civil_days y m d \<le> 2932896"
proof -
  define Y doy where "Y = shift_year y m" and "doy = month_start (shift_month m) + d - 1"
  have v: "0 \<le> y" "y \<le> 9999" "1 \<le> m" "m \<le> 12" "1 \<le> d" "d \<le> month_len (shift_month m)"
    using assms by (simp_all add: valid_date_iff)
  have len: "year_len (Y mod 400) \<le> 366" by (simp add: year_len_def)
  have doy: "0 \<le> doy" "doy \<le> 365"
    using day_of_year_bounds(1,2) [OF assms] len by (simp_all add: doy_def Y_def)
  have eq: "civil_days y m d = 365 * Y + Y div 4 - Y div 100 + Y div 400 + doy - 719468"
    unfolding civil_days_linear Y_def doy_def ..
  have early: "306 \<le> doy" if "m \<le> 2"
    using that v by (auto simp: doy_def month_start_def shift_month_def; presburger)
  have late: "doy \<le> 305" if "\<not> m \<le> 2"
    using day_of_year_march that v by (simp add: doy_def shift_month_def)
  have bound: "Y div 400 \<le> Y div 100" if "0 \<le> Y"
    using that by (intro zdiv_mono2) auto
  have "Y = - 1 \<and> m \<le> 2 \<or> 0 \<le> Y"
    using v by (auto simp: Y_def shift_year_def)
  then show "- 719528 \<le> civil_days y m d"
  proof
    assume "Y = - 1 \<and> m \<le> 2"
    then show ?thesis using early by (simp add: eq)
  next
    assume "0 \<le> Y"
    then have "Y div 100 \<le> Y" "0 \<le> Y div 4" "0 \<le> Y div 400" by (simp_all add: div_le_dividend)
    with \<open>0 \<le> Y\<close> doy show ?thesis by (simp add: eq)
  qed
  consider "Y = - 1" | "0 \<le> Y" "Y \<le> 9998" | "Y = 9999" "\<not> m \<le> 2"
    using v unfolding Y_def shift_year_def by (cases "m \<le> 2") force+
  then show "civil_days y m d \<le> 2932896"
  proof cases
    case 1
    then show ?thesis using doy by (simp add: eq)
  next
    case 2
    then have "Y div 4 \<le> 2499" by simp
    with 2 bound doy show ?thesis by (simp add: eq)
  next
    case 3
    then show ?thesis using late by (simp add: eq)
  qed
qed

theorem posix_time_of_valid:
  assumes "is_valid_date y m d" and "is_valid_time h mi s"
  shows "\<exists>t. posix_time_from_utc y m d h mi s = Some t \<and> is_valid_epoch_time t
    \<and> utc_from_posix_time t = Some (y, m, d, h, mi, s)"
proof -
  define t where "t = civil_days y m d * 86400 + h * 3600 + mi * 60 + s"
  define era yo doy where "era = shift_year y m div 400" and "yo = shift_year y m mod 400"
    and "doy = month_start (shift_month m) + d - 1"
  have v: "0 \<le> h" "h < 24" "0 \<le> mi" "mi < 60" "0 \<le> s" "s < 60"
    using assms(2) by (auto simp: is_valid_time_def)
  define r where "r = h * 3600 + mi * 60 + s"
  have r: "0 \<le> r" "r < 86400" using v by (simp_all add: r_def)
  have epoch: "is_valid_epoch_time t"
    using civil_days_range [OF assms(1)] r by (simp add: is_valid_epoch_time_def t_def r_def)
  have teq: "t = (era * 146097 + (year_start yo + doy) - 719468) * 86400 + r"
    by (simp add: t_def civil_days_def era_def yo_def doy_def r_def)
  have doy: "0 \<le> doy" "doy < year_len yo" "month_of doy = shift_month m"
    using day_of_year_bounds [OF assms(1)] by (simp_all add: doy_def yo_def)
  have mo: "(if month_of doy < 10 then month_of doy + 3 else month_of doy - 9) = m"
    using assms(1) by (auto simp: doy(3) shift_month_def valid_date_iff)
  have day: "doy - month_start (month_of doy) + 1 = d" by (simp add: doy(3)) (simp add: doy_def)
  have year: "era * 400 + yo + (if m \<le> 2 then 1 else 0) = y"
    by (simp add: era_def yo_def shift_year_def)
  have "r = (mi * 60 + s) + h * 3600" "r = s + (h * 60 + mi) * 60" by (simp_all add: r_def)
  then have "r mod 3600 = (mi * 60 + s) mod 3600" "r mod 60 = s mod 60"
    by (metis mod_mult_self1)+
  then have hms: "r div 3600 = h" "r mod 3600 div 60 = mi" "r mod 60 = s"
    using v by (simp_all add: r_def)
  have "utc_from_posix_time t = Some (y, m, d, h, mi, s)"
    using utc_from_posix_time_eq [OF epoch teq r _ _ doy(1,2)]
    by (simp add: Let_def mo day year hms) (simp add: yo_def)
  moreover have "posix_time_from_utc y m d h mi s = Some t"
    using posix_time_from_utc_eq [OF assms] by (simp add: t_def)
  ultimately show ?thesis using epoch by blast
qed

lemma civil_year_range:
  assumes "0 \<le> doy" and "doy \<le> 365"
    and "- 60 \<le> 365 * Y + Y div 4 - Y div 100 + Y div 400 + doy"
    and "365 * Y + Y div 4 - Y div 100 + Y div 400 + doy \<le> 3652364"
  shows "0 \<le> Y \<and> Y \<le> 9998 \<or> Y = - 1 \<and> 10 \<le> month_of doy \<or> Y = 9999 \<and> month_of doy < 10"
proof -
  have march: "(306 \<le> doy) = (10 \<le> month_of doy)" using month_ok [OF assms(1,2)] by (simp add: month_ok_def Let_def)
  have "4 * (Y div 4) \<le> Y" "Y - 3 \<le> 4 * (Y div 4)" "100 * (Y div 100) \<le> Y"
    "Y - 99 \<le> 100 * (Y div 100)" "400 * (Y div 400) \<le> Y" "Y - 399 \<le> 400 * (Y div 400)"
    by presburger+
  with assms have "- 1 \<le> Y" "Y \<le> 9999" by linarith+
  then consider "Y = - 1" | "0 \<le> Y" "Y \<le> 9998" | "Y = 9999" by linarith
  then show ?thesis
    using assms march by cases auto
qed

theorem posix_time_of_epoch:
  assumes "is_valid_epoch_time t"
  shows "\<exists>y m d h mi s. utc_from_posix_time t = Some (y, m, d, h, mi, s)
    \<and> is_valid_date y m d \<and> is_valid_time h mi s \<and> posix_time_from_utc y m d h mi s = Some t"
proof -
  define N r where "N = t div 86400 + 719468" and "r = t mod 86400"
  define era where "era = N div 146097"
  have r: "0 \<le> r" "r < 86400" by (simp_all add: r_def)
  obtain yo doy where yo: "0 \<le> yo" "yo < 400" and doy: "0 \<le> doy" "doy < year_len yo"
    and x: "N mod 146097 = year_start yo + doy"
    using day_in_year [of "N mod 146097"] by auto
  have N: "N = era * 146097 + (year_start yo + doy)" by (simp add: era_def flip: x)
  have t: "t = (era * 146097 + (year_start yo + doy) - 719468) * 86400 + r"
    unfolding N [symmetric] by (simp add: N_def r_def)
  define Y where "Y = era * 400 + yo"
  have Y: "Y div 400 = era" "Y mod 400 = yo" using yo by (simp_all add: Y_def)
  have Nlin: "N = 365 * Y + Y div 4 - Y div 100 + Y div 400 + doy"
    using year_start_linear [of Y] by (simp add: N Y)
  have rng: "- 60 \<le> N" "N \<le> 3652364"
    using assms by (auto simp: N_def is_valid_epoch_time_def)
  have d365: "doy \<le> 365" using doy by (auto simp: year_len_def split: if_splits)
  define M where "M = month_of doy"
  define m where "m = (if M < 10 then M + 3 else M - 9)"
  define d where "d = doy - month_start M + 1"
  define y where "y = Y + (if m \<le> 2 then 1 else 0)"
  have M: "0 \<le> M" "M \<le> 11" "1 \<le> d" "d \<le> month_len M"
    using month_of_bounds [OF doy(1) d365] by (simp_all add: M_def d_def)
  have sh: "shift_month m = M" "shift_year y m = Y" "1 \<le> m" "m \<le> 12" "m \<le> 2 \<longleftrightarrow> 10 \<le> M"
    using M by (auto simp: shift_month_def shift_year_def m_def y_def)
  have "0 \<le> Y \<and> Y \<le> 9998 \<or> Y = - 1 \<and> 10 \<le> M \<or> Y = 9999 \<and> M < 10"
    using civil_year_range [OF doy(1) d365] rng by (simp add: Nlin M_def)
  then have "0 \<le> y" "y \<le> 9999" using sh(5) by (auto simp: y_def)
  moreover have "year_len yo = 366" if "M = 11" "d = 29"
    using that doy d365 by (auto simp: d_def month_start_def year_len_def split: if_splits)
  ultimately have vd: "is_valid_date y m d"
    using M sh by (auto simp: valid_date_iff Y)
  have bnd: "0 \<le> x mod 3600" "x mod 3600 < 3600" "x = 3600 * (x div 3600) + x mod 3600"
    "0 \<le> x mod 60" "x mod 60 < 60" "x = 60 * (x div 60) + x mod 60" for x :: int
    by simp_all
  have "r div 3600 < 24" "r mod 3600 div 60 < 60"
    using r bnd(1-3) [of r] bnd(4-6) [of "r mod 3600"] by linarith+
  have "r mod 3600 mod 60 = r mod 60" by (rule mod_mod_cancel) simp
  then have rsplit: "r div 3600 * 3600 + (r mod 3600 div 60 * 60 + r mod 60) = r"
    using bnd(3) [of r] bnd(6) [of "r mod 3600"] by linarith
  have vt: "is_valid_time (r div 3600) (r mod 3600 div 60) (r mod 60)"
    using r \<open>r div 3600 < 24\<close> \<open>r mod 3600 div 60 < 60\<close> by (auto simp: is_valid_time_def)
  have "utc_from_posix_time t = Some (y, m, d, r div 3600, r mod 3600 div 60, r mod 60)"
    using utc_from_posix_time_eq [OF assms t r yo doy]
    by (simp add: Let_def y_def Y_def m_def [unfolded M_def] d_def M_def)
  moreover have "civil_days y m d = N - 719468"
    using sh by (simp add: civil_days_def Y N d_def)
  then have "posix_time_from_utc y m d (r div 3600) (r mod 3600 div 60) (r mod 60) = Some t"
    using posix_time_from_utc_eq [OF vd vt] rsplit t [folded N]
    by (simp add: add.assoc)
  ultimately show ?thesis using vd vt by blast
qed

section \<open>The operations on \<open>struct tm\<close>\<close>

text \<open>A \<open>tm\<close> whose fields are a date of the years 0000 to 9999 and a time of day.\<close>

definition valid_tm :: "tm \<Rightarrow> bool" where
  "valid_tm t \<longleftrightarrow> is_valid_date (tm_year t + 1900) (tm_mon t + 1) (tm_mday t)
     \<and> is_valid_time (tm_hour t) (tm_min t) (tm_sec t)"

lemma tm_to_posix_None: "\<not> valid_tm t \<Longrightarrow> OPENSSL_tm_to_posix t = None"
  by (auto simp: valid_tm_def OPENSSL_tm_to_posix_def posix_time_from_utc_def)

lemma posix_to_tm_None: "\<not> is_valid_epoch_time t \<Longrightarrow> OPENSSL_posix_to_tm t = None"
  by (simp add: OPENSSL_posix_to_tm_def utc_from_posix_time_def)

lemma tm_to_posix_valid:
  assumes "valid_tm t"
  obtains s where "OPENSSL_tm_to_posix t = Some s" "is_valid_epoch_time s"
    "OPENSSL_posix_to_tm s = Some t"
  using posix_time_of_valid [of "tm_year t + 1900" "tm_mon t + 1" "tm_mday t" "tm_hour t" "tm_min t" "tm_sec t"]
    assms
  by (auto simp: valid_tm_def OPENSSL_tm_to_posix_def OPENSSL_posix_to_tm_def tm_of_def)

lemma posix_to_tm_valid:
  assumes "is_valid_epoch_time s"
  obtains t where "OPENSSL_posix_to_tm s = Some t" "valid_tm t" "OPENSSL_tm_to_posix t = Some s"
  using posix_time_of_epoch [OF assms]
  by (auto simp: valid_tm_def OPENSSL_tm_to_posix_def OPENSSL_posix_to_tm_def tm_of_def)

lemma tm_to_posix_iff: "OPENSSL_tm_to_posix t = Some s \<longleftrightarrow> OPENSSL_posix_to_tm s = Some t"
  by (metis option.distinct(1) option.inject posix_to_tm_None posix_to_tm_valid tm_to_posix_None
      tm_to_posix_valid)

lemma gmtime_adj_posix_to_tm:
  "OPENSSL_gmtime_adj t days secs =
     Option.bind (OPENSSL_tm_to_posix t) (\<lambda>s. OPENSSL_posix_to_tm (s + days * 86400 + secs))"
  by (simp add: OPENSSL_gmtime_adj_def OPENSSL_posix_to_tm_def split: option.split)

lemma epoch_of_tm: "OPENSSL_tm_to_posix t = Some s \<Longrightarrow> is_valid_epoch_time s"
  using posix_to_tm_None tm_to_posix_iff by force

text \<open>
  The two conversions are inverse bijections between the broken-down UTC times of the years
  0000 to 9999 and the epoch times of that range, and each fails exactly outside of its domain.
\<close>

theorem posix_tm_bijection:
  "(OPENSSL_tm_to_posix t = Some s) = (OPENSSL_posix_to_tm s = Some t)
   \<and> (OPENSSL_tm_to_posix t = None) = (\<not> valid_tm t)
   \<and> (OPENSSL_posix_to_tm s = None) = (\<not> is_valid_epoch_time s)"
  using tm_to_posix_iff tm_to_posix_None posix_to_tm_None
  by (metis option.distinct(1) posix_to_tm_valid tm_to_posix_valid)

text \<open>
  Adjusting a time moves it by exactly the requested days and seconds; the call fails exactly
  when the start or the result is outside of the supported range.
\<close>

theorem gmtime_adj_exact:
  "OPENSSL_gmtime_adj t days secs = Some t' \<longleftrightarrow>
   (\<exists>s. OPENSSL_tm_to_posix t = Some s \<and> OPENSSL_tm_to_posix t' = Some (s + days * 86400 + secs))"
  by (auto simp: gmtime_adj_posix_to_tm tm_to_posix_iff bind_eq_Some_conv)

lemma smod_sdiv: "(a::int) sdiv b * b + a smod b = a"
  using smod_sdiv_mult_eq [of a b] by simp

lemma sdiv_sign: "0 < b \<Longrightarrow> 0 \<le> a \<Longrightarrow> 0 \<le> (a::int) sdiv b" "0 < b \<Longrightarrow> a \<le> 0 \<Longrightarrow> (a::int) sdiv b \<le> 0"
  by (auto simp: signed_divide_int_def sgn_if pos_imp_zdiv_nonneg_iff)

text \<open>
  The difference of two valid times is split into days and seconds of the same sign.
\<close>

theorem gmtime_diff_exact:
  assumes "OPENSSL_tm_to_posix frm = Some a" and "OPENSSL_tm_to_posix to = Some b"
  shows "\<exists>days secs. OPENSSL_gmtime_diff frm to = Some (days, secs) \<and> b = a + days * 86400 + secs
    \<and> \<bar>secs\<bar> < 86400 \<and> (a \<le> b \<longrightarrow> 0 \<le> days \<and> 0 \<le> secs) \<and> (b \<le> a \<longrightarrow> days \<le> 0 \<and> secs \<le> 0)"
proof -
  define d where "d = b - a"
  have "is_valid_epoch_time a" "is_valid_epoch_time b"
    using assms by (auto dest: epoch_of_tm)
  then have rng: "- 315569519999 \<le> d" "d \<le> 315569519999"
    by (simp_all add: is_valid_epoch_time_def d_def)
  have split: "d sdiv 86400 * 86400 + d smod 86400 = d" by (rule smod_sdiv)
  have secs: "\<bar>d smod 86400\<bar> < 86400" "0 \<le> d \<longrightarrow> 0 \<le> d smod 86400" "d \<le> 0 \<longrightarrow> d smod 86400 \<le> 0"
    by (auto simp: signed_modulo_int_def sgn_if)
  have days: "0 \<le> d \<longrightarrow> 0 \<le> d sdiv 86400" "d \<le> 0 \<longrightarrow> d sdiv 86400 \<le> 0"
    by (auto intro: sdiv_sign)
  have "d sdiv 86400 \<le> 2 ^ 31 - 1" "- (2 ^ 31) \<le> d sdiv 86400"
    using split secs(1) rng by simp_all
  then have "OPENSSL_gmtime_diff frm to = Some (d sdiv 86400, d smod 86400)"
    using assms by (simp add: OPENSSL_gmtime_diff_def Let_def d_def)
  with split secs days show ?thesis
    by (intro exI [of _ "d sdiv 86400"] exI [of _ "d smod 86400"]) (auto simp: d_def)
qed

end
