(* ===== verification/Cbs.thy ===== *)
theory Cbs
  imports Internal PosixTime
begin

text \<open>
  \<open>crypto/bytestring/cbs.c\<close>: the parser over a \<open>CBS\<close>, a pointer and a length into a buffer that
  the parser never writes.  A \<open>CBS\<close> is the list of the bytes it still covers.  An operation
  that takes \<open>CBS *cbs\<close> is a function of type \<open>'a cbs_op\<close>: it returns the output, or
  \<open>None\<close> for the C result 0, together with what is left of \<open>cbs\<close>, on failure too, because several
  operations have consumed part of their input when they fail.  A local copy of a \<open>CBS\<close> is a run
  whose rest is dropped.
\<close>

type_synonym cbs = bytes
type_synonym 'a cbs_op = "cbs \<Rightarrow> 'a option \<times> cbs"

text \<open>The chain \<open>if (!f(cbs, &x)) return 0; ...\<close> and its ends.\<close>

definition cbs_bind :: "'a cbs_op \<Rightarrow> ('a \<Rightarrow> 'b cbs_op) \<Rightarrow> 'b cbs_op" where
  "cbs_bind p f c = (case p c of (None, c') \<Rightarrow> (None, c') | (Some x, c') \<Rightarrow> f x c')"

definition cbs_ret :: "'a \<Rightarrow> 'a cbs_op" where
  "cbs_ret x c = (Some x, c)"

definition cbs_fail :: "'a cbs_op" where
  "cbs_fail c = (None, c)"

definition cbs_guard :: "bool \<Rightarrow> unit cbs_op" where
  "cbs_guard b = (if b then cbs_ret () else cbs_fail)"

lemma cbs_bind_simps [simp]:
  "p c = (None, c') \<Longrightarrow> cbs_bind p f c = (None, c')"
  "p c = (Some x, c') \<Longrightarrow> cbs_bind p f c = f x c'"
  by (simp_all add: cbs_bind_def)

lemma cbs_bind_Some_iff:
  "cbs_bind p f c = (Some y, c'') \<longleftrightarrow> (\<exists>x c'. p c = (Some x, c') \<and> f x c' = (Some y, c''))"
  by (auto simp: cbs_bind_def split: prod.splits option.splits)

lemma cbs_ret_Some_iff [simp]: "cbs_ret x c = (Some y, c') \<longleftrightarrow> y = x \<and> c' = c"
  by (auto simp: cbs_ret_def)

lemma cbs_fail_Some_iff [simp]: "cbs_fail c = (Some y, c') \<longleftrightarrow> False"
  by (simp add: cbs_fail_def)

lemma cbs_guard_Some_iff [simp]: "cbs_guard b c = (Some u, c') \<longleftrightarrow> b \<and> c' = c"
  by (auto simp: cbs_guard_def)

section \<open>Bytes and integers\<close>

definition CBS_init :: "bytes \<Rightarrow> nat \<Rightarrow> cbs" where
  "CBS_init data len = take len data"

definition cbs_get :: "nat \<Rightarrow> bytes cbs_op" where
  "cbs_get n c = (if length c < n then (None, c) else (Some (take n c), drop n c))"

definition CBS_skip :: "nat \<Rightarrow> unit cbs_op" where
  "CBS_skip len = cbs_bind (cbs_get len) (\<lambda>_. cbs_ret ())"

definition CBS_data :: "cbs \<Rightarrow> bytes" where
  "CBS_data c = c"

definition CBS_len :: "cbs \<Rightarrow> nat" where
  "CBS_len c = length c"

text \<open>
  \<open>CBS_stow\<close> and \<open>CBS_strdup\<close> allocate; \<open>alloc n\<close> says whether an allocation of \<open>n\<close> bytes succeeds.
  The result is the C return value and the new content of \<open>*out_ptr\<close> (\<open>None\<close> for \<open>NULL\<close>); the
  old content is freed first.
\<close>

definition CBS_stow :: "(nat \<Rightarrow> bool) \<Rightarrow> cbs \<Rightarrow> bool \<times> bytes option" where
  "CBS_stow alloc c =
     (if length c = 0 then (True, None)
      else if alloc (length c) then (True, Some c) else (False, None))"

definition CBS_strdup :: "(nat \<Rightarrow> bool) \<Rightarrow> cbs \<Rightarrow> bool \<times> bytes option" where
  "CBS_strdup alloc c =
     (case OPENSSL_strnlen c (length c) of
        None \<Rightarrow> (False, None)
      | Some n \<Rightarrow>
          if size_add n 1 < n then (False, None)
          else if alloc (n + 1) then (True, Some (take n c @ [0])) else (False, None))"

definition CBS_contains_zero_byte :: "cbs \<Rightarrow> bool" where
  "CBS_contains_zero_byte c \<longleftrightarrow> 0 \<in> set c"

definition CBS_mem_equal :: "cbs \<Rightarrow> bytes \<Rightarrow> nat \<Rightarrow> bool" where
  "CBS_mem_equal c data len \<longleftrightarrow>
     (if len \<noteq> length c then False else CRYPTO_memcmp c data len = 0)"

text \<open>The accumulation loop of \<open>cbs_get_u\<close>: \<open>result <<= 8; result |= data[i]\<close>.\<close>

definition be_acc :: "u64 \<Rightarrow> bytes \<Rightarrow> u64" where
  "be_acc r bs = foldl (\<lambda>r b. push_bit 8 r OR ucast b) r bs"

definition cbs_get_u :: "nat \<Rightarrow> u64 cbs_op" where
  "cbs_get_u len = cbs_bind (cbs_get len) (\<lambda>data. cbs_ret (be_acc 0 data))"

definition CBS_get_u8 :: "u8 cbs_op" where
  "CBS_get_u8 = cbs_bind (cbs_get 1) (\<lambda>v. cbs_ret (hd v))"

definition CBS_get_u16 :: "u16 cbs_op" where
  "CBS_get_u16 = cbs_bind (cbs_get_u 2) (\<lambda>v. cbs_ret (ucast v))"

definition CBS_get_u16le :: "u16 cbs_op" where
  "CBS_get_u16le = cbs_bind CBS_get_u16 (\<lambda>v. cbs_ret (CRYPTO_bswap2 v))"

definition CBS_get_u24 :: "u32 cbs_op" where
  "CBS_get_u24 = cbs_bind (cbs_get_u 3) (\<lambda>v. cbs_ret (ucast v))"

definition CBS_get_u32 :: "u32 cbs_op" where
  "CBS_get_u32 = cbs_bind (cbs_get_u 4) (\<lambda>v. cbs_ret (ucast v))"

definition CBS_get_u32le :: "u32 cbs_op" where
  "CBS_get_u32le = cbs_bind CBS_get_u32 (\<lambda>v. cbs_ret (CRYPTO_bswap4 v))"

definition CBS_get_u64 :: "u64 cbs_op" where
  "CBS_get_u64 = cbs_get_u 8"

definition CBS_get_u64le :: "u64 cbs_op" where
  "CBS_get_u64le = cbs_bind (cbs_get_u 8) (\<lambda>v. cbs_ret (CRYPTO_bswap8 v))"

definition CBS_get_last_u8 :: "u8 cbs_op" where
  "CBS_get_last_u8 c = (if length c = 0 then (None, c) else (Some (last c), butlast c))"

definition CBS_get_bytes :: "nat \<Rightarrow> cbs cbs_op" where
  "CBS_get_bytes len = cbs_get len"

definition CBS_copy_bytes :: "nat \<Rightarrow> bytes cbs_op" where
  "CBS_copy_bytes len = cbs_get len"

definition cbs_get_length_prefixed :: "nat \<Rightarrow> cbs cbs_op" where
  "cbs_get_length_prefixed len_len = cbs_bind (cbs_get_u len_len) (\<lambda>len. CBS_get_bytes (unat len))"

definition CBS_get_u8_length_prefixed :: "cbs cbs_op" where
  "CBS_get_u8_length_prefixed = cbs_get_length_prefixed 1"

definition CBS_get_u16_length_prefixed :: "cbs cbs_op" where
  "CBS_get_u16_length_prefixed = cbs_get_length_prefixed 2"

definition CBS_get_u24_length_prefixed :: "cbs cbs_op" where
  "CBS_get_u24_length_prefixed = cbs_get_length_prefixed 3"

definition CBS_get_until_first :: "u8 \<Rightarrow> cbs cbs_op" where
  "CBS_get_until_first ch c =
     (if ch \<notin> set c then (None, c) else CBS_get_bytes (length (takeWhile (\<lambda>x. x \<noteq> ch) c)) c)"

text \<open>The digit loop of \<open>CBS_get_u64_decimal\<close>, with its checks for a stray zero and overflow.\<close>

fun u64_decimal_loop :: "u64 \<Rightarrow> bool \<Rightarrow> cbs \<Rightarrow> u64 option \<times> cbs" where
  "u64_decimal_loop v seen_digit [] = (if seen_digit then Some v else None, [])"
| "u64_decimal_loop v seen_digit (c # cs) =
     (if \<not> OPENSSL_isdigit c then (if seen_digit then Some v else None, c # cs)
      else if (v = 0 \<and> seen_digit) \<or> v > (- 1) div 10 \<or> v * 10 > - 1 - (ucast c - 0x30)
      then (None, cs)
      else u64_decimal_loop (v * 10 + (ucast c - 0x30)) True cs)"

definition CBS_get_u64_decimal :: "u64 cbs_op" where
  "CBS_get_u64_decimal = u64_decimal_loop 0 False"

section \<open>ASN.1 elements\<close>

type_synonym asn1_tag = u32

abbreviation CBS_ASN1_TAG_SHIFT :: nat where "CBS_ASN1_TAG_SHIFT \<equiv> 24"

definition CBS_ASN1_CONSTRUCTED :: asn1_tag where
  "CBS_ASN1_CONSTRUCTED = push_bit CBS_ASN1_TAG_SHIFT 0x20"

definition CBS_ASN1_CONTEXT_SPECIFIC :: asn1_tag where
  "CBS_ASN1_CONTEXT_SPECIFIC = push_bit CBS_ASN1_TAG_SHIFT 0x80"

definition CBS_ASN1_CLASS_MASK :: asn1_tag where
  "CBS_ASN1_CLASS_MASK = push_bit CBS_ASN1_TAG_SHIFT 0xc0"

definition CBS_ASN1_TAG_NUMBER_MASK :: asn1_tag where
  "CBS_ASN1_TAG_NUMBER_MASK = push_bit (5 + CBS_ASN1_TAG_SHIFT) 1 - 1"

definition CBS_ASN1_BOOLEAN :: asn1_tag where "CBS_ASN1_BOOLEAN = 0x1"
definition CBS_ASN1_INTEGER :: asn1_tag where "CBS_ASN1_INTEGER = 0x2"
definition CBS_ASN1_BITSTRING :: asn1_tag where "CBS_ASN1_BITSTRING = 0x3"
definition CBS_ASN1_OCTETSTRING :: asn1_tag where "CBS_ASN1_OCTETSTRING = 0x4"
definition CBS_ASN1_SEQUENCE :: asn1_tag where "CBS_ASN1_SEQUENCE = 0x10 OR CBS_ASN1_CONSTRUCTED"
definition CBS_ASN1_SET :: asn1_tag where "CBS_ASN1_SET = 0x11 OR CBS_ASN1_CONSTRUCTED"

text \<open>
  \<open>parse_base128_integer\<close>: the do-while loop, with the value read so far.  A byte is consumed before
  the checks on it.
\<close>

fun base128_loop :: "u64 \<Rightarrow> cbs \<Rightarrow> u64 option \<times> cbs" where
  "base128_loop v [] = (None, [])"
| "base128_loop v (b # c) =
     (if drop_bit (64 - 7) v \<noteq> 0 then (None, c)
      else if v = 0 \<and> b = 0x80 then (None, c)
      else let v' = push_bit 7 v OR ucast (b AND 0x7f)
           in if b AND 0x80 \<noteq> 0 then base128_loop v' c else (Some v', c))"

definition parse_base128_integer :: "u64 cbs_op" where
  "parse_base128_integer = base128_loop 0"

text \<open>The tag number: the low bits of the first byte, or a long form that has to be needed.\<close>

definition parse_asn1_tag_number :: "u8 \<Rightarrow> u32 cbs_op" where
  "parse_asn1_tag_number tag_byte =
     (if tag_byte AND 0x1f = 0x1f then
        cbs_bind parse_base128_integer (\<lambda>v.
          if v > ucast CBS_ASN1_TAG_NUMBER_MASK \<or> v < 0x1f then cbs_fail else cbs_ret (ucast v))
      else cbs_ret (ucast (tag_byte AND 0x1f)))"

definition parse_asn1_tag :: "asn1_tag cbs_op" where
  "parse_asn1_tag = cbs_bind CBS_get_u8 (\<lambda>tag_byte.
     cbs_bind (parse_asn1_tag_number tag_byte) (\<lambda>tag_number.
     let tag = push_bit CBS_ASN1_TAG_SHIFT (ucast tag_byte AND 0xe0) OR tag_number
     in if tag AND NOT CBS_ASN1_CONSTRUCTED = 0 then cbs_fail else cbs_ret tag))"

text \<open>What \<open>cbs_get_any_asn1_element\<close> writes through its output pointers.\<close>

record asn1_element =
  el_out :: cbs
  el_tag :: asn1_tag
  el_header_len :: nat
  el_ber_found :: bool
  el_indefinite :: bool

definition get_element_bytes ::
    "nat \<Rightarrow> asn1_tag \<Rightarrow> nat \<Rightarrow> bool \<Rightarrow> bool \<Rightarrow> asn1_element cbs_op" where
  "get_element_bytes len tag header_len ber_found indefinite =
     cbs_bind (CBS_get_bytes len) (\<lambda>out. cbs_ret
       \<lparr>el_out = out, el_tag = tag, el_header_len = header_len, el_ber_found = ber_found,
        el_indefinite = indefinite\<rparr>)"

text \<open>The header is parsed from a copy, so that a failure leaves \<open>cbs\<close> as it was.\<close>

definition cbs_get_any_asn1_element :: "bool \<Rightarrow> asn1_element cbs_op" where
  "cbs_get_any_asn1_element ber_ok c =
     (case cbs_bind parse_asn1_tag (\<lambda>tag. cbs_bind CBS_get_u8 (\<lambda>length_byte. cbs_ret (tag, length_byte))) c of
        (None, _) \<Rightarrow> (None, c)
      | (Some (tag, length_byte), header) \<Rightarrow>
          let header_len = length c - length header
          in if length_byte AND 0x80 = 0 then
               get_element_bytes (unat length_byte + header_len) tag header_len False False c
             else
               let num_bytes = unat (length_byte AND 0x7f)
               in if ber_ok \<and> tag AND CBS_ASN1_CONSTRUCTED \<noteq> 0 \<and> num_bytes = 0 then
                    get_element_bytes header_len tag header_len True True c
                  else if num_bytes = 0 \<or> num_bytes > 4 then (None, c)
                  else case cbs_get_u num_bytes header of
                    (None, _) \<Rightarrow> (None, c)
                  | (Some len64, _) \<Rightarrow>
                      let overlong = len64 < 128 \<or> drop_bit ((num_bytes - 1) * 8) len64 = 0;
                          len = unat len64
                      in if overlong \<and> \<not> ber_ok then (None, c)
                         else if size_add len (header_len + num_bytes) < len then (None, c)
                         else get_element_bytes (len + header_len + num_bytes) tag
                                (header_len + num_bytes) overlong False c)"

definition CBS_get_any_asn1_element :: "asn1_element cbs_op" where
  "CBS_get_any_asn1_element = cbs_get_any_asn1_element False"

definition CBS_get_any_ber_asn1_element :: "asn1_element cbs_op" where
  "CBS_get_any_ber_asn1_element = cbs_get_any_asn1_element True"

definition CBS_get_any_asn1 :: "(cbs \<times> asn1_tag) cbs_op" where
  "CBS_get_any_asn1 = cbs_bind CBS_get_any_asn1_element (\<lambda>el.
     case CBS_skip (el_header_len el) (el_out el) of
       (None, _) \<Rightarrow> cbs_fail
     | (Some _, out) \<Rightarrow> cbs_ret (out, el_tag el))"

text \<open>A mismatching tag is found after the element has been consumed.\<close>

definition cbs_get_asn1 :: "asn1_tag \<Rightarrow> bool \<Rightarrow> cbs cbs_op" where
  "cbs_get_asn1 tag_value skip_header = cbs_bind CBS_get_any_asn1_element (\<lambda>el.
     if el_tag el \<noteq> tag_value then cbs_fail
     else if skip_header then
       (case CBS_skip (el_header_len el) (el_out el) of
          (None, _) \<Rightarrow> cbs_fail
        | (Some _, out) \<Rightarrow> cbs_ret out)
     else cbs_ret (el_out el))"

definition CBS_get_asn1 :: "asn1_tag \<Rightarrow> cbs cbs_op" where
  "CBS_get_asn1 tag_value = cbs_get_asn1 tag_value True"

definition CBS_get_asn1_element :: "asn1_tag \<Rightarrow> cbs cbs_op" where
  "CBS_get_asn1_element tag_value = cbs_get_asn1 tag_value False"

definition CBS_peek_asn1_tag :: "cbs \<Rightarrow> asn1_tag \<Rightarrow> bool" where
  "CBS_peek_asn1_tag c tag_value \<longleftrightarrow> fst (parse_asn1_tag c) = Some tag_value"

section \<open>Typed values\<close>

text \<open>
  Validity of the content of an INTEGER: \<open>None\<close> if it is not valid, else whether it is negative.
\<close>

definition CBS_is_valid_asn1_integer :: "cbs \<Rightarrow> bool option" where
  "CBS_is_valid_asn1_integer c =
     (case CBS_get_u8 c of
        (None, _) \<Rightarrow> None
      | (Some first_byte, c1) \<Rightarrow>
          let is_negative = (first_byte AND 0x80 \<noteq> 0)
          in case CBS_get_u8 c1 of
               (None, _) \<Rightarrow> Some is_negative
             | (Some second_byte, _) \<Rightarrow>
                 if (first_byte = 0x00 \<and> second_byte AND 0x80 = 0) \<or>
                    (first_byte = 0xff \<and> second_byte AND 0x80 \<noteq> 0)
                 then None else Some is_negative)"

definition CBS_is_unsigned_asn1_integer :: "cbs \<Rightarrow> bool" where
  "CBS_is_unsigned_asn1_integer c \<longleftrightarrow> CBS_is_valid_asn1_integer c = Some False"

fun asn1_uint64_loop :: "u64 \<Rightarrow> bytes \<Rightarrow> u64 option" where
  "asn1_uint64_loop out [] = Some out"
| "asn1_uint64_loop out (d # ds) =
     (if drop_bit 56 out \<noteq> 0 then None else asn1_uint64_loop (push_bit 8 out OR ucast d) ds)"

definition CBS_get_asn1_uint64 :: "u64 cbs_op" where
  "CBS_get_asn1_uint64 = cbs_bind (CBS_get_asn1 CBS_ASN1_INTEGER) (\<lambda>bytes.
     if \<not> CBS_is_unsigned_asn1_integer bytes then cbs_fail
     else case asn1_uint64_loop 0 bytes of None \<Rightarrow> cbs_fail | Some v \<Rightarrow> cbs_ret v)"

text \<open>An \<open>int64_t\<close> is its 64-bit two's complement representation.\<close>

definition CBS_get_asn1_int64 :: "u64 cbs_op" where
  "CBS_get_asn1_int64 = cbs_bind (CBS_get_asn1 CBS_ASN1_INTEGER) (\<lambda>bytes.
     case CBS_is_valid_asn1_integer bytes of
       None \<Rightarrow> cbs_fail
     | Some is_negative \<Rightarrow>
         if length bytes > 8 then cbs_fail
         else let sign_extend = rev bytes @ replicate (8 - length bytes) (if is_negative then 0xff else 0)
              in cbs_ret (le_word sign_extend))"

definition CBS_get_asn1_bool :: "bool cbs_op" where
  "CBS_get_asn1_bool = cbs_bind (CBS_get_asn1 CBS_ASN1_BOOLEAN) (\<lambda>bytes.
     if length bytes \<noteq> 1 then cbs_fail
     else let value = hd bytes
          in if value \<noteq> 0 \<and> value \<noteq> 0xff then cbs_fail else cbs_ret (value \<noteq> 0))"

text \<open>The output of an optional element is \<open>None\<close> when the element is absent.\<close>

definition CBS_get_optional_asn1 :: "asn1_tag \<Rightarrow> cbs option cbs_op" where
  "CBS_get_optional_asn1 tag c =
     (if CBS_peek_asn1_tag c tag then cbs_bind (CBS_get_asn1 tag) (\<lambda>out. cbs_ret (Some out)) c
      else (Some None, c))"

definition CBS_get_optional_asn1_octet_string :: "asn1_tag \<Rightarrow> (cbs \<times> bool) cbs_op" where
  "CBS_get_optional_asn1_octet_string tag = cbs_bind (CBS_get_optional_asn1 tag) (\<lambda>r.
     case r of
       None \<Rightarrow> cbs_ret ([], False)
     | Some child \<Rightarrow>
         (case CBS_get_asn1 CBS_ASN1_OCTETSTRING child of
            (Some out, []) \<Rightarrow> cbs_ret (out, True)
          | _ \<Rightarrow> cbs_fail))"

definition CBS_get_optional_asn1_uint64 :: "asn1_tag \<Rightarrow> u64 \<Rightarrow> u64 cbs_op" where
  "CBS_get_optional_asn1_uint64 tag default_value = cbs_bind (CBS_get_optional_asn1 tag) (\<lambda>r.
     case r of
       None \<Rightarrow> cbs_ret default_value
     | Some child \<Rightarrow>
         (case CBS_get_asn1_uint64 child of
            (Some out, []) \<Rightarrow> cbs_ret out
          | _ \<Rightarrow> cbs_fail))"

definition CBS_get_optional_asn1_bool :: "asn1_tag \<Rightarrow> bool \<Rightarrow> bool cbs_op" where
  "CBS_get_optional_asn1_bool tag default_value = cbs_bind (CBS_get_optional_asn1 tag) (\<lambda>r.
     case r of
       None \<Rightarrow> cbs_ret default_value
     | Some child \<Rightarrow>
         (case CBS_get_asn1 CBS_ASN1_BOOLEAN child of
            (Some [b], []) \<Rightarrow>
              if b = 0 then cbs_ret False else if b = 0xff then cbs_ret True else cbs_fail
          | _ \<Rightarrow> cbs_fail))"

definition CBS_is_valid_asn1_bitstring :: "cbs \<Rightarrow> bool" where
  "CBS_is_valid_asn1_bitstring c =
     (case CBS_get_u8 c of
        (None, _) \<Rightarrow> False
      | (Some num_unused_bits, rest) \<Rightarrow>
          if num_unused_bits > 7 then False
          else if num_unused_bits = 0 then True
          else case CBS_get_last_u8 rest of
            (None, _) \<Rightarrow> False
          | (Some l, _) \<Rightarrow> l AND (push_bit (unat num_unused_bits) 1 - 1) = 0)"

definition CBS_asn1_bitstring_has_bit :: "cbs \<Rightarrow> u32 \<Rightarrow> bool" where
  "CBS_asn1_bitstring_has_bit c b =
     (if \<not> CBS_is_valid_asn1_bitstring c then False
      else let byte_num = unat (drop_bit 3 b) + 1;
               bit_num = 7 - unat (b AND 7)
           in byte_num < length c \<and> (c ! byte_num) AND push_bit bit_num 1 \<noteq> 0)"

text \<open>The loop of \<open>CBS_is_valid_asn1_oid\<close>, with the previous byte.\<close>

fun oid_loop :: "u8 \<Rightarrow> cbs \<Rightarrow> bool" where
  "oid_loop prev [] = (prev AND 0x80 = 0)"
| "oid_loop prev (v # c) = (if prev AND 0x80 = 0 \<and> v = 0x80 then False else oid_loop v c)"

definition CBS_is_valid_asn1_oid :: "cbs \<Rightarrow> bool" where
  "CBS_is_valid_asn1_oid c = (if length c = 0 then False else oid_loop 0 c)"

section \<open>Times\<close>

definition cbs_get_two_digits :: "int cbs_op" where
  "cbs_get_two_digits = cbs_bind CBS_get_u8 (\<lambda>first_digit.
     cbs_bind (cbs_guard (OPENSSL_isdigit first_digit)) (\<lambda>_.
     cbs_bind CBS_get_u8 (\<lambda>second_digit.
     cbs_bind (cbs_guard (OPENSSL_isdigit second_digit)) (\<lambda>_.
     cbs_ret ((uint first_digit - 0x30) * 10 + (uint second_digit - 0x30))))))"

definition is_valid_day :: "int \<Rightarrow> int \<Rightarrow> int \<Rightarrow> bool" where
  "is_valid_day year month day =
     (if day < 1 then False
      else if month \<in> {1, 3, 5, 7, 8, 10, 12} then day \<le> 31
      else if month \<in> {4, 6, 9, 11} then day \<le> 30
      else if month = 2 then (if leap_year year then day \<le> 29 else day \<le> 28)
      else False)"

text \<open>The year of a GeneralizedTime has four digits, the two of a UTCTime mean 1950 to 2049.\<close>

definition get_time_year :: "bool \<Rightarrow> int cbs_op" where
  "get_time_year is_gentime =
     (if is_gentime then
        cbs_bind cbs_get_two_digits (\<lambda>hi. cbs_bind cbs_get_two_digits (\<lambda>lo. cbs_ret (hi * 100 + lo)))
      else
        cbs_bind cbs_get_two_digits (\<lambda>yy.
          let year0 = 1900 + yy;
              year = (if year0 < 1950 then year0 + 100 else year0)
          in if year \<ge> 2050 then cbs_fail else cbs_ret year))"

text \<open>
  The time zone: \<open>Z\<close>, or, if allowed, a sign and four digits.  The value is the offset that the
  code adds, in seconds.
\<close>

definition get_time_offset :: "bool \<Rightarrow> int cbs_op" where
  "get_time_offset allow_timezone_offset = cbs_bind CBS_get_u8 (\<lambda>tz.
     if tz = 0x5a then cbs_ret 0
     else if tz = 0x2b \<or> tz = 0x2d then
       (if \<not> allow_timezone_offset then cbs_fail
        else cbs_bind cbs_get_two_digits (\<lambda>offset_hours.
             cbs_bind (cbs_guard (\<not> offset_hours > 23)) (\<lambda>_.
             cbs_bind cbs_get_two_digits (\<lambda>offset_minutes.
             cbs_bind (cbs_guard (\<not> offset_minutes > 59)) (\<lambda>_.
             cbs_ret ((if tz = 0x2b then 1 else - 1) * (offset_hours * 3600 + offset_minutes * 60)))))))
     else cbs_fail)"

definition parse_time_fields :: "bool \<Rightarrow> bool \<Rightarrow> (tm \<times> int) cbs_op" where
  "parse_time_fields is_gentime allow_timezone_offset =
     cbs_bind (get_time_year is_gentime) (\<lambda>year.
     cbs_bind cbs_get_two_digits (\<lambda>month.
     cbs_bind (cbs_guard (\<not> (month < 1 \<or> month > 12))) (\<lambda>_.
     cbs_bind cbs_get_two_digits (\<lambda>day.
     cbs_bind (cbs_guard (is_valid_day year month day)) (\<lambda>_.
     cbs_bind cbs_get_two_digits (\<lambda>hour.
     cbs_bind (cbs_guard (\<not> hour > 23)) (\<lambda>_.
     cbs_bind cbs_get_two_digits (\<lambda>min.
     cbs_bind (cbs_guard (\<not> min > 59)) (\<lambda>_.
     cbs_bind cbs_get_two_digits (\<lambda>sec.
     cbs_bind (cbs_guard (\<not> sec > 59)) (\<lambda>_.
     cbs_bind (get_time_offset allow_timezone_offset) (\<lambda>offset_seconds.
     cbs_ret (\<lparr>tm_year = year - 1900, tm_mon = month - 1, tm_mday = day, tm_hour = hour,
               tm_min = min, tm_sec = sec\<rparr>, offset_seconds)))))))))))))"

text \<open>
  The whole parse, with a non-null \<open>out_tm\<close>.  Nothing may follow the time zone; a nonzero offset
  is added to the fields.
\<close>

definition CBS_parse_rfc5280_time_internal :: "cbs \<Rightarrow> bool \<Rightarrow> bool \<Rightarrow> tm option" where
  "CBS_parse_rfc5280_time_internal c is_gentime allow_timezone_offset =
     (case parse_time_fields is_gentime allow_timezone_offset c of
        (None, _) \<Rightarrow> None
      | (Some (t, offset_seconds), rest) \<Rightarrow>
          if length rest \<noteq> 0 then None
          else if offset_seconds \<noteq> 0 then OPENSSL_gmtime_adj t 0 offset_seconds
          else Some t)"

definition CBS_parse_generalized_time :: "cbs \<Rightarrow> bool \<Rightarrow> tm option" where
  "CBS_parse_generalized_time c allow_timezone_offset =
     CBS_parse_rfc5280_time_internal c True allow_timezone_offset"

definition CBS_parse_utc_time :: "cbs \<Rightarrow> bool \<Rightarrow> tm option" where
  "CBS_parse_utc_time c allow_timezone_offset =
     CBS_parse_rfc5280_time_internal c False allow_timezone_offset"

end
