(* ===== verification/Der.thy ===== *)
theory Der
  imports Cbs
begin

text \<open>
  The wire format that \<open>cbs.c\<close> parses and \<open>cbb.c\<close> prints, stated without either: the distinguished
  encoding (X.690) of an identifier with its class bits and tag number, of a length, and of an
  element; and the theorems that the parsers accept exactly these encodings.
\<close>

section \<open>Reading integers\<close>

lemma be_acc_snoc: "be_acc r (bs @ [b]) = push_bit 8 (be_acc r bs) OR ucast b"
  by (simp add: be_acc_def)

lemma unat_be_acc: "length bs \<le> 8 \<Longrightarrow> unat (be_acc 0 bs) = be_nat bs"
proof (induction bs rule: rev_induct)
  case Nil
  then show ?case by (simp add: be_acc_def)
next
  case (snoc b bs)
  then have IH: "unat (be_acc 0 bs) = be_nat bs" and len: "length bs \<le> 7" by simp_all
  have "be_nat bs < 256 ^ length bs" by (rule be_nat_bound)
  also have "\<dots> \<le> 256 ^ 7" using len by (intro power_increasing) auto
  finally have "unat (be_acc 0 bs) < 2 ^ (LENGTH(64) - 8)" unfolding IH by simp
  then have "unat (push_bit 8 (be_acc 0 bs) OR ucast b) = unat (be_acc 0 bs) * 2 ^ 8 + unat (ucast b :: u64)"
    by (rule unat_shift_or) (simp_all add: unat_ucast_u8)
  then show ?case by (simp add: be_acc_snoc be_nat_snoc IH unat_ucast_u8)
qed

lemma be_acc_eq_of_nat: "length bs \<le> 8 \<Longrightarrow> be_acc 0 bs = of_nat (be_nat bs)"
  by (intro word_of_natI unat_be_acc)

lemma cbs_get_Some_iff: "cbs_get n c = (Some x, c') \<longleftrightarrow> c = x @ c' \<and> length x = n"
  by (auto simp: cbs_get_def)

lemma cbs_get_u_Some_iff:
  assumes "n \<le> 8"
  shows "cbs_get_u n c = (Some v, c') \<longleftrightarrow>
    (\<exists>bs. c = bs @ c' \<and> length bs = n \<and> v = of_nat (be_nat bs))"
  using assms by (auto simp: cbs_get_u_def cbs_bind_Some_iff cbs_get_Some_iff be_acc_eq_of_nat)

lemma CBS_get_u8_Some_iff: "CBS_get_u8 c = (Some b, c') \<longleftrightarrow> c = b # c'"
  by (auto simp: CBS_get_u8_def cbs_bind_Some_iff cbs_get_Some_iff length_Suc_conv)

section \<open>Base 128\<close>

text \<open>The digits of a number, high ones with the continuation bit, without a leading zero digit.\<close>

fun base128_hi :: "nat \<Rightarrow> bytes" where
  "base128_hi n = (if n = 0 then [] else base128_hi (n div 128) @ [of_nat (128 + n mod 128)])"

declare base128_hi.simps [simp del]

definition base128 :: "nat \<Rightarrow> bytes" where
  "base128 n = base128_hi (n div 128) @ [of_nat (n mod 128)]"

lemma base128_hi_0 [simp]: "base128_hi 0 = []"
  by (simp add: base128_hi.simps)

lemma base128_step:
  assumes v: "unat (v :: u64) < 2 ^ 57"
  shows "push_bit 7 v OR ucast (b AND 0x7f :: u8) = of_nat (unat v * 128 + unat b mod 128)"
proof -
  have x: "unat (ucast (b AND 0x7f) :: u64) = unat b mod 128"
    by (simp add: unat_ucast_u8 unat_and_low)
  have "unat (push_bit 7 v OR ucast (b AND 0x7f)) = unat v * 2 ^ 7 + unat (ucast (b AND 0x7f) :: u64)"
    by (rule unat_shift_or) (use v x in simp_all)
  then show ?thesis by (intro word_of_natI) (simp add: x)
qed

lemma base128_loop_Cons:
  "base128_loop v (b # c) =
     (if unat v \<ge> 2 ^ 57 \<or> (v = 0 \<and> b = 0x80) then (None, c)
      else if unat b \<ge> 128 then base128_loop (of_nat (unat v * 128 + unat b mod 128)) c
      else (Some (of_nat (unat v * 128 + unat b mod 128)), c))"
  by (simp add: drop_bit_eq_0_iff and_0x80 base128_step Let_def)

declare base128_loop.simps(2) [simp del]

lemma base128_loop_digit:
  assumes "h < 2 ^ 57" and "d < 256" and "h = 0 \<Longrightarrow> d \<noteq> 128"
  shows "base128_loop (of_nat h) (of_nat d # c) =
    (if 128 \<le> d then base128_loop (of_nat (h * 128 + d mod 128)) c
     else (Some (of_nat (h * 128 + d mod 128)), c))"
proof -
  have h: "unat (of_nat h :: u64) = h" by (rule unat_of_nat_u64) (use assms in simp)
  have d: "unat (of_nat d :: u8) = d" by (rule unat_of_nat_u8) (use assms in simp)
  have "\<not> (of_nat h = (0::u64) \<and> of_nat d = (0x80::u8))"
  proof
    assume *: "of_nat h = (0::u64) \<and> of_nat d = (0x80::u8)"
    then have "h = 0" using h by simp
    moreover from * have "unat (of_nat d :: u8) = unat (0x80 :: u8)" by (simp only:)
    then have "d = 128" unfolding d by simp
    ultimately show False using assms by simp
  qed
  with assms(1) show ?thesis
    by (simp only: base128_loop_Cons h d not_le [symmetric] if_False simp_thms)
qed

lemma base128_hi_pos: "n \<noteq> 0 \<Longrightarrow> base128_hi n = base128_hi (n div 128) @ [of_nat (128 + n mod 128)]"
  by (subst base128_hi.simps) (rule if_not_P)

lemma base128_loop_hi:
  assumes "n < 2 ^ 64"
  shows "base128_loop 0 (base128_hi n @ c) = base128_loop (of_nat n) c"
  using assms
proof (induction n arbitrary: c rule: less_induct)
  case (less n)
  show ?case
  proof (cases "n = 0")
    case False
    let ?h = "n div 128" and ?d = "128 + n mod 128"
    have "?h < 2 ^ 57" using less.prems by simp
    moreover have "?d < 256" by simp
    moreover have "?d \<noteq> 128" if "?h = 0"
    proof -
      have "n mod 128 = n" using that div_mult_mod_eq [of n 128] by linarith
      with False show ?thesis by linarith
    qed
    ultimately have "base128_loop (of_nat ?h) (of_nat ?d # c)
      = (if 128 \<le> ?d then base128_loop (of_nat (?h * 128 + ?d mod 128)) c
         else (Some (of_nat (?h * 128 + ?d mod 128)), c))"
      by (rule base128_loop_digit)
    also have "\<dots> = base128_loop (of_nat (?h * 128 + ?d mod 128)) c" by (rule if_P) simp
    also have "?h * 128 + ?d mod 128 = n" by simp
    finally have step: "base128_loop (of_nat ?h) (of_nat ?d # c) = base128_loop (of_nat n) c" .
    have "base128_loop 0 (base128_hi ?h @ of_nat ?d # c) = base128_loop (of_nat ?h) (of_nat ?d # c)"
      using less.prems False by (intro less.IH) simp_all
    with step show ?thesis by (simp only: base128_hi_pos [OF False] append_assoc append.simps)
  qed simp
qed

lemma base128_loop_print:
  assumes "n < 2 ^ 64"
  shows "base128_loop 0 (base128 n @ c) = (Some (of_nat n), c)"
proof -
  let ?h = "n div 128" and ?d = "n mod 128"
  have h: "?h < 2 ^ 57" using assms by simp
  moreover have "?d < 256" by (rule less_trans [of _ 128]) simp_all
  moreover have "?d \<noteq> 128" using mod_less_divisor [of 128 n] by linarith
  ultimately have "base128_loop (of_nat ?h) (of_nat ?d # c)
      = (if 128 \<le> ?d then base128_loop (of_nat (?h * 128 + ?d mod 128)) c
         else (Some (of_nat (?h * 128 + ?d mod 128)), c))"
    by (rule base128_loop_digit)
  also have "\<dots> = (Some (of_nat (?h * 128 + ?d mod 128)), c)" by (rule if_not_P) (simp add: not_le)
  also have "?h * 128 + ?d mod 128 = n" by simp
  finally have step: "base128_loop (of_nat ?h) (of_nat ?d # c) = (Some (of_nat n), c)" .
  have "base128_loop 0 (base128 n @ c) = base128_loop 0 (base128_hi ?h @ of_nat ?d # c)"
    by (simp only: base128_def append_assoc append.simps)
  also have "\<dots> = base128_loop (of_nat ?h) (of_nat ?d # c)"
    using h by (intro base128_loop_hi) simp
  finally show ?thesis unfolding step .
qed

lemma base128_loop_Some:
  assumes "base128_loop v c = (Some w, rest)"
  shows "\<exists>p. c = p @ rest \<and> base128_hi (unat v) @ p = base128 (unat w)"
  using assms
proof (induction c arbitrary: v)
  case Nil
  then show ?case by simp
next
  case (Cons b c)
  let ?n = "unat v * 128 + unat b mod 128"
  from Cons.prems have v: "unat v < 2 ^ 57" and nz: "\<not> (v = 0 \<and> b = 0x80)"
    by (auto simp: base128_loop_Cons not_le split: if_splits)
  then have un: "unat (of_nat ?n :: u64) = ?n" by (intro unat_of_nat_u64) simp
  have dm: "?n div 128 = unat v" "?n mod 128 = unat b mod 128" by simp_all
  show ?case
  proof (cases "unat b \<ge> 128")
    case True
    moreover have "unat b div 128 < 2" by (rule less_mult_imp_div_less) simp
    moreover have "1 \<le> unat b div 128" using div_le_mono [OF True, of 128] by simp
    ultimately have bm: "128 + unat b mod 128 = unat b"
      using div_mult_mod_eq [of "unat b" 128] by linarith
    have b: "of_nat (128 + unat b mod 128) = b" unfolding bm by simp
    have nz': "?n \<noteq> 0"
    proof
      assume "?n = 0"
      then have "v = 0" and "unat b mod 128 = 0" by (simp_all add: unat_eq_0)
      moreover from this bm have "b = of_nat 128" by (intro word_of_natI) simp
      ultimately show False using nz by simp
    qed
    have hi: "base128_hi ?n = base128_hi (unat v) @ [b]"
      unfolding base128_hi_pos [OF nz'] dm b ..
    from Cons.prems True v nz have "base128_loop (of_nat ?n) c = (Some w, rest)"
      by (auto simp: base128_loop_Cons split: if_splits)
    from Cons.IH [OF this] show ?thesis unfolding un hi by auto
  next
    case False
    with Cons.prems v nz have w: "w = of_nat ?n" "c = rest"
      by (auto simp: base128_loop_Cons split: if_splits)
    then have "base128 (unat w) = base128_hi (unat v) @ [of_nat (unat b mod 128)]"
      by (simp only: base128_def un dm)
    also have "of_nat (unat b mod 128) = b" using False by simp
    finally show ?thesis using w by auto
  qed
qed

theorem parse_base128_integer_iff:
  "parse_base128_integer c = (Some v, rest) \<longleftrightarrow> c = base128 (unat v) @ rest"
proof
  assume "parse_base128_integer c = (Some v, rest)"
  from base128_loop_Some [OF this [unfolded parse_base128_integer_def]]
  show "c = base128 (unat v) @ rest" by simp
next
  assume "c = base128 (unat v) @ rest"
  then show "parse_base128_integer c = (Some v, rest)"
    using base128_loop_print [of "unat v" rest] unsigned_less [of v]
    by (simp add: parse_base128_integer_def)
qed

section \<open>Identifiers\<close>

text \<open>
  A \<open>CBS_ASN1_TAG\<close> holds the class and constructed bits of the identifier in its top three bits
  and the tag number in the other 29.  Number 0 of the universal class stands for no tag at all.
\<close>

definition tag_number :: "asn1_tag \<Rightarrow> u32" where
  "tag_number tag = tag AND CBS_ASN1_TAG_NUMBER_MASK"

definition tag_class_bits :: "asn1_tag \<Rightarrow> u8" where
  "tag_class_bits tag = ucast (drop_bit 24 tag) AND 0xe0"

definition tag_ok :: "asn1_tag \<Rightarrow> bool" where
  "tag_ok tag \<longleftrightarrow> tag AND NOT CBS_ASN1_CONSTRUCTED \<noteq> 0"

definition der_tag :: "asn1_tag \<Rightarrow> bytes" where
  "der_tag tag =
     (if unat (tag_number tag) < 31 then [tag_class_bits tag OR ucast (tag_number tag)]
      else (tag_class_bits tag OR 0x1f) # base128 (unat (tag_number tag)))"

lemma mask_consts:
  "(0xe0 :: u8) = push_bit 5 (mask 3)" "(0xe0 :: u32) = push_bit 5 (mask 3)"
  "(0x1f :: u8) = mask 5" "CBS_ASN1_TAG_NUMBER_MASK = mask 29"
  by (simp_all add: mask_eq_exp_minus_1 CBS_ASN1_TAG_NUMBER_MASK_def)

lemma tag_split: "push_bit 24 (ucast (tag_class_bits tag) AND 0xe0) OR tag_number tag = tag"
  unfolding tag_number_def tag_class_bits_def mask_consts
  by (rule bit_word_eqI) (auto simp: bit_simps)

lemma tag_join:
  assumes "unat n < 2 ^ 29"
  shows "tag_number (push_bit 24 (ucast b AND 0xe0) OR n) = n"
    and "tag_class_bits (push_bit 24 (ucast b AND 0xe0) OR n) = b AND 0xe0"
  unfolding tag_number_def tag_class_bits_def mask_consts
  by (rule bit_word_eqI; auto simp: bit_simps dest: bit_unat_bound [OF assms])+

lemma unat_tag_number: "unat (tag_number tag) < 2 ^ 29"
proof -
  have "unat (tag AND mask 29) \<le> unat (mask 29 :: u32)"
    using word_and_le1 [of tag "mask 29"] by (simp only: word_le_nat_alt and.commute)
  also have "\<dots> < 2 ^ 29" by (simp add: mask_eq_exp_minus_1)
  finally show ?thesis by (simp only: tag_number_def mask_consts)
qed

lemma first_byte_split: "(b AND 0xe0) OR (b AND 0x1f) = (b :: u8)"
  unfolding mask_consts by (rule bit_word_eqI) (auto simp: bit_simps)

lemma first_byte_join:
  assumes "unat n < 2 ^ 5"
  shows "(tag_class_bits tag OR n) AND 0x1f = n"
    and "ucast (tag_class_bits tag OR n) AND (0xe0 :: u32) = ucast (tag_class_bits tag) AND 0xe0"
  unfolding tag_class_bits_def mask_consts
  by (rule bit_word_eqI; auto simp: bit_simps dest: bit_unat_bound [OF assms])+

lemma class_bits_idem: "ucast (b AND 0xe0 :: u8) AND (0xe0 :: u32) = ucast b AND 0xe0"
  unfolding mask_consts by (rule bit_word_eqI) (auto simp: bit_simps)

lemma ucast_narrow_widen:
  assumes "unat (w :: 'a::len word) < 2 ^ LENGTH('b)"
  shows "ucast (ucast w :: 'b::len word) = w"
  by (rule bit_word_eqI) (auto simp: bit_simps dest: bit_unat_bound [OF assms])

lemma unat_ucast_narrow:
  assumes "unat (w :: 'a::len word) < 2 ^ LENGTH('b)"
  shows "unat (ucast w :: 'b::len word) = unat w"
  using assms by (simp add: unsigned_ucast_eq take_bit_nat_eq_self_iff)

lemma parse_asn1_tag_number_iff:
  "parse_asn1_tag_number b c = (Some num, rest) \<longleftrightarrow>
    (if b AND 0x1f = 0x1f then 31 \<le> unat num \<and> unat num < 2 ^ 29 \<and> c = base128 (unat num) @ rest
     else num = ucast (b AND 0x1f) \<and> c = rest)"
proof (cases "b AND 0x1f = 0x1f")
  case True
  have mask: "v > ucast CBS_ASN1_TAG_NUMBER_MASK \<or> v < 0x1f \<longleftrightarrow> \<not> (31 \<le> unat v \<and> unat v < 2 ^ 29)"
    for v :: u64
    by (auto simp: CBS_ASN1_TAG_NUMBER_MASK_def word_less_nat_alt)
  show ?thesis
  proof
    assume "parse_asn1_tag_number b c = (Some num, rest)"
    with True obtain v :: u64 where v: "c = base128 (unat v) @ rest" "31 \<le> unat v" "unat v < 2 ^ 29"
      and "num = ucast v"
      by (auto simp: parse_asn1_tag_number_def cbs_bind_Some_iff parse_base128_integer_iff mask split: if_splits)
    then have "unat num = unat v" by (simp only:) (rule unat_ucast_narrow, simp)
    with v True show "if b AND 0x1f = 0x1f then 31 \<le> unat num \<and> unat num < 2 ^ 29 \<and> c = base128 (unat num) @ rest
     else num = ucast (b AND 0x1f) \<and> c = rest" by simp
  next
    assume *: "if b AND 0x1f = 0x1f then 31 \<le> unat num \<and> unat num < 2 ^ 29 \<and> c = base128 (unat num) @ rest
     else num = ucast (b AND 0x1f) \<and> c = rest"
    have un: "unat (ucast num :: u64) = unat num" by (rule unat_ucast_widen) simp
    moreover have "ucast (ucast num :: u64) = num" by (rule bit_word_eqI) (simp add: bit_simps)
    ultimately show "parse_asn1_tag_number b c = (Some num, rest)" using True *
      by (simp add: parse_asn1_tag_number_def cbs_bind_Some_iff parse_base128_integer_iff mask)
         (rule exI [of _ "ucast num"], simp add: un)
  qed
next
  case False
  then show ?thesis by (auto simp: parse_asn1_tag_number_def)
qed

theorem parse_asn1_tag_iff:
  "parse_asn1_tag c = (Some tag, rest) \<longleftrightarrow> tag_ok tag \<and> c = der_tag tag @ rest"
proof
  assume "parse_asn1_tag c = (Some tag, rest)"
  then obtain b c1 num where c: "c = b # c1"
    and num: "parse_asn1_tag_number b c1 = (Some num, rest)"
    and tag: "tag = push_bit 24 (ucast b AND 0xe0) OR num" and ok: "tag_ok tag"
    by (auto simp: parse_asn1_tag_def cbs_bind_Some_iff CBS_get_u8_Some_iff Let_def tag_ok_def
        simp del: push_bit_and split: if_splits)
  have low: "unat (b AND 0x1f) < 32" by (simp add: unat_and_low)
  have small: "unat num < 2 ^ 29"
    using num low by (auto simp: parse_asn1_tag_number_iff unat_ucast_u8 split: if_splits)
  have n: "tag_number tag = num" and k: "tag_class_bits tag = b AND 0xe0"
    unfolding tag using small by (rule tag_join)+
  show "tag_ok tag \<and> c = der_tag tag @ rest"
  proof (cases "b AND 0x1f = 0x1f")
    case True
    with num have "31 \<le> unat num" "c1 = base128 (unat num) @ rest"
      by (simp_all add: parse_asn1_tag_number_iff)
    with ok c show ?thesis
      using first_byte_split [of b] by (simp add: der_tag_def n k True)
  next
    case False
    with num have nb: "num = ucast (b AND 0x1f)" "c1 = rest"
      by (simp_all add: parse_asn1_tag_number_iff)
    have "unat (b AND 0x1f) \<noteq> 31"
      using False word_of_natI [of "b AND 0x1f" 31] by auto
    with low nb have lt: "unat num < 31" by (simp add: unat_ucast_u8)
    have "ucast num = b AND 0x1f" unfolding nb by (rule bit_word_eqI) (simp add: bit_simps)
    with lt ok c nb show ?thesis
      using first_byte_split [of b] by (simp add: der_tag_def n k)
  qed
next
  assume *: "tag_ok tag \<and> c = der_tag tag @ rest"
  define b where "b = tag_class_bits tag OR (if unat (tag_number tag) < 31 then ucast (tag_number tag) else 0x1f)"
  let ?low = "if unat (tag_number tag) < 31 then ucast (tag_number tag) else 0x1f :: u8"
  have low: "unat ?low < 2 ^ 5" by (simp add: unat_ucast_narrow)
  have b: "b AND 0x1f = ?low" "push_bit 24 (ucast b AND 0xe0) OR tag_number tag = tag"
    unfolding b_def first_byte_join [OF low] tag_split by simp_all
  have "ucast (tag_number tag) \<noteq> (0x1f :: u8)" "ucast (ucast (tag_number tag) :: u8) = tag_number tag"
    if "unat (tag_number tag) < 31"
  proof -
    have "unat (ucast (tag_number tag) :: u8) = unat (tag_number tag)"
      using that by (intro unat_ucast_narrow) simp
    with that show "ucast (tag_number tag) \<noteq> (0x1f :: u8)" by auto
    show "ucast (ucast (tag_number tag) :: u8) = tag_number tag"
      using that by (intro ucast_narrow_widen) simp
  qed
  then have "parse_asn1_tag_number b (drop 1 (der_tag tag) @ rest) = (Some (tag_number tag), rest)"
    unfolding parse_asn1_tag_number_iff b
    using unat_tag_number [of tag] by (auto simp: der_tag_def)
  moreover have "c = b # drop 1 (der_tag tag) @ rest"
    using * by (simp add: der_tag_def b_def)
  then have "CBS_get_u8 c = (Some b, drop 1 (der_tag tag) @ rest)"
    by (simp only: CBS_get_u8_Some_iff)
  ultimately have "parse_asn1_tag c =
    (if tag AND NOT CBS_ASN1_CONSTRUCTED = 0 then cbs_fail else cbs_ret tag) rest"
    by (simp only: parse_asn1_tag_def cbs_bind_simps Let_def b)
  with * show "parse_asn1_tag c = (Some tag, rest)"
    by (simp add: tag_ok_def)
qed

section \<open>Lengths\<close>

text \<open>The big-endian bytes of a number, without leading zeros, and the definite length octets.\<close>

fun be_min :: "nat \<Rightarrow> bytes" where
  "be_min n = (if n = 0 then [] else be_min (n div 256) @ [of_nat (n mod 256)])"

declare be_min.simps [simp del]

definition der_len :: "nat \<Rightarrow> bytes" where
  "der_len n = (if n < 128 then [of_nat n] else of_nat (128 + length (be_min n)) # be_min n)"

lemma be_min_0 [simp]: "be_min 0 = []"
  by (simp add: be_min.simps)

lemma be_min_pos: "n \<noteq> 0 \<Longrightarrow> be_min n = be_min (n div 256) @ [of_nat (n mod 256)]"
  by (subst be_min.simps) (rule if_not_P)

lemma be_nat_be_min [byte_simps]: "be_nat (be_min n) = n"
proof (induction n rule: less_induct)
  case (less n)
  show ?case
  proof (cases "n = 0")
    case False
    have "unat (of_nat (n mod 256) :: u8) = n mod 256" by (rule unat_of_nat_u8) simp
    moreover have "be_nat (be_min (n div 256)) = n div 256" using False by (intro less.IH) simp
    ultimately show ?thesis unfolding be_min_pos [OF False] be_nat_snoc by simp
  qed simp
qed

lemma be_min_be_nat: "bs = [] \<or> hd bs \<noteq> 0 \<Longrightarrow> be_min (be_nat bs) = bs"
proof (induction bs rule: rev_induct)
  case Nil
  then show ?case by simp
next
  case (snoc b bs)
  let ?n = "be_nat (bs @ [b])"
  have n: "?n = be_nat bs * 256 + unat b" by (rule be_nat_snoc)
  have d: "?n div 256 = be_nat bs" "?n mod 256 = unat b" unfolding n by simp_all
  have IH: "be_min (be_nat bs) = bs" using snoc by (cases bs) auto
  have "?n \<noteq> 0"
  proof
    assume "?n = 0"
    then have "be_nat bs = 0" "b = 0" by (simp_all add: n unat_eq_0)
    moreover from this IH have "bs = []" by simp
    ultimately show False using snoc.prems by simp
  qed
  then show ?case unfolding be_min_pos [OF \<open>?n \<noteq> 0\<close>] d IH by simp
qed

lemma hd_be_min: "n \<noteq> 0 \<Longrightarrow> be_min n \<noteq> [] \<and> hd (be_min n) \<noteq> 0"
proof (induction n rule: less_induct)
  case (less n)
  show ?case
  proof (cases "n div 256 = 0")
    case True
    then have "n mod 256 = n" by (simp add: div_eq_0_iff)
    moreover have "n < 256" using True by (simp add: div_eq_0_iff)
    then have "unat (of_nat n :: u8) = n" by (rule unat_of_nat_u8)
    then have "of_nat n \<noteq> (0 :: u8)" using less.prems by auto
    ultimately show ?thesis unfolding be_min_pos [OF less.prems] using True by simp
  next
    case False
    have "be_min (n div 256) \<noteq> [] \<and> hd (be_min (n div 256)) \<noteq> 0"
      using less.prems False by (intro less.IH) simp_all
    then show ?thesis unfolding be_min_pos [OF less.prems] by simp
  qed
qed

lemma hd_eq_0_iff:
  assumes "bs \<noteq> []"
  shows "hd bs = 0 \<longleftrightarrow> be_nat bs < 256 ^ (length bs - 1)"
proof (cases bs)
  case (Cons b cs)
  have "be_nat bs = unat b * 256 ^ length cs + be_nat cs" by (simp add: Cons be_nat_Cons)
  moreover have "be_nat cs < 256 ^ length cs" by (rule be_nat_bound)
  moreover have "256 ^ length cs \<le> unat b * 256 ^ length cs" if "b \<noteq> 0"
  proof -
    have "1 \<le> unat b" using that by (simp add: Suc_le_eq unat_gt_0)
    then show ?thesis using mult_le_mono1 [of 1 "unat b" "256 ^ length cs"] by simp
  qed
  moreover have "hd bs = b" "length bs - 1 = length cs" by (simp_all add: Cons)
  ultimately show ?thesis unfolding Cons [symmetric]
    by (cases "b = 0") (simp_all add: not_less trans_le_add1)
qed (use assms in simp)

lemma length_be_min_le: "n < 256 ^ k \<Longrightarrow> length (be_min n) \<le> k"
proof (cases "n = 0")
  case False
  assume "n < 256 ^ k"
  from hd_be_min [OF False] hd_eq_0_iff [of "be_min n"]
  have "256 ^ (length (be_min n) - 1) \<le> n" and ne: "be_min n \<noteq> []"
    by (auto simp: be_nat_be_min)
  from \<open>256 ^ (length (be_min n) - 1) \<le> n\<close> \<open>n < 256 ^ k\<close>
  have "(256::nat) ^ (length (be_min n) - 1) < 256 ^ k" by (rule le_less_trans)
  then have "length (be_min n) - 1 < k" by (rule power_less_imp_less_exp [rotated]) simp
  then show ?thesis using ne by (cases "be_min n") auto
qed simp

section \<open>Elements\<close>

definition der_header :: "asn1_tag \<Rightarrow> nat \<Rightarrow> bytes" where
  "der_header tag n = der_tag tag @ der_len n"

definition der :: "asn1_tag \<Rightarrow> bytes \<Rightarrow> bytes" where
  "der tag content = der_header tag (length content) @ content"

definition der_element :: "asn1_tag \<Rightarrow> bytes \<Rightarrow> asn1_element" where
  "der_element tag content =
     \<lparr>el_out = der tag content, el_tag = tag, el_header_len = length (der_header tag (length content)),
      el_ber_found = False, el_indefinite = False\<rparr>"

lemma length_base128_hi: "n < 128 ^ k \<Longrightarrow> length (base128_hi n) \<le> k"
proof (induction k arbitrary: n)
  case 0
  then show ?case by simp
next
  case (Suc k)
  show ?case
  proof (cases "n = 0")
    case False
    have "n div 128 < 128 ^ k" using Suc.prems by (simp add: less_mult_imp_div_less mult.commute)
    from Suc.IH [OF this] show ?thesis by (simp add: base128_hi_pos [OF False])
  qed simp
qed

lemma length_der_tag: "length (der_tag tag) \<le> 6"
proof -
  have "unat (tag_number tag) div 128 < 128 ^ 4"
    using unat_tag_number [of tag] by (intro less_mult_imp_div_less) simp
  from length_base128_hi [OF this] show ?thesis by (simp add: der_tag_def base128_def)
qed

lemma length_der_len: "n < 2 ^ 32 \<Longrightarrow> length (der_len n) \<le> 5"
  using length_be_min_le [of n 4] by (simp add: der_len_def)

lemma get_element_bytes_split:
  "get_element_bytes (n + length hdr) tag h ber ind (hdr @ body) =
     (if length body < n then (None, hdr @ body)
      else (Some \<lparr>el_out = hdr @ take n body, el_tag = tag, el_header_len = h, el_ber_found = ber,
                 el_indefinite = ind\<rparr>, drop n body))"
  by (simp add: get_element_bytes_def CBS_get_bytes_def cbs_get_def cbs_bind_def cbs_ret_def)

lemma asn1_element_tag_eq:
  assumes "tag_ok tag"
  shows "cbs_bind parse_asn1_tag (\<lambda>tag. cbs_bind CBS_get_u8 (\<lambda>lb. cbs_ret (tag, lb))) (der_tag tag @ lb # body)
    = (Some (tag, lb), body)"
proof -
  have "parse_asn1_tag (der_tag tag @ lb # body) = (Some tag, lb # body)"
    using assms by (simp add: parse_asn1_tag_iff)
  moreover have "CBS_get_u8 (lb # body) = (Some lb, body)" by (simp add: CBS_get_u8_Some_iff)
  ultimately show ?thesis by (simp add: cbs_ret_def)
qed

lemma overlong_iff:
  assumes "bs \<noteq> []" and "length bs \<le> 4"
  shows "\<not> (be_acc 0 bs < 128 \<or> drop_bit ((length bs - 1) * 8) (be_acc 0 bs) = 0)
    \<longleftrightarrow> der_len (be_nat bs) = of_nat (128 + length bs) # bs"
proof -
  have u: "unat (be_acc 0 bs) = be_nat bs" using assms by (intro unat_be_acc) simp
  have "be_acc 0 bs < 128 \<longleftrightarrow> be_nat bs < 128" by (simp add: word_less_nat_alt u)
  moreover have "drop_bit ((length bs - 1) * 8) (be_acc 0 bs) = 0 \<longleftrightarrow> be_nat bs < 256 ^ (length bs - 1)"
    unfolding drop_bit_eq_0_iff u by (simp add: power_mult mult.commute [of _ 8])
  then have "drop_bit ((length bs - 1) * 8) (be_acc 0 bs) = 0 \<longleftrightarrow> hd bs = 0"
    unfolding hd_eq_0_iff [OF assms(1)] .
  moreover have "der_len (be_nat bs) = of_nat (128 + length bs) # bs \<longleftrightarrow> \<not> be_nat bs < 128 \<and> hd bs \<noteq> 0"
  proof
    assume *: "der_len (be_nat bs) = of_nat (128 + length bs) # bs"
    then have "\<not> be_nat bs < 128" using assms(1) by (auto simp: der_len_def)
    moreover from this * have "be_min (be_nat bs) = bs" by (simp add: der_len_def)
    ultimately show "\<not> be_nat bs < 128 \<and> hd bs \<noteq> 0"
      using hd_be_min [of "be_nat bs"] by (cases "be_nat bs = 0") auto
  next
    assume *: "\<not> be_nat bs < 128 \<and> hd bs \<noteq> 0"
    then have "be_min (be_nat bs) = bs" by (intro be_min_be_nat) simp
    with * show "der_len (be_nat bs) = of_nat (128 + length bs) # bs" by (simp add: der_len_def)
  qed
  ultimately show ?thesis by blast
qed

lemma unat_and_0x7f_high: "unat (b AND 0x7f :: u8) = n \<Longrightarrow> b AND 0x80 \<noteq> 0 \<Longrightarrow> b = of_nat (128 + n)"
proof -
  assume n: "unat (b AND 0x7f) = n" and h: "b AND 0x80 \<noteq> 0"
  from h have "128 \<le> unat b" by (simp add: and_0x80)
  then have "unat b div 128 = 1" by (intro div_nat_eqI) simp_all
  then have "unat b = 128 + n" using n div_mult_mod_eq [of "unat b" 128] unfolding unat_and_low by linarith
  then show ?thesis by (rule word_of_natI)
qed

text \<open>The strict parser on a well-formed identifier followed by a length byte.\<close>

lemma der_element_cases:
  assumes ok: "tag_ok tag"
  defines "h \<equiv> length (der_tag tag) + 1"
  shows "cbs_get_any_asn1_element False (der_tag tag @ lb # body) =
    (if lb AND 0x80 = 0 then get_element_bytes (unat lb + h) tag h False False (der_tag tag @ lb # body)
     else let n = unat (lb AND 0x7f)
          in if n = 0 \<or> n > 4 \<or> length body < n \<or> der_len (be_nat (take n body)) \<noteq> lb # take n body
             then (None, der_tag tag @ lb # body)
             else get_element_bytes (be_nat (take n body) + (h + n)) tag (h + n) False False (der_tag tag @ lb # body))"
proof -
  let ?c = "der_tag tag @ lb # body"
  have h: "length ?c - length body = h" by (simp add: h_def)
  note head = asn1_element_tag_eq [OF ok, of lb body]
  show ?thesis
  proof (cases "lb AND 0x80 = 0")
    case True
    then show ?thesis
      unfolding cbs_get_any_asn1_element_def head by (simp add: Let_def h_def)
  next
    case False
    define n where "n = unat (lb AND 0x7f)"
    have lb: "lb = of_nat (128 + n)" using n_def False by (intro unat_and_0x7f_high) simp_all
    show ?thesis
    proof (cases "n = 0 \<or> n > 4 \<or> length body < n")
      case True
      then show ?thesis using False
        unfolding cbs_get_any_asn1_element_def head n_def [symmetric]
        by (auto simp: Let_def cbs_get_u_def cbs_get_def n_def [symmetric])
    next
      case bnd: False
      let ?bs = "take n body"
      have len: "length ?bs = n" using bnd by simp
      have bs: "?bs \<noteq> []" "length ?bs \<le> 4" using bnd len by auto
      have g: "cbs_get_u n body = (Some (be_acc 0 ?bs), drop n body)"
        using bnd by (simp add: cbs_get_u_def cbs_get_def cbs_bind_def cbs_ret_def)
      have u: "unat (be_acc 0 ?bs) = be_nat ?bs" using bs by (intro unat_be_acc) simp
      have "be_nat ?bs < 256 ^ n" using be_nat_bound [of ?bs] unfolding len .
      also have "\<dots> \<le> 256 ^ 4" using bnd by (intro power_increasing) simp_all
      finally have "be_nat ?bs < 2 ^ 32" by simp
      then have "be_nat ?bs + (h + n) < 2 ^ 64"
        using length_der_tag [of tag] bnd by (simp add: h_def)
      then have sz: "\<not> size_add (be_nat ?bs) (h + n) < be_nat ?bs"
        by (simp add: size_add_small)
      from overlong_iff [OF bs, unfolded len]
      have ol: "(be_acc 0 ?bs < 128 \<or> drop_bit ((n - 1) * 8) (be_acc 0 ?bs) = 0)
        \<longleftrightarrow> der_len (be_nat ?bs) \<noteq> lb # ?bs" unfolding lb by blast
      show ?thesis using False bnd sz
        unfolding cbs_get_any_asn1_element_def head
        by (cases "der_len (be_nat ?bs) = lb # ?bs")
          (use ol in \<open>simp_all add: Let_def h_def n_def [symmetric] g u add.assoc\<close>)
    qed
  qed
qed

lemma any_asn1_element_der:
  assumes "CBS_get_any_asn1_element c = (Some el, rest)"
  shows "\<exists>tag content. tag_ok tag \<and> length content < 2 ^ 32 \<and>
    c = der tag content @ rest \<and> el = der_element tag content" (is ?R)
proof -
  from assms have L: "cbs_get_any_asn1_element False c = (Some el, rest)"
    by (simp add: CBS_get_any_asn1_element_def)
  obtain tag c1 where "parse_asn1_tag c = (Some tag, c1)"
    using L by (cases "parse_asn1_tag c"; cases "fst (parse_asn1_tag c)")
      (auto simp: cbs_get_any_asn1_element_def)
  then have ok: "tag_ok tag" and c: "c = der_tag tag @ c1" by (simp_all add: parse_asn1_tag_iff)
  obtain lb body where c1: "c1 = lb # body"
  proof (cases c1)
    case Nil
    with \<open>parse_asn1_tag c = (Some tag, c1)\<close> L show ?thesis
      by (simp add: cbs_get_any_asn1_element_def CBS_get_u8_def cbs_get_def cbs_bind_def)
  qed
  have eq: "c = der_tag tag @ lb # body" using c c1 by simp
  show ?R
  proof (cases "lb AND 0x80 = 0")
    case True
    then have lb: "unat lb < 128" by (simp add: and_0x80)
    have "get_element_bytes (unat lb + length (der_tag tag @ [lb])) tag (length (der_tag tag) + 1) False False
        ((der_tag tag @ [lb]) @ body) = (Some el, rest)"
      using L True unfolding eq der_element_cases [OF ok] by simp
    then have "unat lb \<le> length body" and rest: "rest = drop (unat lb) body"
      and el: "el = \<lparr>el_out = (der_tag tag @ [lb]) @ take (unat lb) body, el_tag = tag,
        el_header_len = length (der_tag tag) + 1, el_ber_found = False, el_indefinite = False\<rparr>"
      unfolding get_element_bytes_split by (simp_all split: if_splits)
    then have "length (take (unat lb) body) = unat lb" by simp
    then show ?R using ok lb rest el eq
      by (intro exI [of _ tag] exI [of _ "take (unat lb) body"])
        (simp add: der_def der_header_def der_len_def der_element_def)
  next
    case False
    define n where "n = unat (lb AND 0x7f)"
    let ?bs = "take n body" and ?m = "be_nat (take n body)"
    from L False have bnd: "n \<noteq> 0" "n \<le> 4" "n \<le> length body" "der_len ?m = lb # ?bs"
      and ge: "get_element_bytes (?m + (length (der_tag tag) + 1 + n)) tag (length (der_tag tag) + 1 + n) False False c
        = (Some el, rest)"
      unfolding eq der_element_cases [OF ok] by (auto simp: Let_def n_def [symmetric] split: if_splits)
    let ?hdr = "der_tag tag @ lb # ?bs" and ?body = "drop n body"
    have c': "c = ?hdr @ ?body" using eq by simp
    have "length ?hdr = length (der_tag tag) + 1 + n" using bnd by simp
    with ge c' have "get_element_bytes (?m + length ?hdr) tag (length ?hdr) False False (?hdr @ ?body) = (Some el, rest)"
      by simp
    then have len: "?m \<le> length ?body" and rest: "rest = drop ?m ?body"
      and el: "el = \<lparr>el_out = ?hdr @ take ?m ?body, el_tag = tag,
        el_header_len = length ?hdr, el_ber_found = False, el_indefinite = False\<rparr>"
      unfolding get_element_bytes_split by (simp_all split: if_splits)
    then have lt: "length (take ?m ?body) = ?m" by simp
    have "?m < 256 ^ length ?bs" by (rule be_nat_bound)
    also have "\<dots> \<le> 256 ^ 4" using bnd by (intro power_increasing) simp_all
    finally have "?m < 2 ^ 32" by simp
    then show ?R using ok rest el c' bnd lt
      by (intro exI [of _ tag] exI [of _ "take ?m ?body"])
        (simp add: der_def der_header_def der_element_def del: drop_drop)
  qed
qed

lemma any_asn1_element_of_der:
  assumes ok: "tag_ok tag" and len: "length content < 2 ^ 32"
  shows "CBS_get_any_asn1_element (der tag content @ rest) = (Some (der_element tag content), rest)"
    (is "CBS_get_any_asn1_element ?c = (Some ?el, rest)")
proof -
  let ?n = "length content"
  show ?thesis
  proof (cases "?n < 128")
    case True
    let ?lb = "of_nat ?n :: u8"
    have u: "unat ?lb = ?n" using True by (intro unat_of_nat_u8) simp
    have c': "?c = der_tag tag @ ?lb # content @ rest" using True by (simp add: der_def der_header_def der_len_def)
    have "?lb AND 0x80 = 0" using True by (simp add: and_0x80 u)
    then have "CBS_get_any_asn1_element ?c = get_element_bytes (?n + length (der_tag tag @ [?lb])) tag
        (length (der_tag tag) + 1) False False ((der_tag tag @ [?lb]) @ content @ rest)"
      unfolding c' CBS_get_any_asn1_element_def der_element_cases [OF ok] u by simp
    also have "\<dots> = (Some ?el, rest)"
      unfolding get_element_bytes_split
      using True by (simp add: der_element_def der_def der_header_def der_len_def)
    finally show ?thesis .
  next
    case False
    let ?bs = "be_min ?n" let ?k = "length ?bs"
    let ?lb = "of_nat (128 + ?k) :: u8"
    have k: "?k \<le> 4" using len by (intro length_be_min_le) simp
    have ne: "?bs \<noteq> []" using hd_be_min [of ?n] False by (cases "?n = 0") auto
    have u: "unat ?lb = 128 + ?k" using k by (intro unat_of_nat_u8) simp
    have lbk: "unat (?lb AND 0x7f) = ?k" using k unfolding unat_and_low u by simp
    have hi: "?lb AND 0x80 \<noteq> 0" unfolding and_0x80 u by simp
    have c': "?c = der_tag tag @ ?lb # ?bs @ content @ rest"
      using False by (simp add: der_def der_header_def der_len_def)
    have tk: "take ?k (?bs @ content @ rest) = ?bs" by simp
    have dl: "der_len ?n = ?lb # ?bs" using False by (simp add: der_len_def)
    have "CBS_get_any_asn1_element ?c = get_element_bytes (?n + (length (der_tag tag) + 1 + ?k)) tag
        (length (der_tag tag) + 1 + ?k) False False ?c"
      unfolding c' CBS_get_any_asn1_element_def der_element_cases [OF ok] lbk Let_def tk be_nat_be_min dl
      using hi k ne by simp
    also have "\<dots> = get_element_bytes (?n + length (der_tag tag @ ?lb # ?bs)) tag
        (length (der_tag tag) + 1 + ?k) False False ((der_tag tag @ ?lb # ?bs) @ content @ rest)"
      unfolding c' by simp
    also have "\<dots> = (Some ?el, rest)"
      unfolding get_element_bytes_split
      by (simp add: der_element_def der_def der_header_def dl)
    finally show ?thesis .
  qed
qed

theorem any_asn1_element_iff:
  "CBS_get_any_asn1_element c = (Some el, rest) \<longleftrightarrow>
    (\<exists>tag content. tag_ok tag \<and> length content < 2 ^ 32 \<and>
       c = der tag content @ rest \<and> el = der_element tag content)"
  using any_asn1_element_der any_asn1_element_of_der by blast

text \<open>The two public readers of an element with a known tag.\<close>

lemma cbs_get_asn1_iff:
  "cbs_get_asn1 tag skip c = (Some out, rest) \<longleftrightarrow>
    (\<exists>content. tag_ok tag \<and> length content < 2 ^ 32 \<and> c = der tag content @ rest \<and>
       out = (if skip then content else der tag content))"
proof -
  have skip: "CBS_skip (length (der_header t (length x))) (der t x) = (Some (), x)" for t x
    by (simp add: CBS_skip_def cbs_get_def cbs_bind_def cbs_ret_def der_def)
  show ?thesis (is "?L \<longleftrightarrow> ?R")
  proof
    assume ?L
    then show ?R
      by (auto simp: cbs_get_asn1_def cbs_bind_Some_iff any_asn1_element_iff der_element_def skip
          split: if_splits)
  next
    assume ?R
    then obtain content where "tag_ok tag" "length content < 2 ^ 32" "c = der tag content @ rest"
      and out: "out = (if skip then content else der tag content)" by blast
    then have el: "CBS_get_any_asn1_element c = (Some (der_element tag content), rest)"
      by (simp only: any_asn1_element_of_der)
    have "el_tag (der_element tag content) = tag" "el_out (der_element tag content) = der tag content"
      "el_header_len (der_element tag content) = length (der_header tag (length content))"
      by (simp_all add: der_element_def)
    then show ?L
      unfolding cbs_get_asn1_def cbs_bind_simps(2) [where p = CBS_get_any_asn1_element, OF el]
      by (simp add: skip out cbs_ret_def)
  qed
qed

lemma der_append_inject:
  assumes "der t x @ r = der t' x' @ r'" and "tag_ok t" "tag_ok t'"
    and "length x < 2 ^ 32" "length x' < 2 ^ 32"
  shows "t = t' \<and> x = x' \<and> r = r'"
proof -
  have "(Some (der_element t x), r) = (Some (der_element t' x'), r')"
    using assms any_asn1_element_of_der by metis
  then have "t = t' \<and> r = r' \<and> der t x = der t' x'
    \<and> length (der_header t (length x)) = length (der_header t' (length x'))"
    by (auto simp: der_element_def)
  then show ?thesis by (auto simp: der_def)
qed

theorem CBS_get_asn1_iff:
  "CBS_get_asn1 tag c = (Some content, rest) \<longleftrightarrow>
    tag_ok tag \<and> length content < 2 ^ 32 \<and> c = der tag content @ rest"
  by (auto simp: CBS_get_asn1_def cbs_get_asn1_iff)

theorem CBS_get_asn1_element_iff:
  "CBS_get_asn1_element tag c = (Some out, rest) \<longleftrightarrow>
    (\<exists>content. tag_ok tag \<and> length content < 2 ^ 32 \<and> out = der tag content \<and> c = out @ rest)"
  by (auto simp: CBS_get_asn1_element_def cbs_get_asn1_iff)

lemma CBS_peek_asn1_tag_der: "tag_ok tag \<Longrightarrow> CBS_peek_asn1_tag (der tag content @ rest) t \<longleftrightarrow> t = tag"
proof -
  assume "tag_ok tag"
  then have "parse_asn1_tag (der tag content @ rest) = (Some tag, der_len (length content) @ content @ rest)"
    by (simp add: parse_asn1_tag_iff der_def der_header_def)
  then show ?thesis by (auto simp: CBS_peek_asn1_tag_def)
qed

section \<open>INTEGER contents\<close>

text \<open>The value of two's complement content, and the shortest content for a value.\<close>

definition der_int_val :: "bytes \<Rightarrow> int" where
  "der_int_val bs = int (be_nat bs) - (if bs \<noteq> [] \<and> 128 \<le> uint (hd bs) then 256 ^ length bs else 0)"

function der_int :: "int \<Rightarrow> bytes" where
  "der_int z = (if - 128 \<le> z \<and> z < 128 then [word_of_int z] else der_int (z div 256) @ [word_of_int z])"
  by pat_completeness auto
termination
proof (relation "measure (\<lambda>z. nat \<bar>z\<bar>)")
  fix z :: int
  assume "\<not> (- 128 \<le> z \<and> z < 128)"
  then have "\<bar>z div 256\<bar> < \<bar>z\<bar>" by (cases "0 \<le> z") linarith+
  then show "(z div 256, z) \<in> measure (\<lambda>z. nat \<bar>z\<bar>)" by simp
qed simp

declare der_int.simps [simp del]

lemma der_int_small: "- 128 \<le> z \<Longrightarrow> z < 128 \<Longrightarrow> der_int z = [word_of_int z]"
  by (simp add: der_int.simps)

lemma der_int_big: "\<not> (- 128 \<le> z \<and> z < 128) \<Longrightarrow> der_int z = der_int (z div 256) @ [word_of_int z]"
  by (subst der_int.simps) (rule if_not_P)

lemma der_int_ne [simp]: "der_int z \<noteq> []"
  by (subst der_int.simps) simp

lemma uint_u8_range [simp]: "uint (b :: u8) < 256"
  using uint_lt2p [of b] by simp

lemma and_0x80_uint: "(b :: u8) AND 0x80 = 0 \<longleftrightarrow> uint b < 128"
  using word_less_nat_alt [of b 128] word_less_def [of b 128] by (simp add: and_0x80)

lemma der_int_val_single: "der_int_val [b] = (if uint b < 128 then uint b else uint b - 256)"
  by (simp add: der_int_val_def be_nat_Cons)

lemma der_int_val_snoc: "bs \<noteq> [] \<Longrightarrow> der_int_val (bs @ [b]) = der_int_val bs * 256 + uint b"
  by (simp add: der_int_val_def be_nat_snoc algebra_simps)

lemma valid_integer_Nil: "CBS_is_valid_asn1_integer [] = None"
  by (simp add: CBS_is_valid_asn1_integer_def CBS_get_u8_def cbs_get_def cbs_bind_def)

lemma valid_integer_single: "CBS_is_valid_asn1_integer [b] = Some (128 \<le> uint b)"
  by (simp add: CBS_is_valid_asn1_integer_def CBS_get_u8_def cbs_get_def cbs_bind_def cbs_ret_def
      and_0x80_uint not_less)

lemma valid_integer_Cons2:
  "CBS_is_valid_asn1_integer (a # b # bs) =
    (if (a = 0 \<and> uint b < 128) \<or> (a = 0xff \<and> 128 \<le> uint b) then None else Some (128 \<le> uint a))"
  by (simp add: CBS_is_valid_asn1_integer_def CBS_get_u8_def cbs_get_def cbs_bind_def cbs_ret_def
      and_0x80_uint not_less)

lemma valid_integer_snoc:
  "2 \<le> length bs \<Longrightarrow> CBS_is_valid_asn1_integer (bs @ [b]) = CBS_is_valid_asn1_integer bs"
  by (cases bs; cases "tl bs") (auto simp: valid_integer_Cons2)

lemma valid_integer_prefix:
  "bs \<noteq> [] \<Longrightarrow> CBS_is_valid_asn1_integer (bs @ [b]) \<noteq> None \<Longrightarrow> CBS_is_valid_asn1_integer bs \<noteq> None"
  by (cases "2 \<le> length bs")
    (auto simp: valid_integer_snoc valid_integer_single length_Suc_conv neq_Nil_conv not_le)

lemma two_byte_value:
  fixes a b :: u8
  shows "(a = 0 \<and> uint b < 128) \<or> (a = 0xff \<and> 128 \<le> uint b) \<longleftrightarrow>
    - 128 \<le> der_int_val [a] * 256 + uint b \<and> der_int_val [a] * 256 + uint b < 128"
proof -
  have "(x = 0 \<and> y < 128) \<or> (x = 255 \<and> 128 \<le> y) \<longleftrightarrow>
    - 128 \<le> (if x < 128 then x else x - 256) * 256 + y \<and> (if x < 128 then x else x - 256) * 256 + y < 128"
    if "0 \<le> x" "x < 256" "0 \<le> y" "y < 256" for x y :: int
    using that by (cases "x < 128"; cases "x = 0"; cases "x = 255"; auto)
  from this [of "uint a" "uint b"] show ?thesis
    by (simp add: der_int_val_single word_uint_eq_iff [of a])
qed

lemma valid_integer_big:
  assumes "bs \<noteq> []" and "CBS_is_valid_asn1_integer (bs @ [b]) \<noteq> None"
  shows "\<not> (- 128 \<le> der_int_val (bs @ [b]) \<and> der_int_val (bs @ [b]) < 128)"
  using assms
proof (induction bs arbitrary: b rule: rev_induct)
  case Nil
  then show ?case by simp
next
  case (snoc x xs)
  show ?case
  proof (cases "xs = []")
    case True
    then have "\<not> ((x = 0 \<and> uint b < 128) \<or> (x = 0xff \<and> 128 \<le> uint b))"
      using snoc.prems by (auto simp: valid_integer_Cons2 split: if_splits)
    then show ?thesis
      using True unfolding two_byte_value by (simp add: der_int_val_snoc [of "[x]", simplified])
  next
    case False
    from valid_integer_prefix [OF _ snoc.prems(2)]
    have "\<not> (- 128 \<le> der_int_val (xs @ [x]) \<and> der_int_val (xs @ [x]) < 128)"
      using False by (intro snoc.IH) simp_all
    moreover have "uint b < 256" "0 \<le> uint b" by simp_all
    moreover have "der_int_val ((xs @ [x]) @ [b]) = der_int_val (xs @ [x]) * 256 + uint b"
      by (rule der_int_val_snoc) simp
    ultimately show ?thesis by linarith
  qed
qed

lemma word_of_int_unat_add: "(word_of_int (z * 256 + uint b) :: u8) = b"
proof -
  have "(word_of_int (z * 256 + uint b) :: u8) = word_of_int z * word_of_int 256 + word_of_int (uint b)"
    by (simp only: wi_hom_mult [symmetric] wi_hom_add [symmetric])
  also have "(word_of_int 256 :: u8) = 0" by simp
  finally show ?thesis by simp
qed

lemma der_int_of_valid: "CBS_is_valid_asn1_integer bs \<noteq> None \<Longrightarrow> der_int (der_int_val bs) = bs"
proof (induction bs rule: rev_induct)
  case Nil
  then show ?case by (simp add: valid_integer_Nil)
next
  case (snoc b bs)
  show ?case
  proof (cases "bs = []")
    case True
    have "uint b < 256" "0 \<le> uint b" by simp_all
    then have "- 128 \<le> der_int_val [b]" "der_int_val [b] < 128"
      unfolding der_int_val_single by (simp_all only: split: if_split) linarith+
    moreover have "(word_of_int (der_int_val [b]) :: u8) = b"
      using word_of_int_unat_add [of 0 b] word_of_int_unat_add [of "-1" b]
      by (simp add: der_int_val_single)
    ultimately show ?thesis using True by (simp add: der_int_small)
  next
    case False
    let ?z = "der_int_val (bs @ [b])"
    have z: "?z = der_int_val bs * 256 + uint b" by (rule der_int_val_snoc [OF False])
    have "?z div 256 = der_int_val bs" unfolding z by simp
    moreover have "der_int (der_int_val bs) = bs"
      using valid_integer_prefix [OF False snoc.prems] by (rule snoc.IH)
    moreover have "(word_of_int ?z :: u8) = b" unfolding z by (rule word_of_int_unat_add)
    ultimately show ?thesis
      using der_int_big [OF valid_integer_big [OF False snoc.prems]] by (simp only:)
  qed
qed

lemma uint_word_of_int_u8: "uint (word_of_int z :: u8) = z mod 256"
  by (simp add: uint_word_of_int)

lemma der_int_val_der_int [simp]: "der_int_val (der_int z) = z"
proof (induction z rule: der_int.induct)
  case (1 z)
  show ?case
  proof (cases "- 128 \<le> z \<and> z < 128")
    case True
    have "z mod 256 = (if 0 \<le> z then z else z + 256)"
    proof (cases "0 \<le> z")
      case False
      have "(z + 256) mod 256 = z + 256" using True False by (intro mod_pos_pos_trivial) auto
      then show ?thesis using False by simp
    qed (use True in simp)
    with True show ?thesis by (simp add: der_int_small der_int_val_single uint_word_of_int_u8)
  next
    case False
    then show ?thesis
      using 1 [OF False] der_int_big [OF False] by (simp add: der_int_val_snoc uint_word_of_int_u8)
  qed
qed

lemma valid_der_int: "CBS_is_valid_asn1_integer (der_int z) \<noteq> None"
proof (induction z rule: der_int.induct)
  case (1 z)
  show ?case
  proof (cases "- 128 \<le> z \<and> z < 128")
    case True
    then show ?thesis by (simp add: der_int_small valid_integer_single)
  next
    case False
    let ?xs = "der_int (z div 256)" and ?b = "word_of_int z :: u8"
    have eq: "der_int z = ?xs @ [?b]" by (rule der_int_big [OF False])
    show ?thesis
    proof (cases "2 \<le> length ?xs")
      case True
      then show ?thesis using 1 [OF False] by (simp add: eq valid_integer_snoc)
    next
      case short: False
      then obtain a where xs: "?xs = [a]" by (cases ?xs) (auto simp: not_le)
      then have "der_int_val [a] * 256 + uint ?b = z"
        using der_int_val_der_int [of "z div 256"] by (simp add: uint_word_of_int_u8)
      with False have "\<not> ((a = 0 \<and> uint ?b < 128) \<or> (a = 0xff \<and> 128 \<le> uint ?b))"
        unfolding two_byte_value by simp
      then show ?thesis by (auto simp: eq xs valid_integer_Cons2)
    qed
  qed
qed

lemma valid_integer_sign:
  assumes "CBS_is_valid_asn1_integer bs = Some neg"
  shows "neg \<longleftrightarrow> der_int_val bs < 0"
proof -
  from assms have ne: "bs \<noteq> []" by (auto simp: valid_integer_Nil)
  then obtain b cs where bs: "bs = b # cs" by (cases bs) auto
  have neg: "neg \<longleftrightarrow> 128 \<le> uint b"
    using assms by (cases cs) (auto simp: bs valid_integer_single valid_integer_Cons2 split: if_splits)
  have "be_nat bs < 256 ^ length bs" by (rule be_nat_bound)
  then have "int (be_nat bs) < 256 ^ length bs" by (metis of_nat_less_iff of_nat_numeral of_nat_power)
  then show ?thesis unfolding neg der_int_val_def bs by simp
qed

text \<open>The check accepts exactly the shortest two's complement contents, and finds their sign.\<close>

theorem CBS_is_valid_asn1_integer_iff:
  "CBS_is_valid_asn1_integer bs = Some neg \<longleftrightarrow> bs = der_int (der_int_val bs) \<and> neg = (der_int_val bs < 0)"
proof
  assume *: "CBS_is_valid_asn1_integer bs = Some neg"
  then show "bs = der_int (der_int_val bs) \<and> neg = (der_int_val bs < 0)"
    using der_int_of_valid [of bs] valid_integer_sign [OF *] by simp
next
  assume *: "bs = der_int (der_int_val bs) \<and> neg = (der_int_val bs < 0)"
  then obtain n where n: "CBS_is_valid_asn1_integer bs = Some n"
    using valid_der_int [of "der_int_val bs"] by auto
  then show "CBS_is_valid_asn1_integer bs = Some neg"
    using * valid_integer_sign [OF n] by simp
qed

section \<open>Typed readers\<close>

lemma asn1_uint64_loop_eq:
  "unat v * 256 ^ length bs + be_nat bs < 2 ^ 64 \<Longrightarrow>
     asn1_uint64_loop v bs = Some (of_nat (unat v * 256 ^ length bs + be_nat bs))"
  "2 ^ 64 \<le> unat v * 256 ^ length bs + be_nat bs \<Longrightarrow> asn1_uint64_loop v bs = None"
proof (induction bs arbitrary: v)
  case Nil
  {
    case 1
    show ?case by simp
  next
    case 2
    moreover have "unat v < 2 ^ 64" using unsigned_less [of v] by simp
    ultimately show ?case by simp
  }
next
  case (Cons d ds)
  have d: "unat d + 1 \<le> 256" using unat_u8_lt [of d] by linarith
  have be: "be_nat ds + 1 \<le> 256 ^ length ds" using be_nat_bound [of ds] by linarith
  have small: "asn1_uint64_loop v (d # ds) = asn1_uint64_loop (push_bit 8 v OR ucast d) ds \<and>
      unat (push_bit 8 v OR ucast d) * 256 ^ length ds + be_nat ds =
      unat v * 256 ^ length (d # ds) + be_nat (d # ds)" if v: "unat v < 2 ^ 56" for v :: u64
  proof -
    have "unat (push_bit 8 v OR ucast d) = unat v * 2 ^ 8 + unat (ucast d :: u64)"
      by (rule unat_shift_or) (use v in \<open>simp_all add: unat_ucast_u8\<close>)
    then have u: "unat (push_bit 8 v OR ucast d) = unat v * 256 + unat d" by (simp add: unat_ucast_u8)
    have "unat (push_bit 8 v OR ucast d) * 256 ^ length ds + be_nat ds =
        unat v * 256 ^ length (d # ds) + be_nat (d # ds)"
      unfolding u be_nat_Cons by (simp add: algebra_simps)
    moreover have "asn1_uint64_loop v (d # ds) = asn1_uint64_loop (push_bit 8 v OR ucast d) ds"
      using v by (simp add: drop_bit_eq_0_iff)
    ultimately show ?thesis by simp
  qed
  {
    case 1
    have "unat v * 256 ^ 1 \<le> unat v * 256 ^ length (d # ds)"
      by (intro mult_left_mono power_increasing) simp_all
    with 1 have "unat v * 256 ^ 1 < 2 ^ 64" by linarith
    then have v: "unat v < 2 ^ 56" by simp
    note s = small [OF v]
    show ?case using Cons.IH(1) [of "push_bit 8 v OR ucast d"] 1 by (simp only: s)
  next
    case 2
    show ?case
    proof (cases "unat v < 2 ^ 56")
      case True
      note s = small [OF True]
      show ?thesis using Cons.IH(2) [of "push_bit 8 v OR ucast d"] 2 by (simp only: s)
    next
      case False
      then show ?thesis by (simp add: drop_bit_eq_0_iff)
    qed
  }
qed

lemma der_int_val_nonneg: "0 \<le> der_int_val bs \<Longrightarrow> der_int_val bs = int (be_nat bs)"
proof -
  have "int (be_nat bs) < 256 ^ length bs"
    using be_nat_bound [of bs] by (metis of_nat_less_iff of_nat_numeral of_nat_power)
  then show "0 \<le> der_int_val bs \<Longrightarrow> der_int_val bs = int (be_nat bs)"
    by (auto simp: der_int_val_def split: if_splits)
qed

lemma tag_ok_consts [simp]:
  "tag_ok CBS_ASN1_INTEGER" "tag_ok CBS_ASN1_BOOLEAN" "tag_ok CBS_ASN1_BITSTRING"
  "tag_ok CBS_ASN1_OCTETSTRING" "tag_ok CBS_ASN1_SEQUENCE" "tag_ok CBS_ASN1_SET"
  by code_simp+

lemma length_der_int_le:
  "- (128 * 256 ^ k) \<le> z \<Longrightarrow> z < 128 * 256 ^ k \<Longrightarrow> length (der_int z) \<le> k + 1"
proof (induction k arbitrary: z)
  case 0
  then show ?case by (simp add: der_int_small)
next
  case (Suc k)
  show ?case
  proof (cases "- 128 \<le> z \<and> z < 128")
    case False
    have "- (128 * 256 ^ k) * 256 \<le> z" "z < 128 * 256 ^ k * 256" using Suc.prems by (simp_all add: mult.commute)
    then have "- (128 * 256 ^ k) \<le> z div 256" "z div 256 < 128 * 256 ^ k" by linarith+
    from Suc.IH [OF this] show ?thesis by (simp add: der_int_big [OF False])
  qed (simp add: der_int_small)
qed

theorem CBS_get_asn1_uint64_iff:
  "CBS_get_asn1_uint64 c = (Some v, rest) \<longleftrightarrow> c = der CBS_ASN1_INTEGER (der_int (uint v)) @ rest"
proof
  assume "CBS_get_asn1_uint64 c = (Some v, rest)"
  then obtain bs where c: "c = der CBS_ASN1_INTEGER bs @ rest"
    and v: "CBS_is_valid_asn1_integer bs = Some False" "asn1_uint64_loop 0 bs = Some v"
    by (auto simp: CBS_get_asn1_uint64_def cbs_bind_Some_iff CBS_get_asn1_iff CBS_is_unsigned_asn1_integer_def
        split: if_splits option.splits)
  then have bs: "bs = der_int (der_int_val bs)" "0 \<le> der_int_val bs"
    by (simp_all add: CBS_is_valid_asn1_integer_iff)
  have lt: "be_nat bs < 2 ^ 64" using v asn1_uint64_loop_eq(2) [of 0 bs] by (cases "be_nat bs < 2 ^ 64") simp_all
  then have "v = of_nat (be_nat bs)" using v asn1_uint64_loop_eq(1) [of 0 bs] by simp
  then have "uint v = der_int_val bs"
    using lt der_int_val_nonneg [OF bs(2)] by (simp add: uint_nat unat_of_nat_u64 del: unsigned_of_nat)
  then show "c = der CBS_ASN1_INTEGER (der_int (uint v)) @ rest" using c bs by simp
next
  assume c: "c = der CBS_ASN1_INTEGER (der_int (uint v)) @ rest"
  let ?bs = "der_int (uint v)"
  have "length ?bs \<le> 8 + 1"
  proof (rule length_der_int_le)
    show "- (128 * 256 ^ 8) \<le> uint v" by (rule order_trans [of _ 0]) simp_all
    show "uint v < 128 * 256 ^ 8" using uint_lt2p [of v] by simp
  qed
  then have get: "CBS_get_asn1 CBS_ASN1_INTEGER c = (Some ?bs, rest)" unfolding CBS_get_asn1_iff c by simp
  have valid: "CBS_is_valid_asn1_integer ?bs = Some False"
    by (simp add: CBS_is_valid_asn1_integer_iff)
  have "int (be_nat ?bs) = uint v" using der_int_val_nonneg [of ?bs] by simp
  then have "be_nat ?bs = unat v" by (simp only: uint_nat of_nat_eq_iff)
  then have "asn1_uint64_loop 0 ?bs = Some v"
    using asn1_uint64_loop_eq(1) [of 0 ?bs] unsigned_less [of v] by simp
  with get valid show "CBS_get_asn1_uint64 c = (Some v, rest)"
    by (simp add: CBS_get_asn1_uint64_def CBS_is_unsigned_asn1_integer_def cbs_ret_def)
qed

lemma unat_le_word: "8 * length bs \<le> LENGTH('a) \<Longrightarrow> unat (le_word bs :: 'a::len word) = be_nat (rev bs)"
proof (induction bs)
  case (Cons b bs)
  have IH: "unat (le_word bs :: 'a word) = be_nat (rev bs)" using Cons by simp
  have "be_nat (rev bs) < 256 ^ length (rev bs)" by (rule be_nat_bound)
  also have "\<dots> = 2 ^ (8 * length bs)" by (simp add: power_mult)
  also have "\<dots> \<le> 2 ^ (LENGTH('a) - 8)" using Cons.prems by (intro power_increasing) simp_all
  finally have lt: "unat (le_word bs :: 'a word) < 2 ^ (LENGTH('a) - 8)" by (simp only: IH)
  have b: "unat (ucast b :: 'a word) = unat b" using Cons.prems by (intro unat_ucast_widen) simp
  have "unat (push_bit 8 (le_word bs) OR (ucast b :: 'a word)) = unat (le_word bs :: 'a word) * 2 ^ 8 + unat (ucast b :: 'a word)"
    by (rule unat_shift_or) (use lt b Cons.prems in simp_all)
  then show ?case by (simp add: or.commute be_nat_snoc IH b)
qed simp

lemma be_nat_replicate_ff: "be_nat (replicate k 0xff) + 1 = 256 ^ k"
  by (induction k) (simp_all add: be_nat_Cons)

text \<open>Sign extension to eight bytes: the word read from them is the value modulo \<open>2 ^ 64\<close>.\<close>

lemma sign_extend_word:
  assumes "length bs \<le> 8" and "bs \<noteq> []"
  shows "le_word (rev bs @ replicate (8 - length bs) (if der_int_val bs < 0 then 0xff else 0)) =
    (word_of_int (der_int_val bs) :: u64)"
proof -
  let ?k = "8 - length bs"
  let ?xs = "replicate ?k (if der_int_val bs < 0 then 0xff else 0) @ bs"
  have rev: "rev bs @ replicate ?k (if der_int_val bs < 0 then 0xff else 0) = rev ?xs" by simp
  have u: "unat (le_word (rev ?xs) :: u64) = be_nat ?xs"
    using assms unat_le_word [of "rev ?xs", where 'a = 64] by simp
  have pw: "(256::nat) ^ ?k * 256 ^ length bs = 2 ^ 64" using assms by (simp flip: power_add)
  have "(word_of_int (int (be_nat ?xs)) :: u64) = word_of_int (der_int_val bs)"
  proof (cases "der_int_val bs < 0")
    case True
    then have hd: "128 \<le> uint (hd bs)" by (simp add: der_int_val_def split: if_splits)
    have "(be_nat (replicate ?k 0xff) + 1) * 256 ^ length bs = 2 ^ 64"
      unfolding be_nat_replicate_ff by (rule pw)
    then have "be_nat ?xs + 256 ^ length bs = be_nat bs + 2 ^ 64"
      using True by (simp add: be_nat_append)
    then have "int (be_nat ?xs + 256 ^ length bs) = int (be_nat bs + 2 ^ 64)" by (simp only:)
    then have "int (be_nat ?xs) = der_int_val bs + 2 ^ 64"
      using hd assms(2) by (simp add: der_int_val_def)
    then show ?thesis by (simp only: wi_hom_add [symmetric]) simp
  next
    case False
    then show ?thesis using der_int_val_nonneg [of bs] by simp
  qed
  then have "le_word (rev ?xs) = (word_of_int (der_int_val bs) :: u64)"
    using word_of_natI [OF u] by simp
  then show ?thesis unfolding rev .
qed

lemma der_int_val_range:
  assumes "bs \<noteq> []"
  shows "- (128 * 256 ^ (length bs - 1)) \<le> der_int_val bs \<and> der_int_val bs < 128 * 256 ^ (length bs - 1)"
  using assms
proof (induction bs rule: rev_induct)
  case (snoc b bs)
  have b: "0 \<le> uint b" "uint b < 256" by simp_all
  show ?case
  proof (cases "bs = []")
    case True
    have "- 128 \<le> der_int_val [b]" "der_int_val [b] < 128"
      unfolding der_int_val_single using b by (simp_all only: split: if_split) linarith+
    then show ?thesis using True by simp
  next
    case False
    then obtain k where k: "length bs = Suc k" by (cases bs) auto
    have "- (128 * 256 ^ k) \<le> der_int_val bs" "der_int_val bs < 128 * 256 ^ k"
      using snoc.IH [OF False] by (simp_all add: k)
    moreover have "(256::int) ^ (length (bs @ [b]) - 1) = 256 * 256 ^ k" by (simp add: k)
    ultimately show ?thesis unfolding der_int_val_snoc [OF False] using b by linarith
  qed
qed simp

theorem CBS_get_asn1_int64_iff:
  "CBS_get_asn1_int64 c = (Some v, rest) \<longleftrightarrow> c = der CBS_ASN1_INTEGER (der_int (sint v)) @ rest"
proof
  assume "CBS_get_asn1_int64 c = (Some v, rest)"
  then obtain bs r where get: "CBS_get_asn1 CBS_ASN1_INTEGER c = (Some bs, r)"
    and k: "(case CBS_is_valid_asn1_integer bs of
       None \<Rightarrow> cbs_fail
     | Some is_negative \<Rightarrow>
         if length bs > 8 then cbs_fail
         else let sign_extend = rev bs @ replicate (8 - length bs) (if is_negative then 0xff else 0)
              in cbs_ret (le_word sign_extend)) r = (Some v, rest)"
    unfolding CBS_get_asn1_int64_def cbs_bind_Some_iff by blast
  from k obtain neg where valid: "CBS_is_valid_asn1_integer bs = Some neg"
    by (cases "CBS_is_valid_asn1_integer bs") simp_all
  from k have len: "length bs \<le> 8" and r: "rest = r"
    and v: "v = le_word (rev bs @ replicate (8 - length bs) (if neg then 0xff else 0))"
    unfolding valid option.case Let_def by (simp_all only: cbs_fail_Some_iff cbs_ret_Some_iff not_less split: if_split_asm)
  from get have c: "c = der CBS_ASN1_INTEGER bs @ rest" by (simp add: CBS_get_asn1_iff r)
  from valid have bs: "bs = der_int (der_int_val bs)" and neg: "neg \<longleftrightarrow> der_int_val bs < 0"
    by (simp_all add: CBS_is_valid_asn1_integer_iff)
  have ne: "bs \<noteq> []" using bs der_int_ne by metis
  have v': "v = word_of_int (der_int_val bs)" unfolding v neg using len ne by (rule sign_extend_word)
  have "(256::int) ^ (length bs - 1) \<le> 256 ^ 7" using len by (intro power_increasing) simp_all
  then have "- (2 ^ 63) \<le> der_int_val bs" "der_int_val bs < 2 ^ 63"
    using der_int_val_range [OF ne] by simp_all
  then have "sint v = der_int_val bs"
    unfolding v' by (simp add: signed_of_int signed_take_bit_int_eq_self)
  then show "c = der CBS_ASN1_INTEGER (der_int (sint v)) @ rest" using c bs by simp
next
  assume c: "c = der CBS_ASN1_INTEGER (der_int (sint v)) @ rest"
  let ?bs = "der_int (sint v)"
  have "length ?bs \<le> 7 + 1"
    using sint_ge [of v] sint_lt [of v] by (intro length_der_int_le) simp_all
  then have len: "length ?bs \<le> 8" by simp
  then have get: "CBS_get_asn1 CBS_ASN1_INTEGER c = (Some ?bs, rest)" unfolding CBS_get_asn1_iff c by simp
  have valid: "CBS_is_valid_asn1_integer ?bs = Some (sint v < 0)"
    by (simp add: CBS_is_valid_asn1_integer_iff)
  have "le_word (rev ?bs @ replicate (8 - length ?bs) (if sint v < 0 then 0xff else 0)) = v"
    using sign_extend_word [OF len der_int_ne] by simp
  then show "CBS_get_asn1_int64 c = (Some v, rest)"
    unfolding CBS_get_asn1_int64_def cbs_bind_simps(2) [where p = "CBS_get_asn1 CBS_ASN1_INTEGER", OF get]
    using len valid by (simp add: Let_def cbs_ret_def)
qed

lemma CBS_get_asn1_bool_iff:
  "CBS_get_asn1_bool c = (Some b, rest) \<longleftrightarrow> c = der CBS_ASN1_BOOLEAN [if b then 0xff else 0] @ rest"
proof
  assume "CBS_get_asn1_bool c = (Some b, rest)"
  then show "c = der CBS_ASN1_BOOLEAN [if b then 0xff else 0] @ rest"
    by (auto simp: CBS_get_asn1_bool_def cbs_bind_Some_iff CBS_get_asn1_iff Let_def length_Suc_conv
        split: if_splits)
next
  assume c: "c = der CBS_ASN1_BOOLEAN [if b then 0xff else 0] @ rest"
  then have get: "CBS_get_asn1 CBS_ASN1_BOOLEAN c = (Some [if b then 0xff else 0], rest)"
    unfolding CBS_get_asn1_iff by simp
  show "CBS_get_asn1_bool c = (Some b, rest)"
    unfolding CBS_get_asn1_bool_def cbs_bind_simps(2) [where p = "CBS_get_asn1 CBS_ASN1_BOOLEAN", OF get]
    by (simp add: Let_def cbs_ret_def)
qed

lemma length_der_int_u64: "length (der_int (uint (v :: u64))) \<le> 8 + 1"
proof (rule length_der_int_le)
  show "- (128 * 256 ^ 8) \<le> uint v" by (rule order_trans [of _ 0]) simp_all
  show "uint v < 128 * 256 ^ 8" using uint_lt2p [of v] by simp
qed

section \<open>Times\<close>

definition digits2 :: "int \<Rightarrow> bytes" where
  "digits2 n = [0x30 + word_of_int (n div 10), 0x30 + word_of_int (n mod 10)]"

definition time_digits :: "bool \<Rightarrow> tm \<Rightarrow> bytes" where
  "time_digits is_gentime t =
     (if is_gentime then digits2 ((tm_year t + 1900) div 100) else []) @ digits2 ((tm_year t + 1900) mod 100) @
     digits2 (tm_mon t + 1) @ digits2 (tm_mday t) @ digits2 (tm_hour t) @ digits2 (tm_min t) @ digits2 (tm_sec t)"

lemma digit_iff: "OPENSSL_isdigit d \<longleftrightarrow> 0x30 \<le> uint d \<and> uint d \<le> 0x39"
  by (simp add: OPENSSL_isdigit_def word_le_def)

lemma digit_value:
  assumes "0x30 \<le> uint (d :: u8)" and "uint d \<le> 0x39"
  shows "0x30 + word_of_int (uint d - 0x30) = d"
  by (simp add: wi_hom_sub [symmetric])

lemma uint_digit: "0 \<le> n \<Longrightarrow> n < 10 \<Longrightarrow> uint (0x30 + word_of_int n :: u8) = 0x30 + n"
proof -
  assume n: "0 \<le> n" "n < 10"
  have "(0x30 + word_of_int n :: u8) = word_of_int (0x30 + n)" by (simp add: wi_hom_add [symmetric])
  then show ?thesis using n by (simp only: uint_word_of_int_u8) simp
qed

lemma div_mod_10: "0 \<le> y \<Longrightarrow> y < 10 \<Longrightarrow> (x * 10 + y) div 10 = x \<and> (x * 10 + y) mod 10 = (y :: int)"
  by simp

lemma cbs_get_two_digits_iff:
  "cbs_get_two_digits c = (Some n, c') \<longleftrightarrow> 0 \<le> n \<and> n \<le> 99 \<and> c = digits2 n @ c'"
proof
  assume "cbs_get_two_digits c = (Some n, c')"
  then obtain a b where c: "c = a # b # c'" and a: "0x30 \<le> uint a" "uint a \<le> 0x39"
    and b: "0x30 \<le> uint b" "uint b \<le> 0x39" and n: "n = (uint a - 0x30) * 10 + (uint b - 0x30)"
    by (auto simp: cbs_get_two_digits_def cbs_bind_Some_iff CBS_get_u8_Some_iff digit_iff)
  have "n div 10 = uint a - 0x30" "n mod 10 = uint b - 0x30"
    using b div_mod_10 [of "uint b - 0x30" "uint a - 0x30"] unfolding n by simp_all
  then show "0 \<le> n \<and> n \<le> 99 \<and> c = digits2 n @ c'"
    using a b n c by (simp add: digits2_def digit_value)
next
  assume *: "0 \<le> n \<and> n \<le> 99 \<and> c = digits2 n @ c'"
  then have "0 \<le> n div 10" "n div 10 < 10" "0 \<le> n mod 10" "n mod 10 < 10" by auto
  then have u: "uint (0x30 + word_of_int (n div 10) :: u8) = 0x30 + n div 10"
    "uint (0x30 + word_of_int (n mod 10) :: u8) = 0x30 + n mod 10"
    by (auto intro: uint_digit)
  show "cbs_get_two_digits c = (Some n, c')" using * \<open>n div 10 < 10\<close> \<open>0 \<le> n div 10\<close>
    by (simp add: cbs_get_two_digits_def cbs_bind_Some_iff CBS_get_u8_Some_iff digit_iff digits2_def u)
qed

lemma is_valid_day_date:
  "0 \<le> y \<Longrightarrow> y \<le> 9999 \<Longrightarrow> 1 \<le> m \<Longrightarrow> is_valid_day y m d \<longleftrightarrow> is_valid_date y m d"
  by (auto simp: is_valid_day_def is_valid_date_def)

definition time_year_ok :: "bool \<Rightarrow> tm \<Rightarrow> bool" where
  "time_year_ok is_gentime t \<longleftrightarrow> (is_gentime \<or> (50 \<le> tm_year t \<and> tm_year t < 150))"

lemma get_time_year_iff:
  "get_time_year is_gentime c = (Some y, c') \<longleftrightarrow>
    (if is_gentime then 0 \<le> y \<and> y \<le> 9999 \<and> c = digits2 (y div 100) @ digits2 (y mod 100) @ c'
     else 1950 \<le> y \<and> y < 2050 \<and> c = digits2 (y mod 100) @ c')"
proof (cases is_gentime)
  case True
  have "(\<exists>hi. 0 \<le> hi \<and> hi \<le> 99 \<and> (\<exists>lo. 0 \<le> lo \<and> lo \<le> 99 \<and> c = digits2 hi @ digits2 lo @ c' \<and> y = hi * 100 + lo))
    \<longleftrightarrow> 0 \<le> y \<and> y \<le> 9999 \<and> c = digits2 (y div 100) @ digits2 (y mod 100) @ c'"
  proof
    assume "0 \<le> y \<and> y \<le> 9999 \<and> c = digits2 (y div 100) @ digits2 (y mod 100) @ c'"
    then show "\<exists>hi. 0 \<le> hi \<and> hi \<le> 99 \<and> (\<exists>lo. 0 \<le> lo \<and> lo \<le> 99 \<and> c = digits2 hi @ digits2 lo @ c' \<and> y = hi * 100 + lo)"
      by (intro exI [of _ "y div 100"], auto intro!: exI [of _ "y mod 100"])
  qed auto
  then show ?thesis
    using True by (auto simp: get_time_year_def cbs_bind_Some_iff cbs_get_two_digits_iff)
next
  case False
  have "(\<exists>yy. 0 \<le> yy \<and> yy \<le> 99 \<and> c = digits2 yy @ c' \<and> y = (if 1900 + yy < 1950 then 2000 + yy else 1900 + yy))
    \<longleftrightarrow> 1950 \<le> y \<and> y < 2050 \<and> c = digits2 (y mod 100) @ c'"
  proof
    assume "\<exists>yy. 0 \<le> yy \<and> yy \<le> 99 \<and> c = digits2 yy @ c' \<and> y = (if 1900 + yy < 1950 then 2000 + yy else 1900 + yy)"
    then obtain yy where *: "0 \<le> yy" "yy \<le> 99" "c = digits2 yy @ c'" "y = (if 1900 + yy < 1950 then 2000 + yy else 1900 + yy)"
      by blast
    have "(yy + k * 100) mod 100 = yy" for k using *(1,2) by (simp only: mod_mult_self1) simp
    from this [of 20] this [of 19] have "(2000 + yy) mod 100 = yy" "(1900 + yy) mod 100 = yy"
      by (simp_all only: add.commute [of yy]) simp_all
    then have "y mod 100 = yy" unfolding *(4) by simp
    with * show "1950 \<le> y \<and> y < 2050 \<and> c = digits2 (y mod 100) @ c'" by (auto split: if_splits)
  next
    assume *: "1950 \<le> y \<and> y < 2050 \<and> c = digits2 (y mod 100) @ c'"
    then have "y div 100 = 19 \<or> y div 100 = 20" by linarith
    then have "y = (if 1900 + y mod 100 < 1950 then 2000 + y mod 100 else 1900 + y mod 100)"
    proof
      assume "y div 100 = 19"
      then have "y = 1900 + y mod 100" using div_mult_mod_eq [of y 100] by linarith
      moreover from this have "\<not> 1900 + y mod 100 < 1950" using * by linarith
      ultimately show ?thesis by (simp only: if_False)
    next
      assume "y div 100 = 20"
      then have "y = 2000 + y mod 100" using div_mult_mod_eq [of y 100] by linarith
      moreover from this have "1900 + y mod 100 < 1950" using * by linarith
      ultimately show ?thesis by (simp only: if_True)
    qed
    with * show "\<exists>yy. 0 \<le> yy \<and> yy \<le> 99 \<and> c = digits2 yy @ c' \<and> y = (if 1900 + yy < 1950 then 2000 + yy else 1900 + yy)"
      by (intro exI [of _ "y mod 100"]) auto
  qed
  moreover have k: "(let year0 = 1900 + yy; year = (if year0 < 1950 then year0 + 100 else year0)
      in if year \<ge> 2050 then cbs_fail else cbs_ret year) r = (Some y, c') \<longleftrightarrow>
      y = (if 1900 + yy < 1950 then 2000 + yy else 1900 + yy) \<and> c' = r"
    if "0 \<le> yy" "yy \<le> 99" for yy r
    using that by (simp add: Let_def)
  have "get_time_year is_gentime c = (Some y, c') \<longleftrightarrow>
    (\<exists>yy r. (0 \<le> yy \<and> yy \<le> 99 \<and> c = digits2 yy @ r) \<and>
      y = (if 1900 + yy < 1950 then 2000 + yy else 1900 + yy) \<and> c' = r)"
    unfolding get_time_year_def if_not_P [OF False] cbs_bind_Some_iff cbs_get_two_digits_iff
    by (simp only: k cong: conj_cong)
  then have "get_time_year is_gentime c = (Some y, c') \<longleftrightarrow>
    (\<exists>yy. 0 \<le> yy \<and> yy \<le> 99 \<and> c = digits2 yy @ c' \<and> y = (if 1900 + yy < 1950 then 2000 + yy else 1900 + yy))"
    by blast
  ultimately show ?thesis using False by (simp only: if_False)
qed

lemma get_time_offset_strict:
  "get_time_offset False c = (Some off, rest) \<longleftrightarrow> off = 0 \<and> c = 0x5a # rest"
  by (fastforce simp: get_time_offset_def cbs_bind_Some_iff CBS_get_u8_Some_iff split: if_splits)

lemma get_time_offset_signed:
  assumes "0 \<le> h" "h \<le> 23" "0 \<le> m" "m \<le> 59"
  shows "get_time_offset True (0x2b # digits2 h @ digits2 m @ r) = (Some (h * 3600 + m * 60), r)"
    and "get_time_offset True (0x2d # digits2 h @ digits2 m @ r) = (Some (- (h * 3600 + m * 60)), r)"
proof -
  have dig: "cbs_get_two_digits (digits2 n @ r) = (Some n, r)" if "0 \<le> n" "n \<le> 99" for n r
    using that by (simp add: cbs_get_two_digits_iff)
  have u8: "CBS_get_u8 (x # xs) = (Some x, xs)" for x xs by (simp add: CBS_get_u8_Some_iff)
  show "get_time_offset True (0x2b # digits2 h @ digits2 m @ r) = (Some (h * 3600 + m * 60), r)"
    "get_time_offset True (0x2d # digits2 h @ digits2 m @ r) = (Some (- (h * 3600 + m * 60)), r)"
    using assms by (simp_all add: get_time_offset_def u8 dig cbs_guard_def cbs_ret_def)
qed

text \<open>The fields before the time zone, whatever the zone.\<close>

lemma parse_time_fields_iff:
  "parse_time_fields g z c = (Some (t, off), rest) \<longleftrightarrow>
    (\<exists>c'. valid_tm t \<and> time_year_ok g t \<and> c = time_digits g t @ c' \<and> get_time_offset z c' = (Some off, rest))"
    (is "?L \<longleftrightarrow> ?R")
proof
  assume ?L
  then obtain year month day hour mi sec c1 c' where
    y: "get_time_year g c = (Some year, c1)" and
    m: "0 \<le> month" "month \<le> 99" "\<not> (month < 1 \<or> month > 12)" and
    d: "is_valid_day year month day" "0 \<le> day" "day \<le> 99" and
    hms: "0 \<le> hour" "\<not> hour > 23" "0 \<le> mi" "\<not> mi > 59" "0 \<le> sec" "\<not> sec > 59" and
    c1: "c1 = digits2 month @ digits2 day @ digits2 hour @ digits2 mi @ digits2 sec @ c'" and
    z: "get_time_offset z c' = (Some off, rest)" and
    t: "t = \<lparr>tm_year = year - 1900, tm_mon = month - 1, tm_mday = day, tm_hour = hour,
      tm_min = mi, tm_sec = sec\<rparr>"
    unfolding parse_time_fields_def cbs_bind_Some_iff cbs_get_two_digits_iff cbs_guard_Some_iff
      cbs_ret_Some_iff prod.inject by blast
  have yr: "0 \<le> year" "year \<le> 9999" using y by (auto simp: get_time_year_iff split: if_splits)
  have "is_valid_date year month day" using d m yr by (simp add: is_valid_day_date)
  then have "valid_tm t" using hms by (simp add: t valid_tm_def is_valid_time_def)
  moreover have "time_year_ok g t" "c = time_digits g t @ c'"
    using y c1 by (auto simp: t time_year_ok_def time_digits_def get_time_year_iff split: if_splits)
  ultimately show ?R using z by blast
next
  assume ?R
  then obtain c' where v: "valid_tm t" and yo: "time_year_ok g t" and c: "c = time_digits g t @ c'"
    and z: "get_time_offset z c' = (Some off, rest)" by blast
  let ?y = "tm_year t + 1900" and ?m = "tm_mon t + 1"
  have date: "is_valid_date ?y ?m (tm_mday t)" and time: "is_valid_time (tm_hour t) (tm_min t) (tm_sec t)"
    using v by (simp_all add: valid_tm_def)
  then have rng: "0 \<le> ?y" "?y \<le> 9999" "1 \<le> ?m" "?m \<le> 12" "1 \<le> tm_mday t" "tm_mday t \<le> 31"
    by (auto simp: is_valid_date_def split: if_splits)
  have day: "is_valid_day ?y ?m (tm_mday t)" using date rng by (simp add: is_valid_day_date)
  have year: "get_time_year g (time_digits g t @ c') = (Some ?y, drop (if g then 4 else 2) (time_digits g t @ c'))"
    using rng yo by (auto simp: get_time_year_iff time_digits_def time_year_ok_def digits2_def)
  have dig: "cbs_get_two_digits (digits2 n @ r) = (Some n, r)" if "0 \<le> n" "n \<le> 99" for n r
    using that by (simp add: cbs_get_two_digits_iff)
  have drop: "drop (if g then 4 else 2) (time_digits g t @ c') =
    digits2 ?m @ digits2 (tm_mday t) @ digits2 (tm_hour t) @ digits2 (tm_min t) @ digits2 (tm_sec t) @ c'"
    by (simp add: time_digits_def digits2_def)
  have t: "0 \<le> tm_hour t" "tm_hour t \<le> 23" "0 \<le> tm_min t" "tm_min t \<le> 59" "0 \<le> tm_sec t" "tm_sec t \<le> 59"
    using time by (simp_all add: is_valid_time_def)
  show ?L
    unfolding parse_time_fields_def c
    using year drop z day rng t by (simp add: dig cbs_guard_def cbs_ret_def)
qed

lemma parse_time_strict:
  "CBS_parse_rfc5280_time_internal c g False = Some t \<longleftrightarrow>
    valid_tm t \<and> time_year_ok g t \<and> c = time_digits g t @ [0x5a]"
proof
  assume "CBS_parse_rfc5280_time_internal c g False = Some t"
  then obtain t' off where p: "parse_time_fields g False c = (Some (t', off), [])"
    and t: "(if off \<noteq> 0 then OPENSSL_gmtime_adj t' 0 off else Some t') = Some t"
    by (auto simp: CBS_parse_rfc5280_time_internal_def split: prod.splits option.splits if_splits)
  then show "valid_tm t \<and> time_year_ok g t \<and> c = time_digits g t @ [0x5a]"
    by (auto simp: parse_time_fields_iff get_time_offset_strict)
next
  assume "valid_tm t \<and> time_year_ok g t \<and> c = time_digits g t @ [0x5a]"
  then have "parse_time_fields g False c = (Some (t, 0), [])"
    by (auto simp: parse_time_fields_iff get_time_offset_strict)
  then show "CBS_parse_rfc5280_time_internal c g False = Some t"
    by (simp add: CBS_parse_rfc5280_time_internal_def)
qed

lemma parse_time_offset:
  assumes t: "valid_tm t" "time_year_ok g t" and hm: "0 \<le> h" "h \<le> 23" "0 \<le> m" "m \<le> 59"
  shows "CBS_parse_rfc5280_time_internal (time_digits g t @ 0x2b # digits2 h @ digits2 m) g True =
      OPENSSL_gmtime_adj t 0 (h * 3600 + m * 60)"
    and "CBS_parse_rfc5280_time_internal (time_digits g t @ 0x2d # digits2 h @ digits2 m) g True =
      OPENSSL_gmtime_adj t 0 (- (h * 3600 + m * 60))"
proof -
  have "parse_time_fields g True (time_digits g t @ 0x2b # digits2 h @ digits2 m) = (Some (t, h * 3600 + m * 60), [])"
    "parse_time_fields g True (time_digits g t @ 0x2d # digits2 h @ digits2 m) = (Some (t, - (h * 3600 + m * 60)), [])"
    using t get_time_offset_signed [OF hm, of "[]"] by (auto simp: parse_time_fields_iff)
  moreover obtain s where "OPENSSL_tm_to_posix t = Some s" "OPENSSL_posix_to_tm s = Some t"
    using tm_to_posix_valid [OF t(1)] by metis
  then have "OPENSSL_gmtime_adj t 0 0 = Some t" by (simp add: gmtime_adj_posix_to_tm)
  ultimately show
    "CBS_parse_rfc5280_time_internal (time_digits g t @ 0x2b # digits2 h @ digits2 m) g True =
      OPENSSL_gmtime_adj t 0 (h * 3600 + m * 60)"
    "CBS_parse_rfc5280_time_internal (time_digits g t @ 0x2d # digits2 h @ digits2 m) g True =
      OPENSSL_gmtime_adj t 0 (- (h * 3600 + m * 60))"
    by (auto simp: CBS_parse_rfc5280_time_internal_def)
qed

section \<open>Optional elements\<close>

lemma CBS_get_optional_asn1_der:
  assumes "tag_ok t" and "length x < 2 ^ 32"
  shows "CBS_get_optional_asn1 tag (der t x @ rest) =
    (if t = tag then (Some (Some x), rest) else (Some None, der t x @ rest))"
proof (cases "t = tag")
  case True
  have "CBS_get_asn1 tag (der t x @ rest) = (Some x, rest)" using assms True by (simp add: CBS_get_asn1_iff)
  then show ?thesis
    using True assms by (simp add: CBS_get_optional_asn1_def CBS_peek_asn1_tag_der cbs_ret_def)
next
  case False
  then show ?thesis using assms by (simp add: CBS_get_optional_asn1_def CBS_peek_asn1_tag_der)
qed

lemma CBS_get_optional_asn1_Some_iff:
  "CBS_get_optional_asn1 tag c = (Some (Some x), rest) \<longleftrightarrow>
    tag_ok tag \<and> length x < 2 ^ 32 \<and> c = der tag x @ rest"
proof
  assume "CBS_get_optional_asn1 tag c = (Some (Some x), rest)"
  then show "tag_ok tag \<and> length x < 2 ^ 32 \<and> c = der tag x @ rest"
    by (auto simp: CBS_get_optional_asn1_def cbs_bind_Some_iff CBS_get_asn1_iff split: if_splits)
next
  assume "tag_ok tag \<and> length x < 2 ^ 32 \<and> c = der tag x @ rest"
  then show "CBS_get_optional_asn1 tag c = (Some (Some x), rest)"
    by (simp add: CBS_get_optional_asn1_der)
qed

text \<open>An optional integer: the default is taken only when the next element has another tag.\<close>

lemma CBS_get_optional_asn1_uint64_iff:
  "CBS_get_optional_asn1_uint64 tag d c = (Some v, rest) \<longleftrightarrow>
    (if CBS_peek_asn1_tag c tag
     then tag_ok tag \<and> c = der tag (der CBS_ASN1_INTEGER (der_int (uint v))) @ rest
     else v = d \<and> rest = c)"
proof (cases "CBS_peek_asn1_tag c tag")
  case True
  have len: "length (der CBS_ASN1_INTEGER (der_int (uint v))) < 2 ^ 32"
  proof -
    have "length (der_int (uint v)) \<le> 8 + 1" by (rule length_der_int_u64)
    then show ?thesis
      using length_der_tag [of CBS_ASN1_INTEGER] length_der_len [of "length (der_int (uint v))"]
      by (simp add: der_def der_header_def)
  qed
  have "CBS_get_optional_asn1_uint64 tag d c = (Some v, rest) \<longleftrightarrow>
    (\<exists>x. CBS_get_asn1 tag c = (Some x, rest) \<and> CBS_get_asn1_uint64 x = (Some v, []))"
  proof -
    have k: "(case CBS_get_asn1_uint64 x of (Some out, []) \<Rightarrow> cbs_ret out | _ \<Rightarrow> cbs_fail) c' = (Some v, rest)
      \<longleftrightarrow> CBS_get_asn1_uint64 x = (Some v, []) \<and> c' = rest" for x c'
      by (cases "CBS_get_asn1_uint64 x"; cases "fst (CBS_get_asn1_uint64 x)"; cases "snd (CBS_get_asn1_uint64 x)")
        auto
    have o: "CBS_get_optional_asn1 tag c = cbs_bind (CBS_get_asn1 tag) (\<lambda>out. cbs_ret (Some out)) c"
      using True by (simp add: CBS_get_optional_asn1_def)
    show ?thesis
      unfolding CBS_get_optional_asn1_uint64_def cbs_bind_Some_iff o cbs_ret_Some_iff
      by (auto simp: k)
  qed
  then show ?thesis
    using True len by (auto simp: CBS_get_asn1_uint64_iff CBS_get_asn1_iff)
next
  case False
  then show ?thesis
    by (auto simp: CBS_get_optional_asn1_uint64_def CBS_get_optional_asn1_def cbs_bind_def cbs_ret_def)
qed

end
