(* ===== verification/Cbb.thy ===== *)
theory Cbb
  imports Der
begin

text \<open>
  \<open>crypto/bytestring/cbb.c\<close> and \<open>asn1_compat.c\<close>: the builder.  A top-level \<open>CBB\<close> owns a buffer; a
  length-prefixed element is a child \<open>CBB\<close> that writes to the same buffer, and at any time the
  open elements form a chain.  The state below is the buffer with that chain, outermost child
  first; the \<open>CBB *\<close> argument of an operation is its depth \<open>d\<close>: 0 is the top level, \<open>d + 1\<close> the child
  \<open>children ! d\<close>.  A depth past the end of the chain is a \<open>CBB\<close> that a flush has invalidated (its
  \<open>base\<close> is \<open>NULL\<close>).

  \<open>buf\<close> holds the \<open>len\<close> valid bytes of the C buffer; the code never reads past them, and an
  operation that hands out a pointer to fresh space takes what the caller stores there as an
  argument.  \<open>alloc n\<close> says whether a (re)allocation to \<open>n\<close> bytes succeeds.  An operation returns
  the C result and the new state.
\<close>

record cbb_child =
  offset :: nat
  pending_len_len :: nat
  pending_is_asn1 :: bool

record cbb =
  buf :: bytes
  cap :: nat
  can_resize :: bool
  cbb_error :: bool
  children :: "cbb_child list"

type_synonym cbb_op = "cbb \<Rightarrow> bool \<times> cbb"

text \<open>The chain \<open>if (!f(cbb) || !g(cbb)) return 0; return 1;\<close>.\<close>

definition cbb_seq :: "cbb_op \<Rightarrow> cbb_op \<Rightarrow> cbb_op" where
  "cbb_seq f g s = (case f s of (ok, s') \<Rightarrow> if ok then g s' else (False, s'))"

definition cbb_fail :: cbb_op where
  "cbb_fail s = (False, s)"

text \<open>The exit \<open>err: base->error = 1; return 0;\<close>.\<close>

definition cbb_err :: cbb_op where
  "cbb_err s = (False, s\<lparr>cbb_error := True\<rparr>)"

definition CBB_init :: "(nat \<Rightarrow> bool) \<Rightarrow> nat \<Rightarrow> cbb option" where
  "CBB_init alloc initial_capacity =
     (if initial_capacity > 0 \<and> \<not> alloc initial_capacity then None
      else Some \<lparr>buf = [], cap = initial_capacity, can_resize = True, cbb_error = False, children = []\<rparr>)"

definition CBB_init_fixed :: "nat \<Rightarrow> cbb" where
  "CBB_init_fixed len = \<lparr>buf = [], cap = len, can_resize = False, cbb_error = False, children = []\<rparr>"

text \<open>\<open>cbb_buffer_reserve\<close> makes room for \<open>len\<close> more bytes, doubling the capacity at least.\<close>

definition cbb_buffer_reserve :: "(nat \<Rightarrow> bool) \<Rightarrow> nat \<Rightarrow> cbb_op" where
  "cbb_buffer_reserve alloc len s =
     (let newlen = size_add (length (buf s)) len
      in if newlen < length (buf s) then cbb_err s
         else if newlen > cap s then
           (if \<not> can_resize s then cbb_err s
            else
              let doubled = cap s * 2 mod 2 ^ 64;
                  newcap = (if doubled < cap s \<or> doubled < newlen then newlen else doubled)
              in if \<not> alloc newcap then cbb_err s else (True, s\<lparr>cap := newcap\<rparr>))
         else (True, s))"

text \<open>\<open>cbb_buffer_add\<close>: the bytes that end up in the new space are \<open>space\<close>.\<close>

definition cbb_buffer_add :: "(nat \<Rightarrow> bool) \<Rightarrow> bytes \<Rightarrow> cbb_op" where
  "cbb_buffer_add alloc space =
     cbb_seq (cbb_buffer_reserve alloc (length space)) (\<lambda>s. (True, s\<lparr>buf := buf s @ space\<rparr>))"

definition memmove :: "bytes \<Rightarrow> nat \<Rightarrow> nat \<Rightarrow> nat \<Rightarrow> bytes" where
  "memmove b dst src n = take dst b @ take n (drop src b) @ drop (dst + n) b"

text \<open>The loop that stores the low \<open>i\<close> bytes of a length, last first; what is left of the length.\<close>

fun put_be :: "nat \<Rightarrow> nat \<Rightarrow> nat \<Rightarrow> bytes \<Rightarrow> bytes \<times> nat" where
  "put_be 0 off v b = (b, v)"
| "put_be (Suc i) off v b = put_be i off (v div 256) (b[off + i := of_nat v])"

text \<open>The size of the DER length octets of \<open>CBB_flush\<close>, their first byte and what they still hold.\<close>

definition asn1_len_len :: "nat \<Rightarrow> (nat \<times> u8 \<times> nat) option" where
  "asn1_len_len len =
     (if len > 0xfffffffe then None
      else if len > 0xffffff then Some (5, 0x80 OR 4, len)
      else if len > 0xffff then Some (4, 0x80 OR 3, len)
      else if len > 0xff then Some (3, 0x80 OR 2, len)
      else if len > 0x7f then Some (2, 0x80 OR 1, len)
      else Some (1, of_nat len, 0))"

text \<open>The body of \<open>CBB_flush\<close> after the recursive call, for the child at position \<open>d\<close> of the chain.\<close>

definition cbb_put_length :: "nat \<Rightarrow> nat \<Rightarrow> nat \<Rightarrow> nat \<Rightarrow> cbb_op" where
  "cbb_put_length d off len_len len s =
     (case put_be len_len off len (buf s) of
        (b, rest) \<Rightarrow>
          let s' = s\<lparr>buf := b\<rparr>
          in if rest \<noteq> 0 then cbb_err s' else (True, s'\<lparr>children := take d (children s')\<rparr>))"

definition cbb_close_child :: "(nat \<Rightarrow> bool) \<Rightarrow> nat \<Rightarrow> cbb_child \<Rightarrow> cbb_op" where
  "cbb_close_child alloc d child s =
     (let child_start = size_add (offset child) (pending_len_len child)
      in if child_start < offset child \<or> length (buf s) < child_start then cbb_err s
         else
           let len = length (buf s) - child_start
           in if pending_is_asn1 child then
                (case asn1_len_len len of
                   None \<Rightarrow> cbb_err s
                 | Some (len_len, initial_length_byte, len') \<Rightarrow>
                     let extra_bytes = len_len - 1
                     in case (if len_len \<noteq> 1
                              then cbb_seq (cbb_buffer_add alloc (replicate extra_bytes 0))
                                     (\<lambda>s. (True, s\<lparr>buf := memmove (buf s) (child_start + extra_bytes) child_start len'\<rparr>)) s
                              else (True, s)) of
                          (False, s1) \<Rightarrow> cbb_err s1
                        | (True, s1) \<Rightarrow>
                            cbb_put_length d (offset child + 1) extra_bytes len'
                              (s1\<lparr>buf := (buf s1)[offset child := initial_length_byte]\<rparr>))
              else cbb_put_length d (offset child) (pending_len_len child) len s)"

function CBB_flush :: "(nat \<Rightarrow> bool) \<Rightarrow> nat \<Rightarrow> cbb_op" where
  "CBB_flush alloc d s =
     (if length (children s) < d \<or> cbb_error s then (False, s)
      else if length (children s) = d then (True, s)
      else case CBB_flush alloc (d + 1) s of
        (False, s1) \<Rightarrow> cbb_err s1
      | (True, s1) \<Rightarrow> cbb_close_child alloc d (children s ! d) s1)"
  by pat_completeness auto
termination by (relation "measure (\<lambda>(alloc, d, s). length (children s) - d)") auto

declare CBB_flush.simps [simp del]

text \<open>\<open>CBB_finish\<close>: the finished buffer.  \<open>has_out\<close> says that both output pointers are given.\<close>

definition CBB_finish :: "(nat \<Rightarrow> bool) \<Rightarrow> nat \<Rightarrow> bool \<Rightarrow> cbb \<Rightarrow> bytes option" where
  "CBB_finish alloc d has_out s =
     (if d \<noteq> 0 then None
      else case CBB_flush alloc d s of
        (False, _) \<Rightarrow> None
      | (True, s') \<Rightarrow> if can_resize s' \<and> \<not> has_out then None else Some (buf s'))"

definition CBB_data :: "nat \<Rightarrow> cbb \<Rightarrow> bytes" where
  "CBB_data d s =
     (if d = 0 then buf s
      else let child = children s ! (d - 1) in drop (offset child + pending_len_len child) (buf s))"

definition CBB_len :: "nat \<Rightarrow> cbb \<Rightarrow> nat" where
  "CBB_len d s =
     (if d = 0 then length (buf s)
      else let child = children s ! (d - 1) in length (buf s) - offset child - pending_len_len child)"

definition cbb_add_child :: "(nat \<Rightarrow> bool) \<Rightarrow> nat \<Rightarrow> nat \<Rightarrow> bool \<Rightarrow> cbb_op" where
  "cbb_add_child alloc d len_len is_asn1 s =
     cbb_seq (cbb_buffer_add alloc (replicate len_len 0))
       (\<lambda>s'. (True, s'\<lparr>children := children s' @
          [\<lparr>offset = length (buf s), pending_len_len = len_len, pending_is_asn1 = is_asn1\<rparr>]\<rparr>)) s"

definition cbb_add_length_prefixed :: "(nat \<Rightarrow> bool) \<Rightarrow> nat \<Rightarrow> nat \<Rightarrow> cbb_op" where
  "cbb_add_length_prefixed alloc d len_len = cbb_seq (CBB_flush alloc d) (cbb_add_child alloc d len_len False)"

definition CBB_add_u8_length_prefixed :: "(nat \<Rightarrow> bool) \<Rightarrow> nat \<Rightarrow> cbb_op" where
  "CBB_add_u8_length_prefixed alloc d = cbb_add_length_prefixed alloc d 1"

definition CBB_add_u16_length_prefixed :: "(nat \<Rightarrow> bool) \<Rightarrow> nat \<Rightarrow> cbb_op" where
  "CBB_add_u16_length_prefixed alloc d = cbb_add_length_prefixed alloc d 2"

definition CBB_add_u24_length_prefixed :: "(nat \<Rightarrow> bool) \<Rightarrow> nat \<Rightarrow> cbb_op" where
  "CBB_add_u24_length_prefixed alloc d = cbb_add_length_prefixed alloc d 3"

definition CBB_add_space :: "(nat \<Rightarrow> bool) \<Rightarrow> nat \<Rightarrow> bytes \<Rightarrow> cbb_op" where
  "CBB_add_space alloc d space = cbb_seq (CBB_flush alloc d) (cbb_buffer_add alloc space)"

definition CBB_add_bytes :: "(nat \<Rightarrow> bool) \<Rightarrow> nat \<Rightarrow> bytes \<Rightarrow> cbb_op" where
  "CBB_add_bytes alloc d data = CBB_add_space alloc d data"

definition CBB_add_zeros :: "(nat \<Rightarrow> bool) \<Rightarrow> nat \<Rightarrow> nat \<Rightarrow> cbb_op" where
  "CBB_add_zeros alloc d len = CBB_add_space alloc d (replicate len 0)"

definition CBB_reserve :: "(nat \<Rightarrow> bool) \<Rightarrow> nat \<Rightarrow> nat \<Rightarrow> cbb_op" where
  "CBB_reserve alloc d len = cbb_seq (CBB_flush alloc d) (cbb_buffer_reserve alloc len)"

text \<open>\<open>CBB_did_write\<close>, after the caller stored \<open>written\<close> in the reserved space.\<close>

definition CBB_did_write :: "nat \<Rightarrow> bytes \<Rightarrow> cbb_op" where
  "CBB_did_write d written s =
     (let newlen = size_add (length (buf s)) (length written)
      in if length (children s) \<noteq> d \<or> newlen < length (buf s) \<or> newlen > cap s then (False, s)
         else (True, s\<lparr>buf := buf s @ written\<rparr>))"

definition cbb_add_u :: "(nat \<Rightarrow> bool) \<Rightarrow> nat \<Rightarrow> u64 \<Rightarrow> nat \<Rightarrow> cbb_op" where
  "cbb_add_u alloc d v len_len =
     (case put_be len_len 0 (unat v) (replicate len_len 0) of
        (b, rest) \<Rightarrow> cbb_seq (CBB_add_space alloc d b) (\<lambda>s. if rest \<noteq> 0 then cbb_err s else (True, s)))"

definition CBB_add_u8 :: "(nat \<Rightarrow> bool) \<Rightarrow> nat \<Rightarrow> u8 \<Rightarrow> cbb_op" where
  "CBB_add_u8 alloc d v = cbb_add_u alloc d (ucast v) 1"

definition CBB_add_u16 :: "(nat \<Rightarrow> bool) \<Rightarrow> nat \<Rightarrow> u16 \<Rightarrow> cbb_op" where
  "CBB_add_u16 alloc d v = cbb_add_u alloc d (ucast v) 2"

definition CBB_add_u16le :: "(nat \<Rightarrow> bool) \<Rightarrow> nat \<Rightarrow> u16 \<Rightarrow> cbb_op" where
  "CBB_add_u16le alloc d v = CBB_add_u16 alloc d (CRYPTO_bswap2 v)"

definition CBB_add_u24 :: "(nat \<Rightarrow> bool) \<Rightarrow> nat \<Rightarrow> u32 \<Rightarrow> cbb_op" where
  "CBB_add_u24 alloc d v = cbb_add_u alloc d (ucast v) 3"

definition CBB_add_u32 :: "(nat \<Rightarrow> bool) \<Rightarrow> nat \<Rightarrow> u32 \<Rightarrow> cbb_op" where
  "CBB_add_u32 alloc d v = cbb_add_u alloc d (ucast v) 4"

definition CBB_add_u32le :: "(nat \<Rightarrow> bool) \<Rightarrow> nat \<Rightarrow> u32 \<Rightarrow> cbb_op" where
  "CBB_add_u32le alloc d v = CBB_add_u32 alloc d (CRYPTO_bswap4 v)"

definition CBB_add_u64 :: "(nat \<Rightarrow> bool) \<Rightarrow> nat \<Rightarrow> u64 \<Rightarrow> cbb_op" where
  "CBB_add_u64 alloc d v = cbb_add_u alloc d v 8"

definition CBB_add_u64le :: "(nat \<Rightarrow> bool) \<Rightarrow> nat \<Rightarrow> u64 \<Rightarrow> cbb_op" where
  "CBB_add_u64le alloc d v = CBB_add_u64 alloc d (CRYPTO_bswap8 v)"

definition CBB_discard_child :: "nat \<Rightarrow> cbb \<Rightarrow> cbb" where
  "CBB_discard_child d s =
     (if length (children s) \<le> d then s
      else s\<lparr>buf := take (offset (children s ! d)) (buf s), children := take d (children s)\<rparr>)"

section \<open>ASN.1\<close>

text \<open>The number of base-128 digits, and the loop that writes them, high ones first.\<close>

function base128_len :: "u64 \<Rightarrow> nat" where
  "base128_len copy = (if copy = 0 then 0 else Suc (base128_len (drop_bit 7 copy)))"
  by pat_completeness auto
termination
  by (relation "measure unat") (auto simp: unat_drop_bit unat_gt_0)

declare base128_len.simps [simp del]

fun base128_put :: "(nat \<Rightarrow> bool) \<Rightarrow> nat \<Rightarrow> u64 \<Rightarrow> nat \<Rightarrow> cbb_op" where
  "base128_put alloc d v 0 s = (True, s)"
| "base128_put alloc d v (Suc i) s =
     (let byte = ucast (drop_bit (7 * i) v AND 0x7f) :: u8;
          byte' = (if i \<noteq> 0 then byte OR 0x80 else byte)
      in cbb_seq (CBB_add_u8 alloc d byte') (base128_put alloc d v i) s)"

definition add_base128_integer :: "(nat \<Rightarrow> bool) \<Rightarrow> nat \<Rightarrow> u64 \<Rightarrow> cbb_op" where
  "add_base128_integer alloc d v =
     base128_put alloc d v (if base128_len v = 0 then 1 else base128_len v)"

definition CBB_add_asn1 :: "(nat \<Rightarrow> bool) \<Rightarrow> nat \<Rightarrow> asn1_tag \<Rightarrow> cbb_op" where
  "CBB_add_asn1 alloc d tag =
     cbb_seq (CBB_flush alloc d)
       (let tag_bits = ucast (drop_bit CBS_ASN1_TAG_SHIFT tag AND 0xe0) :: u8;
            tag_number = tag AND CBS_ASN1_TAG_NUMBER_MASK
        in cbb_seq
             (if tag_number \<ge> 0x1f
              then cbb_seq (CBB_add_u8 alloc d (tag_bits OR 0x1f)) (add_base128_integer alloc d (ucast tag_number))
              else CBB_add_u8 alloc d (ucast (ucast tag_bits OR tag_number)))
             (cbb_add_child alloc d 1 True))"

text \<open>The loop of \<open>CBB_add_asn1_uint64_with_tag\<close> over the bytes, high ones first.\<close>

fun put_uint64 :: "(nat \<Rightarrow> bool) \<Rightarrow> nat \<Rightarrow> bool \<Rightarrow> bytes \<Rightarrow> cbb_op" where
  "put_uint64 alloc d started [] =
     (if \<not> started then CBB_add_u8 alloc d 0 else (\<lambda>s. (True, s)))"
| "put_uint64 alloc d started (byte # rest) =
     (if \<not> started \<and> byte = 0 then put_uint64 alloc d started rest
      else cbb_seq (if \<not> started \<and> byte AND 0x80 \<noteq> 0 then CBB_add_u8 alloc d 0 else (\<lambda>s. (True, s)))
             (cbb_seq (CBB_add_u8 alloc d byte) (put_uint64 alloc d True rest)))"

definition CBB_add_asn1_uint64_with_tag :: "(nat \<Rightarrow> bool) \<Rightarrow> nat \<Rightarrow> u64 \<Rightarrow> asn1_tag \<Rightarrow> cbb_op" where
  "CBB_add_asn1_uint64_with_tag alloc d v tag =
     cbb_seq (CBB_add_asn1 alloc d tag)
       (cbb_seq
         (put_uint64 alloc (d + 1) False (map (\<lambda>i. ucast (drop_bit (8 * (7 - i)) v AND 0xff)) [0..<8]))
         (CBB_flush alloc d))"

definition CBB_add_asn1_uint64 :: "(nat \<Rightarrow> bool) \<Rightarrow> nat \<Rightarrow> u64 \<Rightarrow> cbb_op" where
  "CBB_add_asn1_uint64 alloc d v = CBB_add_asn1_uint64_with_tag alloc d v CBS_ASN1_INTEGER"

text \<open>\<open>start\<close> steps down past sign-extension bytes of the little-endian array.\<close>

fun int64_start :: "bytes \<Rightarrow> nat \<Rightarrow> nat" where
  "int64_start bs 0 = 0"
| "int64_start bs (Suc i) =
     (if bs ! Suc i = 0xff \<and> bs ! i AND 0x80 \<noteq> 0 then int64_start bs i else Suc i)"

fun cbb_add_each :: "(nat \<Rightarrow> bool) \<Rightarrow> nat \<Rightarrow> bytes \<Rightarrow> cbb_op" where
  "cbb_add_each alloc d [] = (\<lambda>s. (True, s))"
| "cbb_add_each alloc d (b # bs) = cbb_seq (CBB_add_u8 alloc d b) (cbb_add_each alloc d bs)"

definition CBB_add_asn1_int64_with_tag :: "(nat \<Rightarrow> bool) \<Rightarrow> nat \<Rightarrow> u64 \<Rightarrow> asn1_tag \<Rightarrow> cbb_op" where
  "CBB_add_asn1_int64_with_tag alloc d v tag =
     (if 0 \<le> sint v then CBB_add_asn1_uint64_with_tag alloc d v tag
      else
        let bs = le_bytes 8 v;
            start = int64_start bs 7
        in cbb_seq (CBB_add_asn1 alloc d tag)
             (cbb_seq (cbb_add_each alloc (d + 1) (rev (take (Suc start) bs))) (CBB_flush alloc d)))"

definition CBB_add_asn1_int64 :: "(nat \<Rightarrow> bool) \<Rightarrow> nat \<Rightarrow> u64 \<Rightarrow> cbb_op" where
  "CBB_add_asn1_int64 alloc d v = CBB_add_asn1_int64_with_tag alloc d v CBS_ASN1_INTEGER"

definition CBB_add_asn1_octet_string :: "(nat \<Rightarrow> bool) \<Rightarrow> nat \<Rightarrow> bytes \<Rightarrow> cbb_op" where
  "CBB_add_asn1_octet_string alloc d data =
     cbb_seq (CBB_add_asn1 alloc d CBS_ASN1_OCTETSTRING)
       (cbb_seq (CBB_add_bytes alloc (d + 1) data) (CBB_flush alloc d))"

definition CBB_add_asn1_bool :: "(nat \<Rightarrow> bool) \<Rightarrow> nat \<Rightarrow> bool \<Rightarrow> cbb_op" where
  "CBB_add_asn1_bool alloc d v =
     cbb_seq (CBB_add_asn1 alloc d CBS_ASN1_BOOLEAN)
       (cbb_seq (CBB_add_u8 alloc (d + 1) (if v then 0xff else 0)) (CBB_flush alloc d))"

text \<open>
  \<open>CBB_finish_i2d\<close>: the length, or \<open>- 1\<close>, and the new content that \<open>*outp\<close> receives or is copied
  to, for \<open>outp \<noteq> NULL\<close>.
\<close>

definition CBB_finish_i2d :: "(nat \<Rightarrow> bool) \<Rightarrow> cbb \<Rightarrow> int \<times> bytes option" where
  "CBB_finish_i2d alloc s =
     (case CBB_finish alloc 0 True s of
        None \<Rightarrow> (- 1, None)
      | Some out \<Rightarrow> if length out > 2 ^ 31 - 1 then (- 1, None) else (int (length out), Some out))"

section \<open>What the builder means\<close>

text \<open>
  The bytes written so far, as the content of the top level and one frame per open child: whether
  it is an ASN.1 element, the number of length bytes reserved for it, and its content.
\<close>

type_synonym frame = "bool \<times> nat \<times> bytes"

fun layout :: "bytes \<Rightarrow> frame list \<Rightarrow> bytes" where
  "layout c [] = c"
| "layout c ((a, p, x) # fs) = layout (c @ replicate p 0 @ x) fs"

fun kids :: "nat \<Rightarrow> frame list \<Rightarrow> cbb_child list" where
  "kids off [] = []"
| "kids off ((a, p, x) # fs) =
     \<lparr>offset = off, pending_len_len = p, pending_is_asn1 = a\<rparr> # kids (off + p + length x) fs"

definition buf_ok :: "cbb \<Rightarrow> bool" where
  "buf_ok s \<longleftrightarrow> length (buf s) \<le> cap s \<and> cap s < 2 ^ 64 \<and> \<not> cbb_error s"

definition rep :: "bytes \<Rightarrow> frame list \<Rightarrow> cbb \<Rightarrow> bool" where
  "rep c fs s \<longleftrightarrow> buf_ok s \<and> buf s = layout c fs \<and> children s = kids (length c) fs
     \<and> (\<forall>(a, p, x) \<in> set fs. a \<longrightarrow> p = 1)"

text \<open>The length prefix of a finished frame, and the bytes of a run of nested frames.\<close>

definition len_prefix :: "bool \<Rightarrow> nat \<Rightarrow> nat \<Rightarrow> bytes option" where
  "len_prefix a p n =
     (if a then (if n \<le> 0xfffffffe then Some (der_len n) else None)
      else (if n < 256 ^ p then Some (be_bytes p n) else None))"

fun render :: "frame list \<Rightarrow> bytes option" where
  "render [] = Some []"
| "render ((a, p, x) # fs) =
     Option.bind (render fs) (\<lambda>t. map_option (\<lambda>pre. pre @ x @ t) (len_prefix a p (length (x @ t))))"

text \<open>Ending all children of the CBB at depth \<open>d\<close>, with \<open>t\<close> appended to its content.\<close>

fun cut_at :: "nat \<Rightarrow> bytes \<Rightarrow> bytes \<Rightarrow> frame list \<Rightarrow> bytes \<times> frame list" where
  "cut_at 0 t c fs = (c @ t, [])"
| "cut_at (Suc d) t c fs = (case fs ! d of (a, p, x) \<Rightarrow> (c, take d fs @ [(a, p, x @ t)]))"

subsection \<open>Buffers\<close>

lemma put_be_eq:
  "off + i \<le> length b \<Longrightarrow> put_be i off v b = (take off b @ be_bytes i v @ drop (off + i) b, v div 256 ^ i)"
proof (induction i arbitrary: v b)
  case (Suc i)
  have "take off (b[off + i := of_nat v]) = take off b" by simp
  moreover have "drop (off + i) (b[off + i := of_nat v]) = of_nat v # drop (off + Suc i) b"
    using Suc.prems by (simp add: drop_update_swap Cons_nth_drop_Suc [symmetric])
  moreover have "v div 256 div 256 ^ i = v div 256 ^ Suc i" by (simp add: div_mult2_eq)
  ultimately show ?case using Suc by simp
qed simp

lemma be_bytes_min:
  assumes "n < 256 ^ k" and "n \<noteq> 0" and "256 ^ (k - 1) \<le> n"
  shows "be_bytes k n = be_min n"
proof (rule be_nat_inj)
  have le: "length (be_min n) \<le> k" using assms(1) by (rule length_be_min_le)
  have "be_nat (be_min n) < 256 ^ length (be_min n)" by (rule be_nat_bound)
  then have "256 ^ (k - 1) < (256::nat) ^ length (be_min n)"
    using assms(3) unfolding be_nat_be_min by linarith
  then have "k - 1 < length (be_min n)" by (rule power_less_imp_less_exp [rotated]) simp
  with le show "length (be_bytes k n) = length (be_min n)" by simp
  show "be_nat (be_bytes k n) = be_nat (be_min n)"
    using assms(1) by (simp add: be_nat_be_bytes be_nat_be_min)
qed

lemma asn1_len_len_der:
  assumes "asn1_len_len n = Some (ll, b, n')"
  shows "b # be_bytes (ll - 1) n' = der_len n" and "n' div 256 ^ (ll - 1) = 0" and "1 \<le> ll"
    and "ll \<noteq> 1 \<Longrightarrow> n' = n" and "n \<le> 0xfffffffe"
proof -
  have or: "(0x80 :: u8) OR 4 = 0x84" "(0x80 :: u8) OR 3 = 0x83" "(0x80 :: u8) OR 2 = 0x82" "(0x80 :: u8) OR 1 = 0x81"
    by simp_all
  have min: "be_min n = be_bytes 4 n" if "n > 0xffffff" "n \<le> 0xfffffffe" using that by (simp add: be_bytes_min)
  have min3: "be_min n = be_bytes 3 n" if "n > 0xffff" "n \<le> 0xffffff" using that by (simp add: be_bytes_min)
  have min2: "be_min n = be_bytes 2 n" if "n > 0xff" "n \<le> 0xffff" using that by (simp add: be_bytes_min)
  have min1: "be_min n = be_bytes 1 n" if "n > 0x7f" "n \<le> 0xff" using that be_bytes_min [of n 1] by simp
  note cases = assms [unfolded asn1_len_len_def]
  show "b # be_bytes (ll - 1) n' = der_len n"
    using cases min min3 min2 min1
    by (auto simp: or der_len_def length_be_bytes split: if_split_asm)
  show "n' div 256 ^ (ll - 1) = 0" "1 \<le> ll" "n \<le> 0xfffffffe" "ll \<noteq> 1 \<Longrightarrow> n' = n"
    using cases by (auto split: if_split_asm)
qed

lemma asn1_len_len_None: "asn1_len_len n = None \<longleftrightarrow> 0xfffffffe < n"
  by (simp add: asn1_len_len_def)

text \<open>\<open>room alloc s n\<close>: the buffer can grow to \<open>n\<close> bytes.\<close>

definition room :: "(nat \<Rightarrow> bool) \<Rightarrow> cbb \<Rightarrow> nat \<Rightarrow> bool" where
  "room alloc s n \<longleftrightarrow> n < 2 ^ 64 \<and> (n \<le> cap s \<or> (can_resize s \<and> (\<forall>m. alloc m)))"

text \<open>\<open>grown s s'\<close>: the same kind of buffer with no less capacity.\<close>

definition grown :: "cbb \<Rightarrow> cbb \<Rightarrow> bool" where
  "grown s s' \<longleftrightarrow> cap s \<le> cap s' \<and> can_resize s' = can_resize s"

lemma grown_refl [simp]: "grown s s"
  by (simp add: grown_def)

lemma grown_trans: "grown s s' \<Longrightarrow> grown s' s'' \<Longrightarrow> grown s s''"
  by (simp add: grown_def)

lemma grown_room: "grown s s' \<Longrightarrow> room alloc s n \<Longrightarrow> room alloc s' n"
  by (auto simp: grown_def room_def)

lemma room_mono: "room alloc s n \<Longrightarrow> m \<le> n \<Longrightarrow> room alloc s m"
  by (auto simp: room_def)

lemma cbb_buffer_add_sound:
  assumes "cbb_buffer_add alloc t s = (True, s')" and "buf_ok s" and "length t < 2 ^ 64"
  shows "buf s' = buf s @ t \<and> children s' = children s \<and> buf_ok s' \<and> grown s s'"
proof -
  have len: "length (buf s) < 2 ^ 64" using assms(2) by (simp add: buf_ok_def)
  obtain s1 where r: "cbb_buffer_reserve alloc (length t) s = (True, s1)" and s': "s' = s1\<lparr>buf := buf s1 @ t\<rparr>"
    using assms(1) by (auto simp: cbb_buffer_add_def cbb_seq_def split: prod.splits if_splits)
  have noov: "length (buf s) + length t < 2 ^ 64"
    using r size_add_overflow_iff [OF len assms(3)]
    by (auto simp: cbb_buffer_reserve_def cbb_err_def Let_def not_le split: if_splits)
  define n where "n = length (buf s) + length t"
  define nc where "nc = (if cap s * 2 mod 2 ^ 64 < cap s \<or> cap s * 2 mod 2 ^ 64 < n then n else cap s * 2 mod 2 ^ 64)"
  have nc: "n \<le> nc" "nc < 2 ^ 64" using noov by (simp_all add: nc_def n_def)
  have "cap s < n \<Longrightarrow> cap s \<le> nc" using nc(1) by simp
  moreover have n: "size_add (length (buf s)) (length t) = n" using noov by (simp add: n_def size_add_small)
  have "\<not> n < length (buf s)" by (simp add: n_def)
  with r have "(if n > cap s then (if \<not> can_resize s then cbb_err s
      else if \<not> alloc nc then cbb_err s else (True, s\<lparr>cap := nc\<rparr>)) else (True, s)) = (True, s1)"
    unfolding cbb_buffer_reserve_def Let_def n nc_def [symmetric] by (simp only: if_False)
  then have "(cap s < n \<and> s1 = s\<lparr>cap := nc\<rparr>) \<or> (n \<le> cap s \<and> s1 = s)"
    by (auto simp: cbb_err_def split: if_split_asm)
  ultimately show ?thesis using assms(2) nc unfolding s' by (auto simp: buf_ok_def grown_def n_def)
qed

lemma cbb_buffer_add_complete:
  assumes "room alloc s (length (buf s) + length t)"
  shows "fst (cbb_buffer_add alloc t s)"
  using assms by (auto simp: room_def cbb_buffer_add_def cbb_seq_def cbb_buffer_reserve_def Let_def size_add_small)

subsection \<open>Frames\<close>

lemma layout_snoc [simp]: "layout c (fs @ [(a, p, x)]) = layout c fs @ replicate p 0 @ x"
  by (induction c fs rule: layout.induct) simp_all

lemma length_kids [simp]: "length (kids off fs) = length fs"
  by (induction off fs rule: kids.induct) simp_all

lemma kids_snoc:
  "kids (length c) (fs @ [(a, p, x)]) =
    kids (length c) fs @ [\<lparr>offset = length (layout c fs), pending_len_len = p, pending_is_asn1 = a\<rparr>]"
proof (induction c fs rule: layout.induct)
  case (2 c a p x fs)
  then show ?case by (simp add: add.assoc)
qed simp

lemma take_kids: "take d (kids off fs) = kids off (take d fs)"
proof (induction off fs arbitrary: d rule: kids.induct)
  case (2 off a p x fs)
  then show ?case by (cases d) simp_all
qed simp

lemma cut_cases:
  assumes "d \<le> length fs" and "cut_at d t c fs = (c', fs')"
  obtains "d = 0" "c' = c @ t" "fs' = []"
  | a p x where "d \<noteq> 0" "c' = c" "take d fs = take (d - 1) fs @ [(a, p, x)]"
      "fs' = take (d - 1) fs @ [(a, p, x @ t)]"
proof (cases d)
  case 0
  then show ?thesis using assms that by simp
next
  case (Suc e)
  obtain a p x where "fs ! e = (a, p, x)" by (cases "fs ! e")
  then show ?thesis
    using assms that(2) [of a p x] by (simp add: Suc take_Suc_conv_app_nth)
qed

lemma cut_parts:
  assumes "d \<le> length fs" and "cut_at d t c fs = (c', fs')"
  shows "layout c' fs' = layout c (take d fs) @ t" and "kids (length c') fs' = kids (length c) (take d fs)"
    and "length fs' = d"
    and "(\<forall>(a, p, x) \<in> set fs. a \<longrightarrow> p = 1) \<Longrightarrow> (\<forall>(a, p, x) \<in> set fs'. a \<longrightarrow> p = 1)"
proof -
  have "layout c' fs' = layout c (take d fs) @ t \<and> kids (length c') fs' = kids (length c) (take d fs)
    \<and> length fs' = d \<and> ((\<forall>(a, p, x) \<in> set fs. a \<longrightarrow> p = 1) \<longrightarrow> (\<forall>(a, p, x) \<in> set fs'. a \<longrightarrow> p = 1))"
    using assms
  proof (cases rule: cut_cases)
    case (2 a p x)
    have "(a, p, x) \<in> set (take d fs)" using 2 by simp
    then have mem: "(a, p, x) \<in> set fs" by (rule in_set_takeD)
    show ?thesis using 2 assms(1) mem by (auto simp: kids_snoc dest!: in_set_takeD)
  qed simp_all
  then show "layout c' fs' = layout c (take d fs) @ t" "kids (length c') fs' = kids (length c) (take d fs)"
    "length fs' = d" "(\<forall>(a, p, x) \<in> set fs. a \<longrightarrow> p = 1) \<Longrightarrow> (\<forall>(a, p, x) \<in> set fs'. a \<longrightarrow> p = 1)"
    by blast+
qed

text \<open>A state after truncating the chain to depth \<open>d\<close> and appending \<open>t\<close> there.\<close>

lemma rep_cut:
  assumes "rep c fs s" and "d \<le> length fs" and "buf_ok s'"
    and "buf s' = layout c (take d fs) @ t" and "children s' = take d (children s)"
  shows "rep (fst (cut_at d t c fs)) (snd (cut_at d t c fs)) s'"
proof -
  obtain c' fs' where cut_at: "cut_at d t c fs = (c', fs')" by fastforce
  note parts = cut_parts [OF assms(2) cut_at]
  show ?thesis
    using assms parts unfolding cut_at rep_def by (simp add: take_kids)
qed

subsection \<open>Closing one child\<close>

lemma cbb_put_length_eq:
  assumes "off + k \<le> length (buf s)"
  shows "cbb_put_length d off k n s =
    (let s' = s\<lparr>buf := take off (buf s) @ be_bytes k n @ drop (off + k) (buf s)\<rparr>
     in if n < 256 ^ k then (True, s'\<lparr>children := take d (children s)\<rparr>) else cbb_err s')"
  using assms by (simp add: cbb_put_length_def put_be_eq Let_def div_eq_0_iff)

lemma cbb_close_plain:
  assumes "length B + p \<le> length (buf s)" "buf s = B @ replicate p 0 @ x" "length (buf s) < 2 ^ 64"
  shows "cbb_close_child alloc d \<lparr>offset = length B, pending_len_len = p, pending_is_asn1 = False\<rparr> s =
    (if length x < 256 ^ p then (True, s\<lparr>buf := B @ be_bytes p (length x) @ x, children := take d (children s)\<rparr>)
     else cbb_err (s\<lparr>buf := B @ be_bytes p (length x) @ x\<rparr>))"
  using assms by (simp add: cbb_close_child_def Let_def cbb_put_length_eq size_add_small)

lemma memmove_grow:
  "memmove (B @ y # x @ replicate e 0) (length B + 1 + e) (length B + 1) (length x) =
    take (length B + 1 + e) (B @ y # x @ replicate e 0) @ x"
  by (simp add: memmove_def)

lemma cbb_close_asn1_sound:
  assumes s: "buf s = B @ 0 # x" "buf_ok s"
    and ok: "cbb_close_child alloc d \<lparr>offset = length B, pending_len_len = 1, pending_is_asn1 = True\<rparr> s = (True, s')"
  shows "length x \<le> 0xfffffffe \<and> buf s' = B @ der_len (length x) @ x
    \<and> children s' = take d (children s) \<and> buf_ok s' \<and> grown s s'"
proof -
  have len: "length (buf s) < 2 ^ 64" using s by (simp add: buf_ok_def)
  obtain ll ib n' where ll: "asn1_len_len (length x) = Some (ll, ib, n')"
    using ok s len by (cases "asn1_len_len (length x)") (auto simp: cbb_close_child_def Let_def size_add_small cbb_err_def split: if_splits)
  note der = asn1_len_len_der [OF ll]
  show ?thesis
  proof (cases "ll = 1")
    case True
    have "n' = 0" using der(2) True by simp
    have "cbb_close_child alloc d \<lparr>offset = length B, pending_len_len = 1, pending_is_asn1 = True\<rparr> s =
      (True, s\<lparr>buf := B @ ib # x, children := take d (children s)\<rparr>)"
      using s len ll True \<open>n' = 0\<close>
      by (simp add: cbb_close_child_def Let_def size_add_small cbb_put_length_eq)
    with ok s der True show ?thesis by (auto simp: buf_ok_def grown_def \<open>n' = 0\<close>)
  next
    case False
    obtain e where e: "ll = Suc e" "e \<noteq> 0" using False der(3) by (cases ll) auto
    have n': "n' = length x" using der False by simp
    have lt: "length x < 256 ^ e" using der(2) by (simp add: n' e div_eq_0_iff)
    from ok s len ll False obtain s1 where add: "cbb_buffer_add alloc (replicate e 0) s = (True, s1)"
      by (auto simp: cbb_close_child_def Let_def size_add_small cbb_seq_def e cbb_err_def split: prod.splits if_splits)
    have "e < 256" using ll by (auto simp: e asn1_len_len_def split: if_splits)
    then have s1: "buf s1 = B @ 0 # x @ replicate e 0" "children s1 = children s" "buf_ok s1" "grown s s1"
      using cbb_buffer_add_sound [OF add s(2)] s by simp_all
    let ?b = "take (length B + 1 + e) (B @ 0 # x @ replicate e 0) @ x"
    let ?s2 = "s1\<lparr>buf := ?b[length B := ib]\<rparr>"
    have b: "?b[length B := ib] = B @ ib # take e (x @ replicate e 0) @ x" by simp
    have "cbb_close_child alloc d \<lparr>offset = length B, pending_len_len = 1, pending_is_asn1 = True\<rparr> s =
      cbb_put_length d (length B + 1) e (length x) ?s2"
      using s len ll False add s1 n'
      by (simp add: cbb_close_child_def Let_def size_add_small cbb_seq_def e memmove_grow [simplified])
    also have "\<dots> = (True, s1\<lparr>buf := B @ ib # be_bytes e (length x) @ x, children := take d (children s1)\<rparr>)"
      using lt by (simp add: cbb_put_length_eq b)
    finally have "s' = s1\<lparr>buf := B @ ib # be_bytes e (length x) @ x, children := take d (children s1)\<rparr>"
      using ok by simp
    with s1 der n' show ?thesis by (auto simp: buf_ok_def e grown_def)
  qed
qed

lemma cbb_close_asn1_complete:
  assumes s: "buf s = B @ 0 # x" "buf_ok s" and x: "length x \<le> 0xfffffffe"
    and room: "room alloc s (length B + length (der_len (length x)) + length x)"
  shows "fst (cbb_close_child alloc d \<lparr>offset = length B, pending_len_len = 1, pending_is_asn1 = True\<rparr> s)"
proof -
  have len: "length (buf s) < 2 ^ 64" using s by (simp add: buf_ok_def)
  obtain ll ib n' where ll: "asn1_len_len (length x) = Some (ll, ib, n')"
    using x by (cases "asn1_len_len (length x)") (auto simp: asn1_len_len_None)
  note der = asn1_len_len_der [OF ll]
  show ?thesis
  proof (cases "ll = 1")
    case True
    have "n' = 0" using der(2) True by simp
    then show ?thesis using s len ll True
      by (simp add: cbb_close_child_def Let_def size_add_small cbb_put_length_eq)
  next
    case False
    obtain e where e: "ll = Suc e" "e \<noteq> 0" using False der(3) by (cases ll) auto
    have n': "n' = length x" using der False by simp
    have lt: "length x < 256 ^ e" using der(2) by (simp add: n' e div_eq_0_iff)
    have "length (der_len (length x)) = ll" using der(1) e by (metis length_Cons length_be_bytes diff_Suc_1)
    then have "fst (cbb_buffer_add alloc (replicate e 0) s)"
      using room s by (intro cbb_buffer_add_complete) (simp add: e ac_simps)
    then obtain s1 where add: "cbb_buffer_add alloc (replicate e 0) s = (True, s1)"
      by (cases "cbb_buffer_add alloc (replicate e 0) s") auto
    have "e < 256" using ll by (auto simp: e asn1_len_len_def split: if_splits)
    then have s1: "buf s1 = B @ 0 # x @ replicate e 0"
      using cbb_buffer_add_sound [OF add s(2)] s by simp
    show ?thesis
      using s len ll False add s1 n' lt
      by (simp add: cbb_close_child_def Let_def size_add_small cbb_seq_def e memmove_grow [simplified] cbb_put_length_eq)
  qed
qed

lemma cbb_close_err: "cbb_close_child alloc d ch s = (False, s') \<Longrightarrow> cbb_error s'"
  by (auto simp: cbb_close_child_def Let_def cbb_err_def cbb_put_length_def cbb_seq_def
      split: prod.splits if_splits option.splits)

text \<open>
  Closing the child at position \<open>d\<close> with content \<open>x\<close>: on success, its length is put in front of it;
  it succeeds when the length can be written and the buffer can hold it; a failure is sticky.
\<close>

lemma cbb_close_child_spec:
  assumes s: "buf s = B @ replicate p 0 @ x" "buf_ok s" and a: "a \<longrightarrow> p = 1"
  shows "case cbb_close_child alloc d \<lparr>offset = length B, pending_len_len = p, pending_is_asn1 = a\<rparr> s of
    (True, s') \<Rightarrow> \<exists>pre. len_prefix a p (length x) = Some pre \<and> buf s' = B @ pre @ x
      \<and> children s' = take d (children s) \<and> buf_ok s' \<and> grown s s'
  | (False, s') \<Rightarrow> cbb_error s' \<and>
      \<not> (\<exists>pre. len_prefix a p (length x) = Some pre \<and> room alloc s (length B + length pre + length x))"
proof (cases a)
  case True
  then have p: "p = 1" using a by simp
  let ?r = "cbb_close_child alloc d \<lparr>offset = length B, pending_len_len = p, pending_is_asn1 = a\<rparr> s"
  show ?thesis
  proof (cases "fst ?r")
    case ok: True
    then obtain s' where r: "?r = (True, s')" by (cases ?r) auto
    show ?thesis
      using cbb_close_asn1_sound [of s B x alloc d s'] r s True p by (simp add: len_prefix_def)
  next
    case False
    then obtain s' where r: "?r = (False, s')" by (cases ?r) auto
    then have "cbb_error s'" by (rule cbb_close_err)
    with r show ?thesis
      using cbb_close_asn1_complete [of s B x alloc d] s True p by (auto simp: len_prefix_def)
  qed
next
  case False
  have len: "length B + p \<le> length (buf s)" "length (buf s) < 2 ^ 64" using s by (auto simp: buf_ok_def)
  show ?thesis
    using cbb_close_plain [OF len(1) s(1) len(2), of alloc d] s False
    by (auto simp: len_prefix_def cbb_err_def buf_ok_def grown_def)
qed

subsection \<open>Specifications of builder operations\<close>

text \<open>
  \<open>builds alloc f d out\<close>: on any well-formed state, the operation \<open>f\<close> on the CBB at depth \<open>d\<close> ends
  its open children and appends \<open>out\<close> to its content; it fails only if a child's length cannot be
  encoded or the buffer cannot hold the result, and then the error is recorded.
\<close>

definition builds :: "(nat \<Rightarrow> bool) \<Rightarrow> cbb_op \<Rightarrow> nat \<Rightarrow> bytes \<Rightarrow> bool" where
  "builds alloc f d out \<longleftrightarrow> (\<forall>c fs s. rep c fs s \<longrightarrow> d \<le> length fs \<longrightarrow>
     (case f s of
        (True, s') \<Rightarrow> \<exists>t. render (drop d fs) = Some t
           \<and> rep (fst (cut_at d (t @ out) c fs)) (snd (cut_at d (t @ out) c fs)) s' \<and> grown s s'
      | (False, s') \<Rightarrow> cbb_error s' \<and>
          \<not> (\<exists>t. render (drop d fs) = Some t
               \<and> room alloc s (length (layout c (take d fs)) + length t + length out))))"

lemma buildsI:
  assumes "\<And>c fs s s'. rep c fs s \<Longrightarrow> d \<le> length fs \<Longrightarrow> f s = (True, s') \<Longrightarrow>
      \<exists>t. render (drop d fs) = Some t
        \<and> rep (fst (cut_at d (t @ out) c fs)) (snd (cut_at d (t @ out) c fs)) s' \<and> grown s s'"
    and "\<And>c fs s s' t. rep c fs s \<Longrightarrow> d \<le> length fs \<Longrightarrow> f s = (False, s') \<Longrightarrow>
      cbb_error s' \<and> (render (drop d fs) = Some t \<longrightarrow>
        \<not> room alloc s (length (layout c (take d fs)) + length t + length out))"
  shows "builds alloc f d out"
  unfolding builds_def using assms by (fastforce split: prod.split bool.split)

lemma buildsD:
  assumes "builds alloc f d out" and "rep c fs s" and "d \<le> length fs"
  shows "f s = (True, s') \<Longrightarrow> \<exists>t. render (drop d fs) = Some t
        \<and> rep (fst (cut_at d (t @ out) c fs)) (snd (cut_at d (t @ out) c fs)) s' \<and> grown s s'"
    and "f s = (False, s') \<Longrightarrow> cbb_error s'"
    and "f s = (False, s') \<Longrightarrow> render (drop d fs) = Some t \<Longrightarrow>
        \<not> room alloc s (length (layout c (take d fs)) + length t + length out)"
  using assms unfolding builds_def by (fastforce)+

lemma cut_Nil: "cut_at (length fs) [] c fs = (c, fs)"
proof (cases fs rule: rev_cases)
  case (snoc gs f)
  then show ?thesis by (cases f) (simp add: nth_append)
qed simp

lemma kids_nth:
  assumes "d < length fs" and "fs ! d = (a, p, x)"
  shows "kids (length c) fs ! d =
    \<lparr>offset = length (layout c (take d fs)), pending_len_len = p, pending_is_asn1 = a\<rparr>"
proof -
  have "take (Suc d) fs = take d fs @ [(a, p, x)]" using assms by (simp add: take_Suc_conv_app_nth)
  then have "take (Suc d) (kids (length c) fs) = kids (length c) (take d fs) @
    [\<lparr>offset = length (layout c (take d fs)), pending_len_len = p, pending_is_asn1 = a\<rparr>]"
    by (simp add: take_kids kids_snoc)
  then have "take (Suc d) (kids (length c) fs) ! d =
    \<lparr>offset = length (layout c (take d fs)), pending_len_len = p, pending_is_asn1 = a\<rparr>"
    using assms by (simp add: nth_append)
  then show ?thesis by simp
qed

lemma len_prefix_ge: "len_prefix a p n = Some pre \<Longrightarrow> (a \<longrightarrow> p = 1) \<Longrightarrow> p \<le> length pre"
  by (auto simp: len_prefix_def der_len_def split: if_splits)

lemma flush_spec:
  assumes "rep c fs s" and "d \<le> length fs"
  shows "case CBB_flush alloc d s of
    (True, s') \<Rightarrow> \<exists>t. render (drop d fs) = Some t \<and> buf s' = layout c (take d fs) @ t
      \<and> children s' = take d (children s) \<and> buf_ok s' \<and> grown s s'
  | (False, s') \<Rightarrow> cbb_error s' \<and>
      \<not> (\<exists>t. render (drop d fs) = Some t \<and> room alloc s (length (layout c (take d fs)) + length t))"
  using assms(2)
proof (induction "length fs - d" arbitrary: d)
  case 0
  then have "length fs = d" by simp
  with assms(1) show ?case by (auto simp: CBB_flush.simps [of _ d] rep_def buf_ok_def)
next
  case (Suc k)
  then have d: "d < length fs" by simp
  obtain a p x where f: "fs ! d = (a, p, x)" by (cases "fs ! d")
  have dr: "drop d fs = (a, p, x) # drop (Suc d) fs" using d f by (simp add: Cons_nth_drop_Suc [symmetric])
  have ap: "a \<longrightarrow> p = 1" using assms(1) d f nth_mem [OF d] by (auto simp: rep_def)
  let ?B = "layout c (take d fs)"
  have tk: "layout c (take (Suc d) fs) = ?B @ replicate p 0 @ x"
    using d f by (simp add: take_Suc_conv_app_nth)
  have child: "children s ! d = \<lparr>offset = length ?B, pending_len_len = p, pending_is_asn1 = a\<rparr>"
    using assms(1) kids_nth [OF d f] by (simp add: rep_def)
  have flush: "CBB_flush alloc d s = (case CBB_flush alloc (d + 1) s of
      (False, s1) \<Rightarrow> cbb_err s1
    | (True, s1) \<Rightarrow> cbb_close_child alloc d (children s ! d) s1)"
    using assms(1) d by (subst CBB_flush.simps) (simp add: rep_def buf_ok_def)
  have IH: "case CBB_flush alloc (Suc d) s of
    (True, s') \<Rightarrow> \<exists>t. render (drop (Suc d) fs) = Some t \<and> buf s' = layout c (take (Suc d) fs) @ t
      \<and> children s' = take (Suc d) (children s) \<and> buf_ok s' \<and> grown s s'
  | (False, s') \<Rightarrow> cbb_error s' \<and>
      \<not> (\<exists>t. render (drop (Suc d) fs) = Some t \<and> room alloc s (length (layout c (take (Suc d) fs)) + length t))"
    using Suc.hyps(2) d by (intro Suc.hyps(1)) simp_all
  show ?case
  proof (cases "CBB_flush alloc (Suc d) s")
    case (Pair ok s1)
    show ?thesis
    proof (cases ok)
      case False
      have no: "\<not> (\<exists>t. render (drop (Suc d) fs) = Some t \<and>
          room alloc s (length (layout c (take (Suc d) fs)) + length t))"
        using IH Pair False by simp
      have "\<not> (\<exists>t. render (drop d fs) = Some t \<and> room alloc s (length ?B + length t))"
      proof
        assume "\<exists>t. render (drop d fs) = Some t \<and> room alloc s (length ?B + length t)"
        then obtain t pre where t: "render (drop (Suc d) fs) = Some t"
          and pre: "len_prefix a p (length (x @ t)) = Some pre"
          and room: "room alloc s (length ?B + length (pre @ x @ t))"
          unfolding dr render.simps bind_eq_Some_conv by auto
        have "length (layout c (take (Suc d) fs)) + length t \<le> length ?B + length (pre @ x @ t)"
          using len_prefix_ge [OF pre ap] by (simp add: tk)
        with no t room_mono [OF room] show False by blast
      qed
      with flush Pair False show ?thesis by (simp add: cbb_err_def)
    next
      case True
      then obtain t where t: "render (drop (Suc d) fs) = Some t" "buf s1 = ?B @ replicate p 0 @ x @ t"
        "children s1 = take (Suc d) (children s)" "buf_ok s1" "grown s s1"
        using IH Pair tk by auto
      have r: "render (drop d fs) = map_option (\<lambda>pre. pre @ x @ t) (len_prefix a p (length (x @ t)))"
        by (simp add: dr t)
      have B: "length ?B + length pre + length (x @ t) = length ?B + length (pre @ x @ t)" for pre by simp
      note close = cbb_close_child_spec [OF t(2) t(4) ap, where alloc = alloc and d = d, folded child]
      have fl: "CBB_flush alloc d s = cbb_close_child alloc d (children s ! d) s1"
        using flush Pair True by simp
      show ?thesis
      proof (cases "CBB_flush alloc d s")
        case res: (Pair ok' s')
        show ?thesis
        proof (cases ok')
          case ok': True
          with close res fl obtain pre where "len_prefix a p (length (x @ t)) = Some pre"
            "buf s' = ?B @ pre @ x @ t" "children s' = take d (children s1)" "buf_ok s'" "grown s1 s'"
            by auto
          with res ok' r t grown_trans [OF t(5)] show ?thesis by (simp add: min_def)
        next
          case False
          with close res fl have "cbb_error s'" and
            "\<not> (\<exists>pre. len_prefix a p (length (x @ t)) = Some pre \<and> room alloc s1 (length ?B + length pre + length (x @ t)))"
            by auto
          with res False r grown_room [OF t(5)] show ?thesis unfolding B by auto
        qed
      qed
    qed
  qed
qed

lemma builds_flush: "builds alloc (CBB_flush alloc d) d []"
proof (rule buildsI)
  fix c fs s s'
  assume rep: "rep c fs s" and d: "d \<le> length fs" and "CBB_flush alloc d s = (True, s')"
  with flush_spec [OF rep d, of alloc] obtain t where "render (drop d fs) = Some t"
    "buf s' = layout c (take d fs) @ t" "children s' = take d (children s)" "buf_ok s'" "grown s s'" by auto
  with rep_cut [OF rep d] show "\<exists>t. render (drop d fs) = Some t
    \<and> rep (fst (cut_at d (t @ []) c fs)) (snd (cut_at d (t @ []) c fs)) s' \<and> grown s s'" by auto
next
  fix c fs s s' t
  assume rep: "rep c fs s" and d: "d \<le> length fs" and "CBB_flush alloc d s = (False, s')"
  with flush_spec [OF rep d, of alloc] show "cbb_error s' \<and> (render (drop d fs) = Some t \<longrightarrow>
    \<not> room alloc s (length (layout c (take d fs)) + length t + length []))" by auto
qed

lemma cut_at_cut_at:
  assumes "d \<le> length fs" and "cut_at d t c fs = (c', fs')"
  shows "cut_at d u c' fs' = cut_at d (t @ u) c fs"
  using assms by (cases d) (auto simp: nth_append split: prod.splits)

lemma cut_at_facts:
  assumes "d \<le> length fs"
  shows "length (snd (cut_at d t c fs)) = d"
    and "layout (fst (cut_at d t c fs)) (snd (cut_at d t c fs)) = layout c (take d fs) @ t"
proof -
  obtain c' fs' where "cut_at d t c fs = (c', fs')" by fastforce
  with cut_parts(1,3) [OF assms this] show "length (snd (cut_at d t c fs)) = d"
    "layout (fst (cut_at d t c fs)) (snd (cut_at d t c fs)) = layout c (take d fs) @ t" by simp_all
qed

text \<open>An operation on a CBB without open children, which is what follows a flush.\<close>

definition builds_flat :: "(nat \<Rightarrow> bool) \<Rightarrow> cbb_op \<Rightarrow> nat \<Rightarrow> bytes \<Rightarrow> bool" where
  "builds_flat alloc f d out \<longleftrightarrow> (\<forall>c fs s. rep c fs s \<longrightarrow> d = length fs \<longrightarrow>
     (case f s of
        (True, s') \<Rightarrow> rep (fst (cut_at d out c fs)) (snd (cut_at d out c fs)) s' \<and> grown s s'
      | (False, s') \<Rightarrow> cbb_error s' \<and> \<not> room alloc s (length (layout c fs) + length out)))"

lemma builds_flatI: "builds alloc f d out \<Longrightarrow> builds_flat alloc f d out"
  unfolding builds_flat_def builds_def by (fastforce split: prod.splits bool.splits)

lemma builds_flatD:
  assumes "builds_flat alloc f d out" and "rep c fs s" and "d = length fs"
  shows "f s = (True, s') \<Longrightarrow> rep (fst (cut_at d out c fs)) (snd (cut_at d out c fs)) s' \<and> grown s s'"
    and "f s = (False, s') \<Longrightarrow> cbb_error s' \<and> \<not> room alloc s (length (layout c fs) + length out)"
  using assms unfolding builds_flat_def by fastforce+

lemma builds_seq_flat:
  assumes f: "builds alloc f d x" and g: "builds_flat alloc g d y"
  shows "builds alloc (cbb_seq f g) d (x @ y)"
proof (rule buildsI)
  fix c fs s s'
  assume rep: "rep c fs s" and d: "d \<le> length fs" and ok: "cbb_seq f g s = (True, s')"
  from ok obtain s1 where f1: "f s = (True, s1)" and g1: "g s1 = (True, s')"
    by (auto simp: cbb_seq_def split: prod.splits if_splits)
  from buildsD(1) [OF f rep d f1] obtain t where t: "render (drop d fs) = Some t" "grown s s1"
    and rep1: "rep (fst (cut_at d (t @ x) c fs)) (snd (cut_at d (t @ x) c fs)) s1" by auto
  obtain c1 fs1 where c1: "cut_at d (t @ x) c fs = (c1, fs1)" by fastforce
  have "rep (fst (cut_at d y c1 fs1)) (snd (cut_at d y c1 fs1)) s' \<and> grown s1 s'"
    using g rep1 g1 cut_at_facts(1) [OF d, of "t @ x" c] unfolding c1 builds_flat_def by fastforce
  with t grown_trans show "\<exists>t. render (drop d fs) = Some t
    \<and> rep (fst (cut_at d (t @ x @ y) c fs)) (snd (cut_at d (t @ x @ y) c fs)) s' \<and> grown s s'"
    by (auto simp: cut_at_cut_at [OF d c1])
next
  fix c fs s s' t
  assume rep: "rep c fs s" and d: "d \<le> length fs" and ko: "cbb_seq f g s = (False, s')"
  show "cbb_error s' \<and> (render (drop d fs) = Some t \<longrightarrow>
    \<not> room alloc s (length (layout c (take d fs)) + length t + length (x @ y)))"
  proof (cases "f s")
    case (Pair ok s1)
    show ?thesis
    proof (cases ok)
      case False
      then have f1: "f s = (False, s1)" "s' = s1" using ko Pair by (simp_all add: cbb_seq_def)
      have "\<not> room alloc s (length (layout c (take d fs)) + length t + length x)" if "render (drop d fs) = Some t"
        using buildsD(3) [OF f rep d f1(1) that] .
      moreover have "length (layout c (take d fs)) + length t + length x
          \<le> length (layout c (take d fs)) + length t + length (x @ y)" by simp
      ultimately show ?thesis using buildsD(2) [OF f rep d f1(1)] f1(2) room_mono by blast
    next
      case True
      then have f1: "f s = (True, s1)" and g1: "g s1 = (False, s')" using ko Pair by (simp_all add: cbb_seq_def)
      from buildsD(1) [OF f rep d f1] obtain t' where t: "render (drop d fs) = Some t'" "grown s s1"
        and rep1: "rep (fst (cut_at d (t' @ x) c fs)) (snd (cut_at d (t' @ x) c fs)) s1" by auto
      have "cbb_error s' \<and> \<not> room alloc s1 (length (layout c (take d fs) @ t' @ x) + length y)"
        using g rep1 g1 cut_at_facts [OF d, of "t' @ x" c] unfolding builds_flat_def by fastforce
      then show ?thesis using t grown_room [OF t(2)] by (auto simp: ac_simps)
    qed
  qed
qed

lemma builds_seq: "builds alloc f d x \<Longrightarrow> builds alloc g d y \<Longrightarrow> builds alloc (cbb_seq f g) d (x @ y)"
  by (intro builds_seq_flat builds_flatI)

lemma builds_flat_seq:
  assumes "builds_flat alloc f d x" and "builds_flat alloc g d y"
  shows "builds_flat alloc (cbb_seq f g) d (x @ y)"
  unfolding builds_flat_def
proof (intro allI impI)
  fix c fs s
  assume rep: "rep c fs s" and d: "d = length fs"
  have le: "d \<le> length fs" using d by simp
  obtain c1 fs1 where cut: "cut_at d x c fs = (c1, fs1)" by fastforce
  show "case cbb_seq f g s of
      (True, s') \<Rightarrow> rep (fst (cut_at d (x @ y) c fs)) (snd (cut_at d (x @ y) c fs)) s' \<and> grown s s'
    | (False, s') \<Rightarrow> cbb_error s' \<and> \<not> room alloc s (length (layout c fs) + length (x @ y))"
  proof (cases "f s")
    case (Pair ok s1)
    show ?thesis
    proof (cases ok)
      case True
      with Pair have "f s = (True, s1)" by simp
      from builds_flatD(1) [OF assms(1) rep d this] have r1: "rep c1 fs1 s1" and g1: "grown s s1"
        by (simp_all add: cut)
      have d1: "d = length fs1" using cut_at_facts(1) [OF le, of x c] by (simp add: cut)
      have lay: "layout c1 fs1 = layout c fs @ x" using cut_at_facts(2) [OF le, of x c] unfolding cut by (simp add: d)
      show ?thesis
      proof (cases "g s1")
        case gs: (Pair ok2 s2)
        show ?thesis
        proof (cases ok2)
          case ok2: True
          with gs have "g s1 = (True, s2)" by simp
          from builds_flatD(1) [OF assms(2) r1 d1 this] show ?thesis
            using Pair True gs ok2 grown_trans [OF g1] by (simp add: cbb_seq_def cut_at_cut_at [OF le cut])
        next
          case False
          with gs have "g s1 = (False, s2)" by simp
          from builds_flatD(2) [OF assms(2) r1 d1 this] show ?thesis
            using Pair True gs False grown_room [OF g1] by (auto simp: cbb_seq_def lay add.assoc)
        qed
      qed
    next
      case False
      with Pair have "f s = (False, s1)" by simp
      from builds_flatD(2) [OF assms(1) rep d this] have "cbb_error s1" "\<not> room alloc s (length (layout c fs) + length x)"
        by simp_all
      moreover have "length (layout c fs) + length x \<le> length (layout c fs) + length (x @ y)" by simp
      ultimately show ?thesis using Pair False room_mono by (auto simp: cbb_seq_def)
    qed
  qed
qed

lemma builds_flat_add:
  assumes "length t < 2 ^ 64"
  shows "builds_flat alloc (cbb_buffer_add alloc t) d t"
  unfolding builds_flat_def
proof (intro allI impI)
  fix c fs s
  assume rep: "rep c fs s" and d: "d = length fs"
  then have ok: "buf_ok s" and b: "buf s = layout c fs" by (simp_all add: rep_def)
  show "case cbb_buffer_add alloc t s of
      (True, s') \<Rightarrow> rep (fst (cut_at d t c fs)) (snd (cut_at d t c fs)) s' \<and> grown s s'
    | (False, s') \<Rightarrow> cbb_error s' \<and> \<not> room alloc s (length (layout c fs) + length t)"
  proof (cases "cbb_buffer_add alloc t s")
    case (Pair r s')
    show ?thesis
    proof (cases r)
      case True
      with Pair have "cbb_buffer_add alloc t s = (True, s')" by simp
      from cbb_buffer_add_sound [OF this ok assms]
      have s': "buf s' = buf s @ t" "children s' = children s" "buf_ok s'" "grown s s'" by simp_all
      have "rep (fst (cut_at d t c fs)) (snd (cut_at d t c fs)) s'"
        by (rule rep_cut [OF rep]) (use s' rep b d in \<open>simp_all add: rep_def\<close>)
      with Pair True s' show ?thesis by simp
    next
      case False
      have "cbb_error s'"
        using Pair False by (auto simp: cbb_buffer_add_def cbb_seq_def cbb_buffer_reserve_def cbb_err_def Let_def
            split: prod.splits if_splits)
      moreover have "\<not> room alloc s (length (buf s) + length t)"
        using cbb_buffer_add_complete [of alloc s t] Pair False by auto
      ultimately show ?thesis using Pair False b by simp
    qed
  qed
qed

lemma builds_space: "length t < 2 ^ 64 \<Longrightarrow> builds alloc (CBB_add_space alloc d t) d t"
  unfolding CBB_add_space_def using builds_seq_flat [OF builds_flush builds_flat_add] by simp

lemma builds_bytes: "length t < 2 ^ 64 \<Longrightarrow> builds alloc (CBB_add_bytes alloc d t) d t"
  unfolding CBB_add_bytes_def by (rule builds_space)

lemma builds_zeros: "n < 2 ^ 64 \<Longrightarrow> builds alloc (CBB_add_zeros alloc d n) d (replicate n 0)"
  unfolding CBB_add_zeros_def by (rule builds_space) simp

lemma builds_return: "builds_flat alloc (\<lambda>s. (True, s)) d []"
  by (auto simp: builds_flat_def cut_Nil)

lemma builds_u:
  assumes "unat v < 256 ^ k" and "k < 2 ^ 64"
  shows "builds alloc (cbb_add_u alloc d v k) d (be_bytes k (unat v))"
proof -
  have "put_be k 0 (unat v) (replicate k 0) = (be_bytes k (unat v), 0)"
    using assms(1) by (simp add: put_be_eq)
  moreover have "builds alloc (cbb_seq (CBB_add_space alloc d (be_bytes k (unat v))) (\<lambda>s. (True, s))) d (be_bytes k (unat v) @ [])"
    using assms(2) by (intro builds_seq_flat builds_space builds_return) simp
  ultimately show ?thesis by (simp add: cbb_add_u_def)
qed

text \<open>A value that does not fit is refused.\<close>

lemma cbb_add_u_too_big:
  assumes "256 ^ k \<le> unat v"
  shows "\<not> fst (cbb_add_u alloc d v k s)"
proof -
  have "unat v div 256 ^ k \<noteq> 0" using assms by (simp add: div_eq_0_iff)
  then show ?thesis
    by (auto simp: cbb_add_u_def put_be_eq cbb_seq_def cbb_err_def split: prod.splits)
qed

lemma builds_u8: "builds alloc (CBB_add_u8 alloc d b) d [b]"
proof -
  have "unat (ucast b :: u64) = unat b" by (simp add: unat_ucast_u8)
  then have "be_bytes 1 (unat (ucast b :: u64)) = [b]" by simp
  moreover have "builds alloc (cbb_add_u alloc d (ucast b) 1) d (be_bytes 1 (unat (ucast b :: u64)))"
    by (rule builds_u) (simp_all add: unat_ucast_u8)
  ultimately show ?thesis by (simp add: CBB_add_u8_def)
qed

lemma builds_each: "builds_flat alloc (cbb_add_each alloc d bs) d bs"
proof (induction bs)
  case Nil
  then show ?case by (simp add: builds_return)
next
  case (Cons b bs)
  from builds_seq_flat [OF builds_u8 Cons] show ?case by (auto intro: builds_flatI)
qed

subsection \<open>Children\<close>

lemma rep_add_child:
  assumes rep: "rep c fs s" and ok: "cbb_add_child alloc d p a s = (True, s')"
    and p: "p < 2 ^ 64" "a \<longrightarrow> p = 1"
  shows "rep c (fs @ [(a, p, [])]) s' \<and> grown s s'"
proof -
  from ok obtain s1 where add: "cbb_buffer_add alloc (replicate p 0) s = (True, s1)"
    and s': "s' = s1\<lparr>children := children s1 @
      [\<lparr>offset = length (buf s), pending_len_len = p, pending_is_asn1 = a\<rparr>]\<rparr>"
    by (auto simp: cbb_add_child_def cbb_seq_def split: prod.splits if_splits)
  from cbb_buffer_add_sound [OF add] rep p
  have "buf s1 = buf s @ replicate p 0" "children s1 = children s" "buf_ok s1" "grown s s1"
    by (simp_all add: rep_def)
  with rep p(2) show ?thesis by (auto simp: s' rep_def kids_snoc buf_ok_def grown_def)
qed

lemma cbb_add_child_fails:
  assumes "cbb_add_child alloc d p a s = (False, s')"
  shows "cbb_error s' \<and> \<not> room alloc s (length (buf s) + p)"
proof -
  from assms have add: "cbb_buffer_add alloc (replicate p 0) s = (False, s')"
    by (auto simp: cbb_add_child_def cbb_seq_def split: prod.splits if_splits)
  then have "cbb_error s'"
    by (auto simp: cbb_buffer_add_def cbb_seq_def cbb_buffer_reserve_def cbb_err_def Let_def
        split: prod.splits if_splits)
  with add cbb_buffer_add_complete [of alloc s "replicate p 0"] show ?thesis by auto
qed

lemma builds_flat_child:
  assumes g: "builds_flat alloc g (Suc d) y"
    and pre: "len_prefix a p (length y) = Some pre" and p: "p < 2 ^ 64" "a \<longrightarrow> p = 1"
  shows "builds_flat alloc (cbb_seq (cbb_add_child alloc d p a) (cbb_seq g (CBB_flush alloc d))) d (pre @ y)"
  unfolding builds_flat_def
proof (intro allI impI)
  fix c fs s
  assume rep: "rep c fs s" and d: "d = length fs"
  let ?h = "cbb_seq (cbb_add_child alloc d p a) (cbb_seq g (CBB_flush alloc d))"
  let ?L = "length (layout c fs)"
  have le: "p \<le> length pre" using len_prefix_ge [OF pre p(2)] .
  have b: "buf s = layout c fs" using rep by (simp add: rep_def)
  show "case ?h s of
      (True, s') \<Rightarrow> rep (fst (cut_at d (pre @ y) c fs)) (snd (cut_at d (pre @ y) c fs)) s' \<and> grown s s'
    | (False, s') \<Rightarrow> cbb_error s' \<and> \<not> room alloc s (?L + length (pre @ y))"
  proof (cases "cbb_add_child alloc d p a s")
    case add: (Pair r1 s1)
    show ?thesis
    proof (cases r1)
      case False
      with cbb_add_child_fails [of alloc d p a s s1] add
      have "cbb_error s1" "\<not> room alloc s (?L + p)" by (simp_all add: b)
      moreover have "?L + p \<le> ?L + length (pre @ y)" using le by simp
      ultimately show ?thesis using add False room_mono by (auto simp: cbb_seq_def)
    next
      case True
      let ?fs = "fs @ [(a, p, [])]"
      from rep_add_child [OF rep _ p, of alloc d s1] add True
      have rep1: "rep c ?fs s1" and g1: "grown s s1" by auto
      have d1: "Suc d = length ?fs" by (simp add: d)
      show ?thesis
      proof (cases "g s1")
        case gs: (Pair r2 s2)
        show ?thesis
        proof (cases r2)
          case False
          with gs have "g s1 = (False, s2)" by simp
          from builds_flatD(2) [OF g rep1 d1 this]
          have "cbb_error s2" "\<not> room alloc s1 (?L + p + length y)" by (simp_all add: d add.assoc)
          moreover have "?L + p + length y \<le> ?L + length (pre @ y)" using le by simp
          ultimately show ?thesis
            using add True gs False room_mono grown_room [OF g1] by (auto simp: cbb_seq_def)
        next
          case r2: True
          with gs have "g s1 = (True, s2)" by simp
          from builds_flatD(1) [OF g rep1 d1 this]
          have rep2: "rep c (fs @ [(a, p, y)]) s2" and g2: "grown s1 s2" by (simp_all add: d)
          have h: "?h s = CBB_flush alloc d s2" using add True gs r2 by (simp add: cbb_seq_def)
          have ren: "render (drop d (fs @ [(a, p, y)])) = Some (pre @ y)" by (simp add: d pre)
          have cut: "cut_at d t c (fs @ [(a, p, y)]) = cut_at d t c fs" for t
            by (cases d) (simp_all add: nth_append d)
          have d2: "d \<le> length (fs @ [(a, p, y)])" by (simp add: d)
          have gr: "grown s s2" using g1 g2 by (rule grown_trans)
          show ?thesis
          proof (cases "CBB_flush alloc d s2")
            case fl: (Pair r3 s3)
            show ?thesis
            proof (cases r3)
              case True
              with fl have "CBB_flush alloc d s2 = (True, s3)" by simp
              from buildsD(1) [OF builds_flush rep2 d2 this]
              have "rep (fst (cut_at d (pre @ y) c fs)) (snd (cut_at d (pre @ y) c fs)) s3" "grown s2 s3"
                unfolding ren cut by auto
              with h fl True grown_trans [OF gr] show ?thesis by simp
            next
              case False
              with fl have "CBB_flush alloc d s2 = (False, s3)" by simp
              from buildsD(2) [OF builds_flush rep2 d2 this] buildsD(3) [OF builds_flush rep2 d2 this ren]
              have "cbb_error s3" "\<not> room alloc s2 (?L + length (pre @ y))" by (simp_all add: d)
              with h fl False grown_room [OF gr] show ?thesis by auto
            qed
          qed
        qed
      qed
    qed
  qed
qed

subsection \<open>ASN.1\<close>

lemma cbb_seq_assoc: "cbb_seq (cbb_seq f g) h = cbb_seq f (cbb_seq g h)"
  by (rule ext) (simp add: cbb_seq_def split: prod.split)

lemma unat_base128_len:
  "v \<noteq> 0 \<Longrightarrow> base128_len v = Suc (length (base128_hi (unat v div 128)))"
proof (induction v rule: base128_len.induct)
  case (1 v)
  show ?case
  proof (cases "drop_bit 7 v = 0")
    case True
    then have "unat v div 128 = 0" using unat_drop_bit [of 7 v] by simp
    moreover have "base128_len v = Suc (base128_len (drop_bit 7 v))"
      using 1(2) by (subst base128_len.simps) (rule if_not_P)
    ultimately show ?thesis using True by (simp add: base128_len.simps)
  next
    case False
    then have nz: "unat v div 128 \<noteq> 0" using unat_drop_bit [of 7 v] unat_eq_0 [of "drop_bit 7 v"] by simp
    have "base128_len v = Suc (base128_len (drop_bit 7 v))"
      using 1(2) by (subst base128_len.simps) (rule if_not_P)
    also have "base128_len (drop_bit 7 v) = Suc (length (base128_hi (unat v div 128 div 128)))"
      using 1(1) [OF 1(2) False] unat_drop_bit [of 7 v] by simp
    also have "\<dots> = length (base128_hi (unat v div 128))" by (simp add: base128_hi_pos [OF nz])
    finally show ?thesis .
  qed
qed

definition base128_byte :: "u64 \<Rightarrow> nat \<Rightarrow> u8" where
  "base128_byte v i = (let byte = ucast (drop_bit (7 * i) v AND 0x7f) in if i \<noteq> 0 then byte OR 0x80 else byte)"

lemma base128_put_eq: "base128_put alloc d v n s = cbb_add_each alloc d (map (base128_byte v) (rev [0..<n])) s"
proof (induction n arbitrary: s)
  case 0
  then show ?case by simp
next
  case (Suc n)
  have "base128_put alloc d v n = cbb_add_each alloc d (map (base128_byte v) (rev [0..<n]))"
    by (rule ext) (rule Suc)
  then show ?case by (simp add: Let_def base128_byte_def [of v n])
qed

lemma digit_byte: "(ucast (drop_bit k (v :: u64) AND 0x7f) :: u8) = of_nat (unat v div 2 ^ k mod 128)"
proof (rule word_of_natI)
  have "unat (take_bit 7 (drop_bit k v)) = take_bit 7 (unat (drop_bit k v))" by (rule unsigned_take_bit_eq)
  then have "unat (drop_bit k v AND mask 7) = unat v div 2 ^ k mod 2 ^ 7"
    by (simp only: take_bit_eq_mod unat_drop_bit flip: take_bit_eq_mask)
  then have u: "unat (drop_bit k v AND 0x7f) = unat v div 2 ^ k mod 128" by (simp add: mask_eq_exp_minus_1)
  have "unat v div 2 ^ k mod 128 < 2 ^ 8" by (rule less_trans [of _ 128]) simp_all
  then have "unat (drop_bit k v AND 0x7f) < 2 ^ LENGTH(8)" unfolding u by simp
  then show "unat (ucast (drop_bit k v AND 0x7f) :: u8) = unat v div 2 ^ k mod 128"
    by (simp only: unat_ucast_narrow u)
qed

lemma or_0x80: "n < 128 \<Longrightarrow> (of_nat n :: u8) OR 0x80 = of_nat (128 + n)"
proof (rule word_of_natI)
  assume n: "n < 128"
  have u: "unat (of_nat n :: u8) = n" using n by (intro unat_of_nat_u8) simp
  have "unat (push_bit 7 1 OR of_nat n :: u8) = unat (1 :: u8) * 2 ^ 7 + unat (of_nat n :: u8)"
    by (rule unat_shift_or) (use n u in simp_all)
  then show "unat ((of_nat n :: u8) OR 0x80) = 128 + n" using u by (simp add: or.commute)
qed

lemma base128_hi_digits:
  "base128_hi m = map (\<lambda>i. of_nat (128 + m div 128 ^ i mod 128)) (rev [0..<length (base128_hi m)])"
proof (induction m rule: less_induct)
  case (less m)
  show ?case
  proof (cases "m = 0")
    case False
    let ?h = "base128_hi (m div 128)"
    have IH: "?h = map (\<lambda>i. of_nat (128 + m div 128 div 128 ^ i mod 128)) (rev [0..<length ?h])"
      using False by (intro less) simp
    have up: "rev [0..<Suc k] = map Suc (rev [0..<k]) @ [0]" for k
      by (simp add: rev_map [symmetric] map_Suc_upt upt_conv_Cons del: upt_Suc)
    have "map (\<lambda>i. of_nat (128 + m div 128 ^ i mod 128) :: u8) (rev [0..<length (base128_hi m)]) =
        map (\<lambda>i. of_nat (128 + m div 128 div 128 ^ i mod 128)) (rev [0..<length ?h]) @ [of_nat (128 + m mod 128)]"
      unfolding base128_hi_pos [OF False] length_append list.size add_0_right One_nat_def add_Suc_right up
      by (simp add: div_mult2_eq)
    then have "map (\<lambda>i. of_nat (128 + m div 128 ^ i mod 128) :: u8) (rev [0..<length (base128_hi m)]) =
        ?h @ [of_nat (128 + m mod 128)]" unfolding IH [symmetric] .
    then show ?thesis by (rule trans [OF base128_hi_pos [OF False] sym])
  qed simp
qed

lemma base128_bytes:
  "map (base128_byte v) (rev [0..<Suc (length (base128_hi (unat v div 128)))]) = base128 (unat v)"
proof -
  let ?h = "base128_hi (unat v div 128)"
  have up: "rev [0..<Suc k] = map Suc (rev [0..<k]) @ [0]" for k
    by (simp add: rev_map [symmetric] map_Suc_upt upt_conv_Cons del: upt_Suc)
  have hi: "base128_byte v (Suc i) = of_nat (128 + unat v div 128 div 128 ^ i mod 128)" for i
  proof -
    have "(2::nat) ^ (7 * Suc i) = 128 * 128 ^ i" by (simp add: power_add power_mult)
    then have "unat v div 2 ^ (7 * Suc i) = unat v div 128 div 128 ^ i" by (simp only: div_mult2_eq)
    then show ?thesis unfolding base128_byte_def digit_byte Let_def by (simp add: or_0x80)
  qed
  have lo: "base128_byte v 0 = of_nat (unat v mod 128)"
    using digit_byte [of 0 v] by (simp add: base128_byte_def)
  show ?thesis
    unfolding up map_append map_map base128_def list.map lo
    by (simp only: o_def hi base128_hi_digits [of "unat v div 128", symmetric])
qed

lemma builds_base128: "builds_flat alloc (add_base128_integer alloc d v) d (base128 (unat v))"
proof -
  let ?n = "if base128_len v = 0 then 1 else base128_len v"
  have n: "?n = Suc (length (base128_hi (unat v div 128)))"
  proof (cases "v = 0")
    case True
    then show ?thesis by (simp add: base128_len.simps)
  qed (simp add: unat_base128_len)
  have "add_base128_integer alloc d v = cbb_add_each alloc d (base128 (unat v))"
    unfolding add_base128_integer_def n by (rule ext) (simp only: base128_put_eq base128_bytes)
  then show ?thesis by (simp add: builds_each)
qed

lemma tag_bits_eq: "ucast (drop_bit 24 tag AND 0xe0 :: u32) = tag_class_bits tag"
  unfolding tag_class_bits_def mask_consts by (rule bit_word_eqI) (auto simp: bit_simps)

lemma builds_asn1:
  assumes g: "builds_flat alloc g (Suc d) y" and y: "length y \<le> 0xfffffffe"
  shows "builds alloc (cbb_seq (CBB_add_asn1 alloc d tag) (cbb_seq g (CBB_flush alloc d))) d (der tag y)"
proof -
  let ?num = "tag AND CBS_ASN1_TAG_NUMBER_MASK"
  let ?hdr = "if ?num \<ge> 0x1f
    then cbb_seq (CBB_add_u8 alloc d (tag_class_bits tag OR 0x1f)) (add_base128_integer alloc d (ucast ?num))
    else CBB_add_u8 alloc d (ucast (ucast (tag_class_bits tag) OR ?num))"
  have num: "?num = tag_number tag" by (simp add: tag_number_def)
  have ge: "?num \<ge> 0x1f \<longleftrightarrow> \<not> unat (tag_number tag) < 31" by (simp add: num word_le_nat_alt not_less)
  have low: "(ucast (ucast (tag_class_bits tag) OR n :: u32) :: u8) = tag_class_bits tag OR ucast n" for n :: u32
    by (rule bit_word_eqI) (auto simp: bit_simps)
  have hdr: "builds alloc ?hdr d (der_tag tag)"
  proof (cases "unat (tag_number tag) < 31")
    case True
    then have "?hdr = CBB_add_u8 alloc d (tag_class_bits tag OR ucast (tag_number tag))"
      by (simp only: ge low not_True_eq_False if_False) (simp only: num)
    then show ?thesis using True builds_u8 [of alloc d] by (simp only: der_tag_def if_True)
  next
    case False
    have "unat (ucast (tag_number tag) :: u64) = unat (tag_number tag)" by (rule unat_ucast_widen) simp
    with builds_seq_flat [OF builds_u8 builds_base128, of alloc d "tag_class_bits tag OR 0x1f" "ucast (tag_number tag)"]
    have "builds alloc (cbb_seq (CBB_add_u8 alloc d (tag_class_bits tag OR 0x1f))
        (add_base128_integer alloc d (ucast (tag_number tag)))) d (der_tag tag)"
      using False by (simp add: der_tag_def)
    moreover have "?hdr = cbb_seq (CBB_add_u8 alloc d (tag_class_bits tag OR 0x1f))
        (add_base128_integer alloc d (ucast (tag_number tag)))"
      using False by (simp only: ge not_False_eq_True if_True) (simp only: num)
    ultimately show ?thesis by (simp only:)
  qed
  have eq: "cbb_seq (CBB_add_asn1 alloc d tag) (cbb_seq g (CBB_flush alloc d)) =
    cbb_seq (cbb_seq (CBB_flush alloc d) ?hdr) (cbb_seq (cbb_add_child alloc d 1 True) (cbb_seq g (CBB_flush alloc d)))"
    by (simp only: CBB_add_asn1_def cbb_seq_assoc Let_def tag_bits_eq)
  have pre: "len_prefix True 1 (length y) = Some (der_len (length y))" using y by (simp add: len_prefix_def)
  have "builds alloc (cbb_seq (CBB_flush alloc d) ?hdr) d ([] @ der_tag tag)"
    by (rule builds_seq [OF builds_flush hdr])
  moreover have "builds_flat alloc (cbb_seq (cbb_add_child alloc d 1 True) (cbb_seq g (CBB_flush alloc d))) d
      (der_len (length y) @ y)"
    by (rule builds_flat_child [OF g pre]) simp_all
  ultimately have "builds alloc (cbb_seq (cbb_seq (CBB_flush alloc d) ?hdr)
      (cbb_seq (cbb_add_child alloc d 1 True) (cbb_seq g (CBB_flush alloc d)))) d
      (([] @ der_tag tag) @ (der_len (length y) @ y))"
    by (rule builds_seq_flat)
  then show ?thesis unfolding eq by (simp add: der_def der_header_def)
qed

text \<open>Integers.\<close>

definition uint_content :: "bytes \<Rightarrow> bytes" where
  "uint_content bs = (case dropWhile (\<lambda>b. b = 0) bs of
     [] \<Rightarrow> [0] | b # r \<Rightarrow> if b AND 0x80 \<noteq> 0 then 0 # b # r else b # r)"

lemma put_uint64_True: "put_uint64 alloc d True bs s = cbb_add_each alloc d bs s"
proof (induction bs arbitrary: s)
  case (Cons b bs)
  have "put_uint64 alloc d True bs = cbb_add_each alloc d bs" by (rule ext) (rule Cons)
  then show ?case by (simp add: cbb_seq_def)
qed simp

lemma cbb_seq_return: "cbb_seq f (\<lambda>s. (True, s)) = f" "cbb_seq (\<lambda>s. (True, s)) f = f"
  by (rule ext, simp add: cbb_seq_def split: prod.split)+

lemma put_uint64_False: "put_uint64 alloc d False bs = cbb_add_each alloc d (uint_content bs)"
proof (induction bs)
  case Nil
  then show ?case by (simp add: uint_content_def cbb_seq_return)
next
  case (Cons b bs)
  have t: "put_uint64 alloc d True bs = cbb_add_each alloc d bs" by (rule ext) (rule put_uint64_True)
  show ?case
  proof (cases "b = 0")
    case True
    then show ?thesis using Cons by (simp add: uint_content_def)
  next
    case False
    then show ?thesis by (simp add: uint_content_def t cbb_seq_return)
  qed
qed

lemma be_nat_dropWhile: "be_nat (dropWhile (\<lambda>b. b = 0) bs) = be_nat bs"
  by (induction bs) (simp_all add: be_nat_Cons)

lemma uint_content_der_int: "uint_content bs = der_int (int (be_nat bs))"
proof -
  let ?c = "uint_content bs"
  have "CBS_is_valid_asn1_integer ?c = Some False \<and> der_int_val ?c = int (be_nat bs)"
  proof (cases "dropWhile (\<lambda>b. b = 0) bs")
    case Nil
    have "be_nat bs = 0" unfolding be_nat_dropWhile [of bs, symmetric] Nil by simp
    then show ?thesis unfolding uint_content_def Nil
      by (simp add: valid_integer_single der_int_val_single)
  next
    case (Cons b r)
    then have nz: "b \<noteq> 0" using hd_dropWhile [of "\<lambda>b. b = 0" bs] by auto
    have val: "be_nat bs = be_nat (b # r)" using be_nat_dropWhile [of bs] Cons by simp
    show ?thesis
    proof (cases "uint b < 128")
      case True
      then have c: "?c = b # r" using Cons by (simp add: uint_content_def and_0x80_uint)
      have "b \<noteq> 0xff" using True by auto
      with c nz True show ?thesis
        by (cases r) (simp_all add: valid_integer_single valid_integer_Cons2 der_int_val_def val)
    next
      case False
      then have "?c = 0 # b # r" using Cons by (simp add: uint_content_def and_0x80_uint)
      with nz False show ?thesis by (simp add: valid_integer_Cons2 der_int_val_def val be_nat_Cons)
    qed
  qed
  then show ?thesis using der_int_of_valid [of ?c] by simp
qed

lemma u64_bytes:
  "map (\<lambda>i. ucast (drop_bit (8 * (7 - i)) (v :: u64) AND 0xff) :: u8) [0..<8] = rev (le_bytes 8 v)"
proof (rule nth_equalityI)
  fix i assume "i < length (map (\<lambda>i. ucast (drop_bit (8 * (7 - i)) v AND 0xff) :: u8) [0..<8])"
  then have i: "i < 8" by simp
  have ff: "(0xff :: u64) = mask 8" by (simp add: mask_eq_exp_minus_1)
  show "map (\<lambda>i. ucast (drop_bit (8 * (7 - i)) v AND 0xff) :: u8) [0..<8] ! i = rev (le_bytes 8 v) ! i"
    using i unfolding ff by (intro bit_word_eqI) (auto simp: rev_nth le_bytes_def bit_simps)
qed simp

lemma be_nat_rev_le_bytes: "be_nat (rev (le_bytes 8 (v :: u64))) = unat v"
  using unat_le_word [of "le_bytes 8 v", where 'a = 64] le_word_le_bytes [where 'a = 64 and k = 8 and v = v] by simp

theorem builds_asn1_uint64:
  "builds alloc (CBB_add_asn1_uint64_with_tag alloc d v tag) d (der tag (der_int (uint v)))"
proof -
  have "put_uint64 alloc (Suc d) False (map (\<lambda>i. ucast (drop_bit (8 * (7 - i)) v AND 0xff)) [0..<8])
      = cbb_add_each alloc (Suc d) (der_int (uint v))"
    unfolding u64_bytes put_uint64_False uint_content_der_int be_nat_rev_le_bytes by simp
  moreover have "length (der_int (uint v)) \<le> 0xfffffffe" using length_der_int_u64 [of v] by simp
  ultimately show ?thesis
    unfolding CBB_add_asn1_uint64_with_tag_def by (simp add: builds_asn1 builds_each)
qed

text \<open>Negative integers: sign-extension bytes are dropped.\<close>

lemma der_int_val_drop_sign:
  assumes "128 \<le> uint b"
  shows "der_int_val (0xff # b # r) = der_int_val (b # r)"
  using assms by (simp add: der_int_val_def be_nat_Cons)

lemma int64_start_spec:
  assumes "i < length bs" and "128 \<le> uint (bs ! i)"
  shows "let c = rev (take (Suc (int64_start bs i)) bs) in
    der_int_val c = der_int_val (rev (take (Suc i) bs)) \<and> CBS_is_valid_asn1_integer c \<noteq> None"
  using assms
proof (induction i)
  case 0
  then have "take (Suc 0) bs = [bs ! 0]" by (cases bs) auto
  then show ?case by (simp add: valid_integer_single)
next
  case (Suc i)
  have tk: "rev (take (Suc (Suc i)) bs) = bs ! Suc i # rev (take (Suc i) bs)"
    "rev (take (Suc i) bs) = bs ! i # rev (take i bs)"
    using Suc.prems by (simp_all add: take_Suc_conv_app_nth)
  show ?case
  proof (cases "bs ! Suc i = 0xff \<and> bs ! i AND 0x80 \<noteq> 0")
    case True
    then have "128 \<le> uint (bs ! i)" by (simp add: and_0x80_uint)
    with Suc True show ?thesis
      by (simp add: Let_def tk der_int_val_drop_sign del: take_Suc)
  next
    case False
    have "bs ! Suc i \<noteq> 0" using Suc.prems by auto
    with False show ?thesis
      by (auto simp: Let_def tk valid_integer_Cons2 and_0x80_uint)
  qed
qed

lemma sint_negative:
  assumes "sint (v :: u64) < 0"
  shows "sint v = uint v - 2 ^ 64"
proof -
  have "uint v = sint v mod 2 ^ 64" by (simp add: uint_sint take_bit_eq_mod)
  also have "\<dots> = (sint v + 2 ^ 64) mod 2 ^ 64" by simp
  also have "\<dots> = sint v + 2 ^ 64"
    using assms sint_ge [of v] by (intro mod_pos_pos_trivial) simp_all
  finally show ?thesis by simp
qed

lemma negative_bytes:
  assumes "sint (v :: u64) < 0"
  shows "128 \<le> uint (le_bytes 8 v ! 7)" and "der_int_val (rev (le_bytes 8 v)) = sint v"
proof -
  let ?R = "rev (le_bytes 8 v)"
  obtain b r where R: "?R = b # r" by (cases ?R) (auto dest: arg_cong [of _ _ length])
  have "length ?R = 8" by simp
  then have r: "length r = 7" unfolding R by simp
  have b: "le_bytes 8 v ! 7 = b" using rev_nth [of 0 "le_bytes 8 v"] R by simp
  have v: "uint v \<ge> 2 ^ 63" using sint_negative [OF assms] sint_ge [of v] by simp
  have "be_nat r < 256 ^ 7" using be_nat_bound [of r] by (simp add: r)
  moreover have "unat v = unat b * 256 ^ 7 + be_nat r"
    using be_nat_rev_le_bytes [of v] unfolding R be_nat_Cons r by simp
  ultimately have "unat v < (unat b + 1) * 256 ^ 7" by simp
  moreover have "2 ^ 63 \<le> int (unat v)" using v by (simp only: uint_nat)
  then have "2 ^ 63 \<le> unat v"
    by (simp only: of_nat_le_iff [symmetric, where 'a = int] of_nat_power of_nat_numeral)
  ultimately have "2 ^ 63 < (unat b + 1) * 256 ^ 7" by (rule le_less_trans [rotated])
  moreover have "(2::nat) ^ 63 = 128 * 256 ^ 7" by simp
  ultimately have "(128::nat) * 256 ^ 7 < (unat b + 1) * 256 ^ 7" by (simp only:)
  then have "128 < unat b + 1" by (simp only: mult_less_cancel2)
  then have "128 \<le> unat b" by simp
  then have ub: "128 \<le> uint b" using and_0x80 [of b] and_0x80_uint [of b] by linarith
  then show "128 \<le> uint (le_bytes 8 v ! 7)" by (simp add: b)
  have "der_int_val ?R = int (be_nat ?R) - 256 ^ 8"
    using ub by (simp add: der_int_val_def R r)
  then show "der_int_val ?R = sint v" by (simp add: be_nat_rev_le_bytes sint_negative [OF assms])
qed

lemma builds_asn1_int64:
  "builds alloc (CBB_add_asn1_int64_with_tag alloc d v tag) d (der tag (der_int (sint v)))"
proof (cases "0 \<le> sint v")
  case True
  then have "uint v = sint v" using sint_lt [of v] by (simp add: uint_sint take_bit_eq_mod)
  with True show ?thesis
    using builds_asn1_uint64 [of alloc d v tag] by (simp add: CBB_add_asn1_int64_with_tag_def)
next
  case False
  then have neg: "sint v < 0" by simp
  let ?bs = "le_bytes 8 v"
  let ?c = "rev (take (Suc (int64_start ?bs 7)) ?bs)"
  have "der_int_val ?c = der_int_val (rev (take (Suc 7) ?bs)) \<and> CBS_is_valid_asn1_integer ?c \<noteq> None"
    using int64_start_spec [of 7 ?bs] negative_bytes(1) [OF neg] by (simp add: Let_def)
  moreover have "take (Suc 7) ?bs = ?bs" by simp
  ultimately have "der_int_val ?c = sint v" "CBS_is_valid_asn1_integer ?c \<noteq> None"
    using negative_bytes(2) [OF neg] by simp_all
  then have c: "?c = der_int (sint v)" using der_int_of_valid by metis
  have "length ?c \<le> 8" by simp
  then have "length (der_int (sint v)) \<le> 0xfffffffe" unfolding c by simp
  then show ?thesis
    using False unfolding CBB_add_asn1_int64_with_tag_def Let_def c
    by (simp add: builds_asn1 builds_each)
qed

lemma builds_asn1_octet_string:
  "length data \<le> 0xfffffffe \<Longrightarrow>
    builds alloc (CBB_add_asn1_octet_string alloc d data) d (der CBS_ASN1_OCTETSTRING data)"
  unfolding CBB_add_asn1_octet_string_def
  by (simp add: builds_asn1 builds_flatI builds_bytes)

lemma builds_asn1_bool:
  "builds alloc (CBB_add_asn1_bool alloc d v) d (der CBS_ASN1_BOOLEAN [if v then 0xff else 0])"
  unfolding CBB_add_asn1_bool_def
  using builds_asn1 [OF builds_flatI [OF builds_u8], of _ alloc d] by simp

text \<open>A fresh builder, and what finishing it returns.\<close>

lemma rep_init: "CBB_init alloc n = Some s \<Longrightarrow> n < 2 ^ 64 \<Longrightarrow> rep [] [] s"
  by (auto simp: CBB_init_def rep_def buf_ok_def split: if_splits)

lemma rep_init_fixed: "n < 2 ^ 64 \<Longrightarrow> rep [] [] (CBB_init_fixed n)"
  by (simp add: CBB_init_fixed_def rep_def buf_ok_def)

lemma builds_finish:
  assumes "builds alloc f 0 out" and "rep [] [] s" and "f s = (True, s')"
  shows "CBB_finish alloc 0 True s' = Some out"
proof -
  from buildsD(1) [OF assms(1,2) _ assms(3)] have "rep out [] s'" by simp
  then show ?thesis by (simp add: CBB_finish_def CBB_flush.simps rep_def buf_ok_def)
qed

lemma builds_fresh_ok:
  assumes f: "builds alloc f 0 out" and init: "CBB_init alloc n = Some s" "n < 2 ^ 64"
    and alloc: "\<forall>m. alloc m" and len: "length out < 2 ^ 64"
  obtains s' where "f s = (True, s')" and "CBB_finish alloc 0 True s' = Some out"
proof -
  have rep: "rep [] [] s" using init by (rule rep_init)
  have "can_resize s" using init by (auto simp: CBB_init_def split: if_splits)
  then have room: "room alloc s (length out)" using alloc len by (simp add: room_def)
  have "fst (f s)"
  proof (rule ccontr)
    assume "\<not> fst (f s)"
    then obtain s' where "f s = (False, s')" by (cases "f s") auto
    from buildsD(3) [OF f rep _ this, of "[]"] room show False by simp
  qed
  then obtain s' where s': "f s = (True, s')" by (cases "f s") auto
  then show ?thesis using builds_finish [OF f rep s'] by (rule that)
qed

end
