(* ===== verification/Oid.thy ===== *)
theory Oid
  imports Cbb
begin

text \<open>
  Object identifiers as text: \<open>CBS_asn1_oid_to_text\<close> of \<open>cbs.c\<close> and \<open>CBB_add_asn1_oid_from_text\<close> of
  \<open>cbb.c\<close>, which use both the parser and the builder.
\<close>

section \<open>The code\<close>

text \<open>\<open>BIO_snprintf\<close> with the format of an unsigned decimal.\<close>

fun dec_text :: "nat \<Rightarrow> bytes" where
  "dec_text n = (if n < 10 then [of_nat (48 + n)] else dec_text (n div 10) @ [of_nat (48 + n mod 10)])"

declare dec_text.simps [simp del]

definition add_decimal :: "(nat \<Rightarrow> bool) \<Rightarrow> nat \<Rightarrow> u64 \<Rightarrow> cbb_op" where
  "add_decimal alloc d v = CBB_add_bytes alloc d (dec_text (unat v))"

lemma parse_base128_integer_shorter:
  "parse_base128_integer c = (Some v, c') \<Longrightarrow> length c' < length c"
  by (simp add: parse_base128_integer_iff base128_def)

function oid_text_loop :: "(nat \<Rightarrow> bool) \<Rightarrow> cbs \<Rightarrow> cbb_op" where
  "oid_text_loop alloc copy s =
     (if length copy = 0 then (True, s)
      else case parse_base128_integer copy of
        (None, _) \<Rightarrow> (False, s)
      | (Some v, copy') \<Rightarrow>
          (case cbb_seq (CBB_add_u8 alloc 0 0x2e) (add_decimal alloc 0 v) s of
             (False, s') \<Rightarrow> (False, s')
           | (True, s') \<Rightarrow> oid_text_loop alloc copy' s'))"
  by pat_completeness auto
termination
  by (relation "measure (\<lambda>(alloc, copy, s). length copy)")
    (auto dest!: parse_base128_integer_shorter [OF sym])

declare oid_text_loop.simps [simp del]

text \<open>The first component of the encoding stands for two.\<close>

definition oid_text_first :: "(nat \<Rightarrow> bool) \<Rightarrow> u64 \<Rightarrow> cbb_op" where
  "oid_text_first alloc v =
     (if v \<ge> 80 then cbb_seq (CBB_add_bytes alloc 0 [0x32, 0x2e]) (add_decimal alloc 0 (v - 80))
      else cbb_seq (add_decimal alloc 0 (v div 40))
             (cbb_seq (CBB_add_u8 alloc 0 0x2e) (add_decimal alloc 0 (v mod 40))))"

definition CBS_asn1_oid_to_text :: "(nat \<Rightarrow> bool) \<Rightarrow> cbs \<Rightarrow> bytes option" where
  "CBS_asn1_oid_to_text alloc c =
     (case CBB_init alloc 32 of
        None \<Rightarrow> None
      | Some cbb \<Rightarrow>
          (case parse_base128_integer c of
             (None, _) \<Rightarrow> None
           | (Some v, copy) \<Rightarrow>
               (case cbb_seq (oid_text_first alloc v)
                       (cbb_seq (oid_text_loop alloc copy) (CBB_add_u8 alloc 0 0)) cbb of
                  (False, _) \<Rightarrow> None
                | (True, cbb') \<Rightarrow> CBB_finish alloc 0 True cbb')))"

definition parse_dotted_decimal :: "u64 cbs_op" where
  "parse_dotted_decimal = cbs_bind CBS_get_u64_decimal (\<lambda>v c.
     case CBS_get_u8 c of
       (None, c') \<Rightarrow> (Some v, c')
     | (Some dot, c') \<Rightarrow> if dot = 0x2e \<and> length c' > 0 then (Some v, c') else (None, c'))"

text \<open>What a success of the decimal reader has consumed.\<close>

lemma u64_decimal_shorter:
  "u64_decimal_loop v seen c = (Some w, c') \<Longrightarrow> if seen then length c' \<le> length c else length c' < length c"
proof (induction v seen c arbitrary: w c' rule: u64_decimal_loop.induct)
  case (2 v seen d c)
  show ?case
  proof (cases "OPENSSL_isdigit d")
    case True
    with 2(2) have "\<not> ((v = 0 \<and> seen) \<or> v > (- 1) div 10 \<or> v * 10 > - 1 - (ucast d - 0x30))"
      and "u64_decimal_loop (v * 10 + (ucast d - 0x30)) True c = (Some w, c')"
      by (auto split: if_splits)
    from 2(1) [OF _ this] True show ?thesis by auto
  next
    case False
    with 2(2) show ?thesis by (auto split: if_splits)
  qed
qed (auto split: if_splits)

lemma parse_dotted_decimal_shorter:
  assumes "parse_dotted_decimal c = (Some v, c')"
  shows "length c' < length c"
proof -
  from assms obtain c1 where "u64_decimal_loop 0 False c = (Some v, c1)"
    and "length c' \<le> length c1"
    unfolding parse_dotted_decimal_def CBS_get_u64_decimal_def cbs_bind_Some_iff
    by (cases c) (auto simp: CBS_get_u8_def cbs_get_def cbs_bind_def cbs_ret_def split: if_splits)
  with u64_decimal_shorter [of 0 False c v c1] show ?thesis by simp
qed

function oid_from_text_loop :: "(nat \<Rightarrow> bool) \<Rightarrow> nat \<Rightarrow> cbs \<Rightarrow> cbb_op" where
  "oid_from_text_loop alloc d c s =
     (if length c = 0 then (True, s)
      else case parse_dotted_decimal c of
        (None, _) \<Rightarrow> (False, s)
      | (Some a, c') \<Rightarrow>
          (case add_base128_integer alloc d a s of
             (False, s') \<Rightarrow> (False, s')
           | (True, s') \<Rightarrow> oid_from_text_loop alloc d c' s'))"
  by pat_completeness auto
termination
  by (relation "measure (\<lambda>(alloc, d, c, s). length c)")
    (auto dest!: parse_dotted_decimal_shorter [OF sym])

declare oid_from_text_loop.simps [simp del]

definition CBB_add_asn1_oid_from_text :: "(nat \<Rightarrow> bool) \<Rightarrow> nat \<Rightarrow> bytes \<Rightarrow> cbb_op" where
  "CBB_add_asn1_oid_from_text alloc d text = cbb_seq (CBB_flush alloc d) (\<lambda>s.
     case cbs_bind parse_dotted_decimal (\<lambda>a. cbs_bind parse_dotted_decimal (\<lambda>b. cbs_ret (a, b))) text of
       (None, _) \<Rightarrow> (False, s)
     | (Some (a, b), c) \<Rightarrow>
         if a > 2 \<or> (a < 2 \<and> b > 39) \<or> b > - 1 - 80 then (False, s)
         else cbb_seq (add_base128_integer alloc d (40 * a + b)) (oid_from_text_loop alloc d c) s)"

section \<open>The two notations\<close>

text \<open>The components of an identifier, and what each notation of them is.\<close>

definition oid_ok :: "nat list \<Rightarrow> bool" where
  "oid_ok arcs \<longleftrightarrow> (\<exists>a b rest. arcs = a # b # rest \<and> a \<le> 2 \<and> (a < 2 \<longrightarrow> b < 40)
     \<and> 40 * a + b < 2 ^ 64 \<and> (a < 2 \<or> b + 80 < 2 ^ 64) \<and> (\<forall>x \<in> set rest. x < 2 ^ 64))"

fun oid_bytes :: "nat list \<Rightarrow> bytes" where
  "oid_bytes (a # b # rest) = base128 (40 * a + b) @ concat (map base128 rest)"
| "oid_bytes _ = []"

fun oid_text :: "nat list \<Rightarrow> bytes" where
  "oid_text [] = []"
| "oid_text [a] = dec_text a"
| "oid_text (a # rest) = dec_text a @ 0x2e # oid_text rest"

subsection \<open>Decimal numbers\<close>

definition digit_stop :: "bytes \<Rightarrow> bool" where
  "digit_stop c \<longleftrightarrow> (case c of [] \<Rightarrow> True | b # _ \<Rightarrow> \<not> OPENSSL_isdigit b)"

lemma isdigit_of_nat: "k < 10 \<Longrightarrow> OPENSSL_isdigit (of_nat (48 + k)) \<and> ucast (of_nat (48 + k) :: u8) - 0x30 = (of_nat k :: u64)"
proof -
  assume k: "k < 10"
  have u: "unat (of_nat (48 + k) :: u8) = 48 + k" using k by (intro unat_of_nat_u8) simp
  have "OPENSSL_isdigit (of_nat (48 + k))" using k u by (simp only: OPENSSL_isdigit_def word_le_nat_alt) simp
  moreover have "(ucast (of_nat (48 + k) :: u8) :: u64) = of_nat (48 + k)"
    using u by (intro word_of_natI) (simp only: unat_ucast_u8)
  ultimately show ?thesis by simp
qed

lemma isdigit_value:
  assumes "OPENSSL_isdigit b"
  obtains k where "k < 10" "b = of_nat (48 + k)" "ucast b - 0x30 = (of_nat k :: u64)"
proof -
  from assms have "48 \<le> unat b" "unat b \<le> 57" by (simp_all add: OPENSSL_isdigit_def word_le_nat_alt)
  then have "unat b - 48 < 10" "b = of_nat (48 + (unat b - 48))" by (simp_all add: word_of_natI)
  with isdigit_of_nat [of "unat b - 48"] that show ?thesis by metis
qed

text \<open>One step of the reader, in numbers.\<close>

lemma u64_decimal_step:
  assumes "k < 10" and "n < 2 ^ 64"
  shows "u64_decimal_loop (of_nat n) seen (of_nat (48 + k) # c) =
    (if (n = 0 \<and> seen) \<or> 2 ^ 64 \<le> n * 10 + k then (None, c) else u64_decimal_loop (of_nat (n * 10 + k)) True c)"
proof -
  have n: "unat (of_nat n :: u64) = n" using assms by (intro unat_of_nat_u64)
  have k: "unat (of_nat k :: u64) = k" using assms by (intro unat_of_nat_u64) simp
  note dig = isdigit_of_nat [OF assms(1)]
  have mx: "unat ((- 1 :: u64) div 10) = (2 ^ 64 - 1) div 10" by (simp add: unat_div)
  have "of_nat n > (- 1 :: u64) div 10 \<longleftrightarrow> n > (2 ^ 64 - 1) div 10"
    unfolding word_less_nat_alt mx n ..
  moreover have "(of_nat n :: u64) * 10 > - 1 - of_nat k \<longleftrightarrow> n * 10 > 2 ^ 64 - 1 - k" if "n \<le> (2 ^ 64 - 1) div 10"
  proof -
    have "unat ((of_nat n :: u64) * 10) = n * 10"
      using that n by (subst unat_mult_lem [THEN iffD1]) simp_all
    moreover have "unat (- 1 - of_nat k :: u64) = 2 ^ 64 - 1 - k"
      using k assms(1) by (subst unat_sub) (simp_all add: word_le_nat_alt unsigned_minus_1_eq_mask mask_eq_exp_minus_1)
    ultimately show ?thesis unfolding word_less_nat_alt by simp
  qed
  ultimately have ov: "of_nat n > (- 1 :: u64) div 10 \<or> (of_nat n :: u64) * 10 > - 1 - of_nat k \<longleftrightarrow> 2 ^ 64 \<le> n * 10 + k"
    using assms(1) by (cases "n \<le> (2 ^ 64 - 1) div 10") auto
  have z: "(of_nat n :: u64) = 0 \<longleftrightarrow> n = 0" using n unat_eq_0 [of "of_nat n :: u64"] by simp
  show ?thesis using dig ov z by simp
qed

lemma dec_text_big: "10 \<le> n \<Longrightarrow> dec_text n = dec_text (n div 10) @ [of_nat (48 + n mod 10)]"
  by (subst dec_text.simps) (rule if_not_P, simp)

lemma dec_text_small: "n < 10 \<Longrightarrow> dec_text n = [of_nat (48 + n)]"
  by (subst dec_text.simps) (rule if_P)

lemma dec_text_loop:
  assumes "n < 2 ^ 64"
  shows "u64_decimal_loop 0 False (dec_text n @ c) = u64_decimal_loop (of_nat n) True c"
  using assms
proof (induction n arbitrary: c rule: less_induct)
  case (less n)
  show ?case
  proof (cases "n < 10")
    case True
    then show ?thesis
      using u64_decimal_step [of n 0 False c] by (simp add: dec_text_small)
  next
    case False
    have lt: "n div 10 < n" "n div 10 < 2 ^ 64" "n mod 10 < 10" using False less.prems by simp_all
    have "u64_decimal_loop 0 False (dec_text (n div 10) @ of_nat (48 + n mod 10) # c) =
        u64_decimal_loop (of_nat (n div 10)) True (of_nat (48 + n mod 10) # c)"
      using lt by (intro less.IH)
    also have "\<dots> = u64_decimal_loop (of_nat (n div 10 * 10 + n mod 10)) True c"
    proof -
      have "\<not> ((n div 10 = 0 \<and> True) \<or> 2 ^ 64 \<le> n div 10 * 10 + n mod 10)"
        using False less.prems by (simp add: div_eq_0_iff)
      then show ?thesis by (simp only: u64_decimal_step [OF lt(3,2)] if_False)
    qed
    also have "n div 10 * 10 + n mod 10 = n" by simp
    finally show ?thesis using False by (simp add: dec_text_big)
  qed
qed

lemma u64_decimal_loop_stop: "digit_stop c \<Longrightarrow> u64_decimal_loop v True c = (Some v, c)"
  by (cases c) (simp_all add: digit_stop_def)

lemma u64_decimal_loop_Some:
  assumes "u64_decimal_loop (of_nat n) True c = (Some w, rest)" and "n < 2 ^ 64"
  shows "\<exists>ds. c = ds @ rest \<and> dec_text n @ ds = dec_text (unat w) \<and> digit_stop rest"
  using assms
proof (induction c arbitrary: n)
  case Nil
  then have "w = of_nat n" "rest = []" by simp_all
  then show ?case using unat_of_nat_u64 [OF Nil(2)] by (simp add: digit_stop_def)
next
  case (Cons b c)
  show ?case
  proof (cases "OPENSSL_isdigit b")
    case True
    then obtain k where k: "k < 10" "b = of_nat (48 + k)" by (rule isdigit_value)
    from Cons.prems(1) have nz: "n \<noteq> 0" and lt: "n * 10 + k < 2 ^ 64"
      and rec: "u64_decimal_loop (of_nat (n * 10 + k)) True c = (Some w, rest)"
      unfolding k(2) u64_decimal_step [OF k(1) Cons.prems(2)] by (auto simp: not_le split: if_splits)
    from Cons.IH [OF rec lt] obtain ds where ds: "c = ds @ rest" "dec_text (n * 10 + k) @ ds = dec_text (unat w)"
      "digit_stop rest" by blast
    have "(n * 10 + k) div 10 = n" "(n * 10 + k) mod 10 = k" using k(1) by simp_all
    then have "dec_text (n * 10 + k) = dec_text n @ [b]"
      using dec_text_big [of "n * 10 + k"] nz k(2) by simp
    then show ?thesis using ds by auto
  next
    case False
    with Cons.prems show ?thesis using unat_of_nat_u64 [of n] by (auto simp: digit_stop_def)
  qed
qed

lemma CBS_get_u64_decimal_iff:
  "CBS_get_u64_decimal c = (Some w, rest) \<longleftrightarrow> c = dec_text (unat w) @ rest \<and> digit_stop rest"
proof
  assume *: "CBS_get_u64_decimal c = (Some w, rest)"
  show "c = dec_text (unat w) @ rest \<and> digit_stop rest"
  proof (cases c)
    case Nil
    with * show ?thesis by (simp add: CBS_get_u64_decimal_def)
  next
    case (Cons b c')
    then have dig: "OPENSSL_isdigit b" using * by (auto simp: CBS_get_u64_decimal_def split: if_splits)
    then obtain k where k: "k < 10" "b = of_nat (48 + k)" by (rule isdigit_value)
    have "u64_decimal_loop (of_nat k) True c' = (Some w, rest)"
      using * u64_decimal_step [OF k(1), of 0 False c'] k by (simp add: CBS_get_u64_decimal_def Cons)
    from u64_decimal_loop_Some [OF this] k show ?thesis by (auto simp: Cons dec_text_small)
  qed
next
  assume "c = dec_text (unat w) @ rest \<and> digit_stop rest"
  then show "CBS_get_u64_decimal c = (Some w, rest)"
    using dec_text_loop [of "unat w" rest] unsigned_less [of w] u64_decimal_loop_stop
    by (simp add: CBS_get_u64_decimal_def)
qed

lemma parse_dotted_decimal_iff:
  "parse_dotted_decimal c = (Some v, rest) \<longleftrightarrow>
    (c = dec_text (unat v) \<and> rest = []) \<or> (c = dec_text (unat v) @ 0x2e # rest \<and> rest \<noteq> [])"
proof -
  have k: "(case CBS_get_u8 c1 of (None, c') \<Rightarrow> (Some v', c')
      | (Some dot, c') \<Rightarrow> if dot = 0x2e \<and> length c' > 0 then (Some v', c') else (None, c')) = (Some v, rest)
    \<longleftrightarrow> v' = v \<and> ((c1 = [] \<and> rest = []) \<or> (c1 = 0x2e # rest \<and> rest \<noteq> []))" for c1 v'
    by (cases c1) (auto simp: CBS_get_u8_def cbs_get_def cbs_bind_def cbs_ret_def)
  have dot: "digit_stop (0x2e # rest)" "digit_stop []" by (simp_all add: digit_stop_def OPENSSL_isdigit_def)
  show ?thesis
    unfolding parse_dotted_decimal_def cbs_bind_Some_iff CBS_get_u64_decimal_iff k using dot by auto
qed

section \<open>Text to encoding\<close>

lemma oid_text_ne: "arcs \<noteq> [] \<Longrightarrow> oid_text arcs \<noteq> []"
proof -
  have "dec_text n \<noteq> []" for n by (subst dec_text.simps) simp
  then show "arcs \<noteq> [] \<Longrightarrow> oid_text arcs \<noteq> []" by (cases arcs rule: oid_text.cases) simp_all
qed

lemma oid_text_Nil_iff [simp]: "oid_text arcs = [] \<longleftrightarrow> arcs = []"
  using oid_text_ne [of arcs] by auto

lemma oid_text_Cons:
  "oid_text (a # rest) = dec_text a @ (if rest = [] then [] else 0x2e # oid_text rest)"
  by (cases rest) simp_all

lemma parse_dotted_oid_text:
  assumes "a < 2 ^ 64"
  shows "parse_dotted_decimal (oid_text (a # rest)) = (Some (of_nat a), oid_text rest)"
  unfolding parse_dotted_decimal_iff unat_of_nat_u64 [OF assms]
  using oid_text_ne [of rest] by (cases rest) simp_all

lemma parse_dotted_Some:
  assumes "parse_dotted_decimal c = (Some v, c')"
  shows "\<And>arcs. c' = oid_text arcs \<Longrightarrow> c = oid_text (unat v # arcs)"
  using assms unfolding parse_dotted_decimal_iff by (auto simp: oid_text_Cons)

lemma oid_from_text_loop_Nil: "oid_from_text_loop alloc d [] = (\<lambda>s. (True, s))"
  by (rule ext) (simp add: oid_from_text_loop.simps)

lemma oid_from_text_loop_Cons:
  assumes "a < 2 ^ 64"
  shows "oid_from_text_loop alloc d (oid_text (a # rest)) =
    cbb_seq (add_base128_integer alloc d (of_nat a)) (oid_from_text_loop alloc d (oid_text rest))"
proof (rule ext)
  fix s
  have "length (oid_text (a # rest)) \<noteq> 0" using oid_text_ne [of "a # rest"] by simp
  then show "oid_from_text_loop alloc d (oid_text (a # rest)) s =
    cbb_seq (add_base128_integer alloc d (of_nat a)) (oid_from_text_loop alloc d (oid_text rest)) s"
    unfolding oid_from_text_loop.simps [of alloc d "oid_text (a # rest)"] parse_dotted_oid_text [OF assms]
    by (simp add: cbb_seq_def split: prod.split bool.split)
qed

lemma builds_oid_loop:
  "(\<forall>x \<in> set arcs. x < 2 ^ 64) \<Longrightarrow>
    builds_flat alloc (oid_from_text_loop alloc d (oid_text arcs)) d (concat (map base128 arcs))"
proof (induction arcs)
  case Nil
  then show ?case by (simp add: oid_from_text_loop_Nil builds_return)
next
  case (Cons a arcs)
  then have a: "a < 2 ^ 64" by simp
  have "builds_flat alloc (add_base128_integer alloc d (of_nat a)) d (base128 a)"
    using builds_base128 [of alloc d "of_nat a"] unat_of_nat_u64 [OF a] by simp
  with Cons show ?case by (simp add: oid_from_text_loop_Cons [OF a] builds_flat_seq del: oid_text.simps)
qed

lemma oid_first_arcs:
  assumes "a < 2 ^ 64" "b < 2 ^ 64"
  shows "\<not> ((of_nat a :: u64) > 2 \<or> ((of_nat a :: u64) < 2 \<and> (of_nat b :: u64) > 39) \<or> (of_nat b :: u64) > - 1 - 80)
    \<longleftrightarrow> a \<le> 2 \<and> (a < 2 \<longrightarrow> b < 40) \<and> b + 80 < 2 ^ 64"
proof -
  have a: "unat (of_nat a :: u64) = a" and b: "unat (of_nat b :: u64) = b"
    using assms by (simp_all only: unat_of_nat_u64)
  have mx: "unat (- 1 - 80 :: u64) = 2 ^ 64 - 81" by (simp add: unsigned_minus_1_eq_mask mask_eq_exp_minus_1)
  show ?thesis unfolding word_less_nat_alt mx a b by auto
qed

text \<open>
  The builder accepts exactly the dotted notations of identifiers whose components fit, and adds
  their encoding.
\<close>

lemma oid_ok_iff:
  "oid_ok (a # b # rest) \<longleftrightarrow>
    a \<le> 2 \<and> (a < 2 \<longrightarrow> b < 40) \<and> b + 80 < 2 ^ 64 \<and> (\<forall>x \<in> set rest. x < 2 ^ 64)"
  by (auto simp: oid_ok_def)

lemma builds_oid_from_text:
  assumes "oid_ok arcs"
  shows "builds alloc (CBB_add_asn1_oid_from_text alloc d (oid_text arcs)) d (oid_bytes arcs)"
proof -
  from assms obtain a b rest where arcs: "arcs = a # b # rest" by (auto simp: oid_ok_def)
  with assms have ok: "a \<le> 2" "a < 2 \<longrightarrow> b < 40" "b + 80 < 2 ^ 64" and rest: "\<forall>x \<in> set rest. x < 2 ^ 64"
    by (simp_all add: oid_ok_iff)
  then have a: "a < 2 ^ 64" and b: "b < 2 ^ 64" and ab: "40 * a + b < 2 ^ 64" by auto
  have first: "cbs_bind parse_dotted_decimal (\<lambda>a. cbs_bind parse_dotted_decimal (\<lambda>b. cbs_ret (a, b))) (oid_text arcs)
      = (Some (of_nat a, of_nat b), oid_text rest)"
    using parse_dotted_oid_text [OF a, of "b # rest"] parse_dotted_oid_text [OF b, of rest]
    by (simp add: arcs cbs_ret_def del: oid_text.simps)
  have sum: "40 * of_nat a + of_nat b = (of_nat (40 * a + b) :: u64)" by simp
  have "CBB_add_asn1_oid_from_text alloc d (oid_text arcs) =
    cbb_seq (CBB_flush alloc d) (cbb_seq (add_base128_integer alloc d (of_nat (40 * a + b)))
      (oid_from_text_loop alloc d (oid_text rest)))"
    unfolding CBB_add_asn1_oid_from_text_def first option.case prod.case sum
    using oid_first_arcs [OF a b] ok by (simp only: if_not_P)
  moreover have "builds_flat alloc (add_base128_integer alloc d (of_nat (40 * a + b))) d (base128 (40 * a + b))"
    using builds_base128 [of alloc d "of_nat (40 * a + b)"] unat_of_nat_u64 [OF ab] by (simp only:)
  ultimately show ?thesis
    using builds_seq_flat [OF builds_flush builds_flat_seq [OF _ builds_oid_loop [OF rest]]] by (simp add: arcs)
qed

lemma oid_from_text_loop_True:
  "oid_from_text_loop alloc d c s = (True, s') \<Longrightarrow> \<exists>arcs. c = oid_text arcs \<and> (\<forall>x \<in> set arcs. x < 2 ^ 64)"
proof (induction alloc d c s arbitrary: s' rule: oid_from_text_loop.induct)
  case (1 alloc d c s)
  show ?case
  proof (cases "length c = 0")
    case True
    then show ?thesis by (intro exI [of _ "[]"]) simp
  next
    case False
    with 1(2) obtain a c' s1 where p: "parse_dotted_decimal c = (Some a, c')"
      and s1: "add_base128_integer alloc d a s = (True, s1)" "oid_from_text_loop alloc d c' s1 = (True, s')"
      by (subst (asm) oid_from_text_loop.simps) (auto split: prod.splits option.splits bool.splits)
    from 1(1) [OF False p [symmetric] refl s1(1) [symmetric] refl s1(2)] obtain arcs
      where "c' = oid_text arcs" "\<forall>x \<in> set arcs. x < 2 ^ 64" by blast
    then show ?thesis
      using parse_dotted_Some [OF p] unsigned_less [of a] by (intro exI [of _ "unat a # arcs"]) simp
  qed
qed

lemma oid_from_text_True:
  assumes "CBB_add_asn1_oid_from_text alloc d text s = (True, s')"
  shows "\<exists>arcs. oid_ok arcs \<and> text = oid_text arcs"
proof -
  obtain a b c1 c s2 where
    a: "parse_dotted_decimal text = (Some a, c1)" and b: "parse_dotted_decimal c1 = (Some b, c)"
    and ok: "\<not> (a > 2 \<or> (a < 2 \<and> b > 39) \<or> b > - 1 - 80)"
    and loop: "oid_from_text_loop alloc d c s2 = (True, s')"
  proof -
    let ?two = "cbs_bind parse_dotted_decimal (\<lambda>a. cbs_bind parse_dotted_decimal (\<lambda>b. cbs_ret (a, b))) text"
    from assms obtain s1 where s1: "(case ?two of (None, _) \<Rightarrow> (False, s1)
        | (Some (a, b), c) \<Rightarrow>
            if a > 2 \<or> (a < 2 \<and> b > 39) \<or> b > - 1 - 80 then (False, s1)
            else cbb_seq (add_base128_integer alloc d (40 * a + b)) (oid_from_text_loop alloc d c) s1) = (True, s')"
      unfolding CBB_add_asn1_oid_from_text_def cbb_seq_def [of "CBB_flush alloc d"]
      by (cases "CBB_flush alloc d s"; cases "fst (CBB_flush alloc d s)") auto
    then obtain a b c where two: "?two = (Some (a, b), c)"
      by (cases ?two; cases "fst ?two") auto
    with s1 have ok: "\<not> (a > 2 \<or> (a < 2 \<and> b > 39) \<or> b > - 1 - 80)"
      and seq: "cbb_seq (add_base128_integer alloc d (40 * a + b)) (oid_from_text_loop alloc d c) s1 = (True, s')"
      by (simp_all split: if_split_asm)
    from seq obtain s2 where "oid_from_text_loop alloc d c s2 = (True, s')"
      by (auto simp: cbb_seq_def split: prod.splits if_splits)
    moreover from two obtain c1 where "parse_dotted_decimal text = (Some a, c1)" "parse_dotted_decimal c1 = (Some b, c)"
      by (auto simp: cbs_bind_Some_iff)
    ultimately show ?thesis using that ok by blast
  qed
  from oid_from_text_loop_True [OF loop] obtain rest where rest: "c = oid_text rest" "\<forall>x \<in> set rest. x < 2 ^ 64"
    by blast
  have tx: "text = oid_text (unat a # unat b # rest)"
    using parse_dotted_Some [OF b rest(1)] parse_dotted_Some [OF a] by blast
  have "oid_ok (unat a # unat b # rest)"
    using oid_first_arcs [of "unat a" "unat b"] unsigned_less [of a] unsigned_less [of b] ok rest
    by (simp add: oid_ok_iff)
  with tx show ?thesis by blast
qed

section \<open>Encoding to text\<close>

lemma builds_decimal:
  "length (dec_text (unat v)) < 2 ^ 64 \<Longrightarrow> builds alloc (add_decimal alloc d v) d (dec_text (unat v))"
  unfolding add_decimal_def by (rule builds_bytes)

lemma length_dec_text: "n < 10 ^ Suc k \<Longrightarrow> length (dec_text n) \<le> Suc k"
proof (induction k arbitrary: n)
  case 0
  then show ?case by (simp add: dec_text_small)
next
  case (Suc k)
  show ?case
  proof (cases "n < 10")
    case False
    then show ?thesis using Suc.IH [of "n div 10"] Suc.prems by (simp add: dec_text_big less_mult_imp_div_less)
  qed (simp add: dec_text_small)
qed

lemma length_dec_text_u64: "length (dec_text (unat (v :: u64))) < 2 ^ 64"
proof -
  have "unat v < 2 ^ 64" using unsigned_less [of v] by simp
  then have "unat v < 10 ^ Suc 19" by simp
  from length_dec_text [OF this] show ?thesis by simp
qed

definition dotted :: "nat list \<Rightarrow> bytes" where
  "dotted arcs = concat (map (\<lambda>x. 0x2e # dec_text x) arcs)"

lemma oid_text_dotted: "oid_text (a # rest) = dec_text a @ dotted rest"
proof (induction rest arbitrary: a)
  case Nil
  then show ?case by (simp add: dotted_def)
next
  case (Cons b rest)
  then show ?case by (simp add: dotted_def)
qed

lemma oid_text_loop_Nil: "oid_text_loop alloc [] = (\<lambda>s. (True, s))"
  by (rule ext) (simp add: oid_text_loop.simps)

lemma base128_ne [simp]: "base128 n \<noteq> []"
  by (simp add: base128_def)

lemma oid_text_loop_Cons:
  assumes "a < 2 ^ 64"
  shows "oid_text_loop alloc (base128 a @ c) =
    cbb_seq (cbb_seq (CBB_add_u8 alloc 0 0x2e) (add_decimal alloc 0 (of_nat a))) (oid_text_loop alloc c)"
proof (rule ext)
  fix s
  have "parse_base128_integer (base128 a @ c) = (Some (of_nat a), c)"
    unfolding parse_base128_integer_iff unat_of_nat_u64 [OF assms] ..
  then show "oid_text_loop alloc (base128 a @ c) s =
    cbb_seq (cbb_seq (CBB_add_u8 alloc 0 0x2e) (add_decimal alloc 0 (of_nat a))) (oid_text_loop alloc c) s"
    by (subst oid_text_loop.simps)
      (simp add: cbb_seq_def [of "cbb_seq (CBB_add_u8 alloc 0 0x2e) (add_decimal alloc 0 (of_nat a))"]
        split: prod.split bool.split)
qed

lemma builds_oid_text_loop:
  "(\<forall>x \<in> set arcs. x < 2 ^ 64) \<Longrightarrow>
    builds_flat alloc (oid_text_loop alloc (concat (map base128 arcs))) 0 (dotted arcs)"
proof (induction arcs)
  case Nil
  then show ?case by (simp add: oid_text_loop_Nil builds_return dotted_def)
next
  case (Cons a arcs)
  then have a: "a < 2 ^ 64" by simp
  have "builds alloc (add_decimal alloc 0 (of_nat a)) 0 (dec_text a)"
    using builds_decimal [OF length_dec_text_u64, of alloc 0 "of_nat a"] unat_of_nat_u64 [OF a] by (simp only:)
  then have "builds_flat alloc (cbb_seq (CBB_add_u8 alloc 0 0x2e) (add_decimal alloc 0 (of_nat a))) 0 ([0x2e] @ dec_text a)"
    by (intro builds_flat_seq builds_flatI builds_u8)
  from builds_flat_seq [OF this Cons.IH] Cons.prems show ?case
    by (simp add: oid_text_loop_Cons [OF a] dotted_def)
qed

text \<open>The two components that the first number of an encoding stands for.\<close>

definition first_arcs :: "nat \<Rightarrow> nat \<times> nat" where
  "first_arcs n = (if 80 \<le> n then (2, n - 80) else (n div 40, n mod 40))"

lemma first_arcs_sum:
  assumes "a \<le> 2" and "a < 2 \<longrightarrow> b < 40"
  shows "first_arcs (40 * a + b) = (a, b)"
proof -
  consider "a = 0" | "a = 1" | "a = 2" using assms(1) by linarith
  then show ?thesis using assms(2) by cases (auto simp: first_arcs_def)
qed

lemma builds_oid_text_first:
  assumes "first_arcs (unat v) = (a, b)"
  shows "builds alloc (oid_text_first alloc v) 0 (dec_text a @ dotted [b])"
proof (cases "80 \<le> unat v")
  case True
  then have ge: "v \<ge> 80" and u: "unat (v - 80) = unat v - 80"
    by (simp_all add: word_le_nat_alt unat_sub)
  have ab: "a = 2" "b = unat v - 80" using assms True by (simp_all add: first_arcs_def)
  have "builds alloc (cbb_seq (CBB_add_bytes alloc 0 [0x32, 0x2e]) (add_decimal alloc 0 (v - 80))) 0
      ([0x32, 0x2e] @ dec_text (unat (v - 80)))"
    by (intro builds_seq builds_bytes builds_decimal length_dec_text_u64) simp
  then show ?thesis using ge by (simp add: oid_text_first_def u ab dotted_def dec_text_small)
next
  case False
  then have lt: "\<not> v \<ge> 80" by (simp add: word_le_nat_alt)
  have ab: "a = unat (v div 40)" "b = unat (v mod 40)"
    using assms False by (simp_all add: first_arcs_def unat_div unat_mod)
  have "builds alloc (cbb_seq (add_decimal alloc 0 (v div 40))
      (cbb_seq (CBB_add_u8 alloc 0 0x2e) (add_decimal alloc 0 (v mod 40)))) 0
      (dec_text (unat (v div 40)) @ [0x2e] @ dec_text (unat (v mod 40)))"
    by (intro builds_seq builds_u8 builds_decimal length_dec_text_u64)
  then show ?thesis using lt unfolding oid_text_first_def ab by (simp add: dotted_def)
qed

lemma oid_text_loop_True:
  "oid_text_loop alloc c s = (True, s') \<Longrightarrow>
    \<exists>arcs. c = concat (map base128 arcs) \<and> (\<forall>x \<in> set arcs. x < 2 ^ 64)"
proof (induction alloc c s arbitrary: s' rule: oid_text_loop.induct)
  case (1 alloc c s)
  show ?case
  proof (cases "length c = 0")
    case True
    then show ?thesis by (intro exI [of _ "[]"]) simp
  next
    case False
    with 1(2) obtain a c' s1 where p: "parse_base128_integer c = (Some a, c')"
      and s1: "cbb_seq (CBB_add_u8 alloc 0 0x2e) (add_decimal alloc 0 a) s = (True, s1)"
        "oid_text_loop alloc c' s1 = (True, s')"
      by (subst (asm) oid_text_loop.simps) (auto split: prod.splits option.splits bool.splits)
    from 1(1) [OF False p [symmetric] refl s1(1) [symmetric] refl s1(2)] obtain arcs
      where "c' = concat (map base128 arcs)" "\<forall>x \<in> set arcs. x < 2 ^ 64" by blast
    moreover have "c = base128 (unat a) @ c'" using p by (simp add: parse_base128_integer_iff)
    ultimately show ?thesis
      using unsigned_less [of a] by (intro exI [of _ "unat a # arcs"]) simp
  qed
qed

text \<open>The operation of \<open>CBS_asn1_oid_to_text\<close> on a fresh builder.\<close>

lemma builds_oid_to_text:
  assumes "first_arcs (unat v) = (a, b)" and "\<forall>x \<in> set rest. x < 2 ^ 64"
  shows "builds alloc (cbb_seq (oid_text_first alloc v)
      (cbb_seq (oid_text_loop alloc (concat (map base128 rest))) (CBB_add_u8 alloc 0 0))) 0
      (oid_text (a # b # rest) @ [0])"
proof -
  have "builds alloc (cbb_seq (oid_text_first alloc v)
      (cbb_seq (oid_text_loop alloc (concat (map base128 rest))) (CBB_add_u8 alloc 0 0))) 0
      ((dec_text a @ dotted [b]) @ dotted rest @ [0])"
    by (intro builds_seq_flat builds_flat_seq builds_oid_text_first builds_oid_text_loop builds_flatI builds_u8 assms)
  moreover have "(dec_text a @ dotted [b]) @ dotted rest @ [0] = oid_text (a # b # rest) @ [0]"
    unfolding oid_text_dotted by (simp add: dotted_def)
  ultimately show ?thesis by (simp only:)
qed

lemma first_arcs_ok:
  assumes "first_arcs (unat (v :: u64)) = (a, b)" and "\<forall>x \<in> set rest. x < 2 ^ 64"
  shows "oid_ok (a # b # rest)" and "40 * a + b = unat v"
proof -
  have lt: "unat v < 2 ^ 64" using unsigned_less [of v] by simp
  have "a \<le> 2 \<and> (a < 2 \<longrightarrow> b < 40) \<and> b + 80 < 2 ^ 64 \<and> 40 * a + b = unat v"
  proof (cases "80 \<le> unat v")
    case True
    then show ?thesis using assms(1) lt by (auto simp: first_arcs_def)
  next
    case False
    then have ab: "a = unat v div 40" "b = unat v mod 40" using assms(1) by (auto simp: first_arcs_def)
    have "a < 2" unfolding ab(1) by (rule less_mult_imp_div_less) (use False in simp)
    moreover have "b < 40" unfolding ab(2) by simp
    moreover have "40 * a + b = unat v" unfolding ab by simp
    ultimately show ?thesis by simp
  qed
  then show "oid_ok (a # b # rest)" "40 * a + b = unat v" using assms(2) by (simp_all add: oid_ok_iff)
qed

lemma oid_to_text_sound:
  assumes "CBS_asn1_oid_to_text alloc c = Some t"
  shows "\<exists>arcs. oid_ok arcs \<and> c = oid_bytes arcs \<and> t = oid_text arcs @ [0]"
proof -
  from assms obtain s where init: "CBB_init alloc 32 = Some s"
    by (auto simp: CBS_asn1_oid_to_text_def split: option.splits)
  let ?op = "\<lambda>v copy. cbb_seq (oid_text_first alloc v) (cbb_seq (oid_text_loop alloc copy) (CBB_add_u8 alloc 0 0))"
  from assms obtain v copy where p: "parse_base128_integer c = (Some v, copy)"
    unfolding CBS_asn1_oid_to_text_def init
    by (cases "parse_base128_integer c"; cases "fst (parse_base128_integer c)") auto
  with assms obtain s' where op: "?op v copy s = (True, s')" and fin: "CBB_finish alloc 0 True s' = Some t"
    unfolding CBS_asn1_oid_to_text_def init p by (auto split: prod.splits bool.splits)
  from op obtain s1 s2 where "oid_text_loop alloc copy s1 = (True, s2)"
    by (auto simp: cbb_seq_def split: prod.splits if_splits)
  from oid_text_loop_True [OF this] obtain rest where copy: "copy = concat (map base128 rest)"
    and rest: "\<forall>x \<in> set rest. x < 2 ^ 64" by blast
  obtain a b where ab: "first_arcs (unat v) = (a, b)" by fastforce
  have "CBB_finish alloc 0 True s' = Some (oid_text (a # b # rest) @ [0])"
    using builds_finish [OF builds_oid_to_text [OF ab rest] rep_init [OF init]] op copy by simp
  moreover have "c = oid_bytes (a # b # rest)"
    using p copy first_arcs_ok(2) [OF ab rest] by (simp add: parse_base128_integer_iff)
  ultimately show ?thesis using fin first_arcs_ok(1) [OF ab rest] by auto
qed

lemma oid_to_text_complete:
  assumes ok: "oid_ok arcs" and alloc: "\<forall>n. alloc n" and len: "length (oid_text arcs) + 1 < 2 ^ 64"
  shows "CBS_asn1_oid_to_text alloc (oid_bytes arcs) = Some (oid_text arcs @ [0])"
proof -
  from ok obtain a b rest where arcs: "arcs = a # b # rest" by (auto simp: oid_ok_def)
  with ok have ab: "a \<le> 2" "a < 2 \<longrightarrow> b < 40" "b + 80 < 2 ^ 64" and rest: "\<forall>x \<in> set rest. x < 2 ^ 64"
    by (simp_all add: oid_ok_iff)
  define v where "v = (of_nat (40 * a + b) :: u64)"
  have v: "unat v = 40 * a + b" unfolding v_def by (rule unat_of_nat_u64) (use ab in simp)
  then have fa: "first_arcs (unat v) = (a, b)" using first_arcs_sum [OF ab(1,2)] by simp
  obtain s where init: "CBB_init alloc 32 = Some s" using alloc by (simp add: CBB_init_def)
  have p: "parse_base128_integer (oid_bytes arcs) = (Some v, concat (map base128 rest))"
    by (simp add: parse_base128_integer_iff v arcs)
  obtain s' where "cbb_seq (oid_text_first alloc v)
      (cbb_seq (oid_text_loop alloc (concat (map base128 rest))) (CBB_add_u8 alloc 0 0)) s = (True, s')"
    and "CBB_finish alloc 0 True s' = Some (oid_text (a # b # rest) @ [0])"
    by (rule builds_fresh_ok [OF builds_oid_to_text [OF fa rest] init _ alloc])
      (use len in \<open>simp_all add: arcs del: oid_text.simps\<close>)
  then show ?thesis unfolding CBS_asn1_oid_to_text_def init p option.case prod.case by (simp add: arcs)
qed

end
