(* ===== verification/SetOf.thy ===== *)
theory SetOf
  imports Cbb "HOL-Library.List_Lexorder" "HOL-Library.Multiset"
begin

text \<open>
  \<open>CBB_flush_asn1_set_of\<close> of \<open>cbb.c\<close>: the elements that were written to a SET OF are put into the
  order that DER requires.
\<close>

text \<open>The sign of \<open>memcmp\<close> on blocks of one length is that of the first difference.\<close>

fun OPENSSL_memcmp :: "bytes \<Rightarrow> bytes \<Rightarrow> int" where
  "OPENSSL_memcmp (a # as) (b # bs) =
     (if a < b then - 1 else if b < a then 1 else OPENSSL_memcmp as bs)"
| "OPENSSL_memcmp _ _ = 0"

definition compare_set_of_element :: "cbs \<Rightarrow> cbs \<Rightarrow> int" where
  "compare_set_of_element a b =
     (let min_len = (if length a < length b then length a else length b);
          ret = OPENSSL_memcmp (take min_len a) (take min_len b)
      in if ret \<noteq> 0 then ret
         else if length a = length b then 0
         else if length a < length b then - 1 else 1)"

text \<open>
  \<open>qsort\<close> of the C library with a comparison function.  Elements that compare equal are equal here,
  so that the order it may give them does not matter.
\<close>

fun qsort_insert :: "('a \<Rightarrow> 'a \<Rightarrow> int) \<Rightarrow> 'a \<Rightarrow> 'a list \<Rightarrow> 'a list" where
  "qsort_insert cmp x [] = [x]"
| "qsort_insert cmp x (y # ys) = (if cmp x y \<le> 0 then x # y # ys else y # qsort_insert cmp x ys)"

definition qsort :: "('a \<Rightarrow> 'a \<Rightarrow> int) \<Rightarrow> 'a list \<Rightarrow> 'a list" where
  "qsort cmp xs = foldr (qsort_insert cmp) xs []"

lemma get_any_asn1_element_shorter:
  "CBS_get_any_asn1_element c = (Some el, c') \<Longrightarrow> length c' < length c"
proof -
  assume "CBS_get_any_asn1_element c = (Some el, c')"
  then obtain tag content where "c = der tag content @ c'" by (auto simp: any_asn1_element_iff)
  then show ?thesis by (simp add: der_def der_header_def der_tag_def)
qed

text \<open>The elements that the loops over \<open>CBS_get_any_asn1_element\<close> find in the content.\<close>

function set_of_children :: "cbs \<Rightarrow> cbs list option" where
  "set_of_children c =
     (if length c = 0 then Some []
      else case CBS_get_any_asn1_element c of
        (None, _) \<Rightarrow> None
      | (Some el, c') \<Rightarrow> map_option (\<lambda>es. el_out el # es) (set_of_children c'))"
  by pat_completeness auto
termination
  by (relation "measure length") (auto dest!: get_any_asn1_element_shorter [OF sym])

declare set_of_children.simps [simp del]

abbreviation sizeof_CBS :: nat where "sizeof_CBS \<equiv> 16"

definition CBB_flush_asn1_set_of :: "(nat \<Rightarrow> bool) \<Rightarrow> nat \<Rightarrow> cbb_op" where
  "CBB_flush_asn1_set_of alloc d = cbb_seq (CBB_flush alloc d) (\<lambda>s.
     case set_of_children (CBB_data d s) of
       None \<Rightarrow> (False, s)
     | Some es \<Rightarrow>
         let num_children = length es; buf_len = CBB_len d s
         in if num_children < 2 then (True, s)
            else if num_children > SIZE_MAX div sizeof_CBS then (False, s)
            else if \<not> alloc buf_len \<or> \<not> alloc (num_children * sizeof_CBS) then (False, s)
            else (True, s\<lparr>buf := take (length (buf s) - buf_len) (buf s)
                              @ concat (qsort compare_set_of_element es)\<rparr>))"

section \<open>The order\<close>

lemma compare_prefix:
  "length as = length bs \<Longrightarrow> OPENSSL_memcmp as bs < 0 \<longleftrightarrow> as < bs"
  "length as = length bs \<Longrightarrow> OPENSSL_memcmp as bs = 0 \<longleftrightarrow> as = bs"
  by (induction as bs rule: OPENSSL_memcmp.induct) (auto simp: not_less)

lemma compare_set_of_le: "compare_set_of_element a b \<le> 0 \<longleftrightarrow> a \<le> b"
proof (induction a arbitrary: b)
  case Nil
  then show ?case by (cases b) (auto simp: compare_set_of_element_def Let_def)
next
  case (Cons x a)
  show ?case
  proof (cases b)
    case Nil
    then show ?thesis by (simp add: compare_set_of_element_def Let_def)
  next
    case (Cons y b')
    have "compare_set_of_element (x # a) (y # b') =
      (if x < y then - 1 else if y < x then 1 else compare_set_of_element a b')"
      by (simp add: compare_set_of_element_def Let_def)
    then show ?thesis using Cons.IH [of b'] Cons by (auto simp: not_less)
  qed
qed

lemma qsort_insert_eq: "qsort_insert compare_set_of_element x ys = insort x ys"
  by (induction ys) (simp_all add: compare_set_of_le)

lemma qsort_eq_sort: "qsort compare_set_of_element xs = sort xs"
  by (simp add: qsort_def sort_key_def qsort_insert_eq [abs_def])

lemma set_of_children_Some:
  "set_of_children c = Some es \<Longrightarrow> c = concat es \<and>
     (\<forall>e \<in> set es. \<exists>tag x. tag_ok tag \<and> length x < 2 ^ 32 \<and> e = der tag x)"
proof (induction c arbitrary: es rule: set_of_children.induct)
  case (1 c)
  show ?case
  proof (cases "length c = 0")
    case True
    then show ?thesis using 1(2) by (simp add: set_of_children.simps)
  next
    case False
    with 1(2) obtain el c' es' where el: "CBS_get_any_asn1_element c = (Some el, c')"
      and es: "set_of_children c' = Some es'" "es = el_out el # es'"
      by (subst (asm) set_of_children.simps) (auto split: prod.splits option.splits)
    from el obtain tag x where "tag_ok tag" "length x < 2 ^ 32" "c = der tag x @ c'" "el_out el = der tag x"
      by (auto simp: any_asn1_element_iff der_element_def)
    with 1(1) [OF False el [symmetric] refl es(1)] es(2) show ?thesis by auto
  qed
qed

lemma set_of_children_concat:
  "(\<forall>e \<in> set es. \<exists>tag x. tag_ok tag \<and> length x < 2 ^ 32 \<and> e = der tag x) \<Longrightarrow> set_of_children (concat es) = Some es"
proof (induction es)
  case Nil
  then show ?case by (simp add: set_of_children.simps)
next
  case (Cons e es)
  then obtain tag x where e: "tag_ok tag" "length x < 2 ^ 32" "e = der tag x" by auto
  have "CBS_get_any_asn1_element (e @ concat es) = (Some (der_element tag x), concat es)"
    unfolding e(3) by (rule any_asn1_element_of_der [OF e(1,2)])
  moreover have "length (e @ concat es) \<noteq> 0" by (simp add: e der_def der_header_def der_tag_def)
  ultimately show ?case using Cons e
    by (subst set_of_children.simps) (simp add: der_element_def)
qed

text \<open>
  On success, the content of the SET OF is its elements in ascending order of their encodings, and
  nothing else of the buffer has changed.
\<close>

lemma buf_CBB_data: "take (length (buf s) - CBB_len d s) (buf s) @ CBB_data d s = buf s"
proof -
  have "take (length b - (length b - n)) b @ drop n b = b" for b :: bytes and n
    by (cases "n \<le> length b") simp_all
  then show ?thesis by (simp add: CBB_data_def CBB_len_def Let_def diff_diff_left)
qed

lemma sort_short: "length es < 2 \<Longrightarrow> sort es = es"
  by (cases es rule: list.exhaust; cases "tl es") auto

lemma flush_set_of_sorts:
  assumes flush: "CBB_flush alloc d s = (True, s1)" and ok: "CBB_flush_asn1_set_of alloc d s = (True, s')"
  shows "\<exists>es. set_of_children (CBB_data d s1) = Some es \<and>
    s' = s1\<lparr>buf := take (length (buf s1) - CBB_len d s1) (buf s1) @ concat (sort es)\<rparr>"
proof -
  from ok flush obtain es where es: "set_of_children (CBB_data d s1) = Some es"
    and s': "s' = s1 \<and> length es < 2 \<or>
      s' = s1\<lparr>buf := take (length (buf s1) - CBB_len d s1) (buf s1) @ concat (sort es)\<rparr>"
    by (auto simp: CBB_flush_asn1_set_of_def cbb_seq_def Let_def qsort_eq_sort
        split: option.splits if_splits)
  have "concat es = CBB_data d s1" using set_of_children_Some [OF es] by simp
  with s' show ?thesis by (auto simp: es sort_short buf_CBB_data)
qed

lemma flush_set_of_refuses:
  assumes "CBB_flush alloc d s = (True, s1)"
    and "\<nexists>es. CBB_data d s1 = concat es \<and> (\<forall>e \<in> set es. \<exists>tag x. tag_ok tag \<and> length x < 2 ^ 32 \<and> e = der tag x)"
  shows "\<not> fst (CBB_flush_asn1_set_of alloc d s)"
proof -
  have "set_of_children (CBB_data d s1) = None"
    using assms(2) set_of_children_Some by (cases "set_of_children (CBB_data d s1)") blast+
  then show ?thesis using assms(1) by (simp add: CBB_flush_asn1_set_of_def cbb_seq_def)
qed

end
