(* ===== verification/Unicode.thy ===== *)
theory Unicode
  imports Cbb
begin

text \<open>
  \<open>crypto/bytestring/unicode.c\<close>: reading and writing one code point in UTF-8, Latin-1, UCS-2 and
  UTF-32.
\<close>

definition is_valid_code_point :: "u32 \<Rightarrow> bool" where
  "is_valid_code_point v \<longleftrightarrow>
     \<not> (v > 0x10ffff \<or> v AND 0xfffe = 0xfffe \<or> (v \<ge> 0xfdd0 \<and> v \<le> 0xfdef) \<or> (v \<ge> 0xd800 \<and> v \<le> 0xdfff))"

definition BOTTOM_BITS :: "nat \<Rightarrow> u8" where
  "BOTTOM_BITS n = push_bit n 1 - 1"

definition TOP_BITS :: "nat \<Rightarrow> u8" where
  "TOP_BITS n = NOT (BOTTOM_BITS (8 - n))"

fun utf8_continue :: "nat \<Rightarrow> u32 \<Rightarrow> u32 cbs_op" where
  "utf8_continue 0 v c = (Some v, c)"
| "utf8_continue (Suc n) v c =
     (case CBS_get_u8 c of
        (None, c') \<Rightarrow> (None, c')
      | (Some b, c') \<Rightarrow>
          if b AND TOP_BITS 2 \<noteq> TOP_BITS 1 then (None, c')
          else utf8_continue n (push_bit 6 v OR ucast (b AND BOTTOM_BITS 6)) c')"

definition utf8_rest :: "u32 \<Rightarrow> nat \<Rightarrow> u32 \<Rightarrow> u32 cbs_op" where
  "utf8_rest v len lower_bound = cbs_bind (utf8_continue len v) (\<lambda>v.
     if \<not> is_valid_code_point v \<or> v < lower_bound then cbs_fail else cbs_ret v)"

definition cbs_get_utf8 :: "u32 cbs_op" where
  "cbs_get_utf8 = cbs_bind CBS_get_u8 (\<lambda>c.
     if c \<le> 0x7f then cbs_ret (ucast c)
     else if c AND TOP_BITS 3 = TOP_BITS 2 then utf8_rest (ucast (c AND BOTTOM_BITS 5)) 1 0x80
     else if c AND TOP_BITS 4 = TOP_BITS 3 then utf8_rest (ucast (c AND BOTTOM_BITS 4)) 2 0x800
     else if c AND TOP_BITS 5 = TOP_BITS 4 then utf8_rest (ucast (c AND BOTTOM_BITS 3)) 3 0x10000
     else cbs_fail)"

definition cbs_get_latin1 :: "u32 cbs_op" where
  "cbs_get_latin1 = cbs_bind CBS_get_u8 (\<lambda>c. cbs_ret (ucast c))"

definition cbs_get_ucs2_be :: "u32 cbs_op" where
  "cbs_get_ucs2_be = cbs_bind CBS_get_u16 (\<lambda>c.
     if \<not> is_valid_code_point (ucast c) then cbs_fail else cbs_ret (ucast c))"

definition cbs_get_utf32_be :: "u32 cbs_op" where
  "cbs_get_utf32_be = cbs_bind CBS_get_u32 (\<lambda>v.
     if is_valid_code_point v then cbs_ret v else cbs_fail)"

definition cbb_get_utf8_len :: "u32 \<Rightarrow> nat" where
  "cbb_get_utf8_len u = (if u \<le> 0x7f then 1 else if u \<le> 0x7ff then 2 else if u \<le> 0xffff then 3 else 4)"

definition cbb_add_utf8 :: "(nat \<Rightarrow> bool) \<Rightarrow> nat \<Rightarrow> u32 \<Rightarrow> cbb_op" where
  "cbb_add_utf8 alloc d u =
     (if \<not> is_valid_code_point u then cbb_fail
      else if u \<le> 0x7f then CBB_add_u8 alloc d (ucast u)
      else if u \<le> 0x7ff then
        cbb_seq (CBB_add_u8 alloc d (ucast (ucast (TOP_BITS 2) OR drop_bit 6 u)))
          (CBB_add_u8 alloc d (ucast (ucast (TOP_BITS 1) OR (u AND ucast (BOTTOM_BITS 6)))))
      else if u \<le> 0xffff then
        cbb_seq (CBB_add_u8 alloc d (ucast (ucast (TOP_BITS 3) OR drop_bit 12 u)))
          (cbb_seq (CBB_add_u8 alloc d (ucast (ucast (TOP_BITS 1) OR (drop_bit 6 u AND ucast (BOTTOM_BITS 6)))))
            (CBB_add_u8 alloc d (ucast (ucast (TOP_BITS 1) OR (u AND ucast (BOTTOM_BITS 6))))))
      else if u \<le> 0x10ffff then
        cbb_seq (CBB_add_u8 alloc d (ucast (ucast (TOP_BITS 4) OR drop_bit 18 u)))
          (cbb_seq (CBB_add_u8 alloc d (ucast (ucast (TOP_BITS 1) OR (drop_bit 12 u AND ucast (BOTTOM_BITS 6)))))
            (cbb_seq (CBB_add_u8 alloc d (ucast (ucast (TOP_BITS 1) OR (drop_bit 6 u AND ucast (BOTTOM_BITS 6)))))
              (CBB_add_u8 alloc d (ucast (ucast (TOP_BITS 1) OR (u AND ucast (BOTTOM_BITS 6)))))))
      else cbb_fail)"

definition cbb_add_latin1 :: "(nat \<Rightarrow> bool) \<Rightarrow> nat \<Rightarrow> u32 \<Rightarrow> cbb_op" where
  "cbb_add_latin1 alloc d u = (if u \<le> 0xff then CBB_add_u8 alloc d (ucast u) else cbb_fail)"

definition cbb_add_ucs2_be :: "(nat \<Rightarrow> bool) \<Rightarrow> nat \<Rightarrow> u32 \<Rightarrow> cbb_op" where
  "cbb_add_ucs2_be alloc d u =
     (if u \<le> 0xffff \<and> is_valid_code_point u then CBB_add_u16 alloc d (ucast u) else cbb_fail)"

definition cbb_add_utf32_be :: "(nat \<Rightarrow> bool) \<Rightarrow> nat \<Rightarrow> u32 \<Rightarrow> cbb_op" where
  "cbb_add_utf32_be alloc d u = (if is_valid_code_point u then CBB_add_u32 alloc d u else cbb_fail)"

section \<open>UTF-8\<close>

text \<open>The encoding of a code point, from the table of the Unicode standard.\<close>

definition utf8 :: "nat \<Rightarrow> bytes" where
  "utf8 n = map of_nat
     (if n \<le> 0x7f then [n]
      else if n \<le> 0x7ff then [0xc0 + n div 64, 0x80 + n mod 64]
      else if n \<le> 0xffff then [0xe0 + n div 4096, 0x80 + n div 64 mod 64, 0x80 + n mod 64]
      else [0xf0 + n div 262144, 0x80 + n div 4096 mod 64, 0x80 + n div 64 mod 64, 0x80 + n mod 64])"

lemma unat_and_top:
  assumes "j \<le> 8"
  shows "unat (b AND TOP_BITS (8 - j) :: u8) = unat b div 2 ^ j * 2 ^ j"
proof -
  have "TOP_BITS (8 - j) = NOT (mask j)" using assms by (simp add: TOP_BITS_def BOTTOM_BITS_def mask_eq_exp_minus_1)
  moreover have "b AND NOT (mask j) = push_bit j (drop_bit j b)"
    by (rule bit_word_eqI) (auto simp: bit_simps)
  moreover have "unat b div 2 ^ j * 2 ^ j \<le> unat b" by (rule div_times_less_eq_dividend)
  then have "unat b div 2 ^ j * 2 ^ j < 256" using unat_u8_lt by (rule le_less_trans)
  then have "unat (push_bit j (drop_bit j b)) = unat b div 2 ^ j * 2 ^ j"
    by (subst unat_push_bit_small) (simp_all add: unat_drop_bit)
  ultimately show ?thesis by simp
qed

lemma top_bits_eq:
  assumes "j \<le> 8" and "unat v = k * 2 ^ j"
  shows "b AND TOP_BITS (8 - j) = v \<longleftrightarrow> k * 2 ^ j \<le> unat b \<and> unat b < (k + 1) * 2 ^ j"
proof -
  have "b AND TOP_BITS (8 - j) = v \<longleftrightarrow> unat b div 2 ^ j * 2 ^ j = k * 2 ^ j"
    using unat_and_top [OF assms(1), of b] assms(2) by (metis unsigned_word_eqI)
  also have "\<dots> \<longleftrightarrow> unat b div 2 ^ j = k" by simp
  also have "\<dots> \<longleftrightarrow> k * 2 ^ j \<le> unat b \<and> unat b < (k + 1) * 2 ^ j"
    by (metis div_nat_eqI div_times_less_eq_dividend dividend_less_div_times add.commute mult.commute
        Suc_eq_plus1 mult_Suc zero_less_numeral zero_less_power)
  finally show ?thesis .
qed

lemma lead_bytes:
  "b AND TOP_BITS 2 = TOP_BITS 1 \<longleftrightarrow> 0x80 \<le> unat b \<and> unat b < 0xc0"
  "b AND TOP_BITS 3 = TOP_BITS 2 \<longleftrightarrow> 0xc0 \<le> unat b \<and> unat b < 0xe0"
  "b AND TOP_BITS 4 = TOP_BITS 3 \<longleftrightarrow> 0xe0 \<le> unat b \<and> unat b < 0xf0"
  "b AND TOP_BITS 5 = TOP_BITS 4 \<longleftrightarrow> 0xf0 \<le> unat b \<and> unat b < 0xf8"
proof -
  have t: "unat (TOP_BITS 1) = 2 * 2 ^ 6" "unat (TOP_BITS 2) = 6 * 2 ^ 5" "unat (TOP_BITS 3) = 14 * 2 ^ 4"
    "unat (TOP_BITS 4) = 30 * 2 ^ 3"
    by code_simp+
  show "b AND TOP_BITS 2 = TOP_BITS 1 \<longleftrightarrow> 0x80 \<le> unat b \<and> unat b < 0xc0"
    using top_bits_eq [of 6, OF _ t(1), of b] by simp
  show "b AND TOP_BITS 3 = TOP_BITS 2 \<longleftrightarrow> 0xc0 \<le> unat b \<and> unat b < 0xe0"
    using top_bits_eq [of 5, OF _ t(2), of b] by simp
  show "b AND TOP_BITS 4 = TOP_BITS 3 \<longleftrightarrow> 0xe0 \<le> unat b \<and> unat b < 0xf0"
    using top_bits_eq [of 4, OF _ t(3), of b] by simp
  show "b AND TOP_BITS 5 = TOP_BITS 4 \<longleftrightarrow> 0xf0 \<le> unat b \<and> unat b < 0xf8"
    using top_bits_eq [of 3, OF _ t(4), of b] by simp
qed

lemma unat_and_bottom: "unat (b AND BOTTOM_BITS j :: u8) = unat b mod 2 ^ j"
proof -
  have "BOTTOM_BITS j = mask j" by (simp add: BOTTOM_BITS_def mask_eq_exp_minus_1)
  moreover have "unat (take_bit j b) = take_bit j (unat b)" by (rule unsigned_take_bit_eq)
  ultimately show ?thesis by (simp only: take_bit_eq_mod flip: take_bit_eq_mask)
qed

text \<open>The continuation bytes, as base-64 digits.\<close>

definition cont_bytes :: "nat list \<Rightarrow> bytes" where
  "cont_bytes ds = map (\<lambda>d. of_nat (0x80 + d)) ds"

definition cont_value :: "nat \<Rightarrow> nat list \<Rightarrow> nat" where
  "cont_value v ds = foldl (\<lambda>v d. v * 64 + d) v ds"

lemma utf8_continue_step:
  assumes "unat v < 2 ^ 26"
  shows "unat (push_bit 6 v OR ucast (b AND BOTTOM_BITS 6 :: u8) :: u32) = unat v * 64 + unat b mod 64"
proof -
  have x: "unat (ucast (b AND BOTTOM_BITS 6) :: u32) = unat b mod 64"
    by (simp add: unat_ucast_u8 unat_and_bottom)
  have "unat (push_bit 6 v OR ucast (b AND BOTTOM_BITS 6)) = unat v * 2 ^ 6 + unat (ucast (b AND BOTTOM_BITS 6) :: u32)"
    by (rule unat_shift_or) (use assms x in simp_all)
  then show ?thesis by (simp add: x)
qed

lemma utf8_continue_iff:
  assumes "(unat v + 1) * 64 ^ n \<le> 2 ^ 32"
  shows "utf8_continue n v c = (Some w, rest) \<longleftrightarrow>
    (\<exists>ds. length ds = n \<and> (\<forall>d \<in> set ds. d < 64) \<and> c = cont_bytes ds @ rest \<and> unat w = cont_value (unat v) ds)"
  using assms
proof (induction n arbitrary: v c)
  case 0
  have "v = w \<longleftrightarrow> unat w = unat v" by (metis unsigned_word_eqI)
  then show ?case by (auto simp: cont_bytes_def cont_value_def)
next
  case (Suc n)
  have "(unat v + 1) * 64 * 1 \<le> (unat v + 1) * 64 * 64 ^ n" by (intro mult_left_mono) simp_all
  also have "\<dots> = (unat v + 1) * 64 ^ Suc n" by (simp only: power_Suc mult.assoc)
  finally have "(unat v + 1) * 64 * 1 \<le> 2 ^ 32" using Suc.prems by (rule le_trans)
  then have v: "unat v < 2 ^ 26" by simp
  show ?case
  proof (cases c)
    case Nil
    have "\<And>ds. length ds = Suc n \<Longrightarrow> cont_bytes ds \<noteq> []" by (auto simp: cont_bytes_def)
    with Nil show ?thesis by (auto simp: CBS_get_u8_def cbs_get_def cbs_bind_def)
  next
    case (Cons b c')
    let ?v = "push_bit 6 v OR ucast (b AND BOTTOM_BITS 6) :: u32"
    have u8: "CBS_get_u8 (b # c') = (Some b, c')" by (simp add: CBS_get_u8_Some_iff)
    note step = utf8_continue_step [OF v, of b]
    show ?thesis
    proof (cases "0x80 \<le> unat b \<and> unat b < 0xc0")
      case True
      define d where "d = unat b - 0x80"
      have d: "d < 64" "b = of_nat (0x80 + d)" using True by (auto simp: d_def intro!: word_of_natI)
      have "unat b = d + 2 * 64" using True by (simp add: d_def)
      then have "unat b mod 64 = d mod 64" by (simp only: mod_mult_self1)
      then have uv: "unat ?v = unat v * 64 + d" using step d(1) by simp
      have "(unat ?v + 1) * 64 ^ n \<le> (unat v + 1) * 64 * 64 ^ n"
        unfolding uv using d(1) by (intro mult_right_mono) simp_all
      also have "\<dots> = (unat v + 1) * 64 ^ Suc n" by (simp only: power_Suc mult.assoc)
      finally have "(unat ?v + 1) * 64 ^ n \<le> 2 ^ 32" using Suc.prems by (rule le_trans)
      note IH = Suc.IH [OF this, of c']
      have "utf8_continue (Suc n) v c = utf8_continue n ?v c'"
        using True by (simp add: Cons u8 lead_bytes(1) [unfolded One_nat_def])
      moreover have "(\<exists>ds. length ds = n \<and> (\<forall>d \<in> set ds. d < 64) \<and> c' = cont_bytes ds @ rest \<and> unat w = cont_value (unat ?v) ds)
        \<longleftrightarrow> (\<exists>ds. length ds = Suc n \<and> (\<forall>d \<in> set ds. d < 64) \<and> c = cont_bytes ds @ rest \<and> unat w = cont_value (unat v) ds)"
        (is "?A \<longleftrightarrow> ?B")
      proof
        assume ?A
        then obtain ds where "length ds = n" "\<forall>d \<in> set ds. d < 64" "c' = cont_bytes ds @ rest" "unat w = cont_value (unat ?v) ds"
          by blast
        then show ?B using d uv by (intro exI [of _ "d # ds"]) (simp add: Cons cont_bytes_def cont_value_def)
      next
        assume ?B
        then obtain e ds where ds: "length ds = n" "\<forall>d \<in> set (e # ds). d < 64" "c = cont_bytes (e # ds) @ rest"
          "unat w = cont_value (unat v) (e # ds)" by (auto simp: length_Suc_conv)
        then have "b = of_nat (0x80 + e)" "e < 64" by (simp_all add: Cons cont_bytes_def)
        then have "e = d" using d_def unat_of_nat_u8 [of "0x80 + e"] by simp
        with ds uv show ?A by (intro exI [of _ ds]) (simp add: Cons cont_bytes_def cont_value_def)
      qed
      ultimately show ?thesis using IH by (simp only:)
    next
      case False
      have "utf8_continue (Suc n) v c = (None, c')" using False by (auto simp: Cons u8 lead_bytes(1) [unfolded One_nat_def])
      moreover have False if "length ds = Suc n" "\<forall>d \<in> set ds. d < 64" "c = cont_bytes ds @ rest" for ds
      proof -
        from that obtain e es where "ds = e # es" "e < 64" "b = of_nat (0x80 + e)"
          by (cases ds) (auto simp: Cons cont_bytes_def)
        then have "unat b = 0x80 + e" by (simp only: unat_of_nat_u8)
        with \<open>e < 64\<close> False show False by simp
      qed
      ultimately show ?thesis by auto
    qed
  qed
qed

lemma utf8_rest_iff:
  assumes "(unat v + 1) * 64 ^ n \<le> 2 ^ 32"
  shows "utf8_rest v n lb c = (Some w, rest) \<longleftrightarrow> is_valid_code_point w \<and> lb \<le> w \<and>
    (\<exists>ds. length ds = n \<and> (\<forall>d \<in> set ds. d < 64) \<and> c = cont_bytes ds @ rest \<and> unat w = cont_value (unat v) ds)"
  unfolding utf8_rest_def cbs_bind_Some_iff utf8_continue_iff [OF assms] by (auto simp: not_less)

text \<open>The digits of a code point of each length.\<close>

lemma digits64: "(d :: nat) < 64 \<Longrightarrow> (v * 64 + d) div 64 = v \<and> (v * 64 + d) mod 64 = d"
  by simp

lemma digits64_2: "d < 64 \<Longrightarrow> e < 64 \<Longrightarrow> ((v * 64 + d) * 64 + e) div 4096 = (v :: nat)"
proof -
  assume "d < 64" "e < 64"
  then have "((v * 64 + d) * 64 + e) div 64 div 64 = v" by simp
  then show ?thesis by (simp add: div_mult2_eq [symmetric])
qed

lemma digits64_3: "d < 64 \<Longrightarrow> e < 64 \<Longrightarrow> f < 64 \<Longrightarrow> (((v * 64 + d) * 64 + e) * 64 + f) div 262144 = (v :: nat)"
proof -
  assume "d < 64" "e < 64" "f < 64"
  then have "(((v * 64 + d) * 64 + e) * 64 + f) div 64 div 64 div 64 = v" by simp
  then show ?thesis by (simp add: div_mult2_eq [symmetric])
qed

end
