(* ===== verification/QuicheTypes.thy ===== *)
theory QuicheTypes
  imports Prelude
begin

text \<open>
  The types and constants of \<open>quiche/include/quiche.h\<close>: the error codes of the transport and of
  HTTP/3, the enumerations, and the structures the C interface fills in.  A \<open>size_t\<close> is a \<open>nat\<close>,
  an \<open>ssize_t\<close> or \<open>int\<close> an \<open>int\<close>, a \<open>uint64_t\<close> a 64-bit word; a socket address together with its
  \<open>socklen_t\<close> is the byte string of that length.
\<close>

type_synonym sockaddr = bytes

definition QUICHE_PROTOCOL_VERSION :: u32 where
  "QUICHE_PROTOCOL_VERSION = 0x00000001"

definition QUICHE_MAX_CONN_ID_LEN :: nat where
  "QUICHE_MAX_CONN_ID_LEN = 20"

definition QUICHE_MIN_CLIENT_INITIAL_LEN :: nat where
  "QUICHE_MIN_CLIENT_INITIAL_LEN = 1200"

subsection \<open>Transport errors\<close>

datatype quiche_error =
    QUICHE_ERR_DONE
  | QUICHE_ERR_BUFFER_TOO_SHORT
  | QUICHE_ERR_UNKNOWN_VERSION
  | QUICHE_ERR_INVALID_FRAME
  | QUICHE_ERR_INVALID_PACKET
  | QUICHE_ERR_INVALID_STATE
  | QUICHE_ERR_INVALID_STREAM_STATE
  | QUICHE_ERR_INVALID_TRANSPORT_PARAM
  | QUICHE_ERR_CRYPTO_FAIL
  | QUICHE_ERR_TLS_FAIL
  | QUICHE_ERR_FLOW_CONTROL
  | QUICHE_ERR_STREAM_LIMIT
  | QUICHE_ERR_STREAM_STOPPED
  | QUICHE_ERR_STREAM_RESET
  | QUICHE_ERR_FINAL_SIZE
  | QUICHE_ERR_CONGESTION_CONTROL
  | QUICHE_ERR_ID_LIMIT
  | QUICHE_ERR_OUT_OF_IDENTIFIERS
  | QUICHE_ERR_KEY_UPDATE
  | QUICHE_ERR_CRYPTO_BUFFER_EXCEEDED
  | QUICHE_ERR_INVALID_ACK_RANGE
  | QUICHE_ERR_OPTIMISTIC_ACK_DETECTED
  | QUICHE_ERR_INVALID_DCID_INITIALIZATION

fun quiche_error_code :: "quiche_error \<Rightarrow> int" where
  "quiche_error_code QUICHE_ERR_DONE = - 1"
| "quiche_error_code QUICHE_ERR_BUFFER_TOO_SHORT = - 2"
| "quiche_error_code QUICHE_ERR_UNKNOWN_VERSION = - 3"
| "quiche_error_code QUICHE_ERR_INVALID_FRAME = - 4"
| "quiche_error_code QUICHE_ERR_INVALID_PACKET = - 5"
| "quiche_error_code QUICHE_ERR_INVALID_STATE = - 6"
| "quiche_error_code QUICHE_ERR_INVALID_STREAM_STATE = - 7"
| "quiche_error_code QUICHE_ERR_INVALID_TRANSPORT_PARAM = - 8"
| "quiche_error_code QUICHE_ERR_CRYPTO_FAIL = - 9"
| "quiche_error_code QUICHE_ERR_TLS_FAIL = - 10"
| "quiche_error_code QUICHE_ERR_FLOW_CONTROL = - 11"
| "quiche_error_code QUICHE_ERR_STREAM_LIMIT = - 12"
| "quiche_error_code QUICHE_ERR_STREAM_STOPPED = - 15"
| "quiche_error_code QUICHE_ERR_STREAM_RESET = - 16"
| "quiche_error_code QUICHE_ERR_FINAL_SIZE = - 13"
| "quiche_error_code QUICHE_ERR_CONGESTION_CONTROL = - 14"
| "quiche_error_code QUICHE_ERR_ID_LIMIT = - 17"
| "quiche_error_code QUICHE_ERR_OUT_OF_IDENTIFIERS = - 18"
| "quiche_error_code QUICHE_ERR_KEY_UPDATE = - 19"
| "quiche_error_code QUICHE_ERR_CRYPTO_BUFFER_EXCEEDED = - 20"
| "quiche_error_code QUICHE_ERR_INVALID_ACK_RANGE = - 21"
| "quiche_error_code QUICHE_ERR_OPTIMISTIC_ACK_DETECTED = - 22"
| "quiche_error_code QUICHE_ERR_INVALID_DCID_INITIALIZATION = - 23"

subsection \<open>Enumerations\<close>

datatype quiche_cc_algorithm = QUICHE_CC_RENO | QUICHE_CC_CUBIC | QUICHE_CC_BBR2_GCONGESTION

fun quiche_cc_algorithm_value :: "quiche_cc_algorithm \<Rightarrow> int" where
  "quiche_cc_algorithm_value QUICHE_CC_RENO = 0"
| "quiche_cc_algorithm_value QUICHE_CC_CUBIC = 1"
| "quiche_cc_algorithm_value QUICHE_CC_BBR2_GCONGESTION = 4"

datatype quiche_shutdown = QUICHE_SHUTDOWN_READ | QUICHE_SHUTDOWN_WRITE

datatype quiche_path_event_type =
    QUICHE_PATH_EVENT_NEW
  | QUICHE_PATH_EVENT_VALIDATED
  | QUICHE_PATH_EVENT_FAILED_VALIDATION
  | QUICHE_PATH_EVENT_CLOSED
  | QUICHE_PATH_EVENT_REUSED_SOURCE_CONNECTION_ID
  | QUICHE_PATH_EVENT_PEER_MIGRATED

datatype quiche_h3_event_type =
    QUICHE_H3_EVENT_HEADERS
  | QUICHE_H3_EVENT_DATA
  | QUICHE_H3_EVENT_FINISHED
  | QUICHE_H3_EVENT_GOAWAY
  | QUICHE_H3_EVENT_RESET
  | QUICHE_H3_EVENT_PRIORITY_UPDATE

subsection \<open>HTTP/3 errors\<close>

text \<open>
  The transport errors that HTTP/3 passes on have codes of their own, the transport code less 1000.
\<close>

datatype quiche_h3_error =
    QUICHE_H3_ERR_DONE
  | QUICHE_H3_ERR_BUFFER_TOO_SHORT
  | QUICHE_H3_ERR_INTERNAL_ERROR
  | QUICHE_H3_ERR_EXCESSIVE_LOAD
  | QUICHE_H3_ERR_ID_ERROR
  | QUICHE_H3_ERR_STREAM_CREATION_ERROR
  | QUICHE_H3_ERR_CLOSED_CRITICAL_STREAM
  | QUICHE_H3_ERR_MISSING_SETTINGS
  | QUICHE_H3_ERR_FRAME_UNEXPECTED
  | QUICHE_H3_ERR_FRAME_ERROR
  | QUICHE_H3_ERR_QPACK_DECOMPRESSION_FAILED
  | QUICHE_H3_ERR_STREAM_BLOCKED
  | QUICHE_H3_ERR_SETTINGS_ERROR
  | QUICHE_H3_ERR_REQUEST_REJECTED
  | QUICHE_H3_ERR_REQUEST_CANCELLED
  | QUICHE_H3_ERR_REQUEST_INCOMPLETE
  | QUICHE_H3_ERR_MESSAGE_ERROR
  | QUICHE_H3_ERR_CONNECT_ERROR
  | QUICHE_H3_ERR_VERSION_FALLBACK
  | QUICHE_H3_TRANSPORT_ERR_DONE
  | QUICHE_H3_TRANSPORT_ERR_BUFFER_TOO_SHORT
  | QUICHE_H3_TRANSPORT_ERR_UNKNOWN_VERSION
  | QUICHE_H3_TRANSPORT_ERR_INVALID_FRAME
  | QUICHE_H3_TRANSPORT_ERR_INVALID_PACKET
  | QUICHE_H3_TRANSPORT_ERR_INVALID_STATE
  | QUICHE_H3_TRANSPORT_ERR_INVALID_STREAM_STATE
  | QUICHE_H3_TRANSPORT_ERR_INVALID_TRANSPORT_PARAM
  | QUICHE_H3_TRANSPORT_ERR_CRYPTO_FAIL
  | QUICHE_H3_TRANSPORT_ERR_TLS_FAIL
  | QUICHE_H3_TRANSPORT_ERR_FLOW_CONTROL
  | QUICHE_H3_TRANSPORT_ERR_STREAM_LIMIT
  | QUICHE_H3_TRANSPORT_ERR_STREAM_STOPPED
  | QUICHE_H3_TRANSPORT_ERR_STREAM_RESET
  | QUICHE_H3_TRANSPORT_ERR_FINAL_SIZE
  | QUICHE_H3_TRANSPORT_ERR_CONGESTION_CONTROL
  | QUICHE_H3_TRANSPORT_ERR_ID_LIMIT
  | QUICHE_H3_TRANSPORT_ERR_OUT_OF_IDENTIFIERS
  | QUICHE_H3_TRANSPORT_ERR_KEY_UPDATE
  | QUICHE_H3_TRANSPORT_ERR_CRYPTO_BUFFER_EXCEEDED
  | QUICHE_H3_TRANSPORT_ERR_INVALID_ACK_RANGE
  | QUICHE_H3_TRANSPORT_ERR_OPTIMISTIC_ACK_DETECTED

fun quiche_h3_error_code :: "quiche_h3_error \<Rightarrow> int" where
  "quiche_h3_error_code QUICHE_H3_ERR_DONE = - 1"
| "quiche_h3_error_code QUICHE_H3_ERR_BUFFER_TOO_SHORT = - 2"
| "quiche_h3_error_code QUICHE_H3_ERR_INTERNAL_ERROR = - 3"
| "quiche_h3_error_code QUICHE_H3_ERR_EXCESSIVE_LOAD = - 4"
| "quiche_h3_error_code QUICHE_H3_ERR_ID_ERROR = - 5"
| "quiche_h3_error_code QUICHE_H3_ERR_STREAM_CREATION_ERROR = - 6"
| "quiche_h3_error_code QUICHE_H3_ERR_CLOSED_CRITICAL_STREAM = - 7"
| "quiche_h3_error_code QUICHE_H3_ERR_MISSING_SETTINGS = - 8"
| "quiche_h3_error_code QUICHE_H3_ERR_FRAME_UNEXPECTED = - 9"
| "quiche_h3_error_code QUICHE_H3_ERR_FRAME_ERROR = - 10"
| "quiche_h3_error_code QUICHE_H3_ERR_QPACK_DECOMPRESSION_FAILED = - 11"
| "quiche_h3_error_code QUICHE_H3_ERR_STREAM_BLOCKED = - 13"
| "quiche_h3_error_code QUICHE_H3_ERR_SETTINGS_ERROR = - 14"
| "quiche_h3_error_code QUICHE_H3_ERR_REQUEST_REJECTED = - 15"
| "quiche_h3_error_code QUICHE_H3_ERR_REQUEST_CANCELLED = - 16"
| "quiche_h3_error_code QUICHE_H3_ERR_REQUEST_INCOMPLETE = - 17"
| "quiche_h3_error_code QUICHE_H3_ERR_MESSAGE_ERROR = - 18"
| "quiche_h3_error_code QUICHE_H3_ERR_CONNECT_ERROR = - 19"
| "quiche_h3_error_code QUICHE_H3_ERR_VERSION_FALLBACK = - 20"
| "quiche_h3_error_code QUICHE_H3_TRANSPORT_ERR_DONE = quiche_error_code QUICHE_ERR_DONE - 1000"
| "quiche_h3_error_code QUICHE_H3_TRANSPORT_ERR_BUFFER_TOO_SHORT = quiche_error_code QUICHE_ERR_BUFFER_TOO_SHORT - 1000"
| "quiche_h3_error_code QUICHE_H3_TRANSPORT_ERR_UNKNOWN_VERSION = quiche_error_code QUICHE_ERR_UNKNOWN_VERSION - 1000"
| "quiche_h3_error_code QUICHE_H3_TRANSPORT_ERR_INVALID_FRAME = quiche_error_code QUICHE_ERR_INVALID_FRAME - 1000"
| "quiche_h3_error_code QUICHE_H3_TRANSPORT_ERR_INVALID_PACKET = quiche_error_code QUICHE_ERR_INVALID_PACKET - 1000"
| "quiche_h3_error_code QUICHE_H3_TRANSPORT_ERR_INVALID_STATE = quiche_error_code QUICHE_ERR_INVALID_STATE - 1000"
| "quiche_h3_error_code QUICHE_H3_TRANSPORT_ERR_INVALID_STREAM_STATE = quiche_error_code QUICHE_ERR_INVALID_STREAM_STATE - 1000"
| "quiche_h3_error_code QUICHE_H3_TRANSPORT_ERR_INVALID_TRANSPORT_PARAM = quiche_error_code QUICHE_ERR_INVALID_TRANSPORT_PARAM - 1000"
| "quiche_h3_error_code QUICHE_H3_TRANSPORT_ERR_CRYPTO_FAIL = quiche_error_code QUICHE_ERR_CRYPTO_FAIL - 1000"
| "quiche_h3_error_code QUICHE_H3_TRANSPORT_ERR_TLS_FAIL = quiche_error_code QUICHE_ERR_TLS_FAIL - 1000"
| "quiche_h3_error_code QUICHE_H3_TRANSPORT_ERR_FLOW_CONTROL = quiche_error_code QUICHE_ERR_FLOW_CONTROL - 1000"
| "quiche_h3_error_code QUICHE_H3_TRANSPORT_ERR_STREAM_LIMIT = quiche_error_code QUICHE_ERR_STREAM_LIMIT - 1000"
| "quiche_h3_error_code QUICHE_H3_TRANSPORT_ERR_STREAM_STOPPED = quiche_error_code QUICHE_ERR_STREAM_STOPPED - 1000"
| "quiche_h3_error_code QUICHE_H3_TRANSPORT_ERR_STREAM_RESET = quiche_error_code QUICHE_ERR_STREAM_RESET - 1000"
| "quiche_h3_error_code QUICHE_H3_TRANSPORT_ERR_FINAL_SIZE = quiche_error_code QUICHE_ERR_FINAL_SIZE - 1000"
| "quiche_h3_error_code QUICHE_H3_TRANSPORT_ERR_CONGESTION_CONTROL = quiche_error_code QUICHE_ERR_CONGESTION_CONTROL - 1000"
| "quiche_h3_error_code QUICHE_H3_TRANSPORT_ERR_ID_LIMIT = quiche_error_code QUICHE_ERR_ID_LIMIT - 1000"
| "quiche_h3_error_code QUICHE_H3_TRANSPORT_ERR_OUT_OF_IDENTIFIERS = quiche_error_code QUICHE_ERR_OUT_OF_IDENTIFIERS - 1000"
| "quiche_h3_error_code QUICHE_H3_TRANSPORT_ERR_KEY_UPDATE = quiche_error_code QUICHE_ERR_KEY_UPDATE - 1000"
| "quiche_h3_error_code QUICHE_H3_TRANSPORT_ERR_CRYPTO_BUFFER_EXCEEDED = quiche_error_code QUICHE_ERR_CRYPTO_BUFFER_EXCEEDED - 1000"
| "quiche_h3_error_code QUICHE_H3_TRANSPORT_ERR_INVALID_ACK_RANGE = quiche_error_code QUICHE_ERR_INVALID_ACK_RANGE - 1000"
| "quiche_h3_error_code QUICHE_H3_TRANSPORT_ERR_OPTIMISTIC_ACK_DETECTED = quiche_error_code QUICHE_ERR_OPTIMISTIC_ACK_DETECTED - 1000"

subsection \<open>Structures\<close>

record quiche_recv_info =
  recv_from :: sockaddr
  recv_to :: sockaddr

record quiche_send_info =
  send_from :: sockaddr
  send_to :: sockaddr
  send_at :: "int \<times> int"

record quiche_stats =
  stats_recv :: nat
  stats_sent :: nat
  stats_lost :: nat
  stats_spurious_lost :: nat
  stats_retrans :: nat
  stats_sent_bytes :: u64
  stats_recv_bytes :: u64
  stats_acked_bytes :: u64
  stats_lost_bytes :: u64
  stats_stream_retrans_bytes :: u64
  stats_dgram_recv :: nat
  stats_dgram_sent :: nat
  stats_paths_count :: nat
  stats_reset_stream_count_local :: u64
  stats_stopped_stream_count_local :: u64
  stats_reset_stream_count_remote :: u64
  stats_stopped_stream_count_remote :: u64
  stats_data_blocked_sent_count :: u64
  stats_stream_data_blocked_sent_count :: u64
  stats_data_blocked_recv_count :: u64
  stats_stream_data_blocked_recv_count :: u64
  stats_streams_blocked_bidi_recv_count :: u64
  stats_streams_blocked_uni_recv_count :: u64
  stats_path_challenge_rx_count :: u64
  stats_bytes_in_flight_duration_msec :: u64
  stats_tx_buffered_inconsistent :: bool

record quiche_transport_params =
  peer_max_idle_timeout :: u64
  peer_max_udp_payload_size :: u64
  peer_initial_max_data :: u64
  peer_initial_max_stream_data_bidi_local :: u64
  peer_initial_max_stream_data_bidi_remote :: u64
  peer_initial_max_stream_data_uni :: u64
  peer_initial_max_streams_bidi :: u64
  peer_initial_max_streams_uni :: u64
  peer_ack_delay_exponent :: u64
  peer_max_ack_delay :: u64
  peer_disable_active_migration :: bool
  peer_active_conn_id_limit :: u64
  peer_max_datagram_frame_size :: int

record quiche_path_stats =
  path_local_addr :: sockaddr
  path_peer_addr :: sockaddr
  path_validation_state :: int
  path_active :: bool
  path_recv :: nat
  path_sent :: nat
  path_lost :: nat
  path_retrans :: nat
  path_total_pto_count :: nat
  path_dgram_recv :: nat
  path_dgram_sent :: nat
  path_rtt :: u64
  path_min_rtt :: u64
  path_max_rtt :: u64
  path_rttvar :: u64
  path_cwnd :: nat
  path_sent_bytes :: u64
  path_recv_bytes :: u64
  path_lost_bytes :: u64
  path_stream_retrans_bytes :: u64
  path_pmtu :: nat
  path_delivery_rate :: u64
  path_max_bandwidth :: u64
  path_startup_exit_cwnd :: u64

record quiche_h3_header =
  h3_name :: bytes
  h3_value :: bytes

record quiche_h3_priority =
  urgency :: u8
  incremental :: bool

record quiche_h3_stats =
  qpack_encoder_stream_recv_bytes :: u64
  qpack_decoder_stream_recv_bytes :: u64

definition QUICHE_H3_APPLICATION_PROTOCOL :: bytes where
  "QUICHE_H3_APPLICATION_PROTOCOL = [0x02, 0x68, 0x33]"

subsection \<open>The configuration object\<close>

text \<open>
  \<open>quiche_config\<close> is opaque in the header: the object is the version it was created with and the
  calls made on it since, in order, one constructor of \<open>config_call\<close> per function that takes the
  object and changes it.  A buffer and its length are one byte string.
\<close>

datatype config_call =
    quiche_config_load_cert_chain_from_pem_file string
  | quiche_config_load_priv_key_from_pem_file string
  | quiche_config_load_verify_locations_from_file string
  | quiche_config_load_verify_locations_from_directory string
  | quiche_config_verify_peer bool
  | quiche_config_grease bool
  | quiche_config_discover_pmtu bool
  | quiche_config_log_keys
  | quiche_config_enable_early_data
  | quiche_config_set_application_protos bytes
  | quiche_config_set_max_amplification_factor nat
  | quiche_config_set_max_idle_timeout u64
  | quiche_config_set_max_recv_udp_payload_size nat
  | quiche_config_set_max_send_udp_payload_size nat
  | quiche_config_set_initial_max_data u64
  | quiche_config_set_initial_max_stream_data_bidi_local u64
  | quiche_config_set_initial_max_stream_data_bidi_remote u64
  | quiche_config_set_initial_max_stream_data_uni u64
  | quiche_config_set_initial_max_streams_bidi u64
  | quiche_config_set_initial_max_streams_uni u64
  | quiche_config_set_ack_delay_exponent u64
  | quiche_config_set_max_ack_delay u64
  | quiche_config_set_disable_active_migration bool
  | quiche_config_set_cc_algorithm_name string
  | quiche_config_set_initial_congestion_window_packets nat
  | quiche_config_set_cc_algorithm quiche_cc_algorithm
  | quiche_config_enable_hystart bool
  | quiche_config_enable_pacing bool
  | quiche_config_set_enable_cubic_idle_restart_fix bool
  | quiche_config_set_use_initial_max_data_as_flow_control_win bool
  | quiche_config_set_max_pacing_rate u64
  | quiche_config_enable_dgram bool nat nat
  | quiche_config_set_max_connection_window u64
  | quiche_config_set_max_stream_window u64
  | quiche_config_set_active_connection_id_limit u64
  | quiche_config_set_stateless_reset_token bytes
  | quiche_config_set_disable_dcid_reuse bool
  | quiche_config_set_ticket_key bytes

record quiche_config =
  config_version :: u32
  config_calls :: "config_call list"

definition config_apply :: "config_call list \<Rightarrow> quiche_config \<Rightarrow> quiche_config" where
  "config_apply cs g = g\<lparr>config_calls := config_calls g @ cs\<rparr>"

text \<open>\<open>quiche_h3_config\<close>, in the same way; the programs never change the defaults.\<close>

datatype h3_config_call =
    quiche_h3_config_set_max_field_section_size u64
  | quiche_h3_config_set_qpack_max_table_capacity u64
  | quiche_h3_config_set_qpack_blocked_streams u64
  | quiche_h3_config_enable_extended_connect bool
  | quiche_h3_config_set_max_priority_update_size u64

type_synonym quiche_h3_config = "h3_config_call list"

subsection \<open>Error codes tell errors apart\<close>

lemma quiche_error_code_bounds: "- 23 \<le> quiche_error_code e \<and> quiche_error_code e \<le> - 1"
  by (cases e) simp_all

lemma quiche_error_code_neg [simp]: "quiche_error_code e < 0"
  by (cases e) simp_all

text \<open>The code of an error, read back.\<close>

definition quiche_errors :: "quiche_error list" where
  "quiche_errors = [QUICHE_ERR_DONE, QUICHE_ERR_BUFFER_TOO_SHORT, QUICHE_ERR_UNKNOWN_VERSION,
     QUICHE_ERR_INVALID_FRAME, QUICHE_ERR_INVALID_PACKET, QUICHE_ERR_INVALID_STATE,
     QUICHE_ERR_INVALID_STREAM_STATE, QUICHE_ERR_INVALID_TRANSPORT_PARAM, QUICHE_ERR_CRYPTO_FAIL,
     QUICHE_ERR_TLS_FAIL, QUICHE_ERR_FLOW_CONTROL, QUICHE_ERR_STREAM_LIMIT, QUICHE_ERR_FINAL_SIZE,
     QUICHE_ERR_CONGESTION_CONTROL, QUICHE_ERR_STREAM_STOPPED, QUICHE_ERR_STREAM_RESET,
     QUICHE_ERR_ID_LIMIT, QUICHE_ERR_OUT_OF_IDENTIFIERS, QUICHE_ERR_KEY_UPDATE,
     QUICHE_ERR_CRYPTO_BUFFER_EXCEEDED, QUICHE_ERR_INVALID_ACK_RANGE,
     QUICHE_ERR_OPTIMISTIC_ACK_DETECTED, QUICHE_ERR_INVALID_DCID_INITIALIZATION]"

definition quiche_error_of_code :: "int \<Rightarrow> quiche_error option" where
  "quiche_error_of_code n = find (\<lambda>e. quiche_error_code e = n) quiche_errors"

lemma quiche_error_of_code: "quiche_error_of_code (quiche_error_code e) = Some e"
  by (cases e) (simp_all add: quiche_error_of_code_def quiche_errors_def)

lemma inj_quiche_error_code: "inj quiche_error_code"
  by (rule inj_on_inverseI [of _ "the \<circ> quiche_error_of_code"]) (simp add: quiche_error_of_code)

lemma quiche_error_of_code_Some_iff: "quiche_error_of_code n = Some e \<longleftrightarrow> n = quiche_error_code e"
  by (auto simp: quiche_error_of_code) (auto simp: quiche_error_of_code_def find_Some_iff)

lemma quiche_error_of_code_range: "quiche_error_of_code n \<noteq> None \<longleftrightarrow> - 23 \<le> n \<and> n \<le> - 1"
proof
  assume "quiche_error_of_code n \<noteq> None"
  then obtain e where "n = quiche_error_code e" by (auto simp: quiche_error_of_code_Some_iff)
  then show "- 23 \<le> n \<and> n \<le> - 1" using quiche_error_code_bounds by simp
next
  assume "- 23 \<le> n \<and> n \<le> - 1"
  then have "n \<in> set [- 23 .. - 1]" by simp
  moreover have "[- 23 .. - 1] = rev (map quiche_error_code quiche_errors)" by code_simp
  ultimately have "n \<in> quiche_error_code ` set quiche_errors" by (simp only: set_rev set_map)
  then show "quiche_error_of_code n \<noteq> None"
    by (auto simp: quiche_error_of_code)
qed

text \<open>The HTTP/3 error a transport error is passed on as: every one but the newest has a constant.\<close>

definition h3_of_transport :: "quiche_error \<Rightarrow> int" where
  "h3_of_transport e = quiche_error_code e - 1000"

lemma quiche_h3_error_code_bounds: "- 1022 \<le> quiche_h3_error_code e \<and> quiche_h3_error_code e \<le> - 1"
  by (cases e) simp_all

definition quiche_h3_errors :: "quiche_h3_error list" where
  "quiche_h3_errors =
     [QUICHE_H3_ERR_DONE, QUICHE_H3_ERR_BUFFER_TOO_SHORT, QUICHE_H3_ERR_INTERNAL_ERROR,
      QUICHE_H3_ERR_EXCESSIVE_LOAD, QUICHE_H3_ERR_ID_ERROR,
      QUICHE_H3_ERR_STREAM_CREATION_ERROR, QUICHE_H3_ERR_CLOSED_CRITICAL_STREAM,
      QUICHE_H3_ERR_MISSING_SETTINGS, QUICHE_H3_ERR_FRAME_UNEXPECTED,
      QUICHE_H3_ERR_FRAME_ERROR, QUICHE_H3_ERR_QPACK_DECOMPRESSION_FAILED,
      QUICHE_H3_ERR_STREAM_BLOCKED, QUICHE_H3_ERR_SETTINGS_ERROR,
      QUICHE_H3_ERR_REQUEST_REJECTED, QUICHE_H3_ERR_REQUEST_CANCELLED,
      QUICHE_H3_ERR_REQUEST_INCOMPLETE, QUICHE_H3_ERR_MESSAGE_ERROR,
      QUICHE_H3_ERR_CONNECT_ERROR, QUICHE_H3_ERR_VERSION_FALLBACK,
      QUICHE_H3_TRANSPORT_ERR_DONE, QUICHE_H3_TRANSPORT_ERR_BUFFER_TOO_SHORT,
      QUICHE_H3_TRANSPORT_ERR_UNKNOWN_VERSION, QUICHE_H3_TRANSPORT_ERR_INVALID_FRAME,
      QUICHE_H3_TRANSPORT_ERR_INVALID_PACKET, QUICHE_H3_TRANSPORT_ERR_INVALID_STATE,
      QUICHE_H3_TRANSPORT_ERR_INVALID_STREAM_STATE,
      QUICHE_H3_TRANSPORT_ERR_INVALID_TRANSPORT_PARAM, QUICHE_H3_TRANSPORT_ERR_CRYPTO_FAIL,
      QUICHE_H3_TRANSPORT_ERR_TLS_FAIL, QUICHE_H3_TRANSPORT_ERR_FLOW_CONTROL,
      QUICHE_H3_TRANSPORT_ERR_STREAM_LIMIT, QUICHE_H3_TRANSPORT_ERR_STREAM_STOPPED,
      QUICHE_H3_TRANSPORT_ERR_STREAM_RESET, QUICHE_H3_TRANSPORT_ERR_FINAL_SIZE,
      QUICHE_H3_TRANSPORT_ERR_CONGESTION_CONTROL, QUICHE_H3_TRANSPORT_ERR_ID_LIMIT,
      QUICHE_H3_TRANSPORT_ERR_OUT_OF_IDENTIFIERS, QUICHE_H3_TRANSPORT_ERR_KEY_UPDATE,
      QUICHE_H3_TRANSPORT_ERR_CRYPTO_BUFFER_EXCEEDED,
      QUICHE_H3_TRANSPORT_ERR_INVALID_ACK_RANGE,
      QUICHE_H3_TRANSPORT_ERR_OPTIMISTIC_ACK_DETECTED]"

lemma quiche_h3_errors_complete: "e \<in> set quiche_h3_errors"
  by (cases e) (simp_all add: quiche_h3_errors_def)

lemma distinct_h3_codes: "distinct (map quiche_h3_error_code quiche_h3_errors)"
  by (simp add: quiche_h3_errors_def)

lemma inj_quiche_h3_error_code: "inj quiche_h3_error_code"
  using distinct_h3_codes quiche_h3_errors_complete
  by (auto simp: distinct_map intro: inj_on_subset)

lemma h3_of_transport_named_iff:
  "(\<exists>h. quiche_h3_error_code h = h3_of_transport e) \<longleftrightarrow> e \<noteq> QUICHE_ERR_INVALID_DCID_INITIALIZATION"
proof
  assume "\<exists>h. quiche_h3_error_code h = h3_of_transport e"
  then obtain h where "quiche_h3_error_code h = h3_of_transport e" ..
  then show "e \<noteq> QUICHE_ERR_INVALID_DCID_INITIALIZATION"
    using quiche_h3_error_code_bounds [of h] by (auto simp: h3_of_transport_def)
next
  have "\<exists>h \<in> set quiche_h3_errors. quiche_h3_error_code h = h3_of_transport e"
    if "e \<noteq> QUICHE_ERR_INVALID_DCID_INITIALIZATION"
    using that by (cases e) (simp_all add: h3_of_transport_def quiche_h3_errors_def)
  then show "\<exists>h. quiche_h3_error_code h = h3_of_transport e"
    if "e \<noteq> QUICHE_ERR_INVALID_DCID_INITIALIZATION"
    using that by blast
qed

end
