(* ===== verification/Packet.thy ===== *)
theory Packet
  imports QuicheTypes
begin

text \<open>
  The stateless part of the engine that the servers call before a connection exists: reading the
  public header of a datagram (\<open>quiche_header_info\<close>), writing a version negotiation packet and a
  retry packet, and the variable-length integers.  Translated from \<open>quiche/src/packet.rs\<close>,
  \<open>quiche/src/ffi.rs\<close> and \<open>octets/src/lib.rs\<close>.  A reader works on the bytes not yet read; a writer
  on the bytes written so far of a buffer of a given size.  The integrity tag of a retry packet is
  an AEAD computed by the TLS library: it is the parameter \<open>tag\<close>.
\<close>

section \<open>Octets\<close>

type_synonym 'a octets_get = "bytes \<Rightarrow> quiche_error + 'a \<times> bytes"

definition oct_ret :: "'a \<Rightarrow> 'a octets_get" where
  "oct_ret x b = Inr (x, b)"

definition oct_err :: "quiche_error \<Rightarrow> 'a octets_get" where
  "oct_err e b = Inl e"

definition oct_bind :: "'a octets_get \<Rightarrow> ('a \<Rightarrow> 'b octets_get) \<Rightarrow> 'b octets_get" where
  "oct_bind g f b = (case g b of Inl e \<Rightarrow> Inl e | Inr (x, b') \<Rightarrow> f x b')"

definition octets_get_bytes :: "nat \<Rightarrow> bytes octets_get" where
  "octets_get_bytes len b =
     (if length b < len then Inl QUICHE_ERR_BUFFER_TOO_SHORT else Inr (take len b, drop len b))"

definition octets_get_u8 :: "u8 octets_get" where
  "octets_get_u8 = oct_bind (octets_get_bytes 1) (\<lambda>v. oct_ret (of_nat (be_nat v)))"

definition octets_get_u16 :: "u16 octets_get" where
  "octets_get_u16 = oct_bind (octets_get_bytes 2) (\<lambda>v. oct_ret (of_nat (be_nat v)))"

definition octets_get_u32 :: "u32 octets_get" where
  "octets_get_u32 = oct_bind (octets_get_bytes 4) (\<lambda>v. oct_ret (of_nat (be_nat v)))"

definition octets_get_u64 :: "u64 octets_get" where
  "octets_get_u64 = oct_bind (octets_get_bytes 8) (\<lambda>v. oct_ret (of_nat (be_nat v)))"

definition varint_parse_len :: "u8 \<Rightarrow> nat" where
  "varint_parse_len first =
     (if drop_bit 6 first = 0 then 1 else if drop_bit 6 first = 1 then 2
      else if drop_bit 6 first = 2 then 4 else 8)"

definition octets_get_varint :: "u64 octets_get" where
  "octets_get_varint b =
     (case b of
        [] \<Rightarrow> Inl QUICHE_ERR_BUFFER_TOO_SHORT
      | first # _ \<Rightarrow>
          let len = varint_parse_len first in
          if length b < len then Inl QUICHE_ERR_BUFFER_TOO_SHORT
          else if len = 1 then oct_bind octets_get_u8 (\<lambda>v. oct_ret (ucast v)) b
          else if len = 2 then oct_bind octets_get_u16 (\<lambda>v. oct_ret (ucast (v AND 0x3fff))) b
          else if len = 4 then oct_bind octets_get_u32 (\<lambda>v. oct_ret (ucast (v AND 0x3fffffff))) b
          else oct_bind octets_get_u64 (\<lambda>v. oct_ret (v AND 0x3fffffffffffffff)) b)"

definition octets_get_bytes_with_varint_length :: "bytes octets_get" where
  "octets_get_bytes_with_varint_length = oct_bind octets_get_varint (\<lambda>len. octets_get_bytes (unat len))"

text \<open>Writers: \<open>cap\<close> is the size of the buffer, \<open>w\<close> the bytes already written.\<close>

type_synonym octets_put = "nat \<Rightarrow> bytes \<Rightarrow> quiche_error + bytes"

definition put_seq :: "octets_put \<Rightarrow> octets_put \<Rightarrow> octets_put" where
  "put_seq p q cap w = (case p cap w of Inl e \<Rightarrow> Inl e | Inr w' \<Rightarrow> q cap w')"

definition octets_put_bytes :: "bytes \<Rightarrow> octets_put" where
  "octets_put_bytes v cap w =
     (if cap < length w + length v then Inl QUICHE_ERR_BUFFER_TOO_SHORT else Inr (w @ v))"

definition octets_put_u8 :: "u8 \<Rightarrow> octets_put" where
  "octets_put_u8 v = octets_put_bytes [v]"

definition octets_put_u16 :: "u16 \<Rightarrow> octets_put" where
  "octets_put_u16 v = octets_put_bytes (be_bytes 2 (unat v))"

definition octets_put_u32 :: "u32 \<Rightarrow> octets_put" where
  "octets_put_u32 v = octets_put_bytes (be_bytes 4 (unat v))"

definition octets_put_u64 :: "u64 \<Rightarrow> octets_put" where
  "octets_put_u64 v = octets_put_bytes (be_bytes 8 (unat v))"

text \<open>The length of the encoding; \<open>None\<close> is the \<open>unreachable!()\<close> that panics.\<close>

definition varint_len :: "u64 \<Rightarrow> nat option" where
  "varint_len v =
     (if v \<le> 63 then Some 1 else if v \<le> 16383 then Some 2 else if v \<le> 1073741823 then Some 4
      else if v \<le> 4611686018427387903 then Some 8 else None)"

text \<open>The writer sets the two length bits in the first byte of the integer it has just put.\<close>

definition or_first :: "u8 \<Rightarrow> octets_put \<Rightarrow> octets_put" where
  "or_first m p cap w = map_sum id (\<lambda>w'. w'[length w := w' ! length w OR m]) (p cap w)"

definition octets_put_varint_with_len :: "u64 \<Rightarrow> nat \<Rightarrow> octets_put" where
  "octets_put_varint_with_len v len cap w =
     (if cap < length w + len then Inl QUICHE_ERR_BUFFER_TOO_SHORT
      else if len = 1 then octets_put_u8 (ucast v) cap w
      else if len = 2 then or_first 0x40 (octets_put_u16 (ucast v)) cap w
      else if len = 4 then or_first 0x80 (octets_put_u32 (ucast v)) cap w
      else or_first 0xc0 (octets_put_u64 v) cap w)"

definition octets_put_varint :: "u64 \<Rightarrow> nat \<Rightarrow> bytes \<Rightarrow> (quiche_error + bytes) option" where
  "octets_put_varint v cap w = map_option (\<lambda>len. octets_put_varint_with_len v len cap w) (varint_len v)"

text \<open>
  The two functions of the C interface.  \<open>quiche_put_varint\<close> returns no length: the model gives the
  bytes it wrote; \<open>None\<close> is the panic, which aborts the process at the C boundary.
\<close>

definition quiche_put_varint :: "nat \<Rightarrow> u64 \<Rightarrow> (quiche_error + bytes) option" where
  "quiche_put_varint buf_len val = octets_put_varint val buf_len []"

definition quiche_get_varint :: "bytes \<Rightarrow> quiche_error + nat \<times> u64" where
  "quiche_get_varint b = map_sum id (\<lambda>(v, b'). (length b - length b', v)) (octets_get_varint b)"

section \<open>Headers\<close>

datatype pkt_type = Initial | Retry | Handshake | ZeroRTT | VersionNegotiation | Short

record header =
  hdr_ty :: pkt_type
  hdr_version :: u32
  hdr_dcid :: bytes
  hdr_scid :: bytes
  hdr_pkt_num :: u64
  hdr_pkt_num_len :: nat
  hdr_token :: "bytes option"
  hdr_versions :: "u32 list option"
  hdr_key_phase :: bool

definition version_is_supported :: "u32 \<Rightarrow> bool" where
  "version_is_supported version \<longleftrightarrow> version = QUICHE_PROTOCOL_VERSION"

definition MAX_CID_LEN :: u8 where
  "MAX_CID_LEN = 20"

definition is_long :: "u8 \<Rightarrow> bool" where
  "is_long b \<longleftrightarrow> b AND 0x80 \<noteq> 0"

definition long_type :: "u32 \<Rightarrow> u8 \<Rightarrow> pkt_type" where
  "long_type version first =
     (if version = 0 then VersionNegotiation
      else if drop_bit 4 (first AND 0x30) = 0 then Initial
      else if drop_bit 4 (first AND 0x30) = 1 then ZeroRTT
      else if drop_bit 4 (first AND 0x30) = 2 then Handshake
      else Retry)"

text \<open>A connection ID of a long header: a length byte, bounded when the version is known, and the bytes.\<close>

definition get_cid :: "u32 \<Rightarrow> bytes octets_get" where
  "get_cid version = oct_bind octets_get_u8 (\<lambda>len.
     if version_is_supported version \<and> len > MAX_CID_LEN then oct_err QUICHE_ERR_INVALID_PACKET
     else octets_get_bytes (unat len))"

lemma octets_get_u32_length: "octets_get_u32 b = Inr (v, b') \<Longrightarrow> length b' < length b"
  by (auto simp: octets_get_u32_def oct_bind_def octets_get_bytes_def oct_ret_def split: if_splits)

function get_versions :: "u32 list octets_get" where
  "get_versions b =
     (if b = [] then Inr ([], [])
      else case octets_get_u32 b of
             Inl e \<Rightarrow> Inl e
           | Inr (v, b') \<Rightarrow> map_sum id (\<lambda>(vs, r). (v # vs, r)) (get_versions b'))"
  by pat_completeness auto
termination
  by (relation "measure length") (auto dest: octets_get_u32_length)

declare get_versions.simps [simp del]

definition get_token :: "pkt_type \<Rightarrow> (bytes option \<times> u32 list option) octets_get" where
  "get_token ty =
     (case ty of
        Initial \<Rightarrow> oct_bind octets_get_bytes_with_varint_length (\<lambda>t. oct_ret (Some t, None))
      | Retry \<Rightarrow> (\<lambda>b. if length b < 16 then Inl QUICHE_ERR_INVALID_PACKET
                        else oct_bind (octets_get_bytes (length b - 16)) (\<lambda>t. oct_ret (Some t, None)) b)
      | VersionNegotiation \<Rightarrow> oct_bind get_versions (\<lambda>vs. oct_ret (None, Some vs))
      | _ \<Rightarrow> oct_ret (None, None))"

definition long_header :: "u8 \<Rightarrow> header octets_get" where
  "long_header first =
     oct_bind octets_get_u32 (\<lambda>version.
     oct_bind (get_cid version) (\<lambda>dcid.
     oct_bind (get_cid version) (\<lambda>scid.
     oct_bind (get_token (long_type version first)) (\<lambda>(token, versions).
       oct_ret \<lparr>hdr_ty = long_type version first, hdr_version = version, hdr_dcid = dcid,
         hdr_scid = scid, hdr_pkt_num = 0, hdr_pkt_num_len = 0, hdr_token = token,
         hdr_versions = versions, hdr_key_phase = False\<rparr>))))"

definition header_from_bytes :: "nat \<Rightarrow> header octets_get" where
  "header_from_bytes dcid_len =
     oct_bind octets_get_u8 (\<lambda>first.
       if \<not> is_long first then
         oct_bind (octets_get_bytes dcid_len) (\<lambda>dcid.
           oct_ret \<lparr>hdr_ty = Short, hdr_version = 0, hdr_dcid = dcid, hdr_scid = [],
             hdr_pkt_num = 0, hdr_pkt_num_len = 0, hdr_token = None, hdr_versions = None,
             hdr_key_phase = False\<rparr>)
       else long_header first)"

text \<open>
  \<open>quiche_header_info\<close>: the sizes of the three buffers come in, the contents go out.  A buffer that
  is too small is reported as \<open>-1\<close>.
\<close>

record header_info =
  info_version :: u32
  info_type :: u8
  info_scid :: bytes
  info_dcid :: bytes
  info_token :: bytes

fun pkt_type_code :: "pkt_type \<Rightarrow> u8" where
  "pkt_type_code Initial = 1"
| "pkt_type_code Retry = 2"
| "pkt_type_code Handshake = 3"
| "pkt_type_code ZeroRTT = 4"
| "pkt_type_code Short = 5"
| "pkt_type_code VersionNegotiation = 6"

definition quiche_header_info ::
  "bytes \<Rightarrow> nat \<Rightarrow> nat \<Rightarrow> nat \<Rightarrow> nat \<Rightarrow> quiche_error + header_info" where
  "quiche_header_info b dcil scid_len dcid_len token_len =
     (case header_from_bytes dcil b of
        Inl e \<Rightarrow> Inl e
      | Inr (hdr, _) \<Rightarrow>
          if scid_len < length (hdr_scid hdr) then Inl QUICHE_ERR_DONE
          else if dcid_len < length (hdr_dcid hdr) then Inl QUICHE_ERR_DONE
          else (case hdr_token hdr of
                  Some tok \<Rightarrow> if token_len < length tok then Inl QUICHE_ERR_DONE
                    else Inr \<lparr>info_version = hdr_version hdr, info_type = pkt_type_code (hdr_ty hdr),
                           info_scid = hdr_scid hdr, info_dcid = hdr_dcid hdr, info_token = tok\<rparr>
                | None \<Rightarrow> Inr \<lparr>info_version = hdr_version hdr, info_type = pkt_type_code (hdr_ty hdr),
                           info_scid = hdr_scid hdr, info_dcid = hdr_dcid hdr, info_token = []\<rparr>))"

section \<open>Writing packets\<close>

fun long_type_bits :: "pkt_type \<Rightarrow> u8 option" where
  "long_type_bits Initial = Some 0"
| "long_type_bits ZeroRTT = Some 1"
| "long_type_bits Handshake = Some 2"
| "long_type_bits Retry = Some 3"
| "long_type_bits _ = None"

text \<open>
  \<open>Header::to_bytes\<close>.  A token longer than a varint can express cannot be built in memory, and a
  Retry header without a token is never built: \<open>None\<close> stands for either panic.
\<close>

definition put_cid :: "bytes \<Rightarrow> octets_put" where
  "put_cid cid = put_seq (octets_put_u8 (of_nat (length cid))) (octets_put_bytes cid)"

definition header_to_bytes :: "header \<Rightarrow> nat \<Rightarrow> (quiche_error + bytes) option" where
  "header_to_bytes h cap =
     (let first = of_nat (hdr_pkt_num_len h - 1) :: u8 in
      if hdr_ty h = Short then
        let first = (first AND NOT 0x80) OR 0x40;
            first = (if hdr_key_phase h then first OR 0x04 else first AND NOT 0x04)
        in Some (put_seq (octets_put_u8 first) (octets_put_bytes (hdr_dcid h)) cap [])
      else case long_type_bits (hdr_ty h) of
        None \<Rightarrow> Some (Inl QUICHE_ERR_INVALID_PACKET)
      | Some ty \<Rightarrow>
          (case put_seq (octets_put_u8 (first OR (0x80 OR 0x40 OR push_bit 4 ty)))
                 (put_seq (octets_put_u32 (hdr_version h))
                 (put_seq (put_cid (hdr_dcid h)) (put_cid (hdr_scid h)))) cap [] of
             Inl e \<Rightarrow> Some (Inl e)
           | Inr w \<Rightarrow>
               (case hdr_ty h of
                  Initial \<Rightarrow>
                    (case hdr_token h of
                       Some v \<Rightarrow>
                         map_option (\<lambda>r. case r of Inl e \<Rightarrow> Inl e | Inr w' \<Rightarrow> octets_put_bytes v cap w')
                           (octets_put_varint (of_nat (length v)) cap w)
                     | None \<Rightarrow> octets_put_varint 0 cap w)
                | Retry \<Rightarrow> map_option (\<lambda>v. octets_put_bytes v cap w) (hdr_token h)
                | _ \<Rightarrow> Some (Inr w))))"

definition quiche_negotiate_version :: "u8 \<Rightarrow> bytes \<Rightarrow> bytes \<Rightarrow> nat \<Rightarrow> quiche_error + bytes" where
  "quiche_negotiate_version rand_u8 scid dcid out_len =
     put_seq (octets_put_u8 (rand_u8 OR 0x80))
     (put_seq (octets_put_u32 0)
     (put_seq (put_cid scid)
     (put_seq (put_cid dcid)
              (octets_put_u32 QUICHE_PROTOCOL_VERSION)))) out_len []"

type_synonym retry_tag = "bytes \<Rightarrow> bytes \<Rightarrow> u32 \<Rightarrow> quiche_error + bytes"

definition retry_header :: "bytes \<Rightarrow> bytes \<Rightarrow> bytes \<Rightarrow> u32 \<Rightarrow> header" where
  "retry_header scid new_scid token version =
     \<lparr>hdr_ty = Retry, hdr_version = version, hdr_dcid = scid, hdr_scid = new_scid, hdr_pkt_num = 0,
      hdr_pkt_num_len = 0, hdr_token = Some token, hdr_versions = None, hdr_key_phase = False\<rparr>"

text \<open>The header has a token, so writing it never panics.\<close>

definition quiche_retry ::
  "retry_tag \<Rightarrow> bytes \<Rightarrow> bytes \<Rightarrow> bytes \<Rightarrow> bytes \<Rightarrow> u32 \<Rightarrow> nat \<Rightarrow> quiche_error + bytes" where
  "quiche_retry tag scid dcid new_scid token version out_len =
     (if \<not> version_is_supported version then Inl QUICHE_ERR_UNKNOWN_VERSION
      else case header_to_bytes (retry_header scid new_scid token version) out_len of
        None \<Rightarrow> Inl QUICHE_ERR_DONE
      | Some (Inl e) \<Rightarrow> Inl e
      | Some (Inr w) \<Rightarrow>
          (case tag w dcid version of
             Inl e \<Rightarrow> Inl e
           | Inr t \<Rightarrow> octets_put_bytes t out_len w))"

section \<open>Facts about readers and writers\<close>

lemma oct_bind_Inr_iff:
  "oct_bind g f b = Inr y \<longleftrightarrow> (\<exists>x b'. g b = Inr (x, b') \<and> f x b' = Inr y)"
  by (auto simp: oct_bind_def split: sum.splits)

lemma oct_bind_Inr [simp]: "g b = Inr (x, b') \<Longrightarrow> oct_bind g f b = f x b'"
  by (simp add: oct_bind_def)

lemma oct_ret_iff [simp]: "oct_ret x b = Inr (y, r) \<longleftrightarrow> y = x \<and> r = b"
  by (auto simp: oct_ret_def)

lemma oct_err_iff [simp]: "oct_err e b = Inr y \<longleftrightarrow> False"
  by (simp add: oct_err_def)

lemma octets_get_bytes_iff:
  "octets_get_bytes n b = Inr (x, r) \<longleftrightarrow> length x = n \<and> b = x @ r"
proof
  assume "octets_get_bytes n b = Inr (x, r)"
  then have "n \<le> length b" "x = take n b" "r = drop n b"
    by (auto simp: octets_get_bytes_def split: if_splits)
  then show "length x = n \<and> b = x @ r" by simp
qed (auto simp: octets_get_bytes_def)

lemma octets_get_u8_Cons [simp]: "octets_get_u8 (b # r) = Inr (b, r)"
  by (simp add: octets_get_u8_def oct_bind_def octets_get_bytes_def oct_ret_def be_nat_Cons)

lemma octets_get_u8_iff: "octets_get_u8 b = Inr (x, r) \<longleftrightarrow> b = x # r"
proof (cases b)
  case Nil
  then show ?thesis by (simp add: octets_get_u8_def oct_bind_def octets_get_bytes_def)
next
  case (Cons a b')
  then show ?thesis by auto
qed

lemma octets_get_u_append:
  "length x = 2 \<Longrightarrow> octets_get_u16 (x @ r) = Inr (of_nat (be_nat x), r)"
  "length x = 4 \<Longrightarrow> octets_get_u32 (x @ r) = Inr (of_nat (be_nat x), r)"
  "length x = 8 \<Longrightarrow> octets_get_u64 (x @ r) = Inr (of_nat (be_nat x), r)"
  by (simp_all add: octets_get_u16_def octets_get_u32_def octets_get_u64_def oct_bind_def
      octets_get_bytes_def oct_ret_def)

lemma unat_u16_less: "unat (b :: u16) < 65536"
  using unsigned_less [of b] by simp

lemma unat_u32_less: "unat (b :: u32) < 4294967296"
  using unsigned_less [of b] by simp

lemma unat_u64_less: "unat (b :: u64) < 18446744073709551616"
  using unsigned_less [of b] by simp

lemma be_nat_be_bytes_unat:
  "be_nat (be_bytes 2 (unat (b :: u16))) = unat b"
  "be_nat (be_bytes 4 (unat (v :: u32))) = unat v"
  "be_nat (be_bytes 8 (unat (x :: u64))) = unat x"
  using unat_u16_less [of b] unat_u32_less [of v] unat_u64_less [of x]
  by (simp_all add: be_nat_be_bytes)

lemma octets_get_put_u32 [simp]: "octets_get_u32 (be_bytes 4 (unat v) @ r) = Inr (v, r)"
  by (simp add: octets_get_u_append be_nat_be_bytes_unat)

lemma octets_put_bytes_iff:
  "octets_put_bytes v cap w = Inr w' \<longleftrightarrow> length w + length v \<le> cap \<and> w' = w @ v"
  by (auto simp: octets_put_bytes_def)

lemma put_seq_iff: "put_seq p q cap w = Inr w' \<longleftrightarrow> (\<exists>v. p cap w = Inr v \<and> q cap v = Inr w')"
  by (auto simp: put_seq_def split: sum.splits)

section \<open>Variable-length integers\<close>

lemma be_bytes_Cons: "be_bytes (Suc k) n = of_nat (n div 256 ^ k) # be_bytes k n"
proof (induction k arbitrary: n)
  case (Suc k)
  have "n div 256 div 256 ^ k = n div 256 ^ Suc k" by (simp add: div_mult2_eq)
  with Suc [of "n div 256"] show ?case by (simp only: be_bytes.simps append_Cons)
qed simp

lemma be_bytes_mod: "be_bytes k (n mod 256 ^ k) = be_bytes k n"
  by (rule be_nat_inj) (simp_all add: be_nat_be_bytes)

lemma of_nat_or_top:
  assumes "a < 64" and "j < 4"
  shows "of_nat a OR of_nat (64 * j) = (of_nat (64 * j + a) :: u8)"
proof -
  have j: "unat (of_nat j :: u8) = j" "unat (of_nat a :: u8) = a"
    using assms by (simp_all add: unat_of_nat_u8)
  have "(of_nat (64 * j) :: u8) = push_bit 6 (of_nat j)"
    by (simp add: push_bit_eq_mult)
  moreover have "unat (push_bit 6 (of_nat j :: u8) OR of_nat a) = j * 2 ^ 6 + a"
    using unat_shift_or [of "of_nat j :: u8" 6 "of_nat a"] assms j by simp
  ultimately have "unat (of_nat a OR of_nat (64 * j) :: u8) = 64 * j + a" by (simp add: or.commute)
  then show ?thesis by (rule word_of_natI)
qed

lemma be_bytes_top: "be_bytes (Suc k) (64 * j * 256 ^ k + n) = of_nat (64 * j + n div 256 ^ k) # be_bytes k n"
proof -
  have "(64 * j * 256 ^ k + n) div 256 ^ k = 64 * j + n div 256 ^ k" by simp
  moreover have "be_bytes k (64 * j * 256 ^ k + n) = be_bytes k n"
    by (subst (1 2) be_bytes_mod [symmetric]) simp
  ultimately show ?thesis by (simp only: be_bytes_Cons)
qed

lemma or_first_be_bytes:
  assumes "n < 64 * 256 ^ k" and "j < 4"
  shows "or_first (of_nat (64 * j)) (octets_put_bytes (be_bytes (Suc k) n)) cap w =
    octets_put_bytes (be_bytes (Suc k) (64 * j * 256 ^ k + n)) cap w"
proof -
  have a: "n div 256 ^ k < 64" using assms(1) by (simp add: less_mult_imp_div_less)
  have "(w @ be_bytes (Suc k) n)[length w := (w @ be_bytes (Suc k) n) ! length w OR of_nat (64 * j)]
     = w @ (of_nat (n div 256 ^ k) OR of_nat (64 * j)) # be_bytes k n"
    by (simp add: be_bytes_Cons nth_append list_update_append del: be_bytes.simps)
  then show ?thesis
    using of_nat_or_top [OF a assms(2)] be_bytes_top [of k j n]
    by (simp add: or_first_def octets_put_bytes_def del: be_bytes.simps of_nat_mult of_nat_add)
qed

text \<open>The encoding of a value of each length: the two top bits say the length.\<close>

definition varint_bytes :: "nat \<Rightarrow> bytes" where
  "varint_bytes n =
     (if n \<le> 63 then be_bytes 1 n
      else if n \<le> 16383 then be_bytes 2 (0x4000 + n)
      else if n \<le> 1073741823 then be_bytes 4 (0x80000000 + n)
      else be_bytes 8 (0xc000000000000000 + n))"

lemma or_first_u16: "n \<le> 16383 \<Longrightarrow>
    or_first 0x40 (octets_put_bytes (be_bytes 2 n)) cap w = octets_put_bytes (be_bytes 2 (0x4000 + n)) cap w"
  using or_first_be_bytes [of n 1 1 cap w] by (simp add: numeral_2_eq_2 del: be_bytes.simps)

lemma or_first_u32: "n \<le> 1073741823 \<Longrightarrow>
    or_first 0x80 (octets_put_bytes (be_bytes 4 n)) cap w = octets_put_bytes (be_bytes 4 (0x80000000 + n)) cap w"
  using or_first_be_bytes [of n 3 2 cap w] by (simp del: be_bytes.simps)

lemma or_first_u64: "n \<le> 4611686018427387903 \<Longrightarrow>
    or_first 0xc0 (octets_put_bytes (be_bytes 8 n)) cap w
      = octets_put_bytes (be_bytes 8 (0xc000000000000000 + n)) cap w"
  using or_first_be_bytes [of n 7 3 cap w] by (simp del: be_bytes.simps)

lemma varint_len_unat: "varint_len v =
    (if unat v \<le> 63 then Some 1 else if unat v \<le> 16383 then Some 2
     else if unat v \<le> 1073741823 then Some 4 else if unat v \<le> 4611686018427387903 then Some 8 else None)"
  by (simp add: varint_len_def word_le_nat_alt)

lemma put_varint_with_len:
  "unat v \<le> 63 \<Longrightarrow> octets_put_varint_with_len v 1 cap w = octets_put_bytes (be_bytes 1 (unat v)) cap w"
  "unat v \<le> 16383 \<Longrightarrow>
     octets_put_varint_with_len v 2 cap w = octets_put_bytes (be_bytes 2 (0x4000 + unat v)) cap w"
  "unat v \<le> 1073741823 \<Longrightarrow>
     octets_put_varint_with_len v 4 cap w = octets_put_bytes (be_bytes 4 (0x80000000 + unat v)) cap w"
  "unat v \<le> 4611686018427387903 \<Longrightarrow>
     octets_put_varint_with_len v 8 cap w = octets_put_bytes (be_bytes 8 (0xc000000000000000 + unat v)) cap w"
proof -
  assume "unat v \<le> 63"
  then have "unat (ucast v :: u8) = unat v"
    by (simp add: unsigned_ucast_eq take_bit_nat_eq_self_iff)
  then have "(ucast v :: u8) = of_nat (unat v)" by (rule word_of_natI)
  then show "octets_put_varint_with_len v 1 cap w = octets_put_bytes (be_bytes 1 (unat v)) cap w"
    by (simp add: octets_put_varint_with_len_def octets_put_u8_def octets_put_bytes_def)
next
  assume v: "unat v \<le> 16383"
  then have "unat (ucast v :: u16) = unat v"
    by (simp add: unsigned_ucast_eq take_bit_nat_eq_self_iff)
  then show "octets_put_varint_with_len v 2 cap w = octets_put_bytes (be_bytes 2 (0x4000 + unat v)) cap w"
    using v by (simp add: octets_put_varint_with_len_def octets_put_u16_def or_first_u16)
      (simp add: octets_put_bytes_def)
next
  assume v: "unat v \<le> 1073741823"
  then have "unat (ucast v :: u32) = unat v"
    by (simp add: unsigned_ucast_eq take_bit_nat_eq_self_iff)
  then show "octets_put_varint_with_len v 4 cap w = octets_put_bytes (be_bytes 4 (0x80000000 + unat v)) cap w"
    using v by (simp add: octets_put_varint_with_len_def octets_put_u32_def or_first_u32)
      (simp add: octets_put_bytes_def)
next
  assume v: "unat v \<le> 4611686018427387903"
  then show "octets_put_varint_with_len v 8 cap w = octets_put_bytes (be_bytes 8 (0xc000000000000000 + unat v)) cap w"
    by (simp add: octets_put_varint_with_len_def octets_put_u64_def or_first_u64)
      (simp add: octets_put_bytes_def)
qed

lemma octets_put_varint_Some:
  assumes "unat v < 2 ^ 62"
  shows "octets_put_varint v cap w = Some (octets_put_bytes (varint_bytes (unat v)) cap w)"
  using assms by (simp add: octets_put_varint_def varint_len_unat varint_bytes_def put_varint_with_len
      put_varint_with_len(1) [unfolded One_nat_def] del: be_bytes.simps)

lemma octets_put_varint_None_iff: "octets_put_varint v cap w = None \<longleftrightarrow> 2 ^ 62 \<le> unat v"
  by (simp add: octets_put_varint_def varint_len_unat)

lemma length_varint_bytes:
  "length (varint_bytes n) = (if n \<le> 63 then 1 else if n \<le> 16383 then 2 else if n \<le> 1073741823 then 4 else 8)"
  by (simp add: varint_bytes_def)

text \<open>Reading: the first byte gives the length back.\<close>

lemma varint_parse_len_of_nat:
  assumes "j < 4" and "a < 64"
  shows "varint_parse_len (of_nat (64 * j + a)) = 2 ^ j"
proof -
  have "unat (of_nat (64 * j + a) :: u8) = 64 * j + a" using assms by (intro unat_of_nat_u8) simp
  then have "unat (drop_bit 6 (of_nat (64 * j + a) :: u8)) = j"
    using assms by (simp add: unat_drop_bit)
  then have "drop_bit 6 (of_nat (64 * j + a) :: u8) = of_nat j" by (rule word_of_natI)
  moreover have "j = 0 \<or> j = 1 \<or> j = 2 \<or> j = 3" using assms by auto
  ultimately show ?thesis by (auto simp: varint_parse_len_def)
qed

lemma unat_and_mask: "unat ((w :: 'a::len word) AND mask k) = unat w mod 2 ^ k"
proof -
  have "unat (take_bit k w) = take_bit k (unat w)" by (rule unsigned_take_bit_eq)
  then show ?thesis by (simp only: take_bit_eq_mod flip: take_bit_eq_mask)
qed

lemma varint_masks:
  "unat (w AND 0x3fff :: u16) = unat w mod 2 ^ 14"
  "unat (v AND 0x3fffffff :: u32) = unat v mod 2 ^ 30"
  "unat (x AND 0x3fffffffffffffff :: u64) = unat x mod 2 ^ 62"
  using unat_and_mask [of w 14] unat_and_mask [of v 30] unat_and_mask [of x 62]
  by (simp_all add: mask_eq_exp_minus_1)

lemma get_varint_first:
  assumes "n < 64 * 256 ^ k" and "j < 4" and "Suc k = 2 ^ j" and "b = be_bytes (Suc k) (64 * j * 256 ^ k + n)"
  shows "octets_get_varint (b @ r) =
    (if Suc k = 1 then oct_bind octets_get_u8 (\<lambda>v. oct_ret (ucast v)) (b @ r)
     else if Suc k = 2 then oct_bind octets_get_u16 (\<lambda>v. oct_ret (ucast (v AND 0x3fff))) (b @ r)
     else if Suc k = 4 then oct_bind octets_get_u32 (\<lambda>v. oct_ret (ucast (v AND 0x3fffffff))) (b @ r)
     else oct_bind octets_get_u64 (\<lambda>v. oct_ret (v AND 0x3fffffffffffffff)) (b @ r))"
proof -
  have "n div 256 ^ k < 64" using assms(1) by (simp add: less_mult_imp_div_less)
  then have "varint_parse_len (of_nat (64 * j + n div 256 ^ k)) = Suc k"
    using varint_parse_len_of_nat assms(2,3) by simp
  moreover have "length (b @ r) = Suc k + length r" by (simp only: assms(4) length_append length_be_bytes)
  moreover have "b = of_nat (64 * j + n div 256 ^ k) # be_bytes k n" unfolding assms(4) by (rule be_bytes_top)
  ultimately show ?thesis
    by (simp add: octets_get_varint_def Let_def del: of_nat_add of_nat_mult)
qed

lemma octets_get_varint_bytes:
  assumes "n < 2 ^ 62"
  shows "octets_get_varint (varint_bytes n @ r) = Inr (of_nat n, r)"
proof -
  consider (1) "n \<le> 63" | (2) "63 < n" "n \<le> 16383" | (4) "16383 < n" "n \<le> 1073741823"
    | (8) "1073741823 < n" "n \<le> 4611686018427387903"
    using assms by fastforce
  then show ?thesis
  proof cases
    case 1
    then have "varint_bytes n = [of_nat n]" by (simp add: varint_bytes_def)
    moreover have "varint_parse_len (of_nat n) = 1"
      using varint_parse_len_of_nat [of 0 n] 1 by simp
    moreover have "ucast (of_nat n :: u8) = (of_nat n :: u64)"
      using 1 by (intro word_of_natI) (simp add: unat_ucast_u8 unat_of_nat_u8)
    ultimately show ?thesis
      by (simp add: octets_get_varint_def Let_def)
  next
    case 2
    let ?b = "be_bytes 2 (0x4000 + n)"
    have "octets_get_varint (?b @ r) = oct_bind octets_get_u16 (\<lambda>v. oct_ret (ucast (v AND 0x3fff))) (?b @ r)"
      using get_varint_first [of n 1 1 ?b r] 2 by (simp add: numeral_2_eq_2 del: be_bytes.simps)
    moreover have "unat (of_nat (0x4000 + n) :: u16) = 0x4000 + n"
      using 2 by (simp only: unat_of_nat) simp
    then have "unat (ucast ((of_nat (0x4000 + n) :: u16) AND 0x3fff) :: u64) = n"
      using 2 by (simp add: unat_ucast_widen varint_masks mod_if del: of_nat_add)
    then have "ucast ((of_nat (0x4000 + n) :: u16) AND 0x3fff) = (of_nat n :: u64)" by (rule word_of_natI)
    ultimately show ?thesis using 2
      by (simp add: varint_bytes_def octets_get_u_append be_nat_be_bytes del: be_bytes.simps of_nat_add)
  next
    case 4
    let ?b = "be_bytes 4 (0x80000000 + n)"
    have "octets_get_varint (?b @ r) = oct_bind octets_get_u32 (\<lambda>v. oct_ret (ucast (v AND 0x3fffffff))) (?b @ r)"
      using get_varint_first [of n 3 2 ?b r] 4 by (simp del: be_bytes.simps)
    moreover have "unat (of_nat (0x80000000 + n) :: u32) = 0x80000000 + n"
      using 4 by (simp only: unat_of_nat) simp
    then have "unat (ucast ((of_nat (0x80000000 + n) :: u32) AND 0x3fffffff) :: u64) = n"
      using 4 by (simp add: unat_ucast_widen varint_masks mod_if del: of_nat_add)
    then have "ucast ((of_nat (0x80000000 + n) :: u32) AND 0x3fffffff) = (of_nat n :: u64)" by (rule word_of_natI)
    ultimately show ?thesis using 4
      by (simp add: varint_bytes_def octets_get_u_append be_nat_be_bytes del: be_bytes.simps of_nat_add)
  next
    case 8
    let ?b = "be_bytes 8 (0xc000000000000000 + n)"
    have "octets_get_varint (?b @ r) = oct_bind octets_get_u64 (\<lambda>v. oct_ret (v AND 0x3fffffffffffffff)) (?b @ r)"
      using get_varint_first [of n 7 3 ?b r] 8 by (simp del: be_bytes.simps)
    moreover have "unat (of_nat (0xc000000000000000 + n) :: u64) = 0xc000000000000000 + n"
      using 8 by (simp only: unat_of_nat) simp
    then have "unat ((of_nat (0xc000000000000000 + n) :: u64) AND 0x3fffffffffffffff) = n"
      using 8 by (simp add: varint_masks mod_if del: of_nat_add)
    then have "(of_nat (0xc000000000000000 + n) :: u64) AND 0x3fffffffffffffff = of_nat n" by (rule word_of_natI)
    ultimately show ?thesis using 8
      by (simp add: varint_bytes_def octets_get_u_append be_nat_be_bytes del: be_bytes.simps of_nat_add)
  qed
qed

section \<open>Header facts\<close>

lemma put_seq_bytes [simp]: "put_seq (octets_put_bytes x) (octets_put_bytes y) = octets_put_bytes (x @ y)"
  by (intro ext) (auto simp: put_seq_def octets_put_bytes_def)

definition cid_field :: "bytes \<Rightarrow> bytes" where
  "cid_field c = of_nat (length c) # c"

lemma put_cid_eq [simp]: "put_cid c = octets_put_bytes (cid_field c)"
  by (simp add: put_cid_def octets_put_u8_def cid_field_def)

lemma length_cid_field [simp]: "length (cid_field c) = Suc (length c)"
  by (simp add: cid_field_def)

lemma octets_get_bytes_append [simp]: "octets_get_bytes (length x) (x @ r) = Inr (x, r)"
  by (simp add: octets_get_bytes_iff)

lemma get_cid_field:
  assumes "length c \<le> (if version_is_supported v then 20 else 255)"
  shows "get_cid v (cid_field c @ r) = Inr (c, r)"
proof -
  have u: "unat (of_nat (length c) :: u8) = length c"
    using assms by (intro unat_of_nat_u8) (auto split: if_splits)
  have "\<not> (version_is_supported v \<and> of_nat (length c) > MAX_CID_LEN)"
    using assms u by (auto simp: MAX_CID_LEN_def word_less_nat_alt)
  then show ?thesis using u by (simp add: get_cid_def cid_field_def)
qed

lemma get_cid_length:
  assumes "get_cid v b = Inr (c, r)"
  shows "length c \<le> (if version_is_supported v then 20 else 255)"
proof -
  obtain l b' where "b = l # b'" and nl: "\<not> (version_is_supported v \<and> l > MAX_CID_LEN)" and "length c = unat l"
    using assms by (auto simp: get_cid_def oct_bind_Inr_iff octets_get_u8_iff octets_get_bytes_iff split: if_splits)
  moreover have "unat l \<le> 255" using unat_u8_lt [of l] by linarith
  ultimately show ?thesis by (auto simp: MAX_CID_LEN_def word_less_nat_alt)
qed

lemma is_long_or [simp]: "is_long (x OR 0x80)"
proof -
  have "(x OR 0x80) AND 0x80 = (0x80 :: u8)" by (rule bit_word_eqI) (auto simp: bit_simps)
  then show ?thesis by (simp add: is_long_def)
qed

text \<open>What \<open>quiche_header_info\<close> hands out fits the buffers it was given.\<close>

lemma quiche_header_info_sizes:
  assumes "quiche_header_info b dcil sl dl tk = Inr i"
  shows "length (info_scid i) \<le> sl \<and> length (info_dcid i) \<le> dl \<and> length (info_token i) \<le> tk"
  using assms by (auto simp: quiche_header_info_def split: sum.splits option.splits if_splits)

lemma quiche_header_info_short:
  assumes "\<not> is_long b"
  shows "quiche_header_info (b # r) dcil sl dl tk =
    (if length r < dcil then Inl QUICHE_ERR_BUFFER_TOO_SHORT
     else if dl < dcil then Inl QUICHE_ERR_DONE
     else Inr \<lparr>info_version = 0, info_type = 5, info_scid = [], info_dcid = take dcil r, info_token = []\<rparr>)"
  using assms by (auto simp: quiche_header_info_def header_from_bytes_def oct_bind_def octets_get_bytes_def
      oct_ret_def)

subsection \<open>Version negotiation\<close>

definition vneg_bytes :: "u8 \<Rightarrow> bytes \<Rightarrow> bytes \<Rightarrow> bytes" where
  "vneg_bytes rnd scid dcid =
     (rnd OR 0x80) # be_bytes 4 0 @ cid_field scid @ cid_field dcid @ be_bytes 4 1"

lemma quiche_negotiate_version_eq:
  "quiche_negotiate_version rnd scid dcid out_len =
     (if out_len < 11 + length scid + length dcid then Inl QUICHE_ERR_BUFFER_TOO_SHORT
      else Inr (vneg_bytes rnd scid dcid))"
  by (simp add: quiche_negotiate_version_def octets_put_u8_def octets_put_u32_def vneg_bytes_def
      QUICHE_PROTOCOL_VERSION_def octets_put_bytes_def del: be_bytes.simps)

lemma get_versions_single: "get_versions (be_bytes 4 (unat v)) = Inr ([v], [])"
proof -
  have "be_bytes 4 (unat v) \<noteq> []" by (metis length_be_bytes list.size(3) zero_neq_numeral)
  moreover have "octets_get_u32 (be_bytes 4 (unat v)) = Inr (v, [])"
    using octets_get_put_u32 [of v "[]"] by simp
  ultimately show ?thesis
    by (subst get_versions.simps) (simp add: get_versions.simps [of "[]"] del: be_bytes.simps)
qed

lemma header_from_vneg:
  assumes "length scid \<le> 255" and "length dcid \<le> 255"
  shows "header_from_bytes dl (vneg_bytes rnd scid dcid) = Inr
    (\<lparr>hdr_ty = VersionNegotiation, hdr_version = 0, hdr_dcid = scid, hdr_scid = dcid, hdr_pkt_num = 0,
      hdr_pkt_num_len = 0, hdr_token = None, hdr_versions = Some [QUICHE_PROTOCOL_VERSION],
      hdr_key_phase = False\<rparr>, [])"
proof -
  have u32: "octets_get_u32 (be_bytes 4 0 @ r) = Inr (0, r)" for r
    using octets_get_put_u32 [of 0 r] by (simp del: octets_get_put_u32)
  have ns: "\<not> version_is_supported 0" by (simp add: version_is_supported_def QUICHE_PROTOCOL_VERSION_def)
  have "get_versions (be_bytes 4 1) = Inr ([QUICHE_PROTOCOL_VERSION], [])"
    using get_versions_single [of 1] by (simp add: QUICHE_PROTOCOL_VERSION_def)
  then have "get_token VersionNegotiation (be_bytes 4 1) = Inr ((None, Some [QUICHE_PROTOCOL_VERSION]), [])"
    by (simp add: get_token_def oct_bind_def oct_ret_def)
  then show ?thesis
    using assms ns
    by (simp add: vneg_bytes_def header_from_bytes_def long_header_def u32 get_cid_field long_type_def oct_ret_def
        del: be_bytes.simps)
qed

subsection \<open>Long headers\<close>

definition long_first :: "nat \<Rightarrow> u8 \<Rightarrow> u8" where
  "long_first pnl ty = of_nat (pnl - 1) OR (0x80 OR 0x40 OR push_bit 4 ty)"

lemma long_first_facts:
  assumes "pnl \<le> 4" and "ty \<in> {0, 1, 2, 3}"
  shows "is_long (long_first pnl ty)" and "drop_bit 4 (long_first pnl ty AND 0x30) = ty"
proof -
  have "pnl - 1 = 0 \<or> pnl - 1 = 1 \<or> pnl - 1 = 2 \<or> pnl - 1 = 3" using assms(1) by auto
  then show "drop_bit 4 (long_first pnl ty AND 0x30) = ty" and "is_long (long_first pnl ty)"
    using assms(2) by (auto simp: long_first_def is_long_def)
qed

lemma long_type_first:
  assumes "pnl \<le> 4" and "v \<noteq> 0" and "long_type_bits ty = Some b"
  shows "long_type v (long_first pnl b) = ty"
proof -
  have "b \<in> {0, 1, 2, 3}" using assms(3) by (cases ty) auto
  from long_first_facts(2) [OF assms(1) this] show ?thesis
    using assms(2,3) by (cases ty) (auto simp: long_type_def)
qed

definition long_bytes :: "header \<Rightarrow> u8 \<Rightarrow> bytes" where
  "long_bytes h ty = long_first (hdr_pkt_num_len h) ty # be_bytes 4 (unat (hdr_version h))
     @ cid_field (hdr_dcid h) @ cid_field (hdr_scid h)"

text \<open>The headers that the writer and the reader agree on.\<close>

definition header_ok :: "header \<Rightarrow> bool" where
  "header_ok h \<longleftrightarrow> hdr_ty h \<in> {Initial, Handshake, ZeroRTT} \<and> hdr_version h = QUICHE_PROTOCOL_VERSION
     \<and> length (hdr_dcid h) \<le> 20 \<and> length (hdr_scid h) \<le> 20 \<and> hdr_pkt_num_len h \<le> 4
     \<and> hdr_versions h = None
     \<and> (case hdr_token h of None \<Rightarrow> hdr_ty h \<noteq> Initial
        | Some t \<Rightarrow> hdr_ty h = Initial \<and> length t < 2 ^ 62)"

definition token_bytes :: "header \<Rightarrow> bytes" where
  "token_bytes h = (case hdr_token h of Some t \<Rightarrow> varint_bytes (length t) @ t | None \<Rightarrow> [])"

lemma header_to_bytes_eq:
  assumes "header_ok h"
  obtains ty where "long_type_bits (hdr_ty h) = Some ty"
    and "header_to_bytes h cap = Some (octets_put_bytes (long_bytes h ty @ token_bytes h) cap [])"
proof -
  obtain ty where ty: "long_type_bits (hdr_ty h) = Some ty" "hdr_ty h \<noteq> Short"
    using assms by (auto simp: header_ok_def)
  have head: "put_seq (octets_put_u8 (of_nat (hdr_pkt_num_len h - 1) OR (0x80 OR 0x40 OR push_bit 4 ty)))
      (put_seq (octets_put_u32 (hdr_version h)) (put_seq (put_cid (hdr_dcid h)) (put_cid (hdr_scid h)))) cap []
      = octets_put_bytes (long_bytes h ty) cap []"
    by (simp add: octets_put_u8_def octets_put_u32_def long_bytes_def long_first_def del: be_bytes.simps)
  have "header_to_bytes h cap = Some (octets_put_bytes (long_bytes h ty @ token_bytes h) cap [])"
  proof (cases "hdr_token h")
    case None
    then have "hdr_ty h = Handshake \<or> hdr_ty h = ZeroRTT" using assms by (auto simp: header_ok_def)
    then show ?thesis using ty None head
      by (auto simp: header_to_bytes_def Let_def token_bytes_def octets_put_bytes_def)
  next
    case (Some t)
    then have t: "hdr_ty h = Initial" "length t < 2 ^ 62" using assms by (auto simp: header_ok_def)
    have "unat (of_nat (length t) :: u64) = length t"
      using t(2) by (intro unat_of_nat_u64) simp
    then show ?thesis using ty t Some head
      by (auto simp: header_to_bytes_def Let_def token_bytes_def octets_put_bytes_def octets_put_varint_Some)
  qed
  with ty(1) show ?thesis by (rule that)
qed

lemma version_facts [simp]: "version_is_supported QUICHE_PROTOCOL_VERSION" "QUICHE_PROTOCOL_VERSION \<noteq> 0"
  by (simp_all add: version_is_supported_def QUICHE_PROTOCOL_VERSION_def)

lemma header_from_long:
  assumes "long_type_bits (hdr_ty h) = Some ty" and "hdr_version h = QUICHE_PROTOCOL_VERSION"
    and "length (hdr_dcid h) \<le> 20" and "length (hdr_scid h) \<le> 20" and "hdr_pkt_num_len h \<le> 4"
  shows "header_from_bytes n (long_bytes h ty @ r) =
    oct_bind (get_token (hdr_ty h)) (\<lambda>(token, versions). oct_ret
       \<lparr>hdr_ty = hdr_ty h, hdr_version = hdr_version h, hdr_dcid = hdr_dcid h, hdr_scid = hdr_scid h,
        hdr_pkt_num = 0, hdr_pkt_num_len = 0, hdr_token = token, hdr_versions = versions,
        hdr_key_phase = False\<rparr>) r"
proof -
  have ty: "ty \<in> {0, 1, 2, 3}" using assms(1) by (cases "hdr_ty h") auto
  have lt: "long_type QUICHE_PROTOCOL_VERSION (long_first (hdr_pkt_num_len h) ty) = hdr_ty h"
    by (rule long_type_first) (use assms in simp_all)
  show ?thesis
    using assms long_first_facts(1) [OF assms(5) ty]
    by (simp add: header_from_bytes_def long_bytes_def long_header_def get_cid_field lt del: be_bytes.simps)
qed

lemma header_roundtrip:
  assumes "header_ok h" and "header_to_bytes h cap = Some (Inr w)"
  shows "header_from_bytes n (w @ r) =
    Inr (h\<lparr>hdr_pkt_num := 0, hdr_pkt_num_len := 0, hdr_key_phase := False\<rparr>, r)"
proof -
  obtain ty where ty: "long_type_bits (hdr_ty h) = Some ty"
    and "header_to_bytes h cap = Some (octets_put_bytes (long_bytes h ty @ token_bytes h) cap [])"
    using header_to_bytes_eq [OF assms(1)] .
  then have w: "w = long_bytes h ty @ token_bytes h"
    using assms(2) by (auto simp: octets_put_bytes_def split: if_splits)
  have tok: "get_token (hdr_ty h) (token_bytes h @ r) = Inr ((hdr_token h, None), r)"
  proof (cases "hdr_token h")
    case None
    then show ?thesis using assms(1)
      by (auto simp: header_ok_def token_bytes_def get_token_def oct_ret_def split: pkt_type.split)
  next
    case (Some t)
    then have t: "hdr_ty h = Initial" "length t < 2 ^ 62" using assms(1) by (auto simp: header_ok_def)
    have "unat (of_nat (length t) :: u64) = length t"
      using t(2) by (intro unat_of_nat_u64) simp
    then show ?thesis using t Some octets_get_varint_bytes [OF t(2), of "t @ r"]
      by (simp add: get_token_def token_bytes_def octets_get_bytes_with_varint_length_def oct_ret_def)
  qed
  have "header_from_bytes n (w @ r) = Inr (\<lparr>hdr_ty = hdr_ty h, hdr_version = hdr_version h,
      hdr_dcid = hdr_dcid h, hdr_scid = hdr_scid h, hdr_pkt_num = 0, hdr_pkt_num_len = 0,
      hdr_token = hdr_token h, hdr_versions = None, hdr_key_phase = False\<rparr>, r)"
    using header_from_long [OF ty, of n "token_bytes h @ r"] assms(1) tok
    by (simp add: w header_ok_def oct_ret_def)
  then show ?thesis using assms(1) by (simp add: header_ok_def)
qed

subsection \<open>Retry\<close>

definition retry_bytes :: "bytes \<Rightarrow> bytes \<Rightarrow> bytes \<Rightarrow> bytes" where
  "retry_bytes scid new_scid token =
     long_bytes (retry_header scid new_scid token QUICHE_PROTOCOL_VERSION) 3 @ token"

lemma length_retry_bytes:
  "length (retry_bytes scid new_scid token) = 7 + length scid + length new_scid + length token"
  by (simp add: retry_bytes_def long_bytes_def retry_header_def del: be_bytes.simps)

lemma quiche_retry_iff:
  "quiche_retry tag scid dcid new_scid token version out_len = Inr p \<longleftrightarrow>
    version = QUICHE_PROTOCOL_VERSION \<and>
    (\<exists>t. tag (retry_bytes scid new_scid token) dcid version = Inr t
       \<and> length (retry_bytes scid new_scid token) + length t \<le> out_len
       \<and> p = retry_bytes scid new_scid token @ t)"
proof (cases "version = QUICHE_PROTOCOL_VERSION")
  case True
  let ?h = "retry_header scid new_scid token version"
  have "put_seq (octets_put_u8 (of_nat (hdr_pkt_num_len ?h - 1) OR (0x80 OR 0x40 OR push_bit 4 3)))
      (put_seq (octets_put_u32 (hdr_version ?h)) (put_seq (put_cid (hdr_dcid ?h)) (put_cid (hdr_scid ?h)))) out_len []
      = octets_put_bytes (long_bytes ?h 3) out_len []"
    by (simp only: octets_put_u8_def octets_put_u32_def long_bytes_def long_first_def put_cid_eq put_seq_bytes
        append_Cons append_Nil)
  then have "header_to_bytes ?h out_len =
      Some (case octets_put_bytes (long_bytes ?h 3) out_len [] of Inl e \<Rightarrow> Inl e | Inr w \<Rightarrow> octets_put_bytes token out_len w)"
    by (simp add: header_to_bytes_def Let_def retry_header_def split: sum.split)
  also have "\<dots> = Some (octets_put_bytes (retry_bytes scid new_scid token) out_len [])"
    using True by (auto simp: octets_put_bytes_def retry_bytes_def)
  finally have "header_to_bytes ?h out_len = Some (octets_put_bytes (retry_bytes scid new_scid token) out_len [])" .
  then show ?thesis using True
    by (auto simp: quiche_retry_def octets_put_bytes_def split: sum.splits if_splits)
next
  case False
  then show ?thesis by (simp add: quiche_retry_def version_is_supported_def)
qed

lemma header_from_retry:
  assumes "length scid \<le> 20" and "length new_scid \<le> 20" and "length t = 16"
  shows "header_from_bytes n (retry_bytes scid new_scid token @ t) =
    Inr (retry_header scid new_scid token QUICHE_PROTOCOL_VERSION, t)"
proof -
  let ?h = "retry_header scid new_scid token QUICHE_PROTOCOL_VERSION"
  have "get_token Retry (token @ t) = Inr ((Some token, None), t)"
    using assms(3) by (simp add: get_token_def oct_ret_def)
  then show ?thesis
    using header_from_long [of ?h 3 n "token @ t"] assms
    by (simp add: retry_bytes_def retry_header_def oct_ret_def)
qed

end
