(* ===== verification/QuicheApi.thy ===== *)
theory QuicheApi
  imports Packet
begin

text \<open>
  What the example programs rely on.  The engine's connection object is opaque in \<open>quiche.h\<close>: it is
  a type variable \<open>'c\<close>, and the functions on it are the records below, one field per prototype, with
  a buffer and its length as one byte string, an out-parameter as a component of the result and the
  object after the call last.  A negative return value is \<open>Inl\<close> of the error it encodes; with it, the
  two stream functions may set \<open>out_error_code\<close>, the \<open>u64 option\<close>.  Whatever a
  call reads of the clock or of random numbers is part of the object, except for the calls that
  create one, which get the history of the program.

  The operating system is the record \<open>environment\<close>: each answer is a function of the history, the
  list of the effects so far, latest first.
\<close>

section \<open>The program's effects\<close>

datatype event =
    Sendto int bytes sockaddr int
  | Timer_again nat u64
  | Timer_stop nat
  | Calloc nat
  | Conn_free nat
  | H3_conn_free nat
  | Free nat
  | Open_urandom
  | Ev_break
  | Stdout bytes
  | Stderr String.literal "int list"
  | Stderr_text String.literal "bytes list"

text \<open>
  \<open>Sendto sock data dest sent\<close> is a datagram handed to the kernel and what \<open>sendto\<close> returned;
  \<open>Timer_again p t\<close> is \<open>ev_timer_again\<close> on the timer of the connection at address \<open>p\<close> with repeat
  value \<open>t\<close> in nanoseconds; \<open>Open_urandom\<close> is a descriptor opened; \<open>Stderr\<close> is a diagnostic, its
  format and its integer arguments, \<open>Stderr_text\<close> one whose arguments are byte strings.
\<close>

type_synonym history = "event list"

definition perror :: "String.literal \<Rightarrow> event" where
  "perror s = Stderr s []"

text \<open>What \<open>%.*s\<close> prints of a byte string: the bytes before the first that is 0.\<close>

definition format_text :: "bytes \<Rightarrow> bytes" where
  "format_text b = takeWhile (\<lambda>x. x \<noteq> 0) b"

datatype urandom = Open_failed | Read_failed | Random bytes

record environment =
  env_sendto :: "history \<Rightarrow> int \<Rightarrow> bytes \<Rightarrow> sockaddr \<Rightarrow> int"
  env_calloc :: "history \<Rightarrow> bool"
  env_urandom :: "history \<Rightarrow> nat \<Rightarrow> urandom"
  env_rand_u8 :: "history \<Rightarrow> u8"
  env_stack :: "history \<Rightarrow> nat \<Rightarrow> bytes"
  env_hash_find :: "history \<Rightarrow> (bytes \<times> nat) list \<Rightarrow> bytes \<Rightarrow> nat option"

text \<open>
  \<open>env_stack tr n\<close> is the content of \<open>n\<close> uninitialised bytes of the stack; \<open>env_hash_find tr t k\<close> is
  the address that \<open>HASH_FIND\<close> of \<open>uthash\<close> gives for a key in a table of keys and addresses.  What a call of
  \<open>recvfrom\<close> gives: a datagram and its source address, the wish to block, or another error.
\<close>

datatype recvfrom = Datagram bytes sockaddr | Would_block | Recv_error

subsection \<open>Memory\<close>

text \<open>
  \<open>memcpy(dst + off, src, n)\<close> between two objects; \<open>None\<close> when it reads or writes out of bounds,
  which the programs never check.
\<close>

definition memcpy :: "bytes \<Rightarrow> nat \<Rightarrow> bytes \<Rightarrow> nat \<Rightarrow> bytes option" where
  "memcpy dst off src n =
     (if n \<le> length src \<and> off + n \<le> length dst
      then Some (take off dst @ take n src @ drop (off + n) dst) else None)"

lemma memcpy_append [simp]:
  "length x = off \<Longrightarrow> length y = length src \<Longrightarrow> memcpy (x @ y @ z) off src (length src) = Some (x @ src @ z)"
  by (simp add: memcpy_def)

lemma memcpy_length: "memcpy dst off src n = Some r \<Longrightarrow> length r = length dst"
  by (auto simp: memcpy_def split: if_splits)

lemma memcpy_Some_iff: "(\<exists>r. memcpy dst off src n = Some r) \<longleftrightarrow> n \<le> length src \<and> off + n \<le> length dst"
  by (simp add: memcpy_def)

section \<open>The C interface of the engine\<close>

record 'c quiche_constructors =
  quiche_accept :: "history \<Rightarrow> bytes \<Rightarrow> bytes \<Rightarrow> sockaddr \<Rightarrow> sockaddr \<Rightarrow> quiche_config \<Rightarrow> 'c option"
  quiche_connect :: "history \<Rightarrow> bytes \<Rightarrow> bytes \<Rightarrow> sockaddr \<Rightarrow> sockaddr \<Rightarrow> quiche_config \<Rightarrow> 'c option"

record 'c quiche_packets = "'c quiche_constructors" +
  quiche_conn_recv :: "'c \<Rightarrow> bytes \<Rightarrow> quiche_recv_info \<Rightarrow> (quiche_error + nat) \<times> 'c"
  quiche_conn_send :: "'c \<Rightarrow> nat \<Rightarrow> (quiche_error + bytes \<times> quiche_send_info) \<times> 'c"
  quiche_conn_send_quantum :: "'c \<Rightarrow> nat"
  quiche_conn_send_on_path ::
    "'c \<Rightarrow> nat \<Rightarrow> sockaddr \<Rightarrow> sockaddr \<Rightarrow> (quiche_error + bytes \<times> quiche_send_info) \<times> 'c"
  quiche_conn_send_quantum_on_path :: "'c \<Rightarrow> sockaddr \<Rightarrow> sockaddr \<Rightarrow> nat"
  quiche_conn_stream_recv ::
    "'c \<Rightarrow> u64 \<Rightarrow> nat \<Rightarrow> (quiche_error \<times> u64 option + bytes \<times> bool) \<times> 'c"
  quiche_conn_stream_send ::
    "'c \<Rightarrow> u64 \<Rightarrow> bytes \<Rightarrow> bool \<Rightarrow> (quiche_error \<times> u64 option + nat) \<times> 'c"

record 'c quiche_timers = "'c quiche_packets" +
  quiche_conn_readable :: "'c \<Rightarrow> u64 list"
  quiche_conn_writable :: "'c \<Rightarrow> u64 list"
  quiche_conn_max_send_udp_payload_size :: "'c \<Rightarrow> nat"
  quiche_conn_timeout_as_nanos :: "'c \<Rightarrow> u64"
  quiche_conn_timeout_as_millis :: "'c \<Rightarrow> u64"
  quiche_conn_on_timeout :: "'c \<Rightarrow> 'c"
  quiche_conn_close :: "'c \<Rightarrow> bool \<Rightarrow> u64 \<Rightarrow> bytes \<Rightarrow> (quiche_error + unit) \<times> 'c"

record 'c quiche_status = "'c quiche_timers" +
  quiche_conn_application_proto :: "'c \<Rightarrow> bytes"
  quiche_conn_peer_cert :: "'c \<Rightarrow> bytes"
  quiche_conn_session :: "'c \<Rightarrow> bytes"
  quiche_conn_server_name :: "'c \<Rightarrow> bytes"
  quiche_conn_is_established :: "'c \<Rightarrow> bool"
  quiche_conn_is_resumed :: "'c \<Rightarrow> bool"
  quiche_conn_is_in_early_data :: "'c \<Rightarrow> bool"
  quiche_conn_is_readable :: "'c \<Rightarrow> bool"
  quiche_conn_is_draining :: "'c \<Rightarrow> bool"
  quiche_conn_peer_streams_left_bidi :: "'c \<Rightarrow> u64"
  quiche_conn_peer_streams_left_uni :: "'c \<Rightarrow> u64"
  quiche_conn_is_closed :: "'c \<Rightarrow> bool"
  quiche_conn_is_timed_out :: "'c \<Rightarrow> bool"

text \<open>
  The statistics, and the integrity tag of a retry packet, which the engine computes with the AEAD of
  its TLS library.
\<close>

record 'c quiche_api = "'c quiche_status" +
  quiche_conn_stats :: "'c \<Rightarrow> quiche_stats"
  quiche_conn_path_stats :: "'c \<Rightarrow> nat \<Rightarrow> quiche_error + quiche_path_stats"
  compute_retry_integrity_tag :: retry_tag

subsection \<open>HTTP/3\<close>

text \<open>An event: its type and, for \<open>QUICHE_H3_EVENT_HEADERS\<close>, the headers.\<close>

record quiche_h3_event =
  h3_event_type :: quiche_h3_event_type
  h3_event_headers :: "quiche_h3_header list"

record ('c, 'h) quiche_h3_events =
  quiche_h3_conn_new_with_transport :: "'c \<Rightarrow> quiche_h3_config \<Rightarrow> 'h option \<times> 'c"
  quiche_h3_conn_poll :: "'h \<Rightarrow> 'c \<Rightarrow> (quiche_h3_error + u64 \<times> quiche_h3_event) \<times> 'h \<times> 'c"
  quiche_h3_peer_settings :: "'h \<Rightarrow> (u64 \<times> u64) list option"

record ('c, 'h) quiche_h3_api = "('c, 'h) quiche_h3_events" +
  quiche_h3_send_request ::
    "'h \<Rightarrow> 'c \<Rightarrow> quiche_h3_header list \<Rightarrow> bool \<Rightarrow> (quiche_h3_error + u64) \<times> 'h \<times> 'c"
  quiche_h3_send_response ::
    "'h \<Rightarrow> 'c \<Rightarrow> u64 \<Rightarrow> quiche_h3_header list \<Rightarrow> bool \<Rightarrow> (quiche_h3_error + unit) \<times> 'h \<times> 'c"
  quiche_h3_send_response_with_priority ::
    "'h \<Rightarrow> 'c \<Rightarrow> u64 \<Rightarrow> quiche_h3_header list \<Rightarrow> quiche_h3_priority \<Rightarrow> bool
      \<Rightarrow> (quiche_h3_error + unit) \<times> 'h \<times> 'c"
  quiche_h3_send_additional_headers ::
    "'h \<Rightarrow> 'c \<Rightarrow> u64 \<Rightarrow> quiche_h3_header list \<Rightarrow> bool \<Rightarrow> bool \<Rightarrow> (quiche_h3_error + unit) \<times> 'h \<times> 'c"
  quiche_h3_send_body :: "'h \<Rightarrow> 'c \<Rightarrow> u64 \<Rightarrow> bytes \<Rightarrow> bool \<Rightarrow> (quiche_h3_error + nat) \<times> 'h \<times> 'c"
  quiche_h3_recv_body :: "'h \<Rightarrow> 'c \<Rightarrow> u64 \<Rightarrow> nat \<Rightarrow> (quiche_h3_error + bytes) \<times> 'h \<times> 'c"

text \<open>
  The two iterations with a callback: it is run on each element until one run gives a value other
  than 0, which is returned.  \<open>-1\<close> while the peer's settings have not arrived.
\<close>

fun for_each :: "('a \<Rightarrow> history \<Rightarrow> int \<times> history) \<Rightarrow> 'a list \<Rightarrow> history \<Rightarrow> int \<times> history" where
  "for_each cb [] tr = (0, tr)"
| "for_each cb (x # xs) tr =
     (case cb x tr of (rc, tr') \<Rightarrow> if rc \<noteq> 0 then (rc, tr') else for_each cb xs tr')"

definition quiche_h3_event_for_each_header ::
  "quiche_h3_event \<Rightarrow> (quiche_h3_header \<Rightarrow> history \<Rightarrow> int \<times> history) \<Rightarrow> history \<Rightarrow> int \<times> history" where
  "quiche_h3_event_for_each_header ev cb = for_each cb (h3_event_headers ev)"

definition quiche_h3_for_each_setting ::
  "('c, 'h) quiche_h3_api \<Rightarrow> 'h \<Rightarrow> (u64 \<times> u64 \<Rightarrow> history \<Rightarrow> int \<times> history) \<Rightarrow> history \<Rightarrow> int \<times> history" where
  "quiche_h3_for_each_setting h3 h cb tr =
     (case quiche_h3_peer_settings h3 h of None \<Rightarrow> (- 1, tr) | Some settings \<Rightarrow> for_each cb settings tr)"

section \<open>Creating a configuration\<close>

definition is_reserved_version :: "u32 \<Rightarrow> bool" where
  "is_reserved_version version \<longleftrightarrow> version AND 0xfafafafa = version"

text \<open>\<open>tls_ok\<close> is whether the TLS library could make a context.\<close>

definition quiche_config_new :: "bool \<Rightarrow> u32 \<Rightarrow> quiche_config option" where
  "quiche_config_new tls_ok version =
     (if \<not> tls_ok then None
      else if \<not> is_reserved_version version \<and> \<not> version_is_supported version then None
      else Some \<lparr>config_version = version, config_calls = []\<rparr>)"

text \<open>How the engine reads the list of application protocols it is configured with.\<close>

function alpn_protocols :: "bytes \<Rightarrow> bytes list" where
  "alpn_protocols b =
     (case b of
        [] \<Rightarrow> []
      | len # r \<Rightarrow> if length r < unat len then [] else take (unat len) r # alpn_protocols (drop (unat len) r))"
  by pat_completeness auto
termination
  by (relation "measure length") auto

declare alpn_protocols.simps [simp del]

section \<open>What the programs assume of the engine\<close>

text \<open>
  \<open>quiche_conn_send\<close> writes into the buffer it is given, and a connection has only finitely many
  packets to send: some measure of it gets smaller with every packet.
\<close>

definition send_fits :: "'c quiche_api \<Rightarrow> bool" where
  "send_fits api \<longleftrightarrow> (\<forall>c n out i c'. quiche_conn_send api c n = (Inr (out, i), c') \<longrightarrow> length out \<le> n)"

definition send_ends :: "'c quiche_api \<Rightarrow> ('c \<Rightarrow> nat) \<Rightarrow> bool" where
  "send_ends api m \<longleftrightarrow> (\<forall>c n out i c'. quiche_conn_send api c n = (Inr (out, i), c') \<longrightarrow> m c' < m c)"

text \<open>
  The same for HTTP/3, where the measure is one of both objects: a poll that returns an event has used
  up something, and so has a read of a body that returns some of it; what the programs do in answer to
  an event queues no new ones.
\<close>

definition poll_ends :: "'c quiche_api \<Rightarrow> ('c, 'h) quiche_h3_api \<Rightarrow> ('h \<Rightarrow> 'c \<Rightarrow> nat) \<Rightarrow> bool" where
  "poll_ends api h3 m \<longleftrightarrow>
     (\<forall>h c s e h' c'. quiche_h3_conn_poll h3 h c = (Inr (s, e), h', c') \<longrightarrow> m h' c' < m h c)
   \<and> (\<forall>h c s hs fin r h' c'. quiche_h3_send_response h3 h c s hs fin = (r, h', c') \<longrightarrow> m h' c' \<le> m h c)
   \<and> (\<forall>h c s b fin r h' c'. quiche_h3_send_body h3 h c s b fin = (r, h', c') \<longrightarrow> m h' c' \<le> m h c)
   \<and> (\<forall>h c s n r h' c'. quiche_h3_recv_body h3 h c s n = (r, h', c') \<longrightarrow>
        (case r of Inr b \<Rightarrow> if b = [] then m h' c' \<le> m h c else m h' c' < m h c | Inl e \<Rightarrow> m h' c' \<le> m h c))
   \<and> (\<forall>h c app e reason r c'. quiche_conn_close api c app e reason = (r, c') \<longrightarrow> m h c' \<le> m h c)"

end
