(* ===== verification/Token.thy ===== *)
theory Token
  imports QuicheApi "HOL-Library.Monad_Syntax"
begin

text \<open>
  The address validation tokens of the two servers (\<open>mint_token\<close>, \<open>validate_token\<close> and the buffer
  sizes of \<open>server.c\<close>; \<open>http3-server.c\<close> has the same text) and the connection IDs (\<open>gen_cid\<close>).  A
  token is the string \<open>quiche\<close>, the client's socket address and the connection ID the client chose
  first; it is not authenticated.
\<close>

definition LOCAL_CONN_ID_LEN :: nat where
  "LOCAL_CONN_ID_LEN = 16"

definition MAX_DATAGRAM_SIZE :: nat where
  "MAX_DATAGRAM_SIZE = 1350"

text \<open>The characters of \<open>quiche\<close>, and \<open>sizeof(struct sockaddr_storage)\<close>.\<close>

definition quiche_str :: bytes where
  "quiche_str = [0x71, 0x75, 0x69, 0x63, 0x68, 0x65]"

definition SOCKADDR_STORAGE_LEN :: nat where
  "SOCKADDR_STORAGE_LEN = 128"

definition MAX_TOKEN_LEN :: nat where
  "MAX_TOKEN_LEN = length quiche_str + SOCKADDR_STORAGE_LEN + QUICHE_MAX_CONN_ID_LEN"

text \<open>
  \<open>mint_token\<close> writes into the caller's buffer and gives the length of the token; the address is
  its first \<open>addr_len\<close> bytes.
\<close>

definition mint_token :: "bytes \<Rightarrow> sockaddr \<Rightarrow> bytes \<Rightarrow> (bytes \<times> nat) option" where
  "mint_token dcid addr token =
     do {
       token \<leftarrow> memcpy token 0 quiche_str (length quiche_str);
       token \<leftarrow> memcpy token (length quiche_str) addr (length addr);
       token \<leftarrow> memcpy token (length quiche_str + length addr) dcid (length dcid);
       Some (token, length quiche_str + length addr + length dcid)
     }"

text \<open>\<open>validate_token\<close>: the original connection ID the token holds, when it is accepted.\<close>

definition validate_token :: "bytes \<Rightarrow> sockaddr \<Rightarrow> nat \<Rightarrow> bytes option" where
  "validate_token token addr odcid_len =
     (if length token < length quiche_str \<or> take (length quiche_str) token \<noteq> quiche_str then None
      else let token = drop (length quiche_str) token in
        if length token < length addr \<or> take (length addr) token \<noteq> addr then None
        else let token = drop (length addr) token in
          if odcid_len < length token then None
          else Some token)"

text \<open>
  \<open>gen_cid\<close>: the new connection ID, or \<open>None\<close> for \<open>NULL\<close>.  A short read leaves the rest of the
  buffer, which is on the stack, as it was; the descriptor is not closed.
\<close>

definition gen_cid :: "environment \<Rightarrow> nat \<Rightarrow> history \<Rightarrow> bytes option \<times> history" where
  "gen_cid env cid_len tr =
     (case env_urandom env tr cid_len of
        Open_failed \<Rightarrow> (None, perror (STR ''failed to open /dev/urandom'') # tr)
      | Read_failed \<Rightarrow> (None, perror (STR ''failed to create connection ID'') # Open_urandom # tr)
      | Random r \<Rightarrow>
          (Some (take cid_len r @ drop (length r) (env_stack env tr cid_len)), Open_urandom # tr))"

section \<open>Tokens\<close>

lemma length_quiche_str [simp]: "length quiche_str = 6"
  by (simp add: quiche_str_def)

lemma MAX_TOKEN_LEN_eq: "MAX_TOKEN_LEN = 154"
  by (simp add: MAX_TOKEN_LEN_def SOCKADDR_STORAGE_LEN_def QUICHE_MAX_CONN_ID_LEN_def)

text \<open>The token minted for an address and a connection ID.\<close>

definition token_of :: "sockaddr \<Rightarrow> bytes \<Rightarrow> bytes" where
  "token_of addr dcid = quiche_str @ addr @ dcid"

lemma length_token_of: "length (token_of addr dcid) = 6 + length addr + length dcid"
  by (simp add: token_of_def)

lemma mint_token_eq:
  assumes "length (token_of addr dcid) \<le> length token"
  shows "mint_token dcid addr token =
    Some (token_of addr dcid @ drop (length (token_of addr dcid)) token, length (token_of addr dcid))"
proof -
  have "take 6 (take 6 quiche_str @ drop 6 token) = quiche_str" by simp
  then show ?thesis
    using assms
    by (simp add: mint_token_def memcpy_def token_of_def add_ac)
qed

lemma mint_token_overflow:
  assumes "length token < length (token_of addr dcid)"
  shows "mint_token dcid addr token = None"
  using assms by (auto simp: mint_token_def memcpy_def token_of_def bind_eq_None_conv split: if_splits)

lemma validate_token_iff:
  "validate_token token addr n = Some odcid \<longleftrightarrow> token = token_of addr odcid \<and> length odcid \<le> n"
proof
  assume v: "validate_token token addr n = Some odcid"
  let ?t = "drop 6 token"
  from v have q: "take 6 token = quiche_str" and a: "take (length addr) ?t = addr"
    and o: "odcid = drop (length addr) ?t" "length odcid \<le> n"
    by (auto simp: validate_token_def Let_def split: if_splits)
  have "token = take 6 token @ take (length addr) ?t @ drop (length addr) ?t"
    by (simp only: append_take_drop_id)
  then show "token = token_of addr odcid \<and> length odcid \<le> n"
    using q a o by (simp add: token_of_def)
next
  assume "token = token_of addr odcid \<and> length odcid \<le> n"
  then show "validate_token token addr n = Some odcid"
    by (simp add: validate_token_def token_of_def Let_def)
qed

lemma token_of_inject:
  assumes "length a = length b"
  shows "token_of a c = token_of b d \<longleftrightarrow> a = b \<and> c = d"
  using assms by (simp add: token_of_def)

end
