(* ===== verification/ConnTable.thy ===== *)
theory ConnTable
  imports QuicheApi "HOL-Library.Monad_Syntax"
begin

text \<open>
  The hash table of connections of the two servers.  \<open>uthash\<close> is a header-only library outside the
  repository.  A table is the list of its entries in the order they were added, which is the order
  \<open>HASH_ITER\<close> visits them in; an entry has a key and the address it was allocated at, and an assignment
  through a pointer replaces the entry at that address.  Which address \<open>HASH_FIND\<close> gives for a key is a
  parameter, \<open>env_hash_find\<close>; what is documented of it is \<open>uthash_ok\<close>: an entry with the key, and
  \<open>NULL\<close> only when there is none.  When two entries have the same key, it is open which is found.  The
  servers' properties rest on the interfaces \<open>entry_table\<close> and \<open>conn_table\<close> only.
\<close>

definition entry_at :: "('i \<Rightarrow> nat) \<Rightarrow> nat \<Rightarrow> 'i list \<Rightarrow> 'i option" where
  "entry_at self p h = find (\<lambda>x. self x = p) h"

definition hash_find ::
  "environment \<Rightarrow> history \<Rightarrow> ('i \<Rightarrow> bytes) \<Rightarrow> ('i \<Rightarrow> nat) \<Rightarrow> bytes \<Rightarrow> 'i list \<Rightarrow> 'i option" where
  "hash_find env tr key self k h =
     (case env_hash_find env tr (map (\<lambda>x. (key x, self x)) h) k of
        None \<Rightarrow> None
      | Some p \<Rightarrow> entry_at self p h)"

definition uthash_ok :: "environment \<Rightarrow> bool" where
  "uthash_ok env \<longleftrightarrow> (\<forall>tr t k. case env_hash_find env tr t k of
     None \<Rightarrow> k \<notin> fst ` set t | Some p \<Rightarrow> (k, p) \<in> set t)"

definition hash_add :: "'i list \<Rightarrow> 'i \<Rightarrow> 'i list" where
  "hash_add h x = h @ [x]"

definition hash_delete :: "('i \<Rightarrow> nat) \<Rightarrow> nat \<Rightarrow> 'i list \<Rightarrow> 'i list" where
  "hash_delete self p h = filter (\<lambda>x. self x \<noteq> p) h"

definition store_at :: "('i \<Rightarrow> nat) \<Rightarrow> 'i \<Rightarrow> 'i list \<Rightarrow> 'i list" where
  "store_at self x h = map (\<lambda>y. if self y = self x then x else y) h"

lemma entry_at_Some: "entry_at self p h = Some x \<Longrightarrow> x \<in> set h \<and> self x = p"
  by (auto simp: entry_at_def find_Some_iff)

lemma entry_at_None_iff: "entry_at self p h = None \<longleftrightarrow> p \<notin> self ` set h"
  by (auto simp: entry_at_def find_None_iff)

text \<open>
  A table is in order when no two entries share an address or a key; \<open>key_map\<close> is the finite map it
  stands for.  Every table can be seen as a map from addresses, with the address as key; it is one from
  the connection IDs only as long as these are distinct.
\<close>

definition entries_ok :: "('i \<Rightarrow> 'k) \<Rightarrow> ('i \<Rightarrow> nat) \<Rightarrow> 'i list \<Rightarrow> bool" where
  "entries_ok key self xs \<longleftrightarrow> distinct (map self xs) \<and> distinct (map key xs)"

definition key_map :: "('i \<Rightarrow> 'k) \<Rightarrow> 'i list \<Rightarrow> 'k \<Rightarrow> 'i option" where
  "key_map key xs = map_of (map (\<lambda>x. (key x, x)) xs)"

lemma entries_ok_simps [simp]:
  "entries_ok key self []"
  "entries_ok key self (x # xs) \<longleftrightarrow> self x \<notin> self ` set xs \<and> key x \<notin> key ` set xs \<and> entries_ok key self xs"
  by (auto simp: entries_ok_def)

lemma entries_ok_self [simp]: "entries_ok self self xs = distinct (map self xs)"
  by (simp add: entries_ok_def)

lemma entries_ok_append:
  "entries_ok key self (xs @ [x]) \<longleftrightarrow> self x \<notin> self ` set xs \<and> key x \<notin> key ` set xs \<and> entries_ok key self xs"
  by (auto simp: entries_ok_def)

lemma entries_ok_filter: "entries_ok key self xs \<Longrightarrow> entries_ok key self (filter P xs)"
  by (auto simp: entries_ok_def distinct_map_filter)

lemma entries_ok_unique:
  "entries_ok key self xs \<Longrightarrow> x \<in> set xs \<Longrightarrow> y \<in> set xs \<Longrightarrow> self x = self y \<or> key x = key y \<Longrightarrow> x = y"
  by (auto simp: entries_ok_def distinct_map dest: inj_onD)

lemma entries_ok_map:
  assumes "\<And>x. x \<in> set xs \<Longrightarrow> self (f x) = self x \<and> key (f x) = key x"
  shows "entries_ok key self (map f xs) = entries_ok key self xs"
proof -
  have "map (self \<circ> f) xs = map self xs" "map (key \<circ> f) xs = map key xs" using assms by simp_all
  then show ?thesis by (simp only: entries_ok_def map_map)
qed

lemma key_map_Some_iff:
  assumes "entries_ok key self xs"
  shows "key_map key xs k = Some x \<longleftrightarrow> x \<in> set xs \<and> key x = k"
proof -
  have "distinct (map fst (map (\<lambda>x. (key x, x)) xs))"
    using assms by (simp add: entries_ok_def comp_def)
  then show ?thesis by (auto simp: key_map_def map_of_eq_Some_iff)
qed

lemma key_map_None_iff: "key_map key xs k = None \<longleftrightarrow> k \<notin> key ` set xs"
  by (simp add: key_map_def map_of_eq_None_iff image_image)

lemma key_map_append_known:
  assumes "key x \<in> key ` set xs"
  shows "key_map key (xs @ [x]) = key_map key xs"
proof
  fix k
  have "key_map key xs (key x) \<noteq> None" using assms by (simp add: key_map_None_iff)
  then show "key_map key (xs @ [x]) k = key_map key xs k"
    by (cases "key_map key xs k") (auto simp: key_map_def map_add_def)
qed

lemma key_map_append:
  assumes "key x \<notin> key ` set xs"
  shows "key_map key (xs @ [x]) = (key_map key xs)(key x \<mapsto> x)"
proof
  fix k
  have "map_of (map (\<lambda>x. (key x, x)) xs) (key x) = None"
    using assms by (simp add: map_of_eq_None_iff image_image)
  then show "key_map key (xs @ [x]) k = ((key_map key xs)(key x \<mapsto> x)) k"
    by (cases "map_of (map (\<lambda>x. (key x, x)) xs) k") (auto simp: key_map_def map_add_def)
qed

lemma key_map_SomeD: "key_map key xs k = Some x \<Longrightarrow> x \<in> set xs \<and> key x = k"
  by (auto simp: key_map_def dest: map_of_SomeD)

section \<open>The interfaces\<close>

text \<open>What the operations make of the entries, and what a lookup gives when it is as documented.\<close>

locale entry_table =
  fixes key :: "'i \<Rightarrow> 'k" and self :: "'i \<Rightarrow> nat"
    and entries :: "'t \<Rightarrow> 'i list"
    and add :: "'t \<Rightarrow> 'i \<Rightarrow> 't"
    and delete :: "nat \<Rightarrow> 't \<Rightarrow> 't"
    and assign :: "'i \<Rightarrow> 't \<Rightarrow> 't"
  assumes entries_add: "entries (add t x) = entries t @ [x]"
    and entries_delete: "entries (delete p t) = filter (\<lambda>x. self x \<noteq> p) (entries t)"
    and entries_assign: "entries (assign x t) = map (\<lambda>y. if self y = self x then x else y) (entries t)"
begin

abbreviation ok :: "'t \<Rightarrow> bool" where
  "ok t \<equiv> entries_ok key self (entries t)"

abbreviation amap :: "'t \<Rightarrow> 'k \<Rightarrow> 'i option" where
  "amap t \<equiv> key_map key (entries t)"

lemma ok_add: "ok t \<Longrightarrow> key x \<notin> key ` set (entries t) \<Longrightarrow> self x \<notin> self ` set (entries t) \<Longrightarrow> ok (add t x)"
  by (simp add: entries_add entries_ok_append)

lemma amap_add: "key x \<notin> key ` set (entries t) \<Longrightarrow> amap (add t x) = (amap t)(key x \<mapsto> x)"
  by (simp add: entries_add key_map_append)

lemma ok_delete: "ok t \<Longrightarrow> ok (delete p t)"
  by (simp add: entries_delete entries_ok_filter)

lemma amap_delete:
  assumes "ok t" and "x \<in> set (entries t)"
  shows "amap (delete (self x) t) = (amap t)(key x := None)"
proof
  fix k
  have ok': "ok (delete (self x) t)" using assms(1) by (rule ok_delete)
  have "amap (delete (self x) t) k = Some y \<longleftrightarrow> ((amap t)(key x := None)) k = Some y" for y
    unfolding key_map_Some_iff [OF ok'] fun_upd_apply
    using entries_ok_unique [OF assms(1) _ assms(2), of y]
    by (auto simp: key_map_Some_iff [OF assms(1)] entries_delete)
  then show "amap (delete (self x) t) k = ((amap t)(key x := None)) k"
    by (metis not_Some_eq)
qed

lemma ok_assign:
  assumes "ok t" and "x \<in> set (entries t)" and "self x' = self x" and "key x' = key x"
  shows "ok (assign x' t)"
proof -
  have "\<And>y. y \<in> set (entries t) \<Longrightarrow> self y = self x \<Longrightarrow> y = x"
    using entries_ok_unique [OF assms(1)] assms(2) by blast
  then have "entries_ok key self (map (\<lambda>y. if self y = self x' then x' else y) (entries t)) = ok t"
    by (intro entries_ok_map) (use assms in auto)
  with assms(1) show ?thesis by (simp only: entries_assign)
qed

lemma amap_assign:
  assumes "ok t" and "x \<in> set (entries t)" and "self x' = self x" and "key x' = key x"
  shows "amap (assign x' t) = (amap t)(key x \<mapsto> x')"
proof
  fix k
  have ok': "ok (assign x' t)" using assms by (rule ok_assign)
  have "amap (assign x' t) k = Some y \<longleftrightarrow> ((amap t)(key x \<mapsto> x')) k = Some y" for y
    unfolding key_map_Some_iff [OF ok'] fun_upd_apply
    using entries_ok_unique [OF assms(1) _ assms(2)] assms(2-4)
    by (auto simp: key_map_Some_iff [OF assms(1)] entries_assign)
  then show "amap (assign x' t) k = ((amap t)(key x \<mapsto> x')) k"
    by (metis not_Some_eq)
qed

end

locale conn_table = entry_table key self entries add delete assign
  for key :: "'i \<Rightarrow> 'k" and self :: "'i \<Rightarrow> nat"
    and entries :: "'t \<Rightarrow> 'i list"
    and add :: "'t \<Rightarrow> 'i \<Rightarrow> 't"
    and delete :: "nat \<Rightarrow> 't \<Rightarrow> 't"
    and assign :: "'i \<Rightarrow> 't \<Rightarrow> 't" +
  fixes lookup :: "'k \<Rightarrow> 't \<Rightarrow> 'i option" and lawful :: bool
  assumes lookup_Some: "lawful \<Longrightarrow> distinct (map self (entries t)) \<Longrightarrow> lookup k t = Some x
      \<Longrightarrow> x \<in> set (entries t) \<and> key x = k"
    and lookup_None: "lawful \<Longrightarrow> lookup k t = None \<longleftrightarrow> k \<notin> key ` set (entries t)"
begin

lemma lookup_amap: "lawful \<Longrightarrow> ok t \<Longrightarrow> lookup k t = amap t k"
proof (cases "lookup k t")
  case None
  assume lawful
  then have "amap t k = None" using None lookup_None [of k t] by (simp add: key_map_None_iff)
  with None show ?thesis by simp
next
  case (Some x)
  assume lawful and "ok t"
  moreover from this have "distinct (map self (entries t))" by (simp add: entries_ok_def)
  ultimately have "amap t k = Some x" using lookup_Some [OF _ _ Some] by (simp add: key_map_Some_iff)
  with Some show ?thesis by simp
qed

end

lemma list_entry_table: "entry_table self (\<lambda>h. h) hash_add (hash_delete self) (store_at self)"
  by unfold_locales (simp_all add: hash_add_def hash_delete_def store_at_def)

lemma uthash_okD:
  assumes "uthash_ok env"
  shows "env_hash_find env tr t k = None \<Longrightarrow> k \<notin> fst ` set t"
    and "env_hash_find env tr t k = Some p \<Longrightarrow> (k, p) \<in> set t"
  using assms [unfolded uthash_ok_def, THEN spec [of _ tr], THEN spec [of _ t], THEN spec [of _ k]] by simp_all

lemma hash_find_None:
  assumes "uthash_ok env"
  shows "hash_find env tr key self k h = None \<longleftrightarrow> k \<notin> key ` set h"
proof (cases "env_hash_find env tr (map (\<lambda>x. (key x, self x)) h) k")
  case None
  then have "k \<notin> fst ` set (map (\<lambda>x. (key x, self x)) h)" by (rule uthash_okD(1) [OF assms])
  then show ?thesis using None by (simp add: hash_find_def image_image)
next
  case (Some p)
  then have "(k, p) \<in> set (map (\<lambda>x. (key x, self x)) h)" by (rule uthash_okD(2) [OF assms])
  then obtain x where "x \<in> set h" "key x = k" "self x = p" by auto
  then show ?thesis using Some entry_at_None_iff [of self p h] by (auto simp: hash_find_def)
qed

lemma hash_find_Some:
  assumes "uthash_ok env" and "distinct (map self h)" and "hash_find env tr key self k h = Some x"
  shows "x \<in> set h \<and> key x = k"
proof (cases "env_hash_find env tr (map (\<lambda>x. (key x, self x)) h) k")
  case (Some p)
  then have "(k, p) \<in> set (map (\<lambda>x. (key x, self x)) h)" by (rule uthash_okD(2) [OF assms(1)])
  then obtain y where y: "y \<in> set h" "key y = k" "self y = p" by auto
  have "x \<in> set h" "self x = p" using assms(3) Some entry_at_Some [of self p h x] by (auto simp: hash_find_def)
  then show ?thesis using inj_onD [OF distinct_map [THEN iffD1, OF assms(2), THEN conjunct2], of x y] y by auto
qed (use assms(3) in \<open>simp add: hash_find_def\<close>)

interpretation tab: conn_table key self "\<lambda>h. h" hash_add "hash_delete self" "store_at self"
    "hash_find env tr key self" "uthash_ok env"
  for key :: "'i \<Rightarrow> bytes" and self :: "'i \<Rightarrow> nat" and env :: environment and tr :: history
proof (intro conn_table.intro conn_table_axioms.intro)
  show "entry_table self (\<lambda>h. h) hash_add (hash_delete self) (store_at self)" by (rule list_entry_table)
qed (fact hash_find_Some hash_find_None)+

text \<open>The table by address: what may share a connection ID does not share an address.\<close>

interpretation addr: entry_table self self "\<lambda>h. h" hash_add "hash_delete self" "store_at self"
  for self :: "'i \<Rightarrow> nat"
  by (rule list_entry_table)

end
