(* ===== verification/Egress.thy ===== *)
theory Egress
  imports Token ConnTable
begin

text \<open>
  The send loop that the four programs share (the body of each \<open>flush_egress\<close>), its specification by
  the packets the engine hands out, and its termination.  \<open>None\<close> is a loop that never ends.  A trace
  only grows; \<open>extends P tr tr'\<close> says that what was added to \<open>tr\<close> is all \<open>P\<close>.
\<close>

section \<open>Traces\<close>

definition extends :: "(event \<Rightarrow> bool) \<Rightarrow> history \<Rightarrow> history \<Rightarrow> bool" where
  "extends P tr tr' \<longleftrightarrow> (\<exists>es. tr' = es @ tr \<and> (\<forall>e \<in> set es. P e))"

named_theorems extends_intros \<open>steps that extend a trace\<close>

lemma extends_refl [simp, extends_intros]: "extends P tr tr"
  by (simp add: extends_def)

lemma extends_Cons [extends_intros]: "P e \<Longrightarrow> extends P tr tr' \<Longrightarrow> extends P tr (e # tr')"
  by (auto simp: extends_def)

lemma extends_trans: "extends P tr tr' \<Longrightarrow> extends P tr' tr'' \<Longrightarrow> extends P tr tr''"
  by (fastforce simp: extends_def)

lemma extends_mono: "extends P tr tr' \<Longrightarrow> (\<And>e. P e \<Longrightarrow> Q e) \<Longrightarrow> extends Q tr tr'"
  by (auto simp: extends_def)

lemma extends_filter:
  "extends P tr tr' \<Longrightarrow> (\<And>e. P e \<Longrightarrow> \<not> Q e) \<Longrightarrow> filter Q tr' = filter Q tr"
  by (auto simp: extends_def filter_empty_conv)

text \<open>The datagrams a trace hands to the kernel, latest first: socket, bytes, destination.\<close>

fun sent_of :: "event \<Rightarrow> (int \<times> bytes \<times> sockaddr) list" where
  "sent_of (Sendto s d a r) = [(s, d, a)]"
| "sent_of _ = []"

definition sent :: "history \<Rightarrow> (int \<times> bytes \<times> sockaddr) list" where
  "sent tr = concat (map sent_of tr)"

lemma sent_simps [simp]: "sent [] = []" "sent (e # tr) = sent_of e @ sent tr"
  by (simp_all add: sent_def)

lemma sent_memD: "(s, d, a) \<in> set (sent tr) \<Longrightarrow> \<exists>r. Sendto s d a r \<in> set tr"
proof (induction tr)
  case (Cons e tr)
  then show ?case by (cases e) auto
qed simp

text \<open>An effect of an endpoint on socket \<open>s\<close>: a datagram goes out on \<open>s\<close> and fits the buffer.\<close>

fun event_ok :: "int \<Rightarrow> event \<Rightarrow> bool" where
  "event_ok s (Sendto s' d a r) \<longleftrightarrow> s' = s \<and> length d \<le> MAX_DATAGRAM_SIZE"
| "event_ok s _ \<longleftrightarrow> True"

lemma perror_ok [simp]: "event_ok s (perror m)" "sent_of (perror m) = []"
  by (simp_all add: perror_def)

text \<open>
  The timers that are running: \<open>ev_timer_again\<close> starts a timer, or stops it when its repeat value is 0.
  The connections that have been freed, latest first.
\<close>

fun armed :: "history \<Rightarrow> nat set" where
  "armed [] = {}"
| "armed (Timer_again p t # tr) = (if t = 0 then armed tr - {p} else insert p (armed tr))"
| "armed (Timer_stop p # tr) = armed tr - {p}"
| "armed (_ # tr) = armed tr"

fun freed_of :: "event \<Rightarrow> nat list" where
  "freed_of (Free p) = [p]"
| "freed_of _ = []"

definition freed :: "history \<Rightarrow> nat list" where
  "freed tr = concat (map freed_of tr)"

lemma freed_simps [simp]: "freed [] = []" "freed (e # tr) = freed_of e @ freed tr"
  by (simp_all add: freed_def)

lemma freed_append: "freed (xs @ ys) = freed xs @ freed ys"
  by (simp add: freed_def)

text \<open>An effect that concerns neither timers nor memory.\<close>

fun io_event :: "event \<Rightarrow> bool" where
  "io_event (Timer_again p t) = False"
| "io_event (Timer_stop p) = False"
| "io_event (Calloc p) = False"
| "io_event (Conn_free p) = False"
| "io_event (Free p) = False"
| "io_event _ = True"

lemma perror_io [simp]: "io_event (perror m)"
  by (simp add: perror_def)

lemma extends_io:
  assumes "extends io_event tr tr'"
  shows "armed tr' = armed tr" and "freed tr' = freed tr"
proof -
  have "armed (es @ tr) = armed tr \<and> freed (es @ tr) = freed tr" if "\<forall>e \<in> set es. io_event e" for es
    using that
  proof (induction es)
    case (Cons e es)
    then show ?case by (cases e) simp_all
  qed simp
  then show "armed tr' = armed tr" and "freed tr' = freed tr" using assms by (auto simp: extends_def)
qed

section \<open>The send loop\<close>

text \<open>
  One turn asks the engine for a packet and hands it to the kernel.  \<open>True\<close> is the exit by
  \<open>QUICHE_ERR_DONE\<close>, after which the caller sets its timer; \<open>False\<close> is one of the two early returns.
\<close>

partial_function (option) send_loop ::
  "'c quiche_api \<Rightarrow> environment \<Rightarrow> (quiche_send_info \<Rightarrow> sockaddr) \<Rightarrow> int \<Rightarrow> 'c \<Rightarrow> history
    \<Rightarrow> (bool \<times> 'c \<times> history) option" where
  "send_loop api env dest sock c tr =
     (case quiche_conn_send api c MAX_DATAGRAM_SIZE of
        (Inl e, c') \<Rightarrow>
          if e = QUICHE_ERR_DONE then Some (True, c', Stderr (STR ''done writing'') [] # tr)
          else Some (False, c', Stderr (STR ''failed to create packet: %zd'') [quiche_error_code e] # tr)
      | (Inr (out, send_info), c') \<Rightarrow>
          let written = int (length out);
              sent = env_sendto env tr sock out (dest send_info);
              tr' = Sendto sock out (dest send_info) sent # tr
          in if sent \<noteq> written then Some (False, c', perror (STR ''failed to send'') # tr')
             else send_loop api env dest sock c' (Stderr (STR ''sent %zd bytes'') [sent] # tr'))"

declare send_loop.simps [code]

text \<open>
  The packets that the engine hands out from a state on, up to the error that ends them.
\<close>

inductive emits ::
  "'c quiche_api \<Rightarrow> 'c \<Rightarrow> (bytes \<times> quiche_send_info) list \<Rightarrow> quiche_error \<Rightarrow> 'c \<Rightarrow> bool" for api where
  emits_end: "quiche_conn_send api c MAX_DATAGRAM_SIZE = (Inl e, c') \<Longrightarrow> emits api c [] e c'"
| emits_packet: "quiche_conn_send api c MAX_DATAGRAM_SIZE = (Inr p, c1) \<Longrightarrow> emits api c1 ps e c'
    \<Longrightarrow> emits api c (p # ps) e c'"

inductive_cases emits_NilE: "emits api c [] e c'"
inductive_cases emits_ConsE: "emits api c (p # ps) e c'"

lemma emits_unique: "emits api c ps e c' \<Longrightarrow> emits api c qs f c'' \<Longrightarrow> ps = qs \<and> e = f \<and> c' = c''"
proof (induction arbitrary: qs rule: emits.induct)
  case (emits_end c e c')
  then show ?case by (auto elim: emits.cases)
next
  case (emits_packet c p c1 ps e c')
  from emits_packet.prems emits_packet.hyps(1) obtain qs' where "qs = p # qs'" "emits api c1 qs' f c''"
    by (auto elim: emits.cases)
  then show ?case using emits_packet.IH by blast
qed

lemma emits_exists:
  assumes "send_ends api m"
  shows "\<exists>ps e c'. emits api c ps e c'"
proof (induction "m c" arbitrary: c rule: less_induct)
  case less
  obtain r c1 where s: "quiche_conn_send api c MAX_DATAGRAM_SIZE = (r, c1)" by fastforce
  show ?case
  proof (cases r)
    case (Inl e)
    then show ?thesis using s by (blast intro: emits_end)
  next
    case (Inr p)
    then have "m c1 < m c" using s assms by (cases p) (auto simp: send_ends_def)
    from less [OF this] obtain ps e c' where "emits api c1 ps e c'" by blast
    then show ?thesis using s Inr by (blast intro: emits_packet)
  qed
qed

text \<open>The loop ends whenever the engine's packets do.\<close>

lemma send_loop_total:
  assumes "send_ends api m"
  shows "\<exists>r. send_loop api env dest sock c tr = Some r"
proof (induction "m c" arbitrary: c tr rule: less_induct)
  case less
  obtain r c1 where s: "quiche_conn_send api c MAX_DATAGRAM_SIZE = (r, c1)" by fastforce
  show ?case
  proof (cases r)
    case (Inl e)
    then have "send_loop api env dest sock c tr =
        Some (if e = QUICHE_ERR_DONE then (True, c1, Stderr (STR ''done writing'') [] # tr)
          else (False, c1, Stderr (STR ''failed to create packet: %zd'') [quiche_error_code e] # tr))"
      using s by (subst send_loop.simps) simp
    then show ?thesis by blast
  next
    case (Inr p)
    then have "m c1 < m c" using s assms by (cases p) (auto simp: send_ends_def)
    then have "\<exists>r. send_loop api env dest sock c1 tr' = Some r" for tr' by (rule less)
    then show ?thesis using s Inr by (subst send_loop.simps) (auto simp: Let_def split: prod.split)
  qed
qed

text \<open>The same loop as a big-step relation, one rule per way a turn can go.\<close>

inductive send_run ::
  "'c quiche_api \<Rightarrow> environment \<Rightarrow> (quiche_send_info \<Rightarrow> sockaddr) \<Rightarrow> int \<Rightarrow> 'c \<Rightarrow> history
    \<Rightarrow> bool \<Rightarrow> 'c \<Rightarrow> history \<Rightarrow> bool" for api env dest sock where
  run_done: "quiche_conn_send api c MAX_DATAGRAM_SIZE = (Inl QUICHE_ERR_DONE, c') \<Longrightarrow>
     send_run api env dest sock c tr True c' (Stderr (STR ''done writing'') [] # tr)"
| run_error: "quiche_conn_send api c MAX_DATAGRAM_SIZE = (Inl e, c') \<Longrightarrow> e \<noteq> QUICHE_ERR_DONE \<Longrightarrow>
     send_run api env dest sock c tr False c'
       (Stderr (STR ''failed to create packet: %zd'') [quiche_error_code e] # tr)"
| run_refused: "quiche_conn_send api c MAX_DATAGRAM_SIZE = (Inr (out, i), c') \<Longrightarrow>
     n = env_sendto env tr sock out (dest i) \<Longrightarrow> n \<noteq> int (length out) \<Longrightarrow>
     send_run api env dest sock c tr False c' (perror (STR ''failed to send'') # Sendto sock out (dest i) n # tr)"
| run_sent: "quiche_conn_send api c MAX_DATAGRAM_SIZE = (Inr (out, i), c1) \<Longrightarrow>
     n = env_sendto env tr sock out (dest i) \<Longrightarrow> n = int (length out) \<Longrightarrow>
     send_run api env dest sock c1 (Stderr (STR ''sent %zd bytes'') [n] # Sendto sock out (dest i) n # tr) b c' tr' \<Longrightarrow>
     send_run api env dest sock c tr b c' tr'"

lemma send_loop_body:
  assumes rec: "\<And>api env dest sock c tr r. f api env dest sock c tr = Some r \<Longrightarrow>
      send_run api env dest sock c tr (fst r) (fst (snd r)) (snd (snd r))"
    and body: "(case quiche_conn_send api c MAX_DATAGRAM_SIZE of
        (Inl e, c') \<Rightarrow>
          if e = QUICHE_ERR_DONE then Some (True, c', Stderr (STR ''done writing'') [] # tr)
          else Some (False, c', Stderr (STR ''failed to create packet: %zd'') [quiche_error_code e] # tr)
      | (Inr (out, send_info), c') \<Rightarrow>
          let written = int (length out);
              sent = env_sendto env tr sock out (dest send_info);
              tr' = Sendto sock out (dest send_info) sent # tr
          in if sent \<noteq> written then Some (False, c', perror (STR ''failed to send'') # tr')
             else f api env dest sock c' (Stderr (STR ''sent %zd bytes'') [sent] # tr')) = Some r"
  shows "send_run api env dest sock c tr (fst r) (fst (snd r)) (snd (snd r))"
proof -
  obtain x c1 where s: "quiche_conn_send api c MAX_DATAGRAM_SIZE = (x, c1)" by fastforce
  show ?thesis
  proof (cases x)
    case (Inl e)
    then show ?thesis using body s by (auto simp: run_done run_error split: if_splits)
  next
    case (Inr p)
    obtain out i where p: "p = (out, i)" by fastforce
    show ?thesis
    proof (cases "env_sendto env tr sock out (dest i) = int (length out)")
      case True
      then have "f api env dest sock c1 (Stderr (STR ''sent %zd bytes'') [int (length out)]
          # Sendto sock out (dest i) (int (length out)) # tr) = Some r"
        using body s Inr p by (simp add: Let_def)
      from rec [OF this] show ?thesis using s Inr p True by (intro run_sent [of api c out i c1]) simp_all
    next
      case False
      then show ?thesis using body s Inr p run_refused [of api c out i c1] by (auto simp: Let_def)
    qed
  qed
qed

lemma send_loop_imp_run:
  assumes "send_loop api env dest sock c tr = Some r"
  shows "send_run api env dest sock c tr (fst r) (fst (snd r)) (snd (snd r))"
proof -
  let ?P = "\<lambda>api env dest sock c tr r. send_run api env dest sock c tr (fst r) (fst (snd r)) (snd (snd r))"
  show ?thesis
    by (rule send_loop.raw_induct [where P = ?P, OF _ assms]) (rule send_loop_body)
qed

lemma run_imp_send_loop: "send_run api env dest sock c tr b c' tr' \<Longrightarrow> send_loop api env dest sock c tr = Some (b, c', tr')"
  by (induction rule: send_run.induct) (subst send_loop.simps, simp add: Let_def)+

lemma send_loop_iff: "send_loop api env dest sock c tr = Some (b, c', tr') \<longleftrightarrow> send_run api env dest sock c tr b c' tr'"
  using send_loop_imp_run [of api env dest sock c tr "(b, c', tr')"] run_imp_send_loop by auto

lemma send_fitsD: "quiche_conn_send api c n = (Inr (out, i), c') \<Longrightarrow> send_fits api \<Longrightarrow> length out \<le> n"
  unfolding send_fits_def by blast

lemma send_run_extends:
  "send_run api env dest sock c tr b c' tr' \<Longrightarrow> send_fits api \<Longrightarrow> extends (event_ok sock) tr tr'"
proof (induction rule: send_run.induct)
  case (run_refused c out i c' n tr)
  then have "length out \<le> MAX_DATAGRAM_SIZE" by (blast dest: send_fitsD)
  then show ?case by (intro extends_intros) simp_all
next
  case (run_sent c out i c1 n tr b c' tr')
  then have "length out \<le> MAX_DATAGRAM_SIZE" by (blast dest: send_fitsD)
  then have "extends (event_ok sock) tr (Stderr (STR ''sent %zd bytes'') [n] # Sendto sock out (dest i) n # tr)"
    by (intro extends_intros) simp_all
  from this run_sent.IH [OF run_sent.prems] show ?case by (rule extends_trans)
qed (auto intro!: extends_intros)

lemma send_run_io: "send_run api env dest sock c tr b c' tr' \<Longrightarrow> extends io_event tr tr'"
proof (induction rule: send_run.induct)
  case (run_sent c out i c1 n tr b c' tr')
  have "extends io_event tr (Stderr (STR ''sent %zd bytes'') [n] # Sendto sock out (dest i) n # tr)"
    by (intro extends_intros) simp_all
  from this run_sent.IH show ?case by (rule extends_trans)
qed (auto intro!: extends_intros)

text \<open>
  When the loop ends by \<open>QUICHE_ERR_DONE\<close>, exactly the packets the engine had were sent, each once, in
  the order they were made and to the destination chosen; otherwise a first part of them was handed
  to the kernel.
\<close>

lemma send_run_done:
  "send_run api env dest sock c tr b c' tr' \<Longrightarrow> b \<Longrightarrow>
    \<exists>ps. emits api c ps QUICHE_ERR_DONE c' \<and> sent tr' = rev (map (\<lambda>(out, i). (sock, out, dest i)) ps) @ sent tr"
proof (induction rule: send_run.induct)
  case (run_done c c' tr)
  then show ?case by (auto intro: emits_end)
next
  case (run_sent c out i c1 n tr b c' tr')
  then obtain ps where "emits api c1 ps QUICHE_ERR_DONE c'"
    "sent tr' = rev (map (\<lambda>(out, i). (sock, out, dest i)) ps) @ (sock, out, dest i) # sent tr" by auto
  then have "emits api c ((out, i) # ps) QUICHE_ERR_DONE c'"
    "sent tr' = rev (map (\<lambda>(out, i). (sock, out, dest i)) ((out, i) # ps)) @ sent tr"
    using run_sent.hyps(1) by (auto intro: emits_packet)
  then show ?case by blast
qed simp_all

lemma send_run_prefix:
  "send_run api env dest sock c tr b c' tr' \<Longrightarrow> emits api c ps e c'' \<Longrightarrow>
    \<exists>k \<le> length ps. sent tr' = rev (map (\<lambda>(out, i). (sock, out, dest i)) (take k ps)) @ sent tr"
proof (induction arbitrary: ps rule: send_run.induct)
  case (run_refused c out i c' n tr)
  then obtain qs where "ps = (out, i) # qs" by (auto elim: emits.cases)
  then show ?case by (intro exI [of _ 1]) simp
next
  case (run_sent c out i c1 n tr b c' tr')
  then obtain qs where ps: "ps = (out, i) # qs" "emits api c1 qs e c''" by (auto elim: emits.cases)
  from run_sent.IH [OF ps(2)] obtain k where "k \<le> length qs"
    "sent tr' = rev (map (\<lambda>(out, i). (sock, out, dest i)) (take k qs)) @ (sock, out, dest i) # sent tr"
    by auto
  then show ?case using ps(1) by (intro exI [of _ "Suc k"]) simp
qed (auto intro: exI [of _ 0])

section \<open>Visiting every connection\<close>

text \<open>
  The last part of both servers' \<open>recv_cb\<close> (\<open>HASH_ITER\<close>): every connection is flushed, and the closed
  ones are taken out.  The three steps are the parameters; \<open>retire\<close> records what is done to a closed
  connection.
\<close>

fun sweep ::
  "('i \<Rightarrow> history \<Rightarrow> ('i \<times> history) option) \<Rightarrow> ('i \<Rightarrow> bool) \<Rightarrow> ('i \<Rightarrow> history \<Rightarrow> history)
    \<Rightarrow> 'i list \<Rightarrow> history \<Rightarrow> ('i list \<times> history) option" where
  "sweep flush closed retire [] tr = Some ([], tr)"
| "sweep flush closed retire (x # xs) tr =
     do {
       (x', tr) \<leftarrow> flush x tr;
       if closed x' then sweep flush closed retire xs (retire x' tr)
       else do { (ys, tr) \<leftarrow> sweep flush closed retire xs tr; Some (x' # ys, tr) }
     }"

text \<open>
  The contract a server's flush keeps: it changes nothing of a connection that others refer to, and
  touches no other connection's timer.  \<open>fits\<close> and \<open>total\<close> are what the provider needs of the engine
  for its datagrams to be of bounded size and for its flush to return.
\<close>

locale endpoint =
  fixes key :: "'i \<Rightarrow> bytes" and self :: "'i \<Rightarrow> nat" and socket :: "'i \<Rightarrow> int"
    and flush :: "'i \<Rightarrow> history \<Rightarrow> ('i \<times> history) option"
    and closed :: "'i \<Rightarrow> bool"
    and retire :: "'i \<Rightarrow> history \<Rightarrow> history"
    and fits :: bool and total :: bool
  assumes flush_frame: "flush x tr = Some (x', tr') \<Longrightarrow> key x' = key x \<and> self x' = self x \<and> socket x' = socket x"
    and flush_events: "fits \<Longrightarrow> flush x tr = Some (x', tr') \<Longrightarrow> extends (event_ok (socket x)) tr tr'"
    and flush_total: "total \<Longrightarrow> \<exists>r. flush x tr = Some r"
    and flush_timers: "flush x tr = Some (x', tr') \<Longrightarrow> armed tr' \<subseteq> insert (self x) (armed tr) \<and> freed tr' = freed tr"
    and retire_events: "extends (event_ok (socket x)) tr (retire x tr)"
    and retire_timers: "armed (retire x tr) = armed tr - {self x} \<and> freed (retire x tr) = self x # freed tr"
begin

lemma sweep_total: "total \<Longrightarrow> \<exists>r. sweep flush closed retire xs tr = Some r"
proof (induction xs arbitrary: tr)
  case (Cons x xs)
  obtain x' tr' where f: "flush x tr = Some (x', tr')" using flush_total [OF Cons.prems, of x tr] by auto
  then show ?case using Cons.IH [OF Cons.prems, of "retire x' tr'"] Cons.IH [OF Cons.prems, of tr'] by auto
qed simp

lemma sweep_cases:
  assumes "sweep flush closed retire (x # xs) tr = Some (ys, tr')"
  obtains (closed) x' t where "flush x tr = Some (x', t)" "closed x'"
      "sweep flush closed retire xs (retire x' t) = Some (ys, tr')"
  | (kept) x' t ys' where "flush x tr = Some (x', t)" "\<not> closed x'" "ys = x' # ys'"
      "sweep flush closed retire xs t = Some (ys', tr')"
proof -
  obtain x' t where f: "flush x tr = Some (x', t)" using assms by (cases "flush x tr") auto
  show thesis
  proof (cases "closed x'")
    case True
    with f assms show thesis by (intro closed) simp_all
  next
    case False
    with f assms show thesis by (auto simp: bind_eq_Some_conv intro: kept)
  qed
qed

lemma sweep_subset:
  assumes "sweep flush closed retire xs tr = Some (ys, tr')" and "y \<in> set ys"
  shows "\<not> closed y \<and> (\<exists>x \<in> set xs. key y = key x \<and> self y = self x \<and> socket y = socket x)"
  using assms
proof (induction xs arbitrary: tr ys)
  case (Cons x xs)
  from Cons.prems(1) show ?case
  proof (cases rule: sweep_cases)
    case (closed x' t)
    then show ?thesis using Cons.IH Cons.prems(2) by fastforce
  next
    case (kept x' t ys')
    then show ?thesis using Cons.IH Cons.prems(2) flush_frame by fastforce
  qed
qed simp

text \<open>What a flush keeps of a connection stays distinct among the connections: addresses, and keys.\<close>

lemma sweep_distinct:
  assumes kept: "\<And>x tr x' tr'. flush x tr = Some (x', tr') \<Longrightarrow> f x' = f x"
    and "sweep flush closed retire xs tr = Some (ys, tr')" and "distinct (map f xs)"
  shows "distinct (map f ys) \<and> f ` set ys \<subseteq> f ` set xs"
  using assms(2,3)
proof (induction xs arbitrary: tr ys)
  case (Cons x xs)
  from Cons.prems(1) show ?case
  proof (cases rule: sweep_cases)
    case (closed x' t)
    then show ?thesis using Cons.IH [OF closed(3)] Cons.prems(2) by auto
  next
    case (kept x' t ys')
    have "f x' = f x" using kept(1) by (rule assms(1))
    then show ?thesis using kept(3) Cons.IH [OF kept(4)] Cons.prems(2) by auto
  qed
qed simp

lemma sweep_ok:
  assumes "sweep flush closed retire xs tr = Some (ys, tr')"
  shows "distinct (map self xs) \<Longrightarrow> distinct (map self ys)"
    and "distinct (map key xs) \<Longrightarrow> distinct (map key ys)"
  using sweep_distinct [OF _ assms, of self] sweep_distinct [OF _ assms, of key] flush_frame by blast+

lemma sweep_events:
  assumes fits: "fits" and "sweep flush closed retire xs tr = Some (ys, tr')" and "\<forall>x \<in> set xs. socket x = s"
  shows "extends (event_ok s) tr tr'"
  using assms(2,3)
proof (induction xs arbitrary: tr ys)
  case (Cons x xs)
  from Cons.prems(1) show ?case
  proof (cases rule: sweep_cases)
    case (closed x' t)
    have "extends (event_ok s) tr t" "extends (event_ok s) t (retire x' t)"
      using flush_events [OF fits closed(1)] retire_events [of x' t] flush_frame [OF closed(1)] Cons.prems(2) by auto
    moreover have "extends (event_ok s) (retire x' t) tr'" using Cons.IH [OF closed(3)] Cons.prems(2) by simp
    ultimately show ?thesis by (blast intro: extends_trans)
  next
    case (kept x' t ys')
    have "extends (event_ok s) tr t" using flush_events [OF fits kept(1)] Cons.prems(2) by auto
    moreover have "extends (event_ok s) t tr'" using Cons.IH [OF kept(4)] Cons.prems(2) by simp
    ultimately show ?thesis by (rule extends_trans)
  qed
qed simp

text \<open>No timer of a connection taken out keeps running, and no connection is freed twice.\<close>

lemma sweep_armed:
  assumes "sweep flush closed retire xs tr = Some (ys, tr')" and "distinct (map self xs)"
    and "armed tr \<subseteq> A \<union> self ` set xs"
  shows "armed tr' \<subseteq> A \<union> self ` set ys"
  using assms
proof (induction xs arbitrary: tr ys A)
  case (Cons x xs)
  from Cons.prems(1) show ?case
  proof (cases rule: sweep_cases)
    case (closed x' t)
    have "armed (retire x' t) \<subseteq> A \<union> self ` set xs"
      using flush_timers [OF closed(1)] flush_frame [OF closed(1)] retire_timers [of x' t] Cons.prems(3) by auto
    then show ?thesis using Cons.IH [OF closed(3)] Cons.prems(2) by simp
  next
    case (kept x' t ys')
    have "armed t \<subseteq> insert (self x) A \<union> self ` set xs"
      using flush_timers [OF kept(1)] Cons.prems(3) by auto
    then have "armed tr' \<subseteq> insert (self x) A \<union> self ` set ys'"
      using Cons.IH [OF kept(4), of "insert (self x) A"] Cons.prems(2) by simp
    then show ?thesis using kept(3) flush_frame [OF kept(1)] by auto
  qed
qed simp

lemma sweep_freed:
  assumes "sweep flush closed retire xs tr = Some (ys, tr')" and "distinct (map self xs)"
    and "distinct (freed tr)" and "set (freed tr) \<inter> self ` set xs = {}"
  shows "distinct (freed tr') \<and> set (freed tr') \<inter> self ` set ys = {} \<and> set (freed tr') \<subseteq> set (freed tr) \<union> self ` set xs"
  using assms
proof (induction xs arbitrary: tr ys)
  case (Cons x xs)
  from Cons.prems(1) show ?case
  proof (cases rule: sweep_cases)
    case (closed x' t)
    have f: "freed (retire x' t) = self x # freed tr"
      using flush_timers [OF closed(1)] flush_frame [OF closed(1)] retire_timers [of x' t] by simp
    then show ?thesis using Cons.IH [OF closed(3)] Cons.prems(2-4) by auto
  next
    case (kept x' t ys')
    have "freed t = freed tr" using flush_timers [OF kept(1)] by simp
    then show ?thesis using Cons.IH [OF kept(4)] Cons.prems(2-4) kept(3) flush_frame [OF kept(1)] by auto
  qed
qed simp

end

end
