(* ===== verification/ServerCore.thy ===== *)
theory ServerCore
  imports Egress
begin

text \<open>
  What \<open>server.c\<close> and \<open>http3-server.c\<close> have in common, word for word: the state, the answers to a
  datagram of no known connection (version negotiation, stateless retry, address validation) and the
  creation of a connection.  An entry of the table is of a type \<open>'i\<close>: the two programs have
  different \<open>struct conn_io\<close>, so the key, the address and the way to make an entry are parameters.
\<close>

section \<open>State\<close>

text \<open>
  \<open>struct connections\<close>, with the address \<open>calloc\<close> will give out next and the history.  Addresses are
  numbered in the order of allocation.
\<close>

record 'i server =
  srv_sock :: int
  srv_local_addr :: sockaddr
  srv_h :: "'i list"
  srv_next :: nat
  srv_trace :: history

definition server_log :: "event \<Rightarrow> 'i server \<Rightarrow> 'i server" where
  "server_log e st = st\<lparr>srv_trace := e # srv_trace st\<rparr>"

section \<open>Answers without a connection\<close>

text \<open>The three-line pattern of both answers: send, compare with what was to be sent, report.\<close>

definition send_reply :: "environment \<Rightarrow> int \<Rightarrow> bytes \<Rightarrow> sockaddr \<Rightarrow> history \<Rightarrow> history" where
  "send_reply env sk out peer_addr tr =
     (let written = int (length out);
          sent = env_sendto env tr sk out peer_addr;
          tr = Sendto sk out peer_addr sent # tr
      in if sent \<noteq> written then perror (STR ''failed to send'') # tr
         else Stderr (STR ''sent %zd bytes'') [sent] # tr)"

definition version_negotiation ::
  "environment \<Rightarrow> header_info \<Rightarrow> sockaddr \<Rightarrow> int \<Rightarrow> history \<Rightarrow> history" where
  "version_negotiation env info peer_addr sk tr =
     (let tr = Stderr (STR ''version negotiation'') [] # tr in
      case quiche_negotiate_version (env_rand_u8 env tr) (info_scid info) (info_dcid info) MAX_DATAGRAM_SIZE of
        Inl e \<Rightarrow> Stderr (STR ''failed to create vneg packet: %zd'') [quiche_error_code e] # tr
      | Inr out \<Rightarrow> send_reply env sk out peer_addr tr)"

text \<open>The token is minted in the buffer that \<open>quiche_header_info\<close> was given, which is uninitialised.\<close>

definition stateless_retry ::
  "'c quiche_api \<Rightarrow> environment \<Rightarrow> header_info \<Rightarrow> sockaddr \<Rightarrow> int \<Rightarrow> history \<Rightarrow> history option" where
  "stateless_retry api env info peer_addr sk tr =
     do {
       let tr = Stderr (STR ''stateless retry'') [] # tr;
       (token, token_len) \<leftarrow> mint_token (info_dcid info) peer_addr (env_stack env tr MAX_TOKEN_LEN);
       Some (case gen_cid env LOCAL_CONN_ID_LEN tr of
          (None, tr) \<Rightarrow> tr
        | (Some new_cid, tr) \<Rightarrow>
            (case quiche_retry (compute_retry_integrity_tag api) (info_scid info) (info_dcid info) new_cid
                    (take token_len token) (info_version info) MAX_DATAGRAM_SIZE of
               Inl e \<Rightarrow> Stderr (STR ''failed to create retry packet: %zd'') [quiche_error_code e] # tr
             | Inr out \<Rightarrow> send_reply env sk out peer_addr tr))
     }"

section \<open>A new connection\<close>

text \<open>
  \<open>create_conn\<close>: \<open>scid\<close> is the buffer of the destination connection ID, \<open>scid_len\<close> how much of it is
  in use.  A length other than \<open>LOCAL_CONN_ID_LEN\<close> is only reported.  \<open>mk\<close> makes the entry from its
  address, its socket, its key, the connection and the peer's address; \<open>Some (None, _)\<close> is \<open>NULL\<close>.
\<close>

type_synonym ('c, 'i) make_entry = "nat \<Rightarrow> int \<Rightarrow> bytes \<Rightarrow> 'c \<Rightarrow> sockaddr \<Rightarrow> 'i"

definition create_conn ::
  "'c quiche_api \<Rightarrow> environment \<Rightarrow> quiche_config \<Rightarrow> ('c, 'i) make_entry \<Rightarrow> bytes \<Rightarrow> nat \<Rightarrow> bytes \<Rightarrow> sockaddr
    \<Rightarrow> 'i server \<Rightarrow> ('i option \<times> 'i server) option" where
  "create_conn api env config mk scid scid_len odcid peer_addr st =
     (if \<not> env_calloc env (srv_trace st) then
        Some (None, server_log (Stderr (STR ''failed to allocate connection IO'') []) st)
      else do {
        let p = srv_next st;
        let st = server_log (Calloc p) (st\<lparr>srv_next := Suc p\<rparr>);
        let st = (if scid_len \<noteq> LOCAL_CONN_ID_LEN
                  then server_log (Stderr (STR ''failed, scid length too short'') []) st else st);
        cid \<leftarrow> memcpy (replicate LOCAL_CONN_ID_LEN 0) 0 scid LOCAL_CONN_ID_LEN;
        case quiche_accept api (srv_trace st) cid odcid (srv_local_addr st) peer_addr config of
          None \<Rightarrow> Some (None, server_log (Stderr (STR ''failed to create connection'') []) st)
        | Some conn \<Rightarrow>
            do {
              addr \<leftarrow> memcpy (replicate SOCKADDR_STORAGE_LEN 0) 0 peer_addr (length peer_addr);
              let conn_io = mk p (srv_sock st) cid conn (take (length peer_addr) addr);
              let st = st\<lparr>srv_h := hash_add (srv_h st) conn_io\<rparr>;
              Some (Some conn_io, server_log (Stderr (STR ''new connection'') []) st)
            }
      })"

text \<open>
  The connection a datagram with a readable header belongs to, found or made: from \<open>HASH_FIND\<close> to the
  end of the branch for \<open>conn_io == NULL\<close>.  \<open>Some (None, _)\<close> is each \<open>continue\<close>.
\<close>

definition admit ::
  "'c quiche_api \<Rightarrow> environment \<Rightarrow> quiche_config \<Rightarrow> ('i \<Rightarrow> bytes) \<Rightarrow> ('i \<Rightarrow> nat) \<Rightarrow> ('c, 'i) make_entry
    \<Rightarrow> header_info \<Rightarrow> sockaddr \<Rightarrow> 'i server \<Rightarrow> ('i option \<times> 'i server) option" where
  "admit api env config key self mk info peer_addr st =
     (case hash_find env (srv_trace st) key self (info_dcid info) (srv_h st) of
        Some conn_io \<Rightarrow> Some (Some conn_io, st)
      | None \<Rightarrow>
          if \<not> version_is_supported (info_version info) then
            Some (None, st\<lparr>srv_trace := version_negotiation env info peer_addr (srv_sock st) (srv_trace st)\<rparr>)
          else if info_token info = [] then
            do {
              tr \<leftarrow> stateless_retry api env info peer_addr (srv_sock st) (srv_trace st);
              Some (None, st\<lparr>srv_trace := tr\<rparr>)
            }
          else case validate_token (info_token info) peer_addr QUICHE_MAX_CONN_ID_LEN of
            None \<Rightarrow> Some (None, server_log (Stderr (STR ''invalid address validation token'') []) st)
          | Some odcid \<Rightarrow>
              create_conn api env config mk
                (info_dcid info @ drop (length (info_dcid info)) (env_stack env (srv_trace st) QUICHE_MAX_CONN_ID_LEN))
                (length (info_dcid info)) odcid peer_addr st)"

text \<open>The sizes of the buffers that \<open>quiche_header_info\<close> is called with.\<close>

definition read_header :: "bytes \<Rightarrow> quiche_error + header_info" where
  "read_header buf =
     quiche_header_info buf LOCAL_CONN_ID_LEN QUICHE_MAX_CONN_ID_LEN QUICHE_MAX_CONN_ID_LEN MAX_TOKEN_LEN"

section \<open>The callbacks of the event loop\<close>

text \<open>
  The loop of \<open>recv_cb\<close> over what the calls of \<open>recvfrom\<close> give: \<open>step\<close> treats one datagram, and
  gives \<open>False\<close> to return from the callback.  The result says whether the loop was left by
  \<open>break\<close>, and what is still to be read.  The buffer holds 65535 bytes.
\<close>

fun recv_loop ::
  "(bytes \<Rightarrow> sockaddr \<Rightarrow> 'i server \<Rightarrow> (bool \<times> 'i server) option) \<Rightarrow> recvfrom list \<Rightarrow> 'i server
    \<Rightarrow> (bool \<times> recvfrom list \<times> 'i server) option" where
  "recv_loop step [] st = Some (True, [], server_log (Stderr (STR ''recv would block'') []) st)"
| "recv_loop step (Would_block # rest) st =
     Some (True, rest, server_log (Stderr (STR ''recv would block'') []) st)"
| "recv_loop step (Recv_error # rest) st = Some (False, rest, server_log (perror (STR ''failed to read'')) st)"
| "recv_loop step (Datagram buf peer_addr # rest) st =
     do {
       (go, st) \<leftarrow> step (take 65535 buf) peer_addr st;
       if go then recv_loop step rest st else Some (False, rest, st)
     }"

definition server_recv_cb ::
  "(bytes \<Rightarrow> sockaddr \<Rightarrow> 'i server \<Rightarrow> (bool \<times> 'i server) option)
    \<Rightarrow> ('i \<Rightarrow> history \<Rightarrow> ('i \<times> history) option) \<Rightarrow> ('i \<Rightarrow> bool) \<Rightarrow> ('i \<Rightarrow> history \<Rightarrow> history)
    \<Rightarrow> recvfrom list \<Rightarrow> 'i server \<Rightarrow> (recvfrom list \<times> 'i server) option" where
  "server_recv_cb step flush closed retire inbox st =
     do {
       (go, rest, st) \<leftarrow> recv_loop step inbox st;
       if \<not> go then Some (rest, st)
       else do {
         (h, tr) \<leftarrow> sweep flush closed retire (srv_h st) (srv_trace st);
         Some (rest, st\<lparr>srv_h := h, srv_trace := tr\<rparr>)
       }
     }"

text \<open>
  \<open>timeout_cb\<close> on the connection at address \<open>p\<close> (\<open>w->data\<close>); \<open>tick\<close> is \<open>quiche_conn_on_timeout\<close>.  When
  no connection is at that address, the pointer dangles and the result is undefined.
\<close>

definition server_timeout_cb ::
  "('i \<Rightarrow> nat) \<Rightarrow> ('i \<Rightarrow> 'i) \<Rightarrow> ('i \<Rightarrow> history \<Rightarrow> ('i \<times> history) option) \<Rightarrow> ('i \<Rightarrow> bool)
    \<Rightarrow> ('i \<Rightarrow> history \<Rightarrow> history) \<Rightarrow> nat \<Rightarrow> 'i server \<Rightarrow> 'i server option" where
  "server_timeout_cb self tick flush closed retire p st =
     do {
       conn_io \<leftarrow> entry_at self p (srv_h st);
       (conn_io, tr) \<leftarrow> flush (tick conn_io) (Stderr (STR ''timeout'') [] # srv_trace st);
       if closed conn_io
       then Some (st\<lparr>srv_h := hash_delete self p (srv_h st), srv_trace := retire conn_io tr\<rparr>)
       else Some (st\<lparr>srv_h := store_at self conn_io (srv_h st), srv_trace := tr\<rparr>)
     }"

section \<open>Invariant\<close>

text \<open>
  The connections have distinct addresses and keys of the local length, are on the server's
  socket and below the next address; running timers belong to them; what was freed is not among them,
  and nothing was freed twice.  This is kept by every datagram.  That the keys are distinct, too
  (\<open>keys_distinct\<close>), is kept by those only whose connection ID has the local length.
\<close>

definition server_ok :: "('i \<Rightarrow> bytes) \<Rightarrow> ('i \<Rightarrow> nat) \<Rightarrow> ('i \<Rightarrow> int) \<Rightarrow> 'i server \<Rightarrow> bool" where
  "server_ok key self socket st \<longleftrightarrow>
     distinct (map self (srv_h st))
   \<and> (\<forall>x \<in> set (srv_h st). socket x = srv_sock st \<and> length (key x) = LOCAL_CONN_ID_LEN \<and> self x < srv_next st)
   \<and> armed (srv_trace st) \<subseteq> self ` set (srv_h st)
   \<and> distinct (freed (srv_trace st)) \<and> set (freed (srv_trace st)) \<inter> self ` set (srv_h st) = {}
   \<and> (\<forall>p \<in> set (freed (srv_trace st)). p < srv_next st)"

definition keys_distinct :: "('i \<Rightarrow> bytes) \<Rightarrow> 'i server \<Rightarrow> bool" where
  "keys_distinct key st \<longleftrightarrow> distinct (map key (srv_h st))"

lemma server_ok_entries: "server_ok key self socket st \<Longrightarrow> keys_distinct key st \<Longrightarrow> entries_ok key self (srv_h st)"
  by (simp add: server_ok_def keys_distinct_def entries_ok_def)

text \<open>What a step may change besides the table and the history: nothing, and it may allocate.\<close>

definition server_frame :: "'i server \<Rightarrow> 'i server \<Rightarrow> bool" where
  "server_frame st st' \<longleftrightarrow> srv_sock st' = srv_sock st \<and> srv_local_addr st' = srv_local_addr st
     \<and> srv_next st \<le> srv_next st' \<and> extends (event_ok (srv_sock st)) (srv_trace st) (srv_trace st')"

lemma server_frame_refl [simp]: "server_frame st st"
  by (simp add: server_frame_def)

lemma server_frame_trans: "server_frame st st' \<Longrightarrow> server_frame st' st'' \<Longrightarrow> server_frame st st''"
  by (auto simp: server_frame_def intro: extends_trans)

lemma server_ok_trace:
  assumes "server_ok key self socket st" and "extends io_event (srv_trace st) tr"
  shows "server_ok key self socket (st\<lparr>srv_trace := tr\<rparr>)"
  using assms extends_io [OF assms(2)] by (simp add: server_ok_def)

lemma server_ok_log:
  "server_ok key self socket st \<Longrightarrow> io_event e \<Longrightarrow> server_ok key self socket (server_log e st)"
  unfolding server_log_def by (rule server_ok_trace) (auto intro: extends_intros)

lemma server_log_simps [simp]:
  "srv_sock (server_log e st) = srv_sock st" "srv_local_addr (server_log e st) = srv_local_addr st"
  "srv_h (server_log e st) = srv_h st" "srv_next (server_log e st) = srv_next st"
  "srv_trace (server_log e st) = e # srv_trace st"
  by (simp_all add: server_log_def)

lemma server_frame_log: "event_ok (srv_sock st) e \<Longrightarrow> server_frame st (server_log e st)"
  by (auto simp: server_frame_def intro: extends_intros)

text \<open>
  What is assumed of the operating system and of \<open>uthash\<close>: buffers have their size, and an entry that
  is found has the key it is asked for.
\<close>

definition env_ok :: "environment \<Rightarrow> bool" where
  "env_ok env \<longleftrightarrow> (\<forall>tr n. length (env_stack env tr n) = n)
     \<and> (\<forall>tr n r. env_urandom env tr n = Random r \<longrightarrow> length r \<le> n) \<and> uthash_ok env"

subsection \<open>Answers\<close>

lemma read_header_sizes:
  assumes "read_header buf = Inr info"
  shows "length (info_scid info) \<le> 20" and "length (info_dcid info) \<le> 20" and "length (info_token info) \<le> 154"
  using quiche_header_info_sizes [OF assms [unfolded read_header_def]]
  by (simp_all add: QUICHE_MAX_CONN_ID_LEN_def MAX_TOKEN_LEN_eq)

lemma send_reply_events:
  "length out \<le> MAX_DATAGRAM_SIZE \<Longrightarrow> extends (event_ok sk) tr (send_reply env sk out a tr)"
  "extends io_event tr (send_reply env sk out a tr)"
  by (auto simp: send_reply_def Let_def intro!: extends_intros)

lemma send_reply_sent: "sent (send_reply env sk out a tr) = (sk, out, a) # sent tr"
  by (simp add: send_reply_def Let_def)

text \<open>A version negotiation packet always fits.\<close>

lemma version_negotiation_eq:
  assumes "length (info_scid info) \<le> 20" and "length (info_dcid info) \<le> 20"
  shows "version_negotiation env info a sk tr =
    (let tr = Stderr (STR ''version negotiation'') [] # tr in
     send_reply env sk (vneg_bytes (env_rand_u8 env tr) (info_scid info) (info_dcid info)) a tr)"
proof -
  have "\<not> MAX_DATAGRAM_SIZE < 11 + length (info_scid info) + length (info_dcid info)"
    using assms by (simp add: MAX_DATAGRAM_SIZE_def)
  then show ?thesis by (simp add: version_negotiation_def quiche_negotiate_version_eq Let_def)
qed

lemma length_vneg_bytes: "length (vneg_bytes rnd scid dcid) = 11 + length scid + length dcid"
  by (simp add: vneg_bytes_def del: be_bytes.simps)

lemma version_negotiation_events:
  assumes "length (info_scid info) \<le> 20" and "length (info_dcid info) \<le> 20"
  shows "extends (event_ok sk) tr (version_negotiation env info a sk tr)"
    and "extends io_event tr (version_negotiation env info a sk tr)"
proof -
  let ?tr = "Stderr (STR ''version negotiation'') [] # tr"
  let ?out = "vneg_bytes (env_rand_u8 env ?tr) (info_scid info) (info_dcid info)"
  have "length ?out \<le> MAX_DATAGRAM_SIZE" using assms by (simp add: length_vneg_bytes MAX_DATAGRAM_SIZE_def)
  moreover have "extends (event_ok sk) tr ?tr" "extends io_event tr ?tr" by (simp_all add: extends_intros)
  ultimately show "extends (event_ok sk) tr (version_negotiation env info a sk tr)"
    and "extends io_event tr (version_negotiation env info a sk tr)"
    unfolding version_negotiation_eq [OF assms] Let_def by (blast intro: extends_trans send_reply_events)+
qed

lemma gen_cid_events:
  assumes "gen_cid env n tr = (r, tr')"
  shows "extends (event_ok sk) tr tr'" and "extends io_event tr tr'" and "sent tr' = sent tr"
  using assms by (auto simp: gen_cid_def split: urandom.splits intro!: extends_intros)

lemma gen_cid_length: "gen_cid env n tr = (Some c, tr') \<Longrightarrow> env_ok env \<Longrightarrow> length c = n"
  by (auto simp: gen_cid_def env_ok_def split: urandom.splits)

lemma stateless_retry_eq:
  assumes "env_ok env" and "length (info_dcid info) \<le> 20" and "length a \<le> 128"
  shows "stateless_retry api env info a sk tr = Some
    (case gen_cid env LOCAL_CONN_ID_LEN (Stderr (STR ''stateless retry'') [] # tr) of
       (None, tr) \<Rightarrow> tr
     | (Some new_cid, tr) \<Rightarrow>
         (case quiche_retry (compute_retry_integrity_tag api) (info_scid info) (info_dcid info) new_cid
                 (token_of a (info_dcid info)) (info_version info) MAX_DATAGRAM_SIZE of
            Inl e \<Rightarrow> Stderr (STR ''failed to create retry packet: %zd'') [quiche_error_code e] # tr
          | Inr out \<Rightarrow> send_reply env sk out a tr))"
proof -
  have "length (token_of a (info_dcid info)) \<le> MAX_TOKEN_LEN"
    using assms(2,3) by (simp add: length_token_of MAX_TOKEN_LEN_eq)
  then have "mint_token (info_dcid info) a (env_stack env tr' MAX_TOKEN_LEN) =
      Some (token_of a (info_dcid info) @ drop (length (token_of a (info_dcid info))) (env_stack env tr' MAX_TOKEN_LEN),
        length (token_of a (info_dcid info)))" for tr'
    using assms(1) by (intro mint_token_eq) (simp add: env_ok_def)
  then show ?thesis by (simp add: stateless_retry_def Let_def split: prod.split option.split)
qed

lemma stateless_retry_events:
  assumes "stateless_retry api env info a sk tr = Some tr'"
  shows "extends (event_ok sk) tr tr'" and "extends io_event tr tr'"
proof -
  let ?tr = "Stderr (STR ''stateless retry'') [] # tr"
  obtain token n r t where g: "gen_cid env LOCAL_CONN_ID_LEN ?tr = (r, t)"
    and tr': "tr' = (case r of None \<Rightarrow> t | Some new_cid \<Rightarrow>
        (case quiche_retry (compute_retry_integrity_tag api) (info_scid info) (info_dcid info) new_cid
                 (take n token) (info_version info) MAX_DATAGRAM_SIZE of
            Inl e \<Rightarrow> Stderr (STR ''failed to create retry packet: %zd'') [quiche_error_code e] # t
          | Inr out \<Rightarrow> send_reply env sk out a t))"
  proof -
    obtain token n where m: "mint_token (info_dcid info) a (env_stack env ?tr MAX_TOKEN_LEN) = Some (token, n)"
      using assms by (cases "mint_token (info_dcid info) a (env_stack env ?tr MAX_TOKEN_LEN)")
        (auto simp: stateless_retry_def Let_def)
    obtain r t where g: "gen_cid env LOCAL_CONN_ID_LEN ?tr = (r, t)" by fastforce
    show thesis
      by (rule that [OF g, of n token]) (use assms m g in \<open>simp add: stateless_retry_def Let_def split: option.splits\<close>)
  qed
  have 1: "extends (event_ok sk) tr t" "extends io_event tr t"
    using extends_trans [of _ tr ?tr t] gen_cid_events [OF g] by (simp_all add: extends_intros)
  have "extends (event_ok sk) t tr' \<and> extends io_event t tr'"
  proof (cases r)
    case (Some c)
    show ?thesis
    proof (cases "quiche_retry (compute_retry_integrity_tag api) (info_scid info) (info_dcid info) c
                 (take n token) (info_version info) MAX_DATAGRAM_SIZE")
      case (Inr out)
      then have "length out \<le> MAX_DATAGRAM_SIZE" by (auto simp: quiche_retry_iff)
      then show ?thesis using Some Inr tr' by (simp add: send_reply_events)
    qed (use Some tr' in \<open>auto intro!: extends_intros\<close>)
  qed (use tr' in simp)
  with 1 show "extends (event_ok sk) tr tr'" and "extends io_event tr tr'" by (auto intro: extends_trans)
qed

subsection \<open>Admission\<close>

text \<open>
  A datagram whose token would be looked at carries a connection ID of the local length, as one from
  a client that follows a retry does.
\<close>

definition cid_ok :: "bytes \<Rightarrow> bool" where
  "cid_ok buf \<longleftrightarrow> (\<forall>info. read_header buf = Inr info \<longrightarrow> version_is_supported (info_version info) \<longrightarrow>
     info_token info \<noteq> [] \<longrightarrow> length (info_dcid info) = LOCAL_CONN_ID_LEN)"

lemma create_conn_total:
  assumes "length scid = QUICHE_MAX_CONN_ID_LEN" and "length a \<le> 128"
  shows "\<exists>r. create_conn api env config mk scid n odcid a st = Some r"
  using assms
  by (auto simp: create_conn_def memcpy_def LOCAL_CONN_ID_LEN_def SOCKADDR_STORAGE_LEN_def
      QUICHE_MAX_CONN_ID_LEN_def Let_def split: option.split)

text \<open>
  The key a connection gets for a destination connection ID: 16 bytes that agree with it as far as both
  go.  A longer ID is cut, a shorter one is followed by what was in the buffer.
\<close>

definition id_key :: "bytes \<Rightarrow> bytes \<Rightarrow> bool" where
  "id_key dcid k \<longleftrightarrow> length k = LOCAL_CONN_ID_LEN \<and> take (length dcid) k = take LOCAL_CONN_ID_LEN dcid"

lemma id_key_local: "length dcid = LOCAL_CONN_ID_LEN \<Longrightarrow> id_key dcid k \<longleftrightarrow> k = dcid"
  by (auto simp: id_key_def)

lemma id_key_buffer: "length b = QUICHE_MAX_CONN_ID_LEN \<Longrightarrow> id_key dcid (take LOCAL_CONN_ID_LEN (dcid @ drop (length dcid) b))"
  by (auto simp: id_key_def LOCAL_CONN_ID_LEN_def QUICHE_MAX_CONN_ID_LEN_def min_def)

text \<open>The state of the server when \<open>quiche_accept\<close> is called, and the two outcomes of the call.\<close>

definition alloc_state :: "nat \<Rightarrow> 'i server \<Rightarrow> 'i server" where
  "alloc_state n st =
     (let st' = server_log (Calloc (srv_next st)) (st\<lparr>srv_next := Suc (srv_next st)\<rparr>)
      in if n \<noteq> LOCAL_CONN_ID_LEN
         then server_log (Stderr (STR ''failed, scid length too short'') []) st' else st')"

lemma alloc_state_simps [simp]:
  "srv_sock (alloc_state n st) = srv_sock st" "srv_local_addr (alloc_state n st) = srv_local_addr st"
  "srv_h (alloc_state n st) = srv_h st" "srv_next (alloc_state n st) = Suc (srv_next st)"
  "armed (srv_trace (alloc_state n st)) = armed (srv_trace st)"
  "freed (srv_trace (alloc_state n st)) = freed (srv_trace st)"
  by (simp_all add: alloc_state_def Let_def)

lemma create_conn_eq:
  assumes "env_calloc env (srv_trace st)" and "length scid = QUICHE_MAX_CONN_ID_LEN" and "length a \<le> 128"
  shows "create_conn api env config mk scid n odcid a st = Some
    (let st' = alloc_state n st; cid = take LOCAL_CONN_ID_LEN scid in
     case quiche_accept api (srv_trace st') cid odcid (srv_local_addr st) a config of
       None \<Rightarrow> (None, server_log (Stderr (STR ''failed to create connection'') []) st')
     | Some conn \<Rightarrow>
         let x = mk (srv_next st) (srv_sock st) cid conn a
         in (Some x, server_log (Stderr (STR ''new connection'') []) (st'\<lparr>srv_h := srv_h st @ [x]\<rparr>)))"
proof -
  have 1: "memcpy (replicate LOCAL_CONN_ID_LEN 0) 0 scid LOCAL_CONN_ID_LEN = Some (take LOCAL_CONN_ID_LEN scid)"
    using assms(2) by (simp add: memcpy_def LOCAL_CONN_ID_LEN_def QUICHE_MAX_CONN_ID_LEN_def)
  have 2: "memcpy (replicate SOCKADDR_STORAGE_LEN 0) 0 a (length a) = Some (a @ replicate (128 - length a) 0)"
    using assms(3) by (simp add: memcpy_def SOCKADDR_STORAGE_LEN_def)
  show ?thesis
  proof (cases "quiche_accept api (srv_trace (alloc_state n st)) (take LOCAL_CONN_ID_LEN scid) odcid (srv_local_addr st) a config")
    case None
    then show ?thesis using assms(1) 1 2 by (auto simp: create_conn_def alloc_state_def Let_def)
  next
    case (Some c)
    then show ?thesis using assms(1) 1 2
      by (auto simp: create_conn_def alloc_state_def Let_def hash_add_def server_log_def)
  qed
qed

lemma server_frame_alloc: "server_frame st (alloc_state n st)"
  by (auto simp: server_frame_def alloc_state_def Let_def intro!: extends_intros)

text \<open>What the entry type of a server owes: the fields of a new entry.\<close>

locale server_entry =
  fixes key :: "'i \<Rightarrow> bytes" and self :: "'i \<Rightarrow> nat" and socket :: "'i \<Rightarrow> int"
    and mk :: "nat \<Rightarrow> int \<Rightarrow> bytes \<Rightarrow> 'c \<Rightarrow> sockaddr \<Rightarrow> 'i"
  assumes key_mk: "key (mk p s k c a) = k"
    and self_mk: "self (mk p s k c a) = p"
    and socket_mk: "socket (mk p s k c a) = s"
begin

lemma ok_alloc:
  assumes "server_ok key self socket st"
  shows "server_ok key self socket (alloc_state n st)"
  using assms by (auto simp: server_ok_def less_Suc_eq)

lemma ok_new:
  assumes ok: "server_ok key self socket st" and "length k = LOCAL_CONN_ID_LEN"
  shows "server_ok key self socket ((alloc_state n st)\<lparr>srv_h := srv_h st @ [mk (srv_next st) (srv_sock st) k c a]\<rparr>)"
proof -
  let ?x = "mk (srv_next st) (srv_sock st) k c a"
  have fresh: "srv_next st \<notin> self ` set (srv_h st)" using ok by (auto simp: server_ok_def)
  have "distinct (map self (srv_h st @ [?x]))"
    using assms fresh by (simp add: server_ok_def self_mk)
  moreover have "srv_next st \<notin> set (freed (srv_trace st))" using ok by (auto simp: server_ok_def)
  ultimately show ?thesis
    using ok assms(2) by (auto simp: server_ok_def key_mk self_mk socket_mk less_Suc_eq)
qed

lemma ok_store:
  assumes "server_ok key self socket st" and "x \<in> set (srv_h st)"
    and "self x' = self x" and "key x' = key x" and "socket x' = socket x"
  shows "server_ok key self socket (st\<lparr>srv_h := store_at self x' (srv_h st)\<rparr>)"
proof -
  have "distinct (map self (store_at self x' (srv_h st)))"
    using addr.ok_assign [of self "srv_h st" x x'] assms by (simp add: server_ok_def)
  moreover have "map self (store_at self x' (srv_h st)) = map self (srv_h st)"
    by (simp add: store_at_def)
  then have "self ` set (store_at self x' (srv_h st)) = self ` set (srv_h st)" by (metis set_map)
  moreover have "\<forall>y \<in> set (store_at self x' (srv_h st)).
      socket y = srv_sock st \<and> length (key y) = LOCAL_CONN_ID_LEN \<and> self y < srv_next st"
    using assms by (auto simp: server_ok_def store_at_def)
  ultimately show ?thesis using assms(1) by (simp add: server_ok_def)
qed

lemma keys_store:
  assumes "server_ok key self socket st" and "keys_distinct key st" and "x \<in> set (srv_h st)"
    and "self x' = self x" and "key x' = key x"
  shows "keys_distinct key (st\<lparr>srv_h := store_at self x' (srv_h st)\<rparr>)"
  using tab.ok_assign [OF server_ok_entries [OF assms(1,2)] assms(3-5)]
  by (simp add: keys_distinct_def entries_ok_def)

lemma admit_total:
  assumes "env_ok env" and "length a \<le> 128" and "length (info_dcid info) \<le> 20"
  shows "\<exists>r. admit api env config key self mk info a st = Some r"
proof -
  have "length (info_dcid info @ drop (length (info_dcid info)) (env_stack env (srv_trace st) QUICHE_MAX_CONN_ID_LEN))
      = QUICHE_MAX_CONN_ID_LEN"
    using assms by (simp add: env_ok_def QUICHE_MAX_CONN_ID_LEN_def)
  then have "\<exists>r. create_conn api env config mk (info_dcid info @ drop (length (info_dcid info))
      (env_stack env (srv_trace st) QUICHE_MAX_CONN_ID_LEN)) n odcid a st = Some r" for n odcid
    using assms(2) by (rule create_conn_total)
  moreover have "\<exists>tr. stateless_retry api env info a (srv_sock st) (srv_trace st) = Some tr"
    unfolding stateless_retry_eq [OF assms(1,3,2)] by blast
  ultimately show ?thesis
    by (auto simp: admit_def split: option.split)
qed

text \<open>The four ways to treat a datagram of no known connection, and the way of a known one.\<close>

lemma admit_cases:
  assumes "admit api env config key self mk info a st = Some (r, st')" and "env_ok env"
    and "length a \<le> 128" and "length (info_scid info) \<le> 20" and "length (info_dcid info) \<le> 20"
  obtains (known) x where "hash_find env (srv_trace st) key self (info_dcid info) (srv_h st) = Some x" "r = Some x" "st' = st"
  | (answered) tr where "r = None" "st' = st\<lparr>srv_trace := tr\<rparr>" "extends io_event (srv_trace st) tr"
      "extends (event_ok (srv_sock st)) (srv_trace st) tr"
  | (refused) e where "r = None" "st' = server_log e (alloc_state (length (info_dcid info)) st)" "io_event e"
      "event_ok (srv_sock st) e"
  | (new) odcid cid conn where
      "info_dcid info \<notin> key ` set (srv_h st)" "version_is_supported (info_version info)"
      "info_token info = token_of a odcid" "length odcid \<le> 20"
      "cid = take LOCAL_CONN_ID_LEN (info_dcid info @ drop (length (info_dcid info)) (env_stack env (srv_trace st) 20))"
      "r = Some (mk (srv_next st) (srv_sock st) cid conn a)"
      "st' = server_log (Stderr (STR ''new connection'') []) ((alloc_state (length (info_dcid info)) st)
         \<lparr>srv_h := srv_h st @ [mk (srv_next st) (srv_sock st) cid conn a]\<rparr>)"
      "quiche_accept api (srv_trace (alloc_state (length (info_dcid info)) st)) cid odcid (srv_local_addr st) a config = Some conn"
proof (cases "hash_find env (srv_trace st) key self (info_dcid info) (srv_h st)")
  case (Some x)
  then show ?thesis using assms(1) by (intro known [of x]) (auto simp: admit_def)
next
  case None
  consider (vneg) "\<not> version_is_supported (info_version info)"
    | (retry) "version_is_supported (info_version info)" "info_token info = []"
    | (bad) "version_is_supported (info_version info)" "info_token info \<noteq> []"
        "validate_token (info_token info) a QUICHE_MAX_CONN_ID_LEN = None"
    | (good) odcid where "version_is_supported (info_version info)" "info_token info \<noteq> []"
        "validate_token (info_token info) a QUICHE_MAX_CONN_ID_LEN = Some odcid"
    by fastforce
  then show ?thesis
  proof cases
    case vneg
    then show ?thesis using assms(1) None version_negotiation_events [OF assms(4,5)]
      by (intro answered) (auto simp: admit_def)
  next
    case retry
    then obtain tr where "stateless_retry api env info a (srv_sock st) (srv_trace st) = Some tr"
      "r = None" "st' = st\<lparr>srv_trace := tr\<rparr>"
      using assms(1) None by (auto simp: admit_def bind_eq_Some_conv)
    then show ?thesis using stateless_retry_events by (intro answered) auto
  next
    case bad
    then show ?thesis using assms(1) None
      by (intro answered) (auto simp: admit_def server_log_def intro!: extends_intros)
  next
    case good
    let ?scid = "info_dcid info @ drop (length (info_dcid info)) (env_stack env (srv_trace st) QUICHE_MAX_CONN_ID_LEN)"
    have cc: "create_conn api env config mk ?scid (length (info_dcid info)) odcid a st = Some (r, st')"
      using good assms(1) None by (simp add: admit_def)
    have scid: "length ?scid = QUICHE_MAX_CONN_ID_LEN"
      using assms by (simp add: env_ok_def QUICHE_MAX_CONN_ID_LEN_def)
    show ?thesis
    proof (cases "env_calloc env (srv_trace st)")
      case False
      then show ?thesis using cc
        by (intro answered) (auto simp: create_conn_def server_log_def intro!: extends_intros)
    next
      case True
      note cc' = cc [unfolded create_conn_eq [OF True scid assms(3)] Let_def]
      show ?thesis
      proof (cases "quiche_accept api (srv_trace (alloc_state (length (info_dcid info)) st))
          (take LOCAL_CONN_ID_LEN ?scid) odcid (srv_local_addr st) a config")
        case None
        then show ?thesis using cc' by (intro refused) auto
      next
        case (Some conn)
        have "info_token info = token_of a odcid" "length odcid \<le> 20"
          using good(3) by (simp_all add: validate_token_iff QUICHE_MAX_CONN_ID_LEN_def)
        moreover have "info_dcid info \<notin> key ` set (srv_h st)"
          using None assms(2) by (simp add: env_ok_def hash_find_None)
        ultimately show ?thesis using cc' Some good(1)
          by (intro new [of odcid "take LOCAL_CONN_ID_LEN ?scid" conn]) (simp_all add: QUICHE_MAX_CONN_ID_LEN_def)
      qed
    qed
  qed
qed

lemma admit_ok:
  assumes a: "admit api env config key self mk info a st = Some (r, st')" "env_ok env" "length a \<le> 128"
      "length (info_scid info) \<le> 20" "length (info_dcid info) \<le> 20"
    and ok: "server_ok key self socket st"
  shows "server_ok key self socket st' \<and> server_frame st st' \<and> (\<forall>x. r = Some x \<longrightarrow> x \<in> set (srv_h st'))"
  using a
proof (cases rule: admit_cases)
  case (known x)
  then show ?thesis using ok a(2) tab.lookup_Some [of env self "srv_h st" _ key] by (auto simp: env_ok_def server_ok_def)
next
  case (answered tr)
  then show ?thesis using ok by (auto simp: server_ok_trace server_frame_def)
next
  case (refused e)
  then show ?thesis using ok_alloc [OF ok] server_frame_alloc [of st] server_frame_log
    by (metis alloc_state_simps(1) option.distinct(1) server_frame_trans server_ok_log)
next
  case (new odcid k conn)
  have "length k = LOCAL_CONN_ID_LEN" using new(5) a(2) by (simp add: env_ok_def LOCAL_CONN_ID_LEN_def)
  then have "server_ok key self socket st'"
    unfolding new(7) using ok_new [OF ok] by (intro server_ok_log) simp_all
  moreover have "server_frame st st'"
    using server_frame_alloc [of st "length (info_dcid info)"]
    by (auto simp: new(7) server_frame_def intro: extends_intros)
  ultimately show ?thesis using new(6,7) by simp
qed

text \<open>A connection ID of the local length is the key of the new entry, so keys stay distinct.\<close>

lemma admit_keys:
  assumes a: "admit api env config key self mk info a st = Some (r, st')" "env_ok env" "length a \<le> 128"
      "length (info_scid info) \<le> 20" "length (info_dcid info) \<le> 20"
    and "keys_distinct key st"
    and cid: "version_is_supported (info_version info) \<Longrightarrow> info_token info \<noteq> [] \<Longrightarrow> length (info_dcid info) = LOCAL_CONN_ID_LEN"
  shows "keys_distinct key st'"
  using a
proof (cases rule: admit_cases)
  case (new odcid k conn)
  have "info_token info \<noteq> []" using new(3) by (simp add: token_of_def quiche_str_def)
  then have "k = info_dcid info" using cid new(2,5) by simp
  then show ?thesis using new(1,7) assms(6) by (simp add: keys_distinct_def key_mk)
qed (use assms(6) in \<open>simp_all add: keys_distinct_def\<close>)

end

subsection \<open>Before an address is validated\<close>

text \<open>
  The replies to a datagram of no known connection: its version negotiation packet, or a retry packet
  for it with a token for its address and some new connection ID.
\<close>

definition reply_to :: "'c quiche_api \<Rightarrow> header_info \<Rightarrow> sockaddr \<Rightarrow> bytes \<Rightarrow> bool" where
  "reply_to api info a out \<longleftrightarrow>
     (if version_is_supported (info_version info)
      then info_token info = [] \<and> (\<exists>cid t. length cid = LOCAL_CONN_ID_LEN
        \<and> compute_retry_integrity_tag api (retry_bytes (info_scid info) cid (token_of a (info_dcid info)))
            (info_dcid info) (info_version info) = Inr t
        \<and> out = retry_bytes (info_scid info) cid (token_of a (info_dcid info)) @ t)
      else (\<exists>rnd. out = vneg_bytes rnd (info_scid info) (info_dcid info)))"

lemma admit_unvalidated:
  assumes ad: "admit api env config key self mk info a st = Some (r, st')" and env: "env_ok env"
    and len: "length a \<le> 128" "length (info_scid info) \<le> 20" "length (info_dcid info) \<le> 20"
    and fresh: "info_dcid info \<notin> key ` set (srv_h st)"
    and no_token: "\<And>odcid. info_token info \<noteq> token_of a odcid"
  shows "r = None \<and> srv_h st' = srv_h st \<and> srv_next st' = srv_next st
    \<and> (sent (srv_trace st') = sent (srv_trace st)
     \<or> (\<exists>out. reply_to api info a out \<and> length out \<le> MAX_DATAGRAM_SIZE
          \<and> sent (srv_trace st') = (srv_sock st, out, a) # sent (srv_trace st)))"
proof -
  have unknown: "hash_find env (srv_trace st) key self (info_dcid info) (srv_h st) = None"
    using fresh env by (simp add: env_ok_def hash_find_None)
  consider (vneg) "\<not> version_is_supported (info_version info)"
    | (retry) "version_is_supported (info_version info)" "info_token info = []"
    | (bad) "version_is_supported (info_version info)" "info_token info \<noteq> []" by blast
  then show ?thesis
  proof cases
    case vneg
    let ?tr = "Stderr (STR ''version negotiation'') [] # srv_trace st"
    let ?out = "vneg_bytes (env_rand_u8 env ?tr) (info_scid info) (info_dcid info)"
    have "r = None" and st': "st' = st\<lparr>srv_trace := send_reply env (srv_sock st) ?out a ?tr\<rparr>"
      using ad unknown vneg by (simp_all add: admit_def version_negotiation_eq [OF len(2,3)] Let_def)
    moreover have "reply_to api info a ?out" using vneg by (auto simp: reply_to_def)
    moreover have "length ?out \<le> MAX_DATAGRAM_SIZE" using len by (simp add: length_vneg_bytes MAX_DATAGRAM_SIZE_def)
    ultimately show ?thesis by (auto simp: send_reply_sent)
  next
    case retry
    let ?tr = "Stderr (STR ''stateless retry'') [] # srv_trace st"
    obtain c t where g: "gen_cid env LOCAL_CONN_ID_LEN ?tr = (c, t)" by fastforce
    have t: "sent t = sent (srv_trace st)" using gen_cid_events(3) [OF g] by simp
    let ?q = "\<lambda>cid. quiche_retry (compute_retry_integrity_tag api) (info_scid info) (info_dcid info) cid
        (token_of a (info_dcid info)) (info_version info) MAX_DATAGRAM_SIZE"
    have st': "r = None" "st' = st\<lparr>srv_trace := (case c of None \<Rightarrow> t | Some cid \<Rightarrow>
        (case ?q cid of Inl e \<Rightarrow> Stderr (STR ''failed to create retry packet: %zd'') [quiche_error_code e] # t
         | Inr out \<Rightarrow> send_reply env (srv_sock st) out a t))\<rparr>"
      using ad unknown retry g by (simp_all add: admit_def stateless_retry_eq [OF env len(3,1)])
    show ?thesis
    proof (cases c)
      case (Some cid)
      then have cid: "length cid = LOCAL_CONN_ID_LEN" using gen_cid_length g env by blast
      show ?thesis
      proof (cases "?q cid")
        case (Inr out)
        then have "reply_to api info a out" "length out \<le> MAX_DATAGRAM_SIZE"
          using cid retry by (auto simp: quiche_retry_iff reply_to_def)
        then show ?thesis using st' Some Inr t by (auto simp: send_reply_sent)
      qed (use st' Some t in simp)
    qed (use st' t in simp)
  next
    case bad
    have "validate_token (info_token info) a QUICHE_MAX_CONN_ID_LEN = None"
      using no_token by (metis not_Some_eq validate_token_iff)
    then show ?thesis using ad unknown bad by (auto simp: admit_def)
  qed
qed

text \<open>A readable header was in the datagram, so a version negotiation packet is at most 10 bytes longer.\<close>

lemma get_u8_length: "octets_get_u8 b = Inr (v, r) \<Longrightarrow> length b = Suc (length r)"
  by (auto simp: octets_get_u8_def oct_bind_Inr_iff octets_get_bytes_iff)

lemma get_u32_length: "octets_get_u32 b = Inr (v, r) \<Longrightarrow> length b = 4 + length r"
  by (auto simp: octets_get_u32_def oct_bind_Inr_iff octets_get_bytes_iff)

lemma get_cid_consumes: "get_cid version b = Inr (c, r) \<Longrightarrow> length b = Suc (length c + length r)"
  by (auto simp: get_cid_def oct_bind_Inr_iff octets_get_bytes_iff dest!: get_u8_length split: if_splits)

lemma long_header_length:
  assumes "long_header first b = Inr (h, r)"
  shows "6 + length (hdr_dcid h) + length (hdr_scid h) \<le> length b"
  using assms
  by (auto simp: long_header_def oct_bind_Inr_iff dest!: get_u32_length get_cid_consumes split: prod.splits)

lemma read_header_length:
  assumes "read_header buf = Inr info"
  shows "1 + length (info_scid info) + length (info_dcid info) \<le> length buf"
    and "info_version info \<noteq> 0 \<Longrightarrow> 7 + length (info_scid info) + length (info_dcid info) \<le> length buf"
proof -
  obtain h r where h: "header_from_bytes LOCAL_CONN_ID_LEN buf = Inr (h, r)"
    and info: "info_version info = hdr_version h" "info_scid info = hdr_scid h" "info_dcid info = hdr_dcid h"
    using assms by (auto simp: read_header_def quiche_header_info_def split: sum.splits option.splits if_splits)
  then obtain first b where b: "buf = first # b"
    by (cases buf) (auto simp: header_from_bytes_def octets_get_u8_def oct_bind_def octets_get_bytes_def)
  have u8: "octets_get_u8 buf = Inr (first, b)"
    by (simp add: b octets_get_u8_def oct_bind_def octets_get_bytes_def oct_ret_def be_nat_def)
  have "(1 + length (info_scid info) + length (info_dcid info) \<le> length buf)
      \<and> (info_version info \<noteq> 0 \<longrightarrow> 7 + length (info_scid info) + length (info_dcid info) \<le> length buf)"
  proof (cases "is_long first")
    case True
    then have "long_header first b = Inr (h, r)" using h u8 by (simp add: header_from_bytes_def)
    from long_header_length [OF this] show ?thesis by (simp add: info b)
  next
    case False
    then show ?thesis using h u8 by (auto simp: header_from_bytes_def oct_bind_Inr_iff octets_get_bytes_iff info b)
  qed
  then show "1 + length (info_scid info) + length (info_dcid info) \<le> length buf"
    and "info_version info \<noteq> 0 \<Longrightarrow> 7 + length (info_scid info) + length (info_dcid info) \<le> length buf" by auto
qed

lemma reply_size:
  assumes "reply_to api info a out"
    and tag: "\<And>w d v t. compute_retry_integrity_tag api w d v = Inr t \<Longrightarrow> length t = 16"
  shows "length out = length (info_scid info) + length (info_dcid info)
    + (if version_is_supported (info_version info) then 45 + length a else 11)"
proof (cases "version_is_supported (info_version info)")
  case True
  then obtain cid t where "length cid = 16" "length t = 16"
    "out = retry_bytes (info_scid info) cid (token_of a (info_dcid info)) @ t"
    using assms by (auto simp: reply_to_def LOCAL_CONN_ID_LEN_def)
  then show ?thesis using True by (simp add: length_retry_bytes length_token_of)
next
  case False
  then show ?thesis using assms(1) by (auto simp: reply_to_def length_vneg_bytes)
qed

lemma reply_length:
  assumes "read_header buf = Inr info" and "reply_to api info a out"
    and tag: "\<And>w d v t. compute_retry_integrity_tag api w d v = Inr t \<Longrightarrow> length t = 16"
  shows "length out \<le> length buf + (if version_is_supported (info_version info) then 38 + length a else 10)"
proof (cases "version_is_supported (info_version info)")
  case True
  then have "info_version info \<noteq> 0" by (auto simp: version_is_supported_def QUICHE_PROTOCOL_VERSION_def)
  then show ?thesis using read_header_length(2) [OF assms(1)] reply_size [OF assms(2) tag] True by simp
next
  case False
  then show ?thesis using read_header_length(1) [OF assms(1)] reply_size [OF assms(2) tag] by simp
qed

end
