(* ===== verification/ServerLoop.thy ===== *)
theory ServerLoop
  imports ServerCore
begin

text \<open>
  The contract of a server program (its treatment of one datagram, its flush and its timeout) and what
  follows for the callbacks and for every run of the event loop.  Both programs are instances.
\<close>

lemma ex_bool [simp]: "\<exists>b. \<not> b" "\<exists>b :: bool. b"
  by auto

section \<open>The contract\<close>

text \<open>
  Of the datagrams nothing is assumed but that their source addresses fit a \<open>sockaddr_storage\<close>, as those
  \<open>recvfrom\<close> stores do.
\<close>

definition inbox_ok :: "recvfrom list \<Rightarrow> bool" where
  "inbox_ok inbox \<longleftrightarrow> (\<forall>d a. Datagram d a \<in> set inbox \<longrightarrow> length a \<le> 128)"

lemma inbox_ok_simps [simp]:
  "inbox_ok []" "inbox_ok (Would_block # r) = inbox_ok r" "inbox_ok (Recv_error # r) = inbox_ok r"
  "inbox_ok (Datagram d a # r) \<longleftrightarrow> length a \<le> 128 \<and> inbox_ok r"
  by (auto simp: inbox_ok_def)

text \<open>Every datagram that comes with a token has a destination connection ID of the local length.\<close>

definition inbox_local :: "recvfrom list \<Rightarrow> bool" where
  "inbox_local inbox \<longleftrightarrow> (\<forall>d a. Datagram d a \<in> set inbox \<longrightarrow> cid_ok (take 65535 d))"

lemma inbox_local_simps [simp]:
  "inbox_local []" "inbox_local (Would_block # r) = inbox_local r" "inbox_local (Recv_error # r) = inbox_local r"
  "inbox_local (Datagram d a # r) \<longleftrightarrow> cid_ok (take 65535 d) \<and> inbox_local r"
  by (auto simp: inbox_local_def)

text \<open>
  The event loop: a readable socket, with what the calls of \<open>recvfrom\<close> will give, or the timer of the
  connection at an address.  \<open>libev\<close> reports a timer only while it runs.
\<close>

datatype loop_event = Readable "recvfrom list" | Timeout nat

fun dispatch ::
  "(recvfrom list \<Rightarrow> 'i server \<Rightarrow> (recvfrom list \<times> 'i server) option) \<Rightarrow> (nat \<Rightarrow> 'i server \<Rightarrow> 'i server option)
    \<Rightarrow> loop_event \<Rightarrow> 'i server \<Rightarrow> 'i server option" where
  "dispatch recv timeout (Readable inbox) st = do { (rest, st) \<leftarrow> recv inbox st; Some st }"
| "dispatch recv timeout (Timeout p) st = timeout p st"

fun run_events ::
  "(recvfrom list \<Rightarrow> 'i server \<Rightarrow> (recvfrom list \<times> 'i server) option) \<Rightarrow> (nat \<Rightarrow> 'i server \<Rightarrow> 'i server option)
    \<Rightarrow> loop_event list \<Rightarrow> 'i server \<Rightarrow> 'i server option" where
  "run_events recv timeout [] st = Some st"
| "run_events recv timeout (ev # evs) st =
     do { st \<leftarrow> dispatch recv timeout ev st; run_events recv timeout evs st }"

fun due :: "loop_event \<Rightarrow> 'i server \<Rightarrow> bool" where
  "due (Readable inbox) st \<longleftrightarrow> inbox_ok inbox"
| "due (Timeout p) st \<longleftrightarrow> p \<in> armed (srv_trace st)"

inductive reachable ::
  "(recvfrom list \<Rightarrow> 'i server \<Rightarrow> (recvfrom list \<times> 'i server) option) \<Rightarrow> (nat \<Rightarrow> 'i server \<Rightarrow> 'i server option)
    \<Rightarrow> 'i server \<Rightarrow> 'i server \<Rightarrow> bool" for recv timeout st0 where
  start: "reachable recv timeout st0 st0"
| next_event: "reachable recv timeout st0 st \<Longrightarrow> due ev st \<Longrightarrow> dispatch recv timeout ev st = Some st'
    \<Longrightarrow> reachable recv timeout st0 st'"

text \<open>A run with the events it has handled, each of which was due when it was.\<close>

inductive run_of ::
  "(recvfrom list \<Rightarrow> 'i server \<Rightarrow> (recvfrom list \<times> 'i server) option) \<Rightarrow> (nat \<Rightarrow> 'i server \<Rightarrow> 'i server option)
    \<Rightarrow> 'i server \<Rightarrow> loop_event list \<Rightarrow> 'i server \<Rightarrow> bool" for recv timeout st0 where
  run_start: "run_of recv timeout st0 [] st0"
| run_next: "run_of recv timeout st0 evs st \<Longrightarrow> due ev st \<Longrightarrow> dispatch recv timeout ev st = Some st'
    \<Longrightarrow> run_of recv timeout st0 (evs @ [ev]) st'"

lemma run_of_reachable: "run_of recv timeout st0 evs st \<Longrightarrow> reachable recv timeout st0 st"
  by (induction rule: run_of.induct) (auto intro: reachable.intros)

lemma run_of_run_events: "run_of recv timeout st0 evs st \<Longrightarrow> run_events recv timeout evs st0 = Some st"
proof (induction rule: run_of.induct)
  case (run_next evs st ev st')
  have "run_events recv timeout (xs @ [ev]) s = Some st'" if "run_events recv timeout xs s = Some st" for xs s
    using that
  proof (induction xs arbitrary: s)
    case Nil
    then show ?case using run_next.hyps(3) by simp
  next
    case (Cons x xs)
    then show ?case by (auto simp: bind_eq_Some_conv)
  qed
  from this [OF run_next.IH] show ?case .
qed simp

lemma reachable_run_of: "reachable recv timeout st0 st \<Longrightarrow> \<exists>evs. run_of recv timeout st0 evs st"
  by (induction rule: reachable.induct) (auto intro: run_of.intros)

text \<open>The events whose datagrams are as in \<open>inbox_local\<close>.\<close>

fun local_ids :: "loop_event \<Rightarrow> bool" where
  "local_ids (Readable inbox) \<longleftrightarrow> inbox_local inbox"
| "local_ids (Timeout p) \<longleftrightarrow> True"

locale server_program = endpoint key self socket flush closed retire fits total
  for key :: "'i \<Rightarrow> bytes" and self :: "'i \<Rightarrow> nat" and socket :: "'i \<Rightarrow> int"
    and flush :: "'i \<Rightarrow> history \<Rightarrow> ('i \<times> history) option" and closed :: "'i \<Rightarrow> bool"
    and retire :: "'i \<Rightarrow> history \<Rightarrow> history" and fits :: bool and total :: bool +
  fixes step :: "bytes \<Rightarrow> sockaddr \<Rightarrow> 'i server \<Rightarrow> (bool \<times> 'i server) option"
    and tick :: "'i \<Rightarrow> 'i"
  assumes step_total: "total \<Longrightarrow> length a \<le> 128 \<Longrightarrow> \<exists>r. step d a st = Some r"
    and step_ok: "step d a st = Some (b, st') \<Longrightarrow> length a \<le> 128 \<Longrightarrow> total \<Longrightarrow>
      server_ok key self socket st \<Longrightarrow> server_ok key self socket st' \<and> server_frame st st'"
    and step_keys: "step d a st = Some (b, st') \<Longrightarrow> length a \<le> 128 \<Longrightarrow> total \<Longrightarrow>
      server_ok key self socket st \<Longrightarrow> cid_ok d \<Longrightarrow> keys_distinct key st \<Longrightarrow> keys_distinct key st'"
    and tick_frame: "key (tick x) = key x \<and> self (tick x) = self x \<and> socket (tick x) = socket x"
begin

lemma recv_loop_total:
  assumes "total" and "inbox_ok inbox"
  shows "\<exists>r. recv_loop step inbox st = Some r"
  using assms(2)
proof (induction inbox arbitrary: st)
  case (Cons m rest)
  show ?case
  proof (cases m)
    case (Datagram d a)
    then obtain go st1 where s: "step (take 65535 d) a st = Some (go, st1)"
      using step_total [OF assms(1), of a "take 65535 d" st] Cons.prems by auto
    show ?thesis using Cons.IH [of st1] Cons.prems by (cases go) (simp_all add: Datagram s)
  qed simp_all
qed simp

lemma recv_loop_ok:
  assumes "recv_loop step inbox st = Some (b, rest, st')" and "total" and "inbox_ok inbox"
    and "server_ok key self socket st"
  shows "server_ok key self socket st' \<and> server_frame st st'"
  using assms(1,3,4)
proof (induction inbox arbitrary: st)
  case Nil
  then show ?case by (auto intro!: server_ok_log server_frame_log)
next
  case (Cons m r)
  show ?case
  proof (cases m)
    case (Datagram d a)
    then obtain go st1 where s: "step (take 65535 d) a st = Some (go, st1)"
      and st1: "if go then recv_loop step r st1 = Some (b, rest, st') else st' = st1"
      using Cons.prems(1) by (cases "step (take 65535 d) a st") (auto split: if_splits)
    have ok: "server_ok key self socket st1 \<and> server_frame st st1"
      using step_ok [OF s] Cons.prems(2,3) assms(2) by (simp add: Datagram)
    show ?thesis
    proof (cases go)
      case True
      then show ?thesis using Cons.IH [of st1] st1 ok Cons.prems(2)
        by (auto simp: Datagram intro: server_frame_trans)
    next
      case False
      then show ?thesis using st1 ok by simp
    qed
  qed (use Cons.prems in \<open>auto intro!: server_ok_log server_frame_log\<close>)
qed

lemma recv_loop_keys:
  assumes "recv_loop step inbox st = Some (b, rest, st')" and "total" and "inbox_ok inbox"
    and "server_ok key self socket st" and "inbox_local inbox" and "keys_distinct key st"
  shows "keys_distinct key st'"
  using assms(1,3-6)
proof (induction inbox arbitrary: st)
  case Nil
  then show ?case by (auto simp: keys_distinct_def)
next
  case (Cons m r)
  show ?case
  proof (cases m)
    case (Datagram d a)
    then obtain go st1 where s: "step (take 65535 d) a st = Some (go, st1)"
      and st1: "if go then recv_loop step r st1 = Some (b, rest, st') else st' = st1"
      using Cons.prems(1) by (cases "step (take 65535 d) a st") (auto split: if_splits)
    have ok: "server_ok key self socket st1" "keys_distinct key st1"
      using step_ok [OF s] step_keys [OF s] Cons.prems(2-5) assms(2) by (simp_all add: Datagram)
    show ?thesis
    proof (cases go)
      case True
      then show ?thesis using Cons.IH [of st1] st1 ok Cons.prems(2,4) by (simp add: Datagram)
    next
      case False
      then show ?thesis using st1 ok by simp
    qed
  qed (use Cons.prems in \<open>auto simp: keys_distinct_def\<close>)
qed

section \<open>The callbacks\<close>

lemma recv_cb_total:
  assumes "total" and "inbox_ok inbox"
  shows "\<exists>r. server_recv_cb step flush closed retire inbox st = Some r"
proof -
  obtain b rest st1 where l: "recv_loop step inbox st = Some (b, rest, st1)"
    using recv_loop_total [OF assms, of st] by auto
  obtain h tr where "sweep flush closed retire (srv_h st1) (srv_trace st1) = Some (h, tr)"
    using sweep_total [OF assms(1), of "srv_h st1" "srv_trace st1"] by auto
  then show ?thesis by (simp add: server_recv_cb_def l)
qed

lemma recv_cb_cases:
  assumes "server_recv_cb step flush closed retire inbox st = Some (rest, st')"
  obtains (returned) "recv_loop step inbox st = Some (False, rest, st')"
  | (swept) st1 h tr where "recv_loop step inbox st = Some (True, rest, st1)"
      "sweep flush closed retire (srv_h st1) (srv_trace st1) = Some (h, tr)" "st' = st1\<lparr>srv_h := h, srv_trace := tr\<rparr>"
proof -
  obtain b r st1 where l: "recv_loop step inbox st = Some (b, r, st1)"
    using assms by (cases "recv_loop step inbox st") (auto simp: server_recv_cb_def)
  show thesis
  proof (cases b)
    case True
    then show thesis using assms l by (auto simp: server_recv_cb_def bind_eq_Some_conv intro: swept)
  next
    case False
    then show thesis using assms l by (auto simp: server_recv_cb_def intro: returned)
  qed
qed

lemma swept_ok:
  assumes ok: "server_ok key self socket st" and sw: "sweep flush closed retire (srv_h st) (srv_trace st) = Some (h, tr)"
  shows "server_ok key self socket (st\<lparr>srv_h := h, srv_trace := tr\<rparr>)"
    and "fits \<Longrightarrow> server_frame st (st\<lparr>srv_h := h, srv_trace := tr\<rparr>)"
    and "\<forall>y \<in> set h. \<not> closed y"
proof -
  have d: "distinct (map self (srv_h st))" using ok by (simp add: server_ok_def)
  have "armed tr \<subseteq> {} \<union> self ` set h"
    by (rule sweep_armed [OF sw d]) (use ok in \<open>simp add: server_ok_def\<close>)
  moreover have "distinct (freed tr) \<and> set (freed tr) \<inter> self ` set h = {}
      \<and> set (freed tr) \<subseteq> set (freed (srv_trace st)) \<union> self ` set (srv_h st)"
    by (rule sweep_freed [OF sw d]) (use ok in \<open>simp_all add: server_ok_def\<close>)
  moreover have sub: "\<And>y. y \<in> set h \<Longrightarrow> \<not> closed y \<and> (\<exists>x \<in> set (srv_h st). key y = key x \<and> self y = self x \<and> socket y = socket x)"
    by (rule sweep_subset [OF sw])
  moreover have "\<forall>p \<in> set (freed tr). p < srv_next st"
    using calculation(2) ok by (fastforce simp: server_ok_def)
  ultimately show "server_ok key self socket (st\<lparr>srv_h := h, srv_trace := tr\<rparr>)"
    using ok sweep_ok(1) [OF sw d] by (fastforce simp: server_ok_def)
  show "\<forall>y \<in> set h. \<not> closed y" using sub by blast
  show "server_frame st (st\<lparr>srv_h := h, srv_trace := tr\<rparr>)" if fits
    using sweep_events [OF that sw] ok by (simp add: server_frame_def server_ok_def)
qed

lemma recv_cb_ok:
  assumes "server_recv_cb step flush closed retire inbox st = Some (rest, st')" and "total" and "inbox_ok inbox"
    and "server_ok key self socket st"
  shows "server_ok key self socket st'" and "fits \<Longrightarrow> server_frame st st'"
proof -
  have "server_ok key self socket st' \<and> (fits \<longrightarrow> server_frame st st')"
    using assms(1)
  proof (cases rule: recv_cb_cases)
    case returned
    then show ?thesis using recv_loop_ok [OF _ assms(2-4)] by blast
  next
    case (swept st1 h tr)
    then have "server_ok key self socket st1 \<and> server_frame st st1" using recv_loop_ok [OF _ assms(2-4)] by blast
    then show ?thesis using swept_ok [OF _ swept(2)] swept(3) server_frame_trans by blast
  qed
  then show "server_ok key self socket st'" and "fits \<Longrightarrow> server_frame st st'" by auto
qed

lemma recv_cb_keys:
  assumes "server_recv_cb step flush closed retire inbox st = Some (rest, st')" and "total" and "inbox_ok inbox"
    and "server_ok key self socket st" and "inbox_local inbox" and "keys_distinct key st"
  shows "keys_distinct key st'"
  using assms(1)
proof (cases rule: recv_cb_cases)
  case returned
  then show ?thesis using recv_loop_keys [OF _ assms(2-6)] by blast
next
  case (swept st1 h tr)
  then have "keys_distinct key st1" using recv_loop_keys [OF _ assms(2-6)] by blast
  then show ?thesis using sweep_ok(2) [OF swept(2)] swept(3) by (simp add: keys_distinct_def)
qed

text \<open>After a callback that has read everything, no connection in the table is closed.\<close>

lemma recv_cb_no_closed:
  assumes "server_recv_cb step flush closed retire inbox st = Some (rest, st')" and "total" and "inbox_ok inbox"
    and "server_ok key self socket st" and "\<exists>st1. recv_loop step inbox st = Some (True, rest, st1)"
  shows "\<forall>x \<in> set (srv_h st'). \<not> closed x"
  using assms(1)
proof (cases rule: recv_cb_cases)
  case returned
  then show ?thesis using assms(5) by simp
next
  case (swept st1 h tr)
  then show ?thesis using swept_ok(3) recv_loop_ok [OF _ assms(2-4)] by auto
qed

text \<open>A timeout is defined exactly when its connection is still there.\<close>

lemma timeout_cb_total:
  assumes "total" and "p \<in> self ` set (srv_h st)"
  shows "\<exists>st'. server_timeout_cb self tick flush closed retire p st = Some st'"
proof -
  obtain x where x: "entry_at self p (srv_h st) = Some x"
    using assms(2) entry_at_None_iff [of self p "srv_h st"] by fastforce
  obtain x' tr where "flush (tick x) (Stderr (STR ''timeout'') [] # srv_trace st) = Some (x', tr)"
    using flush_total [OF assms(1)] by fast
  then show ?thesis by (simp add: server_timeout_cb_def x)
qed

lemma timeout_cb_None: "p \<notin> self ` set (srv_h st) \<Longrightarrow> server_timeout_cb self tick flush closed retire p st = None"
  by (simp add: server_timeout_cb_def entry_at_None_iff [THEN iffD2])

lemma timeout_cb_ok:
  assumes "server_timeout_cb self tick flush closed retire p st = Some st'" and ok: "server_ok key self socket st"
  shows "server_ok key self socket st'" and "fits \<Longrightarrow> server_frame st st'"
proof -
  let ?tr = "Stderr (STR ''timeout'') [] # srv_trace st"
  obtain x x' tr where x: "entry_at self p (srv_h st) = Some x" and f: "flush (tick x) ?tr = Some (x', tr)"
    and st': "st' = (if closed x' then st\<lparr>srv_h := hash_delete self p (srv_h st), srv_trace := retire x' tr\<rparr>
        else st\<lparr>srv_h := store_at self x' (srv_h st), srv_trace := tr\<rparr>)"
    using assms(1) by (auto simp: server_timeout_cb_def bind_eq_Some_conv split: if_splits)
  have xin: "x \<in> set (srv_h st)" "self x = p" using entry_at_Some [OF x] by auto
  have fr: "key x' = key x" "self x' = self x" "socket x' = socket x"
    using flush_frame [OF f] tick_frame [of x] by simp_all
  have ft: "armed tr \<subseteq> insert p (armed (srv_trace st))" "freed tr = freed (srv_trace st)"
    using flush_timers [OF f] tick_frame [of x] xin by simp_all
  have e: "distinct (map self (srv_h st))" using ok by (simp add: server_ok_def)
  have pin: "p \<in> self ` set (srv_h st)" using xin by auto
  show "server_ok key self socket st'"
  proof (cases "closed x'")
    case True
    have "armed (retire x' tr) \<subseteq> self ` set (srv_h st) - {p}" "freed (retire x' tr) = p # freed (srv_trace st)"
      using retire_timers [of x' tr] fr ft xin ok by (auto simp: server_ok_def)
    moreover have "self ` set (hash_delete self p (srv_h st)) = self ` set (srv_h st) - {p}"
      by (auto simp: hash_delete_def)
    moreover have "p \<notin> set (freed (srv_trace st))" "p < srv_next st"
      using ok pin xin by (auto simp: server_ok_def)
    ultimately show ?thesis
      using ok distinct_map_filter [OF e] True unfolding st' server_ok_def by (auto simp: hash_delete_def)
  next
    case False
    have "distinct (map self (store_at self x' (srv_h st)))"
      using addr.ok_assign [of self "srv_h st" x x'] e xin fr by simp
    moreover have "map self (store_at self x' (srv_h st)) = map self (srv_h st)"
      by (simp add: store_at_def)
    then have "self ` set (store_at self x' (srv_h st)) = self ` set (srv_h st)"
      by (metis set_map)
    moreover have "\<forall>y \<in> set (store_at self x' (srv_h st)).
        socket y = srv_sock st \<and> length (key y) = LOCAL_CONN_ID_LEN \<and> self y < srv_next st"
      using ok xin fr by (auto simp: server_ok_def store_at_def)
    ultimately show ?thesis using ok False ft pin unfolding st' server_ok_def by auto
  qed
  show "server_frame st st'" if fits
  proof -
    have sk: "socket (tick x) = srv_sock st" "socket x' = srv_sock st"
      using ok xin fr tick_frame [of x] by (auto simp: server_ok_def)
    have "extends (event_ok (srv_sock st)) (srv_trace st) tr"
      using extends_trans [OF _ flush_events [OF that f], of "srv_trace st"] sk(1) by (simp add: extends_intros)
    moreover have "extends (event_ok (srv_sock st)) tr (retire x' tr)" using retire_events [of x' tr] sk(2) by simp
    ultimately show ?thesis by (auto simp: st' server_frame_def intro: extends_trans)
  qed
qed

lemma timeout_cb_keys:
  assumes "server_timeout_cb self tick flush closed retire p st = Some st'" and ok: "server_ok key self socket st"
    and "keys_distinct key st"
  shows "keys_distinct key st'"
proof -
  let ?tr = "Stderr (STR ''timeout'') [] # srv_trace st"
  obtain x x' tr where x: "entry_at self p (srv_h st) = Some x" and f: "flush (tick x) ?tr = Some (x', tr)"
    and st': "st' = (if closed x' then st\<lparr>srv_h := hash_delete self p (srv_h st), srv_trace := retire x' tr\<rparr>
        else st\<lparr>srv_h := store_at self x' (srv_h st), srv_trace := tr\<rparr>)"
    using assms(1) by (auto simp: server_timeout_cb_def bind_eq_Some_conv split: if_splits)
  have xin: "x \<in> set (srv_h st)" "self x = p" using entry_at_Some [OF x] by auto
  have fr: "key x' = key x" "self x' = self x" using flush_frame [OF f] tick_frame [of x] by simp_all
  have e: "entries_ok key self (srv_h st)" by (rule server_ok_entries [OF ok assms(3)])
  show ?thesis
    using tab.ok_assign [OF e xin(1) fr(2,1)] tab.ok_delete [OF e, of p]
    by (simp add: st' keys_distinct_def entries_ok_def)
qed

text \<open>
  Every state of a run keeps the invariant, and no event that can be due in it is undefined: in
  particular, a timer never fires for a connection that is gone.
\<close>

lemma reachable_ok:
  assumes "reachable (server_recv_cb step flush closed retire)
      (server_timeout_cb self tick flush closed retire) st0 st"
    and "total" and "server_ok key self socket st0"
  shows "server_ok key self socket st"
  using assms(1)
proof (induction rule: reachable.induct)
  case start
  show ?case by (rule assms(3))
next
  case (next_event st ev st')
  show ?case
  proof (cases ev)
    case (Readable inbox)
    then obtain rest where "server_recv_cb step flush closed retire inbox st = Some (rest, st')"
      using next_event.hyps(3) by (auto simp: bind_eq_Some_conv)
    then show ?thesis using recv_cb_ok(1) [OF _ assms(2)] next_event.hyps(2) next_event.IH by (simp add: Readable)
  next
    case (Timeout p)
    then show ?thesis using timeout_cb_ok(1) next_event.hyps(3) next_event.IH by simp
  qed
qed

text \<open>The keys stay distinct in runs whose datagrams have connection IDs of the local length.\<close>

lemma run_of_keys:
  assumes "run_of (server_recv_cb step flush closed retire)
      (server_timeout_cb self tick flush closed retire) st0 evs st"
    and "total" and "server_ok key self socket st0" and "keys_distinct key st0" and "\<forall>ev \<in> set evs. local_ids ev"
  shows "keys_distinct key st"
  using assms(1,5)
proof (induction rule: run_of.induct)
  case run_start
  show ?case by (rule assms(4))
next
  case (run_next evs st ev st')
  have ok: "server_ok key self socket st" by (rule reachable_ok [OF run_of_reachable [OF run_next.hyps(1)] assms(2,3)])
  have keys: "keys_distinct key st" using run_next.IH run_next.prems by simp
  show ?case
  proof (cases ev)
    case (Readable inbox)
    then obtain rest where "server_recv_cb step flush closed retire inbox st = Some (rest, st')"
      using run_next.hyps(3) by (auto simp: bind_eq_Some_conv)
    then show ?thesis using recv_cb_keys [OF _ assms(2) _ ok _ keys] run_next.hyps(2) run_next.prems by (simp add: Readable)
  next
    case (Timeout p)
    then show ?thesis using timeout_cb_keys [OF _ ok keys] run_next.hyps(3) by simp
  qed
qed

lemma reachable_progress:
  assumes "reachable (server_recv_cb step flush closed retire)
      (server_timeout_cb self tick flush closed retire) st0 st"
    and "total" and "server_ok key self socket st0" and "due ev st"
  shows "\<exists>st'. dispatch (server_recv_cb step flush closed retire)
      (server_timeout_cb self tick flush closed retire) ev st = Some st'"
proof (cases ev)
  case (Readable inbox)
  then show ?thesis using recv_cb_total [OF assms(2), of inbox st] assms(4) by auto
next
  case (Timeout p)
  have "armed (srv_trace st) \<subseteq> self ` set (srv_h st)"
    using reachable_ok [OF assms(1-3)] by (simp add: server_ok_def)
  then show ?thesis using timeout_cb_total [OF assms(2), of p st] assms(4) Timeout by auto
qed

lemma reachable_frame:
  assumes "reachable (server_recv_cb step flush closed retire)
      (server_timeout_cb self tick flush closed retire) st0 st"
    and "total" and "fits" and "server_ok key self socket st0"
  shows "server_frame st0 st"
  using assms(1)
proof (induction rule: reachable.induct)
  case start
  show ?case by simp
next
  case (next_event st ev st')
  have ok: "server_ok key self socket st" using reachable_ok [OF next_event.hyps(1) assms(2,4)] .
  have "server_frame st st'"
  proof (cases ev)
    case (Readable inbox)
    then obtain rest where "server_recv_cb step flush closed retire inbox st = Some (rest, st')"
      using next_event.hyps(3) by (auto simp: bind_eq_Some_conv)
    then show ?thesis using recv_cb_ok(2) [OF _ assms(2) _ ok assms(3)] next_event.hyps(2) by (simp add: Readable)
  next
    case (Timeout p)
    then show ?thesis using timeout_cb_ok(2) [OF _ ok assms(3)] next_event.hyps(3) by simp
  qed
  with next_event.IH show ?case by (rule server_frame_trans)
qed

end

end
