(* ===== verification/ServerIo.thy ===== *)
theory ServerIo
  imports ServerLoop
begin

text \<open>
  A connection of the two servers and what they do with it alike: flushing it, the end of a closed
  one, its timeout; and the first part of their \<open>main\<close>.  The records of the two programs differ in
  one field, so the operations are on the record with more fields to come.
\<close>

section \<open>State\<close>

text \<open>
  \<open>struct conn_io\<close>: its address, the repeat value of its timer in nanoseconds, the socket, the key, the
  connection and the peer's address with its length.  \<open>quiche_conn *\<close> is the value \<open>'c\<close> of the
  engine's connection.
\<close>

record 'c conn_io =
  io_self :: nat
  io_repeat :: u64
  io_sock :: int
  io_cid :: bytes
  io_conn :: 'c
  io_peer_addr :: sockaddr

section \<open>Operations\<close>

text \<open>
  \<open>flush_egress\<close>; the programs differ in where they send a packet: \<open>dest\<close>, from the connection and
  what the engine says of the packet.
\<close>

definition flush_conn ::
  "'c quiche_api \<Rightarrow> environment \<Rightarrow> (('c, 'x) conn_io_scheme \<Rightarrow> quiche_send_info \<Rightarrow> sockaddr)
    \<Rightarrow> ('c, 'x) conn_io_scheme \<Rightarrow> history \<Rightarrow> (('c, 'x) conn_io_scheme \<times> history) option" where
  "flush_conn api env dest conn_io tr =
     do {
       (done, conn, tr) \<leftarrow> send_loop api env (dest conn_io) (io_sock conn_io) (io_conn conn_io) tr;
       let conn_io = conn_io\<lparr>io_conn := conn\<rparr>;
       if \<not> done then Some (conn_io, tr)
       else
         let t = quiche_conn_timeout_as_nanos api (io_conn conn_io)
         in Some (conn_io\<lparr>io_repeat := t\<rparr>, Timer_again (io_self conn_io) t # tr)
     }"

text \<open>
  What is done to a closed connection: the statistics are reported, its timer is stopped, the
  connection and its entry are freed.  Where the path has no statistics, what is reported of it is
  what was on the stack.
\<close>

definition retire_conn :: "'c quiche_api \<Rightarrow> environment \<Rightarrow> ('c, 'x) conn_io_scheme \<Rightarrow> history \<Rightarrow> history" where
  "retire_conn api env conn_io tr =
     (let stats = quiche_conn_stats api (io_conn conn_io);
          path = (case quiche_conn_path_stats api (io_conn conn_io) 0 of
                    Inr ps \<Rightarrow> [uint (path_rtt ps), int (path_cwnd ps)]
                  | Inl _ \<Rightarrow> map (\<lambda>n. int (be_nat (env_stack env tr n))) [8, 8])
      in Free (io_self conn_io) # Conn_free (io_self conn_io) # Timer_stop (io_self conn_io)
         # Stderr (STR ''connection closed, recv=%zu sent=%zu lost=%zu rtt=%luns cwnd=%zu'')
             ([int (stats_recv stats), int (stats_sent stats), int (stats_lost stats)] @ path) # tr)"

definition is_closed :: "'c quiche_api \<Rightarrow> ('c, 'x) conn_io_scheme \<Rightarrow> bool" where
  "is_closed api conn_io = quiche_conn_is_closed api (io_conn conn_io)"

definition on_timeout :: "'c quiche_api \<Rightarrow> ('c, 'x) conn_io_scheme \<Rightarrow> ('c, 'x) conn_io_scheme" where
  "on_timeout api conn_io = conn_io\<lparr>io_conn := quiche_conn_on_timeout api (io_conn conn_io)\<rparr>"

section \<open>Starting up\<close>

text \<open>What the calls of \<open>main\<close> before the event loop give.\<close>

record startup =
  su_getaddrinfo :: "sockaddr option"
  su_socket :: int
  su_fcntl :: int
  su_bind :: int
  su_tls :: bool

text \<open>
  Up to the configuration object: a failed step is reported and ends the program with \<open>-1\<close>.
\<close>

definition open_server :: "startup \<Rightarrow> (int \<times> event) + (sockaddr \<times> quiche_config)" where
  "open_server su =
     (case su_getaddrinfo su of
        None \<Rightarrow> Inl (- 1, perror (STR ''failed to resolve host''))
      | Some local \<Rightarrow>
          if su_socket su < 0 then Inl (- 1, perror (STR ''failed to create socket''))
          else if su_fcntl su \<noteq> 0 then Inl (- 1, perror (STR ''failed to make socket non-blocking''))
          else if su_bind su < 0 then Inl (- 1, perror (STR ''failed to connect socket''))
          else case quiche_config_new (su_tls su) QUICHE_PROTOCOL_VERSION of
            None \<Rightarrow> Inl (- 1, Stderr (STR ''failed to create config'') [])
          | Some config \<Rightarrow> Inr (local, config))"

lemma open_server_config:
  "open_server su = Inr (local, config) \<longleftrightarrow> su_getaddrinfo su = Some local \<and> 0 \<le> su_socket su \<and> su_fcntl su = 0
     \<and> 0 \<le> su_bind su \<and> su_tls su \<and> config = \<lparr>config_version = QUICHE_PROTOCOL_VERSION, config_calls = []\<rparr>"
  by (auto simp: open_server_def quiche_config_new_def version_is_supported_def split: option.splits if_splits)

lemma open_server_fails: "open_server su = Inl (rc, e) \<Longrightarrow> rc = - 1"
  by (auto simp: open_server_def split: option.splits if_splits)

section \<open>The contract of a flush\<close>

text \<open>What the engine and the system must do for every callback to return.\<close>

definition runs :: "'c quiche_api \<Rightarrow> environment \<Rightarrow> bool" where
  "runs api env \<longleftrightarrow> (\<exists>m. send_ends api m) \<and> env_ok env"

lemma flush_conn_cases:
  assumes "flush_conn api env dest x tr = Some (x', tr')"
  obtains (early) c where "send_run api env (dest x) (io_sock x) (io_conn x) tr False c tr'" "x' = x\<lparr>io_conn := c\<rparr>"
  | (drained) c t where "send_run api env (dest x) (io_sock x) (io_conn x) tr True c t"
      "x' = x\<lparr>io_conn := c, io_repeat := quiche_conn_timeout_as_nanos api c\<rparr>"
      "tr' = Timer_again (io_self x) (quiche_conn_timeout_as_nanos api c) # t"
proof -
  obtain b c t where l: "send_loop api env (dest x) (io_sock x) (io_conn x) tr = Some (b, c, t)"
    using assms by (cases "send_loop api env (dest x) (io_sock x) (io_conn x) tr") (auto simp: flush_conn_def)
  then have run: "send_run api env (dest x) (io_sock x) (io_conn x) tr b c t" by (simp add: send_loop_iff)
  show thesis
  proof (cases b)
    case True
    then show thesis using drained [of c t] run l assms by (auto simp: flush_conn_def Let_def)
  next
    case False
    then show thesis using early [of c] run l assms by (auto simp: flush_conn_def Let_def)
  qed
qed

lemma flush_conn_total: "send_ends api m \<Longrightarrow> \<exists>r. flush_conn api env dest x tr = Some r"
  using send_loop_total [of api m env "dest x" "io_sock x" "io_conn x" tr]
  by (auto simp: flush_conn_def Let_def)

lemma flush_conn_runs: "runs api env \<Longrightarrow> \<exists>r. flush_conn api env dest x tr = Some r"
  unfolding runs_def using flush_conn_total by blast

lemma flush_conn_frame:
  assumes "flush_conn api env dest x tr = Some (x', tr')"
  shows "io_cid x' = io_cid x \<and> io_self x' = io_self x \<and> io_sock x' = io_sock x"
  using assms by (cases rule: flush_conn_cases) simp_all

lemma flush_conn_timers:
  assumes "flush_conn api env dest x tr = Some (x', tr')"
  shows "armed tr' \<subseteq> insert (io_self x) (armed tr) \<and> freed tr' = freed tr"
  using assms
proof (cases rule: flush_conn_cases)
  case (early c)
  then show ?thesis using extends_io [OF send_run_io [OF early(1)]] by auto
next
  case (drained c t)
  then show ?thesis using extends_io [OF send_run_io [OF drained(1)]] by auto
qed

lemma flush_conn_events:
  assumes "flush_conn api env dest x tr = Some (x', tr')" and "send_fits api"
  shows "extends (event_ok (io_sock x)) tr tr'"
  using assms(1)
proof (cases rule: flush_conn_cases)
  case (early c)
  then show ?thesis using send_run_extends [OF early(1) assms(2)] by simp
next
  case (drained c t)
  then show ?thesis using send_run_extends [OF drained(1) assms(2)] by (simp add: extends_intros)
qed

lemma retire_timers:
  "armed (retire_conn api env x tr) = armed tr - {io_self x}" "freed (retire_conn api env x tr) = io_self x # freed tr"
  by (auto simp: retire_conn_def Let_def)

lemma retire_events: "extends (event_ok s) tr (retire_conn api env x tr)"
  by (auto simp: retire_conn_def Let_def intro!: extends_intros)

lemma on_timeout_frame:
  "io_cid (on_timeout api x) = io_cid x \<and> io_self (on_timeout api x) = io_self x \<and> io_sock (on_timeout api x) = io_sock x"
  by (simp add: on_timeout_def)

interpretation conn: endpoint io_cid io_self io_sock "flush_conn api env dest" "is_closed api" "retire_conn api env"
    "send_fits api" "runs api env"
  for api :: "'c quiche_api" and env :: environment
    and dest :: "('c, 'x) conn_io_scheme \<Rightarrow> quiche_send_info \<Rightarrow> sockaddr"
proof unfold_locales
  show "\<exists>r. flush_conn api env dest x tr = Some r" if "runs api env" for x tr
    using that by (rule flush_conn_runs)
qed (auto simp: flush_conn_frame retire_timers retire_events dest: flush_conn_timers intro: flush_conn_events)

text \<open>
  What a flush sends: in any case a first part of the packets the engine has, in order; all of them,
  each once, when the engine ends by \<open>QUICHE_ERR_DONE\<close> and the kernel takes every datagram, and then
  the timer is set to the engine's timeout.
\<close>

lemma flush_conn_prefix:
  assumes "flush_conn api env dest x tr = Some (x', tr')" and "emits api (io_conn x) ps e c"
  shows "\<exists>k \<le> length ps. sent tr' = rev (map (\<lambda>(out, i). (io_sock x, out, dest x i)) (take k ps)) @ sent tr"
  using assms(1)
proof (cases rule: flush_conn_cases)
  case (early c')
  then show ?thesis using send_run_prefix [OF early(1) assms(2)] by simp
next
  case (drained c' t)
  then show ?thesis using send_run_prefix [OF drained(1) assms(2)] by simp
qed

lemma send_run_drains:
  assumes "emits api c ps e c'" and "e = QUICHE_ERR_DONE"
    and "\<And>tr s d a. env_sendto env tr s d a = int (length d)"
  shows "\<exists>tr'. send_run api env dest sock c tr True c' tr'
    \<and> sent tr' = rev (map (\<lambda>(out, i). (sock, out, dest i)) ps) @ sent tr"
  using assms(1,2)
proof (induction arbitrary: tr rule: emits.induct)
  case (emits_end c e c')
  then show ?case by (intro exI [of _ "Stderr (STR ''done writing'') [] # tr"]) (simp add: run_done)
next
  case (emits_packet c p c1 ps e c')
  obtain out i where p: "p = (out, i)" by fastforce
  let ?tr = "Stderr (STR ''sent %zd bytes'') [int (length out)] # Sendto sock out (dest i) (int (length out)) # tr"
  obtain tr' where "send_run api env dest sock c1 ?tr True c' tr'"
    "sent tr' = rev (map (\<lambda>(out, i). (sock, out, dest i)) ps) @ sent ?tr"
    using emits_packet.IH [OF emits_packet.prems] by blast
  then show ?case
    using run_sent [OF emits_packet.hyps(1) [unfolded p] assms(3) [symmetric] refl]
    by (intro exI [of _ tr']) (simp add: p)
qed

lemma flush_conn_drains:
  assumes "emits api (io_conn x) ps QUICHE_ERR_DONE c" and "\<And>tr s d a. env_sendto env tr s d a = int (length d)"
  shows "\<exists>tr'. flush_conn api env dest x tr =
      Some (x\<lparr>io_conn := c, io_repeat := quiche_conn_timeout_as_nanos api c\<rparr>,
        Timer_again (io_self x) (quiche_conn_timeout_as_nanos api c) # tr')
    \<and> sent tr' = rev (map (\<lambda>(out, i). (io_sock x, out, dest x i)) ps) @ sent tr"
proof -
  obtain tr' where run: "send_run api env (dest x) (io_sock x) (io_conn x) tr True c tr'"
    and sent: "sent tr' = rev (map (\<lambda>(out, i). (io_sock x, out, dest x i)) ps) @ sent tr"
    using send_run_drains [OF assms(1) refl assms(2)] by blast
  then show ?thesis
    by (intro exI [of _ tr']) (simp add: flush_conn_def Let_def send_loop_iff [THEN iffD2, OF run])
qed

end
