(* ===== verification/Server.thy ===== *)
theory Server
  imports ServerIo
begin

text \<open>
  \<open>quiche/examples/server.c\<close>: an HTTP/0.9 server over QUIC.  It answers every finished request stream
  with five bytes.
\<close>

section \<open>Operations\<close>

type_synonym 'c server_state = "'c conn_io server"

definition new_conn_io :: "nat \<Rightarrow> int \<Rightarrow> bytes \<Rightarrow> 'c \<Rightarrow> sockaddr \<Rightarrow> 'c conn_io" where
  "new_conn_io p sock cid conn peer_addr =
     \<lparr>io_self = p, io_repeat = 0, io_sock = sock, io_cid = cid, io_conn = conn, io_peer_addr = peer_addr\<rparr>"

text \<open>A packet goes where the engine says.\<close>

definition flush_egress ::
  "'c quiche_api \<Rightarrow> environment \<Rightarrow> 'c conn_io \<Rightarrow> history \<Rightarrow> ('c conn_io \<times> history) option" where
  "flush_egress api env = flush_conn api env (\<lambda>conn_io send_info. send_to send_info)"

text \<open>The response, the five characters \<open>byez\<close> and a newline.\<close>

definition resp :: bytes where
  "resp = [0x62, 0x79, 0x65, 0x7a, 0x0a]"

fun stream_loop :: "'c quiche_api \<Rightarrow> u64 list \<Rightarrow> 'c \<Rightarrow> history \<Rightarrow> 'c \<times> history" where
  "stream_loop api [] conn tr = (conn, tr)"
| "stream_loop api (s # readable) conn tr =
     (let tr = Stderr (STR ''stream %lu is readable'') [uint s] # tr in
      case quiche_conn_stream_recv api conn s 65535 of
        (Inl e, conn) \<Rightarrow> (conn, tr)
      | (Inr (_, fin), conn) \<Rightarrow>
          let conn = (if fin then snd (quiche_conn_stream_send api conn s (take 5 resp) True) else conn)
          in stream_loop api readable conn tr)"

text \<open>A datagram of a connection: from \<open>quiche_recv_info\<close> to the end of the loop body.\<close>

definition process ::
  "'c quiche_api \<Rightarrow> bytes \<Rightarrow> sockaddr \<Rightarrow> sockaddr \<Rightarrow> 'c conn_io \<Rightarrow> history \<Rightarrow> 'c conn_io \<times> history" where
  "process api buf peer_addr local_addr conn_io tr =
     (let recv_info = \<lparr>recv_from = peer_addr, recv_to = local_addr\<rparr> in
      case quiche_conn_recv api (io_conn conn_io) buf recv_info of
        (Inl e, conn) \<Rightarrow>
          (conn_io\<lparr>io_conn := conn\<rparr>, Stderr (STR ''failed to process packet: %zd'') [quiche_error_code e] # tr)
      | (Inr done, conn) \<Rightarrow>
          let tr = Stderr (STR ''recv %zd bytes'') [int done] # tr in
          if quiche_conn_is_established api conn
          then (case stream_loop api (quiche_conn_readable api conn) conn tr of
                  (conn, tr) \<Rightarrow> (conn_io\<lparr>io_conn := conn\<rparr>, tr))
          else (conn_io\<lparr>io_conn := conn\<rparr>, tr))"

text \<open>One turn of the loop of \<open>recv_cb\<close>; every way through it goes on with the next datagram.\<close>

definition recv_datagram ::
  "'c quiche_api \<Rightarrow> environment \<Rightarrow> quiche_config \<Rightarrow> bytes \<Rightarrow> sockaddr \<Rightarrow> 'c server_state
    \<Rightarrow> (bool \<times> 'c server_state) option" where
  "recv_datagram api env config buf peer_addr st =
     (case read_header buf of
        Inl rc \<Rightarrow>
          Some (True, server_log (Stderr (STR ''failed to parse header: %d'') [quiche_error_code rc]) st)
      | Inr info \<Rightarrow>
          do {
            (conn_io, st) \<leftarrow> admit api env config io_cid io_self new_conn_io info peer_addr st;
            Some (True, case conn_io of
                None \<Rightarrow> st
              | Some conn_io \<Rightarrow>
                  (case process api buf peer_addr (srv_local_addr st) conn_io (srv_trace st) of
                     (conn_io, tr) \<Rightarrow> st\<lparr>srv_h := store_at io_self conn_io (srv_h st), srv_trace := tr\<rparr>))
          })"

definition recv_cb ::
  "'c quiche_api \<Rightarrow> environment \<Rightarrow> quiche_config \<Rightarrow> recvfrom list \<Rightarrow> 'c server_state
    \<Rightarrow> (recvfrom list \<times> 'c server_state) option" where
  "recv_cb api env config =
     server_recv_cb (recv_datagram api env config) (flush_egress api env) (is_closed api) (retire_conn api env)"

definition timeout_cb ::
  "'c quiche_api \<Rightarrow> environment \<Rightarrow> nat \<Rightarrow> 'c server_state \<Rightarrow> 'c server_state option" where
  "timeout_cb api env =
     server_timeout_cb io_self (on_timeout api) (flush_egress api env) (is_closed api) (retire_conn api env)"

section \<open>The program\<close>

text \<open>The protocol list \<open>hq-interop hq-29 hq-28 hq-27 http/0.9\<close>, each with its length before it.\<close>

definition hq_protos :: bytes where
  "hq_protos =
     [0x0a, 0x68, 0x71, 0x2d, 0x69, 0x6e, 0x74, 0x65, 0x72, 0x6f, 0x70,
      0x05, 0x68, 0x71, 0x2d, 0x32, 0x39, 0x05, 0x68, 0x71, 0x2d, 0x32, 0x38,
      0x05, 0x68, 0x71, 0x2d, 0x32, 0x37, 0x08, 0x68, 0x74, 0x74, 0x70, 0x2f, 0x30, 0x2e, 0x39]"

definition server_config :: "config_call list" where
  "server_config =
     [quiche_config_load_cert_chain_from_pem_file ''./cert.crt'',
      quiche_config_load_priv_key_from_pem_file ''./cert.key'',
      quiche_config_set_application_protos (take 38 hq_protos),
      quiche_config_set_max_idle_timeout 5000,
      quiche_config_set_max_recv_udp_payload_size MAX_DATAGRAM_SIZE,
      quiche_config_set_max_send_udp_payload_size MAX_DATAGRAM_SIZE,
      quiche_config_set_initial_max_data 10000000,
      quiche_config_set_initial_max_stream_data_bidi_local 1000000,
      quiche_config_set_initial_max_stream_data_bidi_remote 1000000,
      quiche_config_set_initial_max_streams_bidi 100,
      quiche_config_set_cc_algorithm QUICHE_CC_RENO]"

definition main_setup :: "startup \<Rightarrow> (int \<times> event) + (quiche_config \<times> 'c server_state)" where
  "main_setup su =
     (case open_server su of
        Inl r \<Rightarrow> Inl r
      | Inr (local, config) \<Rightarrow>
          Inr (config_apply server_config config,
            \<lparr>srv_sock = su_socket su, srv_local_addr = local, srv_h = [], srv_next = 0, srv_trace = []\<rparr>))"

text \<open>
  The whole program over the events the loop delivers; the loop of this program does not end by
  itself, and \<open>Inr\<close> is the state it is in after them.
\<close>

definition main ::
  "'c quiche_api \<Rightarrow> environment \<Rightarrow> startup \<Rightarrow> loop_event list \<Rightarrow> ((int \<times> event) + 'c server_state) option" where
  "main api env su evs =
     (case main_setup su of
        Inl r \<Rightarrow> Some (Inl r)
      | Inr (config, st) \<Rightarrow> map_option Inr (run_events (recv_cb api env config) (timeout_cb api env) evs st))"

section \<open>The contract holds\<close>

lemma process_frame:
  assumes "process api buf a l x tr = (x', tr')"
  shows "io_self x' = io_self x" "io_cid x' = io_cid x" "io_sock x' = io_sock x"
    and "extends io_event tr tr'" and "extends (event_ok s) tr tr'" and "sent tr' = sent tr"
proof -
  have st: "extends io_event t t' \<and> extends (event_ok s) t t' \<and> sent t' = sent t"
    if "stream_loop api ss c t = (c', t')" for ss c t c' t'
    using that
  proof (induction api ss c t rule: stream_loop.induct)
    case (2 api s' ss c t)
    let ?t = "Stderr (STR ''stream %lu is readable'') [uint s'] # t"
    have t: "extends io_event t ?t" "extends (event_ok s) t ?t" "sent ?t = sent t" by (simp_all add: extends_intros)
    obtain r c1 where "quiche_conn_stream_recv api c s' 65535 = (r, c1)" by fastforce
    then show ?case using 2 t by (cases r) (auto simp: Let_def intro: extends_trans split: prod.splits)
  qed simp
  show "io_self x' = io_self x" "io_cid x' = io_cid x" "io_sock x' = io_sock x"
    using assms by (auto simp: process_def Let_def split: prod.splits sum.splits if_splits)
  have "extends io_event tr tr' \<and> extends (event_ok s) tr tr' \<and> sent tr' = sent tr"
  proof -
    obtain r c1 where r: "quiche_conn_recv api (io_conn x) buf \<lparr>recv_from = a, recv_to = l\<rparr> = (r, c1)" by fastforce
    show ?thesis
    proof (cases r)
      case (Inl e)
      then show ?thesis using assms r by (auto simp: process_def intro!: extends_intros)
    next
      case (Inr n)
      let ?t = "Stderr (STR ''recv %zd bytes'') [int n] # tr"
      have t: "extends io_event tr ?t" "extends (event_ok s) tr ?t" "sent ?t = sent tr" by (simp_all add: extends_intros)
      obtain c2 t2 where l: "stream_loop api (quiche_conn_readable api c1) c1 ?t = (c2, t2)" by fastforce
      show ?thesis
        using assms r Inr t st [OF l] l
        by (auto simp: process_def Let_def intro: extends_trans split: if_splits)
    qed
  qed
  then show "extends io_event tr tr'" and "extends (event_ok s) tr tr'" and "sent tr' = sent tr" by auto
qed

interpretation entry: server_entry io_cid io_self io_sock new_conn_io
  by unfold_locales (simp_all add: new_conn_io_def)

lemma recv_datagram_ok:
  assumes "recv_datagram api env config buf a st = Some (b, st')" and "env_ok env" and "length a \<le> 128"
    and ok: "server_ok io_cid io_self io_sock st"
  shows "server_ok io_cid io_self io_sock st' \<and> server_frame st st'"
proof (cases "read_header buf")
  case (Inl e)
  then show ?thesis using assms(1) ok by (auto simp: recv_datagram_def intro!: server_ok_log server_frame_log)
next
  case (Inr info)
  obtain r st1 where ad: "admit api env config io_cid io_self new_conn_io info a st = Some (r, st1)"
    using assms(1) by (auto simp: recv_datagram_def Inr bind_eq_Some_conv)
  have ok1: "server_ok io_cid io_self io_sock st1 \<and> server_frame st st1 \<and> (\<forall>x. r = Some x \<longrightarrow> x \<in> set (srv_h st1))"
    by (rule entry.admit_ok [OF ad assms(2,3) read_header_sizes(1,2) [OF Inr] ok])
  show ?thesis
  proof (cases r)
    case None
    then show ?thesis using assms(1) ok1 by (simp add: recv_datagram_def Inr ad)
  next
    case (Some x)
    obtain x' tr where pr: "process api buf a (srv_local_addr st1) x (srv_trace st1) = (x', tr)" by fastforce
    have st': "st' = st1\<lparr>srv_h := store_at io_self x' (srv_h st1), srv_trace := tr\<rparr>"
      using assms(1) by (simp add: recv_datagram_def Inr ad Some pr)
    have "server_ok io_cid io_self io_sock (st1\<lparr>srv_h := store_at io_self x' (srv_h st1)\<rparr>)"
      by (rule entry.ok_store) (use ok1 Some process_frame [OF pr] in auto)
    then have "server_ok io_cid io_self io_sock st'"
      unfolding st' using server_ok_trace [of io_cid io_self io_sock "st1\<lparr>srv_h := store_at io_self x' (srv_h st1)\<rparr>" tr]
        process_frame(4) [OF pr] by simp
    moreover have "server_frame st1 st'"
      using process_frame(5) [OF pr] by (simp add: st' server_frame_def)
    ultimately show ?thesis using ok1 server_frame_trans by blast
  qed
qed

lemma recv_datagram_keys:
  assumes "recv_datagram api env config buf a st = Some (b, st')" and "env_ok env" and "length a \<le> 128"
    and ok: "server_ok io_cid io_self io_sock st" and "cid_ok buf" and "keys_distinct io_cid st"
  shows "keys_distinct io_cid st'"
proof (cases "read_header buf")
  case (Inl e)
  then show ?thesis using assms(1,6) by (auto simp: recv_datagram_def keys_distinct_def)
next
  case (Inr info)
  obtain r st1 where ad: "admit api env config io_cid io_self new_conn_io info a st = Some (r, st1)"
    using assms(1) by (auto simp: recv_datagram_def Inr bind_eq_Some_conv)
  note sz = read_header_sizes(1,2) [OF Inr]
  have ok1: "server_ok io_cid io_self io_sock st1" "\<And>x. r = Some x \<Longrightarrow> x \<in> set (srv_h st1)"
    using entry.admit_ok [OF ad assms(2,3) sz ok] by auto
  have k1: "keys_distinct io_cid st1"
    by (rule entry.admit_keys [OF ad assms(2,3) sz assms(6)]) (use assms(5) Inr in \<open>simp add: cid_ok_def\<close>)
  show ?thesis
  proof (cases r)
    case None
    then show ?thesis using assms(1) k1 by (simp add: recv_datagram_def Inr ad)
  next
    case (Some x)
    obtain x' tr where pr: "process api buf a (srv_local_addr st1) x (srv_trace st1) = (x', tr)" by fastforce
    then have "srv_h st' = store_at io_self x' (srv_h st1)" using assms(1) by (auto simp: recv_datagram_def Inr ad Some)
    then show ?thesis using entry.keys_store [OF ok1(1) k1 ok1(2) [OF Some] process_frame(1,2) [OF pr]]
      by (simp add: keys_distinct_def)
  qed
qed

lemma recv_datagram_total:
  assumes "env_ok env" and "length a \<le> 128"
  shows "\<exists>r. recv_datagram api env config buf a st = Some r"
proof (cases "read_header buf")
  case (Inr info)
  from entry.admit_total [OF assms read_header_sizes(2) [OF Inr], of api config st]
  show ?thesis by (auto simp: recv_datagram_def Inr split: option.split prod.split)
qed (simp add: recv_datagram_def)

interpretation srv: server_program io_cid io_self io_sock "flush_egress api env" "is_closed api"
    "retire_conn api env" "send_fits api" "runs api env" "recv_datagram api env config" "on_timeout api"
  for api :: "'c quiche_api" and env :: environment and config :: quiche_config
proof (intro server_program.intro server_program_axioms.intro)
  show "endpoint io_cid io_self io_sock (flush_egress api env) (retire_conn api env) (send_fits api) (runs api env)"
    unfolding flush_egress_def by (rule conn.endpoint_axioms)
next
  fix a :: sockaddr and d and st :: "'c server_state"
  assume "runs api env" and "length a \<le> 128"
  then show "\<exists>r. recv_datagram api env config d a st = Some r"
    by (intro recv_datagram_total) (simp_all add: runs_def)
next
  fix d and a :: sockaddr and st st' :: "'c server_state" and b
  assume r: "recv_datagram api env config d a st = Some (b, st')" "length a \<le> 128" "runs api env"
    "server_ok io_cid io_self io_sock st"
  then have env: "env_ok env" by (simp add: runs_def)
  from recv_datagram_ok [OF r(1) env r(2,4)]
  show "server_ok io_cid io_self io_sock st' \<and> server_frame st st'" .
  show "keys_distinct io_cid st'" if "cid_ok d" "keys_distinct io_cid st"
    by (rule recv_datagram_keys [OF r(1) env r(2,4) that])
qed (rule on_timeout_frame)

lemma recv_datagram_go: "recv_datagram api env config d a st = Some (go, st') \<Longrightarrow> go"
  by (auto simp: recv_datagram_def bind_eq_Some_conv split: sum.splits)

end
