(* ===== verification/H3Poll.thy ===== *)
theory H3Poll
  imports QuicheApi "HOL-Library.Monad_Syntax"
begin

text \<open>
  The event loop of the two HTTP/3 programs: poll the connection until it has no more events, and
  handle each.  What handling an event does is a parameter; \<open>None\<close> is a handler or a loop that never
  ends.
\<close>

section \<open>The loop\<close>

partial_function (option) poll_loop ::
  "('c, 'h) quiche_h3_api \<Rightarrow> (u64 \<Rightarrow> quiche_h3_event \<Rightarrow> 'h \<Rightarrow> 'c \<Rightarrow> 's \<Rightarrow> ('h \<times> 'c \<times> 's) option)
    \<Rightarrow> 'h \<Rightarrow> 'c \<Rightarrow> 's \<Rightarrow> ('h \<times> 'c \<times> 's) option" where
  "poll_loop h3 handle h c st =
     (case quiche_h3_conn_poll h3 h c of
        (Inl e, h', c') \<Rightarrow> Some (h', c', st)
      | (Inr (s, ev), h', c') \<Rightarrow>
          do { (h'', c'', st') \<leftarrow> handle s ev h' c' st; poll_loop h3 handle h'' c'' st' })"

declare poll_loop.simps [code]

text \<open>The same loop as a relation that shows the events it has handled.\<close>

inductive polled ::
  "('c, 'h) quiche_h3_api \<Rightarrow> (u64 \<Rightarrow> quiche_h3_event \<Rightarrow> 'h \<Rightarrow> 'c \<Rightarrow> 's \<Rightarrow> ('h \<times> 'c \<times> 's) option)
    \<Rightarrow> 'h \<Rightarrow> 'c \<Rightarrow> 's \<Rightarrow> (u64 \<times> quiche_h3_event) list \<Rightarrow> 'h \<times> 'c \<times> 's \<Rightarrow> bool" for h3 handle where
  polled_end: "quiche_h3_conn_poll h3 h c = (Inl e, h', c') \<Longrightarrow> polled h3 handle h c st [] (h', c', st)"
| polled_event: "quiche_h3_conn_poll h3 h c = (Inr (s, ev), h1, c1) \<Longrightarrow> handle s ev h1 c1 st = Some (h2, c2, st2) \<Longrightarrow>
     polled h3 handle h2 c2 st2 evs r \<Longrightarrow> polled h3 handle h c st ((s, ev) # evs) r"

inductive_cases polled_ConsE: "polled h3 handle h c st (e # evs) r"

lemma poll_loop_body:
  assumes rec: "\<And>h3 handle h c st r. f h3 handle h c st = Some r \<Longrightarrow> \<exists>evs. polled h3 handle h c st evs r"
    and body: "(case quiche_h3_conn_poll h3 h c of
        (Inl e, h', c') \<Rightarrow> Some (h', c', st)
      | (Inr (s, ev), h', c') \<Rightarrow>
          do { (h'', c'', st') \<leftarrow> handle s ev h' c' st; f h3 handle h'' c'' st' }) = Some r"
  shows "\<exists>evs. polled h3 handle h c st evs r"
proof -
  obtain x h1 c1 where p: "quiche_h3_conn_poll h3 h c = (x, h1, c1)" by (metis prod_cases3)
  show ?thesis
  proof (cases x)
    case (Inl e)
    then show ?thesis using body p polled_end [of h3 h c e h1 c1 handle st] by auto
  next
    case (Inr q)
    obtain s ev where q: "q = (s, ev)" by fastforce
    obtain h2 c2 st2 where a: "handle s ev h1 c1 st = Some (h2, c2, st2)" "f h3 handle h2 c2 st2 = Some r"
      using body p Inr q by (auto simp: bind_eq_Some_conv)
    from rec [OF a(2)] obtain evs where "polled h3 handle h2 c2 st2 evs r" by blast
    from polled_event [OF p [unfolded Inr q] a(1) this] show ?thesis by blast
  qed
qed

lemma poll_loop_imp_polled:
  assumes "poll_loop h3 handle h c st = Some r"
  shows "\<exists>evs. polled h3 handle h c st evs r"
proof -
  let ?P = "\<lambda>h3 handle h c st r. \<exists>evs. polled h3 handle h c st evs r"
  show ?thesis
    by (rule poll_loop.raw_induct [where P = ?P, OF _ assms]) (rule poll_loop_body)
qed

lemma polled_imp_poll_loop: "polled h3 handle h c st evs r \<Longrightarrow> poll_loop h3 handle h c st = Some r"
  by (induction rule: polled.induct) (subst poll_loop.simps, simp)+

lemma poll_loop_iff: "poll_loop h3 handle h c st = Some r \<longleftrightarrow> (\<exists>evs. polled h3 handle h c st evs r)"
proof
  assume "poll_loop h3 handle h c st = Some r"
  then show "\<exists>evs. polled h3 handle h c st evs r" by (rule poll_loop_imp_polled)
next
  assume "\<exists>evs. polled h3 handle h c st evs r"
  then obtain evs where "polled h3 handle h c st evs r" ..
  then show "poll_loop h3 handle h c st = Some r" by (rule polled_imp_poll_loop)
qed

text \<open>
  The contract of a handler: it returns, and queues no events of its own.  Then the loop returns,
  when the engine's events are finite.
\<close>

definition handler_ok ::
  "('h \<Rightarrow> 'c \<Rightarrow> nat) \<Rightarrow> (u64 \<Rightarrow> quiche_h3_event \<Rightarrow> 'h \<Rightarrow> 'c \<Rightarrow> 's \<Rightarrow> ('h \<times> 'c \<times> 's) option) \<Rightarrow> bool" where
  "handler_ok m handle \<longleftrightarrow> (\<forall>s ev h c st. \<exists>h' c' st'. handle s ev h c st = Some (h', c', st') \<and> m h' c' \<le> m h c)"

lemma poll_endsD:
  assumes "poll_ends api h3 m"
  shows "quiche_h3_conn_poll h3 h c = (Inr (s, e), h', c') \<Longrightarrow> m h' c' < m h c"
    and "quiche_h3_send_response h3 h c s hs fin = (r, h', c') \<Longrightarrow> m h' c' \<le> m h c"
    and "quiche_h3_send_body h3 h c s b fin = (r', h', c') \<Longrightarrow> m h' c' \<le> m h c"
    and "quiche_h3_recv_body h3 h c s n = (x, h', c') \<Longrightarrow> m h' c' \<le> m h c"
    and "quiche_h3_recv_body h3 h c s n = (Inr b, h', c') \<Longrightarrow> b \<noteq> [] \<Longrightarrow> m h' c' < m h c"
    and "quiche_conn_close api c app err reason = (y, c') \<Longrightarrow> m h c' \<le> m h c"
proof -
  note d = assms [unfolded poll_ends_def]
  show "quiche_h3_conn_poll h3 h c = (Inr (s, e), h', c') \<Longrightarrow> m h' c' < m h c" using d by simp
  show "quiche_h3_send_response h3 h c s hs fin = (r, h', c') \<Longrightarrow> m h' c' \<le> m h c" using d by simp
  show "quiche_h3_send_body h3 h c s b fin = (r', h', c') \<Longrightarrow> m h' c' \<le> m h c" using d by simp
  show "quiche_h3_recv_body h3 h c s n = (Inr b, h', c') \<Longrightarrow> b \<noteq> [] \<Longrightarrow> m h' c' < m h c"
    using d by fastforce
  show "quiche_conn_close api c app err reason = (y, c') \<Longrightarrow> m h c' \<le> m h c" using d by simp
  show "quiche_h3_recv_body h3 h c s n = (x, h', c') \<Longrightarrow> m h' c' \<le> m h c"
    using d by (cases x) (fastforce split: if_splits)+
qed

lemma poll_loop_total:
  assumes "poll_ends api h3 m" and "handler_ok m handle"
  shows "\<exists>r. poll_loop h3 handle h c st = Some r"
proof (induction "m h c" arbitrary: h c st rule: less_induct)
  case less
  obtain x h1 c1 where p: "quiche_h3_conn_poll h3 h c = (x, h1, c1)" by (metis prod_cases3)
  show ?case
  proof (cases x)
    case (Inl e)
    then show ?thesis using p by (subst poll_loop.simps) simp
  next
    case (Inr q)
    obtain s ev where q: "q = (s, ev)" by fastforce
    obtain h2 c2 st2 where a: "handle s ev h1 c1 st = Some (h2, c2, st2)" "m h2 c2 \<le> m h1 c1"
      using assms(2) unfolding handler_ok_def by blast
    have "m h1 c1 < m h c" using poll_endsD(1) [OF assms(1)] p Inr q by simp
    with a(2) have "m h2 c2 < m h c" by simp
    from less [OF this] show ?thesis using p Inr q a(1) by (subst poll_loop.simps) simp
  qed
qed

section \<open>The callback for headers\<close>

definition ascii :: "string \<Rightarrow> bytes" where
  "ascii s = map of_char s"

definition for_each_header :: "quiche_h3_header \<Rightarrow> history \<Rightarrow> int \<times> history" where
  "for_each_header header tr =
     (0, Stderr_text (STR ''got HTTP header: %.*s=%.*s'')
           [format_text (h3_name header), format_text (h3_value header)] # tr)"

definition header_line :: "quiche_h3_header \<Rightarrow> event" where
  "header_line header =
     Stderr_text (STR ''got HTTP header: %.*s=%.*s'') [format_text (h3_name header), format_text (h3_value header)]"

text \<open>Every header is reported, in order, and no callback ever interrupts the iteration.\<close>

lemma for_each_log:
  assumes "\<And>x tr. cb x tr = (0, f x # tr)"
  shows "for_each cb xs tr = (0, rev (map f xs) @ tr)"
  by (induction xs arbitrary: tr) (simp_all add: assms)

lemma for_each_header_eq:
  "quiche_h3_event_for_each_header ev for_each_header tr = (0, rev (map header_line (h3_event_headers ev)) @ tr)"
  unfolding quiche_h3_event_for_each_header_def
  by (rule for_each_log) (simp add: for_each_header_def header_line_def)

end
