(* ===== verification/ServerProps.thy ===== *)
theory ServerProps
  imports Server H3Poll
begin

text \<open>
  What \<open>server.c\<close> guarantees, and what it does not: address validation over two round trips, memory
  safety and termination of every callback in every run of the event loop, the datagrams it sends, its
  table as a finite map of connections, and the cases its checks let through.  The witnesses run the
  program on a small engine, \<open>demo_api\<close>.
\<close>

section \<open>A small engine\<close>

text \<open>
  A connection of the engine of the witnesses: the packets it still has to send, the streams it has
  received, and whether it is closed.  It is established from the start.
\<close>

record demo_conn =
  demo_out :: "bytes list"
  demo_streams :: "u64 list"
  demo_closed :: bool

definition demo_info :: quiche_send_info where
  "demo_info = \<lparr>send_from = [1], send_to = [2, 2], send_at = (0, 0)\<rparr>"

definition demo_stats :: quiche_stats where
  "demo_stats = \<lparr>stats_recv = 1, stats_sent = 1, stats_lost = 0, stats_spurious_lost = 0, stats_retrans = 0,
     stats_sent_bytes = 0, stats_recv_bytes = 0, stats_acked_bytes = 0, stats_lost_bytes = 0,
     stats_stream_retrans_bytes = 0, stats_dgram_recv = 0, stats_dgram_sent = 0, stats_paths_count = 0,
     stats_reset_stream_count_local = 0, stats_stopped_stream_count_local = 0,
     stats_reset_stream_count_remote = 0, stats_stopped_stream_count_remote = 0,
     stats_data_blocked_sent_count = 0, stats_stream_data_blocked_sent_count = 0,
     stats_data_blocked_recv_count = 0, stats_stream_data_blocked_recv_count = 0,
     stats_streams_blocked_bidi_recv_count = 0, stats_streams_blocked_uni_recv_count = 0,
     stats_path_challenge_rx_count = 0, stats_bytes_in_flight_duration_msec = 0,
     stats_tx_buffered_inconsistent = False\<rparr>"

definition demo_send :: "demo_conn \<Rightarrow> nat \<Rightarrow> (quiche_error + bytes \<times> quiche_send_info) \<times> demo_conn" where
  "demo_send c n =
     (case demo_out c of
        [] \<Rightarrow> (Inl QUICHE_ERR_DONE, c)
      | p # ps \<Rightarrow> (Inr (take n p, demo_info), c\<lparr>demo_out := ps\<rparr>))"

definition demo_api :: "demo_conn quiche_api" where
  "demo_api =
     \<lparr>quiche_accept = (\<lambda>tr scid odcid local peer g. Some \<lparr>demo_out = [odcid], demo_streams = [0], demo_closed = False\<rparr>),
      quiche_connect = (\<lambda>tr host scid local peer g. Some \<lparr>demo_out = [scid], demo_streams = [], demo_closed = False\<rparr>),
      quiche_conn_recv = (\<lambda>c b i. (Inr (length b), c)),
      quiche_conn_send = demo_send,
      quiche_conn_send_quantum = (\<lambda>c. 0),
      quiche_conn_send_on_path = (\<lambda>c n f t. demo_send c n),
      quiche_conn_send_quantum_on_path = (\<lambda>c f t. 0),
      quiche_conn_stream_recv = (\<lambda>c s n. (Inr ([], True), c)),
      quiche_conn_stream_send = (\<lambda>c s b fin. (Inr (length b), c\<lparr>demo_out := demo_out c @ [b]\<rparr>)),
      quiche_conn_readable = demo_streams,
      quiche_conn_writable = (\<lambda>c. []),
      quiche_conn_max_send_udp_payload_size = (\<lambda>c. 1350),
      quiche_conn_timeout_as_nanos = (\<lambda>c. 5),
      quiche_conn_timeout_as_millis = (\<lambda>c. 0),
      quiche_conn_on_timeout = (\<lambda>c. c\<lparr>demo_closed := True\<rparr>),
      quiche_conn_close = (\<lambda>c app e r. (Inr (), c\<lparr>demo_closed := True\<rparr>)),
      quiche_conn_application_proto = (\<lambda>c. []),
      quiche_conn_peer_cert = (\<lambda>c. []),
      quiche_conn_session = (\<lambda>c. []),
      quiche_conn_server_name = (\<lambda>c. []),
      quiche_conn_is_established = (\<lambda>c. True),
      quiche_conn_is_resumed = (\<lambda>c. False),
      quiche_conn_is_in_early_data = (\<lambda>c. False),
      quiche_conn_is_readable = (\<lambda>c. True),
      quiche_conn_is_draining = (\<lambda>c. False),
      quiche_conn_peer_streams_left_bidi = (\<lambda>c. 0),
      quiche_conn_peer_streams_left_uni = (\<lambda>c. 0),
      quiche_conn_is_closed = demo_closed,
      quiche_conn_is_timed_out = (\<lambda>c. False),
      quiche_conn_stats = (\<lambda>c. demo_stats),
      quiche_conn_path_stats = (\<lambda>c n. Inl QUICHE_ERR_DONE),
      compute_retry_integrity_tag = (\<lambda>w odcid v. Inr (replicate 16 0))\<rparr>"

definition demo_env :: environment where
  "demo_env =
     \<lparr>env_sendto = (\<lambda>tr s d a. int (length d)), env_calloc = (\<lambda>tr. True),
      env_urandom = (\<lambda>tr n. Random (replicate n 7)), env_rand_u8 = (\<lambda>tr. 0), env_stack = (\<lambda>tr n. replicate n 0),
      env_hash_find = (\<lambda>tr t k. map_of t k)\<rparr>"

definition demo_config :: quiche_config where
  "demo_config = \<lparr>config_version = QUICHE_PROTOCOL_VERSION, config_calls = []\<rparr>"

definition demo_server :: "demo_conn server_state" where
  "demo_server = \<lparr>srv_sock = 3, srv_local_addr = [9, 9], srv_h = [], srv_next = 0, srv_trace = []\<rparr>"

lemma demo_send_fits: "send_fits demo_api"
  by (auto simp: send_fits_def demo_api_def demo_send_def split: list.splits)

lemma demo_send_ends: "send_ends demo_api (\<lambda>c. length (demo_out c))"
  by (auto simp: send_ends_def demo_api_def demo_send_def split: list.splits)

lemma demo_env_ok: "env_ok demo_env"
  by (auto simp: env_ok_def demo_env_def uthash_ok_def map_of_eq_None_iff dest: map_of_SomeD split: option.split)

lemma demo_runs: "runs demo_api demo_env"
  using demo_send_ends demo_env_ok by (auto simp: runs_def)

lemma server_ok_empty:
  "server_ok key self socket \<lparr>srv_sock = s, srv_local_addr = a, srv_h = [], srv_next = n, srv_trace = []\<rparr>"
  by (simp add: server_ok_def)

lemma demo_server_ok: "server_ok key self socket demo_server"
  unfolding demo_server_def by (rule server_ok_empty)

text \<open>The first flight of a client: an Initial packet with or without a token.\<close>

definition demo_initial :: "bytes \<Rightarrow> bytes \<Rightarrow> bytes" where
  "demo_initial dcid token =
     0xc0 # be_bytes 4 1 @ cid_field dcid @ cid_field [5, 6] @ of_nat (length token) # token @ [0xaa]"

lemma demo_api_simps [simp]:
  "quiche_accept demo_api tr scid odcid local peer g = Some \<lparr>demo_out = [odcid], demo_streams = [0], demo_closed = False\<rparr>"
  "quiche_connect demo_api tr host scid local peer g = Some \<lparr>demo_out = [scid], demo_streams = [], demo_closed = False\<rparr>"
  "quiche_conn_recv demo_api c b i = (Inr (length b), c)"
  "quiche_conn_send demo_api = demo_send"
  "quiche_conn_stream_recv demo_api c s n = (Inr ([], True), c)"
  "quiche_conn_stream_send demo_api c s b fin = (Inr (length b), c\<lparr>demo_out := demo_out c @ [b]\<rparr>)"
  "quiche_conn_readable demo_api = demo_streams"
  "quiche_conn_timeout_as_nanos demo_api c = 5"
  "quiche_conn_on_timeout demo_api c = c\<lparr>demo_closed := True\<rparr>"
  "quiche_conn_close demo_api c app e r = (Inr (), c\<lparr>demo_closed := True\<rparr>)"
  "quiche_conn_is_established demo_api c"
  "quiche_conn_is_closed demo_api = demo_closed"
  "compute_retry_integrity_tag demo_api w odcid v = Inr (replicate 16 0)"
  by (simp_all add: demo_api_def)

lemma demo_env_simps [simp]:
  "env_sendto demo_env tr s d a = int (length d)" "env_calloc demo_env tr"
  "env_urandom demo_env tr n = Random (replicate n 7)" "env_rand_u8 demo_env tr = 0"
  "env_stack demo_env tr n = replicate n 0" "env_hash_find demo_env tr t k = map_of t k"
  by (simp_all add: demo_env_def)

definition demo_token_dgram :: bytes where
  "demo_token_dgram = demo_initial (replicate 16 7) (token_of [4, 4] [1, 2])"

lemma demo_token_dgram_header: "read_header demo_token_dgram = Inr \<lparr>info_version = QUICHE_PROTOCOL_VERSION,
   info_type = 1, info_scid = [5, 6], info_dcid = replicate 16 7, info_token = token_of [4, 4] [1, 2]\<rparr>"
  by code_simp

lemma demo_token_dgram_take [simp]: "take 65535 demo_token_dgram = demo_token_dgram"
  by (simp add: demo_token_dgram_def demo_initial_def token_of_def)

definition demo_conn_io :: "demo_conn conn_io" where
  "demo_conn_io = new_conn_io 0 3 (replicate 16 7) \<lparr>demo_out = [[1, 2], resp], demo_streams = [0], demo_closed = False\<rparr> [4, 4]"

lemma demo_admit: "\<exists>tr. recv_datagram demo_api demo_env demo_config demo_token_dgram [4, 4] demo_server =
   Some (True, \<lparr>srv_sock = 3, srv_local_addr = [9, 9], srv_h = [demo_conn_io], srv_next = 1, srv_trace = tr\<rparr>)
   \<and> sent tr = [] \<and> armed tr = {}"
proof -
  have v: "validate_token (token_of [4, 4] [1, 2]) [4, 4] 20 = Some [1, 2]"
    by (simp add: validate_token_iff)
  have t: "token_of [4, 4] [1, 2] \<noteq> []" by (simp add: token_of_def)
  show ?thesis
    by (simp add: recv_datagram_def demo_token_dgram_header admit_def demo_server_def hash_find_def v t
      create_conn_eq Let_def process_def store_at_def new_conn_io_def demo_conn_io_def
      QUICHE_MAX_CONN_ID_LEN_def LOCAL_CONN_ID_LEN_def resp_def server_log_def alloc_state_def)
qed

lemma demo_send_loop:
  "\<exists>tr'. send_loop demo_api demo_env send_to 3 \<lparr>demo_out = [[1, 2], resp], demo_streams = s, demo_closed = c\<rparr> tr =
     Some (True, \<lparr>demo_out = [], demo_streams = s, demo_closed = c\<rparr>, tr')
   \<and> sent tr' = (3, resp, [2, 2]) # (3, [1, 2], [2, 2]) # sent tr"
  by (subst send_loop.simps, simp add: demo_send_def MAX_DATAGRAM_SIZE_def resp_def demo_info_def,
      subst send_loop.simps, simp add: demo_send_def MAX_DATAGRAM_SIZE_def resp_def demo_info_def,
      subst send_loop.simps, simp add: demo_send_def MAX_DATAGRAM_SIZE_def)

text \<open>The state after a client's token has been accepted and the callback has returned.\<close>

lemma demo_recv_cb:
  "\<exists>x st. recv_cb demo_api demo_env demo_config [Datagram demo_token_dgram [4, 4]] demo_server = Some ([], st)
     \<and> srv_h st = [x] \<and> io_self x = 0 \<and> io_cid x = replicate 16 7 \<and> armed (srv_trace st) = {0}
     \<and> sent (srv_trace st) = (3, resp, [2, 2]) # (3, [1, 2], [2, 2]) # sent (srv_trace demo_server)"
proof -
  obtain tr where ad: "recv_datagram demo_api demo_env demo_config demo_token_dgram [4, 4] demo_server =
      Some (True, \<lparr>srv_sock = 3, srv_local_addr = [9, 9], srv_h = [demo_conn_io], srv_next = 1, srv_trace = tr\<rparr>)"
    and tr: "sent tr = []" "armed tr = {}"
    using demo_admit by blast
  let ?tr = "Stderr (STR ''recv would block'') [] # tr"
  obtain tr' where sl: "send_loop demo_api demo_env send_to 3
      \<lparr>demo_out = [[1, 2], resp], demo_streams = [0], demo_closed = False\<rparr> ?tr =
      Some (True, \<lparr>demo_out = [], demo_streams = [0], demo_closed = False\<rparr>, tr')"
    and sent: "sent tr' = (3, resp, [2, 2]) # (3, [1, 2], [2, 2]) # sent ?tr"
    using demo_send_loop by blast
  have fl: "flush_egress demo_api demo_env demo_conn_io ?tr =
      Some (demo_conn_io\<lparr>io_conn := \<lparr>demo_out = [], demo_streams = [0], demo_closed = False\<rparr>, io_repeat := 5\<rparr>, Timer_again 0 5 # tr')"
    using sl by (simp add: flush_egress_def flush_conn_def demo_conn_io_def new_conn_io_def)
  have "armed tr' = {}"
    using extends_io(1) [OF send_run_io [OF sl [unfolded send_loop_iff]]] tr by simp
  moreover have "recv_cb demo_api demo_env demo_config [Datagram demo_token_dgram [4, 4]] demo_server =
      Some ([], \<lparr>srv_sock = 3, srv_local_addr = [9, 9],
        srv_h = [demo_conn_io\<lparr>io_conn := \<lparr>demo_out = [], demo_streams = [0], demo_closed = False\<rparr>, io_repeat := 5\<rparr>],
        srv_next = 1, srv_trace = Timer_again 0 5 # tr'\<rparr>)"
    by (simp add: recv_cb_def server_recv_cb_def ad fl server_log_def is_closed_def)
  ultimately show ?thesis
    using sent tr by (simp add: demo_conn_io_def new_conn_io_def demo_server_def)
qed

section \<open>Tokens\<close>

text \<open>
  A token that was minted for a client's address and first connection ID is accepted from that
  address and gives the connection ID back, whatever was in the buffer before; the buffer that the
  server reserves is never overrun by it.
\<close>

theorem mint_validate:
  assumes "length addr \<le> SOCKADDR_STORAGE_LEN" and "length dcid \<le> QUICHE_MAX_CONN_ID_LEN"
    and "length token = MAX_TOKEN_LEN"
  shows "\<exists>buf n. mint_token dcid addr token = Some (buf, n) \<and> n \<le> MAX_TOKEN_LEN
    \<and> validate_token (take n buf) addr QUICHE_MAX_CONN_ID_LEN = Some dcid"
proof -
  have n: "length (token_of addr dcid) \<le> length token"
    using assms by (simp add: length_token_of MAX_TOKEN_LEN_eq SOCKADDR_STORAGE_LEN_def QUICHE_MAX_CONN_ID_LEN_def)
  then show ?thesis
    using assms(2,3) by (simp add: mint_token_eq validate_token_iff)
qed

theorem mint_validate_witness:
  "\<exists>buf n. mint_token [1, 2] [3] (replicate 154 0) = Some (buf, n) \<and> n \<le> MAX_TOKEN_LEN
    \<and> validate_token (take n buf) [3] QUICHE_MAX_CONN_ID_LEN = Some [1, 2]"
  by (rule mint_validate) (simp_all add: MAX_TOKEN_LEN_eq SOCKADDR_STORAGE_LEN_def QUICHE_MAX_CONN_ID_LEN_def)

text \<open>
  Exactly the tokens of the form \<open>quiche\<close>, the sender's address, a connection ID of at most the
  given length are accepted; so a token for another address of the same length is refused.  Nothing
  else is checked: whoever knows the format can write a token for his own address without ever having
  received one.
\<close>

theorem validate_exact:
  "validate_token token addr n = Some odcid \<longleftrightarrow> token = quiche_str @ addr @ odcid \<and> length odcid \<le> n"
  by (simp add: validate_token_iff token_of_def)

text \<open>
  A token for one address is refused from another address of the same length, whatever
  connection ID it holds.
\<close>

theorem token_bound_to_address:
  assumes "length addr' = length addr" and "addr' \<noteq> addr"
  shows "validate_token (token_of addr dcid) addr' n = None"
proof (rule ccontr)
  assume "validate_token (token_of addr dcid) addr' n \<noteq> None"
  then obtain odcid where "token_of addr dcid = token_of addr' odcid" by (auto simp: validate_token_iff)
  with assms show False by (simp add: token_of_inject)
qed

theorem token_bound_to_address_witness: "validate_token (token_of [1, 1] [7]) [1, 2] 20 = None"
  by (rule token_bound_to_address) simp_all

section \<open>Runs\<close>

lemma demo_due: "due (Readable [Datagram demo_token_dgram [4, 4]]) st"
  by simp

lemma demo_token_dgram_local: "cid_ok demo_token_dgram"
  by (simp add: cid_ok_def demo_token_dgram_header LOCAL_CONN_ID_LEN_def)

lemma demo_reachable:
  assumes "recv_cb demo_api demo_env demo_config [Datagram demo_token_dgram [4, 4]] demo_server = Some ([], st)"
  shows "reachable (recv_cb demo_api demo_env demo_config) (timeout_cb demo_api demo_env) demo_server st"
  by (rule reachable.next_event [OF reachable.start demo_due]) (simp add: assms)

text \<open>
  C2: In every run of the server's event loop, whatever datagrams arrive from addresses that fit a
  \<open>sockaddr_storage\<close>, everything that can happen next has a defined outcome: the callback returns, accesses
  no memory out of bounds, and is not called for a connection that is gone.
\<close>

theorem server_progress:
  assumes "reachable (recv_cb api env config) (timeout_cb api env) st0 st"
    and "runs api env" and "server_ok io_cid io_self io_sock st0" and "due ev st"
  shows "\<exists>st'. dispatch (recv_cb api env config) (timeout_cb api env) ev st = Some st'"
  using srv.reachable_progress [where config = config] assms unfolding recv_cb_def timeout_cb_def by blast

theorem server_progress_witness:
  "\<exists>st'. dispatch (recv_cb demo_api demo_env demo_config) (timeout_cb demo_api demo_env)
     (Readable [Datagram (demo_initial [1, 2] []) [4, 4], Recv_error]) demo_server = Some st'"
  by (rule server_progress [OF reachable.start demo_runs demo_server_ok]) simp

text \<open>
  C3: In every such run the connections of the table have keys of 16 bytes and are on the
  server's socket, every running timer belongs to one of them, no connection is freed twice and none
  that is still in the table has been freed.  As long as every datagram with a token has a connection ID
  of the local length, the keys are distinct.
\<close>

theorem server_invariant:
  assumes "run_of (recv_cb api env config) (timeout_cb api env) st0 evs st"
    and "runs api env" and "server_ok io_cid io_self io_sock st0"
  shows "(keys_distinct io_cid st0 \<and> (\<forall>ev \<in> set evs. local_ids ev) \<longrightarrow> distinct (map io_cid (srv_h st)))
    \<and> (\<forall>x \<in> set (srv_h st). length (io_cid x) = 16 \<and> io_sock x = srv_sock st)
    \<and> armed (srv_trace st) \<subseteq> io_self ` set (srv_h st)
    \<and> distinct (freed (srv_trace st)) \<and> set (freed (srv_trace st)) \<inter> io_self ` set (srv_h st) = {}"
proof -
  have "server_ok io_cid io_self io_sock st"
    using srv.reachable_ok [where config = config] run_of_reachable [OF assms(1)] assms(2,3)
    unfolding recv_cb_def timeout_cb_def by blast
  moreover have "keys_distinct io_cid st" if "keys_distinct io_cid st0" "\<forall>ev \<in> set evs. local_ids ev"
    using srv.run_of_keys [where config = config] assms that unfolding recv_cb_def timeout_cb_def by blast
  ultimately show ?thesis by (simp add: server_ok_def keys_distinct_def LOCAL_CONN_ID_LEN_def)
qed

lemma demo_run:
  assumes "recv_cb demo_api demo_env demo_config [Datagram demo_token_dgram [4, 4]] demo_server = Some ([], st)"
  shows "run_of (recv_cb demo_api demo_env demo_config) (timeout_cb demo_api demo_env) demo_server
    [Readable [Datagram demo_token_dgram [4, 4]]] st"
  using run_next [OF run_start demo_due, of "recv_cb demo_api demo_env demo_config" "timeout_cb demo_api demo_env" demo_server st]
    assms by simp

theorem server_invariant_witness:
  "\<exists>st :: demo_conn server_state. length (srv_h st) = 1 \<and> armed (srv_trace st) = {0}
    \<and> armed (srv_trace st) \<subseteq> io_self ` set (srv_h st) \<and> distinct (map io_cid (srv_h st))"
proof -
  obtain x st where cb: "recv_cb demo_api demo_env demo_config [Datagram demo_token_dgram [4, 4]] demo_server = Some ([], st)"
    and st: "srv_h st = [x]" "armed (srv_trace st) = {0}" using demo_recv_cb by blast
  have "keys_distinct io_cid demo_server" "local_ids (Readable [Datagram demo_token_dgram [4, 4]])"
    using demo_token_dgram_local by (simp_all add: keys_distinct_def demo_server_def)
  with server_invariant [OF demo_run [OF cb] demo_runs demo_server_ok] st show ?thesis
    by - (intro exI [of _ st], simp)
qed

text \<open>
  C16: Whatever the server sends in a run goes out on its own socket and is at most 1350 bytes, when the
  engine respects the buffer it is given.
\<close>

theorem server_datagrams:
  assumes "reachable (recv_cb api env config) (timeout_cb api env) st0 st"
    and "runs api env" and "send_fits api" and "server_ok io_cid io_self io_sock st0" and "srv_trace st0 = []"
    and "(sk, data, to) \<in> set (sent (srv_trace st))"
  shows "sk = srv_sock st0 \<and> length data \<le> 1350"
proof -
  have "server_frame st0 st"
    using srv.reachable_frame [where config = config] assms(1-4) unfolding recv_cb_def timeout_cb_def by blast
  then have "\<forall>e \<in> set (srv_trace st). event_ok (srv_sock st0) e"
    using assms(5) by (simp add: server_frame_def extends_def)
  moreover obtain r where "Sendto sk data to r \<in> set (srv_trace st)"
    using assms(6) sent_memD by blast
  ultimately show ?thesis by (fastforce simp: MAX_DATAGRAM_SIZE_def)
qed

theorem server_datagrams_witness:
  "\<exists>st :: demo_conn server_state. (3, resp, [2, 2]) \<in> set (sent (srv_trace st)) \<and> srv_sock demo_server = 3 \<and> length resp \<le> 1350"
proof -
  obtain x st where cb: "recv_cb demo_api demo_env demo_config [Datagram demo_token_dgram [4, 4]] demo_server = Some ([], st)"
    and st: "sent (srv_trace st) = (3, resp, [2, 2]) # (3, [1, 2], [2, 2]) # sent (srv_trace demo_server)"
    using demo_recv_cb by blast
  have "srv_trace demo_server = []" by (simp add: demo_server_def)
  with server_datagrams [OF demo_reachable [OF cb] demo_runs demo_send_fits demo_server_ok, of 3 resp "[2, 2]"] st
  show ?thesis by - (intro exI [of _ st], simp)
qed

text \<open>
  When \<open>recv_cb\<close> has read until there was nothing left, every connection was flushed and no
  connection of the table is closed.
\<close>

theorem recv_cb_removes_closed:
  assumes "recv_cb api env config inbox st = Some (rest, st')" and "runs api env" and "inbox_ok inbox"
    and "server_ok io_cid io_self io_sock st" and "Recv_error \<notin> set inbox"
  shows "\<forall>x \<in> set (srv_h st'). \<not> quiche_conn_is_closed api (io_conn x)"
proof -
  have cb: "server_recv_cb (recv_datagram api env config) (flush_egress api env) (is_closed api)
      (retire_conn api env) inbox st = Some (rest, st')"
    using assms(1) by (simp add: recv_cb_def)
  have "\<exists>st1. recv_loop (recv_datagram api env config) inbox st = Some (True, rest, st1)"
    using cb
  proof (cases rule: srv.recv_cb_cases)
    case returned
    have "b" if "Recv_error \<notin> set ib" "recv_loop (recv_datagram api env config) ib s = Some (b, r, s')" for ib b r s s'
      using that
    proof (induction ib arbitrary: s)
      case (Cons m ib)
      then show ?case by (cases m) (auto simp: bind_eq_Some_conv dest: recv_datagram_go split: if_splits)
    qed simp
    then show ?thesis using returned assms(5) by blast
  qed blast
  from srv.recv_cb_no_closed [OF cb assms(2-4) this] show ?thesis by (simp add: is_closed_def)
qed

theorem recv_cb_removes_closed_witness:
  "\<exists>x (st :: demo_conn server_state). srv_h st = [x] \<and> \<not> quiche_conn_is_closed demo_api (io_conn x)"
proof -
  obtain x st where cb: "recv_cb demo_api demo_env demo_config [Datagram demo_token_dgram [4, 4]] demo_server = Some ([], st)"
    and st: "srv_h st = [x]" using demo_recv_cb by blast
  have "inbox_ok [Datagram demo_token_dgram [4, 4]]" using demo_due by simp
  from recv_cb_removes_closed [OF cb demo_runs this demo_server_ok] st show ?thesis
    by - (intro exI [of _ x] exI [of _ st], simp)
qed

section \<open>Flushing\<close>

text \<open>
  C15: When the kernel takes every datagram, \<open>flush_egress\<close> sends exactly the packets the engine has for
  the connection, each once and in the engine's order, to the address the engine gives, leaves the
  connection as the engine left it, and restarts its timer with the engine's timeout.
\<close>

theorem flush_egress_drains:
  assumes "emits api (io_conn x) ps QUICHE_ERR_DONE c" and "\<And>tr s d a. env_sendto env tr s d a = int (length d)"
  shows "\<exists>tr'. flush_egress api env x tr =
      Some (x\<lparr>io_conn := c, io_repeat := quiche_conn_timeout_as_nanos api c\<rparr>,
        Timer_again (io_self x) (quiche_conn_timeout_as_nanos api c) # tr')
    \<and> sent tr' = rev (map (\<lambda>(out, i). (io_sock x, out, send_to i)) ps) @ sent tr"
  unfolding flush_egress_def using assms by (rule flush_conn_drains)

lemma demo_emits:
  "emits demo_api (io_conn demo_conn_io) [([1, 2], demo_info), (resp, demo_info)] QUICHE_ERR_DONE
     \<lparr>demo_out = [], demo_streams = [0], demo_closed = False\<rparr>"
  unfolding demo_conn_io_def new_conn_io_def
  by (rule emits_packet, simp add: demo_send_def MAX_DATAGRAM_SIZE_def, rule emits_packet,
      simp add: demo_send_def MAX_DATAGRAM_SIZE_def resp_def, rule emits_end, simp add: demo_send_def)

theorem flush_egress_drains_witness:
  "\<exists>tr'. flush_egress demo_api demo_env demo_conn_io [] =
      Some (demo_conn_io\<lparr>io_conn := \<lparr>demo_out = [], demo_streams = [0], demo_closed = False\<rparr>, io_repeat := 5\<rparr>,
        Timer_again 0 5 # tr')
    \<and> sent tr' = [(3, resp, [2, 2]), (3, [1, 2], [2, 2])]"
  using flush_egress_drains [OF demo_emits, of demo_env "[]"]
  by (simp add: demo_info_def demo_conn_io_def new_conn_io_def)

text \<open>
  Whatever the kernel does, \<open>flush_egress\<close> hands it the engine's packets in order and none twice: what
  is sent is a first part of them.
\<close>

theorem flush_egress_prefix:
  assumes "flush_egress api env x tr = Some (x', tr')" and "emits api (io_conn x) ps e c"
  shows "\<exists>k \<le> length ps. sent tr' = rev (map (\<lambda>(out, i). (io_sock x, out, send_to i)) (take k ps)) @ sent tr"
  using assms unfolding flush_egress_def by (rule flush_conn_prefix)

theorem flush_egress_prefix_witness:
  "\<exists>tr'. sent tr' = [(3, [1, 2], [2, 2])]
     \<and> (\<exists>k \<le> 2. sent tr' = rev (map (\<lambda>(out, i). (3, out, send_to i)) (take k [([1, 2], demo_info), (resp, demo_info)])))"
proof -
  let ?env = "demo_env\<lparr>env_sendto := \<lambda>tr s d a. - 1\<rparr>"
  let ?c = "\<lparr>demo_out = [resp], demo_streams = [0], demo_closed = False\<rparr>"
  let ?tr = "perror (STR ''failed to send'') # Sendto 3 [1, 2] [2, 2] (- 1) # []"
  have "send_loop demo_api ?env send_to 3 \<lparr>demo_out = [[1, 2], resp], demo_streams = [0], demo_closed = False\<rparr> [] =
      Some (False, ?c, ?tr)"
    by (subst send_loop.simps) (simp add: demo_send_def MAX_DATAGRAM_SIZE_def demo_info_def)
  then have "flush_egress demo_api ?env demo_conn_io [] = Some (demo_conn_io\<lparr>io_conn := ?c\<rparr>, ?tr)"
    by (simp add: flush_egress_def flush_conn_def demo_conn_io_def new_conn_io_def)
  from flush_egress_prefix [OF this demo_emits] show ?thesis
    by (intro exI [of _ ?tr]) (simp add: demo_conn_io_def new_conn_io_def numeral_2_eq_2)
qed

section \<open>Unvalidated addresses\<close>

text \<open>
  C8: A datagram of no known connection that does not carry a token for its source address leaves the
  server without any new state: no connection, no allocation.  At most one datagram is sent, to that
  address, which is a version negotiation packet when the version is not supported, or a retry packet
  when there is no token at all.
\<close>

theorem no_state_before_validation:
  assumes "recv_datagram api env config buf a st = Some (b, st')" and "read_header buf = Inr info"
    and "env_ok env" and "length a \<le> 128" and "info_dcid info \<notin> io_cid ` set (srv_h st)"
    and "\<And>odcid. info_token info \<noteq> token_of a odcid"
  shows "srv_h st' = srv_h st \<and> srv_next st' = srv_next st
    \<and> (sent (srv_trace st') = sent (srv_trace st)
     \<or> (\<exists>out. reply_to api info a out \<and> length out \<le> 1350
          \<and> sent (srv_trace st') = (srv_sock st, out, a) # sent (srv_trace st)))"
proof -
  obtain r st1 where ad: "admit api env config io_cid io_self new_conn_io info a st = Some (r, st1)"
    using assms(1,2) by (auto simp: recv_datagram_def bind_eq_Some_conv)
  note u = admit_unvalidated [OF ad assms(3,4) read_header_sizes(1,2) [OF assms(2)] assms(5,6)]
  then have "st' = st1" using assms(1,2) ad by (simp add: recv_datagram_def)
  with u show ?thesis by (simp add: MAX_DATAGRAM_SIZE_def)
qed

lemma demo_initial_header: "read_header (demo_initial [1, 2] []) =
   Inr \<lparr>info_version = 1, info_type = 1, info_scid = [5, 6], info_dcid = [1, 2], info_token = []\<rparr>"
  by code_simp

theorem no_state_before_validation_witness:
  "\<exists>b st'. recv_datagram demo_api demo_env demo_config (demo_initial [1, 2] []) [4, 4] demo_server = Some (b, st')
     \<and> srv_h st' = [] \<and> srv_next st' = 0"
proof -
  obtain b st' where r: "recv_datagram demo_api demo_env demo_config (demo_initial [1, 2] []) [4, 4] demo_server = Some (b, st')"
    using recv_datagram_total [OF demo_env_ok, of "[4, 4]" demo_api demo_config "demo_initial [1, 2] []" demo_server] by auto
  have "srv_h demo_server = []" "srv_next demo_server = 0" by (simp_all add: demo_server_def)
  then show ?thesis
    using no_state_before_validation [OF r demo_initial_header demo_env_ok] r
    by (simp add: hash_find_def token_of_def quiche_str_def)
qed

text \<open>
  C17: What the server sends to an address it has not validated, and how much it is: nothing, or one
  datagram back to that address.  To an unsupported version it is a version negotiation packet of 11
  bytes and the two connection IDs, at most 10 bytes more than the datagram; to a supported version without
  a token it is a retry packet of 45 bytes, the two connection IDs and the socket address, at most 38 bytes
  and the socket address more than the datagram.  No datagram is too short for that: the 1200 bytes an
  Initial packet of a client must have are not checked, and one of 13 bytes is answered with 51.
\<close>

theorem reply_bounded:
  assumes "recv_datagram api env config buf a st = Some (b, st')" and "read_header buf = Inr info"
    and "env_ok env" and "length a \<le> 128" and "info_dcid info \<notin> io_cid ` set (srv_h st)"
    and "\<And>odcid. info_token info \<noteq> token_of a odcid"
    and "\<And>w d v t. compute_retry_integrity_tag api w d v = Inr t \<Longrightarrow> length t = 16"
  shows "sent (srv_trace st') = sent (srv_trace st)
    \<or> (\<exists>out. sent (srv_trace st') = (srv_sock st, out, a) # sent (srv_trace st)
         \<and> (if version_is_supported (info_version info)
            then info_token info = [] \<and> length out = 45 + length (info_scid info) + length (info_dcid info) + length a
              \<and> length out \<le> length buf + 38 + length a
            else length out = 11 + length (info_scid info) + length (info_dcid info) \<and> length out \<le> length buf + 10))"
proof -
  obtain r st1 where ad: "admit api env config io_cid io_self new_conn_io info a st = Some (r, st1)"
    using assms(1,2) by (auto simp: recv_datagram_def bind_eq_Some_conv)
  note u = admit_unvalidated [OF ad assms(3,4) read_header_sizes(1,2) [OF assms(2)] assms(5,6)]
  then have st': "st' = st1" using assms(1,2) ad by (simp add: recv_datagram_def)
  have "(if version_is_supported (info_version info)
      then info_token info = [] \<and> length out = 45 + length (info_scid info) + length (info_dcid info) + length a
        \<and> length out \<le> length buf + 38 + length a
      else length out = 11 + length (info_scid info) + length (info_dcid info) \<and> length out \<le> length buf + 10)"
    if "reply_to api info a out" for out
    using that reply_size [OF that assms(7)] reply_length [OF assms(2) that assms(7)]
    by (cases "version_is_supported (info_version info)") (simp_all add: reply_to_def)
  then show ?thesis using u unfolding st' by blast
qed

lemma demo_retry:
  "\<exists>tr. recv_datagram demo_api demo_env demo_config (demo_initial [1, 2] []) [4, 4] demo_server =
     Some (True, demo_server\<lparr>srv_trace := tr\<rparr>)
   \<and> sent tr = [(3, retry_bytes [5, 6] (replicate 16 7) (token_of [4, 4] [1, 2]) @ replicate 16 0, [4, 4])]"
proof -
  have q: "quiche_retry (compute_retry_integrity_tag demo_api) [5, 6] [1, 2] (replicate 16 7) (token_of [4, 4] [1, 2]) 1 1350
      = Inr (retry_bytes [5, 6] (replicate 16 7) (token_of [4, 4] [1, 2]) @ replicate 16 0)"
    by (simp add: quiche_retry_iff length_retry_bytes length_token_of QUICHE_PROTOCOL_VERSION_def)
  have "\<exists>tr. admit demo_api demo_env demo_config io_cid io_self new_conn_io \<lparr>info_version = 1, info_type = 1, info_scid = [5, 6],
        info_dcid = [1, 2], info_token = []\<rparr> [4, 4] demo_server = Some (None, demo_server\<lparr>srv_trace := tr\<rparr>)
      \<and> sent tr = [(3, retry_bytes [5, 6] (replicate 16 7) (token_of [4, 4] [1, 2]) @ replicate 16 0, [4, 4])]"
    using q
    by (simp add: admit_def demo_server_def hash_find_def stateless_retry_eq demo_env_ok gen_cid_def send_reply_sent
        version_is_supported_def QUICHE_PROTOCOL_VERSION_def LOCAL_CONN_ID_LEN_def MAX_DATAGRAM_SIZE_def)
  then show ?thesis by (auto simp: recv_datagram_def demo_initial_header)
qed

theorem reply_bounded_witness:
  "\<exists>st' out. recv_datagram demo_api demo_env demo_config (demo_initial [1, 2] []) [4, 4] demo_server = Some (True, st')
     \<and> sent (srv_trace st') = [(3, out, [4, 4])] \<and> length out = 51 \<and> length (demo_initial [1, 2] []) = 13"
proof -
  obtain tr where r: "recv_datagram demo_api demo_env demo_config (demo_initial [1, 2] []) [4, 4] demo_server =
      Some (True, demo_server\<lparr>srv_trace := tr\<rparr>)"
    and tr: "sent tr = [(3, retry_bytes [5, 6] (replicate 16 7) (token_of [4, 4] [1, 2]) @ replicate 16 0, [4, 4])]"
    using demo_retry by blast
  have t: "\<And>w d v t. compute_retry_integrity_tag demo_api w d v = Inr t \<Longrightarrow> length t = 16" by auto
  have f: "info_dcid \<lparr>info_version = 1, info_type = 1, info_scid = [5, 6], info_dcid = [1, 2], info_token = []\<rparr>
      \<notin> io_cid ` set (srv_h demo_server)"
    by (simp add: demo_server_def)
  have "length (demo_initial [1, 2] []) = 13" by (simp add: demo_initial_def)
  then show ?thesis
    using reply_bounded [OF r demo_initial_header demo_env_ok _ f _ t] tr r
    by (simp add: version_is_supported_def QUICHE_PROTOCOL_VERSION_def token_of_def quiche_str_def demo_server_def)
qed

section \<open>The table as a map\<close>

lemma no_reply_keeps_map:
  assumes "admit api env config io_cid io_self new_conn_io info a st = Some (None, st1)"
    and "env_ok env"
  shows "info_dcid info \<notin> io_cid ` set (srv_h st)"
proof -
  have "hash_find env (srv_trace st) io_cid io_self (info_dcid info) (srv_h st) = None"
    using assms(1) by (cases "hash_find env (srv_trace st) io_cid io_self (info_dcid info) (srv_h st)") (simp_all add: admit_def)
  then show ?thesis using assms(2) by (simp add: env_ok_def hash_find_None)
qed

lemma stored_known:
  assumes "entries_ok io_cid io_self h" and "x \<in> set h" and "process api buf a l x tr = (x', tr')"
  shows "key_map io_cid (store_at io_self x' h) = (key_map io_cid h)(io_cid x \<mapsto> x')"
  using tab.amap_assign [OF assms(1,2), of x'] process_frame(1,2) [OF assms(3)] by simp

lemma store_new:
  assumes "io_self x \<notin> io_self ` set h" and "process api buf a l x tr = (x', tr')"
  shows "store_at io_self x' (h @ [x]) = h @ [x']"
  using assms(1) process_frame(1) [OF assms(2)] by (auto simp: store_at_def image_iff intro!: map_idI)

lemma stored_new:
  assumes "io_cid x' = k"
  shows "key_map io_cid (h @ [x']) = (if k \<in> dom (key_map io_cid h) then key_map io_cid h else (key_map io_cid h)(k \<mapsto> x'))"
  using assms key_map_append [of io_cid x' h] key_map_append_known [of io_cid x' h] key_map_None_iff [of io_cid h k]
  by (auto simp: domIff)

text \<open>
  C4: As long as its keys are distinct, the table of connections is a finite map from connection IDs, and a
  datagram, any datagram, changes at most one entry of it.  A known destination connection ID: the entry
  becomes what processing the datagram makes of it.  An unknown one: the table stays as it is, or, for a
  supported version and a token for the source address, one entry is added at its end.  The key of this entry
  is the destination connection ID when that has 16 bytes; a longer one is cut, a shorter one filled up, and
  when the result is already a key, the map does not change although the table has grown.  A datagram without
  a readable header changes nothing.
\<close>

theorem recv_datagram_refines_map:
  assumes "recv_datagram api env config buf a st = Some (b, st')" and "env_ok env" and "length a \<le> 128"
    and "server_ok io_cid io_self io_sock st" and "keys_distinct io_cid st"
  shows "let m = key_map io_cid (srv_h st); m' = key_map io_cid (srv_h st') in
    case read_header buf of
      Inl e \<Rightarrow> srv_h st' = srv_h st
    | Inr info \<Rightarrow>
        (case m (info_dcid info) of
           Some x \<Rightarrow> m' = m(info_dcid info \<mapsto> fst (process api buf a (srv_local_addr st) x (srv_trace st)))
         | None \<Rightarrow> srv_h st' = srv_h st
             \<or> (\<exists>odcid y. version_is_supported (info_version info) \<and> info_token info = token_of a odcid
                  \<and> srv_h st' = srv_h st @ [y] \<and> id_key (info_dcid info) (io_cid y)
                  \<and> (length (info_dcid info) = 16 \<longrightarrow> io_cid y = info_dcid info)
                  \<and> m' = (if io_cid y \<in> dom m then m else m(io_cid y \<mapsto> y))))"
proof (cases "read_header buf")
  case (Inl e)
  then show ?thesis using assms(1) by (auto simp: recv_datagram_def)
next
  case (Inr info)
  obtain r st1 where ad: "admit api env config io_cid io_self new_conn_io info a st = Some (r, st1)"
    using assms(1) Inr by (auto simp: recv_datagram_def bind_eq_Some_conv)
  have ok: "entries_ok io_cid io_self (srv_h st)" by (rule server_ok_entries [OF assms(4,5)])
  have unknown: "key_map io_cid (srv_h st) (info_dcid info) = None"
    if "info_dcid info \<notin> io_cid ` set (srv_h st)"
    using that by (simp add: key_map_None_iff)
  from ad assms(2,3) read_header_sizes(1,2) [OF Inr] show ?thesis
  proof (cases rule: entry.admit_cases)
    case (known x)
    have x: "x \<in> set (srv_h st)" "io_cid x = info_dcid info" using hash_find_Some [OF _ _ known(1)] assms(2,4) by (auto simp: env_ok_def server_ok_def)
    have m: "key_map io_cid (srv_h st) (info_dcid info) = Some x" using x ok by (simp add: key_map_Some_iff)
    obtain x' tr where p: "process api buf a (srv_local_addr st) x (srv_trace st) = (x', tr)" by fastforce
    have "srv_h st' = store_at io_self x' (srv_h st)"
      using assms(1) Inr ad known p by (auto simp: recv_datagram_def)
    then show ?thesis using Inr m p x(2) stored_known [OF ok x(1) p] by simp
  next
    case (answered tr)
    then show ?thesis using assms(1,2) Inr ad unknown no_reply_keeps_map [of api env config info a st st1]
      by (auto simp: recv_datagram_def Let_def)
  next
    case (refused e)
    then show ?thesis using assms(1,2) Inr ad unknown no_reply_keeps_map [of api env config info a st st1]
      by (auto simp: recv_datagram_def Let_def)
  next
    case (new odcid cid conn)
    let ?x = "new_conn_io (srv_next st) (srv_sock st) cid conn a"
    have k: "id_key (info_dcid info) cid" unfolding new(5) by (rule id_key_buffer) (use assms(2) in \<open>simp add: env_ok_def QUICHE_MAX_CONN_ID_LEN_def\<close>)
    obtain x' tr where p: "process api buf a (srv_local_addr st1) ?x (srv_trace st1) = (x', tr)" by fastforce
    have x': "io_cid x' = cid" using process_frame(2) [OF p] by (simp add: new_conn_io_def)
    have "srv_h st' = store_at io_self x' (srv_h st @ [?x])"
      using assms(1) Inr ad new(6,7) p by (auto simp: recv_datagram_def)
    moreover have "io_self ?x \<notin> io_self ` set (srv_h st)" using assms(4) by (auto simp: server_ok_def new_conn_io_def)
    ultimately have h: "srv_h st' = srv_h st @ [x']" using store_new [OF _ p] by simp
    have "length (info_dcid info) = 16 \<longrightarrow> io_cid x' = info_dcid info"
      using k x' id_key_local [of "info_dcid info" cid] by (simp add: LOCAL_CONN_ID_LEN_def)
    then show ?thesis using Inr new(2,3) unknown [OF new(1)] h k x' stored_new [OF x', of "srv_h st"] by (auto simp: Let_def)
  qed
qed

theorem recv_datagram_refines_map_witness:
  "\<exists>b st' y. recv_datagram demo_api demo_env demo_config demo_token_dgram [4, 4] demo_server = Some (b, st')
     \<and> key_map io_cid (srv_h st') = [replicate 16 7 \<mapsto> y]"
proof -
  obtain tr where ad: "recv_datagram demo_api demo_env demo_config demo_token_dgram [4, 4] demo_server =
      Some (True, \<lparr>srv_sock = 3, srv_local_addr = [9, 9], srv_h = [demo_conn_io], srv_next = 1, srv_trace = tr\<rparr>)"
    using demo_admit by blast
  have m: "key_map io_cid [demo_conn_io] \<noteq> Map.empty"
    by (simp add: key_map_def)
  have "keys_distinct io_cid demo_server" by (simp add: keys_distinct_def demo_server_def)
  from recv_datagram_refines_map [OF ad demo_env_ok _ demo_server_ok this] m
  obtain y where "key_map io_cid [demo_conn_io] = [replicate 16 7 \<mapsto> y]"
    by (auto simp: demo_token_dgram_header demo_server_def key_map_def Let_def)
  with ad show ?thesis by auto
qed

text \<open>
  The timeout of a connection changes that connection's entry only: it is what flushing makes of the
  connection after the engine has seen the timeout, or it is gone when the engine has closed it.
\<close>

theorem timeout_refines_map:
  assumes "timeout_cb api env p st = Some st'" and "server_ok io_cid io_self io_sock st" and "keys_distinct io_cid st"
  shows "\<exists>x x' tr. x \<in> set (srv_h st) \<and> io_self x = p
    \<and> flush_egress api env (on_timeout api x) (Stderr (STR ''timeout'') [] # srv_trace st) = Some (x', tr)
    \<and> key_map io_cid (srv_h st') =
        (key_map io_cid (srv_h st))(io_cid x := if quiche_conn_is_closed api (io_conn x') then None else Some x')"
proof -
  obtain x where x: "entry_at io_self p (srv_h st) = Some x"
    using assms(1) by (auto simp: timeout_cb_def server_timeout_cb_def bind_eq_Some_conv)
  then obtain x' tr where f: "flush_egress api env (on_timeout api x) (Stderr (STR ''timeout'') [] # srv_trace st) = Some (x', tr)"
    using assms(1) by (auto simp: timeout_cb_def server_timeout_cb_def bind_eq_Some_conv)
  have st': "srv_h st' = (if is_closed api x' then hash_delete io_self p (srv_h st) else store_at io_self x' (srv_h st))"
    using assms(1) x f by (auto simp: timeout_cb_def server_timeout_cb_def)
  have xin: "x \<in> set (srv_h st)" "io_self x = p" using entry_at_Some [OF x] by auto
  have ok: "entries_ok io_cid io_self (srv_h st)" by (rule server_ok_entries [OF assms(2,3)])
  have "io_cid x' = io_cid x \<and> io_self x' = io_self x"
    using conn.flush_frame [OF f [unfolded flush_egress_def]] on_timeout_frame [of api x] by simp
  then have "key_map io_cid (srv_h st') =
      (key_map io_cid (srv_h st))(io_cid x := if quiche_conn_is_closed api (io_conn x') then None else Some x')"
    using tab.amap_assign [OF ok xin(1), of x'] tab.amap_delete [OF ok xin(1)] xin(2)
    by (simp add: st' is_closed_def)
  with xin f show ?thesis by blast
qed

theorem timeout_refines_map_witness:
  "\<exists>st' tr. timeout_cb demo_api demo_env 0 \<lparr>srv_sock = 3, srv_local_addr = [9, 9], srv_h = [demo_conn_io],
       srv_next = 1, srv_trace = []\<rparr> = Some st' \<and> key_map io_cid (srv_h st') = Map.empty"
proof -
  let ?st = "\<lparr>srv_sock = 3, srv_local_addr = [9, 9], srv_h = [demo_conn_io], srv_next = 1, srv_trace = []\<rparr>"
  have ok: "server_ok io_cid io_self io_sock ?st"
    by (simp add: server_ok_def demo_conn_io_def new_conn_io_def LOCAL_CONN_ID_LEN_def)
  obtain st' where t: "timeout_cb demo_api demo_env 0 ?st = Some st'"
    using srv.timeout_cb_total [OF demo_runs, of 0 ?st] by (auto simp: timeout_cb_def demo_conn_io_def new_conn_io_def)
  have "keys_distinct io_cid ?st" by (simp add: keys_distinct_def)
  from timeout_refines_map [OF t ok this] obtain x' tr where
    f: "flush_egress demo_api demo_env (on_timeout demo_api demo_conn_io) [Stderr (STR ''timeout'') []] = Some (x', tr)"
    and k: "key_map io_cid (srv_h st') = (key_map io_cid [demo_conn_io])
        (io_cid demo_conn_io := if quiche_conn_is_closed demo_api (io_conn x') then None else Some x')" by auto
  obtain tr' where "send_loop demo_api demo_env send_to 3 \<lparr>demo_out = [[1, 2], resp], demo_streams = [0], demo_closed = True\<rparr>
      [Stderr (STR ''timeout'') []] = Some (True, \<lparr>demo_out = [], demo_streams = [0], demo_closed = True\<rparr>, tr')"
    using demo_send_loop by blast
  then have "demo_closed (io_conn x')"
    using f by (auto simp: flush_egress_def flush_conn_def on_timeout_def demo_conn_io_def new_conn_io_def Let_def)
  then show ?thesis using t k by (auto simp: key_map_def)
qed

section \<open>Short connection IDs\<close>

text \<open>
  A datagram of no known connection with a token for its source address: one connection is added, with
  what processing the datagram makes of it.
\<close>

lemma recv_datagram_new:
  assumes "read_header buf = Inr info" and "info_dcid info \<notin> io_cid ` set (srv_h st)"
    and "version_is_supported (info_version info)" and "info_token info = token_of a odcid" and "length odcid \<le> 20"
    and "length a \<le> 128" and "env_ok env" and "env_calloc env (srv_trace st)" and ok: "server_ok io_cid io_self io_sock st"
    and "cid = take LOCAL_CONN_ID_LEN (info_dcid info @ drop (length (info_dcid info)) (env_stack env (srv_trace st) QUICHE_MAX_CONN_ID_LEN))"
    and "quiche_accept api (srv_trace (alloc_state (length (info_dcid info)) st)) cid odcid (srv_local_addr st) a config = Some c"
  shows "\<exists>tr st'. recv_datagram api env config buf a st = Some (True, st') \<and> srv_h st' =
    srv_h st @ [fst (process api buf a (srv_local_addr st) (new_conn_io (srv_next st) (srv_sock st) cid c a) tr)]"
proof -
  let ?x = "new_conn_io (srv_next st) (srv_sock st) cid c a"
  have none: "hash_find env (srv_trace st) io_cid io_self (info_dcid info) (srv_h st) = None"
    using assms(2,7) by (simp add: env_ok_def hash_find_None)
  have t: "info_token info \<noteq> []" using assms(4) by (simp add: token_of_def quiche_str_def)
  have v: "validate_token (info_token info) a QUICHE_MAX_CONN_ID_LEN = Some odcid"
    using assms(4,5) by (simp add: validate_token_iff QUICHE_MAX_CONN_ID_LEN_def)
  have scid: "length (info_dcid info @ drop (length (info_dcid info)) (env_stack env (srv_trace st) QUICHE_MAX_CONN_ID_LEN))
      = QUICHE_MAX_CONN_ID_LEN"
    using assms(7) read_header_sizes(2) [OF assms(1)] by (simp add: env_ok_def QUICHE_MAX_CONN_ID_LEN_def)
  obtain st1 where ad: "admit api env config io_cid io_self new_conn_io info a st = Some (Some ?x, st1)"
    and l: "srv_h st1 = srv_h st @ [?x]" "srv_local_addr st1 = srv_local_addr st"
    using none t v assms(3,11) by (simp add: admit_def create_conn_eq [OF assms(8) scid assms(6)] Let_def assms(10))
  obtain x' tr where p: "process api buf a (srv_local_addr st) ?x (srv_trace st1) = (x', tr)" by fastforce
  have "io_self ?x \<notin> io_self ` set (srv_h st)" using ok by (auto simp: server_ok_def new_conn_io_def)
  then have "store_at io_self x' (srv_h st @ [?x]) = srv_h st @ [x']" by (rule store_new [OF _ p])
  then have "recv_datagram api env config buf a st = Some (True, st1\<lparr>srv_h := srv_h st @ [x'], srv_trace := tr\<rparr>)"
    using assms(1) ad l p by (simp add: recv_datagram_def)
  then show ?thesis by (intro exI [of _ "srv_trace st1"]) (simp add: p)
qed

text \<open>
  What a client can send that has chosen its own destination connection ID: a datagram for a supported
  version with a token for its address and a connection ID that has not the local length.
\<close>

definition stray :: "bytes \<Rightarrow> sockaddr \<Rightarrow> bool" where
  "stray buf a \<longleftrightarrow> length buf \<le> 65535 \<and> length a \<le> 128 \<and> (\<exists>info odcid. read_header buf = Inr info
     \<and> length (info_dcid info) \<noteq> 16 \<and> version_is_supported (info_version info)
     \<and> info_token info = token_of a odcid \<and> length odcid \<le> 20)"

lemma stray_new:
  assumes "stray buf a" and ok: "server_ok io_cid io_self io_sock st" and env: "env_ok env"
    and "\<And>tr. env_calloc env tr" and "\<And>tr scid odcid local peer g. quiche_accept api tr scid odcid local peer g \<noteq> None"
  shows "\<exists>st'. recv_datagram api env config buf a st = Some (True, st') \<and> length (srv_h st') = Suc (length (srv_h st))
    \<and> server_ok io_cid io_self io_sock st'"
proof -
  obtain info odcid where i: "read_header buf = Inr info" "length (info_dcid info) \<noteq> 16"
    "version_is_supported (info_version info)" "info_token info = token_of a odcid" "length odcid \<le> 20" "length a \<le> 128"
    using assms(1) by (auto simp: stray_def)
  have "info_dcid info \<notin> io_cid ` set (srv_h st)" using ok i(2) by (auto simp: server_ok_def LOCAL_CONN_ID_LEN_def)
  note new = recv_datagram_new [OF i(1) this i(3-6) env assms(4) ok refl]
  let ?cid = "take LOCAL_CONN_ID_LEN (info_dcid info @ drop (length (info_dcid info)) (env_stack env (srv_trace st) QUICHE_MAX_CONN_ID_LEN))"
  obtain c where "quiche_accept api (srv_trace (alloc_state (length (info_dcid info)) st)) ?cid odcid (srv_local_addr st) a config = Some c"
    using assms(5) by blast
  from new [OF this] obtain st' where r: "recv_datagram api env config buf a st = Some (True, st')"
    and l: "length (srv_h st') = Suc (length (srv_h st))" by auto
  have "server_ok io_cid io_self io_sock st'" using recv_datagram_ok [OF r env i(6) ok] by blast
  with r l show ?thesis by blast
qed

text \<open>
  C18: \<open>create_conn\<close> only reports a destination connection ID that has not the local length and then
  uses 16 bytes of the buffer.  Such a connection is never found again by that ID: of any number of such
  datagrams that one callback reads, the same one repeated or others, in any state the server can be in,
  each adds one more connection to the table.
\<close>

theorem short_cid_never_found:
  assumes "server_ok io_cid io_self io_sock st" and "env_ok env" and "\<And>tr. env_calloc env tr"
    and "\<And>tr scid odcid local peer g. quiche_accept api tr scid odcid local peer g \<noteq> None"
    and "\<forall>(buf, a) \<in> set ds. stray buf a"
  shows "\<exists>st'. recv_loop (recv_datagram api env config) (map (\<lambda>(buf, a). Datagram buf a) ds) st = Some (True, [], st')
    \<and> length (srv_h st') = length (srv_h st) + length ds"
  using assms(1,5)
proof (induction ds arbitrary: st)
  case (Cons d ds)
  obtain buf a where d: "d = (buf, a)" by fastforce
  then have s: "stray buf a" using Cons.prems(2) by simp
  then have l: "take 65535 buf = buf" by (simp add: stray_def)
  obtain st1 where r: "recv_datagram api env config buf a st = Some (True, st1)"
    "length (srv_h st1) = Suc (length (srv_h st))" "server_ok io_cid io_self io_sock st1"
    using stray_new [OF s Cons.prems(1) assms(2-4)] by blast
  then show ?case using Cons.IH [OF r(3)] Cons.prems(2) by (simp add: d l)
qed simp

theorem short_cid_never_found_witness:
  "\<exists>st'. recv_loop (recv_datagram demo_api demo_env demo_config)
       (replicate 3 (Datagram (demo_initial [1, 2] (token_of [4, 4] [1, 2])) [4, 4])) demo_server = Some (True, [], st')
     \<and> length (srv_h st') = 3"
proof -
  have h: "read_header (demo_initial [1, 2] (token_of [4, 4] [1, 2])) =
      Inr \<lparr>info_version = 1, info_type = 1, info_scid = [5, 6], info_dcid = [1, 2], info_token = token_of [4, 4] [1, 2]\<rparr>"
    by code_simp
  have "stray (demo_initial [1, 2] (token_of [4, 4] [1, 2])) [4, 4]"
    unfolding stray_def h
    by (auto simp: version_is_supported_def QUICHE_PROTOCOL_VERSION_def demo_initial_def token_of_def intro!: exI [of _ "[1, 2]"])
  then show ?thesis
    using short_cid_never_found [OF demo_server_ok demo_env_ok, of demo_api
        "replicate 3 (demo_initial [1, 2] (token_of [4, 4] [1, 2]), [4, 4])" demo_config]
    by (simp add: demo_server_def)
qed

section \<open>The replies, read by the client\<close>

lemma recv_datagram_vneg:
  assumes "recv_datagram api env config buf a st = Some (b, st')" and "read_header buf = Inr info"
    and "env_ok env" and "length a \<le> 128" and "info_dcid info \<notin> io_cid ` set (srv_h st)"
    and "\<not> version_is_supported (info_version info)"
  shows "srv_h st' = srv_h st \<and> (\<exists>out. sent (srv_trace st') = (srv_sock st, out, a) # sent (srv_trace st)
    \<and> header_from_bytes n out = Inr (\<lparr>hdr_ty = VersionNegotiation, hdr_version = 0, hdr_dcid = info_scid info,
        hdr_scid = info_dcid info, hdr_pkt_num = 0, hdr_pkt_num_len = 0, hdr_token = None,
        hdr_versions = Some [QUICHE_PROTOCOL_VERSION], hdr_key_phase = False\<rparr>, []))"
proof -
  note sz = read_header_sizes(1,2) [OF assms(2)]
  let ?tr = "Stderr (STR ''version negotiation'') [] # srv_trace st"
  let ?out = "vneg_bytes (env_rand_u8 env ?tr) (info_scid info) (info_dcid info)"
  have "hash_find env (srv_trace st) io_cid io_self (info_dcid info) (srv_h st) = None"
    using assms(3,5) by (simp add: env_ok_def hash_find_None)
  then have "admit api env config io_cid io_self new_conn_io info a st =
      Some (None, st\<lparr>srv_trace := send_reply env (srv_sock st) ?out a ?tr\<rparr>)"
    by (simp add: admit_def assms(6) version_negotiation_eq [OF sz] Let_def)
  then have "srv_trace st' = send_reply env (srv_sock st) ?out a ?tr" and h: "srv_h st' = srv_h st"
    using assms(1) by (auto simp: recv_datagram_def assms(2))
  then have "sent (srv_trace st') = (srv_sock st, ?out, a) # sent (srv_trace st)" by (simp add: send_reply_sent)
  then show ?thesis using h header_from_vneg [of "info_scid info" "info_dcid info" n] sz by (intro conjI exI [of _ ?out]) simp_all
qed

text \<open>
  A version negotiation packet is read back by the engine's own header parser as one from the
  server to the client, with the connection IDs swapped and the one version that is supported; it is
  sent to every datagram of an unknown connection whose version is not supported, as the only datagram.
\<close>

theorem version_negotiation_roundtrip:
  assumes "recv_datagram api env config buf a st = Some (b, st')" and "read_header buf = Inr info"
    and "env_ok env" and "length a \<le> 128" and "info_dcid info \<notin> io_cid ` set (srv_h st)"
    and "\<not> version_is_supported (info_version info)"
  shows "\<exists>out. sent (srv_trace st') = (srv_sock st, out, a) # sent (srv_trace st)
    \<and> header_from_bytes n out = Inr (\<lparr>hdr_ty = VersionNegotiation, hdr_version = 0, hdr_dcid = info_scid info,
        hdr_scid = info_dcid info, hdr_pkt_num = 0, hdr_pkt_num_len = 0, hdr_token = None,
        hdr_versions = Some [QUICHE_PROTOCOL_VERSION], hdr_key_phase = False\<rparr>, [])"
  using recv_datagram_vneg [OF assms] by blast

definition demo_other_version :: bytes where
  "demo_other_version = 0xc0 # be_bytes 4 2 @ cid_field [1, 2] @ cid_field [5, 6] @ [0]"

theorem version_negotiation_roundtrip_witness:
  "\<exists>b st' out. recv_datagram demo_api demo_env demo_config demo_other_version [4, 4] demo_server = Some (b, st')
     \<and> sent (srv_trace st') = [(3, out, [4, 4])]"
proof -
  have h: "read_header demo_other_version =
      Inr \<lparr>info_version = 2, info_type = 1, info_scid = [5, 6], info_dcid = [1, 2], info_token = []\<rparr>"
    by code_simp
  obtain b st' where r: "recv_datagram demo_api demo_env demo_config demo_other_version [4, 4] demo_server = Some (b, st')"
    using recv_datagram_total [OF demo_env_ok, of "[4, 4]" demo_api demo_config demo_other_version demo_server] by auto
  show ?thesis
    using version_negotiation_roundtrip [OF r h demo_env_ok, of 16] r
    by (auto simp: demo_server_def hash_find_def version_is_supported_def QUICHE_PROTOCOL_VERSION_def)
qed

text \<open>A token that the check refuses changes nothing and nothing is sent.\<close>

lemma recv_datagram_refused:
  assumes "read_header buf = Inr info" and "info_dcid info \<notin> io_cid ` set (srv_h st)"
    and "version_is_supported (info_version info)" and "info_token info \<noteq> []"
    and "validate_token (info_token info) a QUICHE_MAX_CONN_ID_LEN = None" and "env_ok env"
  shows "recv_datagram api env config buf a st =
    Some (True, server_log (Stderr (STR ''invalid address validation token'') []) st)"
proof -
  have "hash_find env (srv_trace st) io_cid io_self (info_dcid info) (srv_h st) = None"
    using assms(2,6) by (simp add: env_ok_def hash_find_None)
  then show ?thesis using assms(1,3-5) by (simp add: recv_datagram_def admit_def)
qed

text \<open>
  C1: Address validation over two round trips.  The server's retry packet for a first Initial packet is
  read by the engine's parser as a token and a new connection ID of 16 bytes.  An Initial packet with
  this token and this connection ID, written by the engine's header writer, is then taken by the server's
  own treatment of a datagram, in any state it may be in by then.  From the same address: when the engine
  accepts a connection for the new connection ID, with the client's first connection ID as original
  destination, that connection is added to the table under the new connection ID, and the packet is
  processed on it.  From another address of the same length: no connection is made and nothing is sent.
\<close>

theorem retry_handshake:
  assumes first: "recv_datagram api env config buf a st = Some (b, st1)" "read_header buf = Inr info"
      "info_dcid info \<notin> io_cid ` set (srv_h st)" "version_is_supported (info_version info)" "info_token info = []"
    and sent: "sent (srv_trace st1) \<noteq> sent (srv_trace st)"
    and tag: "\<And>w d v t. compute_retry_integrity_tag api w d v = Inr t \<Longrightarrow> length t = 16"
    and env: "env_ok env" "length a \<le> 128"
  shows "\<exists>out cid t. sent (srv_trace st1) = (srv_sock st, out, a) # sent (srv_trace st) \<and> length cid = 16
    \<and> header_from_bytes n out = Inr (retry_header (info_scid info) cid (token_of a (info_dcid info)) QUICHE_PROTOCOL_VERSION, t)
    \<and> (\<forall>h w rest st2. header_ok h \<longrightarrow> hdr_ty h = Initial \<longrightarrow> hdr_dcid h = cid \<longrightarrow> hdr_token h = Some (token_of a (info_dcid info))
        \<longrightarrow> header_to_bytes h 1350 = Some (Inr w) \<longrightarrow> server_ok io_cid io_self io_sock st2 \<longrightarrow> cid \<notin> io_cid ` set (srv_h st2) \<longrightarrow>
        (\<forall>c. env_calloc env (srv_trace st2) \<longrightarrow>
           quiche_accept api (Calloc (srv_next st2) # srv_trace st2) cid (info_dcid info) (srv_local_addr st2) a config = Some c \<longrightarrow>
           (\<exists>st3 tr. recv_datagram api env config (w @ rest) a st2 = Some (True, st3)
              \<and> srv_h st3 = srv_h st2 @ [fst (process api (w @ rest) a (srv_local_addr st2)
                  (new_conn_io (srv_next st2) (srv_sock st2) cid c a) tr)]))
        \<and> (\<forall>a'. length a' = length a \<longrightarrow> a' \<noteq> a \<longrightarrow>
           (\<exists>st3. recv_datagram api env config (w @ rest) a' st2 = Some (True, st3)
              \<and> srv_h st3 = srv_h st2 \<and> sent (srv_trace st3) = sent (srv_trace st2))))"
proof -
  obtain r st2 where ad: "admit api env config io_cid io_self new_conn_io info a st = Some (r, st2)"
    using first(1,2) by (auto simp: recv_datagram_def bind_eq_Some_conv)
  note sz = read_header_sizes(1,2) [OF first(2)]
  have "info_token info \<noteq> token_of a odcid" for odcid using first(5) by (simp add: token_of_def quiche_str_def)
  from admit_unvalidated [OF ad env sz first(3) this] have u: "r = None"
      "sent (srv_trace st2) = sent (srv_trace st) \<or> (\<exists>out. reply_to api info a out
        \<and> sent (srv_trace st2) = (srv_sock st, out, a) # sent (srv_trace st))" by auto
  have "st1 = st2" using first(1,2) ad u(1) by (simp add: recv_datagram_def)
  with u(2) sent obtain out where out: "reply_to api info a out" "sent (srv_trace st1) = (srv_sock st, out, a) # sent (srv_trace st)"
    by auto
  let ?token = "token_of a (info_dcid info)"
  obtain cid t where cid: "length cid = LOCAL_CONN_ID_LEN" and t: "length t = 16"
    and o: "out = retry_bytes (info_scid info) cid ?token @ t"
    using out(1) first(4) tag by (auto simp: reply_to_def)
  have 1: "header_from_bytes n out = Inr (retry_header (info_scid info) cid ?token QUICHE_PROTOCOL_VERSION, t)"
    unfolding o using sz(1) cid t by (intro header_from_retry) (simp_all add: LOCAL_CONN_ID_LEN_def)
  have token: "?token \<noteq> []" "length ?token \<le> MAX_TOKEN_LEN"
    using sz(2) env(2) by (simp_all add: length_token_of MAX_TOKEN_LEN_eq) (simp add: token_of_def quiche_str_def)
  have 2: "read_header (w @ rest) = Inr \<lparr>info_version = QUICHE_PROTOCOL_VERSION, info_type = 1, info_scid = hdr_scid h,
        info_dcid = cid, info_token = ?token\<rparr>"
    if h: "header_ok h" "hdr_ty h = Initial" "hdr_dcid h = cid" "hdr_token h = Some ?token"
      and w: "header_to_bytes h 1350 = Some (Inr w)" for h w rest
  proof -
    have "length (hdr_scid h) \<le> 20" "hdr_version h = QUICHE_PROTOCOL_VERSION" using h(1) by (simp_all add: header_ok_def)
    then show ?thesis
      using header_roundtrip [OF h(1) w, of LOCAL_CONN_ID_LEN rest] h cid token(2)
      by (simp add: read_header_def quiche_header_info_def QUICHE_MAX_CONN_ID_LEN_def LOCAL_CONN_ID_LEN_def)
  qed
  have v: "version_is_supported QUICHE_PROTOCOL_VERSION" by (simp add: version_is_supported_def)
  have 3: "\<exists>st3 tr. recv_datagram api env config (w @ rest) a st2 = Some (True, st3)
      \<and> srv_h st3 = srv_h st2 @ [fst (process api (w @ rest) a (srv_local_addr st2)
          (new_conn_io (srv_next st2) (srv_sock st2) cid c a) tr)]"
    if i: "read_header (w @ rest) = Inr \<lparr>info_version = QUICHE_PROTOCOL_VERSION, info_type = 1, info_scid = s,
        info_dcid = cid, info_token = ?token\<rparr>"
      and ok: "server_ok io_cid io_self io_sock st2" and fresh: "cid \<notin> io_cid ` set (srv_h st2)"
      and c: "env_calloc env (srv_trace st2)"
        "quiche_accept api (Calloc (srv_next st2) # srv_trace st2) cid (info_dcid info) (srv_local_addr st2) a config = Some c"
    for w rest s st2 c
  proof -
    have "srv_trace (alloc_state (length cid) st2) = Calloc (srv_next st2) # srv_trace st2"
      using cid by (simp add: alloc_state_def Let_def)
    with recv_datagram_new [OF i, of st2 a "info_dcid info" env cid api config c] fresh v sz(2) env c ok cid
    show ?thesis by auto
  qed
  have 4: "\<exists>st3. recv_datagram api env config (w @ rest) a' st2 = Some (True, st3)
      \<and> srv_h st3 = srv_h st2 \<and> sent (srv_trace st3) = sent (srv_trace st2)"
    if i: "read_header (w @ rest) = Inr \<lparr>info_version = QUICHE_PROTOCOL_VERSION, info_type = 1, info_scid = s,
        info_dcid = cid, info_token = ?token\<rparr>"
      and fresh: "cid \<notin> io_cid ` set (srv_h st2)" and a': "length a' = length a" "a' \<noteq> a"
    for w rest s st2 a'
  proof -
    have "validate_token ?token a' QUICHE_MAX_CONN_ID_LEN = None"
      using a' by (auto simp: not_Some_eq [symmetric] validate_token_iff token_of_inject simp del: not_Some_eq)
    then show ?thesis using recv_datagram_refused [OF i, of st2 a' env api config] fresh v token(1) env(1) by simp
  qed
  show ?thesis
    by (rule exI [of _ out], rule exI [of _ cid], rule exI [of _ t])
      (use out(2) 1 2 3 4 cid in \<open>auto simp: LOCAL_CONN_ID_LEN_def\<close>)
qed

definition demo_second :: header where
  "demo_second = \<lparr>hdr_ty = Initial, hdr_version = QUICHE_PROTOCOL_VERSION, hdr_dcid = replicate 16 7, hdr_scid = [5, 6],
     hdr_pkt_num = 0, hdr_pkt_num_len = 0, hdr_token = Some (token_of [4, 4] [1, 2]), hdr_versions = None, hdr_key_phase = False\<rparr>"

lemma demo_second_bytes: "\<exists>w. header_to_bytes demo_second 1350 = Some (Inr w)"
proof -
  have "header_ok demo_second"
    by (simp add: header_ok_def demo_second_def length_token_of QUICHE_PROTOCOL_VERSION_def)
  from header_to_bytes_eq [OF this] obtain ty where
    "header_to_bytes demo_second 1350 = Some (octets_put_bytes (long_bytes demo_second ty @ token_bytes demo_second) 1350 [])"
    by blast
  moreover have "length (token_bytes demo_second) = 11"
    by (simp add: token_bytes_def demo_second_def length_token_of varint_bytes_def varint_len_def)
  moreover have "length (long_bytes demo_second ty) = 25" by (simp add: long_bytes_def demo_second_def)
  ultimately show ?thesis by (simp add: octets_put_bytes_def)
qed

theorem retry_handshake_witness:
  "\<exists>w st3 x. header_to_bytes demo_second 1350 = Some (Inr w)
     \<and> recv_datagram demo_api demo_env demo_config (w @ [0xaa]) [4, 4] demo_server = Some (True, st3) \<and> srv_h st3 = [x]"
proof -
  obtain tr where r: "recv_datagram demo_api demo_env demo_config (demo_initial [1, 2] []) [4, 4] demo_server =
      Some (True, demo_server\<lparr>srv_trace := tr\<rparr>)"
    and tr: "sent tr = [(3, retry_bytes [5, 6] (replicate 16 7) (token_of [4, 4] [1, 2]) @ replicate 16 0, [4, 4])]"
    using demo_retry by blast
  let ?i = "\<lparr>info_version = 1, info_type = 1, info_scid = [5, 6], info_dcid = [1, 2], info_token = []\<rparr>"
  have f: "info_dcid ?i \<notin> io_cid ` set (srv_h demo_server)"
    by (simp add: demo_server_def)
  have s: "sent (srv_trace (demo_server\<lparr>srv_trace := tr\<rparr>)) \<noteq> sent (srv_trace demo_server)"
    using tr by (simp add: demo_server_def)
  have v: "version_is_supported (info_version ?i)" by (simp add: version_is_supported_def QUICHE_PROTOCOL_VERSION_def)
  have t: "\<And>w d v t. compute_retry_integrity_tag demo_api w d v = Inr t \<Longrightarrow> length t = 16" by auto
  obtain w where w: "header_to_bytes demo_second 1350 = Some (Inr w)" using demo_second_bytes by blast
  have h: "header_ok demo_second" "hdr_ty demo_second = Initial" "hdr_dcid demo_second = replicate 16 7"
    "hdr_token demo_second = Some (token_of [4, 4] (info_dcid ?i))"
    by (simp_all add: header_ok_def demo_second_def length_token_of)
  have second: "\<exists>cid t. header_from_bytes 16 (retry_bytes [5, 6] (replicate 16 7) (token_of [4, 4] [1, 2]) @ replicate 16 0) =
        Inr (retry_header [5, 6] cid (token_of [4, 4] [1, 2]) QUICHE_PROTOCOL_VERSION, t)
      \<and> (cid = replicate 16 7 \<longrightarrow> (\<exists>st3 tr. recv_datagram demo_api demo_env demo_config (w @ [0xaa]) [4, 4] demo_server = Some (True, st3)
          \<and> srv_h st3 = srv_h demo_server @ [fst (process demo_api (w @ [0xaa]) [4, 4] (srv_local_addr demo_server)
                  (new_conn_io (srv_next demo_server) (srv_sock demo_server) cid
                    \<lparr>demo_out = [[1, 2]], demo_streams = [0], demo_closed = False\<rparr> [4, 4]) tr)]))"
  proof -
    from retry_handshake [where n = 16, OF r demo_initial_header f v _ s t demo_env_ok]
    obtain out cid t where o: "sent tr = (3, out, [4, 4]) # []"
      and p: "header_from_bytes 16 out = Inr (retry_header [5, 6] cid (token_of [4, 4] [1, 2]) QUICHE_PROTOCOL_VERSION, t)"
      and second: "\<forall>h w rest st2. header_ok h \<longrightarrow> hdr_ty h = Initial \<longrightarrow> hdr_dcid h = cid
        \<longrightarrow> hdr_token h = Some (token_of [4, 4] (info_dcid ?i)) \<longrightarrow> header_to_bytes h 1350 = Some (Inr w)
        \<longrightarrow> server_ok io_cid io_self io_sock st2 \<longrightarrow> cid \<notin> io_cid ` set (srv_h st2) \<longrightarrow>
        (\<forall>c. env_calloc demo_env (srv_trace st2) \<longrightarrow>
           quiche_accept demo_api (Calloc (srv_next st2) # srv_trace st2) cid (info_dcid ?i) (srv_local_addr st2) [4, 4] demo_config = Some c \<longrightarrow>
           (\<exists>st3 tr. recv_datagram demo_api demo_env demo_config (w @ rest) [4, 4] st2 = Some (True, st3)
              \<and> srv_h st3 = srv_h st2 @ [fst (process demo_api (w @ rest) [4, 4] (srv_local_addr st2)
                  (new_conn_io (srv_next st2) (srv_sock st2) cid c [4, 4]) tr)]))"
      by (auto simp: demo_server_def)
    have "srv_h demo_server = []" by (simp add: demo_server_def)
    then show ?thesis
      using p o tr second [rule_format, OF h(1,2) _ h(4) w demo_server_ok, of "\<lparr>demo_out = [[1, 2]], demo_streams = [0], demo_closed = False\<rparr>" "[0xaa]"] h(3)
      by - (rule exI [of _ cid], rule exI [of _ t], auto)
  qed
  have "header_from_bytes 16 (retry_bytes [5, 6] (replicate 16 7) (token_of [4, 4] [1, 2]) @ replicate 16 0) =
      Inr (retry_header [5, 6] (replicate 16 7) (token_of [4, 4] [1, 2]) QUICHE_PROTOCOL_VERSION, replicate 16 0)"
    by (rule header_from_retry) simp_all
  with second show ?thesis using w by (auto simp: retry_header_def demo_server_def)
qed

section \<open>Starting up\<close>

definition hq_protocols :: "bytes list" where
  "hq_protocols = map ascii [''hq-interop'', ''hq-29'', ''hq-28'', ''hq-27'', ''http/0.9'']"

lemma alpn_protocols_Cons:
  "length p = unat len \<Longrightarrow> alpn_protocols (len # p @ r) = p # alpn_protocols r"
  by (subst alpn_protocols.simps) simp

lemma alpn_hq_protos: "alpn_protocols (take 38 hq_protos) = hq_protocols"
  by code_simp

text \<open>
  \<open>main\<close> reaches its event loop exactly when every call it depends on succeeds; otherwise it ends with
  \<open>-1\<close>.  Then it has no connections, supports one version, and the engine reads its list of application
  protocols, all 38 bytes of it, as the five protocols it names.
\<close>

theorem main_starts:
  "(case main_setup su of
      Inl (rc, e) \<Rightarrow> rc = - 1 \<and> \<not> (su_getaddrinfo su \<noteq> None \<and> 0 \<le> su_socket su \<and> su_fcntl su = 0 \<and> 0 \<le> su_bind su \<and> su_tls su)
    | Inr (config, st) \<Rightarrow> (su_getaddrinfo su \<noteq> None \<and> 0 \<le> su_socket su \<and> su_fcntl su = 0 \<and> 0 \<le> su_bind su \<and> su_tls su)
        \<and> server_ok io_cid io_self io_sock st \<and> srv_h st = [] \<and> config_version config = QUICHE_PROTOCOL_VERSION
        \<and> (\<exists>b. quiche_config_set_application_protos b \<in> set (config_calls config) \<and> length b = 38
             \<and> alpn_protocols b = hq_protocols))"
proof (cases "open_server su")
  case (Inl r)
  then show ?thesis
    by (auto simp: main_setup_def open_server_def quiche_config_new_def version_is_supported_def
      split: option.splits if_splits)
next
  case (Inr r)
  obtain local config where r: "r = (local, config)" by fastforce
  note o = Inr [unfolded r open_server_config]
  have "length (take 38 hq_protos) = 38" by (simp add: hq_protos_def)
  then show ?thesis
    using Inr r o alpn_hq_protos
    by (auto simp: main_setup_def server_ok_empty config_apply_def server_config_def)
qed

end
