(* ===== verification/Http3Server.thy ===== *)
theory Http3Server
  imports ServerIo H3Poll
begin

text \<open>
  \<open>quiche/examples/http3-server.c\<close>: the server over HTTP/3.  Admission is that of \<open>server.c\<close>; a
  connection has an HTTP/3 connection once the handshake is complete, every request is answered when
  its headers arrive, and packets go to the address the client first used.  A datagram whose header
  cannot be read ends the callback.
\<close>

section \<open>State\<close>

text \<open>\<open>struct conn_io\<close>: \<open>http3\<close> is \<open>None\<close> for \<open>NULL\<close>, which \<open>calloc\<close> leaves in it.\<close>

record ('c, 'h) h3_conn_io = "'c conn_io" +
  io_http3 :: "'h option"

type_synonym ('c, 'h) h3_server_state = "('c, 'h) h3_conn_io server"

definition new_h3_conn_io :: "nat \<Rightarrow> int \<Rightarrow> bytes \<Rightarrow> 'c \<Rightarrow> sockaddr \<Rightarrow> ('c, 'h) h3_conn_io" where
  "new_h3_conn_io p sock cid conn peer_addr =
     \<lparr>io_self = p, io_repeat = 0, io_sock = sock, io_cid = cid, io_conn = conn, io_peer_addr = peer_addr,
      io_http3 = None\<rparr>"

section \<open>Operations\<close>

definition h3_flush_egress ::
  "'c quiche_api \<Rightarrow> environment \<Rightarrow> ('c, 'h) h3_conn_io \<Rightarrow> history \<Rightarrow> (('c, 'h) h3_conn_io \<times> history) option" where
  "h3_flush_egress api env = flush_conn api env (\<lambda>conn_io send_info. io_peer_addr conn_io)"

definition response_headers :: "quiche_h3_header list" where
  "response_headers =
     [\<lparr>h3_name = ascii '':status'', h3_value = ascii ''200''\<rparr>,
      \<lparr>h3_name = ascii ''server'', h3_value = ascii ''quiche''\<rparr>,
      \<lparr>h3_name = ascii ''content-length'', h3_value = ascii ''5''\<rparr>]"

definition response_body :: bytes where
  "response_body = ascii ''byez'' @ [0x0a]"

text \<open>The body of the \<open>switch\<close>; the results of the two calls of the engine are not looked at.\<close>

definition handle_event ::
  "('c, 'h) quiche_h3_api \<Rightarrow> u64 \<Rightarrow> quiche_h3_event \<Rightarrow> 'h \<Rightarrow> 'c \<Rightarrow> history \<Rightarrow> ('h \<times> 'c \<times> history) option" where
  "handle_event h3 s ev h c tr =
     Some (case h3_event_type ev of
        QUICHE_H3_EVENT_HEADERS \<Rightarrow>
          let (rc, tr) = quiche_h3_event_for_each_header ev for_each_header tr;
              tr = (if rc \<noteq> 0 then Stderr (STR ''failed to process headers'') [] # tr else tr);
              (_, h, c) = quiche_h3_send_response h3 h c s (take 3 response_headers) False;
              (_, h, c) = quiche_h3_send_body h3 h c s (take 5 response_body) True
          in (h, c, tr)
      | QUICHE_H3_EVENT_DATA \<Rightarrow> (h, c, Stderr (STR ''got HTTP data'') [] # tr)
      | QUICHE_H3_EVENT_FINISHED \<Rightarrow> (h, c, tr)
      | QUICHE_H3_EVENT_RESET \<Rightarrow> (h, c, tr)
      | QUICHE_H3_EVENT_PRIORITY_UPDATE \<Rightarrow> (h, c, tr)
      | QUICHE_H3_EVENT_GOAWAY \<Rightarrow> (h, c, Stderr (STR ''got GOAWAY'') [] # tr))"

text \<open>The HTTP/3 connection, made when there is none; \<open>h3_config\<close> is \<open>http3_config\<close>.\<close>

definition ensure_http3 ::
  "('c, 'h) quiche_h3_api \<Rightarrow> quiche_h3_config \<Rightarrow> 'h option \<Rightarrow> 'c \<Rightarrow> 'h option \<times> 'c" where
  "ensure_http3 h3 h3_config http3 conn =
     (case http3 of
        None \<Rightarrow> quiche_h3_conn_new_with_transport h3 conn h3_config
      | Some h \<Rightarrow> (Some h, conn))"

text \<open>A datagram of a connection: from \<open>quiche_recv_info\<close> to the end of the loop body.\<close>

definition h3_process ::
  "'c quiche_api \<Rightarrow> ('c, 'h) quiche_h3_api \<Rightarrow> quiche_h3_config \<Rightarrow> bytes \<Rightarrow> sockaddr \<Rightarrow> sockaddr
    \<Rightarrow> ('c, 'h) h3_conn_io \<Rightarrow> history \<Rightarrow> (('c, 'h) h3_conn_io \<times> history) option" where
  "h3_process api h3 h3_config buf peer_addr local_addr conn_io tr =
     (let recv_info = \<lparr>recv_from = peer_addr, recv_to = local_addr\<rparr> in
      case quiche_conn_recv api (io_conn conn_io) buf recv_info of
        (Inl e, conn) \<Rightarrow>
          Some (conn_io\<lparr>io_conn := conn\<rparr>, Stderr (STR ''failed to process packet: %zd'') [quiche_error_code e] # tr)
      | (Inr done, conn) \<Rightarrow>
          let tr = Stderr (STR ''recv %zd bytes'') [int done] # tr in
          if \<not> quiche_conn_is_established api conn then Some (conn_io\<lparr>io_conn := conn\<rparr>, tr)
          else (case ensure_http3 h3 h3_config (io_http3 conn_io) conn of
              (None, conn) \<Rightarrow>
                Some (conn_io\<lparr>io_conn := conn\<rparr>, Stderr (STR ''failed to create HTTP/3 connection'') [] # tr)
            | (Some http3, conn) \<Rightarrow>
                do {
                  (http3, conn, tr) \<leftarrow> poll_loop h3 (handle_event h3) http3 conn tr;
                  Some (conn_io\<lparr>io_conn := conn, io_http3 := Some http3\<rparr>, tr)
                }))"

text \<open>One turn of the loop of \<open>recv_cb\<close>: \<open>False\<close> is the \<open>return\<close> of the callback.\<close>

definition h3_recv_datagram ::
  "'c quiche_api \<Rightarrow> ('c, 'h) quiche_h3_api \<Rightarrow> environment \<Rightarrow> quiche_config \<Rightarrow> quiche_h3_config \<Rightarrow> bytes \<Rightarrow> sockaddr
    \<Rightarrow> ('c, 'h) h3_server_state \<Rightarrow> (bool \<times> ('c, 'h) h3_server_state) option" where
  "h3_recv_datagram api h3 env config h3_config buf peer_addr st =
     (case read_header buf of
        Inl rc \<Rightarrow>
          Some (False, server_log (Stderr (STR ''failed to parse header: %d'') [quiche_error_code rc]) st)
      | Inr info \<Rightarrow>
          do {
            (conn_io, st) \<leftarrow> admit api env config io_cid io_self new_h3_conn_io info peer_addr st;
            case conn_io of
              None \<Rightarrow> Some (True, st)
            | Some conn_io \<Rightarrow>
                do {
                  (conn_io, tr) \<leftarrow>
                    h3_process api h3 h3_config buf peer_addr (srv_local_addr st) conn_io (srv_trace st);
                  Some (True, st\<lparr>srv_h := store_at io_self conn_io (srv_h st), srv_trace := tr\<rparr>)
                }
          })"

definition h3_recv_cb ::
  "'c quiche_api \<Rightarrow> ('c, 'h) quiche_h3_api \<Rightarrow> environment \<Rightarrow> quiche_config \<Rightarrow> quiche_h3_config \<Rightarrow> recvfrom list
    \<Rightarrow> ('c, 'h) h3_server_state \<Rightarrow> (recvfrom list \<times> ('c, 'h) h3_server_state) option" where
  "h3_recv_cb api h3 env config h3_config =
     server_recv_cb (h3_recv_datagram api h3 env config h3_config) (h3_flush_egress api env) (is_closed api)
       (retire_conn api env)"

definition h3_timeout_cb ::
  "'c quiche_api \<Rightarrow> environment \<Rightarrow> nat \<Rightarrow> ('c, 'h) h3_server_state \<Rightarrow> ('c, 'h) h3_server_state option" where
  "h3_timeout_cb api env =
     server_timeout_cb io_self (on_timeout api) (h3_flush_egress api env) (is_closed api) (retire_conn api env)"

section \<open>The program\<close>

definition h3_server_config :: "config_call list" where
  "h3_server_config =
     [quiche_config_load_cert_chain_from_pem_file ''./cert.crt'',
      quiche_config_load_priv_key_from_pem_file ''./cert.key'',
      quiche_config_set_application_protos QUICHE_H3_APPLICATION_PROTOCOL,
      quiche_config_set_max_idle_timeout 5000,
      quiche_config_set_max_recv_udp_payload_size MAX_DATAGRAM_SIZE,
      quiche_config_set_max_send_udp_payload_size MAX_DATAGRAM_SIZE,
      quiche_config_set_initial_max_data 10000000,
      quiche_config_set_initial_max_stream_data_bidi_local 1000000,
      quiche_config_set_initial_max_stream_data_bidi_remote 1000000,
      quiche_config_set_initial_max_stream_data_uni 1000000,
      quiche_config_set_initial_max_streams_bidi 100,
      quiche_config_set_initial_max_streams_uni 100,
      quiche_config_set_disable_active_migration True,
      quiche_config_set_cc_algorithm QUICHE_CC_RENO]"

text \<open>\<open>h3_new\<close> is what \<open>quiche_h3_config_new\<close> gives: an object with no calls made on it, or \<open>NULL\<close>.\<close>

definition h3_main_setup ::
  "startup \<Rightarrow> quiche_h3_config option \<Rightarrow> (int \<times> event) + (quiche_config \<times> quiche_h3_config \<times> ('c, 'h) h3_server_state)" where
  "h3_main_setup su h3_new =
     (case open_server su of
        Inl r \<Rightarrow> Inl r
      | Inr (local, config) \<Rightarrow>
          (case h3_new of
             None \<Rightarrow> Inl (- 1, Stderr (STR ''failed to create HTTP/3 config'') [])
           | Some h3_config \<Rightarrow>
               Inr (config_apply h3_server_config config, h3_config,
                 \<lparr>srv_sock = su_socket su, srv_local_addr = local, srv_h = [], srv_next = 0, srv_trace = []\<rparr>)))"

definition h3_main ::
  "'c quiche_api \<Rightarrow> ('c, 'h) quiche_h3_api \<Rightarrow> environment \<Rightarrow> startup \<Rightarrow> quiche_h3_config option \<Rightarrow> loop_event list
    \<Rightarrow> ((int \<times> event) + ('c, 'h) h3_server_state) option" where
  "h3_main api h3 env su h3_new evs =
     (case h3_main_setup su h3_new of
        Inl r \<Rightarrow> Some (Inl r)
      | Inr (config, h3_config, st) \<Rightarrow>
          map_option Inr (run_events (h3_recv_cb api h3 env config h3_config) (h3_timeout_cb api env) evs st))"

section \<open>The contract holds\<close>

text \<open>What the engine and the system must do for every callback to return.\<close>

definition h3_runs :: "'c quiche_api \<Rightarrow> ('c, 'h) quiche_h3_api \<Rightarrow> environment \<Rightarrow> bool" where
  "h3_runs api h3 env \<longleftrightarrow> (\<exists>m. send_ends api m) \<and> (\<exists>m. poll_ends api h3 m) \<and> env_ok env"

lemma handle_event_ok: "poll_ends api h3 m \<Longrightarrow> handler_ok m (handle_event h3)"
proof -
  assume p: "poll_ends api h3 m"
  have "\<exists>h' c' tr'. handle_event h3 s ev h c tr = Some (h', c', tr') \<and> m h' c' \<le> m h c" for s ev h c tr
  proof (cases "h3_event_type ev")
    case QUICHE_H3_EVENT_HEADERS
    obtain r1 h1 c1 where 1: "quiche_h3_send_response h3 h c s (take 3 response_headers) False = (r1, h1, c1)"
      by (metis prod_cases3)
    obtain r2 h2 c2 where 2: "quiche_h3_send_body h3 h1 c1 s (take 5 response_body) True = (r2, h2, c2)"
      by (metis prod_cases3)
    have "m h2 c2 \<le> m h c" using poll_endsD(2) [OF p 1] poll_endsD(3) [OF p 2] by simp
    then show ?thesis using QUICHE_H3_EVENT_HEADERS 1 2 by (simp add: handle_event_def for_each_header_eq)
  qed (simp_all add: handle_event_def)
  then show ?thesis by (simp add: handler_ok_def)
qed

text \<open>What the handler reports: the headers of the event, or that data or a GOAWAY has come.\<close>

fun event_log :: "u64 \<times> quiche_h3_event \<Rightarrow> history" where
  "event_log (s, ev) =
     (case h3_event_type ev of
        QUICHE_H3_EVENT_HEADERS \<Rightarrow> map header_line (h3_event_headers ev)
      | QUICHE_H3_EVENT_DATA \<Rightarrow> [Stderr (STR ''got HTTP data'') []]
      | QUICHE_H3_EVENT_GOAWAY \<Rightarrow> [Stderr (STR ''got GOAWAY'') []]
      | _ \<Rightarrow> [])"

lemma handle_event_trace:
  "handle_event h3 s ev h c tr = Some (h', c', tr') \<Longrightarrow> tr' = rev (event_log (s, ev)) @ tr"
  by (cases "h3_event_type ev") (auto simp: handle_event_def for_each_header_eq split: prod.splits)

lemma polled_trace:
  "polled h3 (handle_event h3) h c tr evs r \<Longrightarrow> snd (snd r) = rev (concat (map event_log evs)) @ tr"
  by (induction rule: polled.induct) (simp_all add: handle_event_trace del: event_log.simps)

lemma event_log_io: "e \<in> set (event_log x) \<Longrightarrow> io_event e \<and> event_ok s e \<and> sent_of e = []"
  by (cases x) (auto simp: header_line_def split: quiche_h3_event_type.splits)

lemma poll_loop_trace:
  assumes "poll_loop h3 (handle_event h3) h c tr = Some (h', c', tr')"
  shows "extends io_event tr tr'" and "extends (event_ok s) tr tr'" and "sent tr' = sent tr"
proof -
  obtain evs where "polled h3 (handle_event h3) h c tr evs (h', c', tr')"
    using assms by (auto simp: poll_loop_iff)
  then have tr': "tr' = rev (concat (map event_log evs)) @ tr" using polled_trace by fastforce
  then show "extends io_event tr tr'" and "extends (event_ok s) tr tr'"
    by (auto simp: extends_def dest: event_log_io)
  have "\<forall>e \<in> set (rev (concat (map event_log evs))). sent_of e = []" by (auto dest: event_log_io)
  then have "sent (rev (concat (map event_log evs))) = []" by (auto simp: sent_def)
  then show "sent tr' = sent tr" by (simp add: tr' sent_def)
qed

text \<open>The ways to treat a datagram of a connection.\<close>

lemma h3_process_cases:
  assumes "h3_process api h3 g buf a l x tr = Some (x', tr')"
  obtains (reported) c e where "x' = x\<lparr>io_conn := c\<rparr>" "tr' = Stderr e [] # tr \<or> (\<exists>n. tr' = Stderr e [n] # tr)
      \<or> (\<exists>n d. tr' = Stderr e [] # Stderr d [n] # tr)"
  | (polled) c c' h h' n where "x' = x\<lparr>io_conn := c', io_http3 := Some h'\<rparr>"
      "poll_loop h3 (handle_event h3) h c (Stderr (STR ''recv %zd bytes'') [n] # tr) = Some (h', c', tr')"
proof -
  obtain r c where r: "quiche_conn_recv api (io_conn x) buf \<lparr>recv_from = a, recv_to = l\<rparr> = (r, c)" by fastforce
  show thesis
  proof (cases r)
    case (Inl e)
    then show thesis using assms r by (intro reported [of c]) (auto simp: h3_process_def)
  next
    case (Inr n)
    obtain ho c1 where e: "ensure_http3 h3 g (io_http3 x) c = (ho, c1)" by fastforce
    show thesis
    proof (cases "quiche_conn_is_established api c")
      case False
      then show thesis using assms r Inr by (intro reported [of c]) (auto simp: h3_process_def)
    next
      case True
      show thesis
      proof (cases ho)
        case None
        then show thesis using assms r Inr True e by (intro reported [of c1]) (auto simp: h3_process_def)
      next
        case (Some h)
        then obtain h' c' where p: "poll_loop h3 (handle_event h3) h c1 (Stderr (STR ''recv %zd bytes'') [int n] # tr) =
            Some (h', c', tr')" and x': "x' = x\<lparr>io_conn := c', io_http3 := Some h'\<rparr>"
          using assms r Inr True e by (auto simp: h3_process_def Let_def bind_eq_Some_conv)
        show thesis by (rule polled [OF x' p])
      qed
    qed
  qed
qed

lemma h3_process_frame:
  assumes "h3_process api h3 g buf a l x tr = Some (x', tr')"
  shows "io_self x' = io_self x" "io_cid x' = io_cid x" "io_sock x' = io_sock x"
    and "extends io_event tr tr'" and "extends (event_ok s) tr tr'" and "sent tr' = sent tr"
proof -
  have "io_self x' = io_self x \<and> io_cid x' = io_cid x \<and> io_sock x' = io_sock x
      \<and> extends io_event tr tr' \<and> extends (event_ok s) tr tr' \<and> sent tr' = sent tr"
    using assms
  proof (cases rule: h3_process_cases)
    case (reported c e)
    then show ?thesis by (auto intro!: extends_intros)
  next
    case (polled c c' h h' n)
    note t = poll_loop_trace [OF polled(2)]
    have "extends io_event tr (Stderr (STR ''recv %zd bytes'') [n] # tr)"
      "extends (event_ok s) tr (Stderr (STR ''recv %zd bytes'') [n] # tr)" by (auto intro: extends_intros)
    then show ?thesis using t polled(1) by (auto intro: extends_trans)
  qed
  then show "io_self x' = io_self x" "io_cid x' = io_cid x" "io_sock x' = io_sock x"
    and "extends io_event tr tr'" and "extends (event_ok s) tr tr'" and "sent tr' = sent tr" by auto
qed

lemma h3_process_total:
  assumes "poll_ends api h3 m"
  shows "\<exists>r. h3_process api h3 g buf a l x tr = Some r"
proof -
  obtain r c where r: "quiche_conn_recv api (io_conn x) buf \<lparr>recv_from = a, recv_to = l\<rparr> = (r, c)" by fastforce
  obtain ho c1 where e: "ensure_http3 h3 g (io_http3 x) c = (ho, c1)" by fastforce
  have p: "\<exists>h' c' t'. poll_loop h3 (handle_event h3) h c t = Some (h', c', t')" for h c t
    using poll_loop_total [OF assms handle_event_ok [OF assms], of h c t] by (metis prod_cases3)
  show ?thesis
  proof (cases r)
    case (Inr n)
    show ?thesis
    proof (cases ho)
      case (Some h)
      obtain h' c' t' where "poll_loop h3 (handle_event h3) h c1 (Stderr (STR ''recv %zd bytes'') [int n] # tr) = Some (h', c', t')"
        using p by blast
      then show ?thesis using r Inr e Some by (simp add: h3_process_def Let_def)
    qed (use r Inr e in \<open>simp add: h3_process_def Let_def\<close>)
  qed (use r in \<open>simp add: h3_process_def\<close>)
qed

interpretation h3_entry: server_entry io_cid io_self io_sock new_h3_conn_io
  by unfold_locales (simp_all add: new_h3_conn_io_def)

lemma h3_recv_datagram_total:
  assumes "h3_runs api h3 env" and "length a \<le> 128"
  shows "\<exists>r. h3_recv_datagram api h3 env config g buf a st = Some r"
proof (cases "read_header buf")
  case (Inr info)
  obtain m where m: "poll_ends api h3 m" and env: "env_ok env" using assms(1) by (auto simp: h3_runs_def)
  obtain r st1 where ad: "admit api env config io_cid io_self new_h3_conn_io info a st = Some (r, st1)"
    using h3_entry.admit_total [OF env assms(2) read_header_sizes(2) [OF Inr], of api config st] by auto
  show ?thesis
  proof (cases r)
    case (Some x)
    obtain x' tr where "h3_process api h3 g buf a (srv_local_addr st1) x (srv_trace st1) = Some (x', tr)"
      using h3_process_total [OF m, of g buf a "srv_local_addr st1" x "srv_trace st1"] by fastforce
    then show ?thesis by (simp add: h3_recv_datagram_def Inr ad Some)
  qed (simp add: h3_recv_datagram_def Inr ad)
qed (simp add: h3_recv_datagram_def)

lemma h3_recv_datagram_ok:
  assumes "h3_recv_datagram api h3 env config g buf a st = Some (b, st')" and "env_ok env" and "length a \<le> 128"
    and ok: "server_ok io_cid io_self io_sock st"
  shows "server_ok io_cid io_self io_sock st' \<and> server_frame st st'"
proof (cases "read_header buf")
  case (Inl e)
  then show ?thesis using assms(1) ok by (auto simp: h3_recv_datagram_def intro!: server_ok_log server_frame_log)
next
  case (Inr info)
  obtain r st1 where ad: "admit api env config io_cid io_self new_h3_conn_io info a st = Some (r, st1)"
    using assms(1) by (auto simp: h3_recv_datagram_def Inr bind_eq_Some_conv)
  have ok1: "server_ok io_cid io_self io_sock st1 \<and> server_frame st st1 \<and> (\<forall>x. r = Some x \<longrightarrow> x \<in> set (srv_h st1))"
    by (rule h3_entry.admit_ok [OF ad assms(2,3) read_header_sizes(1,2) [OF Inr] ok])
  show ?thesis
  proof (cases r)
    case None
    then show ?thesis using assms(1) ok1 by (simp add: h3_recv_datagram_def Inr ad)
  next
    case (Some x)
    obtain x' tr where pr: "h3_process api h3 g buf a (srv_local_addr st1) x (srv_trace st1) = Some (x', tr)"
      and st': "st' = st1\<lparr>srv_h := store_at io_self x' (srv_h st1), srv_trace := tr\<rparr>"
      using assms(1) by (auto simp: h3_recv_datagram_def Inr ad Some bind_eq_Some_conv)
    have "server_ok io_cid io_self io_sock (st1\<lparr>srv_h := store_at io_self x' (srv_h st1)\<rparr>)"
      by (rule h3_entry.ok_store) (use ok1 Some h3_process_frame [OF pr] in auto)
    then have "server_ok io_cid io_self io_sock st'"
      unfolding st' using server_ok_trace [of io_cid io_self io_sock "st1\<lparr>srv_h := store_at io_self x' (srv_h st1)\<rparr>" tr]
        h3_process_frame(4) [OF pr] by simp
    moreover have "server_frame st1 st'"
      using h3_process_frame(5) [OF pr] by (simp add: st' server_frame_def)
    ultimately show ?thesis using ok1 server_frame_trans by blast
  qed
qed

lemma h3_recv_datagram_keys:
  assumes "h3_recv_datagram api h3 env config g buf a st = Some (b, st')" and "env_ok env" and "length a \<le> 128"
    and ok: "server_ok io_cid io_self io_sock st" and "cid_ok buf" and "keys_distinct io_cid st"
  shows "keys_distinct io_cid st'"
proof (cases "read_header buf")
  case (Inl e)
  then show ?thesis using assms(1,6) by (auto simp: h3_recv_datagram_def keys_distinct_def)
next
  case (Inr info)
  obtain r st1 where ad: "admit api env config io_cid io_self new_h3_conn_io info a st = Some (r, st1)"
    using assms(1) by (auto simp: h3_recv_datagram_def Inr bind_eq_Some_conv)
  note sz = read_header_sizes(1,2) [OF Inr]
  have ok1: "server_ok io_cid io_self io_sock st1" "\<And>x. r = Some x \<Longrightarrow> x \<in> set (srv_h st1)"
    using h3_entry.admit_ok [OF ad assms(2,3) sz ok] by auto
  have k1: "keys_distinct io_cid st1"
    by (rule h3_entry.admit_keys [OF ad assms(2,3) sz assms(6)]) (use assms(5) Inr in \<open>simp add: cid_ok_def\<close>)
  show ?thesis
  proof (cases r)
    case None
    then show ?thesis using assms(1) k1 by (simp add: h3_recv_datagram_def Inr ad)
  next
    case (Some x)
    obtain x' tr where pr: "h3_process api h3 g buf a (srv_local_addr st1) x (srv_trace st1) = Some (x', tr)"
      and "srv_h st' = store_at io_self x' (srv_h st1)"
      using assms(1) by (auto simp: h3_recv_datagram_def Inr ad Some bind_eq_Some_conv)
    then show ?thesis using h3_entry.keys_store [OF ok1(1) k1 ok1(2) [OF Some] h3_process_frame(1,2) [OF pr]]
      by (simp add: keys_distinct_def)
  qed
qed

lemma h3_runs_runs: "h3_runs api h3 env \<Longrightarrow> runs api env"
  by (auto simp: h3_runs_def runs_def)

interpretation h3_srv: server_program io_cid io_self io_sock "h3_flush_egress api env" "is_closed api"
    "retire_conn api env" "send_fits api" "h3_runs api h3 env" "h3_recv_datagram api h3 env config h3_config" "on_timeout api"
  for api :: "'c quiche_api" and h3 :: "('c, 'h) quiche_h3_api" and env :: environment
    and config :: quiche_config and h3_config :: quiche_h3_config
proof (intro server_program.intro server_program_axioms.intro)
  show "endpoint io_cid io_self io_sock
      (h3_flush_egress api env :: ('c, 'h) h3_conn_io \<Rightarrow> history \<Rightarrow> (('c, 'h) h3_conn_io \<times> history) option)
      (retire_conn api env) (send_fits api) (h3_runs api h3 env)"
    unfolding h3_flush_egress_def
  proof unfold_locales
    show "\<exists>r. flush_conn api env (\<lambda>conn_io send_info. io_peer_addr conn_io) x tr = Some r" if "h3_runs api h3 env"
      for x :: "('c, 'h) h3_conn_io" and tr
      using h3_runs_runs [OF that] by (rule flush_conn_runs)
  qed (auto simp: conn.retire_timers conn.retire_events dest: conn.flush_frame conn.flush_timers
        intro: conn.flush_events)
next
  fix a :: sockaddr and d and st :: "('c, 'h) h3_server_state"
  assume "h3_runs api h3 env" and "length a \<le> 128"
  then show "\<exists>r. h3_recv_datagram api h3 env config h3_config d a st = Some r"
    by (rule h3_recv_datagram_total)
next
  fix d and a :: sockaddr and st st' :: "('c, 'h) h3_server_state" and b
  assume r: "h3_recv_datagram api h3 env config h3_config d a st = Some (b, st')" "length a \<le> 128"
    "h3_runs api h3 env" "server_ok io_cid io_self io_sock st"
  then have env: "env_ok env" by (simp add: h3_runs_def)
  from h3_recv_datagram_ok [OF r(1) env r(2,4)]
  show "server_ok io_cid io_self io_sock st' \<and> server_frame st st'" .
  show "keys_distinct io_cid st'" if "cid_ok d" "keys_distinct io_cid st"
    by (rule h3_recv_datagram_keys [OF r(1) env r(2,4) that])
qed (rule on_timeout_frame)

end
