(* ===== verification/Http3Props.thy ===== *)
theory Http3Props
  imports ServerProps Http3Server
begin

text \<open>
  What \<open>http3-server.c\<close> guarantees: the safety of every run, the answers it gives to requests, and what
  a datagram that cannot be read does to it, unlike to \<open>server.c\<close>.
\<close>

section \<open>A small HTTP/3 engine\<close>

text \<open>The HTTP/3 connection of the witnesses: the events it still has to deliver.\<close>

definition demo_request :: quiche_h3_event where
  "demo_request = \<lparr>h3_event_type = QUICHE_H3_EVENT_HEADERS,
     h3_event_headers = [\<lparr>h3_name = ascii '':method'', h3_value = ascii ''GET''\<rparr>]\<rparr>"

definition demo_h3_api :: "(demo_conn, (u64 \<times> quiche_h3_event) list) quiche_h3_api" where
  "demo_h3_api =
     \<lparr>quiche_h3_conn_new_with_transport = (\<lambda>c g. (Some [(0, demo_request)], c)),
      quiche_h3_conn_poll = (\<lambda>h c. case h of [] \<Rightarrow> (Inl QUICHE_H3_ERR_DONE, [], c) | e # es \<Rightarrow> (Inr e, es, c)),
      quiche_h3_peer_settings = (\<lambda>h. Some [(6, 100)]),
      quiche_h3_send_request = (\<lambda>h c hs fin. (Inr 0, h, c)),
      quiche_h3_send_response = (\<lambda>h c s hs fin. (Inr (), h, c)),
      quiche_h3_send_response_with_priority = (\<lambda>h c s hs p fin. (Inr (), h, c)),
      quiche_h3_send_additional_headers = (\<lambda>h c s hs t fin. (Inr (), h, c)),
      quiche_h3_send_body = (\<lambda>h c s b fin. (Inr (length b), h, c)),
      quiche_h3_recv_body = (\<lambda>h c s n. (Inl QUICHE_H3_ERR_DONE, h, c))\<rparr>"

lemma demo_h3_api_simps [simp]:
  "quiche_h3_conn_new_with_transport demo_h3_api c g = (Some [(0, demo_request)], c)"
  "quiche_h3_conn_poll demo_h3_api h c = (case h of [] \<Rightarrow> (Inl QUICHE_H3_ERR_DONE, [], c) | e # es \<Rightarrow> (Inr e, es, c))"
  "quiche_h3_peer_settings demo_h3_api h = Some [(6, 100)]"
  "quiche_h3_send_request demo_h3_api h c hs fin = (Inr 0, h, c)"
  "quiche_h3_send_response demo_h3_api h c s hs fin = (Inr (), h, c)"
  "quiche_h3_send_body demo_h3_api h c s b fin = (Inr (length b), h, c)"
  "quiche_h3_recv_body demo_h3_api h c s n = (Inl QUICHE_H3_ERR_DONE, h, c)"
  by (simp_all add: demo_h3_api_def)

lemma demo_poll_ends: "poll_ends demo_api demo_h3_api (\<lambda>h c. length h)"
  by (auto simp: poll_ends_def split: list.splits)

lemma demo_h3_runs: "h3_runs demo_api demo_h3_api demo_env"
  using demo_send_ends demo_poll_ends demo_env_ok by (auto simp: h3_runs_def)

section \<open>Runs\<close>

text \<open>
  C9: In every run of the HTTP/3 server's event loop, whatever datagrams arrive from addresses that fit:
  the connections have keys of 16 bytes and are on the server's socket, every running timer belongs to one
  of them, none was freed; and everything that can happen next has a defined outcome.  As long as every
  datagram with a token has a connection ID of the local length, the keys are distinct.
\<close>

theorem h3_server_safe:
  assumes "run_of (h3_recv_cb api h3 env config h3_config) (h3_timeout_cb api env) st0 evs st"
    and "h3_runs api h3 env" and "server_ok io_cid io_self io_sock st0" and "due ev st"
  shows "(keys_distinct io_cid st0 \<and> (\<forall>ev \<in> set evs. local_ids ev) \<longrightarrow> distinct (map io_cid (srv_h st)))
    \<and> (\<forall>x \<in> set (srv_h st). length (io_cid x) = 16 \<and> io_sock x = srv_sock st)
    \<and> armed (srv_trace st) \<subseteq> io_self ` set (srv_h st) \<and> set (freed (srv_trace st)) \<inter> io_self ` set (srv_h st) = {}
    \<and> (\<exists>st'. dispatch (h3_recv_cb api h3 env config h3_config) (h3_timeout_cb api env) ev st = Some st')"
proof -
  note run = run_of_reachable [OF assms(1)]
  have "server_ok io_cid io_self io_sock st"
    using h3_srv.reachable_ok [of api h3 env config h3_config] run assms(2,3)
    unfolding h3_recv_cb_def h3_timeout_cb_def by blast
  moreover have "keys_distinct io_cid st" if "keys_distinct io_cid st0" "\<forall>ev \<in> set evs. local_ids ev"
    using h3_srv.run_of_keys [of api h3 env config h3_config] assms(1-3) that
    unfolding h3_recv_cb_def h3_timeout_cb_def by blast
  moreover have "\<exists>st'. dispatch (h3_recv_cb api h3 env config h3_config) (h3_timeout_cb api env) ev st = Some st'"
    using h3_srv.reachable_progress [of api h3 env config h3_config] run assms(2-4)
    unfolding h3_recv_cb_def h3_timeout_cb_def by blast
  ultimately show ?thesis by (simp add: server_ok_def keys_distinct_def LOCAL_CONN_ID_LEN_def)
qed

definition demo_h3_server :: "(demo_conn, (u64 \<times> quiche_h3_event) list) h3_server_state" where
  "demo_h3_server = \<lparr>srv_sock = 3, srv_local_addr = [9, 9], srv_h = [], srv_next = 0, srv_trace = []\<rparr>"

lemma demo_h3_server_ok: "server_ok io_cid io_self io_sock demo_h3_server"
  unfolding demo_h3_server_def by (rule server_ok_empty)

theorem h3_server_safe_witness:
  "\<exists>st'. dispatch (h3_recv_cb demo_api demo_h3_api demo_env demo_config []) (h3_timeout_cb demo_api demo_env)
     (Readable [Datagram demo_token_dgram [4, 4]]) demo_h3_server = Some st'"
  using h3_server_safe [OF run_start demo_h3_runs demo_h3_server_ok demo_due] by blast

section \<open>Answers\<close>

text \<open>
  An engine that keeps a record of the calls that answer a request, and otherwise behaves as the one
  it is made of.
\<close>

datatype answer = Response u64 "quiche_h3_header list" bool | Body u64 bytes bool

definition recording :: "('c, 'h) quiche_h3_api \<Rightarrow> ('c, 'h \<times> answer list) quiche_h3_api" where
  "recording h3 =
     \<lparr>quiche_h3_conn_new_with_transport = (\<lambda>c g. case quiche_h3_conn_new_with_transport h3 c g of
        (h, c) \<Rightarrow> (map_option (\<lambda>h. (h, [])) h, c)),
      quiche_h3_conn_poll = (\<lambda>(h, l) c. case quiche_h3_conn_poll h3 h c of (r, h, c) \<Rightarrow> (r, (h, l), c)),
      quiche_h3_peer_settings = (\<lambda>(h, l). quiche_h3_peer_settings h3 h),
      quiche_h3_send_request = (\<lambda>(h, l) c hs fin. case quiche_h3_send_request h3 h c hs fin of (r, h, c) \<Rightarrow> (r, (h, l), c)),
      quiche_h3_send_response = (\<lambda>(h, l) c s hs fin. case quiche_h3_send_response h3 h c s hs fin of
        (r, h, c) \<Rightarrow> (r, (h, l @ [Response s hs fin]), c)),
      quiche_h3_send_response_with_priority = (\<lambda>(h, l) c s hs p fin.
        case quiche_h3_send_response_with_priority h3 h c s hs p fin of (r, h, c) \<Rightarrow> (r, (h, l @ [Response s hs fin]), c)),
      quiche_h3_send_additional_headers = (\<lambda>(h, l) c s hs t fin.
        case quiche_h3_send_additional_headers h3 h c s hs t fin of (r, h, c) \<Rightarrow> (r, (h, l @ [Response s hs fin]), c)),
      quiche_h3_send_body = (\<lambda>(h, l) c s b fin. case quiche_h3_send_body h3 h c s b fin of
        (r, h, c) \<Rightarrow> (r, (h, l @ [Body s b fin]), c)),
      quiche_h3_recv_body = (\<lambda>(h, l) c s n. case quiche_h3_recv_body h3 h c s n of (r, h, c) \<Rightarrow> (r, (h, l), c))\<rparr>"

definition answers :: "(u64 \<times> quiche_h3_event) list \<Rightarrow> answer list" where
  "answers evs = concat (map (\<lambda>(s, ev). if h3_event_type ev = QUICHE_H3_EVENT_HEADERS
     then [Response s response_headers False, Body s response_body True] else []) evs)"

lemma answers_simps [simp]:
  "answers [] = []"
  "answers ((s, ev) # evs) = (if h3_event_type ev = QUICHE_H3_EVENT_HEADERS
     then [Response s response_headers False, Body s response_body True] else []) @ answers evs"
  by (simp_all add: answers_def)

lemma handle_event_answers:
  assumes "handle_event (recording h3) s ev (h, l) c tr = Some ((h', l'), c', tr')"
  shows "l' = l @ answers [(s, ev)]"
  using assms
  by (cases "h3_event_type ev")
    (auto simp: handle_event_def for_each_header_eq recording_def response_headers_def response_body_def ascii_def
      split: prod.splits)

lemma polled_answers:
  "polled (recording h3) (handle_event (recording h3)) hl c tr evs r \<Longrightarrow> snd (fst r) = snd hl @ answers evs"
proof (induction rule: polled.induct)
  case (polled_end hl c e h' c' st)
  then show ?case by (auto simp: recording_def split: prod.splits)
next
  case (polled_event hl c s ev h1 c1 st h2 c2 st2 evs r)
  have "snd h1 = snd hl" using polled_event.hyps(1) by (auto simp: recording_def split: prod.splits)
  moreover have "snd h2 = snd h1 @ answers [(s, ev)]"
    using handle_event_answers [of h3 s ev "fst h1" "snd h1" c1 st "fst h2" "snd h2" c2 st2] polled_event.hyps(2) by simp
  ultimately show ?case using polled_event.IH by simp
qed

text \<open>
  C10: Every request is answered exactly once: for the events the engine delivers, in their order, the
  server calls the engine with one response and one body on the stream of each \<open>HEADERS\<close> event, ending the
  stream with the body, and with nothing for other events; and it reports every header of every such event
  in order.
\<close>

theorem requests_answered:
  assumes "poll_loop (recording h3) (handle_event (recording h3)) (h, l) c tr = Some ((h', l'), c', tr')"
  shows "\<exists>evs. polled (recording h3) (handle_event (recording h3)) (h, l) c tr evs ((h', l'), c', tr')
    \<and> l' = l @ answers evs \<and> tr' = rev (concat (map event_log evs)) @ tr"
proof -
  obtain evs where p: "polled (recording h3) (handle_event (recording h3)) (h, l) c tr evs ((h', l'), c', tr')"
    using assms by (auto simp: poll_loop_iff)
  with polled_answers [OF p] polled_trace [OF p] show ?thesis by auto
qed

theorem requests_answered_witness:
  "\<exists>evs. [Response 0 response_headers False, Body 0 response_body True] = answers evs"
proof -
  let ?c = "\<lparr>demo_out = [], demo_streams = [], demo_closed = False\<rparr>"
  have "poll_loop (recording demo_h3_api) (handle_event (recording demo_h3_api)) ([(0, demo_request)], []) ?c [] =
      Some (([], [Response 0 response_headers False, Body 0 response_body True]), ?c, rev (event_log (0, demo_request)))"
    by (subst poll_loop.simps, simp add: recording_def handle_event_def demo_request_def for_each_header_eq
        response_headers_def response_body_def ascii_def, subst poll_loop.simps, simp)
  from requests_answered [OF this] show ?thesis by auto
qed

section \<open>Datagrams that cannot be read\<close>

text \<open>
  C19: A datagram whose header cannot be read ends the HTTP/3 server's callback: what was received after it is
  not read, and no connection is flushed, whatever was received before.  \<open>server.c\<close> goes on as if it had not
  come.
\<close>

theorem unreadable_datagram:
  assumes "read_header (take 65535 buf) = Inl e"
  shows "h3_recv_cb api h3 env config h3_config (Datagram buf a # rest) st =
      Some (rest, server_log (Stderr (STR ''failed to parse header: %d'') [quiche_error_code e]) st)
    \<and> recv_cb api env config (Datagram buf a # rest) st' =
      recv_cb api env config rest (server_log (Stderr (STR ''failed to parse header: %d'') [quiche_error_code e]) st')"
  using assms
  by (simp_all add: h3_recv_cb_def recv_cb_def server_recv_cb_def h3_recv_datagram_def recv_datagram_def)

theorem unreadable_datagram_witness:
  "h3_recv_cb demo_api demo_h3_api demo_env demo_config [] [Datagram [0xc0] [4, 4], Datagram demo_token_dgram [4, 4]] demo_h3_server =
     Some ([Datagram demo_token_dgram [4, 4]],
       server_log (Stderr (STR ''failed to parse header: %d'') [- 2]) demo_h3_server)"
proof -
  have "read_header [0xc0] = Inl QUICHE_ERR_BUFFER_TOO_SHORT" by code_simp
  then have "read_header (take 65535 [0xc0]) = Inl QUICHE_ERR_BUFFER_TOO_SHORT" by simp
  from unreadable_datagram [OF this, THEN conjunct1] show ?thesis by simp
qed

end
