(* ===== verification/ClientIo.thy ===== *)
theory ClientIo
  imports Egress ServerLoop H3Poll
begin

text \<open>
  What \<open>client.c\<close> and \<open>http3-client.c\<close> have in common: the state of the one connection, reading
  datagrams, flushing, the timeout, setting the connection up, and the event loop, which a callback
  ends by \<open>ev_break\<close>.  The HTTP/3 client has more fields, so the operations are on the record with more
  fields to come.
\<close>

section \<open>State\<close>

text \<open>
  \<open>struct conn_io\<close> with the history, and the static variable \<open>req_sent\<close> of \<open>recv_cb\<close>.  There is one
  connection: its address is 0.
\<close>

record 'c client =
  cl_repeat :: u64
  cl_sock :: int
  cl_local_addr :: sockaddr
  cl_conn :: 'c
  cl_req_sent :: bool
  cl_trace :: history

definition client_log :: "event \<Rightarrow> ('c, 'x) client_scheme \<Rightarrow> ('c, 'x) client_scheme" where
  "client_log e st = st\<lparr>cl_trace := e # cl_trace st\<rparr>"

section \<open>Operations\<close>

definition client_flush ::
  "'c quiche_api \<Rightarrow> environment \<Rightarrow> ('c, 'x) client_scheme \<Rightarrow> ('c, 'x) client_scheme option" where
  "client_flush api env st =
     do {
       (done, conn, tr) \<leftarrow> send_loop api env send_to (cl_sock st) (cl_conn st) (cl_trace st);
       let st = st\<lparr>cl_conn := conn, cl_trace := tr\<rparr>;
       if \<not> done then Some st
       else
         let t = quiche_conn_timeout_as_nanos api (cl_conn st)
         in Some (client_log (Timer_again 0 t) (st\<lparr>cl_repeat := t\<rparr>))
     }"

text \<open>
  The loop of \<open>recv_cb\<close> over what \<open>recvfrom\<close> gives, up to \<open>done reading\<close>; \<open>failed\<close> is the report of a
  packet that the engine refuses.  \<open>False\<close> is the return after an error of \<open>recvfrom\<close>.
\<close>

fun client_read ::
  "'c quiche_api \<Rightarrow> (quiche_error \<Rightarrow> event) \<Rightarrow> recvfrom list \<Rightarrow> ('c, 'x) client_scheme
    \<Rightarrow> bool \<times> recvfrom list \<times> ('c, 'x) client_scheme" where
  "client_read api failed [] st = (True, [], client_log (Stderr (STR ''recv would block'') []) st)"
| "client_read api failed (Would_block # rest) st =
     (True, rest, client_log (Stderr (STR ''recv would block'') []) st)"
| "client_read api failed (Recv_error # rest) st = (False, rest, client_log (perror (STR ''failed to read'')) st)"
| "client_read api failed (Datagram buf peer_addr # rest) st =
     (let recv_info = \<lparr>recv_from = peer_addr, recv_to = cl_local_addr st\<rparr> in
      case quiche_conn_recv api (cl_conn st) (take 65535 buf) recv_info of
        (Inl e, conn) \<Rightarrow> client_read api failed rest (client_log (failed e) (st\<lparr>cl_conn := conn\<rparr>))
      | (Inr done, conn) \<Rightarrow>
          client_read api failed rest (client_log (Stderr (STR ''recv %zd bytes'') [int done]) (st\<lparr>cl_conn := conn\<rparr>)))"

text \<open>\<open>quiche_conn_close\<close> as both programs call it.\<close>

definition close_conn :: "'c quiche_api \<Rightarrow> 'c \<Rightarrow> history \<Rightarrow> 'c \<times> history" where
  "close_conn api conn tr =
     (case quiche_conn_close api conn True 0 [] of
        (Inl e, conn) \<Rightarrow> (conn, Stderr (STR ''failed to close connection'') [] # tr)
      | (Inr _, conn) \<Rightarrow> (conn, tr))"

text \<open>
  \<open>recv_cb\<close>: \<open>request\<close> sends the request when it is time, and gives \<open>False\<close> to return; \<open>receive\<close> treats
  what has come on the streams of an established connection.  The first component of the result is
  whether the loop is ended.
\<close>

definition client_recv ::
  "'c quiche_api \<Rightarrow> environment \<Rightarrow> (quiche_error \<Rightarrow> event)
    \<Rightarrow> (('c, 'x) client_scheme \<Rightarrow> bool \<times> ('c, 'x) client_scheme)
    \<Rightarrow> (('c, 'x) client_scheme \<Rightarrow> ('c, 'x) client_scheme option)
    \<Rightarrow> recvfrom list \<Rightarrow> ('c, 'x) client_scheme \<Rightarrow> (bool \<times> recvfrom list \<times> ('c, 'x) client_scheme) option" where
  "client_recv api env failed request receive inbox st =
     (case client_read api failed inbox st of
        (False, rest, st) \<Rightarrow> Some (False, rest, st)
      | (True, rest, st) \<Rightarrow>
          let st = client_log (Stderr (STR ''done reading'') []) st in
          if quiche_conn_is_closed api (cl_conn st)
          then Some (True, rest, client_log Ev_break (client_log (Stderr (STR ''connection closed'') []) st))
          else (case (if quiche_conn_is_established api (cl_conn st) \<and> \<not> cl_req_sent st then request st else (True, st)) of
              (False, st) \<Rightarrow> Some (False, rest, st)
            | (True, st) \<Rightarrow>
                do {
                  st \<leftarrow> (if quiche_conn_is_established api (cl_conn st) then receive st else Some st);
                  st \<leftarrow> client_flush api env st;
                  Some (False, rest, st)
                }))"

definition client_timeout_cb ::
  "'c quiche_api \<Rightarrow> environment \<Rightarrow> ('c, 'x) client_scheme \<Rightarrow> (bool \<times> ('c, 'x) client_scheme) option" where
  "client_timeout_cb api env st =
     do {
       let st = client_log (Stderr (STR ''timeout'') []) (st\<lparr>cl_conn := quiche_conn_on_timeout api (cl_conn st)\<rparr>);
       st \<leftarrow> client_flush api env st;
       if quiche_conn_is_closed api (cl_conn st) then
         let stats = quiche_conn_stats api (cl_conn st);
             rtt = (case quiche_conn_path_stats api (cl_conn st) 0 of
                      Inr ps \<Rightarrow> uint (path_rtt ps) | Inl _ \<Rightarrow> int (be_nat (env_stack env (cl_trace st) 8)));
             st = client_log (Stderr (STR ''connection closed, recv=%zu sent=%zu lost=%zu rtt=%luns'')
                    [int (stats_recv stats), int (stats_sent stats), int (stats_lost stats), rtt]) st
         in Some (True, client_log Ev_break st)
       else Some (False, st)
     }"

section \<open>Starting up\<close>

text \<open>What the calls of \<open>main\<close> give; \<open>cs_keylog\<close> is whether \<open>SSLKEYLOGFILE\<close> is set.\<close>

record client_startup =
  cs_getaddrinfo :: "sockaddr option"
  cs_socket :: int
  cs_fcntl :: int
  cs_tls :: bool
  cs_keylog :: bool
  cs_malloc :: bool
  cs_getsockname :: "sockaddr option"

text \<open>
  \<open>main\<close> up to the connection: \<open>Inl\<close> is the history of a program that has ended with \<open>-1\<close>.  \<open>calls\<close>
  are the settings of the program.
\<close>

definition client_setup ::
  "'c quiche_api \<Rightarrow> environment \<Rightarrow> client_startup \<Rightarrow> bytes \<Rightarrow> config_call list
    \<Rightarrow> history + 'c \<times> sockaddr \<times> history" where
  "client_setup api env su host calls =
     (case cs_getaddrinfo su of
        None \<Rightarrow> Inl [perror (STR ''failed to resolve host'')]
      | Some peer \<Rightarrow>
          if cs_socket su < 0 then Inl [perror (STR ''failed to create socket'')]
          else if cs_fcntl su \<noteq> 0 then Inl [perror (STR ''failed to make socket non-blocking'')]
          else (case quiche_config_new (cs_tls su) 0xbabababa of
              None \<Rightarrow> Inl [Stderr (STR ''failed to create config'') []]
            | Some config \<Rightarrow>
                let config = config_apply (calls @ (if cs_keylog su then [quiche_config_log_keys] else [])) config in
                (case gen_cid env LOCAL_CONN_ID_LEN [] of
                   (None, tr) \<Rightarrow> Inl tr
                 | (Some scid, tr) \<Rightarrow>
                     if \<not> cs_malloc su then Inl (Stderr (STR ''failed to allocate connection IO'') [] # tr)
                     else (case cs_getsockname su of
                         None \<Rightarrow> Inl (perror (STR ''failed to get local address of socket'') # tr)
                       | Some local \<Rightarrow>
                           (case quiche_connect api tr host scid local peer config of
                              None \<Rightarrow> Inl (Stderr (STR ''failed to create connection'') [] # tr)
                            | Some conn \<Rightarrow> Inr (conn, local, tr))))))"

text \<open>
  The event loop.  One turn of it calls the callbacks of all events that are pending, in the order \<open>libev\<close>
  has them; \<open>ev_break\<close> in one of them ends the loop only after the others have been called.  It goes on until
  a turn with a break, or until there are no more turns.
\<close>

fun client_pending ::
  "(recvfrom list \<Rightarrow> 's \<Rightarrow> (bool \<times> recvfrom list \<times> 's) option) \<Rightarrow> ('s \<Rightarrow> (bool \<times> 's) option)
    \<Rightarrow> loop_event list \<Rightarrow> 's \<Rightarrow> (bool \<times> 's) option" where
  "client_pending recv timeout [] st = Some (False, st)"
| "client_pending recv timeout (Readable inbox # evs) st =
     do {
       (brk, rest, st) \<leftarrow> recv inbox st;
       (brk', st) \<leftarrow> client_pending recv timeout evs st;
       Some (brk \<or> brk', st)
     }"
| "client_pending recv timeout (Timeout p # evs) st =
     do {
       (brk, st) \<leftarrow> timeout st;
       (brk', st) \<leftarrow> client_pending recv timeout evs st;
       Some (brk \<or> brk', st)
     }"

fun client_events ::
  "(recvfrom list \<Rightarrow> 's \<Rightarrow> (bool \<times> recvfrom list \<times> 's) option) \<Rightarrow> ('s \<Rightarrow> (bool \<times> 's) option)
    \<Rightarrow> loop_event list list \<Rightarrow> 's \<Rightarrow> (bool \<times> 's) option" where
  "client_events recv timeout [] st = Some (False, st)"
| "client_events recv timeout (evs # turns) st =
     do {
       (brk, st) \<leftarrow> client_pending recv timeout evs st;
       if brk then Some (True, st) else client_events recv timeout turns st
     }"

text \<open>How a run of a client stands: it has returned from \<open>main\<close>, or is waiting for the next event.\<close>

datatype 's outcome = Exited int history | Waiting 's

section \<open>Reading and flushing\<close>

lemma client_log_simps [simp]:
  "cl_trace (client_log e st) = e # cl_trace st" "cl_conn (client_log e st) = cl_conn st"
  "cl_req_sent (client_log e st) = cl_req_sent st" "cl_sock (client_log e st) = cl_sock st"
  "cl_local_addr (client_log e st) = cl_local_addr st" "client.more (client_log e st) = client.more st"
  by (simp_all add: client_log_def)

text \<open>
  What no operation but sending the request changes; \<open>P\<close> is what may be reported meanwhile.
\<close>

definition client_frame :: "(event \<Rightarrow> bool) \<Rightarrow> ('c, 'x) client_scheme \<Rightarrow> ('c, 'x) client_scheme \<Rightarrow> bool" where
  "client_frame P st st' \<longleftrightarrow> cl_sock st' = cl_sock st \<and> cl_local_addr st' = cl_local_addr st
     \<and> cl_req_sent st' = cl_req_sent st \<and> extends P (cl_trace st) (cl_trace st')"

lemma client_frame_refl [simp]: "client_frame P st st"
  by (simp add: client_frame_def)

lemma client_frame_trans: "client_frame P st st' \<Longrightarrow> client_frame P st' st'' \<Longrightarrow> client_frame P st st''"
  by (auto simp: client_frame_def intro: extends_trans)

lemma client_frame_log: "P e \<Longrightarrow> client_frame P st (client_log e st)"
  by (auto simp: client_frame_def intro: extends_intros)

lemma client_frame_conn [simp]: "client_frame P st (st\<lparr>cl_conn := c\<rparr>)" "client_frame P st (st\<lparr>cl_repeat := t\<rparr>)"
  by (simp_all add: client_frame_def)

lemma client_flush_total: "send_ends api m \<Longrightarrow> \<exists>st'. client_flush api env st = Some st'"
  using send_loop_total [of api m env send_to "cl_sock st" "cl_conn st" "cl_trace st"]
  by (auto simp: client_flush_def Let_def)

lemma client_flush_cases:
  assumes "client_flush api env st = Some st'"
  obtains (early) c tr where "send_run api env send_to (cl_sock st) (cl_conn st) (cl_trace st) False c tr"
      "st' = st\<lparr>cl_conn := c, cl_trace := tr\<rparr>"
  | (drained) c tr where "send_run api env send_to (cl_sock st) (cl_conn st) (cl_trace st) True c tr"
      "st' = st\<lparr>cl_conn := c, cl_repeat := quiche_conn_timeout_as_nanos api c,
         cl_trace := Timer_again 0 (quiche_conn_timeout_as_nanos api c) # tr\<rparr>"
proof -
  obtain b c tr where l: "send_loop api env send_to (cl_sock st) (cl_conn st) (cl_trace st) = Some (b, c, tr)"
    using assms by (cases "send_loop api env send_to (cl_sock st) (cl_conn st) (cl_trace st)") (auto simp: client_flush_def)
  show thesis
    using assms l send_loop_iff [THEN iffD1, OF l] early [of c tr] drained [of c tr]
    by (cases b) (auto simp: client_flush_def client_log_def Let_def)
qed

section \<open>Invariant\<close>

text \<open>The report that the request was sent, and the effects that send nothing and report something else.\<close>

fun is_request :: "event \<Rightarrow> bool" where
  "is_request (Stderr s a) \<longleftrightarrow> s = STR ''sent HTTP request'' \<or> s = STR ''sent HTTP request %ld''"
| "is_request _ \<longleftrightarrow> False"

definition requests :: "history \<Rightarrow> nat" where
  "requests tr = length (filter is_request tr)"

definition quiet :: "event \<Rightarrow> bool" where
  "quiet e \<longleftrightarrow> io_event e \<and> sent_of e = [] \<and> \<not> is_request e"

lemma quiet_simps [simp]:
  "quiet (perror s)" if "s \<noteq> STR ''sent HTTP request''" "s \<noteq> STR ''sent HTTP request %ld''" for s
  using that by (simp add: quiet_def perror_def)

lemma quiet_other [simp]:
  "quiet (Stdout b)" "quiet (Stderr_text s bs)" "quiet Ev_break" "quiet Open_urandom"
  by (simp_all add: quiet_def)

lemma quiet_Stderr [simp]:
  "quiet (Stderr s a) \<longleftrightarrow> s \<noteq> STR ''sent HTTP request'' \<and> s \<noteq> STR ''sent HTTP request %ld''"
  by (simp add: quiet_def)

lemma requests_simps [simp]: "requests [] = 0" "requests (e # tr) = of_bool (is_request e) + requests tr"
  by (simp_all add: requests_def)

lemma sent_of_Nil_event_ok: "sent_of e = [] \<Longrightarrow> event_ok s e"
  by (cases e) simp_all

text \<open>
  The client is on its socket, has reported its request exactly when it has sent it, and runs no timer
  but its own; what it has sent fits a datagram, when the engine respects its buffer (\<open>fits\<close>).
\<close>

definition client_ok :: "bool \<Rightarrow> int \<Rightarrow> ('c, 'x) client_scheme \<Rightarrow> bool" where
  "client_ok fits sk st \<longleftrightarrow> cl_sock st = sk \<and> requests (cl_trace st) = of_bool (cl_req_sent st)
     \<and> armed (cl_trace st) \<subseteq> {0} \<and> (fits \<longrightarrow> (\<forall>e \<in> set (cl_trace st). event_ok sk e))"

lemma client_ok_quiet:
  assumes "client_ok fits sk st" and "client_frame quiet st st'"
  shows "client_ok fits sk st'"
proof -
  have e: "extends quiet (cl_trace st) (cl_trace st')" using assms(2) by (simp add: client_frame_def)
  then have "extends io_event (cl_trace st) (cl_trace st')" by (rule extends_mono) (simp add: quiet_def)
  then have "armed (cl_trace st') = armed (cl_trace st)" by (rule extends_io(1))
  moreover have "filter is_request (cl_trace st') = filter is_request (cl_trace st)"
    using e by (rule extends_filter) (simp add: quiet_def)
  moreover have "\<forall>e \<in> set (cl_trace st'). e \<in> set (cl_trace st) \<or> event_ok sk e"
    using e by (auto simp: extends_def quiet_def intro: sent_of_Nil_event_ok)
  ultimately show ?thesis using assms by (auto simp: client_ok_def client_frame_def requests_def)
qed

lemma client_read_frame:
  assumes "client_read api failed inbox st = (go, rest, st')" and "\<And>e. quiet (failed e)"
  shows "client_frame quiet st st' \<and> client.more st' = client.more st"
  using assms(1)
proof (induction inbox arbitrary: st)
  case Nil
  then show ?case by (auto intro: client_frame_log)
next
  case (Cons m r)
  show ?case
  proof (cases m)
    case (Datagram d a)
    obtain x c where q: "quiche_conn_recv api (cl_conn st) (take 65535 d) \<lparr>recv_from = a, recv_to = cl_local_addr st\<rparr> = (x, c)"
      by fastforce
    have step: "client_frame quiet st st' \<and> client.more st' = client.more st"
      if "quiet e" "client_read api failed r (client_log e (st\<lparr>cl_conn := c\<rparr>)) = (go, rest, st')" for e
    proof -
      have "client_frame quiet st (client_log e (st\<lparr>cl_conn := c\<rparr>))"
        by (rule client_frame_trans [OF client_frame_conn(1) client_frame_log]) (rule that(1))
      then show ?thesis using Cons.IH [OF that(2)] client_frame_trans by auto
    qed
    show ?thesis
    proof (cases x)
      case (Inl e)
      show ?thesis by (rule step [of "failed e"]) (use Cons.prems Datagram q Inl assms(2) in simp_all)
    next
      case (Inr n)
      show ?thesis
        by (rule step [of "Stderr (STR ''recv %zd bytes'') [int n]"]) (use Cons.prems Datagram q Inr in simp_all)
    qed
  qed (use Cons.prems in \<open>auto intro: client_frame_log\<close>)
qed

lemma client_flush_frame:
  assumes "client_flush api env st = Some st'"
  shows "client_frame (\<lambda>e. \<not> is_request e) st st' \<and> client.more st' = client.more st"
proof -
  have r: "extends (\<lambda>e. \<not> is_request e) tr tr'" if "send_run api env send_to s c tr b c' tr'" for s c tr b c' tr'
    using that
  proof (induction rule: send_run.induct)
    case (run_sent c out i c1 n tr b c' tr')
    have "extends (\<lambda>e. \<not> is_request e) tr (Stderr (STR ''sent %zd bytes'') [n] # Sendto s out (send_to i) n # tr)"
      by (intro extends_intros) simp_all
    from this run_sent.IH show ?case by (rule extends_trans)
  qed (auto simp: perror_def intro!: extends_intros)
  show ?thesis
    using assms
  proof (cases rule: client_flush_cases)
    case (early c tr)
    then show ?thesis using r [OF early(1)] by (simp add: client_frame_def)
  next
    case (drained c tr)
    then show ?thesis using r [OF drained(1)] by (simp add: client_frame_def extends_intros)
  qed
qed

lemma client_flush_ok:
  assumes "client_flush api env st = Some st'" and ok: "client_ok (send_fits api) sk st"
  shows "client_ok (send_fits api) sk st'"
proof -
  have f: "client_frame (\<lambda>e. \<not> is_request e) st st'" using client_flush_frame [OF assms(1)] by simp
  then have "filter is_request (cl_trace st') = filter is_request (cl_trace st)"
    by (auto simp: client_frame_def intro: extends_filter)
  moreover have "armed (cl_trace st') \<subseteq> {0}
      \<and> (send_fits api \<longrightarrow> extends (event_ok sk) (cl_trace st) (cl_trace st'))"
    using assms(1)
  proof (cases rule: client_flush_cases)
    case (early c tr)
    then show ?thesis
      using extends_io(1) [OF send_run_io [OF early(1)]] send_run_extends [OF early(1)] ok by (auto simp: client_ok_def)
  next
    case (drained c tr)
    then show ?thesis
      using extends_io(1) [OF send_run_io [OF drained(1)]] send_run_extends [OF drained(1)] ok
      by (auto simp: client_ok_def extends_intros)
  qed
  ultimately show ?thesis using ok f by (auto simp: client_ok_def client_frame_def requests_def extends_def)
qed

section \<open>The callbacks\<close>

lemma client_recv_cases:
  assumes "client_recv api env failed request receive inbox st = Some (b, rest, st')"
  obtains (failed_read) "client_read api failed inbox st = (False, rest, st')" "\<not> b"
  | (closed) st1 where "client_read api failed inbox st = (True, rest, st1)" "quiche_conn_is_closed api (cl_conn st1)"
      "b" "st' = client_log Ev_break (client_log (Stderr (STR ''connection closed'') [])
         (client_log (Stderr (STR ''done reading'') []) st1))"
  | (refused) st1 where "client_read api failed inbox st = (True, rest, st1)" "\<not> quiche_conn_is_closed api (cl_conn st1)"
      "\<not> cl_req_sent st1" "request (client_log (Stderr (STR ''done reading'') []) st1) = (False, st')" "\<not> b"
  | (flushed) st1 st2 st3 where "client_read api failed inbox st = (True, rest, st1)"
      "\<not> quiche_conn_is_closed api (cl_conn st1)"
      "(if quiche_conn_is_established api (cl_conn st1) \<and> \<not> cl_req_sent st1
        then request (client_log (Stderr (STR ''done reading'') []) st1)
        else (True, client_log (Stderr (STR ''done reading'') []) st1)) = (True, st2)"
      "(if quiche_conn_is_established api (cl_conn st2) then receive st2 else Some st2) = Some st3"
      "client_flush api env st3 = Some st'" "\<not> b"
proof -
  obtain go r st1 where rd: "client_read api failed inbox st = (go, r, st1)" by (metis prod_cases3)
  show thesis
  proof (cases go)
    case False
    then show thesis using assms rd by (intro failed_read) (auto simp: client_recv_def)
  next
    case True
    let ?st = "client_log (Stderr (STR ''done reading'') []) st1"
    let ?q = "if quiche_conn_is_established api (cl_conn st1) \<and> \<not> cl_req_sent st1 then request ?st else (True, ?st)"
    show thesis
    proof (cases "quiche_conn_is_closed api (cl_conn st1)")
      case cl: True
      then show thesis using assms rd True by (intro closed [of st1]) (auto simp: client_recv_def)
    next
      case cl: False
      obtain k st2 where q: "?q = (k, st2)" by fastforce
      show thesis
      proof (cases k)
        case False
        then have "\<not> cl_req_sent st1" "request ?st = (False, st2)" using q by (auto split: if_splits)
        moreover have "r = rest \<and> st2 = st' \<and> \<not> b" using assms rd True cl q False by (simp add: client_recv_def)
        ultimately show thesis using rd True cl by (intro refused [of st1]) simp_all
      next
        case k: True
        obtain st3 where st3: "(if quiche_conn_is_established api (cl_conn st2) then receive st2 else Some st2) = Some st3"
            "client_flush api env st3 = Some st'" "r = rest" "\<not> b"
          using assms rd True cl q k by (auto simp: client_recv_def bind_eq_Some_conv)
        show thesis
          by (rule flushed [OF _ cl _ st3(1,2,4)]) (use rd True q k st3(3) in simp_all)
      qed
    qed
  qed
qed

section \<open>The contract of a client\<close>

text \<open>
  What a client program owes: its own invariant \<open>extra\<close> on the further fields; sending the request
  keeps both invariants, and so does receiving, which is only asked for once the request is sent; both only
  add to the history.
\<close>

locale client_program =
  fixes api :: "'c quiche_api" and env :: environment and failed :: "quiche_error \<Rightarrow> event"
    and request :: "('c, 'x) client_scheme \<Rightarrow> bool \<times> ('c, 'x) client_scheme"
    and receive :: "('c, 'x) client_scheme \<Rightarrow> ('c, 'x) client_scheme option"
    and extra :: "('c, 'x) client_scheme \<Rightarrow> bool" and total :: bool
  assumes failed_quiet: "quiet (failed e)"
    and extra_frame: "extra st \<Longrightarrow> client.more st' = client.more st \<Longrightarrow> cl_req_sent st' = cl_req_sent st \<Longrightarrow> extra st'"
    and request_ok: "request st = (k, st') \<Longrightarrow> \<not> cl_req_sent st \<Longrightarrow> client_ok (send_fits api) sk st \<Longrightarrow> extra st \<Longrightarrow>
      client_ok (send_fits api) sk st' \<and> extra st' \<and> (k \<longrightarrow> cl_req_sent st')"
    and receive_ok: "receive st = Some st' \<Longrightarrow> client_ok (send_fits api) sk st \<Longrightarrow> extra st \<Longrightarrow>
      client_ok (send_fits api) sk st' \<and> extra st'"
    and request_grows: "request st = (k, st') \<Longrightarrow> extends (\<lambda>_. True) (cl_trace st) (cl_trace st')"
    and receive_grows: "receive st = Some st' \<Longrightarrow> extends (\<lambda>_. True) (cl_trace st) (cl_trace st')"
    and receive_total: "total \<Longrightarrow> extra st \<Longrightarrow> cl_req_sent st \<Longrightarrow> \<exists>st'. receive st = Some st'"
    and flush_ends: "total \<Longrightarrow> \<exists>m. send_ends api m"
begin

abbreviation recv_cb :: "recvfrom list \<Rightarrow> ('c, 'x) client_scheme \<Rightarrow> (bool \<times> recvfrom list \<times> ('c, 'x) client_scheme) option" where
  "recv_cb \<equiv> client_recv api env failed request receive"

abbreviation ok :: "int \<Rightarrow> ('c, 'x) client_scheme \<Rightarrow> bool" where
  "ok sk st \<equiv> client_ok (send_fits api) sk st \<and> extra st"

lemma ok_quiet: "ok sk st \<Longrightarrow> client_frame quiet st st' \<Longrightarrow> client.more st' = client.more st \<Longrightarrow> ok sk st'"
  using client_ok_quiet extra_frame by (auto simp: client_frame_def)

lemma ok_log: "ok sk st \<Longrightarrow> quiet e \<Longrightarrow> ok sk (client_log e st)"
  by (rule ok_quiet) (simp_all add: client_frame_log)

lemma ok_flush: "client_flush api env st = Some st' \<Longrightarrow> ok sk st \<Longrightarrow> ok sk st'"
  using client_flush_ok [of api env st st' sk] client_flush_frame [of api env st st'] extra_frame [of st st']
  by (simp add: client_frame_def)

lemma ok_read:
  assumes "client_read api failed inbox st = (go, rest, st')" and "ok sk st"
  shows "ok sk st'" and "ok sk (client_log (Stderr (STR ''done reading'') []) st')"
proof -
  show 1: "ok sk st'"
    using ok_quiet [OF assms(2)] client_read_frame [OF assms(1) failed_quiet] by blast
  show "ok sk (client_log (Stderr (STR ''done reading'') []) st')"
    by (rule ok_log [OF 1]) simp
qed

lemma requested:
  assumes q: "(if quiche_conn_is_established api (cl_conn st1) \<and> \<not> cl_req_sent st1
        then request (client_log (Stderr (STR ''done reading'') []) st1)
        else (True, client_log (Stderr (STR ''done reading'') []) st1)) = (True, st2)"
    and ok: "ok sk (client_log (Stderr (STR ''done reading'') []) st1)"
  shows "ok sk st2 \<and> (quiche_conn_is_established api (cl_conn st2) \<longrightarrow> cl_req_sent st2)"
proof (cases "quiche_conn_is_established api (cl_conn st1) \<and> \<not> cl_req_sent st1")
  case True
  then show ?thesis using q ok request_ok [of _ True st2 sk] by auto
next
  case False
  then show ?thesis using q ok by auto
qed

text \<open>What a callback has recorded stays in the history.\<close>

lemma recv_cb_grows:
  assumes "recv_cb inbox st = Some (b, rest, st')"
  shows "extends (\<lambda>_. True) (cl_trace st) (cl_trace st')"
proof -
  have read: "extends (\<lambda>_. True) (cl_trace st) (cl_trace s)" if "client_read api failed inbox st = (go, rest', s)" for go rest' s
    using client_read_frame [OF that failed_quiet] by (auto simp: client_frame_def intro: extends_mono)
  from assms show ?thesis
  proof (cases rule: client_recv_cases)
    case failed_read
    show ?thesis by (rule read [OF failed_read(1)])
  next
    case (closed st1)
    show ?thesis using read [OF closed(1)] unfolding closed(4) by (auto intro: extends_trans extends_intros)
  next
    case (refused st1)
    show ?thesis
      by (rule extends_trans [OF read [OF refused(1)] extends_trans [OF _ request_grows [OF refused(4)]]])
        (auto intro!: extends_intros)
  next
    case (flushed st1 st2 st3)
    have "extends (\<lambda>_. True) (cl_trace st1) (cl_trace st2)"
    proof (cases "quiche_conn_is_established api (cl_conn st1) \<and> \<not> cl_req_sent st1")
      case True
      then have "request (client_log (Stderr (STR ''done reading'') []) st1) = (True, st2)" using flushed(3) by simp
      from request_grows [OF this] show ?thesis by (rule extends_trans [rotated]) (auto intro!: extends_intros)
    next
      case False
      then show ?thesis using flushed(3) by (auto intro!: extends_intros)
    qed
    moreover have "extends (\<lambda>_. True) (cl_trace st2) (cl_trace st3)"
      using flushed(4) receive_grows [of st2 st3] by (auto split: if_splits)
    moreover have "extends (\<lambda>_. True) (cl_trace st3) (cl_trace st')"
      using client_flush_frame [OF flushed(5)] by (auto simp: client_frame_def intro: extends_mono)
    ultimately show ?thesis using read [OF flushed(1)] by (blast intro: extends_trans)
  qed
qed

text \<open>A callback keeps the invariant, and ends the loop only when the connection is closed.\<close>

lemma recv_cb_ok:
  assumes "recv_cb inbox st = Some (b, rest, st')" and "ok sk st"
  shows "ok sk st' \<and> (b \<longrightarrow> quiche_conn_is_closed api (cl_conn st'))"
  using assms(1)
proof (cases rule: client_recv_cases)
  case failed_read
  then show ?thesis using ok_read(1) [OF failed_read(1) assms(2)] by simp
next
  case (closed st1)
  note ok1 = ok_read(2) [OF closed(1) assms(2)]
  have "ok sk st'" unfolding closed(4) by (rule ok_log [OF ok_log [OF ok1]]) simp_all
  then show ?thesis using closed by simp
next
  case (refused st1)
  note ok1 = ok_read(2) [OF refused(1) assms(2)]
  then show ?thesis using request_ok [OF refused(4), of sk] refused(3,5) by simp
next
  case (flushed st1 st2 st3)
  note ok1 = ok_read(2) [OF flushed(1) assms(2)]
  have ok2: "ok sk st2" using requested [OF flushed(3) ok1] by simp
  have "ok sk st3" using flushed(4) ok2 receive_ok [of st2 st3 sk] by (auto split: if_splits)
  then have "ok sk st'" by (rule ok_flush [OF flushed(5)])
  then show ?thesis using flushed(6) by simp
qed

lemma recv_cb_total:
  assumes "total" and "ok sk st"
  shows "\<exists>r. recv_cb inbox st = Some r"
proof -
  obtain go rest st1 where rd: "client_read api failed inbox st = (go, rest, st1)" by (metis prod_cases3)
  note ok1 = ok_read(2) [OF rd assms(2)]
  let ?q = "if quiche_conn_is_established api (cl_conn st1) \<and> \<not> cl_req_sent st1
        then request (client_log (Stderr (STR ''done reading'') []) st1)
        else (True, client_log (Stderr (STR ''done reading'') []) st1)"
  obtain k st2 where q: "?q = (k, st2)" by fastforce
  obtain m where m: "send_ends api m" using flush_ends [OF assms(1)] by blast
  have "\<exists>r. recv_cb inbox st = Some r" if "go" "\<not> quiche_conn_is_closed api (cl_conn st1)" "k"
  proof -
    have ok2: "ok sk st2 \<and> (quiche_conn_is_established api (cl_conn st2) \<longrightarrow> cl_req_sent st2)"
      using requested [OF q [unfolded \<open>k\<close> [THEN eqTrueI]] ok1] .
    obtain st3 where st3: "(if quiche_conn_is_established api (cl_conn st2) then receive st2 else Some st2) = Some st3"
      using receive_total [OF assms(1), of st2] ok2 by (cases "quiche_conn_is_established api (cl_conn st2)") auto
    obtain st4 where "client_flush api env st3 = Some st4" using client_flush_total [OF m, of env st3] by blast
    then show ?thesis using rd q st3 that by (simp add: client_recv_def)
  qed
  moreover have "\<exists>r. recv_cb inbox st = Some r" if "\<not> (go \<and> \<not> quiche_conn_is_closed api (cl_conn st1) \<and> k)"
    using that rd q by (cases go; cases "quiche_conn_is_closed api (cl_conn st1)"; cases k)
      (simp_all add: client_recv_def Let_def)
  ultimately show ?thesis by blast
qed

lemma timeout_ok:
  assumes "client_timeout_cb api env st = Some (b, st')" and "ok sk st"
  shows "ok sk st' \<and> (b \<longrightarrow> quiche_conn_is_closed api (cl_conn st'))"
proof -
  let ?st = "client_log (Stderr (STR ''timeout'') []) (st\<lparr>cl_conn := quiche_conn_on_timeout api (cl_conn st)\<rparr>)"
  have "ok sk (st\<lparr>cl_conn := quiche_conn_on_timeout api (cl_conn st)\<rparr>)" by (rule ok_quiet [OF assms(2)]) simp_all
  then have "ok sk ?st" by (rule ok_log) simp
  moreover obtain st1 where f: "client_flush api env ?st = Some st1"
    using assms(1) by (auto simp: client_timeout_cb_def bind_eq_Some_conv Let_def)
  ultimately have ok1: "ok sk st1" by (rule ok_flush [rotated])
  show ?thesis
  proof (cases "quiche_conn_is_closed api (cl_conn st1)")
    case True
    then obtain a where "b" "st' = client_log Ev_break (client_log (Stderr (STR ''connection closed, recv=%zu sent=%zu lost=%zu rtt=%luns'') a) st1)"
      using assms(1) f by (auto simp: client_timeout_cb_def Let_def)
    then show ?thesis using ok_log [OF ok_log [OF ok1]] True by simp
  next
    case False
    then show ?thesis using assms(1) f ok1 by (simp add: client_timeout_cb_def)
  qed
qed

lemma timeout_total:
  assumes "total"
  shows "\<exists>r. client_timeout_cb api env st = Some r"
proof -
  obtain m where m: "send_ends api m" using flush_ends [OF assms] by blast
  obtain st1 where "client_flush api env (client_log (Stderr (STR ''timeout'') [])
      (st\<lparr>cl_conn := quiche_conn_on_timeout api (cl_conn st)\<rparr>)) = Some st1"
    using client_flush_total [OF m] by blast
  then show ?thesis by (simp add: client_timeout_cb_def Let_def)
qed

lemma timeout_grows:
  assumes "client_timeout_cb api env st = Some (b, st')"
  shows "extends (\<lambda>_. True) (cl_trace st) (cl_trace st')"
proof -
  let ?st = "client_log (Stderr (STR ''timeout'') []) (st\<lparr>cl_conn := quiche_conn_on_timeout api (cl_conn st)\<rparr>)"
  obtain st1 where f: "client_flush api env ?st = Some st1"
    and t: "cl_trace st' = cl_trace st1 \<or> (\<exists>a. cl_trace st' = Ev_break # Stderr (STR ''connection closed, recv=%zu sent=%zu lost=%zu rtt=%luns'') a # cl_trace st1)"
    using assms by (auto simp: client_timeout_cb_def bind_eq_Some_conv Let_def split: if_splits)
  have "extends (\<lambda>_. True) (cl_trace ?st) (cl_trace st1)"
    using client_flush_frame [OF f] by (auto simp: client_frame_def intro: extends_mono)
  moreover have "extends (\<lambda>_. True) (cl_trace st) (cl_trace ?st)" by (auto intro!: extends_intros)
  moreover have "extends (\<lambda>_. True) (cl_trace st1) (cl_trace st')" using t by (auto intro!: extends_intros)
  ultimately show ?thesis by (blast intro: extends_trans)
qed

section \<open>Runs\<close>

abbreviation pending :: "loop_event list \<Rightarrow> ('c, 'x) client_scheme \<Rightarrow> (bool \<times> ('c, 'x) client_scheme) option" where
  "pending \<equiv> client_pending recv_cb (client_timeout_cb api env)"

abbreviation events :: "loop_event list list \<Rightarrow> ('c, 'x) client_scheme \<Rightarrow> (bool \<times> ('c, 'x) client_scheme) option" where
  "events \<equiv> client_events recv_cb (client_timeout_cb api env)"

text \<open>A callback's state and whether it has ended the loop, for both kinds of event.\<close>

lemma pending_cases:
  assumes "pending (ev # evs) st = Some (b, st')"
  obtains brk st1 b' where "(\<exists>inbox rest. ev = Readable inbox \<and> recv_cb inbox st = Some (brk, rest, st1))
      \<or> (\<exists>p. ev = Timeout p) \<and> client_timeout_cb api env st = Some (brk, st1)"
    and "pending evs st1 = Some (b', st')" and "b \<longleftrightarrow> brk \<or> b'"
  using assms by (cases ev) (auto simp: bind_eq_Some_conv)

lemma callback_ok:
  assumes "(\<exists>inbox rest. ev = Readable inbox \<and> recv_cb inbox st = Some (brk, rest, st1))
      \<or> (\<exists>p. ev = Timeout p) \<and> client_timeout_cb api env st = Some (brk, st1)"
  shows "ok sk st \<Longrightarrow> ok sk st1" and "extends (\<lambda>_. True) (cl_trace st) (cl_trace st1)"
  using assms recv_cb_ok timeout_ok recv_cb_grows timeout_grows by blast+

lemma pending_ok:
  assumes "pending evs st = Some (b, st')" and "ok sk st"
  shows "ok sk st'"
  using assms
proof (induction evs arbitrary: st b)
  case (Cons ev evs)
  from Cons.prems(1) show ?case
    by (rule pending_cases) (use Cons.IH callback_ok(1) Cons.prems(2) in blast)
qed simp

lemma pending_grows:
  assumes "pending evs st = Some (b, st')"
  shows "extends (\<lambda>_. True) (cl_trace st) (cl_trace st')"
  using assms
proof (induction evs arbitrary: st b)
  case (Cons ev evs)
  from Cons.prems show ?case
    by (rule pending_cases) (use Cons.IH callback_ok(2) extends_trans in blast)
qed simp

lemma events_ok:
  assumes "events turns st = Some (b, st')" and "ok sk st"
  shows "ok sk st'"
  using assms
proof (induction turns arbitrary: st)
  case (Cons evs turns)
  then obtain brk st1 where "pending evs st = Some (brk, st1)"
    and "if brk then st' = st1 else events turns st1 = Some (b, st')"
    by (auto simp: bind_eq_Some_conv split: if_splits)
  then show ?case using pending_ok Cons.IH Cons.prems(2) by (cases brk) auto
qed simp

lemma pending_total:
  assumes "total" and "ok sk st"
  shows "\<exists>r. pending evs st = Some r"
  using assms(2)
proof (induction evs arbitrary: st)
  case (Cons ev evs)
  show ?case
  proof (cases ev)
    case (Readable inbox)
    obtain brk rest st1 where r: "recv_cb inbox st = Some (brk, rest, st1)"
      using recv_cb_total [OF assms(1) Cons.prems, of inbox] by auto
    then show ?thesis using recv_cb_ok [OF r Cons.prems] Cons.IH [of st1] by (auto simp: Readable)
  next
    case (Timeout p)
    obtain brk st1 where r: "client_timeout_cb api env st = Some (brk, st1)"
      using timeout_total [OF assms(1), of st] by auto
    then show ?thesis using timeout_ok [OF r Cons.prems] Cons.IH [of st1] by (auto simp: Timeout)
  qed
qed simp

lemma events_total:
  assumes "total" and "ok sk st"
  shows "\<exists>r. events turns st = Some r"
  using assms(2)
proof (induction turns arbitrary: st)
  case (Cons evs turns)
  obtain brk st1 where r: "pending evs st = Some (brk, st1)"
    using pending_total [OF assms(1) Cons.prems, of evs] by auto
  then show ?case using Cons.IH [OF pending_ok [OF r Cons.prems]] by (cases brk) simp_all
qed simp

end

end
