(* ===== verification/Client.thy ===== *)
theory Client
  imports ClientIo
begin

text \<open>
  \<open>quiche/examples/client.c\<close>: one HTTP/0.9 request over QUIC, whose response is printed.
\<close>

section \<open>Operations\<close>

text \<open>\<open>sizeof(r)\<close> counts the zero that ends the string.\<close>

definition http_request :: bytes where
  "http_request = ascii ''GET /index.html'' @ [0x0d, 0x0a, 0]"

text \<open>
  The error code is set by the engine for a stream that was stopped or reset, otherwise what is printed
  was on the stack.
\<close>

definition send_request :: "'c quiche_api \<Rightarrow> environment \<Rightarrow> 'c client \<Rightarrow> bool \<times> 'c client" where
  "send_request api env st =
     (let app_proto = quiche_conn_application_proto api (cl_conn st);
          st = client_log (Stderr_text (STR ''connection established: %.*s'') [format_text app_proto]) st
      in case quiche_conn_stream_send api (cl_conn st) 4 http_request True of
           (Inl (e, code), conn) \<Rightarrow>
             let error_code = (case code of Some c \<Rightarrow> uint c | None \<Rightarrow> int (be_nat (env_stack env (cl_trace st) 8)))
             in (False, client_log (Stderr (STR ''failed to send HTTP request: %lu'') [error_code]) (st\<lparr>cl_conn := conn\<rparr>))
         | (Inr _, conn) \<Rightarrow>
             (True, (client_log (Stderr (STR ''sent HTTP request'') []) (st\<lparr>cl_conn := conn\<rparr>))\<lparr>cl_req_sent := True\<rparr>))"

fun read_streams :: "'c quiche_api \<Rightarrow> u64 list \<Rightarrow> 'c \<Rightarrow> history \<Rightarrow> 'c \<times> history" where
  "read_streams api [] conn tr = (conn, tr)"
| "read_streams api (s # readable) conn tr =
     (let tr = Stderr (STR ''stream %lu is readable'') [uint s] # tr in
      case quiche_conn_stream_recv api conn s 65535 of
        (Inl e, conn) \<Rightarrow> (conn, tr)
      | (Inr (b, fin), conn) \<Rightarrow>
          let tr = Stdout (format_text b) # tr
          in case (if fin then close_conn api conn tr else (conn, tr)) of
               (conn, tr) \<Rightarrow> read_streams api readable conn tr)"

definition receive_streams :: "'c quiche_api \<Rightarrow> 'c client \<Rightarrow> 'c client option" where
  "receive_streams api st =
     (case read_streams api (quiche_conn_readable api (cl_conn st)) (cl_conn st) (cl_trace st) of
        (conn, tr) \<Rightarrow> Some (st\<lparr>cl_conn := conn, cl_trace := tr\<rparr>))"

definition client_recv_cb ::
  "'c quiche_api \<Rightarrow> environment \<Rightarrow> recvfrom list \<Rightarrow> 'c client \<Rightarrow> (bool \<times> recvfrom list \<times> 'c client) option" where
  "client_recv_cb api env =
     client_recv api env (\<lambda>e. Stderr (STR ''failed to process packet'') []) (send_request api env) (receive_streams api)"

section \<open>The program\<close>

definition hq_client_protos :: bytes where
  "hq_client_protos =
     [0x0a] @ ascii ''hq-interop'' @ [0x05] @ ascii ''hq-29'' @ [0x05] @ ascii ''hq-28'' @ [0x05] @ ascii ''hq-27''
     @ [0x08] @ ascii ''http/0.9''"

definition client_config :: "config_call list" where
  "client_config =
     [quiche_config_set_application_protos (take 38 hq_client_protos),
      quiche_config_set_max_idle_timeout 5000,
      quiche_config_set_max_recv_udp_payload_size MAX_DATAGRAM_SIZE,
      quiche_config_set_max_send_udp_payload_size MAX_DATAGRAM_SIZE,
      quiche_config_set_initial_max_data 10000000,
      quiche_config_set_initial_max_stream_data_bidi_local 1000000,
      quiche_config_set_initial_max_stream_data_uni 1000000,
      quiche_config_set_initial_max_streams_bidi 100,
      quiche_config_set_initial_max_streams_uni 100,
      quiche_config_set_disable_active_migration True]"

definition client_new :: "int \<Rightarrow> 'c \<Rightarrow> sockaddr \<Rightarrow> history \<Rightarrow> 'c client" where
  "client_new sock conn local tr =
     \<lparr>cl_repeat = 0, cl_sock = sock, cl_local_addr = local, cl_conn = conn, cl_req_sent = False, cl_trace = tr\<rparr>"

definition client_main ::
  "'c quiche_api \<Rightarrow> environment \<Rightarrow> client_startup \<Rightarrow> bytes \<Rightarrow> loop_event list list \<Rightarrow> 'c client outcome option" where
  "client_main api env su host evs =
     (case client_setup api env su host client_config of
        Inl tr \<Rightarrow> Some (Exited (- 1) tr)
      | Inr (conn, local, tr) \<Rightarrow>
          do {
            st \<leftarrow> client_flush api env (client_new (cs_socket su) conn local tr);
            (brk, st) \<leftarrow> client_events (client_recv_cb api env) (client_timeout_cb api env) evs st;
            Some (if brk then Exited 0 (Conn_free 0 # cl_trace st) else Waiting st)
          })"

section \<open>The contract holds\<close>

lemma close_conn_quiet:
  assumes "close_conn api c tr = (c', tr')"
  shows "extends quiet tr tr'"
  using assms by (auto simp: close_conn_def split: prod.splits sum.splits intro!: extends_intros)

lemma read_streams_quiet: "read_streams api ss c tr = (c', tr') \<Longrightarrow> extends quiet tr tr'"
proof (induction api ss c tr rule: read_streams.induct)
  case (2 api s ss c tr)
  let ?tr = "Stderr (STR ''stream %lu is readable'') [uint s] # tr"
  obtain r c1 where r: "quiche_conn_stream_recv api c s 65535 = (r, c1)" by fastforce
  have q: "extends quiet tr ?tr" by (intro extends_intros) simp_all
  show ?case
  proof (cases r)
    case (Inl e)
    then show ?thesis using "2.prems" r q by simp
  next
    case (Inr p)
    obtain b fin where p: "p = (b, fin)" by fastforce
    let ?tr1 = "Stdout (format_text b) # ?tr"
    obtain c2 t2 where k: "(if fin then close_conn api c1 ?tr1 else (c1, ?tr1)) = (c2, t2)" by fastforce
    have "extends quiet tr ?tr1" by (intro extends_intros) simp_all
    moreover have "extends quiet ?tr1 t2" using k close_conn_quiet [of api c1 ?tr1] by (auto split: if_splits)
    moreover have "extends quiet t2 tr'" using "2.IH" [OF refl r [symmetric] Inr p [symmetric] refl k [symmetric]] "2.prems" r Inr p k by simp
    ultimately show ?thesis by (blast intro: extends_trans)
  qed
qed simp

lemma send_request_ok:
  assumes "send_request api env st = (k, st')" and "\<not> cl_req_sent st" and "client_ok fits sk st"
  shows "client_ok fits sk st' \<and> cl_req_sent st' = k"
  using assms
  by (auto simp: send_request_def Let_def client_ok_def split: prod.splits sum.splits)

interpretation hq: client_program api env "\<lambda>e. Stderr (STR ''failed to process packet'') []" "send_request api env"
    "receive_streams api" "\<lambda>st. True" "\<exists>m. send_ends api m"
  for api :: "'c quiche_api" and env :: environment
proof unfold_locales
  fix st st' :: "'c client" and sk
  assume r: "receive_streams api st = Some st'" and ok: "client_ok (send_fits api) sk st"
  obtain c tr where rs: "read_streams api (quiche_conn_readable api (cl_conn st)) (cl_conn st) (cl_trace st) = (c, tr)"
    by fastforce
  have "client_frame quiet st st'"
    using r rs read_streams_quiet [OF rs] by (auto simp: receive_streams_def client_frame_def)
  with ok show "client_ok (send_fits api) sk st' \<and> True" using client_ok_quiet by blast
next
  fix st st' :: "'c client" and k
  assume "send_request api env st = (k, st')"
  then show "extends (\<lambda>_. True) (cl_trace st) (cl_trace st')"
    by (auto simp: send_request_def Let_def intro!: extends_intros split: prod.splits sum.splits)
next
  fix st st' :: "'c client"
  assume r: "receive_streams api st = Some st'"
  obtain c tr where rs: "read_streams api (quiche_conn_readable api (cl_conn st)) (cl_conn st) (cl_trace st) = (c, tr)"
    by fastforce
  have "extends (\<lambda>_. True) (cl_trace st) tr" by (rule extends_mono [OF read_streams_quiet [OF rs]]) simp
  then show "extends (\<lambda>_. True) (cl_trace st) (cl_trace st')" using r rs by (auto simp: receive_streams_def)
qed (auto simp: send_request_ok receive_streams_def split: prod.splits)

end
