(* ===== verification/Http3Client.thy ===== *)
theory Http3Client
  imports ClientIo
begin

text \<open>
  \<open>quiche/examples/http3-client.c\<close>: one HTTP/3 request over QUIC, whose response is printed.
\<close>

section \<open>State\<close>

text \<open>
  \<open>struct conn_io\<close> comes from \<open>malloc\<close>: its pointer \<open>http3\<close> is not set until the handshake is complete.
\<close>

datatype 'h pointer = Uninitialised | Null | Pointer 'h

record ('c, 'h) h3_client = "'c client" +
  cl_host :: bytes
  cl_http3 :: "'h pointer"
  cl_settings_received :: bool

section \<open>Operations\<close>

definition for_each_setting :: "u64 \<times> u64 \<Rightarrow> history \<Rightarrow> int \<times> history" where
  "for_each_setting setting tr =
     (0, Stderr (STR ''got HTTP/3 SETTING: %lu=%lu'') [uint (fst setting), uint (snd setting)] # tr)"

definition request_headers :: "bytes \<Rightarrow> quiche_h3_header list" where
  "request_headers host =
     [\<lparr>h3_name = ascii '':method'', h3_value = ascii ''GET''\<rparr>,
      \<lparr>h3_name = ascii '':scheme'', h3_value = ascii ''https''\<rparr>,
      \<lparr>h3_name = ascii '':authority'', h3_value = host\<rparr>,
      \<lparr>h3_name = ascii '':path'', h3_value = ascii ''/''\<rparr>,
      \<lparr>h3_name = ascii ''user-agent'', h3_value = ascii ''quiche''\<rparr>]"

text \<open>
  \<open>h3_new\<close> is what \<open>quiche_h3_config_new\<close> gives.  Whatever \<open>quiche_h3_send_request\<close> returns, an error
  too, is reported as the stream of the request.
\<close>

definition h3_request ::
  "'c quiche_api \<Rightarrow> ('c, 'h) quiche_h3_api \<Rightarrow> quiche_h3_config option \<Rightarrow> ('c, 'h) h3_client \<Rightarrow> bool \<times> ('c, 'h) h3_client" where
  "h3_request api h3 h3_new st =
     (let app_proto = quiche_conn_application_proto api (cl_conn st);
          st = client_log (Stderr_text (STR ''connection established: %.*s'') [format_text app_proto]) st
      in case h3_new of
           None \<Rightarrow> (False, client_log (Stderr (STR ''failed to create HTTP/3 config'') []) st)
         | Some config \<Rightarrow>
             (case quiche_h3_conn_new_with_transport h3 (cl_conn st) config of
                (None, conn) \<Rightarrow>
                  (False, client_log (Stderr (STR ''failed to create HTTP/3 connection'') [])
                     (st\<lparr>cl_conn := conn, cl_http3 := Null\<rparr>))
              | (Some http3, conn) \<Rightarrow>
                  (case quiche_h3_send_request h3 http3 conn (take 5 (request_headers (cl_host st))) True of
                     (r, http3, conn) \<Rightarrow>
                       let stream_id = (case r of Inl e \<Rightarrow> quiche_h3_error_code e | Inr s \<Rightarrow> sint s)
                       in (True, (client_log (Stderr (STR ''sent HTTP request %ld'') [stream_id])
                            (st\<lparr>cl_conn := conn, cl_http3 := Pointer http3\<rparr>))\<lparr>cl_req_sent := True\<rparr>))))"

text \<open>The loop over the body of a response, which is printed as it comes.\<close>

partial_function (option) recv_body_loop ::
  "('c, 'h) quiche_h3_api \<Rightarrow> u64 \<Rightarrow> 'h \<Rightarrow> 'c \<Rightarrow> history \<Rightarrow> ('h \<times> 'c \<times> history) option" where
  "recv_body_loop h3 s h c tr =
     (case quiche_h3_recv_body h3 h c s 65535 of
        (Inl e, h', c') \<Rightarrow> Some (h', c', tr)
      | (Inr b, h', c') \<Rightarrow>
          if b = [] then Some (h', c', tr) else recv_body_loop h3 s h' c' (Stdout (format_text b) # tr))"

declare recv_body_loop.simps [code]

text \<open>
  The body of the poll loop; its state is \<open>settings_received\<close> and the history.
\<close>

definition client_settings ::
  "('c, 'h) quiche_h3_api \<Rightarrow> 'h \<Rightarrow> bool \<times> history \<Rightarrow> bool \<times> history" where
  "client_settings h3 h st =
     (case st of (settings_received, tr) \<Rightarrow>
        if settings_received then (True, tr)
        else (case quiche_h3_for_each_setting h3 h for_each_setting tr of (rc, tr) \<Rightarrow> (rc = 0, tr)))"

definition client_event ::
  "'c quiche_api \<Rightarrow> ('c, 'h) quiche_h3_api \<Rightarrow> u64 \<Rightarrow> quiche_h3_event \<Rightarrow> 'h \<Rightarrow> 'c \<Rightarrow> bool \<times> history
    \<Rightarrow> ('h \<times> 'c \<times> bool \<times> history) option" where
  "client_event api h3 s ev h c st =
     (case client_settings h3 h st of
        (settings_received, tr) \<Rightarrow>
          (case h3_event_type ev of
             QUICHE_H3_EVENT_HEADERS \<Rightarrow>
               (case quiche_h3_event_for_each_header ev for_each_header tr of
                  (rc, tr) \<Rightarrow>
                    Some (h, c, settings_received,
                      if rc \<noteq> 0 then Stderr (STR ''failed to process headers'') [] # tr else tr))
           | QUICHE_H3_EVENT_DATA \<Rightarrow>
               do { (h, c, tr) \<leftarrow> recv_body_loop h3 s h c tr; Some (h, c, settings_received, tr) }
           | QUICHE_H3_EVENT_FINISHED \<Rightarrow>
               (case close_conn api c tr of (c, tr) \<Rightarrow> Some (h, c, settings_received, tr))
           | QUICHE_H3_EVENT_RESET \<Rightarrow>
               (case close_conn api c (Stderr (STR ''request was reset'') [] # tr) of
                  (c, tr) \<Rightarrow> Some (h, c, settings_received, tr))
           | QUICHE_H3_EVENT_PRIORITY_UPDATE \<Rightarrow> Some (h, c, settings_received, tr)
           | QUICHE_H3_EVENT_GOAWAY \<Rightarrow> Some (h, c, settings_received, Stderr (STR ''got GOAWAY'') [] # tr)))"

text \<open>Polling through a pointer that is not one is undefined.\<close>

definition receive_events ::
  "'c quiche_api \<Rightarrow> ('c, 'h) quiche_h3_api \<Rightarrow> ('c, 'h) h3_client \<Rightarrow> ('c, 'h) h3_client option" where
  "receive_events api h3 st =
     (case cl_http3 st of
        Pointer h \<Rightarrow>
          do {
            (h, c, settings_received, tr) \<leftarrow>
              poll_loop h3 (client_event api h3) h (cl_conn st) (cl_settings_received st, cl_trace st);
            Some (st\<lparr>cl_conn := c, cl_trace := tr, cl_http3 := Pointer h, cl_settings_received := settings_received\<rparr>)
          }
      | _ \<Rightarrow> None)"

definition h3_client_recv_cb ::
  "'c quiche_api \<Rightarrow> ('c, 'h) quiche_h3_api \<Rightarrow> environment \<Rightarrow> quiche_h3_config option \<Rightarrow> recvfrom list
    \<Rightarrow> ('c, 'h) h3_client \<Rightarrow> (bool \<times> recvfrom list \<times> ('c, 'h) h3_client) option" where
  "h3_client_recv_cb api h3 env h3_new =
     client_recv api env (\<lambda>e. Stderr (STR ''failed to process packet: %zd'') [quiche_error_code e])
       (h3_request api h3 h3_new) (receive_events api h3)"

section \<open>The program\<close>

definition h3_client_config :: "config_call list" where
  "h3_client_config =
     [quiche_config_set_application_protos QUICHE_H3_APPLICATION_PROTOCOL,
      quiche_config_set_max_idle_timeout 5000,
      quiche_config_set_max_recv_udp_payload_size MAX_DATAGRAM_SIZE,
      quiche_config_set_max_send_udp_payload_size MAX_DATAGRAM_SIZE,
      quiche_config_set_initial_max_data 10000000,
      quiche_config_set_initial_max_stream_data_bidi_local 1000000,
      quiche_config_set_initial_max_stream_data_bidi_remote 1000000,
      quiche_config_set_initial_max_stream_data_uni 1000000,
      quiche_config_set_initial_max_streams_bidi 100,
      quiche_config_set_initial_max_streams_uni 100,
      quiche_config_set_disable_active_migration True]"

definition h3_client_new :: "bytes \<Rightarrow> int \<Rightarrow> 'c \<Rightarrow> sockaddr \<Rightarrow> history \<Rightarrow> ('c, 'h) h3_client" where
  "h3_client_new host sock conn local tr =
     \<lparr>cl_repeat = 0, cl_sock = sock, cl_local_addr = local, cl_conn = conn, cl_req_sent = False, cl_trace = tr,
      cl_host = host, cl_http3 = Uninitialised, cl_settings_received = False\<rparr>"

text \<open>
  What \<open>main\<close> does after the event loop: \<open>quiche_h3_conn_free\<close> ignores \<open>NULL\<close>, and is undefined on a
  pointer that was never set.
\<close>

definition h3_client_end :: "('c, 'h) h3_client \<Rightarrow> history option" where
  "h3_client_end st =
     (case cl_http3 st of
        Uninitialised \<Rightarrow> None
      | Null \<Rightarrow> Some (Conn_free 0 # cl_trace st)
      | Pointer h \<Rightarrow> Some (Conn_free 0 # H3_conn_free 0 # cl_trace st))"

definition h3_client_main ::
  "'c quiche_api \<Rightarrow> ('c, 'h) quiche_h3_api \<Rightarrow> environment \<Rightarrow> client_startup \<Rightarrow> quiche_h3_config option \<Rightarrow> bytes
    \<Rightarrow> loop_event list list \<Rightarrow> ('c, 'h) h3_client outcome option" where
  "h3_client_main api h3 env su h3_new host evs =
     (case client_setup api env su host h3_client_config of
        Inl tr \<Rightarrow> Some (Exited (- 1) tr)
      | Inr (conn, local, tr) \<Rightarrow>
          do {
            st \<leftarrow> client_flush api env (h3_client_new host (cs_socket su) conn local tr);
            (brk, st) \<leftarrow> client_events (h3_client_recv_cb api h3 env h3_new) (client_timeout_cb api env) evs st;
            if brk then do { tr \<leftarrow> h3_client_end st; Some (Exited 0 tr) } else Some (Waiting st)
          })"

section \<open>The contract holds\<close>

lemma close_conn_cases:
  assumes "close_conn api c tr = (c', tr')"
  shows "extends quiet tr tr'" and "poll_ends api h3 m \<Longrightarrow> m h c' \<le> m h c"
proof -
  obtain r c1 where r: "quiche_conn_close api c True 0 [] = (r, c1)" by fastforce
  have c': "c' = c1" and t: "extends quiet tr tr'"
    using assms r by (cases r; auto simp: close_conn_def intro!: extends_intros)+
  show "extends quiet tr tr'" by (rule t)
  show "m h c' \<le> m h c" if "poll_ends api h3 m" using poll_endsD(6) [OF that r] c' by simp
qed

text \<open>Reading a body prints what was read and ends.\<close>

lemma recv_body_total:
  assumes "poll_ends api h3 m"
  shows "\<exists>h' c' tr'. recv_body_loop h3 s h c tr = Some (h', c', tr') \<and> m h' c' \<le> m h c"
proof (induction "m h c" arbitrary: h c tr rule: less_induct)
  case less
  obtain r h1 c1 where r: "quiche_h3_recv_body h3 h c s 65535 = (r, h1, c1)" by (metis prod_cases3)
  note le = poll_endsD(4) [OF assms r]
  show ?case
  proof (cases r)
    case (Inl e)
    then show ?thesis using r le by (subst recv_body_loop.simps) simp
  next
    case (Inr b)
    show ?thesis
    proof (cases "b = []")
      case True
      then show ?thesis using r le Inr by (subst recv_body_loop.simps) simp
    next
      case False
      have lt: "m h1 c1 < m h c" using poll_endsD(5) [OF assms r [unfolded Inr] False] .
      from less [OF lt, of "Stdout (format_text b) # tr"] obtain h' c' tr' where
        "recv_body_loop h3 s h1 c1 (Stdout (format_text b) # tr) = Some (h', c', tr')" "m h' c' \<le> m h1 c1" by blast
      then show ?thesis using r lt Inr False by (subst recv_body_loop.simps) simp
    qed
  qed
qed

lemma recv_body_step:
  assumes IH: "\<And>h3 s h c tr r. f h3 s h c tr = Some r \<Longrightarrow> extends quiet tr (snd (snd r))"
    and b: "(case quiche_h3_recv_body h3 h c s 65535 of
        (Inl e, h', c') \<Rightarrow> Some (h', c', tr)
      | (Inr b, h', c') \<Rightarrow> if b = [] then Some (h', c', tr) else f h3 s h' c' (Stdout (format_text b) # tr)) = Some r"
  shows "extends quiet tr (snd (snd r))"
proof -
  obtain x h1 c1 where x: "quiche_h3_recv_body h3 h c s 65535 = (x, h1, c1)" by (metis prod_cases3)
  show ?thesis
  proof (cases x)
    case (Inl e)
    then show ?thesis using b x by auto
  next
    case (Inr y)
    have "extends quiet tr (Stdout (format_text y) # tr)" by (intro extends_intros) simp_all
    then show ?thesis using b x Inr IH [of h3 s h1 c1 "Stdout (format_text y) # tr" r] extends_trans
      by (auto split: if_splits)
  qed
qed

lemma recv_body_quiet:
  assumes "recv_body_loop h3 s h c tr = Some r"
  shows "extends quiet tr (snd (snd r))"
proof -
  let ?P = "\<lambda>h3 s h c tr r. extends quiet tr (snd (snd r))"
  show ?thesis
    by (rule recv_body_loop.raw_induct [where P = ?P, OF _ assms]) (rule recv_body_step)
qed

lemma client_settings_quiet:
  assumes "client_settings h3 h (b, tr) = (b', tr')"
  shows "extends quiet tr tr'"
proof -
  have "for_each for_each_setting xs tr = (0, rev (map (\<lambda>x. Stderr (STR ''got HTTP/3 SETTING: %lu=%lu'') [uint (fst x), uint (snd x)]) xs) @ tr)"
    for xs tr by (rule for_each_log) (simp add: for_each_setting_def)
  then show ?thesis
    using assms
    by (auto simp: client_settings_def quiche_h3_for_each_setting_def extends_def split: if_splits option.splits)
qed

lemma for_each_header_quiet:
  "quiche_h3_event_for_each_header ev for_each_header tr = (rc, tr') \<Longrightarrow> rc = 0 \<and> extends quiet tr tr'"
  by (auto simp: for_each_header_eq extends_def header_line_def)

lemma client_event_quiet:
  assumes "client_event api h3 s ev h c (b, tr) = Some (h', c', b', tr')"
  shows "extends quiet tr tr'"
proof -
  obtain b1 t1 where st: "client_settings h3 h (b, tr) = (b1, t1)" by fastforce
  note q = client_settings_quiet [OF st]
  have "extends quiet t1 tr'"
  proof (cases "h3_event_type ev")
    case QUICHE_H3_EVENT_HEADERS
    obtain rc t2 where h: "quiche_h3_event_for_each_header ev for_each_header t1 = (rc, t2)" by fastforce
    then show ?thesis using assms st QUICHE_H3_EVENT_HEADERS for_each_header_quiet [OF h]
      by (simp add: client_event_def)
  next
    case QUICHE_H3_EVENT_DATA
    then obtain h2 c2 t2 where r: "recv_body_loop h3 s h c t1 = Some (h2, c2, t2)" and "tr' = t2"
      using assms st by (auto simp: client_event_def bind_eq_Some_conv)
    then show ?thesis using recv_body_quiet [OF r] by simp
  next
    case QUICHE_H3_EVENT_FINISHED
    then show ?thesis using assms st close_conn_cases(1) by (fastforce simp: client_event_def split: prod.splits)
  next
    case QUICHE_H3_EVENT_RESET
    obtain c2 t2 where k: "close_conn api c (Stderr (STR ''request was reset'') [] # t1) = (c2, t2)" by fastforce
    have "extends quiet t1 (Stderr (STR ''request was reset'') [] # t1)" by (intro extends_intros) simp_all
    then show ?thesis using assms st QUICHE_H3_EVENT_RESET k close_conn_cases(1) [OF k] extends_trans
      by (auto simp: client_event_def)
  qed (use assms st in \<open>auto simp: client_event_def intro!: extends_intros\<close>)
  with q show ?thesis by (rule extends_trans)
qed

lemma client_event_ok:
  assumes "poll_ends api h3 m"
  shows "handler_ok m (client_event api h3)"
proof -
  have "\<exists>h' c' st'. client_event api h3 s ev h c st = Some (h', c', st') \<and> m h' c' \<le> m h c" for s ev h c st
  proof -
    obtain b1 t1 where st: "client_settings h3 h st = (b1, t1)" by fastforce
    show ?thesis
    proof (cases "h3_event_type ev")
      case QUICHE_H3_EVENT_HEADERS
      obtain rc t2 where "quiche_h3_event_for_each_header ev for_each_header t1 = (rc, t2)" by fastforce
      then show ?thesis using st QUICHE_H3_EVENT_HEADERS by (simp add: client_event_def)
    next
      case QUICHE_H3_EVENT_DATA
      obtain h2 c2 t2 where "recv_body_loop h3 s h c t1 = Some (h2, c2, t2)" "m h2 c2 \<le> m h c"
        using recv_body_total [OF assms] by blast
      then show ?thesis using st QUICHE_H3_EVENT_DATA by (simp add: client_event_def)
    next
      case QUICHE_H3_EVENT_FINISHED
      obtain c2 t2 where k: "close_conn api c t1 = (c2, t2)" by fastforce
      then show ?thesis using st QUICHE_H3_EVENT_FINISHED close_conn_cases(2) [OF k assms]
        by (simp add: client_event_def)
    next
      case QUICHE_H3_EVENT_RESET
      obtain c2 t2 where k: "close_conn api c (Stderr (STR ''request was reset'') [] # t1) = (c2, t2)" by fastforce
      then show ?thesis using st QUICHE_H3_EVENT_RESET close_conn_cases(2) [OF k assms]
        by (simp add: client_event_def)
    qed (use st in \<open>simp_all add: client_event_def\<close>)
  qed
  then show ?thesis by (simp add: handler_ok_def)
qed

lemma polled_quiet:
  "polled h3 (client_event api h3) h c st evs r \<Longrightarrow> extends quiet (snd st) (snd (snd (snd r)))"
proof (induction rule: polled.induct)
  case (polled_event h c s ev h1 c1 st h2 c2 st2 evs r)
  then have "extends quiet (snd st) (snd st2)" by (metis client_event_quiet prod.collapse)
  from this polled_event.IH show ?case by (rule extends_trans)
qed simp

text \<open>Once the request was sent, the pointer is one.\<close>

definition pointer_ok :: "('c, 'h) h3_client \<Rightarrow> bool" where
  "pointer_ok st \<longleftrightarrow> (cl_req_sent st \<longrightarrow> (\<exists>h. cl_http3 st = Pointer h))"

lemma client_log_fields [simp]:
  "cl_http3 (client_log e st) = cl_http3 st" "cl_host (client_log e st) = cl_host st"
  "cl_settings_received (client_log e st) = cl_settings_received st"
  by (simp_all add: client_log_def)

lemma h3_request_ok:
  assumes "h3_request api h3 g st = (k, st')" and "\<not> cl_req_sent st" and "client_ok fits sk st"
  shows "client_ok fits sk st' \<and> cl_req_sent st' = k \<and> pointer_ok st'"
  using assms
  by (auto simp: h3_request_def Let_def client_ok_def pointer_ok_def split: prod.splits option.splits)

lemma receive_events_quiet:
  assumes "receive_events api h3 st = Some st'"
  shows "extends quiet (cl_trace st) (cl_trace st')"
proof -
  obtain h h' c b tr where l: "poll_loop h3 (client_event api h3) h (cl_conn st) (cl_settings_received st, cl_trace st) = Some (h', c, b, tr)"
    and st': "cl_trace st' = tr"
    using assms by (auto simp: receive_events_def bind_eq_Some_conv split: pointer.splits)
  obtain evs where "polled h3 (client_event api h3) h (cl_conn st) (cl_settings_received st, cl_trace st) evs (h', c, b, tr)"
    using l by (auto simp: poll_loop_iff)
  from polled_quiet [OF this] show ?thesis by (simp add: st')
qed

interpretation h3c: client_program api env "\<lambda>e. Stderr (STR ''failed to process packet: %zd'') [quiche_error_code e]"
    "h3_request api h3 g" "receive_events api h3" pointer_ok "(\<exists>m. send_ends api m) \<and> (\<exists>m. poll_ends api h3 m)"
  for api :: "'c quiche_api" and h3 :: "('c, 'h) quiche_h3_api" and env :: environment and g :: "quiche_h3_config option"
proof unfold_locales
  fix st st' :: "('c, 'h) h3_client" and sk
  assume r: "receive_events api h3 st = Some st'" and ok: "client_ok (send_fits api) sk st" and p: "pointer_ok st"
  then have "client_frame quiet st st' \<and> (\<exists>h. cl_http3 st' = Pointer h)"
    using receive_events_quiet [OF r]
    by (auto simp: receive_events_def bind_eq_Some_conv client_frame_def split: pointer.splits)
  then show "client_ok (send_fits api) sk st' \<and> pointer_ok st'"
    using client_ok_quiet [OF ok] by (simp add: pointer_ok_def)
next
  fix st :: "('c, 'h) h3_client"
  assume t: "(\<exists>m. send_ends api m) \<and> (\<exists>m. poll_ends api h3 m)" and "pointer_ok st" and "cl_req_sent st"
  then obtain h m where h: "cl_http3 st = Pointer h" and m: "poll_ends api h3 m" by (auto simp: pointer_ok_def)
  obtain r where "poll_loop h3 (client_event api h3) h (cl_conn st) (cl_settings_received st, cl_trace st) = Some r"
    using poll_loop_total [OF m client_event_ok [OF m]] by blast
  then show "\<exists>st'. receive_events api h3 st = Some st'" using h by (cases r) (simp add: receive_events_def)
next
  fix st st' :: "('c, 'h) h3_client" and k
  assume "h3_request api h3 g st = (k, st')"
  then show "extends (\<lambda>_. True) (cl_trace st) (cl_trace st')"
    by (auto simp: h3_request_def Let_def intro!: extends_intros split: prod.splits option.splits)
next
  fix st st' :: "('c, 'h) h3_client"
  assume "receive_events api h3 st = Some st'"
  then show "extends (\<lambda>_. True) (cl_trace st) (cl_trace st')"
    by (rule extends_mono [OF receive_events_quiet]) simp
next
  fix st st' :: "('c, 'h) h3_client"
  assume "pointer_ok st" and "client.more st' = client.more st" and "cl_req_sent st' = cl_req_sent st"
  then show "pointer_ok st'" by (cases st; cases st') (simp add: pointer_ok_def)
qed (auto simp: h3_request_ok)

end
