(* ===== verification/ClientProps.thy ===== *)
theory ClientProps
  imports Client Http3Client Http3Props
begin

text \<open>
  What the two client programs guarantee: they return, send one request, send on their own socket and end
  only by breaking out of their loop; the protocols they offer are those of the servers; and the
  HTTP/3 client frees a pointer it never set when there was no handshake.
\<close>

section \<open>Ending\<close>

text \<open>A callback ends the loop as its last act; other pending events of the same turn may follow.\<close>

definition ended :: "('c, 'x) client_scheme \<Rightarrow> bool" where
  "ended st \<longleftrightarrow> Ev_break \<in> set (cl_trace st)"

definition ended_last :: "('c, 'x) client_scheme \<Rightarrow> bool" where
  "ended_last st \<longleftrightarrow> (\<exists>tr. cl_trace st = Ev_break # tr)"

lemma client_recv_ended:
  assumes "client_recv api env failed request receive inbox st = Some (True, rest, st')"
  shows "ended_last st'"
  using assms by (cases rule: client_recv_cases) (auto simp: ended_last_def)

lemma client_timeout_ended: "client_timeout_cb api env st = Some (True, st') \<Longrightarrow> ended_last st'"
  by (auto simp: client_timeout_cb_def bind_eq_Some_conv Let_def ended_last_def split: if_splits)

lemma ended_grows: "ended st \<Longrightarrow> extends (\<lambda>_. True) (cl_trace st) (cl_trace st') \<Longrightarrow> ended st'"
  by (auto simp: ended_def extends_def)

context client_program
begin

lemma callback_ended:
  assumes "(\<exists>inbox rest. ev = Readable inbox \<and> recv_cb inbox st = Some (True, rest, st1))
      \<or> (\<exists>p. ev = Timeout p) \<and> client_timeout_cb api env st = Some (True, st1)"
  shows "ended_last st1"
  using assms client_recv_ended client_timeout_ended by blast

lemma pending_ended:
  assumes "pending evs st = Some (True, st')"
  shows "ended st'"
  using assms
proof (induction evs arbitrary: st)
  case (Cons ev evs)
  from Cons.prems show ?case
  proof (rule pending_cases)
    fix brk st1 b'
    assume c: "(\<exists>inbox rest. ev = Readable inbox \<and> recv_cb inbox st = Some (brk, rest, st1))
      \<or> (\<exists>p. ev = Timeout p) \<and> client_timeout_cb api env st = Some (brk, st1)"
      and p: "pending evs st1 = Some (b', st')" and b: "True \<longleftrightarrow> brk \<or> b'"
    show "ended st'"
    proof (cases brk)
      case True
      then have "ended st1" using callback_ended [of ev st st1] c by (auto simp: ended_last_def ended_def)
      then show ?thesis by (rule ended_grows) (rule pending_grows [OF p])
    next
      case False
      then show ?thesis using Cons.IH p b by simp
    qed
  qed
qed simp

lemma pending_single_ended:
  assumes "pending evs st = Some (True, st')" and "length evs \<le> 1"
  shows "ended_last st'"
proof (cases evs)
  case (Cons ev r)
  then have e: "evs = [ev]" using assms(2) by simp
  from assms(1)[unfolded e] show ?thesis by (rule pending_cases) (use callback_ended in auto)
qed (use assms(1) in simp)

lemma events_ended:
  assumes "events turns st = Some (True, st')"
  shows "ended st'" and "\<forall>evs \<in> set turns. length evs \<le> 1 \<Longrightarrow> ended_last st'"
proof -
  have "ended st' \<and> ((\<forall>evs \<in> set turns. length evs \<le> 1) \<longrightarrow> ended_last st')"
    using assms
  proof (induction turns arbitrary: st)
    case (Cons evs turns)
    then obtain brk st1 where p: "pending evs st = Some (brk, st1)"
      and n: "if brk then st' = st1 else events turns st1 = Some (True, st')"
      by (auto simp: bind_eq_Some_conv split: if_splits)
    show ?case
    proof (cases brk)
      case True
      then show ?thesis using p n pending_ended [of evs st st1] pending_single_ended [of evs st st1] by auto
    next
      case False
      then show ?thesis using n Cons.IH [of st1] by auto
    qed
  qed simp
  then show "ended st'" and "\<forall>evs \<in> set turns. length evs \<le> 1 \<Longrightarrow> ended_last st'" by auto
qed

end

lemma gen_cid_quiet: "gen_cid env n tr = (r, tr') \<Longrightarrow> extends quiet tr tr'"
  by (auto simp: gen_cid_def perror_def split: urandom.splits intro!: extends_intros)

lemma grease_config:
  "quiche_config_new tls 0xbabababa = (if tls then Some \<lparr>config_version = 0xbabababa, config_calls = []\<rparr> else None)"
  by (simp add: quiche_config_new_def is_reserved_version_def)

lemma client_setup_failed:
  assumes "client_setup api env su host calls = Inl tr"
  shows "extends quiet [] tr"
proof -
  obtain x t where g: "gen_cid env LOCAL_CONN_ID_LEN [] = (x, t)" by fastforce
  note q = gen_cid_quiet [OF g]
  have "extends quiet [] (Stderr a [] # t)" if "quiet (Stderr a [])" for a
    using that q by (intro extends_intros) simp_all
  then show ?thesis
    using assms g q
    by (auto simp: client_setup_def perror_def grease_config Let_def split: option.splits if_splits intro!: extends_intros)
qed

lemma client_setup_connected:
  assumes "client_setup api env su host calls = Inr (conn, local, tr)"
  shows "\<exists>scid peer config. gen_cid env LOCAL_CONN_ID_LEN [] = (Some scid, tr)
    \<and> quiche_connect api tr host scid local peer config = Some conn
    \<and> config_version config = 0xbabababa \<and> set calls \<subseteq> set (config_calls config)"
  using assms
  by (fastforce simp: client_setup_def grease_config config_apply_def Let_def split: option.splits if_splits prod.splits)

section \<open>\<open>client.c\<close>\<close>

lemma client_new_ok: "extends quiet [] tr \<Longrightarrow> client_ok fits sk (client_new sk conn local tr)"
  by (rule client_ok_quiet [of fits sk "client_new sk conn local []"])
    (simp_all add: client_ok_def client_new_def client_frame_def)

lemma client_main_cases:
  fixes api :: "'c quiche_api"
  assumes "send_ends api m"
  obtains (failed) tr where "client_main api env su host evs = Some (Exited (- 1) tr)" "extends quiet [] tr"
  | (closed) st :: "'c client" where "client_main api env su host evs = Some (Exited 0 (Conn_free 0 # cl_trace st))" "ended st"
      "\<forall>turn \<in> set evs. length turn \<le> 1 \<Longrightarrow> ended_last st" "client_ok (send_fits api) (cs_socket su) st"
  | (waiting) st where "client_main api env su host evs = Some (Waiting st)" "client_ok (send_fits api) (cs_socket su) st"
proof (cases "client_setup api env su host client_config")
  case (Inl tr)
  then show thesis using client_setup_failed [OF Inl] by (intro failed [of tr]) (simp_all add: client_main_def)
next
  case (Inr r)
  obtain conn local tr where r: "r = (conn, local, tr)" by (metis prod_cases3)
  from client_setup_connected [OF Inr [unfolded r]] have q: "extends quiet [] tr" using gen_cid_quiet by blast
  obtain st where fl: "client_flush api env (client_new (cs_socket su) conn local tr) = Some st"
    using client_flush_total [OF assms] by blast
  note ok = client_flush_ok [OF fl client_new_ok [OF q]]
  obtain b st' where ev: "client_events (client_recv_cb api env) (client_timeout_cb api env) evs st = Some (b, st')"
    using hq.events_total [of api "cs_socket su" st env evs] assms ok by (fastforce simp: client_recv_cb_def)
  have ok': "client_ok (send_fits api) (cs_socket su) st'"
    using hq.events_ok [of api env evs st b st' "cs_socket su"] ev ok by (simp add: client_recv_cb_def)
  have m: "client_main api env su host evs = Some (if b then Exited 0 (Conn_free 0 # cl_trace st') else Waiting st')"
    using Inr r fl ev by (simp add: client_main_def)
  show thesis
  proof (cases b)
    case True
    have "ended st'" "\<forall>turn \<in> set evs. length turn \<le> 1 \<Longrightarrow> ended_last st'"
      using hq.events_ended [of api env evs st st'] ev True by (simp_all add: client_recv_cb_def)
    then show thesis using closed [of st'] m ok' True by simp
  qed (use waiting [of st'] m ok' in simp)
qed

text \<open>
  C13: Whatever the network and the system do, \<open>client.c\<close> never gets stuck, when the engine has finitely
  many packets to send: it ends with \<open>-1\<close> before anything was sent, or with \<open>0\<close> after a callback has broken
  out of its loop, which is the last thing before its connection is freed when no two events were pending at
  once, or it waits for the next event.  It reports its request at most once, exactly
  when it has been handed to the engine, and runs no timer but that of its connection.
\<close>

theorem client_main_runs:
  assumes "send_ends api m"
  shows "case client_main api env su host evs of
      None \<Rightarrow> False
    | Some (Exited rc tr) \<Rightarrow> rc = - 1 \<and> sent tr = [] \<and> requests tr = 0
        \<or> rc = 0 \<and> (\<exists>tr'. tr = Conn_free 0 # tr' \<and> Ev_break \<in> set tr'
            \<and> ((\<forall>turn \<in> set evs. length turn \<le> 1) \<longrightarrow> (\<exists>tr''. tr' = Ev_break # tr''))) \<and> requests tr \<le> 1 \<and> armed tr \<subseteq> {0}
    | Some (Waiting st) \<Rightarrow> requests (cl_trace st) = of_bool (cl_req_sent st) \<and> armed (cl_trace st) \<subseteq> {0}"
  using assms
proof (cases rule: client_main_cases [where api = api and env = env and su = su and host = host and evs = evs])
  case (failed tr)
  then show ?thesis by (auto simp: extends_def quiet_def sent_def requests_def)
next
  case (closed st)
  have "Ev_break \<in> set (cl_trace st) \<and> ((\<forall>turn \<in> set evs. length turn \<le> 1) \<longrightarrow> (\<exists>tr''. cl_trace st = Ev_break # tr''))"
    using closed(2,3) by (auto simp: ended_def ended_last_def)
  then show ?thesis using closed(1,4) by (simp add: client_ok_def)
qed (simp add: client_ok_def)

definition demo_startup :: client_startup where
  "demo_startup = \<lparr>cs_getaddrinfo = Some [4, 4], cs_socket = 5, cs_fcntl = 0, cs_tls = True, cs_keylog = False,
     cs_malloc = True, cs_getsockname = Some [6]\<rparr>"

lemma demo_socket [simp]: "cs_socket demo_startup = 5"
  by (simp add: demo_startup_def)

lemma demo_client_setup:
  "quiche_connect api = quiche_connect demo_api \<Longrightarrow> client_setup api demo_env demo_startup host calls =
     Inr (\<lparr>demo_out = [replicate 16 7], demo_streams = [], demo_closed = False\<rparr>, [6], [Open_urandom])"
  by (simp add: client_setup_def demo_startup_def grease_config gen_cid_def LOCAL_CONN_ID_LEN_def)

theorem client_main_runs_witness:
  "\<exists>r. client_main demo_api demo_env demo_startup [] [[Timeout 0]] = Some r"
proof -
  have "client_main demo_api demo_env demo_startup [] [[Timeout 0]] \<noteq> None"
    using client_main_runs [OF demo_send_ends, where env = demo_env and su = demo_startup and host = "[]" and evs = "[[Timeout 0]]"] by (metis option.simps(4))
  then show ?thesis by blast
qed

text \<open>
  Everything \<open>client.c\<close> sends goes out on its own socket and is at most 1350 bytes, when the engine
  respects the buffer it is given.
\<close>

theorem client_datagrams:
  assumes "client_main api env su host evs = Some r" and "send_ends api m" and "send_fits api"
    and "(sk, data, to) \<in> set (sent (case r of Exited rc tr \<Rightarrow> tr | Waiting st \<Rightarrow> cl_trace st))"
  shows "sk = cs_socket su \<and> length data \<le> 1350"
proof -
  let ?tr = "case r of Exited rc tr \<Rightarrow> tr | Waiting st \<Rightarrow> cl_trace st"
  have "\<forall>e \<in> set ?tr. event_ok (cs_socket su) e"
    using assms(2)
  proof (cases rule: client_main_cases [where api = api and env = env and su = su and host = host and evs = evs])
    case (failed tr)
    then show ?thesis using assms(1) by (auto simp: extends_def quiet_def intro: sent_of_Nil_event_ok)
  qed (use assms(1,3) in \<open>auto simp: client_ok_def\<close>)
  moreover obtain n where "Sendto sk data to n \<in> set ?tr" using assms(4) sent_memD by blast
  ultimately show ?thesis by (fastforce simp: MAX_DATAGRAM_SIZE_def)
qed

lemma demo_client_send:
  "quiche_conn_send api = demo_send \<Longrightarrow>
   send_loop api demo_env send_to 5 \<lparr>demo_out = [replicate 16 7], demo_streams = s, demo_closed = c\<rparr> tr =
     Some (True, \<lparr>demo_out = [], demo_streams = s, demo_closed = c\<rparr>, Stderr (STR ''done writing'') [] #
       Stderr (STR ''sent %zd bytes'') [16] # Sendto 5 (replicate 16 7) [2, 2] 16 # tr)"
  by (subst send_loop.simps, simp add: demo_send_def MAX_DATAGRAM_SIZE_def demo_info_def,
      subst send_loop.simps, simp add: demo_send_def MAX_DATAGRAM_SIZE_def)

theorem client_datagrams_witness:
  "\<exists>st. client_main demo_api demo_env demo_startup [] [] = Some (Waiting st)
     \<and> sent (cl_trace st) = [(5, replicate 16 7, [2, 2])] \<and> (5 :: int) = cs_socket demo_startup \<and> length (replicate 16 (7 :: u8)) \<le> 1350"
proof -
  obtain st where m: "client_main demo_api demo_env demo_startup [] [] = Some (Waiting st)"
    and s: "sent (cl_trace st) = [(5, replicate 16 7, [2, 2])]"
    by (simp add: client_main_def demo_client_setup client_flush_def client_new_def demo_client_send client_log_def)
  from client_datagrams [OF m demo_send_ends demo_send_fits, of 5 "replicate 16 7" "[2, 2]"] m s show ?thesis by simp
qed

section \<open>\<open>http3-client.c\<close>\<close>

lemma h3_client_new_ok: "extends quiet [] tr \<Longrightarrow> client_ok fits sk (h3_client_new host sk conn local tr) \<and> pointer_ok (h3_client_new host sk conn local tr)"
  using client_ok_quiet [of fits sk "h3_client_new host sk conn local []" "h3_client_new host sk conn local tr"]
  by (simp add: client_ok_def h3_client_new_def client_frame_def pointer_ok_def)

text \<open>How the program gets to its event loop, and what the loop does.\<close>

lemma h3_client_loop:
  fixes api :: "'c quiche_api" and h3 :: "('c, 'h) quiche_h3_api"
  assumes "send_ends api m" and "poll_ends api h3 m'" and "client_setup api env su host h3_client_config = Inr (conn, local, tr)"
  obtains st b and st' :: "('c, 'h) h3_client"
  where "client_flush api env (h3_client_new host (cs_socket su) conn local tr) = Some st"
    and "client_events (h3_client_recv_cb api h3 env g) (client_timeout_cb api env) evs st = Some (b, st')"
    and "client_ok (send_fits api) (cs_socket su) st'" and "b \<Longrightarrow> ended st'"
proof -
  from client_setup_connected [OF assms(3)] have q: "extends quiet [] tr" using gen_cid_quiet by blast
  obtain st where fl: "client_flush api env (h3_client_new host (cs_socket su) conn local tr :: ('c, 'h) h3_client) = Some st"
    using client_flush_total [OF assms(1)] by blast
  have ok: "client_ok (send_fits api) (cs_socket su) st \<and> pointer_ok st"
    using h3c.ok_flush [OF fl h3_client_new_ok [OF q]] .
  obtain b st' where ev: "client_events (h3_client_recv_cb api h3 env g) (client_timeout_cb api env) evs st = Some (b, st')"
    using h3c.events_total [of api h3 "cs_socket su" st env g evs] assms(1,2) ok by (fastforce simp: h3_client_recv_cb_def)
  have ok': "client_ok (send_fits api) (cs_socket su) st'"
    using h3c.events_ok [of api env h3 g evs st b st' "cs_socket su"] ev ok by (simp add: h3_client_recv_cb_def)
  have "ended st'" if b using h3c.events_ended(1) [of api env h3 g evs st st'] ev that by (simp add: h3_client_recv_cb_def)
  with fl ev ok' show thesis by (rule that)
qed

text \<open>
  C14: The only way for \<open>http3-client.c\<close> not to have a defined outcome, when the engine has finitely many
  packets and events, is to end its loop with the pointer to its HTTP/3 connection never set: then \<open>main\<close>
  frees it all the same.
\<close>

theorem h3_client_undefined_iff:
  fixes api :: "'c quiche_api" and h3 :: "('c, 'h) quiche_h3_api"
  assumes "send_ends api m" and "poll_ends api h3 m'"
  shows "h3_client_main api h3 env su g host evs = None \<longleftrightarrow>
    (\<exists>conn local tr st (st' :: ('c, 'h) h3_client). client_setup api env su host h3_client_config = Inr (conn, local, tr)
       \<and> client_flush api env (h3_client_new host (cs_socket su) conn local tr) = Some st
       \<and> client_events (h3_client_recv_cb api h3 env g) (client_timeout_cb api env) evs st = Some (True, st')
       \<and> cl_http3 st' = Uninitialised)"
proof (cases "client_setup api env su host h3_client_config")
  case (Inl tr)
  then show ?thesis by (simp add: h3_client_main_def)
next
  case (Inr r)
  obtain conn local tr where r: "r = (conn, local, tr)" by (metis prod_cases3)
  obtain st b st' where "client_flush api env (h3_client_new host (cs_socket su) conn local tr :: ('c, 'h) h3_client) = Some st"
    and "client_events (h3_client_recv_cb api h3 env g) (client_timeout_cb api env) evs st = Some (b, st')"
    using h3_client_loop [OF assms Inr [unfolded r]] by metis
  then show ?thesis
    using Inr r by (cases "cl_http3 st'") (auto simp: h3_client_main_def h3_client_end_def)
qed

lemma client_read_more: "client_read api failed inbox st = (go, rest, st') \<Longrightarrow> client.more st' = client.more st"
proof (induction inbox arbitrary: st)
  case (Cons m inbox)
  then show ?case by (cases m) (fastforce split: prod.splits sum.splits)+
qed auto

lemma client_flush_more: "client_flush api env st = Some st' \<Longrightarrow> client.more st' = client.more st"
  using client_flush_frame by blast

lemma h3_more: "client.more st' = client.more st \<Longrightarrow> cl_http3 st' = cl_http3 st"
  by (cases st; cases st') simp

lemma unestablished_recv:
  assumes "\<And>c. \<not> quiche_conn_is_established api c"
    and r: "client_recv api env failed request receive inbox st = Some (b, rest, st')"
  shows "client.more st' = client.more st"
proof -
  obtain go rest' st1 where rd: "client_read api failed inbox st = (go, rest', st1)" by (metis prod_cases3)
  note more = client_read_more [OF rd]
  consider "\<not> go" | "go" "quiche_conn_is_closed api (cl_conn st1)" | "go" "\<not> quiche_conn_is_closed api (cl_conn st1)" by blast
  then show ?thesis
  proof cases
    case 3
    then obtain st2 where "client_flush api env (client_log (Stderr (STR ''done reading'') []) st1) = Some st2" "st2 = st'"
      using r rd assms(1) by (auto simp: client_recv_def Let_def bind_eq_Some_conv)
    then show ?thesis using client_flush_more more by fastforce
  qed (use r rd more in \<open>auto simp: client_recv_def\<close>)
qed

lemma timeout_more:
  assumes "client_timeout_cb api env st = Some (b, st')"
  shows "client.more st' = client.more st"
proof -
  obtain st1 where "client_flush api env (client_log (Stderr (STR ''timeout'') [])
      (st\<lparr>cl_conn := quiche_conn_on_timeout api (cl_conn st)\<rparr>)) = Some st1"
    and "client.more st' = client.more st1"
    using assms by (auto simp: client_timeout_cb_def bind_eq_Some_conv Let_def split: if_splits)
  then show ?thesis using client_flush_more by fastforce
qed

lemma unestablished_events:
  assumes "\<And>c. \<not> quiche_conn_is_established api c"
    and "client_events (h3_client_recv_cb api h3 env g) (client_timeout_cb api env) evs st = Some (b, st')"
  shows "cl_http3 st' = cl_http3 st"
  using assms(2)
proof (induction evs arbitrary: st)
  case (Cons turn evs)
  have "cl_http3 s' = cl_http3 s"
    if "client_pending (h3_client_recv_cb api h3 env g) (client_timeout_cb api env) turn s = Some (brk, s')" for turn brk s s'
    using that
  proof (induction turn arbitrary: s brk)
    case (Cons ev turn)
    show ?case
    proof (cases ev)
      case (Readable inbox)
      then obtain brk1 rest s1 brk2 where r: "h3_client_recv_cb api h3 env g inbox s = Some (brk1, rest, s1)"
        and n: "client_pending (h3_client_recv_cb api h3 env g) (client_timeout_cb api env) turn s1 = Some (brk2, s')"
        using Cons.prems by (auto simp: bind_eq_Some_conv)
      have "cl_http3 s1 = cl_http3 s"
        by (rule h3_more [OF unestablished_recv [OF assms(1) r [unfolded h3_client_recv_cb_def]]])
      then show ?thesis using Cons.IH [OF n] by simp
    next
      case (Timeout p)
      then obtain brk1 s1 brk2 where r: "client_timeout_cb api env s = Some (brk1, s1)"
        and n: "client_pending (h3_client_recv_cb api h3 env g) (client_timeout_cb api env) turn s1 = Some (brk2, s')"
        using Cons.prems by (auto simp: bind_eq_Some_conv)
      then show ?thesis using h3_more [OF timeout_more [OF r]] Cons.IH [OF n] by simp
    qed
  qed simp
  note turn = this
  obtain brk st1 where r: "client_pending (h3_client_recv_cb api h3 env g) (client_timeout_cb api env) turn st = Some (brk, st1)"
    and n: "if brk then st' = st1 else client_events (h3_client_recv_cb api h3 env g) (client_timeout_cb api env) evs st1 = Some (b, st')"
    using Cons.prems by (auto simp: bind_eq_Some_conv split: if_splits)
  then show ?case using turn [OF r] Cons.IH [of st1] by (cases brk) simp_all
qed simp

lemma demo_send_nothing:
  "quiche_conn_send api = demo_send \<Longrightarrow>
   send_loop api demo_env send_to 5 \<lparr>demo_out = [], demo_streams = s, demo_closed = c\<rparr> tr =
     Some (True, \<lparr>demo_out = [], demo_streams = s, demo_closed = c\<rparr>, Stderr (STR ''done writing'') [] # tr)"
  by (subst send_loop.simps) (simp add: demo_send_def MAX_DATAGRAM_SIZE_def)

text \<open>The timeout of a connection of the small engine ends the loop.\<close>

lemma demo_client_timeout:
  assumes "cl_conn st = \<lparr>demo_out = [], demo_streams = s, demo_closed = c\<rparr>" and "cl_sock st = 5"
    and "quiche_conn_send api = demo_send" and "\<And>c. quiche_conn_on_timeout api c = c\<lparr>demo_closed := True\<rparr>"
    and "quiche_conn_is_closed api = demo_closed"
  shows "\<exists>st'. client_timeout_cb api demo_env st = Some (True, st') \<and> client.more st' = client.more st"
  using demo_send_nothing [OF assms(3)]
  by (simp add: client_timeout_cb_def client_flush_def assms Let_def)

text \<open>The first flight of a client on the small engine.\<close>

lemma demo_client_flush:
  assumes "quiche_conn_send api = demo_send" and "cl_sock st = 5"
    and "cl_conn st = \<lparr>demo_out = [replicate 16 7], demo_streams = s, demo_closed = c\<rparr>"
  shows "\<exists>st'. client_flush api demo_env st = Some st' \<and> cl_sock st' = 5 \<and> client.more st' = client.more st
    \<and> cl_conn st' = \<lparr>demo_out = [], demo_streams = s, demo_closed = c\<rparr>"
  using demo_client_send [OF assms(1)] by (simp add: client_flush_def assms client_log_def Let_def)

theorem h3_client_undefined_iff_witness:
  "h3_client_main demo_api demo_h3_api demo_env demo_startup (Some []) [] [[Timeout 0]] = None"
proof -
  let ?st = "h3_client_new [] 5 \<lparr>demo_out = [replicate 16 7], demo_streams = [], demo_closed = False\<rparr> [6] [Open_urandom]
      :: (demo_conn, (u64 \<times> quiche_h3_event) list) h3_client"
  obtain st where st: "client_flush demo_api demo_env ?st = Some st" "cl_sock st = 5" "client.more st = client.more ?st"
      "cl_conn st = \<lparr>demo_out = [], demo_streams = [], demo_closed = False\<rparr>"
    using demo_client_flush [of demo_api ?st "[]" False] by (auto simp: h3_client_new_def)
  obtain st' where st': "client_timeout_cb demo_api demo_env st = Some (True, st')" "client.more st' = client.more st"
    using demo_client_timeout [OF st(4,2), of demo_api] by auto
  have "cl_http3 st' = Uninitialised"
    using h3_more [of st' st] h3_more [of st ?st] st(3) st'(2) by (simp add: h3_client_new_def)
  then show ?thesis
    using h3_client_undefined_iff [OF demo_send_ends demo_poll_ends, of demo_env demo_startup "Some []" "[]" "[[Timeout 0]]"]
      st(1) st'(1) by (simp add: demo_client_setup)
qed

text \<open>
  When the handshake never completes, \<open>http3-client.c\<close> never exits normally: the connection's timeout,
  which ends \<open>client.c\<close> with a report and status 0, makes it free an arbitrary pointer.
\<close>

theorem h3_unestablished_undefined:
  assumes "\<And>c. \<not> quiche_conn_is_established api c"
  shows "h3_client_main api h3 env su g host evs \<noteq> Some (Exited 0 tr)"
proof
  assume "h3_client_main api h3 env su g host evs = Some (Exited 0 tr)"
  then obtain conn local t st st' where "client_flush api env (h3_client_new host (cs_socket su) conn local t) = Some st"
    and ev: "client_events (h3_client_recv_cb api h3 env g) (client_timeout_cb api env) evs st = Some (True, st')"
    and e: "h3_client_end st' \<noteq> None"
    by (auto simp: h3_client_main_def bind_eq_Some_conv split: sum.splits prod.splits if_splits)
  then have "cl_http3 st = Uninitialised"
    using client_flush_frame h3_more by (fastforce simp: h3_client_new_def)
  with unestablished_events [OF assms ev] e show False by (simp add: h3_client_end_def)
qed

theorem h3_unestablished_undefined_witness:
  "\<exists>api :: demo_conn quiche_api.
     (\<forall>tr. h3_client_main api demo_h3_api demo_env demo_startup (Some []) [] [[Timeout 0]] \<noteq> Some (Exited 0 tr))
   \<and> (\<exists>tr. client_main api demo_env demo_startup [] [[Timeout 0]] = Some (Exited 0 tr))"
proof -
  let ?api = "demo_api\<lparr>quiche_conn_is_established := \<lambda>c. False\<rparr>"
  let ?st = "client_new 5 \<lparr>demo_out = [replicate 16 7], demo_streams = [], demo_closed = False\<rparr> [6] [Open_urandom]"
  have start: "client_setup ?api demo_env demo_startup [] calls =
      Inr (\<lparr>demo_out = [replicate 16 7], demo_streams = [], demo_closed = False\<rparr>, [6], [Open_urandom])" for calls
    by (rule demo_client_setup) simp
  obtain st where st: "client_flush ?api demo_env ?st = Some st" "cl_sock st = 5"
      "cl_conn st = \<lparr>demo_out = [], demo_streams = [], demo_closed = False\<rparr>"
    using demo_client_flush [of ?api ?st "[]" False] by (auto simp: client_new_def)
  obtain st' where "client_timeout_cb ?api demo_env st = Some (True, st')"
    using demo_client_timeout [OF st(3,2), of ?api] by auto
  then have "client_main ?api demo_env demo_startup [] [[Timeout 0]] = Some (Exited 0 (Conn_free 0 # cl_trace st'))"
    using start st(1) by (simp add: client_main_def)
  then show ?thesis
    using h3_unestablished_undefined [of ?api demo_h3_api demo_env demo_startup "Some []" "[]" "[[Timeout 0]]"]
    by (intro exI [of _ ?api]) simp
qed

text \<open>The chunks of a body that the engine gives, up to an error or an empty one.\<close>

inductive body_read :: "('c, 'h) quiche_h3_api \<Rightarrow> u64 \<Rightarrow> 'h \<Rightarrow> 'c \<Rightarrow> bytes list \<Rightarrow> 'h \<Rightarrow> 'c \<Rightarrow> bool" for h3 s where
  body_failed: "quiche_h3_recv_body h3 h c s 65535 = (Inl e, h', c') \<Longrightarrow> body_read h3 s h c [] h' c'"
| body_empty: "quiche_h3_recv_body h3 h c s 65535 = (Inr [], h', c') \<Longrightarrow> body_read h3 s h c [] h' c'"
| body_chunk: "quiche_h3_recv_body h3 h c s 65535 = (Inr b, h1, c1) \<Longrightarrow> b \<noteq> [] \<Longrightarrow> body_read h3 s h1 c1 bs h' c' \<Longrightarrow>
     body_read h3 s h c (b # bs) h' c'"

lemma body_read_loop:
  "body_read h3 s h c bs h' c' \<Longrightarrow>
   recv_body_loop h3 s h c tr = Some (h', c', rev (map (\<lambda>b. Stdout (format_text b)) bs) @ tr)"
  by (induction arbitrary: tr rule: body_read.induct) (subst recv_body_loop.simps, simp)+

definition printed :: "('c, 'h) quiche_h3_api \<Rightarrow> u64 \<Rightarrow> 'h \<Rightarrow> 'c \<Rightarrow> history \<Rightarrow> 'h \<times> 'c \<times> history \<Rightarrow> bool" where
  "printed h3 s h c tr r \<longleftrightarrow> (\<exists>bs. body_read h3 s h c bs (fst r) (fst (snd r))
     \<and> snd (snd r) = rev (map (\<lambda>b. Stdout (format_text b)) bs) @ tr)"

lemma recv_body_printed_step:
  assumes IH: "\<And>h3 s h c tr r. f h3 s h c tr = Some r \<Longrightarrow> printed h3 s h c tr r"
    and b: "(case quiche_h3_recv_body h3 h c s 65535 of
        (Inl e, h', c') \<Rightarrow> Some (h', c', tr)
      | (Inr b, h', c') \<Rightarrow> if b = [] then Some (h', c', tr) else f h3 s h' c' (Stdout (format_text b) # tr)) = Some r"
  shows "printed h3 s h c tr r"
proof -
  obtain x h1 c1 where x: "quiche_h3_recv_body h3 h c s 65535 = (x, h1, c1)" by (metis prod_cases3)
  consider e where "x = Inl e" | "x = Inr []" | y where "x = Inr y" "y \<noteq> []" by (cases x) auto
  then show ?thesis
  proof cases
    case 1
    then show ?thesis using b x body_failed [OF x [unfolded 1]] by (auto simp: printed_def intro!: exI [of _ "[]"])
  next
    case 2
    then show ?thesis using b x body_empty [OF x [unfolded 2]] by (auto simp: printed_def intro!: exI [of _ "[]"])
  next
    case (3 y)
    then obtain bs where bs: "body_read h3 s h1 c1 bs (fst r) (fst (snd r))"
        "snd (snd r) = rev (map (\<lambda>b. Stdout (format_text b)) bs) @ Stdout (format_text y) # tr"
      using b x IH [of h3 s h1 c1 "Stdout (format_text y) # tr" r] by (auto simp: printed_def)
    show ?thesis
      unfolding printed_def by (rule exI [of _ "y # bs"]) (use bs body_chunk [OF x [unfolded 3(1)] 3(2) bs(1)] in simp)
  qed
qed

lemma recv_body_printed:
  assumes "recv_body_loop h3 s h c tr = Some r"
  shows "printed h3 s h c tr r"
  by (rule recv_body_loop.raw_induct [where P = printed, OF _ assms]) (rule recv_body_printed_step)

text \<open>
  The body of a response is printed as the engine gives it: the loop ends exactly when the engine's
  chunks do, and prints each once and in order, up to the first zero byte in it.
\<close>

theorem response_body_printed:
  "recv_body_loop h3 s h c tr = Some (h', c', tr') \<longleftrightarrow>
     (\<exists>bs. body_read h3 s h c bs h' c' \<and> tr' = rev (map (\<lambda>b. Stdout (format_text b)) bs) @ tr)"
proof
  assume "recv_body_loop h3 s h c tr = Some (h', c', tr')"
  from recv_body_printed [OF this] show "\<exists>bs. body_read h3 s h c bs h' c' \<and> tr' = rev (map (\<lambda>b. Stdout (format_text b)) bs) @ tr"
    by (simp add: printed_def)
qed (auto simp: body_read_loop)

section \<open>Clients and servers\<close>

text \<open>The application protocols a program configures.\<close>

definition offered :: "config_call list \<Rightarrow> bytes list" where
  "offered calls = concat [alpn_protocols b. quiche_config_set_application_protos b \<leftarrow> calls]"

lemma alpn_h3: "alpn_protocols QUICHE_H3_APPLICATION_PROTOCOL = [ascii ''h3'']"
  by code_simp

lemma alpn_hq_client_protos: "alpn_protocols (take 38 hq_client_protos) = hq_protocols"
  by code_simp

text \<open>
  Each client offers exactly the application protocols its server accepts, in the same order: the five
  of HTTP/0.9, and \<open>h3\<close>.
\<close>

theorem protocols_agree:
  "offered client_config = hq_protocols \<and> offered server_config = hq_protocols
   \<and> offered h3_client_config = [ascii ''h3''] \<and> offered h3_server_config = [ascii ''h3'']"
  by (simp add: offered_def client_config_def server_config_def h3_client_config_def h3_server_config_def
    alpn_h3 alpn_hq_client_protos alpn_hq_protos)

text \<open>
  The clients start with a version that is reserved to exercise version negotiation: a configuration can be
  made for it, but no server supports it.  The server's only answer to a client's first packet in that
  version is the version negotiation packet, and it keeps no state.
\<close>

theorem client_version_negotiated:
  assumes "client_setup api env su host calls = Inr (conn, local, tr)"
  shows "\<exists>scid peer config. quiche_connect api tr host scid local peer config = Some conn
    \<and> (\<forall>server senv sconfig buf a (st :: 'd server_state) b st' info.
         recv_datagram server senv sconfig buf a st = Some (b, st') \<longrightarrow> env_ok senv \<longrightarrow> length a \<le> 128 \<longrightarrow>
         read_header buf = Inr info \<longrightarrow> info_version info = config_version config \<longrightarrow>
         info_dcid info \<notin> io_cid ` set (srv_h st) \<longrightarrow>
         srv_h st' = srv_h st \<and> (\<exists>out. sent (srv_trace st') = (srv_sock st, out, a) # sent (srv_trace st)
           \<and> header_from_bytes n out = Inr (\<lparr>hdr_ty = VersionNegotiation, hdr_version = 0, hdr_dcid = info_scid info,
               hdr_scid = info_dcid info, hdr_pkt_num = 0, hdr_pkt_num_len = 0, hdr_token = None,
               hdr_versions = Some [QUICHE_PROTOCOL_VERSION], hdr_key_phase = False\<rparr>, [])))"
proof -
  obtain scid peer config where c: "quiche_connect api tr host scid local peer config = Some conn"
    and v: "config_version config = 0xbabababa"
    using client_setup_connected [OF assms] by blast
  have nv: "\<not> version_is_supported (config_version config)"
    by (simp add: v version_is_supported_def QUICHE_PROTOCOL_VERSION_def)
  show ?thesis
    by (rule exI, rule exI, rule exI, rule conjI, rule c, intro allI impI, rule recv_datagram_vneg, assumption+)
      (simp add: nv)
qed

theorem client_version_negotiated_witness:
  "\<exists>scid peer config. quiche_connect demo_api [Open_urandom] [] scid [6] peer config =
     Some \<lparr>demo_out = [replicate 16 7], demo_streams = [], demo_closed = False\<rparr>"
  using client_version_negotiated [OF demo_client_setup [OF refl, of "[]" "[]"]] by metis

end
