(* ===== verification/StreamProps.thy ===== *)
theory StreamProps
  imports ServerProps Client
begin

text \<open>
  What the HTTP/0.9 programs do with the streams of a connection, as the calls the engine sees: every
  readable stream is read once and in order until a read fails; a finished stream is answered by the
  server, and makes the client print what it read and close the connection.
\<close>

section \<open>An engine that keeps a record\<close>

datatype stream_call =
    Read u64 "quiche_error \<times> u64 option + bytes \<times> bool"
  | Write u64 bytes bool
  | Close bool u64 bytes

text \<open>The engine with the calls on streams, and those that close the connection, added to a log.\<close>

definition recorded :: "(stream_call list \<Rightarrow> 'r \<Rightarrow> stream_call list) \<Rightarrow> ('c \<Rightarrow> 'r \<times> 'c) \<Rightarrow> 'c \<times> stream_call list \<Rightarrow> 'r \<times> 'c \<times> stream_call list" where
  "recorded add f = (\<lambda>(c, l). case f c of (r, c') \<Rightarrow> (r, c', add l r))"

definition stream_recorder :: "'c quiche_api \<Rightarrow> ('c \<times> stream_call list) quiche_api" where
  "stream_recorder api =
     \<lparr>quiche_accept = (\<lambda>tr scid odcid l p g. map_option (\<lambda>c. (c, [])) (quiche_accept api tr scid odcid l p g)),
      quiche_connect = (\<lambda>tr host scid l p g. map_option (\<lambda>c. (c, [])) (quiche_connect api tr host scid l p g)),
      quiche_conn_recv = (\<lambda>c b i. recorded (\<lambda>l r. l) (\<lambda>c. quiche_conn_recv api c b i) c),
      quiche_conn_send = (\<lambda>c n. recorded (\<lambda>l r. l) (\<lambda>c. quiche_conn_send api c n) c),
      quiche_conn_send_quantum = quiche_conn_send_quantum api \<circ> fst,
      quiche_conn_send_on_path = (\<lambda>c n f t. recorded (\<lambda>l r. l) (\<lambda>c. quiche_conn_send_on_path api c n f t) c),
      quiche_conn_send_quantum_on_path = quiche_conn_send_quantum_on_path api \<circ> fst,
      quiche_conn_stream_recv = (\<lambda>c s n. recorded (\<lambda>l r. l @ [Read s r]) (\<lambda>c. quiche_conn_stream_recv api c s n) c),
      quiche_conn_stream_send =
        (\<lambda>c s b fin. recorded (\<lambda>l r. l @ [Write s b fin]) (\<lambda>c. quiche_conn_stream_send api c s b fin) c),
      quiche_conn_readable = quiche_conn_readable api \<circ> fst,
      quiche_conn_writable = quiche_conn_writable api \<circ> fst,
      quiche_conn_max_send_udp_payload_size = quiche_conn_max_send_udp_payload_size api \<circ> fst,
      quiche_conn_timeout_as_nanos = quiche_conn_timeout_as_nanos api \<circ> fst,
      quiche_conn_timeout_as_millis = quiche_conn_timeout_as_millis api \<circ> fst,
      quiche_conn_on_timeout = (\<lambda>(c, l). (quiche_conn_on_timeout api c, l)),
      quiche_conn_close =
        (\<lambda>c app e why. recorded (\<lambda>l r. l @ [Close app e why]) (\<lambda>c. quiche_conn_close api c app e why) c),
      quiche_conn_application_proto = quiche_conn_application_proto api \<circ> fst,
      quiche_conn_peer_cert = quiche_conn_peer_cert api \<circ> fst,
      quiche_conn_session = quiche_conn_session api \<circ> fst,
      quiche_conn_server_name = quiche_conn_server_name api \<circ> fst,
      quiche_conn_is_established = quiche_conn_is_established api \<circ> fst,
      quiche_conn_is_resumed = quiche_conn_is_resumed api \<circ> fst,
      quiche_conn_is_in_early_data = quiche_conn_is_in_early_data api \<circ> fst,
      quiche_conn_is_readable = quiche_conn_is_readable api \<circ> fst,
      quiche_conn_is_draining = quiche_conn_is_draining api \<circ> fst,
      quiche_conn_peer_streams_left_bidi = quiche_conn_peer_streams_left_bidi api \<circ> fst,
      quiche_conn_peer_streams_left_uni = quiche_conn_peer_streams_left_uni api \<circ> fst,
      quiche_conn_is_closed = quiche_conn_is_closed api \<circ> fst,
      quiche_conn_is_timed_out = quiche_conn_is_timed_out api \<circ> fst,
      quiche_conn_stats = quiche_conn_stats api \<circ> fst,
      quiche_conn_path_stats = quiche_conn_path_stats api \<circ> fst,
      compute_retry_integrity_tag = compute_retry_integrity_tag api\<rparr>"

lemma stream_recorder_simps [simp]:
  "quiche_conn_stream_recv (stream_recorder api) (c, l) s n =
     (case quiche_conn_stream_recv api c s n of (r, c') \<Rightarrow> (r, c', l @ [Read s r]))"
  "quiche_conn_stream_send (stream_recorder api) (c, l) s b fin =
     (case quiche_conn_stream_send api c s b fin of (r, c') \<Rightarrow> (r, c', l @ [Write s b fin]))"
  "quiche_conn_close (stream_recorder api) (c, l) app e why =
     (case quiche_conn_close api c app e why of (r, c') \<Rightarrow> (r, c', l @ [Close app e why]))"
  by (simp_all add: stream_recorder_def recorded_def)

text \<open>
  The reads of the streams \<open>ss\<close>, each with its result: in order, all of them, or the first ones up to
  one that failed; and the calls they lead to, with \<open>f s\<close> for a stream \<open>s\<close> that is finished.
\<close>

type_synonym stream_read = "u64 \<times> (quiche_error \<times> u64 option + bytes \<times> bool)"

fun reads_of :: "u64 list \<Rightarrow> stream_read list \<Rightarrow> bool" where
  "reads_of [] rs \<longleftrightarrow> rs = []"
| "reads_of (s # ss) [] \<longleftrightarrow> False"
| "reads_of (s # ss) ((s', r) # rs) \<longleftrightarrow> s' = s \<and> (case r of Inl e \<Rightarrow> rs = [] | Inr b \<Rightarrow> reads_of ss rs)"

definition calls :: "(u64 \<Rightarrow> stream_call) \<Rightarrow> stream_read list \<Rightarrow> stream_call list" where
  "calls f rs = concat (map (\<lambda>(s, r). Read s r # (case r of Inr (b, fin) \<Rightarrow> if fin then [f s] else [] | Inl e \<Rightarrow> [])) rs)"

definition data_of :: "stream_read list \<Rightarrow> bytes" where
  "data_of rs = concat (map (\<lambda>(s, r). case r of Inr (b, fin) \<Rightarrow> format_text b | Inl e \<Rightarrow> []) rs)"

lemma calls_simps [simp]:
  "calls f [] = []"
  "calls f ((s, Inl e) # rs) = Read s (Inl e) # calls f rs"
  "calls f ((s, Inr (b, fin)) # rs) = Read s (Inr (b, fin)) # (if fin then [f s] else []) @ calls f rs"
  by (simp_all add: calls_def)

lemma data_of_simps [simp]:
  "data_of [] = []" "data_of ((s, Inl e) # rs) = data_of rs" "data_of ((s, Inr (b, fin)) # rs) = format_text b @ data_of rs"
  by (simp_all add: data_of_def)

text \<open>What was written to the standard output.\<close>

fun stdout :: "history \<Rightarrow> bytes" where
  "stdout [] = []"
| "stdout (Stdout b # tr) = stdout tr @ b"
| "stdout (e # tr) = stdout tr"

section \<open>Server\<close>

lemma stream_loop_reads:
  assumes "stream_loop (stream_recorder api) ss (c, l) tr = ((c', l'), tr')"
  shows "\<exists>rs. reads_of ss rs \<and> l' = l @ calls (\<lambda>s. Write s resp True) rs"
  using assms
proof (induction ss arbitrary: c l tr)
  case (Cons s ss)
  obtain r c1 where r: "quiche_conn_stream_recv api c s 65535 = (r, c1)" by fastforce
  show ?case
  proof (cases r)
    case (Inl e)
    then show ?thesis using Cons.prems r by (intro exI [of _ "[(s, Inl e)]"]) simp
  next
    case (Inr p)
    obtain b fin where p: "p = (b, fin)" by fastforce
    obtain x c2 where w: "quiche_conn_stream_send api c1 s resp True = (x, c2)" by fastforce
    have t: "take 5 resp = resp" by (simp add: resp_def)
    have "\<exists>rs. reads_of ss rs \<and> l' = l @ calls (\<lambda>s. Write s resp True) ((s, Inr (b, fin)) # rs)"
      using Cons.prems r Inr p w t
        Cons.IH [of c2 "l @ [Read s (Inr (b, True)), Write s resp True]" "Stderr (STR ''stream %lu is readable'') [uint s] # tr"]
        Cons.IH [of c1 "l @ [Read s (Inr (b, False))]" "Stderr (STR ''stream %lu is readable'') [uint s] # tr"]
      by (cases fin) auto
    then obtain rs where "reads_of ss rs" "l' = l @ calls (\<lambda>s. Write s resp True) ((s, Inr (b, fin)) # rs)" by blast
    then show ?thesis by (intro exI [of _ "(s, Inr (b, fin)) # rs"]) simp
  qed
qed simp

text \<open>
  C11: \<open>server.c\<close> reads the readable streams of a connection once each and in order, until a read fails, and
  answers a stream exactly when it is finished, by the five bytes of the response and the end of the
  stream, before it reads the next.
\<close>

theorem streams_answered:
  assumes "stream_loop (stream_recorder api) ss (c, l) tr = ((c', l'), tr')"
  shows "\<exists>rs. reads_of ss rs \<and> l' = l @ calls (\<lambda>s. Write s (ascii ''byez'' @ [0x0a]) True) rs"
proof -
  have "resp = ascii ''byez'' @ [0x0a]" by (simp add: resp_def ascii_def)
  with stream_loop_reads [OF assms] show ?thesis by simp
qed

theorem streams_answered_witness:
  "\<exists>c' tr'. stream_loop (stream_recorder demo_api) [0, 4]
       (\<lparr>demo_out = [], demo_streams = [0, 4], demo_closed = False\<rparr>, []) [] =
     ((c', [Read 0 (Inr ([], True)), Write 0 resp True, Read 4 (Inr ([], True)), Write 4 resp True]), tr')
   \<and> (\<exists>rs. reads_of [0, 4] rs \<and> calls (\<lambda>s. Write s (ascii ''byez'' @ [0x0a]) True) rs =
        [Read 0 (Inr ([], True)), Write 0 resp True, Read 4 (Inr ([], True)), Write 4 resp True])"
proof -
  have t: "take 5 resp = resp" by (simp add: resp_def)
  obtain c' tr' where s: "stream_loop (stream_recorder demo_api) [0, 4]
       (\<lparr>demo_out = [], demo_streams = [0, 4], demo_closed = False\<rparr>, []) [] =
     ((c', [Read 0 (Inr ([], True)), Write 0 resp True, Read 4 (Inr ([], True)), Write 4 resp True]), tr')"
    by (simp add: t)
  from streams_answered [OF s] s show ?thesis by simp metis
qed

section \<open>Client\<close>

lemma close_recorded:
  assumes "close_conn (stream_recorder api) (c, l) tr = ((c', l'), tr')"
  shows "l' = l @ [Close True 0 []] \<and> stdout tr' = stdout tr"
  using assms by (auto simp: close_conn_def split: prod.splits sum.splits)

text \<open>
  C12: \<open>client.c\<close> reads the readable streams once each and in order, until a read fails, prints what it
  has read of them, up to the first zero byte of each read, and closes the connection for every stream that is
  finished.
\<close>

theorem streams_printed:
  assumes "read_streams (stream_recorder api) ss (c, l) tr = ((c', l'), tr')"
  shows "\<exists>rs. reads_of ss rs \<and> l' = l @ calls (\<lambda>s. Close True 0 []) rs \<and> stdout tr' = stdout tr @ data_of rs"
  using assms
proof (induction ss arbitrary: c l tr)
  case (Cons s ss)
  let ?tr = "Stderr (STR ''stream %lu is readable'') [uint s] # tr"
  obtain r c1 where r: "quiche_conn_stream_recv api c s 65535 = (r, c1)" by fastforce
  show ?case
  proof (cases r)
    case (Inl e)
    then show ?thesis using Cons.prems r by (intro exI [of _ "[(s, Inl e)]"]) auto
  next
    case (Inr p)
    obtain b fin where p: "p = (b, fin)" by fastforce
    obtain c2 l2 tr2 where k: "(if fin then close_conn (stream_recorder api) (c1, l @ [Read s (Inr (b, fin))]) (Stdout (format_text b) # ?tr)
        else ((c1, l @ [Read s (Inr (b, fin))]), Stdout (format_text b) # ?tr)) = ((c2, l2), tr2)" by (metis prod.collapse)
    have k': "l2 = l @ [Read s (Inr (b, fin))] @ (if fin then [Close True 0 []] else []) \<and> stdout tr2 = stdout tr @ format_text b"
      using k close_recorded [of api c1 "l @ [Read s (Inr (b, fin))]"] by (auto split: if_splits)
    obtain rs where "reads_of ss rs" "l' = l2 @ calls (\<lambda>s. Close True 0 []) rs" "stdout tr' = stdout tr2 @ data_of rs"
      using Cons.IH [of c2 l2 tr2] Cons.prems r Inr p k by auto
    then show ?thesis using k' by (intro exI [of _ "(s, Inr (b, fin)) # rs"]) simp
  qed
qed simp

theorem streams_printed_witness:
  "\<exists>c' tr'. read_streams (stream_recorder demo_api) [4]
       (\<lparr>demo_out = [], demo_streams = [4], demo_closed = False\<rparr>, []) [] =
     ((c', [Read 4 (Inr ([], True)), Close True 0 []]), tr') \<and> stdout tr' = []
   \<and> (\<exists>rs. reads_of [4] rs \<and> calls (\<lambda>s. Close True 0 []) rs = [Read 4 (Inr ([], True)), Close True 0 []] \<and> data_of rs = [])"
proof -
  obtain c' tr' where s: "read_streams (stream_recorder demo_api) [4]
       (\<lparr>demo_out = [], demo_streams = [4], demo_closed = False\<rparr>, []) [] =
     ((c', [Read 4 (Inr ([], True)), Close True 0 []]), tr')" and "stdout tr' = []"
    by (simp add: close_conn_def format_text_def)
  with streams_printed [OF s] show ?thesis by simp metis
qed

end
