(* ===== verification/PacketProps.thy ===== *)
theory PacketProps
  imports Packet
begin

text \<open>
  What the functions of \<open>quiche.h\<close> on packets promise, for all buffers: variable-length integers, headers,
  and the numbers that stand for errors.
\<close>

section \<open>Variable-length integers\<close>

text \<open>
  What \<open>quiche_put_varint\<close> writes, \<open>quiche_get_varint\<close> reads back, whatever follows it, and says how
  many bytes it took.
\<close>

theorem varint_roundtrip:
  assumes "quiche_put_varint cap v = Some (Inr b)"
  shows "quiche_get_varint (b @ r) = Inr (length b, v)"
proof -
  have v: "unat v < 2 ^ 62"
    using assms octets_put_varint_None_iff [of v cap "[]"] by (auto simp: quiche_put_varint_def)
  then have "b = varint_bytes (unat v)"
    using assms by (auto simp: quiche_put_varint_def octets_put_varint_Some octets_put_bytes_def split: if_splits)
  then show ?thesis using octets_get_varint_bytes [OF v, of r] by (simp add: quiche_get_varint_def)
qed

theorem varint_roundtrip_witness: "quiche_get_varint ([0x7b, 0xbd] @ [0xff]) = Inr (2, 15293)"
proof -
  have "quiche_put_varint 8 15293 = Some (Inr [0x7b, 0xbd])"
  proof -
    have "varint_bytes 15293 = be_bytes (Suc (Suc 0)) 31677"
      by (simp add: varint_bytes_def numeral_2_eq_2 del: be_bytes.simps)
    also have "\<dots> = [0x7b, 0xbd]" by simp
    finally have "varint_bytes 15293 = [0x7b, 0xbd]" .
    then show ?thesis
      using octets_put_varint_Some [of 15293 8 "[]"] by (simp add: quiche_put_varint_def octets_put_bytes_def)
  qed
  from varint_roundtrip [OF this, of "[0xff]"] show ?thesis by simp
qed

text \<open>
  \<open>quiche_put_varint\<close> panics exactly from 2^62 on, fails exactly when the buffer is too small for the
  shortest of the four lengths that holds the number, and otherwise uses that length.
\<close>

theorem put_varint_exact:
  "(quiche_put_varint cap v = None \<longleftrightarrow> 2 ^ 62 \<le> unat v)
   \<and> (quiche_put_varint cap v = Some (Inl e) \<longleftrightarrow> unat v < 2 ^ 62 \<and> e = QUICHE_ERR_BUFFER_TOO_SHORT
        \<and> cap < (if unat v < 2 ^ 6 then 1 else if unat v < 2 ^ 14 then 2 else if unat v < 2 ^ 30 then 4 else 8))
   \<and> ((\<exists>b. quiche_put_varint cap v = Some (Inr b) \<and> length b = n) \<longleftrightarrow> unat v < 2 ^ 62 \<and> n \<le> cap
        \<and> n = (if unat v < 2 ^ 6 then 1 else if unat v < 2 ^ 14 then 2 else if unat v < 2 ^ 30 then 4 else 8))"
proof (cases "unat v < 2 ^ 62")
  case True
  have "length (varint_bytes (unat v)) =
      (if unat v < 2 ^ 6 then 1 else if unat v < 2 ^ 14 then 2 else if unat v < 2 ^ 30 then 4 else 8)"
    by (simp add: length_varint_bytes)
  then show ?thesis
    using True octets_put_varint_Some [OF True, of cap "[]"] by (auto simp: quiche_put_varint_def octets_put_bytes_def)
next
  case False
  then have "quiche_put_varint cap v = None" using octets_put_varint_None_iff [of v cap "[]"] by (simp add: quiche_put_varint_def)
  then show ?thesis using False by simp
qed

section \<open>Headers\<close>

text \<open>
  C38: The header writer and the header parser agree: a long header of the supported version with the
  fields its type has is read back as it was, except for the packet number, which is protected, and what
  follows it is left.
\<close>

theorem header_written_read:
  assumes "header_ok h" and "header_to_bytes h cap = Some (Inr w)"
  shows "header_from_bytes n (w @ r) = Inr (h\<lparr>hdr_pkt_num := 0, hdr_pkt_num_len := 0, hdr_key_phase := False\<rparr>, r)
    \<and> length w \<le> cap"
proof -
  obtain ty where "header_to_bytes h cap = Some (octets_put_bytes (long_bytes h ty @ token_bytes h) cap [])"
    using header_to_bytes_eq [OF assms(1)] .
  then have "length w \<le> cap" using assms(2) by (auto simp: octets_put_bytes_def split: if_splits)
  then show ?thesis using header_roundtrip [OF assms] by blast
qed

definition demo_header :: header where
  "demo_header = \<lparr>hdr_ty = Initial, hdr_version = 1, hdr_dcid = [1, 2], hdr_scid = [3], hdr_pkt_num = 0,
     hdr_pkt_num_len = 1, hdr_token = Some [9], hdr_versions = None, hdr_key_phase = False\<rparr>"

theorem header_written_read_witness:
  "header_from_bytes 16 ([0xc0, 0, 0, 0, 1, 2, 1, 2, 1, 3, 1, 9] @ [7]) =
     Inr (demo_header\<lparr>hdr_pkt_num_len := 0\<rparr>, [7])"
proof -
  have ok: "header_ok demo_header" by (simp add: header_ok_def demo_header_def QUICHE_PROTOCOL_VERSION_def)
  have w: "header_to_bytes demo_header 20 = Some (Inr [0xc0, 0, 0, 0, 1, 2, 1, 2, 1, 3, 1, 9])" by code_simp
  from header_written_read [OF ok w, of 16 "[7]"] show ?thesis by (simp add: demo_header_def)
qed

lemma octets_get_u32_iff: "octets_get_u32 b = Inr (v, r) \<longleftrightarrow> b = be_bytes 4 (unat v) @ r"
proof
  assume "octets_get_u32 b = Inr (v, r)"
  then obtain x where x: "length x = 4" "b = x @ r" "v = of_nat (be_nat x)"
    by (auto simp: octets_get_u32_def oct_bind_Inr_iff octets_get_bytes_iff)
  have l: "be_nat x < 256 ^ 4" using be_nat_bound [of x] x(1) by simp
  then have "unat v = be_nat x" unfolding x(3) by (subst unat_of_nat) simp
  then have "be_bytes 4 (unat v) = x"
    using x(1) l by (intro be_nat_inj) (simp_all add: be_nat_be_bytes del: be_bytes.simps)
  then show "b = be_bytes 4 (unat v) @ r" using x(2) by simp
qed simp

lemma get_cid_iff:
  assumes "get_cid v b = Inr (c, r)"
  shows "b = cid_field c @ r"
proof -
  obtain l b' where b: "b = l # b'" and "length c = unat l" and "b' = c @ r"
    using assms by (auto simp: get_cid_def oct_bind_Inr_iff octets_get_u8_iff octets_get_bytes_iff split: if_splits)
  then show ?thesis by (simp add: cid_field_def)
qed

text \<open>The two bits of the first byte that tell the types of a long header apart, as a number.\<close>

definition type_bits :: "u8 \<Rightarrow> nat" where
  "type_bits first = unat first div 16 mod 4"

lemma type_bits_eq: "unat (drop_bit 4 (first AND 0x30)) = type_bits (first :: u8)"
proof -
  have "drop_bit 4 (0x30 :: u8) = mask 2" by code_simp
  then have "drop_bit 4 (first AND 0x30) = take_bit 2 (drop_bit 4 first)"
    by (simp only: drop_bit_and take_bit_eq_mask)
  then show ?thesis
    by (simp only: type_bits_def unsigned_take_bit_eq unat_drop_bit_eq) (simp add: take_bit_eq_mod drop_bit_eq_div)
qed

lemma long_type_bits_exact:
  assumes "version \<noteq> 0"
  shows "pkt_type_code (long_type version first) = [1, 4, 3, 2] ! type_bits first"
    and "long_type version first = [Initial, ZeroRTT, Handshake, Retry] ! type_bits first"
proof -
  have b: "drop_bit 4 (first AND 0x30) = k \<longleftrightarrow> type_bits first = unat k" for k :: u8
    by (metis type_bits_eq word_unat_eq_iff)
  have "type_bits first < 4" by (simp add: type_bits_def)
  then consider "type_bits first = 0" | "type_bits first = 1" | "type_bits first = 2" | "type_bits first = 3" by linarith
  then have "long_type version first = [Initial, ZeroRTT, Handshake, Retry] ! type_bits first
      \<and> pkt_type_code (long_type version first) = [1, 4, 3, 2] ! type_bits first"
    unfolding long_type_def b by cases (simp_all add: assms)
  then show "pkt_type_code (long_type version first) = [1, 4, 3, 2] ! type_bits first"
    and "long_type version first = [Initial, ZeroRTT, Handshake, Retry] ! type_bits first" by auto
qed

text \<open>The token of a packet, with what follows the connection IDs: a length and the bytes, or all but the tag.\<close>

lemma octets_get_varint_suffix: "octets_get_varint b = Inr (v, r) \<Longrightarrow> \<exists>l. b = l @ r"
  by (cases b)
    (auto simp: octets_get_varint_def Let_def oct_bind_Inr_iff octets_get_u8_def octets_get_u16_def octets_get_u32_def
      octets_get_u64_def octets_get_bytes_iff split: if_splits)

lemma get_token_Initial:
  assumes "get_token Initial b = Inr ((tok, vs), r)"
  shows "\<exists>l t. tok = Some t \<and> b = l @ t @ r \<and> quiche_get_varint b = Inr (length l, of_nat (length t))"
proof -
  obtain len b' t where v: "octets_get_varint b = Inr (len, b')" and t: "length t = unat len" "b' = t @ r" "tok = Some t"
    using assms by (auto simp: get_token_def octets_get_bytes_with_varint_length_def oct_bind_Inr_iff octets_get_bytes_iff)
  obtain l where l: "b = l @ b'" using octets_get_varint_suffix [OF v] by blast
  then have "length b - length b' = length l" by simp
  then have "quiche_get_varint b = Inr (length l, of_nat (length t))"
    by (simp add: quiche_get_varint_def v t(1))
  with l t show ?thesis by blast
qed

lemma get_token_Retry:
  assumes "get_token Retry b = Inr ((tok, vs), r)"
  shows "\<exists>t. tok = Some t \<and> b = t @ r \<and> length r = 16"
proof -
  have n: "\<not> length b < 16" using assms by (auto simp: get_token_def)
  then have "\<exists>t. length t = length b - 16 \<and> b = t @ r \<and> tok = Some t"
    using assms by (simp add: get_token_def oct_bind_Inr_iff octets_get_bytes_iff) metis
  then obtain t where t: "length t = length b - 16" "b = t @ r" "tok = Some t" by blast
  have "length b = length t + length r" unfolding t(2) by simp
  then have "length r = 16" using t(1) n by linarith
  with t(2,3) show ?thesis by (intro exI [of _ t]) simp
qed

lemma get_token_other:
  "get_token ty b = Inr ((tok, vs), r) \<Longrightarrow> ty \<noteq> Initial \<Longrightarrow> ty \<noteq> Retry \<Longrightarrow> tok = None"
  by (cases ty) (auto simp: get_token_def oct_bind_Inr_iff)

text \<open>
  C39: What \<open>quiche_header_info\<close> reports is what the packet says, and fits the caller's buffers.  Of a long
  header: the version and the two connection IDs are its bytes, with the length of each before it; the type is
  6 for version negotiation and otherwise told by two bits of the first byte; the token of an Initial packet
  is what follows, with its length as a varint before it, that of a Retry packet all that follows but the
  last 16 bytes, and no other packet has one.  Of a short header, type 5, the bytes after the first are the
  destination connection ID of the length the caller expects.
\<close>

theorem header_info_sound:
  assumes "quiche_header_info b dcil scid_len dcid_len token_len = Inr i"
  shows "length (info_scid i) \<le> scid_len \<and> length (info_dcid i) \<le> dcid_len \<and> length (info_token i) \<le> token_len
    \<and> (\<exists>first rest. if is_long first
         then b = first # be_bytes 4 (unat (info_version i)) @ cid_field (info_dcid i) @ cid_field (info_scid i) @ rest
           \<and> info_type i = (if info_version i = 0 then 6 else [1, 4, 3, 2] ! type_bits first)
           \<and> (if info_type i = 1
              then \<exists>l more. rest = l @ info_token i @ more \<and> quiche_get_varint rest = Inr (length l, of_nat (length (info_token i)))
              else if info_type i = 2 then \<exists>tag. rest = info_token i @ tag \<and> length tag = 16
              else info_token i = [])
         else b = first # info_dcid i @ rest \<and> length (info_dcid i) = dcil \<and> info_version i = 0 \<and> info_scid i = []
           \<and> info_type i = 5 \<and> info_token i = [])"
proof -
  obtain h r where h: "header_from_bytes dcil b = Inr (h, r)"
    and i: "info_version i = hdr_version h" "info_dcid i = hdr_dcid h" "info_scid i = hdr_scid h"
      "info_type i = pkt_type_code (hdr_ty h)" "info_token i = (case hdr_token h of Some t \<Rightarrow> t | None \<Rightarrow> [])"
    using assms by (auto simp: quiche_header_info_def split: sum.splits option.splits if_splits)
  obtain first b' where b: "b = first # b'" using h by (auto simp: header_from_bytes_def oct_bind_Inr_iff octets_get_u8_iff)
  show ?thesis
  proof (cases "is_long first")
    case True
    obtain v d s b1 b2 b3 tok vs where "octets_get_u32 b' = Inr (v, b1)" "get_cid v b1 = Inr (d, b2)" "get_cid v b2 = Inr (s, b3)"
      and tok: "get_token (long_type v first) b3 = Inr ((tok, vs), r)"
      and f: "hdr_version h = v" "hdr_dcid h = d" "hdr_scid h = s" "hdr_ty h = long_type v first" "hdr_token h = tok"
      using h b True by (auto simp: header_from_bytes_def long_header_def oct_bind_Inr_iff split: prod.splits)
    then have w: "b = first # be_bytes 4 (unat v) @ cid_field d @ cid_field s @ b3"
      using b by (auto simp: octets_get_u32_iff dest!: get_cid_iff)
    have ty: "info_type i = (if v = 0 then 6 else [1, 4, 3, 2] ! type_bits first)"
      using long_type_bits_exact(1) [of v first] by (simp add: i f long_type_def)
    have "if info_type i = 1
        then \<exists>l more. b3 = l @ info_token i @ more \<and> quiche_get_varint b3 = Inr (length l, of_nat (length (info_token i)))
        else if info_type i = 2 then \<exists>tag. b3 = info_token i @ tag \<and> length tag = 16
        else info_token i = []"
    proof (cases "long_type v first")
      case Initial
      then obtain l t where "tok = Some t" "b3 = l @ t @ r" "quiche_get_varint b3 = Inr (length l, of_nat (length t))"
        using get_token_Initial [OF tok [unfolded Initial]] by blast
      then show ?thesis using Initial by (simp add: i f) blast
    next
      case Retry
      then show ?thesis using get_token_Retry [OF tok [unfolded Retry]] by (auto simp: i f)
    qed (use get_token_other [OF tok] in \<open>simp_all add: i f\<close>)
    then show ?thesis using quiche_header_info_sizes [OF assms] w ty True f
      by (intro conjI exI [of _ first] exI [of _ b3]) (simp_all add: i(1-3))
  next
    case False
    then obtain d where "b' = d @ r" "length d = dcil" "hdr_dcid h = d" "hdr_version h = 0" "hdr_scid h = []" "hdr_ty h = Short"
      "hdr_token h = None"
      using h b by (auto simp: header_from_bytes_def oct_bind_Inr_iff octets_get_bytes_iff)
    then show ?thesis using quiche_header_info_sizes [OF assms] b False
      by (intro conjI exI [of _ first] exI [of _ r]) (simp_all add: i)
  qed
qed

theorem header_info_sound_witness:
  "\<exists>i. quiche_header_info [0xc0, 0, 0, 0, 1, 2, 1, 2, 1, 3, 1, 9, 7] 16 20 20 100 = Inr i \<and> length (info_dcid i) \<le> 20
    \<and> info_dcid i = [1, 2] \<and> info_type i = 1 \<and> info_token i = [9]"
proof -
  have q: "quiche_header_info [0xc0, 0, 0, 0, 1, 2, 1, 2, 1, 3, 1, 9, 7] 16 20 20 100 =
      Inr \<lparr>info_version = 1, info_type = 1, info_scid = [3], info_dcid = [1, 2], info_token = [9]\<rparr>" by code_simp
  from header_info_sound [OF q] q show ?thesis by simp
qed

section \<open>Error codes\<close>

text \<open>
  The error codes of \<open>quiche.h\<close> tell all errors apart and are exactly the numbers from -23 to -1, so no
  length or stream is ever taken for an error.
\<close>

theorem error_codes_exact: "inj quiche_error_code \<and> range quiche_error_code = {- 23 .. - 1}"
proof -
  have "n \<in> range quiche_error_code" if "- 23 \<le> n" "n \<le> - 1" for n
    using that quiche_error_of_code_range [of n] quiche_error_of_code_Some_iff by fastforce
  then show ?thesis using inj_quiche_error_code quiche_error_code_bounds by auto
qed

text \<open>
  The HTTP/3 error codes tell all errors apart, and every transport error that is passed on as one has a
  name in \<open>quiche.h\<close>, but for the newest.
\<close>

theorem h3_error_codes:
  "inj quiche_h3_error_code
   \<and> ((\<exists>h. quiche_h3_error_code h = h3_of_transport e) \<longleftrightarrow> e \<noteq> QUICHE_ERR_INVALID_DCID_INITIALIZATION)"
  by (simp add: inj_quiche_h3_error_code h3_of_transport_named_iff)

end
