(* ===== verification/BoringProps.thy ===== *)
theory BoringProps
  imports Cbb Oid SetOf Internal
begin

text \<open>
  What the encoders and decoders of BoringSSL that the engine is built on promise, for all inputs.
\<close>

text \<open>
  C40: \<open>CBS_get_any_asn1_element\<close> accepts exactly the DER encodings of an element with a valid tag and a
  content of less than 2^32 bytes, and leaves what follows.
\<close>

theorem der_elements_exact:
  "CBS_get_any_asn1_element c = (Some el, rest) \<longleftrightarrow>
    (\<exists>tag content. tag_ok tag \<and> length content < 2 ^ 32 \<and>
       c = der tag content @ rest \<and> el = der_element tag content)"
  by (rule any_asn1_element_iff)

lemma length_der_small:
  assumes "length content \<le> 8 + 1"
  shows "length (der tag content) < 2 ^ 64"
  using assms length_der_tag [of tag] length_der_len [of "length content"] by (simp add: der_def der_header_def)

text \<open>
  An integer that is written by the builder is read back by the parser, unsigned or signed, when memory
  does not run out.
\<close>

theorem der_integers_roundtrip:
  assumes "\<And>m. alloc m" and "CBB_init alloc n = Some s" and "n < 2 ^ 64"
  shows "\<exists>s1 out1 s2 out2. CBB_add_asn1_uint64 alloc 0 v s = (True, s1) \<and> CBB_finish alloc 0 True s1 = Some out1
    \<and> CBS_get_asn1_uint64 (out1 @ rest) = (Some v, rest)
    \<and> CBB_add_asn1_int64 alloc 0 v s = (True, s2) \<and> CBB_finish alloc 0 True s2 = Some out2
    \<and> CBS_get_asn1_int64 (out2 @ rest) = (Some v, rest)"
proof -
  let ?u = "der CBS_ASN1_INTEGER (der_int (uint v))" and ?i = "der CBS_ASN1_INTEGER (der_int (sint v))"
  have "length (der_int (sint v)) \<le> 8 + 1"
  proof (rule length_der_int_le)
    show "- (128 * 256 ^ 8) \<le> sint v" using sint_greater_eq [of v] by simp
    show "sint v < 128 * 256 ^ 8" using sint_lt [of v] by simp
  qed
  then have "length ?i < 2 ^ 64" by (rule length_der_small)
  moreover have "length ?u < 2 ^ 64" by (rule length_der_small [OF length_der_int_u64])
  ultimately obtain s1 s2 where "CBB_add_asn1_uint64 alloc 0 v s = (True, s1)" "CBB_finish alloc 0 True s1 = Some ?u"
    and "CBB_add_asn1_int64 alloc 0 v s = (True, s2)" "CBB_finish alloc 0 True s2 = Some ?i"
    using builds_fresh_ok [OF builds_asn1_uint64 [of alloc 0 v CBS_ASN1_INTEGER] assms(2,3)]
      builds_fresh_ok [OF builds_asn1_int64 [of alloc 0 v CBS_ASN1_INTEGER] assms(2,3)] assms(1)
    unfolding CBB_add_asn1_uint64_def CBB_add_asn1_int64_def by metis
  moreover have "CBS_get_asn1_uint64 (?u @ rest) = (Some v, rest)" "CBS_get_asn1_int64 (?i @ rest) = (Some v, rest)"
    by (simp_all add: CBS_get_asn1_uint64_iff CBS_get_asn1_int64_iff)
  ultimately show ?thesis by blast
qed

theorem der_integers_roundtrip_witness:
  "\<exists>s1 out. CBB_add_asn1_uint64 (\<lambda>m. True) 0 300 (CBB_init_fixed 0\<lparr>can_resize := True\<rparr>) = (True, s1)
     \<and> CBB_finish (\<lambda>m. True) 0 True s1 = Some out \<and> CBS_get_asn1_uint64 (out @ [7]) = (Some 300, [7])"
  using der_integers_roundtrip [of "\<lambda>m. True" 0 "CBB_init_fixed 0\<lparr>can_resize := True\<rparr>" 300 "[7]"]
  by (auto simp: CBB_init_def CBB_init_fixed_def)

text \<open>
  \<open>CBS_asn1_oid_to_text\<close> gives a text exactly for the encoding of an object identifier, all of whose
  components fit 64 bits, and the text is its components in decimal, separated by dots, when memory
  does not run out.
\<close>

theorem oid_text_exact:
  assumes "\<And>m. alloc m" and "length t < 2 ^ 64"
  shows "CBS_asn1_oid_to_text alloc c = Some t \<longleftrightarrow> (\<exists>arcs. oid_ok arcs \<and> c = oid_bytes arcs \<and> t = oid_text arcs @ [0])"
  using assms oid_to_text_sound [of alloc c t] oid_to_text_complete [of _ alloc] by auto

theorem oid_text_exact_witness:
  "CBS_asn1_oid_to_text (\<lambda>m. True) (oid_bytes [1, 2]) = Some ([0x31, 0x2e, 0x32] @ [0])"
proof -
  have "oid_ok [1, 2]" by (simp add: oid_ok_def)
  moreover have "oid_text [1, 2] = [0x31, 0x2e, 0x32]" by (simp add: dec_text.simps)
  ultimately show ?thesis
    using oid_text_exact [of "\<lambda>m. True" "[0x31, 0x2e, 0x32] @ [0]" "oid_bytes [1, 2]"] by fastforce
qed

text \<open>
  \<open>CRYPTO_memcmp\<close> gives zero exactly for equal contents, whatever the position of the first difference.
\<close>

theorem memcmp_exact:
  assumes "length a = n" and "length b = n"
  shows "CRYPTO_memcmp a b n = 0 \<longleftrightarrow> a = b"
  using assms by (rule CRYPTO_memcmp_zero)

theorem memcmp_exact_witness: "CRYPTO_memcmp [1, 2] [1, 3] 2 \<noteq> 0"
  using memcmp_exact [of "[1, 2]" 2 "[1, 3]"] by simp

end
