(* ===== verification/ServerSpec.thy ===== *)
theory ServerSpec
  imports Server Http3Server
begin

text \<open>
  The two servers as one abstract machine: a store of connections by address, on which a step makes a
  connection at an address that is not in use, takes a connection one call of the engine further, or
  removes a connection.  Which connections may be made and which calls may be made on them are parameters,
  given for each program below.  Every run of a server is a run of its machine, whatever datagrams arrive.
  The machine goes by addresses and not by connection IDs, because a datagram with an ID of another length
  than the local one may give two connections the same key.
\<close>

section \<open>The machine\<close>

inductive map_step ::
  "('v \<Rightarrow> bool) \<Rightarrow> ('v \<Rightarrow> 'v \<Rightarrow> bool) \<Rightarrow> ('v \<Rightarrow> bool) \<Rightarrow> (nat \<rightharpoonup> 'v) \<Rightarrow> (nat \<rightharpoonup> 'v) \<Rightarrow> bool"
  for birth drive gone where
  born: "m p = None \<Longrightarrow> birth v \<Longrightarrow> map_step birth drive gone m (m(p \<mapsto> v))"
| driven: "m p = Some v \<Longrightarrow> drive v v' \<Longrightarrow> map_step birth drive gone m (m(p \<mapsto> v'))"
| dropped: "m p = Some v \<Longrightarrow> gone v \<Longrightarrow> map_step birth drive gone m (m(p := None))"

abbreviation map_steps ::
  "('v \<Rightarrow> bool) \<Rightarrow> ('v \<Rightarrow> 'v \<Rightarrow> bool) \<Rightarrow> ('v \<Rightarrow> bool) \<Rightarrow> (nat \<rightharpoonup> 'v) \<Rightarrow> (nat \<rightharpoonup> 'v) \<Rightarrow> bool" where
  "map_steps birth drive gone \<equiv> (map_step birth drive gone)\<^sup>*\<^sup>*"

lemma map_steps_step:
  "map_steps birth drive gone m m1 \<Longrightarrow> map_step birth drive gone m1 m2 \<Longrightarrow> map_steps birth drive gone m m2"
  by (rule rtranclp.rtrancl_into_rtrancl)

lemma map_step_mono:
  assumes "map_step b d g m m'" and "\<And>v. b v \<Longrightarrow> b' v" and "\<And>v v'. d v v' \<Longrightarrow> d' v v'"
  shows "map_step b' d' g m m'"
  using assms by (induction rule: map_step.induct) (auto intro: map_step.intros)

lemma map_steps_mono:
  assumes "map_steps b d g m m'" and "\<And>v. b v \<Longrightarrow> b' v" and "\<And>v v'. d v v' \<Longrightarrow> d' v v'"
  shows "map_steps b' d' g m m'"
  using assms(1)
proof (induction rule: rtranclp_induct)
  case (step m1 m2)
  have "map_step b' d' g m1 m2" by (rule map_step_mono [OF step.hyps(2)]) (fact assms(2,3))+
  with step.IH show ?case by (rule map_steps_step)
qed simp

lemma map_steps_driven:
  assumes "drive\<^sup>*\<^sup>* v v'" and "m p = Some v"
  shows "map_steps birth drive gone m (m(p \<mapsto> v'))"
  using assms(1)
proof (induction rule: rtranclp_induct)
  case base
  then show ?case using assms(2) by (simp add: fun_upd_idem)
next
  case (step v1 v2)
  have "map_step birth drive gone (m(p \<mapsto> v1)) (m(p \<mapsto> v1, p \<mapsto> v2))"
    by (rule driven) (use step.hyps(2) in simp_all)
  with step.IH have "map_steps birth drive gone m (m(p \<mapsto> v1, p \<mapsto> v2))" by (rule map_steps_step)
  then show ?case by (simp only: fun_upd_upd)
qed

text \<open>Every connection stems from one that was made, by steps on it alone.\<close>

lemma map_steps_lineage:
  assumes "map_steps birth drive gone Map.empty m" and "m p = Some v"
  shows "\<exists>v0. birth v0 \<and> drive\<^sup>*\<^sup>* v0 v"
  using assms
proof (induction arbitrary: p v rule: rtranclp_induct)
  case (step m1 m2)
  from step.hyps(2) show ?case
  proof (cases rule: map_step.cases)
    case (born p' v')
    then show ?thesis using step by (cases "p = p'") auto
  next
    case (driven p' v1 v2)
    then show ?thesis using step by (cases "p = p'") (fastforce intro: rtranclp.rtrancl_into_rtrancl)+
  next
    case (dropped p' v1)
    then show ?thesis using step by (cases "p = p'") auto
  qed
qed simp

section \<open>What the machine sees of a server\<close>

definition views :: "('i \<Rightarrow> nat) \<Rightarrow> ('i \<Rightarrow> 'v) \<Rightarrow> 'i list \<Rightarrow> nat \<Rightarrow> 'v option" where
  "views self view h = (\<lambda>p. map_option view (key_map self h p))"

lemma views_simps [simp]: "views self view [] = Map.empty"
  by (simp add: views_def key_map_def fun_eq_iff)

lemma views_upd:
  "key_map self h' = (key_map self h)(p \<mapsto> x) \<Longrightarrow> views self view h' = (views self view h)(p \<mapsto> view x)"
  "key_map self h' = (key_map self h)(p := None) \<Longrightarrow> views self view h' = (views self view h)(p := None)"
  by (auto simp: views_def fun_eq_iff)

lemma views_Some: "distinct (map self h) \<Longrightarrow> x \<in> set h \<Longrightarrow> views self view h (self x) = Some (view x)"
  using key_map_Some_iff [of self self h "self x" x] by (simp add: views_def)

text \<open>The datagrams a callback has been given, as far as its buffer holds them.\<close>

fun arrived :: "loop_event \<Rightarrow> (bytes \<times> sockaddr) set" where
  "arrived (Readable inbox) = {(take 65535 d, a) | d a. Datagram d a \<in> set inbox}"
| "arrived (Timeout p) = {}"

section \<open>The contract of a server that follows the machine\<close>

locale server_spec = server_program key self socket flush closed retire fits total step tick
  for key :: "'i \<Rightarrow> bytes" and self :: "'i \<Rightarrow> nat" and socket :: "'i \<Rightarrow> int"
    and flush :: "'i \<Rightarrow> history \<Rightarrow> ('i \<times> history) option" and closed :: "'i \<Rightarrow> bool"
    and retire :: "'i \<Rightarrow> history \<Rightarrow> history" and fits :: bool and total :: bool
    and step :: "bytes \<Rightarrow> sockaddr \<Rightarrow> 'i server \<Rightarrow> (bool \<times> 'i server) option"
    and tick :: "'i \<Rightarrow> 'i" +
  fixes view :: "'i \<Rightarrow> 'v"
    and birth :: "(bytes \<times> sockaddr) set \<Rightarrow> sockaddr \<Rightarrow> 'v \<Rightarrow> bool"
    and drive :: "(bytes \<times> sockaddr) set \<Rightarrow> sockaddr \<Rightarrow> 'v \<Rightarrow> 'v \<Rightarrow> bool"
    and gone :: "'v \<Rightarrow> bool"
  assumes step_follows: "step d a st = Some (b, st') \<Longrightarrow> length a \<le> 128 \<Longrightarrow> total \<Longrightarrow>
      server_ok key self socket st \<Longrightarrow>
      map_steps (birth {(d, a)} (srv_local_addr st)) (drive {(d, a)} (srv_local_addr st)) gone
        (views self view (srv_h st)) (views self view (srv_h st'))"
    and flush_follows: "flush x tr = Some (x', tr') \<Longrightarrow> (drive D l)\<^sup>*\<^sup>* (view x) (view x')"
    and tick_follows: "drive D l (view x) (view (tick x))"
    and closed_view: "closed x = gone (view x)"
    and birth_mono: "D \<subseteq> D' \<Longrightarrow> birth D l v \<Longrightarrow> birth D' l v"
    and drive_mono: "D \<subseteq> D' \<Longrightarrow> drive D l v v' \<Longrightarrow> drive D' l v v'"
begin

abbreviation follows :: "(bytes \<times> sockaddr) set \<Rightarrow> sockaddr \<Rightarrow> 'i list \<Rightarrow> 'i list \<Rightarrow> bool" where
  "follows D l h h' \<equiv> map_steps (birth D l) (drive D l) gone (views self view h) (views self view h')"

lemma follows_mono: "follows D l h h' \<Longrightarrow> D \<subseteq> D' \<Longrightarrow> follows D' l h h'"
  by (erule map_steps_mono) (auto intro: birth_mono drive_mono)

lemma follows_flush:
  assumes "distinct (map self h)" and "x \<in> set h" and "flush x0 tr = Some (x', tr')"
    and "(drive D l)\<^sup>*\<^sup>* (view x) (view x0)" and "self x0 = self x"
  shows "follows D l h (store_at self x' h)"
    and "closed x' \<Longrightarrow> follows D l h (hash_delete self (self x) h)"
proof -
  have ok: "entries_ok self self h" using assms(1) by simp
  have fr: "self x' = self x" using flush_frame [OF assms(3)] assms(5) by simp
  have "(drive D l)\<^sup>*\<^sup>* (view x) (view x')"
    using assms(4) flush_follows [OF assms(3), of D l] by simp
  then have s: "map_steps (birth D l) (drive D l) gone (views self view h) ((views self view h)(self x \<mapsto> view x'))"
    by (rule map_steps_driven) (rule views_Some [OF assms(1,2)])
  show "follows D l h (store_at self x' h)"
    unfolding views_upd(1) [where view = view, OF addr.amap_assign [OF ok assms(2) fr fr]] by (rule s)
  have "map_step (birth D l) (drive D l) gone ((views self view h)(self x \<mapsto> view x'))
      ((views self view h)(self x \<mapsto> view x', self x := None))" if "closed x'"
    by (rule dropped) (use that closed_view in simp_all)
  with s show "follows D l h (hash_delete self (self x) h)" if "closed x'"
    unfolding views_upd(2) [where view = view, OF addr.amap_delete [OF ok assms(2)]]
    using that map_steps_step [OF s] by simp
qed

lemma follows_sweep:
  assumes "sweep flush closed retire xs tr = Some (ys, tr')" and "distinct (map self (zs @ xs))"
  shows "follows D l (zs @ xs) (zs @ ys)"
  using assms
proof (induction xs arbitrary: zs tr ys)
  case (Cons x xs)
  have x: "x \<in> set (zs @ x # xs)" by simp
  have fresh: "self x \<notin> self ` set zs" "self x \<notin> self ` set xs"
    using Cons.prems(2) by auto
  from Cons.prems(1) show ?case
  proof (cases rule: sweep_cases)
    case (closed x' t)
    have "hash_delete self (self x) (zs @ x # xs) = zs @ xs"
      using fresh by (auto simp: hash_delete_def image_iff intro!: arg_cong2 [where f = append] filter_True)
    then have 1: "follows D l (zs @ x # xs) (zs @ xs)"
      using follows_flush(2) [OF Cons.prems(2) x closed(1) _ refl closed(2)] by simp
    have "distinct (map self (zs @ xs))" using Cons.prems(2) by auto
    from Cons.IH [OF closed(3) this] 1 show ?thesis by simp
  next
    case (kept x' t ys')
    have fr: "self x' = self x" using flush_frame [OF kept(1)] by simp_all
    have st: "store_at self x' (zs @ x # xs) = (zs @ [x']) @ xs"
      using fresh fr by (auto simp: store_at_def image_iff intro!: map_idI)
    have 1: "follows D l (zs @ x # xs) ((zs @ [x']) @ xs)"
      using follows_flush(1) [OF Cons.prems(2) x kept(1) _ refl] st by simp
    have "distinct (map self ((zs @ [x']) @ xs))"
      using Cons.prems(2) fr by auto
    from Cons.IH [OF kept(4) this] 1 kept(3) show ?thesis by simp
  qed
qed simp

lemma follows_recv_loop:
  assumes "recv_loop step inbox st = Some (b, rest, st')" and "total" and "inbox_ok inbox"
    and "server_ok key self socket st"
  shows "follows (arrived (Readable inbox)) (srv_local_addr st) (srv_h st) (srv_h st')"
  using assms(1,3,4)
proof (induction inbox arbitrary: st)
  case (Cons m r)
  show ?case
  proof (cases m)
    case (Datagram d a)
    then obtain go st1 where s: "step (take 65535 d) a st = Some (go, st1)"
      and st1: "if go then recv_loop step r st1 = Some (b, rest, st') else st' = st1"
      using Cons.prems(1) by (cases "step (take 65535 d) a st") (auto split: if_splits)
    have a: "length a \<le> 128" "inbox_ok r" using Cons.prems(2) Datagram by simp_all
    have ok: "server_ok key self socket st1" "server_frame st st1"
      using step_ok [OF s a(1) assms(2) Cons.prems(3)] by auto
    have 1: "follows (arrived (Readable (m # r))) (srv_local_addr st) (srv_h st) (srv_h st1)"
      using step_follows [OF s a(1) assms(2) Cons.prems(3)]
      by (rule follows_mono) (auto simp: Datagram)
    show ?thesis
    proof (cases go)
      case True
      have "follows (arrived (Readable r)) (srv_local_addr st) (srv_h st1) (srv_h st')"
        using Cons.IH [of st1] st1 True a(2) ok by (simp add: server_frame_def)
      then have "follows (arrived (Readable (m # r))) (srv_local_addr st) (srv_h st1) (srv_h st')"
        by (rule follows_mono) auto
      with 1 show ?thesis by simp
    next
      case False
      with 1 st1 show ?thesis by simp
    qed
  qed (use Cons.prems in auto)
qed auto

lemma follows_dispatch:
  assumes d: "dispatch (server_recv_cb step flush closed retire)
      (server_timeout_cb self tick flush closed retire) ev st = Some st'"
    and "total" and "due ev st" and ok: "server_ok key self socket st"
  shows "follows (arrived ev) (srv_local_addr st) (srv_h st) (srv_h st')"
proof (cases ev)
  case (Readable inbox)
  then obtain rest where cb: "server_recv_cb step flush closed retire inbox st = Some (rest, st')"
    using d by (auto simp: bind_eq_Some_conv)
  have ib: "inbox_ok inbox" using assms(3) Readable by simp
  from cb show ?thesis
  proof (cases rule: recv_cb_cases)
    case returned
    from follows_recv_loop [OF this assms(2) ib ok] show ?thesis by (simp add: Readable)
  next
    case (swept st1 h tr)
    have "distinct (map self (srv_h st1))"
      using recv_loop_ok [OF swept(1) assms(2) ib ok] by (simp add: server_ok_def)
    then have "follows (arrived ev) (srv_local_addr st) (srv_h st1) (srv_h st')"
      using follows_sweep [OF swept(2), of "[]"] swept(3) by simp
    then show ?thesis using follows_recv_loop [OF swept(1) assms(2) ib ok] Readable by simp
  qed
next
  case (Timeout p)
  then have t: "server_timeout_cb self tick flush closed retire p st = Some st'" using d by simp
  then obtain x where x: "entry_at self p (srv_h st) = Some x"
    by (auto simp: server_timeout_cb_def bind_eq_Some_conv)
  then obtain x' tr where f: "flush (tick x) (Stderr (STR ''timeout'') [] # srv_trace st) = Some (x', tr)"
    and st': "srv_h st' = (if closed x' then hash_delete self p (srv_h st) else store_at self x' (srv_h st))"
    using t x by (cases "flush (tick x) (Stderr (STR ''timeout'') [] # srv_trace st)")
      (auto simp: server_timeout_cb_def split: if_splits)
  have xin: "x \<in> set (srv_h st)" "self x = p" using entry_at_Some [OF x] by auto
  have e: "distinct (map self (srv_h st))" using ok by (simp add: server_ok_def)
  have "follows (arrived ev) (srv_local_addr st) (srv_h st) (store_at self x' (srv_h st))"
    "closed x' \<Longrightarrow> follows (arrived ev) (srv_local_addr st) (srv_h st) (hash_delete self (self x) (srv_h st))"
    by (rule follows_flush [OF e xin(1) f]; use tick_follows tick_frame [of x] in auto)+
  then show ?thesis using st' xin(2) by simp
qed

lemma dispatch_local_addr:
  assumes d: "dispatch (server_recv_cb step flush closed retire)
      (server_timeout_cb self tick flush closed retire) ev st = Some st'"
    and "total" and "due ev st" and ok: "server_ok key self socket st"
  shows "srv_local_addr st' = srv_local_addr st"
proof (cases ev)
  case (Readable inbox)
  then obtain rest where cb: "server_recv_cb step flush closed retire inbox st = Some (rest, st')"
    using d by (auto simp: bind_eq_Some_conv)
  have ib: "inbox_ok inbox" using assms(3) Readable by simp
  from cb show ?thesis
    by (cases rule: recv_cb_cases)
      (use recv_loop_ok [OF _ assms(2) ib ok] in \<open>fastforce simp: server_frame_def\<close>)+
next
  case (Timeout p)
  then show ?thesis using d by (auto simp: server_timeout_cb_def bind_eq_Some_conv split: if_splits)
qed

text \<open>Every run of the server is a run of the machine, on the datagrams that have arrived in it.\<close>

lemma follows_run:
  assumes "run_of (server_recv_cb step flush closed retire)
      (server_timeout_cb self tick flush closed retire) st0 evs st"
    and "total" and "server_ok key self socket st0" and "srv_h st0 = []"
  shows "srv_local_addr st = srv_local_addr st0 \<and> map_steps (birth (\<Union> (arrived ` set evs)) (srv_local_addr st0))
      (drive (\<Union> (arrived ` set evs)) (srv_local_addr st0)) gone Map.empty (views self view (srv_h st))"
  using assms(1)
proof (induction rule: run_of.induct)
  case run_start
  then show ?case by (simp add: assms(4))
next
  case (run_next evs st ev st')
  let ?D = "\<Union> (arrived ` set evs)" and ?D' = "\<Union> (arrived ` set (evs @ [ev]))"
  note r = run_of_reachable [OF run_next.hyps(1)]
  note ok = reachable_ok [OF r assms(2,3)]
  have la: "srv_local_addr st = srv_local_addr st0" using run_next.IH by simp
  then have "follows (arrived ev) (srv_local_addr st0) (srv_h st) (srv_h st')"
    using follows_dispatch [OF run_next.hyps(3) assms(2) run_next.hyps(2) ok] by simp
  then have "follows ?D' (srv_local_addr st0) (srv_h st) (srv_h st')" by (rule follows_mono) auto
  moreover have "map_steps (birth ?D' (srv_local_addr st0)) (drive ?D' (srv_local_addr st0)) gone
      Map.empty (views self view (srv_h st))"
    using run_next.IH [THEN conjunct2] by (rule map_steps_mono) (auto intro: birth_mono [where D = ?D] drive_mono [where D = ?D])
  ultimately show ?case using la dispatch_local_addr [OF run_next.hyps(3) assms(2) run_next.hyps(2) ok] by simp
qed

end

section \<open>What is done to a connection of server.c\<close>

text \<open>
  The calls of the engine on one connection, whose key is \<open>k\<close>, when \<open>D\<close> is what has arrived at the local
  address \<open>l\<close>: it is given datagrams with its own key as destination connection ID, its streams are read,
  a finished one is answered, packets are taken from it and it is told of timeouts.
\<close>

inductive conn_step ::
  "'c quiche_api \<Rightarrow> (bytes \<times> sockaddr) set \<Rightarrow> sockaddr \<Rightarrow> bytes \<Rightarrow> 'c \<Rightarrow> 'c \<Rightarrow> bool" for api D l k where
  got_datagram: "(d, a) \<in> D \<Longrightarrow> read_header d = Inr info \<Longrightarrow> info_dcid info = k \<Longrightarrow>
     quiche_conn_recv api c d \<lparr>recv_from = a, recv_to = l\<rparr> = (r, c') \<Longrightarrow> conn_step api D l k c c'"
| read_stream: "quiche_conn_stream_recv api c s 65535 = (r, c') \<Longrightarrow> (\<And>b. r \<noteq> Inr (b, True)) \<Longrightarrow>
     conn_step api D l k c c'"
| answered_stream: "quiche_conn_stream_recv api c s 65535 = (Inr (b, True), c1) \<Longrightarrow>
     quiche_conn_stream_send api c1 s resp True = (r, c') \<Longrightarrow> conn_step api D l k c c'"
| took_packet: "quiche_conn_send api c MAX_DATAGRAM_SIZE = (r, c') \<Longrightarrow> conn_step api D l k c c'"
| timed_out: "c' = quiche_conn_on_timeout api c \<Longrightarrow> conn_step api D l k c c'"

text \<open>
  A connection is made for a datagram that has arrived with a token for its source address, under the
  key for its destination connection ID; the engine is told the original destination connection ID of
  the token, and then given that datagram, the first the connection sees.
\<close>

definition accepted ::
  "'c quiche_api \<Rightarrow> quiche_config \<Rightarrow> (bytes \<times> sockaddr) set \<Rightarrow> sockaddr \<Rightarrow> bytes \<Rightarrow> 'c \<Rightarrow> sockaddr \<Rightarrow> bool" where
  "accepted api config D l k c a \<longleftrightarrow>
     (\<exists>d info odcid tr c0 r. (d, a) \<in> D \<and> read_header d = Inr info \<and> version_is_supported (info_version info)
        \<and> id_key (info_dcid info) k \<and> info_token info = token_of a odcid
        \<and> length odcid \<le> QUICHE_MAX_CONN_ID_LEN \<and> quiche_accept api tr k odcid l a config = Some c0
        \<and> quiche_conn_recv api c0 d \<lparr>recv_from = a, recv_to = l\<rparr> = (r, c))"

lemma conn_step_mono: "conn_step api D l k c c' \<Longrightarrow> D \<subseteq> D' \<Longrightarrow> conn_step api D' l k c c'"
  by (induction rule: conn_step.induct) (auto intro: conn_step.intros)

lemma accepted_mono: "accepted api config D l k c a \<Longrightarrow> D \<subseteq> D' \<Longrightarrow> accepted api config D' l k c a"
  unfolding accepted_def by blast

lemma send_run_steps:
  "send_run api env dest sock c tr b c' tr' \<Longrightarrow> (conn_step api D l k)\<^sup>*\<^sup>* c c'"
proof (induction rule: send_run.induct)
  case (run_sent c out i c1 n tr b c' tr')
  from took_packet [OF run_sent.hyps(1)] run_sent.IH show ?case by (rule converse_rtranclp_into_rtranclp)
qed (blast intro: took_packet)+

lemma stream_loop_steps: "stream_loop api ss c tr = (c', tr') \<Longrightarrow> (conn_step api D l k)\<^sup>*\<^sup>* c c'"
proof (induction api ss c tr rule: stream_loop.induct)
  case (2 api s ss c tr)
  let ?tr = "Stderr (STR ''stream %lu is readable'') [uint s] # tr"
  obtain r c1 where r: "quiche_conn_stream_recv api c s 65535 = (r, c1)" by fastforce
  show ?case
  proof (cases r)
    case (Inl e)
    have "conn_step api D l k c c1" by (rule read_stream [OF r]) (simp add: Inl)
    then show ?thesis using 2(2) r Inl by auto
  next
    case (Inr q)
    obtain b fin where q: "q = (b, fin)" by fastforce
    define c2 where "c2 = (if fin then snd (quiche_conn_stream_send api c1 s (take 5 resp) True) else c1)"
    have rest: "stream_loop api ss c2 ?tr = (c', tr')"
      using 2(2) r Inr q by (simp add: c2_def Let_def)
    have "conn_step api D l k c c2"
    proof (cases fin)
      case True
      obtain x where x: "quiche_conn_stream_send api c1 s resp True = (x, c2)"
        by (cases "quiche_conn_stream_send api c1 s resp True") (simp add: c2_def True resp_def)
      show ?thesis by (rule answered_stream [OF _ x]) (use r Inr q True in simp)
    next
      case False
      then show ?thesis using read_stream [OF r] Inr q by (simp add: c2_def)
    qed
    moreover have "(conn_step api D l k)\<^sup>*\<^sup>* c2 c'"
      using 2(1) [OF refl r [symmetric] Inr q [symmetric], of c2] rest by (simp add: c2_def)
    ultimately show ?thesis by (rule converse_rtranclp_into_rtranclp)
  qed
qed simp

text \<open>What is done to a connection for a datagram: it is given it, and then driven without another one.\<close>

lemma process_steps:
  assumes "process api buf a l x tr = (x', tr')"
  shows "\<exists>r c. quiche_conn_recv api (io_conn x) buf \<lparr>recv_from = a, recv_to = l\<rparr> = (r, c)
      \<and> (conn_step api D l k)\<^sup>*\<^sup>* c (io_conn x')"
    and "io_peer_addr x' = io_peer_addr x"
proof -
  obtain r c where r: "quiche_conn_recv api (io_conn x) buf \<lparr>recv_from = a, recv_to = l\<rparr> = (r, c)" by fastforce
  have "(conn_step api D l k)\<^sup>*\<^sup>* c (io_conn x')"
  proof (cases "\<exists>n. r = Inr n \<and> quiche_conn_is_established api c")
    case True
    then obtain n c2 t where "r = Inr n" and l: "stream_loop api (quiche_conn_readable api c) c (Stderr (STR ''recv %zd bytes'') [int n] # tr) = (c2, t)"
      by fastforce
    moreover from stream_loop_steps [OF l] have "(conn_step api D l k)\<^sup>*\<^sup>* c c2" .
    ultimately show ?thesis using assms(1) r True by (auto simp: process_def)
  next
    case False
    then show ?thesis using assms(1) r by (cases r) (auto simp: process_def)
  qed
  with r show "\<exists>r c. quiche_conn_recv api (io_conn x) buf \<lparr>recv_from = a, recv_to = l\<rparr> = (r, c)
      \<and> (conn_step api D l k)\<^sup>*\<^sup>* c (io_conn x')" by blast
  show "io_peer_addr x' = io_peer_addr x"
    using assms(1) by (auto simp: process_def Let_def split: prod.splits sum.splits if_splits)
qed

lemma flush_conn_steps:
  assumes "flush_conn api env dest x tr = Some (x', tr')"
  shows "(conn_step api D l k)\<^sup>*\<^sup>* (io_conn x) (io_conn x')"
    and "io_peer_addr x' = io_peer_addr x" and "conn_io.more x' = conn_io.more x"
proof -
  have "(conn_step api D l k)\<^sup>*\<^sup>* (io_conn x) (io_conn x') \<and> io_peer_addr x' = io_peer_addr x
      \<and> conn_io.more x' = conn_io.more x"
    using assms
  proof (cases rule: flush_conn_cases)
    case (early c)
    then show ?thesis using send_run_steps [OF early(1)] by simp
  next
    case (drained c t)
    then show ?thesis using send_run_steps [OF drained(1)] by simp
  qed
  then show "(conn_step api D l k)\<^sup>*\<^sup>* (io_conn x) (io_conn x')"
    and "io_peer_addr x' = io_peer_addr x" and "conn_io.more x' = conn_io.more x" by auto
qed

text \<open>The entries of the machine: the key, the connection and the address the client had when it was made.\<close>

definition conn_view :: "('c, 'x) conn_io_scheme \<Rightarrow> bytes \<times> 'c \<times> sockaddr" where
  "conn_view x = (io_cid x, io_conn x, io_peer_addr x)"

fun conn_birth ::
  "'c quiche_api \<Rightarrow> quiche_config \<Rightarrow> (bytes \<times> sockaddr) set \<Rightarrow> sockaddr \<Rightarrow> bytes \<times> 'c \<times> sockaddr \<Rightarrow> bool" where
  "conn_birth api config D l (k, c, a) = accepted api config D l k c a"

fun conn_drive ::
  "'c quiche_api \<Rightarrow> (bytes \<times> sockaddr) set \<Rightarrow> sockaddr \<Rightarrow> bytes \<times> 'c \<times> sockaddr \<Rightarrow> bytes \<times> 'c \<times> sockaddr \<Rightarrow> bool" where
  "conn_drive api D l (k, c, a) (k', c', a') \<longleftrightarrow> conn_step api D l k c c' \<and> k' = k \<and> a' = a"

lemma conn_drives: "(conn_step api D l k)\<^sup>*\<^sup>* c c' \<Longrightarrow> (conn_drive api D l)\<^sup>*\<^sup>* (k, c, a) (k, c', a)"
proof (induction rule: rtranclp_induct)
  case (step c1 c2)
  from step.IH have "(conn_drive api D l)\<^sup>*\<^sup>* (k, c, a) (k, c1, a)" .
  moreover have "conn_drive api D l (k, c1, a) (k, c2, a)" using step.hyps(2) by simp
  ultimately show ?case by (rule rtranclp.rtrancl_into_rtrancl)
qed simp

text \<open>
  The entry a datagram belongs to after it was treated, for both programs: one that was there, driven
  further, or a new one, which has come about by \<open>birth\<close> and was then driven.
\<close>

lemma entry_follows:
  assumes mem: "x \<in> set h" and e: "distinct (map self h)" and x': "self x' = self x"
    and h: "h = h0 \<and> drive\<^sup>*\<^sup>* (view x) (view x') \<or> h = h0 @ [x] \<and> (\<exists>v. birth v \<and> drive\<^sup>*\<^sup>* v (view x'))"
  shows "map_steps birth drive gone (views self view h0) (views self view (store_at self x' h))"
proof -
  have e': "entries_ok self self h" using e by simp
  have u: "views self view (store_at self x' h) = (views self view h)(self x \<mapsto> view x')"
    using views_upd(1) [OF addr.amap_assign [OF e' mem x' x']] .
  from h show ?thesis
  proof (elim disjE conjE exE)
    assume "h = h0" "drive\<^sup>*\<^sup>* (view x) (view x')"
    then show ?thesis unfolding u using views_Some [OF e mem] by (auto intro: map_steps_driven)
  next
    fix v assume n: "h = h0 @ [x]" "birth v" "drive\<^sup>*\<^sup>* v (view x')"
    then have f: "self x \<notin> self ` set h0" using e by simp
    have "views self view h = (views self view h0)(self x \<mapsto> view x)"
      using views_upd(1) [OF key_map_append [OF f]] n(1) by simp
    then have "views self view (store_at self x' h) = (views self view h0)(self x \<mapsto> v, self x \<mapsto> view x')"
      unfolding u by simp
    moreover have "map_step birth drive gone (views self view h0) ((views self view h0)(self x \<mapsto> v))"
      by (rule born) (use n f in \<open>simp_all add: views_def key_map_None_iff\<close>)
    moreover have "map_steps birth drive gone ((views self view h0)(self x \<mapsto> v))
        ((views self view h0)(self x \<mapsto> v, self x \<mapsto> view x'))"
      by (rule map_steps_driven [OF n(3)]) simp
    ultimately show ?thesis by (simp only: converse_rtranclp_into_rtranclp)
  qed
qed

context server_entry
begin

text \<open>What admission gives: nothing, an entry whose key is the destination connection ID, or a new one.\<close>

lemma admit_births:
  assumes ad: "admit api env config key self mk info a st = Some (r, st')" and env: "env_ok env" and len: "length a \<le> 128"
    and hd: "read_header buf = Inr info" and ok: "server_ok key self socket st"
  shows "case r of
      None \<Rightarrow> srv_h st' = srv_h st
    | Some x \<Rightarrow> x \<in> set (srv_h st') \<and> srv_local_addr st' = srv_local_addr st
        \<and> (srv_h st' = srv_h st \<and> key x = info_dcid info
           \<or> srv_h st' = srv_h st @ [x] \<and> (\<exists>p k c. x = mk p (srv_sock st) k c a
               \<and> (\<forall>r c'. quiche_conn_recv api c buf \<lparr>recv_from = a, recv_to = srv_local_addr st\<rparr> = (r, c')
                    \<longrightarrow> accepted api config {(buf, a)} (srv_local_addr st) k c' a)))"
  using ad env len read_header_sizes(1,2) [OF hd]
proof (cases rule: admit_cases)
  case (known x)
  then show ?thesis using hash_find_Some [of env self "srv_h st" _ key] env ok by (auto simp: env_ok_def server_ok_def)
next
  case (new odcid k c)
  have k: "id_key (info_dcid info) k" unfolding new(5)
    by (rule id_key_buffer [unfolded QUICHE_MAX_CONN_ID_LEN_def]) (use env in \<open>simp add: env_ok_def\<close>)
  have "accepted api config {(buf, a)} (srv_local_addr st) k c' a"
    if "quiche_conn_recv api c buf \<lparr>recv_from = a, recv_to = srv_local_addr st\<rparr> = (r, c')" for r c'
    unfolding accepted_def QUICHE_MAX_CONN_ID_LEN_def
    by (intro exI conjI) (rule singletonI, rule hd, rule new(2), rule k, rule new(3), rule new(4), rule new(8), rule that)
  then show ?thesis using new(6,7) by (simp add: key_mk) blast
qed simp_all

end

lemma recv_datagram_follows:
  assumes rd: "recv_datagram api env config buf a st = Some (b, st')" and env: "env_ok env" and len: "length a \<le> 128"
    and ok: "server_ok io_cid io_self io_sock st"
  shows "map_steps (conn_birth api config {(buf, a)} (srv_local_addr st)) (conn_drive api {(buf, a)} (srv_local_addr st))
      gone (views io_self conn_view (srv_h st)) (views io_self conn_view (srv_h st'))"
proof (cases "read_header buf")
  case (Inl e)
  then show ?thesis using rd by (auto simp: recv_datagram_def)
next
  case (Inr info)
  obtain r st1 where ad: "admit api env config io_cid io_self new_conn_io info a st = Some (r, st1)"
    using rd Inr by (auto simp: recv_datagram_def bind_eq_Some_conv)
  note births = entry.admit_births [OF ad env len Inr ok]
  have ok1: "distinct (map io_self (srv_h st1))"
    using entry.admit_ok [OF ad env len read_header_sizes(1,2) [OF Inr] ok] by (simp add: server_ok_def)
  show ?thesis
  proof (cases r)
    case None
    then show ?thesis using rd Inr ad births by (auto simp: recv_datagram_def)
  next
    case (Some x)
    let ?D = "{(buf, a)}" and ?l = "srv_local_addr st"
    obtain x' tr where p: "process api buf a ?l x (srv_trace st1) = (x', tr)" by fastforce
    have x: "x \<in> set (srv_h st1)" using births Some by simp
    have h: "srv_h st' = store_at io_self x' (srv_h st1)" using rd Inr ad Some p births by (auto simp: recv_datagram_def)
    obtain r c where c: "quiche_conn_recv api (io_conn x) buf \<lparr>recv_from = a, recv_to = ?l\<rparr> = (r, c)"
      and cs: "(conn_step api ?D ?l (io_cid x))\<^sup>*\<^sup>* c (io_conn x')"
      using process_steps(1) [OF p] by blast
    have v': "conn_view x' = (io_cid x, io_conn x', io_peer_addr x)"
      using process_steps(2) [OF p] process_frame(2) [OF p] by (simp add: conn_view_def)
    have d: "(conn_drive api ?D ?l)\<^sup>*\<^sup>* (io_cid x, c, io_peer_addr x) (conn_view x')"
      unfolding v' using cs by (rule conn_drives)
    have k: "(conn_drive api ?D ?l)\<^sup>*\<^sup>* (conn_view x) (conn_view x')" if "io_cid x = info_dcid info"
    proof -
      have "conn_step api ?D ?l (io_cid x) (io_conn x) c" by (rule got_datagram [OF _ Inr that [symmetric] c]) simp
      then have "conn_drive api ?D ?l (conn_view x) (io_cid x, c, io_peer_addr x)" by (simp add: conn_view_def)
      then show ?thesis using d by (rule converse_rtranclp_into_rtranclp)
    qed
    have n: "\<exists>v. conn_birth api config ?D ?l v \<and> (conn_drive api ?D ?l)\<^sup>*\<^sup>* v (conn_view x')"
      if "\<exists>p k c. x = new_conn_io p (srv_sock st) k c a
               \<and> (\<forall>r c'. quiche_conn_recv api c buf \<lparr>recv_from = a, recv_to = srv_local_addr st\<rparr> = (r, c')
                    \<longrightarrow> accepted api config {(buf, a)} (srv_local_addr st) k c' a)"
      using that c d by (intro exI [of _ "(io_cid x, c, io_peer_addr x)"]) (auto simp: new_conn_io_def)
    have "srv_h st1 = srv_h st \<and> (conn_drive api ?D ?l)\<^sup>*\<^sup>* (conn_view x) (conn_view x')
        \<or> srv_h st1 = srv_h st @ [x] \<and> (\<exists>v. conn_birth api config ?D ?l v \<and> (conn_drive api ?D ?l)\<^sup>*\<^sup>* v (conn_view x'))"
      using births k n unfolding Some by auto
    from entry_follows [OF x ok1 process_frame(1) [OF p] this] show ?thesis unfolding h .
  qed
qed

interpretation srv_spec: server_spec io_cid io_self io_sock "flush_egress api env" "is_closed api"
    "retire_conn api env" "send_fits api" "runs api env" "recv_datagram api env config" "on_timeout api"
    conn_view "conn_birth api config" "conn_drive api" "\<lambda>v. quiche_conn_is_closed api (fst (snd v))"
  for api :: "'c quiche_api" and env :: environment and config :: quiche_config
proof (intro server_spec.intro server_spec_axioms.intro)
  show "server_program io_cid io_self io_sock (flush_egress api env) (retire_conn api env)
      (send_fits api) (runs api env) (recv_datagram api env config) (on_timeout api)"
    by (rule srv.server_program_axioms)
next
  fix d a and st st' :: "'c server_state" and b
  assume "recv_datagram api env config d a st = Some (b, st')" "length a \<le> 128" "runs api env"
    "server_ok io_cid io_self io_sock st"
  then show "map_steps (conn_birth api config {(d, a)} (srv_local_addr st)) (conn_drive api {(d, a)} (srv_local_addr st))
      (\<lambda>v. quiche_conn_is_closed api (fst (snd v))) (views io_self conn_view (srv_h st)) (views io_self conn_view (srv_h st'))"
    by (intro recv_datagram_follows) (auto simp: runs_def)
next
  fix D l and x x' :: "'c conn_io" and tr tr'
  assume f: "flush_egress api env x tr = Some (x', tr')"
  have "io_cid x' = io_cid x" using conn.flush_frame [OF f [unfolded flush_egress_def]] by simp
  then have v: "conn_view x' = (io_cid x, io_conn x', io_peer_addr x)"
    using flush_conn_steps(2) [OF f [unfolded flush_egress_def]] by (simp add: conn_view_def)
  show "(conn_drive api D l)\<^sup>*\<^sup>* (conn_view x) (conn_view x')"
    unfolding v unfolding conn_view_def
    by (rule conn_drives) (rule flush_conn_steps(1) [OF f [unfolded flush_egress_def]])
next
  fix D l and x :: "'c conn_io"
  show "conn_drive api D l (conn_view x) (conn_view (on_timeout api x))"
    by (simp add: conn_view_def on_timeout_def timed_out)
next
  fix D D' :: "(bytes \<times> sockaddr) set" and l and v v' :: "bytes \<times> 'c \<times> sockaddr"
  assume "D \<subseteq> D'"
  then show "conn_birth api config D l v \<Longrightarrow> conn_birth api config D' l v"
    and "conn_drive api D l v v' \<Longrightarrow> conn_drive api D' l v v'"
    by (cases v; cases v'; auto intro: accepted_mono conn_step_mono)+
qed (simp add: is_closed_def conn_view_def)

section \<open>What is done to a connection of http3-server.c\<close>

text \<open>
  The same for the connection with its HTTP/3 connection, which is made once when the handshake is
  complete; then events are polled, and each that brings headers is answered on its stream.
\<close>

inductive h3_conn_step ::
  "'c quiche_api \<Rightarrow> ('c, 'h) quiche_h3_api \<Rightarrow> quiche_h3_config \<Rightarrow> (bytes \<times> sockaddr) set \<Rightarrow> sockaddr \<Rightarrow> bytes
    \<Rightarrow> 'c \<times> 'h option \<Rightarrow> 'c \<times> 'h option \<Rightarrow> bool" for api h3 g D l k where
  h3_got_datagram: "(d, a) \<in> D \<Longrightarrow> read_header d = Inr info \<Longrightarrow> info_dcid info = k \<Longrightarrow>
     quiche_conn_recv api c d \<lparr>recv_from = a, recv_to = l\<rparr> = (r, c') \<Longrightarrow> h3_conn_step api h3 g D l k (c, h) (c', h)"
| h3_made: "quiche_conn_is_established api c \<Longrightarrow> quiche_h3_conn_new_with_transport h3 c g = (h, c') \<Longrightarrow>
     h3_conn_step api h3 g D l k (c, None) (c', h)"
| h3_polled: "quiche_h3_conn_poll h3 h c = (r, h', c') \<Longrightarrow>
     (\<And>s ev. r = Inr (s, ev) \<Longrightarrow> h3_event_type ev \<noteq> QUICHE_H3_EVENT_HEADERS) \<Longrightarrow>
     h3_conn_step api h3 g D l k (c, Some h) (c', Some h')"
| h3_answered: "quiche_h3_conn_poll h3 h c = (Inr (s, ev), h1, c1) \<Longrightarrow> h3_event_type ev = QUICHE_H3_EVENT_HEADERS \<Longrightarrow>
     quiche_h3_send_response h3 h1 c1 s response_headers False = (r2, h2, c2) \<Longrightarrow>
     quiche_h3_send_body h3 h2 c2 s response_body True = (r', h', c') \<Longrightarrow>
     h3_conn_step api h3 g D l k (c, Some h) (c', Some h')"
| h3_took_packet: "quiche_conn_send api c MAX_DATAGRAM_SIZE = (r, c') \<Longrightarrow>
     h3_conn_step api h3 g D l k (c, h) (c', h)"
| h3_timed_out: "c' = quiche_conn_on_timeout api c \<Longrightarrow> h3_conn_step api h3 g D l k (c, h) (c', h)"

lemma h3_conn_step_mono: "h3_conn_step api h3 g D l k v v' \<Longrightarrow> D \<subseteq> D' \<Longrightarrow> h3_conn_step api h3 g D' l k v v'"
  by (induction rule: h3_conn_step.induct) (auto intro: h3_conn_step.intros)

lemma h3_send_run_steps:
  "send_run api env dest sock c tr b c' tr' \<Longrightarrow> (h3_conn_step api h3 g D l k)\<^sup>*\<^sup>* (c, h) (c', h)"
proof (induction rule: send_run.induct)
  case (run_sent c out i c1 n tr b c' tr')
  from h3_took_packet [OF run_sent.hyps(1)] run_sent.IH show ?case by (rule converse_rtranclp_into_rtranclp)
qed (blast intro: h3_took_packet)+

lemma handle_event_step:
  assumes "quiche_h3_conn_poll h3 h c = (Inr (s, ev), h1, c1)" and "handle_event h3 s ev h1 c1 tr = Some (h2, c2, tr2)"
  shows "h3_conn_step api h3 g D l k (c, Some h) (c2, Some h2)"
proof (cases "h3_event_type ev = QUICHE_H3_EVENT_HEADERS")
  case True
  obtain r2 h' c' where 2: "quiche_h3_send_response h3 h1 c1 s response_headers False = (r2, h', c')"
    by (metis prod_cases3)
  obtain r3 h'' c'' where 3: "quiche_h3_send_body h3 h' c' s response_body True = (r3, h'', c'')"
    by (metis prod_cases3)
  have "take 3 response_headers = response_headers" "take 5 response_body = response_body"
    by (simp_all add: response_headers_def response_body_def ascii_def)
  then have "h2 = h''" "c2 = c''" using assms(2) True 2 3
    by (auto simp: handle_event_def for_each_header_eq split: prod.splits)
  then show ?thesis using h3_answered [OF assms(1) True 2 3] by simp
next
  case False
  then have "h2 = h1" "c2 = c1" using assms(2)
    by (cases "h3_event_type ev"; simp add: handle_event_def)+
  then show ?thesis using h3_polled [OF assms(1)] False by simp
qed

lemma polled_steps:
  "polled h3 (handle_event h3) h c tr evs r \<Longrightarrow>
     (h3_conn_step api h3 g D l k)\<^sup>*\<^sup>* (c, Some h) (fst (snd r), Some (fst r))"
proof (induction rule: polled.induct)
  case (polled_end h c e h' c' st)
  have "h3_conn_step api h3 g D l k (c, Some h) (c', Some h')" by (rule h3_polled [OF polled_end]) simp
  then show ?case by simp
next
  case (polled_event h c s ev h1 c1 st h2 c2 st2 evs r)
  from handle_event_step [OF polled_event.hyps(1,2)] polled_event.IH show ?case
    by (rule converse_rtranclp_into_rtranclp)
qed

lemma h3_process_steps:
  assumes "h3_process api h3 g buf a l x tr = Some (x', tr')"
  shows "\<exists>r c. quiche_conn_recv api (io_conn x) buf \<lparr>recv_from = a, recv_to = l\<rparr> = (r, c)
      \<and> (h3_conn_step api h3 g D l k)\<^sup>*\<^sup>* (c, io_http3 x) (io_conn x', io_http3 x')"
    and "io_peer_addr x' = io_peer_addr x"
proof -
  let ?R = "h3_conn_step api h3 g D l k"
  obtain r c where r: "quiche_conn_recv api (io_conn x) buf \<lparr>recv_from = a, recv_to = l\<rparr> = (r, c)" by fastforce
  have "?R\<^sup>*\<^sup>* (c, io_http3 x) (io_conn x', io_http3 x') \<and> io_peer_addr x' = io_peer_addr x"
  proof (cases "\<exists>n. r = Inr n \<and> quiche_conn_is_established api c")
    case True
    then obtain n where n: "r = Inr n" "quiche_conn_is_established api c" by blast
    obtain ho c1 where e: "ensure_http3 h3 g (io_http3 x) c = (ho, c1)" by fastforce
    have 2: "?R\<^sup>*\<^sup>* (c, io_http3 x) (c1, ho)"
    proof (cases "io_http3 x")
      case None
      then have "?R (c, None) (c1, ho)" using h3_made [OF n(2), of h3 g ho c1] e by (simp add: ensure_http3_def)
      then show ?thesis using None by simp
    qed (use e in \<open>simp add: ensure_http3_def\<close>)
    show ?thesis
    proof (cases ho)
      case None
      then have "io_http3 x = None" using e by (cases "io_http3 x") (simp_all add: ensure_http3_def)
      then show ?thesis using 2 assms(1) r n e None by (auto simp: h3_process_def)
    next
      case (Some h)
      let ?tr = "Stderr (STR ''recv %zd bytes'') [int n] # tr"
      obtain h' c' where p: "poll_loop h3 (handle_event h3) h c1 ?tr = Some (h', c', tr')"
        and x': "x' = x\<lparr>io_conn := c', io_http3 := Some h'\<rparr>"
        using assms(1) r n e Some by (auto simp: h3_process_def Let_def bind_eq_Some_conv)
      obtain evs where "polled h3 (handle_event h3) h c1 ?tr evs (h', c', tr')" using p by (auto simp: poll_loop_iff)
      from polled_steps [OF this, of api g D l k] have "?R\<^sup>*\<^sup>* (c1, ho) (c', Some h')" by (simp add: Some)
      with 2 have "?R\<^sup>*\<^sup>* (c, io_http3 x) (c', Some h')" by (rule rtranclp_trans)
      then show ?thesis by (simp add: x')
    qed
  next
    case False
    then show ?thesis using assms(1) r by (cases r) (auto simp: h3_process_def)
  qed
  with r show "\<exists>r c. quiche_conn_recv api (io_conn x) buf \<lparr>recv_from = a, recv_to = l\<rparr> = (r, c)
      \<and> ?R\<^sup>*\<^sup>* (c, io_http3 x) (io_conn x', io_http3 x')"
    and "io_peer_addr x' = io_peer_addr x" by auto
qed

definition h3_view :: "('c, 'h) h3_conn_io \<Rightarrow> bytes \<times> ('c \<times> 'h option) \<times> sockaddr" where
  "h3_view x = (io_cid x, (io_conn x, io_http3 x), io_peer_addr x)"

fun h3_birth ::
  "'c quiche_api \<Rightarrow> quiche_config \<Rightarrow> (bytes \<times> sockaddr) set \<Rightarrow> sockaddr \<Rightarrow> bytes \<times> ('c \<times> 'h option) \<times> sockaddr \<Rightarrow> bool" where
  "h3_birth api config D l (k, (c, h), a) \<longleftrightarrow> accepted api config D l k c a \<and> h = None"

fun h3_drive ::
  "'c quiche_api \<Rightarrow> ('c, 'h) quiche_h3_api \<Rightarrow> quiche_h3_config \<Rightarrow> (bytes \<times> sockaddr) set \<Rightarrow> sockaddr
    \<Rightarrow> bytes \<times> ('c \<times> 'h option) \<times> sockaddr \<Rightarrow> bytes \<times> ('c \<times> 'h option) \<times> sockaddr \<Rightarrow> bool" where
  "h3_drive api h3 g D l (k, v, a) (k', v', a') \<longleftrightarrow> h3_conn_step api h3 g D l k v v' \<and> k' = k \<and> a' = a"

lemma h3_drives: "(h3_conn_step api h3 g D l k)\<^sup>*\<^sup>* v v' \<Longrightarrow> (h3_drive api h3 g D l)\<^sup>*\<^sup>* (k, v, a) (k, v', a)"
proof (induction rule: rtranclp_induct)
  case (step v1 v2)
  from step.IH have "(h3_drive api h3 g D l)\<^sup>*\<^sup>* (k, v, a) (k, v1, a)" .
  moreover have "h3_drive api h3 g D l (k, v1, a) (k, v2, a)" using step.hyps(2) by simp
  ultimately show ?case by (rule rtranclp.rtrancl_into_rtrancl)
qed simp

lemma h3_flush_steps:
  assumes "h3_flush_egress api env x tr = Some (x', tr')"
  shows "(h3_conn_step api h3 g D l k)\<^sup>*\<^sup>* (io_conn x, io_http3 x) (io_conn x', io_http3 x')"
    and "io_peer_addr x' = io_peer_addr x"
proof -
  have "(h3_conn_step api h3 g D l k)\<^sup>*\<^sup>* (io_conn x, io_http3 x) (io_conn x', io_http3 x')
      \<and> io_peer_addr x' = io_peer_addr x"
    using assms unfolding h3_flush_egress_def
  proof (cases rule: flush_conn_cases)
    case (early c)
    then show ?thesis using h3_send_run_steps [OF early(1)] by simp
  next
    case (drained c t)
    then show ?thesis using h3_send_run_steps [OF drained(1)] by simp
  qed
  then show "(h3_conn_step api h3 g D l k)\<^sup>*\<^sup>* (io_conn x, io_http3 x) (io_conn x', io_http3 x')"
    and "io_peer_addr x' = io_peer_addr x" by auto
qed

lemma h3_recv_datagram_follows:
  assumes rd: "h3_recv_datagram api h3 env config g buf a st = Some (b, st')" and env: "env_ok env" and len: "length a \<le> 128"
    and ok: "server_ok io_cid io_self io_sock st"
  shows "map_steps (h3_birth api config {(buf, a)} (srv_local_addr st)) (h3_drive api h3 g {(buf, a)} (srv_local_addr st))
      gone (views io_self h3_view (srv_h st)) (views io_self h3_view (srv_h st'))"
proof (cases "read_header buf")
  case (Inl e)
  then show ?thesis using rd by (auto simp: h3_recv_datagram_def)
next
  case (Inr info)
  obtain r st1 where ad: "admit api env config io_cid io_self new_h3_conn_io info a st = Some (r, st1)"
    using rd Inr by (auto simp: h3_recv_datagram_def bind_eq_Some_conv)
  note births = h3_entry.admit_births [OF ad env len Inr ok]
  have ok1: "distinct (map io_self (srv_h st1))"
    using h3_entry.admit_ok [OF ad env len read_header_sizes(1,2) [OF Inr] ok] by (simp add: server_ok_def)
  show ?thesis
  proof (cases r)
    case None
    then show ?thesis using rd Inr ad births by (auto simp: h3_recv_datagram_def)
  next
    case (Some x)
    let ?D = "{(buf, a)}" and ?l = "srv_local_addr st"
    obtain x' tr where p: "h3_process api h3 g buf a ?l x (srv_trace st1) = Some (x', tr)"
      and h: "srv_h st' = store_at io_self x' (srv_h st1)"
      using rd Inr ad Some births by (auto simp: h3_recv_datagram_def bind_eq_Some_conv)
    have x: "x \<in> set (srv_h st1)" using births Some by simp
    obtain r c where c: "quiche_conn_recv api (io_conn x) buf \<lparr>recv_from = a, recv_to = ?l\<rparr> = (r, c)"
      and cs: "(h3_conn_step api h3 g ?D ?l (io_cid x))\<^sup>*\<^sup>* (c, io_http3 x) (io_conn x', io_http3 x')"
      using h3_process_steps(1) [OF p] by blast
    have v': "h3_view x' = (io_cid x, (io_conn x', io_http3 x'), io_peer_addr x)"
      using h3_process_steps(2) [OF p] h3_process_frame(2) [OF p] by (simp add: h3_view_def)
    have d: "(h3_drive api h3 g ?D ?l)\<^sup>*\<^sup>* (io_cid x, (c, io_http3 x), io_peer_addr x) (h3_view x')"
      unfolding v' using cs by (rule h3_drives)
    have k: "(h3_drive api h3 g ?D ?l)\<^sup>*\<^sup>* (h3_view x) (h3_view x')" if "io_cid x = info_dcid info"
    proof -
      have "h3_conn_step api h3 g ?D ?l (io_cid x) (io_conn x, io_http3 x) (c, io_http3 x)"
        by (rule h3_got_datagram [OF _ Inr that [symmetric] c]) simp
      then have "h3_drive api h3 g ?D ?l (h3_view x) (io_cid x, (c, io_http3 x), io_peer_addr x)" by (simp add: h3_view_def)
      then show ?thesis using d by (rule converse_rtranclp_into_rtranclp)
    qed
    have n: "\<exists>v. h3_birth api config ?D ?l v \<and> (h3_drive api h3 g ?D ?l)\<^sup>*\<^sup>* v (h3_view x')"
      if "\<exists>p k c. x = new_h3_conn_io p (srv_sock st) k c a
               \<and> (\<forall>r c'. quiche_conn_recv api c buf \<lparr>recv_from = a, recv_to = srv_local_addr st\<rparr> = (r, c')
                    \<longrightarrow> accepted api config {(buf, a)} (srv_local_addr st) k c' a)"
      using that c d by (intro exI [of _ "(io_cid x, (c, io_http3 x), io_peer_addr x)"]) (auto simp: new_h3_conn_io_def)
    have "srv_h st1 = srv_h st \<and> (h3_drive api h3 g ?D ?l)\<^sup>*\<^sup>* (h3_view x) (h3_view x')
        \<or> srv_h st1 = srv_h st @ [x] \<and> (\<exists>v. h3_birth api config ?D ?l v \<and> (h3_drive api h3 g ?D ?l)\<^sup>*\<^sup>* v (h3_view x'))"
      using births k n unfolding Some by auto
    from entry_follows [OF x ok1 h3_process_frame(1) [OF p] this] show ?thesis unfolding h .
  qed
qed

interpretation h3_spec: server_spec io_cid io_self io_sock "h3_flush_egress api env" "is_closed api"
    "retire_conn api env" "send_fits api" "h3_runs api h3 env" "h3_recv_datagram api h3 env config g" "on_timeout api"
    h3_view "h3_birth api config" "h3_drive api h3 g" "\<lambda>v. quiche_conn_is_closed api (fst (fst (snd v)))"
  for api :: "'c quiche_api" and h3 :: "('c, 'h) quiche_h3_api" and env :: environment
    and config :: quiche_config and g :: quiche_h3_config
proof (intro server_spec.intro server_spec_axioms.intro)
  show "server_program io_cid io_self io_sock
      (h3_flush_egress api env :: ('c, 'h) h3_conn_io \<Rightarrow> history \<Rightarrow> (('c, 'h) h3_conn_io \<times> history) option)
      (retire_conn api env) (send_fits api) (h3_runs api h3 env) (h3_recv_datagram api h3 env config g) (on_timeout api)"
    by (rule h3_srv.server_program_axioms)
next
  fix d a and st st' :: "('c, 'h) h3_server_state" and b
  assume "h3_recv_datagram api h3 env config g d a st = Some (b, st')" "length a \<le> 128" "h3_runs api h3 env"
    "server_ok io_cid io_self io_sock st"
  then show "map_steps (h3_birth api config {(d, a)} (srv_local_addr st)) (h3_drive api h3 g {(d, a)} (srv_local_addr st))
      (\<lambda>v. quiche_conn_is_closed api (fst (fst (snd v)))) (views io_self h3_view (srv_h st)) (views io_self h3_view (srv_h st'))"
    by (intro h3_recv_datagram_follows) (auto simp: h3_runs_def)
next
  fix D l and x x' :: "('c, 'h) h3_conn_io" and tr tr'
  assume f: "h3_flush_egress api env x tr = Some (x', tr')"
  have "io_cid x' = io_cid x" using h3_srv.flush_frame [OF f] by simp
  then have v: "h3_view x' = (io_cid x, (io_conn x', io_http3 x'), io_peer_addr x)"
    using h3_flush_steps(2) [OF f] by (simp add: h3_view_def)
  show "(h3_drive api h3 g D l)\<^sup>*\<^sup>* (h3_view x) (h3_view x')"
    unfolding v unfolding h3_view_def by (rule h3_drives) (rule h3_flush_steps(1) [OF f])
next
  fix D l and x :: "('c, 'h) h3_conn_io"
  show "h3_drive api h3 g D l (h3_view x) (h3_view (on_timeout api x))"
    by (simp add: h3_view_def on_timeout_def h3_timed_out)
next
  fix D D' :: "(bytes \<times> sockaddr) set" and l and v v' :: "bytes \<times> ('c \<times> 'h option) \<times> sockaddr"
  assume D: "D \<subseteq> D'"
  obtain k c h a where v: "v = (k, (c, h), a)" by (metis prod.exhaust)
  show "h3_birth api config D l v \<Longrightarrow> h3_birth api config D' l v"
    using D by (auto simp: v intro: accepted_mono)
  show "h3_drive api h3 g D l v v' \<Longrightarrow> h3_drive api h3 g D' l v v'"
    using D by (cases v') (auto simp: v intro: h3_conn_step_mono)
qed (simp add: is_closed_def h3_view_def)

end
