(* ===== verification/SpecProps.thy ===== *)
theory SpecProps
  imports ServerSpec Http3Props
begin

text \<open>
  The two servers refine the machine of \<open>ServerSpec\<close>: what is in their tables after any run has come
  about by the steps the machine allows, on the datagrams that have arrived in that run.
\<close>

section \<open>server.c\<close>



text \<open>
  C6: Where a connection of the table comes from: in every run from an empty table, whatever datagrams arrive,
  each entry was accepted by the engine for a datagram that arrived from its peer's address with a token for
  that address, under the 16 bytes that agree with the datagram's destination connection ID, and was given
  that datagram first; the engine has seen it since only in calls on it, in order, with datagrams that have
  its key as destination connection ID.
\<close>

theorem connection_lineage:
  assumes "run_of (recv_cb api env config) (timeout_cb api env) st0 evs st"
    and "runs api env" and "server_ok io_cid io_self io_sock st0" and "srv_h st0 = []" and "x \<in> set (srv_h st)"
  shows "\<exists>c. accepted api config (\<Union> (arrived ` set evs)) (srv_local_addr st0) (io_cid x) c (io_peer_addr x)
    \<and> (conn_step api (\<Union> (arrived ` set evs)) (srv_local_addr st0) (io_cid x))\<^sup>*\<^sup>* c (io_conn x)"
proof -
  let ?D = "\<Union> (arrived ` set evs)" and ?l = "srv_local_addr st0"
  have r: "map_steps (conn_birth api config ?D ?l) (conn_drive api ?D ?l) (\<lambda>v. quiche_conn_is_closed api (fst (snd v)))
      Map.empty (views io_self conn_view (srv_h st))"
    using srv_spec.follows_run [of api env config] assms(1-4) unfolding recv_cb_def timeout_cb_def by blast
  have "server_ok io_cid io_self io_sock st"
    using srv.reachable_ok [where config = config] run_of_reachable [OF assms(1)] assms(2,3)
    unfolding recv_cb_def timeout_cb_def by blast
  then have v: "views io_self conn_view (srv_h st) (io_self x) = Some (io_cid x, io_conn x, io_peer_addr x)"
    using views_Some [of io_self, OF _ assms(5), of conn_view] by (simp add: server_ok_def conn_view_def)
  have d: "k' = k \<and> a' = a \<and> (conn_step api ?D ?l k)\<^sup>*\<^sup>* c c'"
    if "(conn_drive api ?D ?l)\<^sup>*\<^sup>* (k, c, a) (k', c', a')" for k c a k' c' a'
    using that
    by (induction "(k', c', a')" arbitrary: k' c' a' rule: rtranclp_induct) (auto intro: rtranclp.rtrancl_into_rtrancl)
  obtain k0 c0 a0 where b: "conn_birth api config ?D ?l (k0, c0, a0)"
    and r: "(conn_drive api ?D ?l)\<^sup>*\<^sup>* (k0, c0, a0) (io_cid x, io_conn x, io_peer_addr x)"
    using map_steps_lineage [OF r v] by auto
  show ?thesis using d [OF r] b by auto
qed

theorem connection_lineage_witness:
  "\<exists>(x :: demo_conn conn_io) c. io_cid x = replicate 16 7
     \<and> accepted demo_api demo_config {(demo_token_dgram, [4, 4])} [9, 9] (replicate 16 7) c (io_peer_addr x)
     \<and> (conn_step demo_api {(demo_token_dgram, [4, 4])} [9, 9] (replicate 16 7))\<^sup>*\<^sup>* c (io_conn x)"
proof -
  obtain x st where cb: "recv_cb demo_api demo_env demo_config [Datagram demo_token_dgram [4, 4]] demo_server = Some ([], st)"
    and st: "srv_h st = [x]" "io_cid x = replicate 16 7" using demo_recv_cb by blast
  have "srv_h demo_server = []" "srv_local_addr demo_server = [9, 9]" "x \<in> set (srv_h st)"
    by (simp_all add: demo_server_def st)
  with connection_lineage [OF demo_run [OF cb] demo_runs demo_server_ok, of x] st(2) show ?thesis
    by (intro exI [of _ x]) (auto simp: conj_commute)
qed

section \<open>http3-server.c\<close>

text \<open>
  C7: Every run of \<open>http3-server.c\<close> from an empty table, whatever datagrams arrive, is a run of the machine for
  it: as for \<open>server.c\<close>, and the HTTP/3 connection of an entry is made at most once, after the handshake, by the
  engine on that entry's connection, and then polled; every event with headers, and no other, is answered at
  once on its stream.
\<close>

theorem h3_server_run_refines:
  assumes "run_of (h3_recv_cb api h3 env config h3_config) (h3_timeout_cb api env) st0 evs st"
    and "h3_runs api h3 env" and "server_ok io_cid io_self io_sock st0" and "srv_h st0 = []"
  shows "map_steps (h3_birth api config (\<Union> (arrived ` set evs)) (srv_local_addr st0))
      (h3_drive api h3 h3_config (\<Union> (arrived ` set evs)) (srv_local_addr st0))
      (\<lambda>v. quiche_conn_is_closed api (fst (fst (snd v)))) Map.empty (views io_self h3_view (srv_h st))"
  using h3_spec.follows_run [of api h3 env config h3_config] assms unfolding h3_recv_cb_def h3_timeout_cb_def by blast

theorem h3_server_run_refines_witness:
  "\<exists>st. dispatch (h3_recv_cb demo_api demo_h3_api demo_env demo_config []) (h3_timeout_cb demo_api demo_env)
       (Readable [Datagram demo_token_dgram [4, 4]]) demo_h3_server = Some st
     \<and> map_steps (h3_birth demo_api demo_config {(demo_token_dgram, [4, 4])} [9, 9])
        (h3_drive demo_api demo_h3_api [] {(demo_token_dgram, [4, 4])} [9, 9]) (\<lambda>v. demo_closed (fst (fst (snd v))))
        Map.empty (views io_self h3_view (srv_h st))"
proof -
  let ?ev = "Readable [Datagram demo_token_dgram [4, 4]]"
  have "\<exists>st. dispatch (h3_recv_cb demo_api demo_h3_api demo_env demo_config []) (h3_timeout_cb demo_api demo_env)
      ?ev demo_h3_server = Some st"
    using h3_srv.reachable_progress [OF reachable.start demo_h3_runs demo_h3_server_ok demo_due]
    unfolding h3_recv_cb_def h3_timeout_cb_def by blast
  then obtain st where st: "dispatch (h3_recv_cb demo_api demo_h3_api demo_env demo_config [])
      (h3_timeout_cb demo_api demo_env) ?ev demo_h3_server = Some st" by blast
  have "srv_h demo_h3_server = []" "srv_local_addr demo_h3_server = [9, 9]" by (simp_all add: demo_h3_server_def)
  with h3_server_run_refines [OF run_next [OF run_start demo_due st] demo_h3_runs demo_h3_server_ok] st
  show ?thesis by (auto simp: conj_commute)
qed

section \<open>Both servers\<close>

text \<open>What is left of an entry of \<open>http3-server.c\<close> without its HTTP/3 connection, and of the whole state.\<close>

definition forget :: "('c, 'h) h3_conn_io \<Rightarrow> 'c conn_io" where
  "forget x = new_conn_io (io_self x) (io_sock x) (io_cid x) (io_conn x) (io_peer_addr x)\<lparr>io_repeat := io_repeat x\<rparr>"

definition forget_server :: "('c, 'h) h3_server_state \<Rightarrow> 'c server_state" where
  "forget_server st = \<lparr>srv_sock = srv_sock st, srv_local_addr = srv_local_addr st, srv_h = map forget (srv_h st),
     srv_next = srv_next st, srv_trace = srv_trace st\<rparr>"

lemma forget_simps [simp]:
  "io_self (forget x) = io_self x" "io_cid (forget x) = io_cid x" "io_sock (forget x) = io_sock x"
  "io_conn (forget x) = io_conn x" "io_peer_addr (forget x) = io_peer_addr x"
  by (simp_all add: forget_def new_conn_io_def)

lemma forget_new: "forget (new_h3_conn_io p s k c a) = new_conn_io p s k c a"
  by (simp add: forget_def new_conn_io_def new_h3_conn_io_def)

lemma forget_server_simps [simp]:
  "srv_sock (forget_server st) = srv_sock st" "srv_local_addr (forget_server st) = srv_local_addr st"
  "srv_h (forget_server st) = map forget (srv_h st)" "srv_next (forget_server st) = srv_next st"
  "srv_trace (forget_server st) = srv_trace st"
  by (simp_all add: forget_server_def)

lemma forget_server_updates [simp]:
  "forget_server (st\<lparr>srv_trace := tr\<rparr>) = (forget_server st)\<lparr>srv_trace := tr\<rparr>"
  "forget_server (st\<lparr>srv_next := n\<rparr>) = (forget_server st)\<lparr>srv_next := n\<rparr>"
  "forget_server (st\<lparr>srv_h := h\<rparr>) = (forget_server st)\<lparr>srv_h := map forget h\<rparr>"
  "forget_server (server_log e st) = server_log e (forget_server st)"
  by (simp_all add: forget_server_def server_log_def)

lemma hash_find_forget:
  "hash_find env tr io_cid io_self k (map forget h) = map_option forget (hash_find env tr io_cid io_self k h)"
proof -
  have "find (\<lambda>x. io_self x = p) (map forget h) = map_option forget (find (\<lambda>x. io_self x = p) h)" for p
    by (induction h) simp_all
  then show ?thesis by (simp add: hash_find_def entry_at_def comp_def split: option.split)
qed

definition forget_result :: "('c, 'h) h3_conn_io option \<times> ('c, 'h) h3_server_state \<Rightarrow> 'c conn_io option \<times> 'c server_state" where
  "forget_result r = (map_option forget (fst r), forget_server (snd r))"

lemma create_conn_forget:
  "create_conn api env config new_conn_io scid n odcid a (forget_server st) =
     map_option forget_result (create_conn api env config new_h3_conn_io scid n odcid a st)"
  by (auto simp: create_conn_def forget_result_def forget_new hash_add_def Let_def split: option.split bind_split)

text \<open>Admission does not look at the HTTP/3 connections.\<close>

lemma admit_forget:
  "admit api env config io_cid io_self new_conn_io info a (forget_server st) =
     map_option forget_result (admit api env config io_cid io_self new_h3_conn_io info a st)"
proof (cases "hash_find env (srv_trace st) io_cid io_self (info_dcid info) (srv_h st)")
  case None
  then show ?thesis
    by (cases "stateless_retry api env info a (srv_sock st) (srv_trace st)")
      (auto simp: admit_def hash_find_forget forget_result_def create_conn_forget split: option.split)
next
  case (Some x)
  then show ?thesis by (simp add: admit_def hash_find_forget forget_result_def)
qed

lemma process_forget:
  assumes "\<And>n c'. quiche_conn_recv api (io_conn x) buf \<lparr>recv_from = a, recv_to = l\<rparr> = (Inr n, c') \<Longrightarrow> \<not> quiche_conn_is_established api c'"
  shows "map_option (map_prod forget id) (h3_process api h3 g buf a l x tr) = Some (process api buf a l (forget x) tr)"
proof -
  obtain r c where r: "quiche_conn_recv api (io_conn x) buf \<lparr>recv_from = a, recv_to = l\<rparr> = (r, c)" by fastforce
  then show ?thesis using assms
    by (cases r) (auto simp: h3_process_def process_def Let_def forget_def new_conn_io_def)
qed

lemma store_at_forget: "map forget (store_at io_self x h) = store_at io_self (forget x) (map forget h)"
  by (simp add: store_at_def)

text \<open>
  Until a handshake is complete the two servers are the same: on every datagram that can be read, after
  which the engine does not report its connection as established, both send the same, make or find the same
  connection, take it the same step further and report the same, whatever HTTP/3 connections there are.
\<close>

theorem servers_handshake_alike:
  assumes "read_header buf = Inr info"
    and "\<And>c n c'. quiche_conn_recv api c buf \<lparr>recv_from = a, recv_to = srv_local_addr st\<rparr> = (Inr n, c') \<Longrightarrow>
      \<not> quiche_conn_is_established api c'"
  shows "recv_datagram api env config buf a (forget_server st) =
    map_option (map_prod id forget_server) (h3_recv_datagram api h3 env config h3_config buf a st)"
proof (cases "admit api env config io_cid io_self new_h3_conn_io info a st")
  case None
  then show ?thesis using assms(1) by (simp add: recv_datagram_def h3_recv_datagram_def admit_forget)
next
  case (Some q)
  obtain r st1 where q: "q = (r, st1)" by fastforce
  have la: "srv_local_addr st1 = srv_local_addr st"
    using Some q by (auto simp: admit_def create_conn_def bind_eq_Some_conv Let_def split: option.splits if_splits)
  show ?thesis
  proof (cases r)
    case None
    then show ?thesis using assms(1) Some q
      by (simp add: recv_datagram_def h3_recv_datagram_def admit_forget forget_result_def)
  next
    case x: (Some x)
    have p: "map_option (map_prod forget id) (h3_process api h3 h3_config buf a (srv_local_addr st) x (srv_trace st1)) =
        Some (process api buf a (srv_local_addr st) (forget x) (srv_trace st1))"
      by (rule process_forget) (rule assms(2))
    then obtain x' tr where p': "h3_process api h3 h3_config buf a (srv_local_addr st) x (srv_trace st1) = Some (x', tr)"
      by (auto simp: map_option_case split: option.splits)
    then have "process api buf a (srv_local_addr st) (forget x) (srv_trace st1) = (forget x', tr)" using p by simp
    then show ?thesis using assms(1) Some q x p' la
      by (simp add: recv_datagram_def h3_recv_datagram_def admit_forget forget_result_def store_at_forget)
  qed
qed

theorem servers_handshake_alike_witness:
  "recv_datagram (demo_api\<lparr>quiche_conn_is_established := \<lambda>c. False\<rparr>) demo_env demo_config demo_token_dgram [4, 4] demo_server =
    map_option (map_prod id forget_server) (h3_recv_datagram (demo_api\<lparr>quiche_conn_is_established := \<lambda>c. False\<rparr>)
      demo_h3_api demo_env demo_config [] demo_token_dgram [4, 4] demo_h3_server)"
proof -
  have "forget_server demo_h3_server = demo_server"
    by (simp add: forget_server_def demo_h3_server_def demo_server_def)
  with servers_handshake_alike [OF demo_token_dgram_header, of "demo_api\<lparr>quiche_conn_is_established := \<lambda>c. False\<rparr>"
      "[4, 4]" demo_h3_server demo_env demo_config demo_h3_api "[]"]
  show ?thesis by simp
qed

end
