(* ===== verification/Dgram.thy ===== *)
theory Dgram
  imports QuicheApi "HOL-Library.Sublist"
begin

text \<open>
  Unreliable datagrams: the functions \<open>quiche_conn_dgram_*\<close> of \<open>quiche.h\<close>, from the queue in
  \<open>src/dgram.rs\<close> over the connection in \<open>src/lib.rs\<close> and the frame in \<open>src/frame.rs\<close> to the C functions
  in \<open>src/ffi.rs\<close>.  Sizes are natural numbers: the lengths of byte strings in memory do not overflow a
  \<open>usize\<close>.  Of the connection only the fields that these functions use are in the model.
\<close>

section \<open>The queue\<close>

record dgram_queue =
  dq_queue :: "bytes list"
  dq_max_len :: nat
  dq_bytes :: nat

definition dq_new :: "nat \<Rightarrow> dgram_queue" where
  "dq_new max_len = \<lparr>dq_queue = [], dq_max_len = max_len, dq_bytes = 0\<rparr>"

definition dq_len :: "dgram_queue \<Rightarrow> nat" where
  "dq_len q = length (dq_queue q)"

definition dq_is_full :: "dgram_queue \<Rightarrow> bool" where
  "dq_is_full q \<longleftrightarrow> dq_len q = dq_max_len q"

definition dq_is_empty :: "dgram_queue \<Rightarrow> bool" where
  "dq_is_empty q \<longleftrightarrow> dq_len q = 0"

definition dq_has_pending :: "dgram_queue \<Rightarrow> bool" where
  "dq_has_pending q \<longleftrightarrow> dq_queue q \<noteq> []"

definition dq_byte_size :: "dgram_queue \<Rightarrow> nat" where
  "dq_byte_size q = dq_bytes q"

definition dq_push :: "bytes \<Rightarrow> dgram_queue \<Rightarrow> quiche_error + dgram_queue" where
  "dq_push data q =
     (if dq_is_full q then Inl QUICHE_ERR_DONE
      else Inr (q\<lparr>dq_bytes := dq_bytes q + length data, dq_queue := dq_queue q @ [data]\<rparr>))"

definition dq_peek_front_len :: "dgram_queue \<Rightarrow> nat option" where
  "dq_peek_front_len q = (case dq_queue q of [] \<Rightarrow> None | d # _ \<Rightarrow> Some (length d))"

text \<open>At most \<open>len\<close> bytes of the first datagram, in the buffer \<open>buf\<close>.\<close>

definition dq_peek_front_bytes :: "bytes \<Rightarrow> nat \<Rightarrow> dgram_queue \<Rightarrow> quiche_error + bytes \<times> nat" where
  "dq_peek_front_bytes buf len q =
     (case dq_queue q of
        [] \<Rightarrow> Inl QUICHE_ERR_DONE
      | d # _ \<Rightarrow>
          let len = min len (length d) in
          if length buf < len then Inl QUICHE_ERR_BUFFER_TOO_SHORT
          else Inr (take len d @ drop len buf, len))"

text \<open>The subtraction saturates, as that of natural numbers does.\<close>

definition dq_pop :: "dgram_queue \<Rightarrow> bytes option \<times> dgram_queue" where
  "dq_pop q =
     (case dq_queue q of
        [] \<Rightarrow> (None, q)
      | d # ds \<Rightarrow> (Some d, q\<lparr>dq_queue := ds, dq_bytes := dq_bytes q - length d\<rparr>))"

definition dq_purge :: "(bytes \<Rightarrow> bool) \<Rightarrow> dgram_queue \<Rightarrow> dgram_queue" where
  "dq_purge f q =
     (let ds = filter (\<lambda>d. \<not> f d) (dq_queue q)
      in q\<lparr>dq_queue := ds, dq_bytes := fold (\<lambda>d total. total + length d) ds 0\<rparr>)"

section \<open>The connection\<close>

text \<open>
  The two queues, the two transport parameters, the length of the destination connection ID, the result
  of \<open>max_send_udp_payload_size\<close>, the tag length of the application keys when there are any, whether
  there is an active path, the window of its congestion controller and its \<open>app_limited\<close>.
\<close>

record dgram_conn =
  dc_recv_queue :: dgram_queue
  dc_send_queue :: dgram_queue
  dc_peer_max :: "u64 option"
  dc_local_max :: "u64 option"
  dc_dcid_len :: nat
  dc_max_send :: nat
  dc_crypto_overhead :: "nat option"
  dc_active_path :: bool
  dc_cwnd_available :: nat
  dc_app_limited :: bool
  dc_recv_count :: nat

definition MAX_PKT_NUM_LEN :: nat where
  "MAX_PKT_NUM_LEN = 4"

definition MAX_DGRAM_OVERHEAD :: nat where
  "MAX_DGRAM_OVERHEAD = 2"

definition dgram_max_writable_len :: "dgram_conn \<Rightarrow> nat option" where
  "dgram_max_writable_len c =
     (case dc_peer_max c of
        None \<Rightarrow> None
      | Some peer_frame_len \<Rightarrow>
          let max_len = dc_max_send c;
              max_len = max_len - (1 + dc_dcid_len c);
              max_len = max_len - MAX_PKT_NUM_LEN in
          (case dc_crypto_overhead c of
             None \<Rightarrow> None
           | Some overhead \<Rightarrow>
               let max_len = max_len - overhead;
                   max_len = min (unat peer_frame_len) max_len in
               if max_len < 1 + MAX_DGRAM_OVERHEAD then None
               else Some (max_len - (1 + MAX_DGRAM_OVERHEAD))))"

text \<open>The datagram is taken from the queue before its length is compared with the buffer.\<close>

definition dgram_recv :: "bytes \<Rightarrow> dgram_conn \<Rightarrow> (quiche_error + bytes \<times> nat) \<times> dgram_conn" where
  "dgram_recv buf c =
     (case dq_pop (dc_recv_queue c) of
        (Some d, q) \<Rightarrow>
          let c = c\<lparr>dc_recv_queue := q\<rparr> in
          if length buf < length d then (Inl QUICHE_ERR_BUFFER_TOO_SHORT, c)
          else (Inr (d @ drop (length d) buf, length d), c)
      | (None, q) \<Rightarrow> (Inl QUICHE_ERR_DONE, c\<lparr>dc_recv_queue := q\<rparr>))"

definition dgram_recv_peek :: "bytes \<Rightarrow> nat \<Rightarrow> dgram_conn \<Rightarrow> quiche_error + bytes \<times> nat" where
  "dgram_recv_peek buf len c = dq_peek_front_bytes buf len (dc_recv_queue c)"

text \<open>When there is no active path the datagram is in the queue although the result is an error.\<close>

definition dgram_send :: "bytes \<Rightarrow> dgram_conn \<Rightarrow> (quiche_error + unit) \<times> dgram_conn" where
  "dgram_send buf c =
     (case dgram_max_writable_len c of
        None \<Rightarrow> (Inl QUICHE_ERR_INVALID_STATE, c)
      | Some max_payload_len \<Rightarrow>
          if max_payload_len < length buf then (Inl QUICHE_ERR_BUFFER_TOO_SHORT, c)
          else (case dq_push buf (dc_send_queue c) of
             Inl e \<Rightarrow> (Inl e, c)
           | Inr q \<Rightarrow>
               let c = c\<lparr>dc_send_queue := q\<rparr> in
               if \<not> dc_active_path c then (Inl QUICHE_ERR_INVALID_STATE, c)
               else if dc_cwnd_available c < dq_byte_size q then (Inr (), c\<lparr>dc_app_limited := False\<rparr>)
               else (Inr (), c)))"

definition dgram_purge_outgoing :: "(bytes \<Rightarrow> bool) \<Rightarrow> dgram_conn \<Rightarrow> dgram_conn" where
  "dgram_purge_outgoing f c = c\<lparr>dc_send_queue := dq_purge f (dc_send_queue c)\<rparr>"

text \<open>
  What \<open>process_frame\<close> does with a datagram: when the queue is full the oldest makes room.  The counter
  saturates at \<open>usize::MAX\<close>.
\<close>

definition process_datagram :: "bytes \<Rightarrow> dgram_conn \<Rightarrow> (quiche_error + unit) \<times> dgram_conn" where
  "process_datagram data c =
     (if dc_local_max c = None then (Inl QUICHE_ERR_INVALID_STATE, c)
      else
        let q = dc_recv_queue c;
            q = (if dq_is_full q then snd (dq_pop q) else q) in
        (case dq_push data q of
           Inl e \<Rightarrow> (Inl e, c\<lparr>dc_recv_queue := q\<rparr>)
         | Inr q \<Rightarrow> (Inr (), c\<lparr>dc_recv_queue := q, dc_recv_count := min (dc_recv_count c + 1) (2 ^ 64 - 1)\<rparr>)))"

section \<open>The frame\<close>

definition encode_dgram_header :: "u64 \<Rightarrow> octets_put" where
  "encode_dgram_header len = put_seq (octets_put_varint_with_len (0x30 OR 0x01) 1) (octets_put_varint_with_len len 2)"

datatype 'f frame = Datagram_frame bytes | Other_frame 'f

definition parse_datagram_frame :: "u64 \<Rightarrow> bytes octets_get" where
  "parse_datagram_frame ty b =
     (let first = ucast ty :: u8 in
      if first AND 0x01 \<noteq> 0 then oct_bind octets_get_varint (\<lambda>len. octets_get_bytes (unat len)) b
      else octets_get_bytes (length b) b)"

text \<open>
  Which frames a packet may hold: the \<open>match\<close> at the end of \<open>Frame::from_bytes\<close>, by the type numbers of the
  frames it names.  \<open>PADDING\<close> and \<open>PING\<close> may be anywhere; \<open>ACK\<close>, \<open>CRYPTO\<close>, \<open>HANDSHAKE_DONE\<close>, \<open>NEW_TOKEN\<close>,
  \<open>PATH_RESPONSE\<close>, \<open>RETIRE_CONNECTION_ID\<close> and \<open>CONNECTION_CLOSE\<close> not in a 0-RTT packet; of these \<open>ACK\<close>, \<open>CRYPTO\<close>
  and \<open>CONNECTION_CLOSE\<close> in any other; and everything else only in 0-RTT and 1-RTT packets.
\<close>

definition frame_allowed :: "pkt_type \<Rightarrow> u64 \<Rightarrow> bool" where
  "frame_allowed pkt frame_type \<longleftrightarrow>
     (if frame_type = 0x00 \<or> frame_type = 0x01 then True
      else if pkt = ZeroRTT \<and> frame_type \<in> {0x02, 0x03, 0x06, 0x1e, 0x07, 0x1b, 0x19, 0x1c} then False
      else if frame_type \<in> {0x02, 0x03, 0x06, 0x1c} then True
      else pkt = Short \<or> pkt = ZeroRTT)"

text \<open>
  \<open>Frame::from_bytes\<close> in a packet of type \<open>pkt\<close>; the reader of every other type of frame is a parameter.
\<close>

definition frame_from_bytes :: "(u64 \<Rightarrow> 'f octets_get) \<Rightarrow> pkt_type \<Rightarrow> 'f frame octets_get" where
  "frame_from_bytes other pkt =
     oct_bind octets_get_varint (\<lambda>frame_type.
       oct_bind
         (if frame_type = 0x30 \<or> frame_type = 0x31
          then oct_bind (parse_datagram_frame frame_type) (\<lambda>data. oct_ret (Datagram_frame data))
          else oct_bind (other frame_type) (\<lambda>f. oct_ret (Other_frame f)))
         (\<lambda>frame. if frame_allowed pkt frame_type then oct_ret frame else oct_err QUICHE_ERR_INVALID_PACKET))"

text \<open>
  The loop of \<open>send_single\<close> over the queue: \<open>left\<close> is the room in the packet, \<open>max_payload\<close> what
  \<open>dgram_max_writable_len\<close> gave when the packet was begun, \<open>w\<close> what has been written of the packet, in a
  buffer of \<open>cap\<close> bytes.  A header that cannot be encoded ends \<open>send_single\<close> with an error.
\<close>

definition put_dgram :: "bytes \<Rightarrow> octets_put" where
  "put_dgram data = put_seq (encode_dgram_header (of_nat (length data))) (octets_put_bytes data)"

function emit_dgrams ::
  "nat \<Rightarrow> nat \<Rightarrow> nat \<Rightarrow> bytes \<Rightarrow> dgram_queue \<Rightarrow> (quiche_error + bytes \<times> nat) \<times> dgram_queue" where
  "emit_dgrams cap max_payload left w q =
     (case dq_pop q of
        (None, _) \<Rightarrow> (Inr (w, left), q)
      | (Some data, q') \<Rightarrow>
          let len = length data; hdr_len = 1 + 2 in
          if hdr_len + len \<le> left
          then (case put_dgram data cap w of
                  Inl e \<Rightarrow> (Inl e, q')
                | Inr w' \<Rightarrow> emit_dgrams cap max_payload (left - (hdr_len + len)) w' q')
          else if max_payload < len then emit_dgrams cap max_payload left w q'
          else (Inr (w, left), q))"
  by pat_completeness auto
termination
  by (relation "measure (\<lambda>(cap, max_payload, left, w, q). length (dq_queue q))")
    (auto simp: dq_pop_def split: list.splits)

declare emit_dgrams.simps [simp del]

section \<open>The C functions\<close>

text \<open>The prototypes of \<open>quiche.h\<close>; \<open>None\<close> is the panic for a buffer larger than \<open>SSIZE_MAX\<close>.\<close>

record 'c quiche_datagrams =
  quiche_conn_dgram_max_writable_len :: "'c \<Rightarrow> int"
  quiche_conn_dgram_recv_front_len :: "'c \<Rightarrow> int"
  quiche_conn_dgram_recv_queue_len :: "'c \<Rightarrow> int"
  quiche_conn_dgram_recv_queue_byte_size :: "'c \<Rightarrow> int"
  quiche_conn_dgram_send_queue_len :: "'c \<Rightarrow> int"
  quiche_conn_dgram_send_queue_byte_size :: "'c \<Rightarrow> int"
  quiche_conn_dgram_recv :: "'c \<Rightarrow> bytes \<Rightarrow> (int \<times> bytes \<times> 'c) option"
  quiche_conn_dgram_send :: "'c \<Rightarrow> bytes \<Rightarrow> (int \<times> 'c) option"
  quiche_conn_dgram_purge_outgoing :: "'c \<Rightarrow> (bytes \<Rightarrow> bool) \<Rightarrow> 'c"
  quiche_conn_is_dgram_send_queue_full :: "'c \<Rightarrow> bool"
  quiche_conn_is_dgram_recv_queue_full :: "'c \<Rightarrow> bool"

definition SSIZE_MAX :: nat where
  "SSIZE_MAX = 2 ^ 63 - 1"

definition option_to_c :: "nat option \<Rightarrow> int" where
  "option_to_c v = (case v of None \<Rightarrow> quiche_error_code QUICHE_ERR_DONE | Some n \<Rightarrow> int n)"

definition ffi_dgram_send :: "dgram_conn \<Rightarrow> bytes \<Rightarrow> (int \<times> dgram_conn) option" where
  "ffi_dgram_send c buf =
     (if SSIZE_MAX < length buf then None
      else Some (case dgram_send buf c of
          (Inr _, c) \<Rightarrow> (int (length buf), c)
        | (Inl e, c) \<Rightarrow> (quiche_error_code e, c)))"

definition ffi_dgram_recv :: "dgram_conn \<Rightarrow> bytes \<Rightarrow> (int \<times> bytes \<times> dgram_conn) option" where
  "ffi_dgram_recv c buf =
     (if SSIZE_MAX < length buf then None
      else Some (case dgram_recv buf c of
          (Inr (buf', n), c) \<Rightarrow> (int n, buf', c)
        | (Inl e, c) \<Rightarrow> (quiche_error_code e, buf, c)))"

definition dgram_api :: "dgram_conn quiche_datagrams" where
  "dgram_api =
     \<lparr>quiche_conn_dgram_max_writable_len = (\<lambda>c. option_to_c (dgram_max_writable_len c)),
      quiche_conn_dgram_recv_front_len = (\<lambda>c. option_to_c (dq_peek_front_len (dc_recv_queue c))),
      quiche_conn_dgram_recv_queue_len = (\<lambda>c. int (dq_len (dc_recv_queue c))),
      quiche_conn_dgram_recv_queue_byte_size = (\<lambda>c. int (dq_byte_size (dc_recv_queue c))),
      quiche_conn_dgram_send_queue_len = (\<lambda>c. int (dq_len (dc_send_queue c))),
      quiche_conn_dgram_send_queue_byte_size = (\<lambda>c. int (dq_byte_size (dc_send_queue c))),
      quiche_conn_dgram_recv = ffi_dgram_recv,
      quiche_conn_dgram_send = ffi_dgram_send,
      quiche_conn_dgram_purge_outgoing = (\<lambda>c f. dgram_purge_outgoing f c),
      quiche_conn_is_dgram_send_queue_full = (\<lambda>c. dq_is_full (dc_send_queue c)),
      quiche_conn_is_dgram_recv_queue_full = (\<lambda>c. dq_is_full (dc_recv_queue c))\<rparr>"

section \<open>Invariant of the queue\<close>

text \<open>The size in bytes is that of the datagrams, so its subtraction never saturates; the queue is bounded.\<close>

definition dq_ok :: "dgram_queue \<Rightarrow> bool" where
  "dq_ok q \<longleftrightarrow> dq_bytes q = sum_list (map length (dq_queue q)) \<and> length (dq_queue q) \<le> dq_max_len q"

lemma fold_sizes: "fold (\<lambda>d total. total + length d) ds n = n + sum_list (map length ds)"
  by (induction ds arbitrary: n) simp_all

lemma dq_ok_new: "dq_ok (dq_new n)"
  by (simp add: dq_ok_def dq_new_def)

lemma dq_ok_push: "dq_ok q \<Longrightarrow> dq_push d q = Inr q' \<Longrightarrow> dq_ok q'"
  by (auto simp: dq_ok_def dq_push_def dq_is_full_def dq_len_def split: if_splits)

lemma dq_ok_pop: "dq_ok q \<Longrightarrow> dq_pop q = (r, q') \<Longrightarrow> dq_ok q'"
  by (auto simp: dq_ok_def dq_pop_def split: list.splits)

lemma dq_ok_purge: "dq_ok q \<Longrightarrow> dq_ok (dq_purge f q)"
  using length_filter_le [of "\<lambda>d. \<not> f d" "dq_queue q"]
  by (auto simp: dq_ok_def dq_purge_def Let_def fold_sizes simp del: length_filter_le)

lemma dq_push_iff: "dq_push d q = Inr q' \<longleftrightarrow> length (dq_queue q) \<noteq> dq_max_len q
    \<and> q' = q\<lparr>dq_bytes := dq_bytes q + length d, dq_queue := dq_queue q @ [d]\<rparr>"
  by (auto simp: dq_push_def dq_is_full_def dq_len_def)

lemma dq_pop_frame: "dq_pop q = (r, q') \<Longrightarrow> dq_max_len q' = dq_max_len q \<and> dq_queue q' = tl (dq_queue q)"
  by (auto simp: dq_pop_def split: list.splits)

section \<open>The queue as a bounded FIFO\<close>

definition last_n :: "nat \<Rightarrow> 'a list \<Rightarrow> 'a list" where
  "last_n n xs = drop (length xs - n) xs"

lemma last_n_append: "last_n n (last_n n xs @ ys) = last_n n (xs @ ys)"
  by (cases "length xs \<le> n") (auto simp: last_n_def add.commute)

text \<open>
  The contract between the queue and the connection: a sequence of datagrams, at most \<open>cap\<close> many, which
  enters at one end and leaves at the other, with its size in bytes.
\<close>

locale fifo =
  fixes ok :: "'q \<Rightarrow> bool" and items :: "'q \<Rightarrow> bytes list" and cap :: "'q \<Rightarrow> nat" and size_of :: "'q \<Rightarrow> nat"
    and push :: "bytes \<Rightarrow> 'q \<Rightarrow> quiche_error + 'q" and pop :: "'q \<Rightarrow> bytes option \<times> 'q"
  assumes ok_size: "ok q \<Longrightarrow> size_of q = sum_list (map length (items q))"
    and ok_bound: "ok q \<Longrightarrow> length (items q) \<le> cap q"
    and push_full: "ok q \<Longrightarrow> length (items q) = cap q \<Longrightarrow> push d q = Inl QUICHE_ERR_DONE"
    and push_room: "ok q \<Longrightarrow> length (items q) < cap q \<Longrightarrow>
      \<exists>q'. push d q = Inr q' \<and> ok q' \<and> items q' = items q @ [d] \<and> cap q' = cap q"
    and pop_empty: "ok q \<Longrightarrow> items q = [] \<Longrightarrow> pop q = (None, q)"
    and pop_front: "ok q \<Longrightarrow> items q = d # ds \<Longrightarrow> \<exists>q'. pop q = (Some d, q') \<and> ok q' \<and> items q' = ds \<and> cap q' = cap q"
begin

text \<open>
  A datagram that arrives when the queue is full takes the place of the oldest; a queue without room for
  any refuses it.  After several the queue holds the last ones, as many as there is room for.
\<close>

definition arrive :: "bytes \<Rightarrow> 'q \<Rightarrow> quiche_error + 'q" where
  "arrive d q = push d (if length (items q) = cap q then snd (pop q) else q)"

lemma arrive_room:
  assumes "ok q" and "0 < cap q"
  shows "\<exists>q'. arrive d q = Inr q' \<and> ok q' \<and> items q' = last_n (cap q) (items q @ [d]) \<and> cap q' = cap q"
proof (cases "length (items q) = cap q")
  case True
  then obtain e es where e: "items q = e # es" using assms(2) by (cases "items q") auto
  then obtain q1 where q1: "pop q = (Some e, q1)" "ok q1" "items q1 = es" "cap q1 = cap q"
    using pop_front [OF assms(1)] by blast
  have "length (items q1) < cap q1" using True e q1 by simp
  from push_room [OF q1(2) this] obtain q2 where
    "push d q1 = Inr q2" "ok q2" "items q2 = es @ [d]" "cap q2 = cap q" using q1 by auto
  then show ?thesis using True e q1 by (auto simp: arrive_def last_n_def)
next
  case False
  then have "length (items q) < cap q" using ok_bound [OF assms(1)] by simp
  from push_room [OF assms(1) this] show ?thesis using False \<open>length (items q) < cap q\<close>
    by (auto simp: arrive_def last_n_def)
qed

lemma arrive_none:
  assumes "ok q" and "cap q = 0"
  shows "arrive d q = Inl QUICHE_ERR_DONE"
proof -
  have "items q = []" using ok_bound [OF assms(1)] assms(2) by simp
  then show ?thesis using pop_empty [OF assms(1)] push_full [OF assms(1)] assms(2) by (simp add: arrive_def)
qed

primrec arrive_all :: "bytes list \<Rightarrow> 'q \<Rightarrow> quiche_error + 'q" where
  "arrive_all [] q = Inr q"
| "arrive_all (d # ds) q = (case arrive d q of Inl e \<Rightarrow> Inl e | Inr q' \<Rightarrow> arrive_all ds q')"

lemma arrive_all_room:
  assumes "ok q" and "0 < cap q"
  shows "\<exists>q'. arrive_all ds q = Inr q' \<and> ok q' \<and> items q' = last_n (cap q) (items q @ ds) \<and> cap q' = cap q"
  using assms
proof (induction ds arbitrary: q)
  case Nil
  then show ?case using ok_bound [of q] by (simp add: last_n_def)
next
  case (Cons d ds)
  from arrive_room [OF Cons.prems, of d] obtain q1 where
    q1: "arrive d q = Inr q1" "ok q1" "items q1 = last_n (cap q) (items q @ [d])" "cap q1 = cap q" by blast
  have "0 < cap q1" using q1(4) Cons.prems(2) by simp
  from Cons.IH [OF q1(2) this] obtain q2 where
    "arrive_all ds q1 = Inr q2" "ok q2" "items q2 = last_n (cap q) (last_n (cap q) (items q @ [d]) @ ds)" "cap q2 = cap q"
    using q1 by auto
  then show ?case using q1(1) by (simp add: last_n_append)
qed

text \<open>Popping gives the datagrams in order.\<close>

primrec pop_many :: "nat \<Rightarrow> 'q \<Rightarrow> bytes list \<times> 'q" where
  "pop_many 0 q = ([], q)"
| "pop_many (Suc n) q = (case pop q of (None, q') \<Rightarrow> ([], q')
     | (Some d, q') \<Rightarrow> (d # fst (pop_many n q'), snd (pop_many n q')))"

lemma pop_many_items: "ok q \<Longrightarrow> fst (pop_many n q) = take n (items q)"
proof (induction n arbitrary: q)
  case (Suc n)
  show ?case
  proof (cases "items q")
    case Nil
    then show ?thesis using pop_empty [OF Suc.prems] by simp
  next
    case (Cons d ds)
    then obtain q' where "pop q = (Some d, q')" "ok q'" "items q' = ds"
      using pop_front [OF Suc.prems] by blast
    then show ?thesis using Suc.IH [of q'] Cons by simp
  qed
qed simp

end

interpretation dq: fifo dq_ok dq_queue dq_max_len dq_byte_size dq_push dq_pop
proof unfold_locales
  fix q d ds
  assume ok: "dq_ok q"
  show "dq_byte_size q = sum_list (map length (dq_queue q))" using ok by (simp add: dq_ok_def dq_byte_size_def)
  show "length (dq_queue q) \<le> dq_max_len q" using ok by (simp add: dq_ok_def)
  show "dq_push d q = Inl QUICHE_ERR_DONE" if "length (dq_queue q) = dq_max_len q"
    using that by (simp add: dq_push_def dq_is_full_def dq_len_def)
  show "\<exists>q'. dq_push d q = Inr q' \<and> dq_ok q' \<and> dq_queue q' = dq_queue q @ [d] \<and> dq_max_len q' = dq_max_len q"
    if "length (dq_queue q) < dq_max_len q"
    using that ok by (auto simp: dq_push_iff dq_ok_def)
  show "dq_pop q = (None, q)" if "dq_queue q = []" using that by (simp add: dq_pop_def)
  show "\<exists>q'. dq_pop q = (Some d, q') \<and> dq_ok q' \<and> dq_queue q' = ds \<and> dq_max_len q' = dq_max_len q"
    if "dq_queue q = d # ds"
    using that ok by (auto simp: dq_pop_def dq_ok_def)
qed

section \<open>Arrival\<close>

lemma process_datagram_eq:
  "process_datagram data c =
     (if dc_local_max c = None then (Inl QUICHE_ERR_INVALID_STATE, c)
      else case dq.arrive data (dc_recv_queue c) of
        Inl e \<Rightarrow> (Inl e, c\<lparr>dc_recv_queue := if dq_is_full (dc_recv_queue c) then snd (dq_pop (dc_recv_queue c)) else dc_recv_queue c\<rparr>)
      | Inr q \<Rightarrow> (Inr (), c\<lparr>dc_recv_queue := q, dc_recv_count := min (dc_recv_count c + 1) (2 ^ 64 - 1)\<rparr>))"
  by (simp add: process_datagram_def dq.arrive_def dq_is_full_def dq_len_def Let_def)

text \<open>What the receiver does with the frames of a packet, as long as none is an error.\<close>

primrec receive_datagrams :: "bytes list \<Rightarrow> dgram_conn \<Rightarrow> (quiche_error + unit) \<times> dgram_conn" where
  "receive_datagrams [] c = (Inr (), c)"
| "receive_datagrams (d # ds) c =
     (case process_datagram d c of (Inl e, c') \<Rightarrow> (Inl e, c') | (Inr _, c') \<Rightarrow> receive_datagrams ds c')"

lemma receive_datagrams_queue:
  assumes "dc_local_max c \<noteq> None" and "dq_ok (dc_recv_queue c)" and "0 < dq_max_len (dc_recv_queue c)"
  shows "\<exists>c'. receive_datagrams ds c = (Inr (), c') \<and> dq_ok (dc_recv_queue c')
    \<and> dq_queue (dc_recv_queue c') = last_n (dq_max_len (dc_recv_queue c)) (dq_queue (dc_recv_queue c) @ ds)
    \<and> dc_send_queue c' = dc_send_queue c"
proof -
  obtain q where q: "dq.arrive_all ds (dc_recv_queue c) = Inr q" "dq_ok q"
    "dq_queue q = last_n (dq_max_len (dc_recv_queue c)) (dq_queue (dc_recv_queue c) @ ds)"
    using dq.arrive_all_room [OF assms(2,3)] by blast
  have "\<exists>c'. receive_datagrams ds c = (Inr (), c') \<and> dc_recv_queue c' = q \<and> dc_send_queue c' = dc_send_queue c"
    if "dq.arrive_all ds (dc_recv_queue c) = Inr q" and "dc_local_max c \<noteq> None" for c :: dgram_conn
    using that
  proof (induction ds arbitrary: c)
    case (Cons d ds)
    from Cons.prems(1) obtain q1 where q1: "dq.arrive d (dc_recv_queue c) = Inr q1" "dq.arrive_all ds q1 = Inr q"
      by (cases "dq.arrive d (dc_recv_queue c)") simp_all
    let ?c = "c\<lparr>dc_recv_queue := q1, dc_recv_count := min (dc_recv_count c + 1) (2 ^ 64 - 1)\<rparr>"
    have "process_datagram d c = (Inr (), ?c)" using q1(1) Cons.prems(2) by (simp add: process_datagram_eq)
    moreover have "\<exists>c'. receive_datagrams ds ?c = (Inr (), c') \<and> dc_recv_queue c' = q \<and> dc_send_queue c' = dc_send_queue ?c"
      by (rule Cons.IH) (simp_all add: q1(2) Cons.prems(2) del: not_None_eq)
    ultimately show ?case by simp
  qed simp
  from this [OF q(1) assms(1)] q show ?thesis by auto
qed

section \<open>The frame\<close>

definition dgram_frame :: "bytes \<Rightarrow> bytes" where
  "dgram_frame d = 0x31 # be_bytes 2 (0x4000 + length d) @ d"

lemma length_dgram_frame [simp]: "length (dgram_frame d) = 3 + length d"
  by (simp add: dgram_frame_def del: be_bytes.simps)

lemma varint_0x31: "octets_put_varint_with_len 0x31 (Suc 0) = octets_put_bytes [0x31]"
  by (intro ext) (simp add: octets_put_varint_with_len_def octets_put_u8_def octets_put_bytes_def)

lemma put_dgram_eq:
  assumes "length d \<le> 16383"
  shows "put_dgram d = octets_put_bytes (dgram_frame d)"
proof -
  have n: "unat (of_nat (length d) :: u64) = length d"
    using assms by (simp add: unat_of_nat)
  have "octets_put_varint_with_len (of_nat (length d)) 2 = octets_put_bytes (be_bytes 2 (0x4000 + length d))"
    using put_varint_with_len(2) [of "of_nat (length d)"] n assms by (intro ext) (simp del: be_bytes.simps)
  then show ?thesis by (simp add: put_dgram_def encode_dgram_header_def varint_0x31 dgram_frame_def del: be_bytes.simps)
qed

lemma get_varint_2:
  assumes "n \<le> 16383"
  shows "octets_get_varint (be_bytes 2 (0x4000 + n) @ r) = Inr (of_nat n, r)"
proof -
  let ?b = "be_bytes 2 (0x4000 + n)"
  have "octets_get_varint (?b @ r) = oct_bind octets_get_u16 (\<lambda>v. oct_ret (ucast (v AND 0x3fff))) (?b @ r)"
    using get_varint_first [of n 1 1 ?b r] assms by (simp add: numeral_2_eq_2 del: be_bytes.simps)
  moreover have "unat (of_nat (0x4000 + n) :: u16) = 0x4000 + n"
    using assms by (simp only: unat_of_nat) simp
  then have "unat (ucast ((of_nat (0x4000 + n) :: u16) AND 0x3fff) :: u64) = n"
    using assms by (simp add: unat_ucast_widen varint_masks mod_if del: of_nat_add)
  then have "ucast ((of_nat (0x4000 + n) :: u16) AND 0x3fff) = (of_nat n :: u64)" by (rule word_of_natI)
  ultimately show ?thesis using assms
    by (simp add: octets_get_u_append be_nat_be_bytes del: be_bytes.simps of_nat_add)
qed

lemma dgram_frame_read:
  assumes "length d \<le> 16383"
  shows "frame_from_bytes other pkt (dgram_frame d @ r) =
    (if pkt = Short \<or> pkt = ZeroRTT then Inr (Datagram_frame d, r) else Inl QUICHE_ERR_INVALID_PACKET)"
proof -
  have t: "octets_get_varint (0x31 # x) = Inr (0x31, x)" for x
  proof -
    have "octets_get_varint (varint_bytes 49 @ x) = Inr (of_nat 49, x)" by (rule octets_get_varint_bytes) simp
    then show ?thesis by (simp add: varint_bytes_def)
  qed
  have n: "unat (of_nat (length d) :: u64) = length d"
    using assms by (simp add: unat_of_nat)
  show ?thesis
    using get_varint_2 [OF assms, of "d @ r"]
    by (simp add: frame_from_bytes_def dgram_frame_def oct_bind_def t parse_datagram_frame_def Let_def n oct_ret_def
        oct_err_def frame_allowed_def del: be_bytes.simps)
qed

text \<open>A payload is read as a list of frames until nothing is left.\<close>

inductive payload_frames :: "(u64 \<Rightarrow> 'f octets_get) \<Rightarrow> pkt_type \<Rightarrow> bytes \<Rightarrow> 'f frame list \<Rightarrow> bool" for other pkt where
  payload_end: "payload_frames other pkt [] []"
| payload_frame: "frame_from_bytes other pkt b = Inr (f, b') \<Longrightarrow> payload_frames other pkt b' fs \<Longrightarrow>
     payload_frames other pkt b (f # fs)"

lemma payload_of_dgrams:
  "\<forall>d \<in> set ds. length d \<le> 16383 \<Longrightarrow> pkt = Short \<or> pkt = ZeroRTT \<Longrightarrow>
     payload_frames other pkt (concat (map dgram_frame ds)) (map Datagram_frame ds)"
proof (induction ds)
  case (Cons d ds)
  then show ?case using dgram_frame_read [of d other pkt "concat (map dgram_frame ds)"]
    by (auto intro!: payload_frame)
qed (simp add: payload_end)

section \<open>What is emitted\<close>

text \<open>The datagrams that go into a packet with room for \<open>left\<close> bytes, and what stays in the queue.\<close>

fun emitted :: "nat \<Rightarrow> nat \<Rightarrow> bytes list \<Rightarrow> bytes list \<times> bytes list" where
  "emitted max_payload left [] = ([], [])"
| "emitted max_payload left (d # ds) =
     (if 3 + length d \<le> left
      then (case emitted max_payload (left - (3 + length d)) ds of (es, rest) \<Rightarrow> (d # es, rest))
      else if max_payload < length d then emitted max_payload left ds
      else ([], d # ds))"

lemma emit_dgrams_steps:
  "dq_pop q = (None, q) \<Longrightarrow> emit_dgrams cap max_payload left w q = (Inr (w, left), q)"
  "dq_pop q = (Some d, q1) \<Longrightarrow> 3 + length d \<le> left \<Longrightarrow> put_dgram d cap w = Inr w' \<Longrightarrow>
     emit_dgrams cap max_payload left w q = emit_dgrams cap max_payload (left - (3 + length d)) w' q1"
  "dq_pop q = (Some d, q1) \<Longrightarrow> \<not> 3 + length d \<le> left \<Longrightarrow> max_payload < length d \<Longrightarrow>
     emit_dgrams cap max_payload left w q = emit_dgrams cap max_payload left w q1"
  "dq_pop q = (Some d, q1) \<Longrightarrow> \<not> 3 + length d \<le> left \<Longrightarrow> \<not> max_payload < length d \<Longrightarrow>
     emit_dgrams cap max_payload left w q = (Inr (w, left), q)"
  by (subst emit_dgrams.simps, simp add: numeral_3_eq_3)+

lemma emit_dgrams_eq:
  assumes "emitted max_payload left (dq_queue q) = (es, rest)" and "left \<le> 16386" and "length w + left \<le> cap"
  shows "\<exists>q'. emit_dgrams cap max_payload left w q =
      (Inr (w @ concat (map dgram_frame es), left - sum_list (map (length \<circ> dgram_frame) es)), q')
    \<and> dq_queue q' = rest \<and> dq_max_len q' = dq_max_len q \<and> (dq_ok q \<longrightarrow> dq_ok q')"
  using assms
proof (induction "dq_queue q" arbitrary: q left w es)
  case Nil
  then have "dq_pop q = (None, q)" by (simp add: dq_pop_def)
  from emit_dgrams_steps(1) [OF this] show ?case using Nil.prems(1) by (auto simp flip: Nil.hyps)
next
  case (Cons d ds)
  let ?q = "q\<lparr>dq_queue := ds, dq_bytes := dq_bytes q - length d\<rparr>"
  have pop: "dq_pop q = (Some d, ?q)" by (simp add: dq_pop_def flip: Cons.hyps(2))
  have okq: "dq_ok q \<Longrightarrow> dq_ok ?q" using dq_ok_pop [OF _ pop] .
  note em = Cons.prems(1) [folded Cons.hyps(2), simplified]
  consider (fits) "3 + length d \<le> left" | (never) "\<not> 3 + length d \<le> left" "max_payload < length d"
    | (later) "\<not> 3 + length d \<le> left" "\<not> max_payload < length d" by blast
  then show ?case
  proof cases
    case fits
    obtain es' where e: "emitted max_payload (left - (3 + length d)) ds = (es', rest)" "es = d # es'"
      using em fits by (auto split: prod.splits)
    have p: "put_dgram d cap w = Inr (w @ dgram_frame d)"
      using fits Cons.prems(2,3) by (simp add: put_dgram_eq octets_put_bytes_def)
    obtain q' where "emit_dgrams cap max_payload (left - (3 + length d)) (w @ dgram_frame d) ?q =
        (Inr ((w @ dgram_frame d) @ concat (map dgram_frame es'),
          left - (3 + length d) - sum_list (map (length \<circ> dgram_frame) es')), q')"
      and "dq_queue q' = rest" "dq_max_len q' = dq_max_len ?q" "dq_ok ?q \<longrightarrow> dq_ok q'"
    proof -
      have "ds = dq_queue ?q" "emitted max_payload (left - (3 + length d)) (dq_queue ?q) = (es', rest)"
        "left - (3 + length d) \<le> 16386" "length (w @ dgram_frame d) + (left - (3 + length d)) \<le> cap"
        using e fits Cons.prems(2,3) by simp_all
      from Cons.hyps(1) [OF this] that show thesis by blast
    qed
    then show ?thesis using emit_dgrams_steps(2) [OF pop fits p, of max_payload] okq e(2) by (intro exI [of _ q']) simp
  next
    case never
    have "\<exists>q'. emit_dgrams cap max_payload left w ?q =
        (Inr (w @ concat (map dgram_frame es), left - sum_list (map (length \<circ> dgram_frame) es)), q')
      \<and> dq_queue q' = rest \<and> dq_max_len q' = dq_max_len ?q \<and> (dq_ok ?q \<longrightarrow> dq_ok q')"
      by (rule Cons.hyps(1)) (use em never Cons.prems(2,3) in simp_all)
    then show ?thesis using emit_dgrams_steps(3) [OF pop never, of cap w] okq by auto
  next
    case later
    then have "es = []" "rest = dq_queue q" using em by (auto simp flip: Cons.hyps(2))
    then show ?thesis using emit_dgrams_steps(4) [OF pop later, of cap w] by auto
  qed
qed

text \<open>
  What that is: datagrams from the front in their order, of which only those are left out that are too
  long for any packet; they fit, and the next one does not.
\<close>

lemma emitted_spec:
  assumes "emitted max_payload left ds = (es, rest)"
  shows "(\<exists>front. ds = front @ rest \<and> subseq es front \<and> (\<forall>d \<in> set front. d \<in> set es \<or> max_payload < length d))
    \<and> sum_list (map (length \<circ> dgram_frame) es) \<le> left
    \<and> (rest \<noteq> [] \<longrightarrow> left < sum_list (map (length \<circ> dgram_frame) es) + 3 + length (hd rest)
         \<and> length (hd rest) \<le> max_payload)"
  using assms
proof (induction max_payload left ds arbitrary: es rule: emitted.induct)
  case (2 max_payload left d ds)
  consider (fits) "3 + length d \<le> left" | (never) "\<not> 3 + length d \<le> left" "max_payload < length d"
    | (later) "\<not> 3 + length d \<le> left" "\<not> max_payload < length d" by blast
  then show ?case
  proof cases
    case fits
    then obtain es' where e: "emitted max_payload (left - (3 + length d)) ds = (es', rest)" "es = d # es'"
      using 2(3) by (auto split: prod.splits)
    from 2(1) [OF fits e(1)] obtain front where f: "ds = front @ rest" "subseq es' front"
      "\<forall>d \<in> set front. d \<in> set es' \<or> max_payload < length d"
      and s: "sum_list (map (length \<circ> dgram_frame) es') \<le> left - (3 + length d)"
        "rest \<noteq> [] \<longrightarrow> left - (3 + length d) < sum_list (map (length \<circ> dgram_frame) es') + 3 + length (hd rest)
           \<and> length (hd rest) \<le> max_payload"
      by blast
    have "d # ds = (d # front) @ rest \<and> subseq es (d # front) \<and> (\<forall>x \<in> set (d # front). x \<in> set es \<or> max_payload < length x)"
      using f e(2) by auto
    moreover have "sum_list (map (length \<circ> dgram_frame) es) \<le> left
      \<and> (rest \<noteq> [] \<longrightarrow> left < sum_list (map (length \<circ> dgram_frame) es) + 3 + length (hd rest)
         \<and> length (hd rest) \<le> max_payload)"
      using s e(2) fits by auto
    ultimately show ?thesis by blast
  next
    case never
    then have "emitted max_payload left ds = (es, rest)" using 2(3) by simp
    from 2(2) [OF never this] obtain front where f: "ds = front @ rest" "subseq es front"
      "\<forall>d \<in> set front. d \<in> set es \<or> max_payload < length d" by blast
    have "d # ds = (d # front) @ rest \<and> subseq es (d # front) \<and> (\<forall>x \<in> set (d # front). x \<in> set es \<or> max_payload < length x)"
      using f never by (auto intro: list_emb_Cons)
    with 2(2) [OF never \<open>emitted max_payload left ds = (es, rest)\<close>] show ?thesis by blast
  next
    case later
    then show ?thesis using 2(3) by auto
  qed
qed simp

end
