(* ===== verification/DgramProps.thy ===== *)
theory DgramProps
  imports Dgram
begin

text \<open>
  What the datagram functions of \<open>quiche.h\<close> promise: the outcomes of sending, the way of a datagram from
  one queue through a packet into the other, and what happens to it when a buffer is too small.
\<close>

section \<open>Operations\<close>

text \<open>
  What can happen to the two queues: the application sends, receives into a buffer, peeks or purges; a
  datagram arrives; a packet takes datagrams out; and the transport changes what it allows.
\<close>

datatype dgram_op =
    Op_send bytes
  | Op_recv bytes
  | Op_purge "bytes \<Rightarrow> bool"
  | Op_arrive bytes
  | Op_packet nat nat nat bytes
  | Op_limits "u64 option" nat nat "nat option" bool nat

fun dgram_step :: "dgram_op \<Rightarrow> dgram_conn \<Rightarrow> dgram_conn" where
  "dgram_step (Op_send buf) c = snd (dgram_send buf c)"
| "dgram_step (Op_recv buf) c = snd (dgram_recv buf c)"
| "dgram_step (Op_purge f) c = dgram_purge_outgoing f c"
| "dgram_step (Op_arrive d) c = snd (process_datagram d c)"
| "dgram_step (Op_packet cap max_payload left w) c =
     c\<lparr>dc_send_queue := snd (emit_dgrams cap max_payload left w (dc_send_queue c))\<rparr>"
| "dgram_step (Op_limits peer dcid_len max_send overhead active cwnd) c =
     c\<lparr>dc_peer_max := peer, dc_dcid_len := dcid_len, dc_max_send := max_send, dc_crypto_overhead := overhead,
       dc_active_path := active, dc_cwnd_available := cwnd\<rparr>"

lemma dq_ok_emit: "dq_ok q \<Longrightarrow> dq_ok (snd (emit_dgrams cap max_payload left w q))
    \<and> dq_max_len (snd (emit_dgrams cap max_payload left w q)) = dq_max_len q"
proof (induction cap max_payload left w q rule: emit_dgrams.induct)
  case (1 cap max_payload left w q)
  obtain r q1 where p: "dq_pop q = (r, q1)" by fastforce
  have ok: "dq_ok q1" "dq_max_len q1 = dq_max_len q"
    using dq_ok_pop [OF 1(3) p] dq_pop_frame [OF p] by auto
  show ?case
  proof (cases r)
    case None
    then have "q1 = q" using p by (auto simp: dq_pop_def split: list.splits)
    then show ?thesis using p None 1(3) emit_dgrams_steps(1) [of q] by simp
  next
    case (Some d)
    consider (fits) "3 + length d \<le> left" | (never) "\<not> 3 + length d \<le> left" "max_payload < length d"
      | (later) "\<not> 3 + length d \<le> left" "\<not> max_payload < length d" by blast
    then show ?thesis
    proof cases
      case fits
      show ?thesis
      proof (cases "put_dgram d cap w")
        case (Inl e)
        then show ?thesis using p Some fits ok by (subst (1 2) emit_dgrams.simps) (simp add: numeral_3_eq_3)
      next
        case (Inr w')
        have "dq_ok (snd (emit_dgrams cap max_payload (left - (3 + length d)) w' q1))
            \<and> dq_max_len (snd (emit_dgrams cap max_payload (left - (3 + length d)) w' q1)) = dq_max_len q1"
          using 1(1) [OF p [symmetric] Some refl refl _ Inr ok(1)] fits by (simp add: numeral_3_eq_3)
        then show ?thesis using emit_dgrams_steps(2) [OF _ fits Inr, of q q1 max_payload] p Some ok(2) by simp
      qed
    next
      case never
      have "dq_ok (snd (emit_dgrams cap max_payload left w q1))
          \<and> dq_max_len (snd (emit_dgrams cap max_payload left w q1)) = dq_max_len q1"
        using 1(2) [OF p [symmetric] Some refl refl _ never(2) ok(1)] never(1) by (simp add: numeral_3_eq_3)
      then show ?thesis using emit_dgrams_steps(3) [OF _ never, of q q1 cap w] p Some ok(2) by simp
    next
      case later
      then show ?thesis using emit_dgrams_steps(4) [OF _ later, of q q1 cap w] p Some 1(3) by simp
    qed
  qed
qed

lemma dgram_step_ok:
  assumes "dq_ok (dc_recv_queue c)" and "dq_ok (dc_send_queue c)"
  shows "dq_ok (dc_recv_queue (dgram_step a c)) \<and> dq_ok (dc_send_queue (dgram_step a c))
    \<and> dq_max_len (dc_recv_queue (dgram_step a c)) = dq_max_len (dc_recv_queue c)
    \<and> dq_max_len (dc_send_queue (dgram_step a c)) = dq_max_len (dc_send_queue c)"
proof (cases a)
  case (Op_send buf)
  then show ?thesis using assms dq_ok_push [OF assms(2)]
    by (auto simp: dgram_send_def dq_push_iff Let_def split: option.split sum.split)
next
  case (Op_recv buf)
  obtain r q where p: "dq_pop (dc_recv_queue c) = (r, q)" by fastforce
  then show ?thesis using assms Op_recv dq_ok_pop [OF assms(1) p] dq_pop_frame [OF p]
    by (auto simp: dgram_recv_def Let_def split: option.split)
next
  case (Op_purge f)
  then show ?thesis using assms dq_ok_purge [OF assms(2)]
    by (simp add: dgram_purge_outgoing_def) (simp add: dq_purge_def Let_def)
next
  case (Op_arrive d)
  obtain r q where p: "dq_pop (dc_recv_queue c) = (r, q)" by fastforce
  note ok = dq_ok_pop [OF assms(1) p] dq_pop_frame [OF p]
  show ?thesis using assms Op_arrive ok dq_ok_push [OF assms(1)] dq_ok_push [OF ok(1)] p
    by (auto simp: process_datagram_def Let_def dq_push_iff split: sum.split)
next
  case (Op_packet cap max_payload left w)
  then show ?thesis using assms dq_ok_emit [OF assms(2), of cap max_payload left w] by simp
next
  case (Op_limits peer dcid_len max_send overhead active cwnd)
  then show ?thesis using assms by simp
qed

text \<open>The connection of the witnesses: room for two datagrams in each queue, and 1200 bytes in a packet.\<close>

definition demo_dgram :: dgram_conn where
  "demo_dgram = \<lparr>dc_recv_queue = dq_new 2, dc_send_queue = dq_new 2, dc_peer_max = Some 65535, dc_local_max = Some 65535,
     dc_dcid_len = 16, dc_max_send = 1200, dc_crypto_overhead = Some 16, dc_active_path = True,
     dc_cwnd_available = 10000, dc_app_limited = True, dc_recv_count = 0\<rparr>"

section \<open>The queues\<close>

text \<open>
  C36: Whatever the application and the transport do to a connection, in any order, neither queue ever holds more
  datagrams than it was made for, and the size the C functions report is that of the datagrams it holds.
\<close>

theorem dgram_queues_bounded:
  assumes "dc_recv_queue c = dq_new n" and "dc_send_queue c = dq_new m"
  shows "length (dq_queue (dc_recv_queue (fold dgram_step ops c))) \<le> n
    \<and> length (dq_queue (dc_send_queue (fold dgram_step ops c))) \<le> m
    \<and> quiche_conn_dgram_recv_queue_byte_size dgram_api (fold dgram_step ops c) =
        int (sum_list (map length (dq_queue (dc_recv_queue (fold dgram_step ops c)))))
    \<and> quiche_conn_dgram_send_queue_byte_size dgram_api (fold dgram_step ops c) =
        int (sum_list (map length (dq_queue (dc_send_queue (fold dgram_step ops c)))))"
proof -
  have "dq_ok (dc_recv_queue (fold dgram_step ops c)) \<and> dq_ok (dc_send_queue (fold dgram_step ops c))
      \<and> dq_max_len (dc_recv_queue (fold dgram_step ops c)) = dq_max_len (dc_recv_queue c)
      \<and> dq_max_len (dc_send_queue (fold dgram_step ops c)) = dq_max_len (dc_send_queue c)"
    if "dq_ok (dc_recv_queue c)" and "dq_ok (dc_send_queue c)" for c
    using that
  proof (induction ops arbitrary: c)
    case (Cons a ops)
    from dgram_step_ok [OF Cons.prems, of a] Cons.IH [of "dgram_step a c"] show ?case by simp
  qed simp
  from this [of c] assms have ok: "dq_ok (dc_recv_queue (fold dgram_step ops c))" "dq_ok (dc_send_queue (fold dgram_step ops c))"
    "dq_max_len (dc_recv_queue (fold dgram_step ops c)) = n" "dq_max_len (dc_send_queue (fold dgram_step ops c)) = m"
    by (simp_all add: dq_ok_new) (simp_all add: dq_new_def)
  then show ?thesis by (simp add: dgram_api_def dq_ok_def dq_byte_size_def)
qed

theorem dgram_queues_bounded_witness:
  "length (dq_queue (dc_recv_queue (fold dgram_step [Op_arrive [1], Op_arrive [2, 3], Op_arrive [4]] demo_dgram))) \<le> 2
   \<and> quiche_conn_dgram_recv_queue_byte_size dgram_api (fold dgram_step [Op_arrive [1], Op_arrive [2, 3], Op_arrive [4]] demo_dgram) = 3"
proof -
  have "dq_queue (dc_recv_queue (fold dgram_step [Op_arrive [1], Op_arrive [2, 3], Op_arrive [4]] demo_dgram)) = [[2, 3], [4]]"
    by (simp add: demo_dgram_def dq_new_def process_datagram_def dq_is_full_def dq_len_def dq_push_def dq_pop_def Let_def)
  moreover have "dc_recv_queue demo_dgram = dq_new 2" "dc_send_queue demo_dgram = dq_new 2" by (simp_all add: demo_dgram_def)
  ultimately show ?thesis
    using dgram_queues_bounded [of demo_dgram 2 2 "[Op_arrive [1], Op_arrive [2, 3], Op_arrive [4]]"] by simp
qed

section \<open>Sending\<close>

text \<open>
  The outcomes of \<open>quiche_conn_dgram_send\<close>: it panics exactly for a buffer larger than \<open>SSIZE_MAX\<close>; it reports
  an invalid state when \<open>dgram_max_writable_len\<close> is none, a buffer too short (-2) when the datagram is longer
  than that, and \<open>QUICHE_ERR_DONE\<close> when the queue is full, each without any effect; otherwise the datagram is
  last in the queue, and the result is its length, or an invalid state when there is no active path.
\<close>

theorem dgram_send_exact:
  "ffi_dgram_send c buf =
    (if 2 ^ 63 \<le> length buf then None
     else Some (case dgram_max_writable_len c of
         None \<Rightarrow> (quiche_error_code QUICHE_ERR_INVALID_STATE, c)
       | Some n \<Rightarrow>
           if n < length buf then (- 2, c)
           else if quiche_conn_is_dgram_send_queue_full dgram_api c then (- 1, c)
           else (if dc_active_path c then int (length buf) else quiche_error_code QUICHE_ERR_INVALID_STATE,
                 c\<lparr>dc_send_queue := (dc_send_queue c)\<lparr>dq_queue := dq_queue (dc_send_queue c) @ [buf],
                     dq_bytes := dq_bytes (dc_send_queue c) + length buf\<rparr>,
                   dc_app_limited :=
                     (if dc_active_path c \<and> dc_cwnd_available c < dq_bytes (dc_send_queue c) + length buf
                      then False else dc_app_limited c)\<rparr>)))"
proof (cases "dgram_max_writable_len c")
  case None
  then show ?thesis by (auto simp: ffi_dgram_send_def dgram_send_def SSIZE_MAX_def)
next
  case (Some n)
  have b: "SSIZE_MAX < length buf \<longleftrightarrow> 2 ^ 63 \<le> length buf" by (auto simp: SSIZE_MAX_def)
  consider (long) "n < length buf" | (full) "\<not> n < length buf" "dq_is_full (dc_send_queue c)"
    | (ok) "\<not> n < length buf" "\<not> dq_is_full (dc_send_queue c)" by blast
  then show ?thesis
  proof cases
    case ok
    let ?q = "(dc_send_queue c)\<lparr>dq_bytes := dq_bytes (dc_send_queue c) + length buf, dq_queue := dq_queue (dc_send_queue c) @ [buf]\<rparr>"
    have "dq_push buf (dc_send_queue c) = Inr ?q" using ok by (simp add: dq_push_def)
    then show ?thesis using ok Some b
      by (cases c) (auto simp: ffi_dgram_send_def dgram_send_def dgram_api_def dq_byte_size_def Let_def)
  qed (use Some b in \<open>simp_all add: ffi_dgram_send_def dgram_send_def dgram_api_def dq_push_def\<close>)
qed

text \<open>
  C35: A datagram on its way.  The loop of the sender that fills a packet takes datagrams from the front of its
  queue in order and leaves out only those that are too long for any packet; what it writes fits, and in a 0-RTT
  or 1-RTT packet the receiver's frame reader reads it as exactly these datagrams; they are then last in its queue, from which the
  oldest have been dropped beyond its bound.
\<close>

theorem dgram_transfer:
  assumes "left \<le> 16386" and "left \<le> cap" and "pkt = Short \<or> pkt = ZeroRTT"
    and "dc_local_max c \<noteq> None" and "dq_ok (dc_recv_queue c)" and "0 < dq_max_len (dc_recv_queue c)"
  shows "\<exists>out n q' es front c'. emit_dgrams cap max_payload left [] q = (Inr (out, n), q')
    \<and> dq_queue q = front @ dq_queue q' \<and> subseq es front \<and> (\<forall>d \<in> set front. d \<in> set es \<or> max_payload < length d)
    \<and> length out + n = left \<and> payload_frames other pkt out (map Datagram_frame es)
    \<and> receive_datagrams es c = (Inr (), c')
    \<and> dq_queue (dc_recv_queue c') = last_n (dq_max_len (dc_recv_queue c)) (dq_queue (dc_recv_queue c) @ es)"
proof -
  obtain es rest where em: "emitted max_payload left (dq_queue q) = (es, rest)" by fastforce
  note sp = emitted_spec [OF em]
  obtain q' where q': "emit_dgrams cap max_payload left [] q =
      (Inr (concat (map dgram_frame es), left - sum_list (map (length \<circ> dgram_frame) es)), q')" "dq_queue q' = rest"
    using emit_dgrams_eq [OF em assms(1), of "[]" cap] assms(2) by auto
  have l: "length (concat (map dgram_frame es)) = sum_list (map (length \<circ> dgram_frame) es)"
    by (simp add: length_concat comp_def)
  have "length d \<le> 16383" if "d \<in> set es" for d
  proof -
    have "(length \<circ> dgram_frame) d \<le> sum_list (map (length \<circ> dgram_frame) es)"
      using that by (intro member_le_sum_list) auto
    then show ?thesis using sp assms(1) by simp
  qed
  then have p: "payload_frames other pkt (concat (map dgram_frame es)) (map Datagram_frame es)"
    by (intro payload_of_dgrams assms(3)) blast
  obtain c' where "receive_datagrams es c = (Inr (), c')"
    "dq_queue (dc_recv_queue c') = last_n (dq_max_len (dc_recv_queue c)) (dq_queue (dc_recv_queue c) @ es)"
    using receive_datagrams_queue [OF assms(4-6), of es] by blast
  then show ?thesis using q' sp l p by fastforce
qed

lemma demo_emit: "emit_dgrams 1200 1147 20 [] \<lparr>dq_queue = [[1, 2], replicate 1148 0, [3]], dq_max_len = 5, dq_bytes = 1151\<rparr> =
    (Inr (dgram_frame [1, 2] @ dgram_frame [3], 11), \<lparr>dq_queue = [], dq_max_len = 5, dq_bytes = 0\<rparr>)"
  by (subst emit_dgrams_steps(2) [of _ "[1, 2]"], simp add: dq_pop_def, simp, simp add: put_dgram_eq octets_put_bytes_def, simp,
      subst emit_dgrams_steps(3) [of _ "replicate 1148 0"], simp add: dq_pop_def, simp, simp,
      subst emit_dgrams_steps(2) [of _ "[3]"], simp add: dq_pop_def, simp, simp add: put_dgram_eq octets_put_bytes_def, simp,
      subst emit_dgrams_steps(1), simp add: dq_pop_def, simp)

theorem dgram_transfer_witness:
  "\<exists>es front. emit_dgrams 1200 1147 20 [] \<lparr>dq_queue = [[1, 2], replicate 1148 0, [3]], dq_max_len = 5, dq_bytes = 1151\<rparr> =
      (Inr (dgram_frame [1, 2] @ dgram_frame [3], 11), \<lparr>dq_queue = [], dq_max_len = 5, dq_bytes = 0\<rparr>)
    \<and> subseq es front \<and> front = [[1, 2], replicate 1148 0, [3]]
    \<and> payload_frames (\<lambda>ty b. (Inl QUICHE_ERR_INVALID_FRAME :: quiche_error + unit \<times> bytes)) Short
        (dgram_frame [1, 2] @ dgram_frame [3]) (map Datagram_frame es)"
proof -
  have "dc_local_max demo_dgram \<noteq> None" "dq_ok (dc_recv_queue demo_dgram)" "0 < dq_max_len (dc_recv_queue demo_dgram)"
    by (simp_all add: demo_dgram_def dq_ok_new) (simp add: dq_new_def)
  from dgram_transfer [OF _ _ _ this, of 20 1200 Short 1147 "\<lparr>dq_queue = [[1, 2], replicate 1148 0, [3]], dq_max_len = 5, dq_bytes = 1151\<rparr>"
      "\<lambda>ty b. (Inl QUICHE_ERR_INVALID_FRAME :: quiche_error + unit \<times> bytes)"]
  show ?thesis unfolding demo_emit by auto
qed

section \<open>Receiving\<close>

text \<open>
  \<open>quiche_conn_dgram_recv\<close> gives the first datagram, whole, in the beginning of the buffer and its length; when
  there is none, \<open>QUICHE_ERR_DONE\<close>; and when the buffer is smaller it reports that (-2) but has taken the
  datagram from the queue: it is lost.
\<close>

theorem dgram_recv_exact:
  assumes "length buf < 2 ^ 63"
  shows "ffi_dgram_recv c buf = Some (case dq_queue (dc_recv_queue c) of
      [] \<Rightarrow> (- 1, buf, c)
    | d # ds \<Rightarrow>
        (if length buf < length d then - 2 else int (length d),
         if length buf < length d then buf else d @ drop (length d) buf,
         c\<lparr>dc_recv_queue := (dc_recv_queue c)\<lparr>dq_queue := ds, dq_bytes := dq_bytes (dc_recv_queue c) - length d\<rparr>\<rparr>))"
  using assms
  by (auto simp: ffi_dgram_recv_def dgram_recv_def dq_pop_def Let_def SSIZE_MAX_def split: list.split)

theorem dgram_recv_exact_witness:
  "ffi_dgram_recv (demo_dgram\<lparr>dc_recv_queue := \<lparr>dq_queue = [[1, 2, 3], [4]], dq_max_len = 2, dq_bytes = 4\<rparr>\<rparr>) [0, 0] =
     Some (- 2, [0, 0], demo_dgram\<lparr>dc_recv_queue := \<lparr>dq_queue = [[4]], dq_max_len = 2, dq_bytes = 1\<rparr>\<rparr>)"
  using dgram_recv_exact [of "[0, 0]" "demo_dgram\<lparr>dc_recv_queue := \<lparr>dq_queue = [[1, 2, 3], [4]], dq_max_len = 2, dq_bytes = 4\<rparr>\<rparr>"]
  by simp

end
