(* ===== verification/Paths.thy ===== *)
theory Paths
  imports QuicheApi
begin

text \<open>
  Addresses, path events and iterators of \<open>quiche.h\<close>: how a \<open>sockaddr\<close> is read and written (\<open>src/ffi.rs\<close>, on a
  little-endian Linux, where \<open>AF_INET\<close> is 2 and \<open>AF_INET6\<close> is 10), the events of \<open>src/path.rs\<close> with their
  accessors, and the objects the \<open>*_iter_next\<close> functions work on.  \<open>None\<close> is a panic, which aborts the process
  at the C boundary.
\<close>

section \<open>Socket addresses\<close>

text \<open>\<open>std::net::SocketAddr\<close>: the address and the port, for IPv6 also the flow information and the scope.\<close>

datatype socket_addr = V4 u32 u16 | V6 "128 word" u16 u32 u32

definition le_num :: "nat \<Rightarrow> nat \<Rightarrow> bytes" where
  "le_num k n = rev (be_bytes k n)"

definition AF_INET :: nat where
  "AF_INET = 2"

definition AF_INET6 :: nat where
  "AF_INET6 = 10"

text \<open>The bytes of a \<open>sockaddr_in\<close> and of a \<open>sockaddr_in6\<close>.\<close>

fun sockaddr_struct :: "socket_addr \<Rightarrow> bytes" where
  "sockaddr_struct (V4 ip port) =
     le_num 2 AF_INET @ be_bytes 2 (unat port) @ be_bytes 4 (unat ip) @ replicate 8 0"
| "sockaddr_struct (V6 ip port flowinfo scope_id) =
     le_num 2 AF_INET6 @ be_bytes 2 (unat port) @ le_num 4 (unat flowinfo) @ be_bytes 16 (unat ip)
       @ le_num 4 (unat scope_id)"

text \<open>\<open>out\<close> is the \<open>sockaddr_storage\<close> before; the result is its length and the storage after.\<close>

definition std_addr_to_c :: "socket_addr \<Rightarrow> bytes \<Rightarrow> nat \<times> bytes" where
  "std_addr_to_c addr out =
     (let s = sockaddr_struct addr in (length s, s @ drop (length s) out))"

text \<open>
  \<open>addr\<close> is the object the pointer points to.  The length that is passed must be that of the structure; a
  shorter object would be read beyond its end, which is \<open>None\<close> as well.
\<close>

definition field :: "nat \<Rightarrow> nat \<Rightarrow> bytes \<Rightarrow> bytes" where
  "field off n b = take n (drop off b)"

definition std_addr_from_c :: "bytes \<Rightarrow> nat \<Rightarrow> socket_addr option" where
  "std_addr_from_c addr addr_len =
     (let sa_family = le_nat (field 0 2 addr) in
      if sa_family = AF_INET then
        (if addr_len \<noteq> 16 \<or> length addr < 16 then None
         else Some (V4 (of_nat (be_nat (field 4 4 addr))) (of_nat (be_nat (field 2 2 addr)))))
      else if sa_family = AF_INET6 then
        (if addr_len \<noteq> 28 \<or> length addr < 28 then None
         else Some (V6 (of_nat (be_nat (field 8 16 addr))) (of_nat (be_nat (field 2 2 addr)))
           (of_nat (le_nat (field 4 4 addr))) (of_nat (le_nat (field 24 4 addr)))))
      else None)"

section \<open>Path events\<close>

datatype path_event =
    New socket_addr socket_addr
  | Validated socket_addr socket_addr
  | FailedValidation socket_addr socket_addr
  | Closed socket_addr socket_addr
  | ReusedSourceConnectionId u64 "socket_addr \<times> socket_addr" "socket_addr \<times> socket_addr"
  | PeerMigrated socket_addr socket_addr

text \<open>The events of a connection that the application has not fetched yet, the oldest first.\<close>

definition notify_event :: "path_event \<Rightarrow> path_event list \<Rightarrow> path_event list" where
  "notify_event ev events = events @ [ev]"

text \<open>\<open>None\<close> is \<open>NULL\<close>.\<close>

definition quiche_conn_path_event_next :: "path_event list \<Rightarrow> path_event option \<times> path_event list" where
  "quiche_conn_path_event_next events = (case events of [] \<Rightarrow> (None, []) | ev # evs \<Rightarrow> (Some ev, evs))"

text \<open>The number that is returned, and the number of a constant of the enumeration in \<open>quiche.h\<close>.\<close>

fun path_event_number :: "path_event \<Rightarrow> nat" where
  "path_event_number (New local peer) = 0"
| "path_event_number (Validated local peer) = 1"
| "path_event_number (FailedValidation local peer) = 2"
| "path_event_number (Closed local peer) = 3"
| "path_event_number (ReusedSourceConnectionId seq old new) = 4"
| "path_event_number (PeerMigrated local peer) = 5"

definition path_event_types :: "quiche_path_event_type list" where
  "path_event_types =
     [QUICHE_PATH_EVENT_NEW, QUICHE_PATH_EVENT_VALIDATED, QUICHE_PATH_EVENT_FAILED_VALIDATION, QUICHE_PATH_EVENT_CLOSED,
      QUICHE_PATH_EVENT_REUSED_SOURCE_CONNECTION_ID, QUICHE_PATH_EVENT_PEER_MIGRATED]"

definition quiche_path_event_type_of :: "path_event \<Rightarrow> quiche_path_event_type" where
  "quiche_path_event_type_of ev = path_event_types ! path_event_number ev"

text \<open>The two addresses into the two buffers, and the four results.\<close>

definition put_pair :: "socket_addr \<Rightarrow> socket_addr \<Rightarrow> bytes \<Rightarrow> bytes \<Rightarrow> (nat \<times> bytes) \<times> (nat \<times> bytes)" where
  "put_pair local peer local_addr peer_addr = (std_addr_to_c local local_addr, std_addr_to_c peer peer_addr)"

fun quiche_path_event_new :: "path_event \<Rightarrow> bytes \<Rightarrow> bytes \<Rightarrow> ((nat \<times> bytes) \<times> (nat \<times> bytes)) option" where
  "quiche_path_event_new (New local peer) local_addr peer_addr = Some (put_pair local peer local_addr peer_addr)"
| "quiche_path_event_new _ local_addr peer_addr = None"

fun quiche_path_event_validated :: "path_event \<Rightarrow> bytes \<Rightarrow> bytes \<Rightarrow> ((nat \<times> bytes) \<times> (nat \<times> bytes)) option" where
  "quiche_path_event_validated (Validated local peer) local_addr peer_addr = Some (put_pair local peer local_addr peer_addr)"
| "quiche_path_event_validated _ local_addr peer_addr = None"

fun quiche_path_event_failed_validation ::
  "path_event \<Rightarrow> bytes \<Rightarrow> bytes \<Rightarrow> ((nat \<times> bytes) \<times> (nat \<times> bytes)) option" where
  "quiche_path_event_failed_validation (FailedValidation local peer) local_addr peer_addr =
     Some (put_pair local peer local_addr peer_addr)"
| "quiche_path_event_failed_validation _ local_addr peer_addr = None"

fun quiche_path_event_closed :: "path_event \<Rightarrow> bytes \<Rightarrow> bytes \<Rightarrow> ((nat \<times> bytes) \<times> (nat \<times> bytes)) option" where
  "quiche_path_event_closed (Closed local peer) local_addr peer_addr = Some (put_pair local peer local_addr peer_addr)"
| "quiche_path_event_closed _ local_addr peer_addr = None"

fun quiche_path_event_reused_source_connection_id ::
  "path_event \<Rightarrow> bytes \<Rightarrow> bytes \<Rightarrow> bytes \<Rightarrow> bytes
    \<Rightarrow> (u64 \<times> ((nat \<times> bytes) \<times> (nat \<times> bytes)) \<times> ((nat \<times> bytes) \<times> (nat \<times> bytes))) option" where
  "quiche_path_event_reused_source_connection_id (ReusedSourceConnectionId seq old new)
       old_local_addr old_peer_addr local_addr peer_addr =
     Some (seq, put_pair (fst old) (snd old) old_local_addr old_peer_addr,
       put_pair (fst new) (snd new) local_addr peer_addr)"
| "quiche_path_event_reused_source_connection_id _ old_local_addr old_peer_addr local_addr peer_addr = None"

fun quiche_path_event_peer_migrated :: "path_event \<Rightarrow> bytes \<Rightarrow> bytes \<Rightarrow> ((nat \<times> bytes) \<times> (nat \<times> bytes)) option" where
  "quiche_path_event_peer_migrated (PeerMigrated local peer) local_addr peer_addr =
     Some (put_pair local peer local_addr peer_addr)"
| "quiche_path_event_peer_migrated _ local_addr peer_addr = None"

section \<open>Iterators\<close>

text \<open>
  \<open>StreamIter\<close>, \<open>SocketAddrIter\<close> and \<open>ConnectionIdIter\<close>: the elements, collected when the iterator is made, and how
  many were fetched.
\<close>

record 'a iter =
  it_items :: "'a list"
  it_index :: nat

definition iter_new :: "'a list \<Rightarrow> 'a iter" where
  "iter_new xs = \<lparr>it_items = xs, it_index = 0\<rparr>"

definition iter_next :: "'a iter \<Rightarrow> 'a option \<times> 'a iter" where
  "iter_next it =
     (if it_index it < length (it_items it)
      then (Some (it_items it ! it_index it), it\<lparr>it_index := it_index it + 1\<rparr>)
      else (None, it))"

text \<open>\<open>s\<close> is the variable that \<open>stream_id\<close> points to; it keeps its value when the result is false.\<close>

definition quiche_stream_iter_next :: "u64 iter \<Rightarrow> u64 \<Rightarrow> bool \<times> u64 \<times> u64 iter" where
  "quiche_stream_iter_next it s =
     (case iter_next it of (Some v, it') \<Rightarrow> (True, v, it') | (None, it') \<Rightarrow> (False, s, it'))"

definition quiche_connection_id_iter_next :: "bytes iter \<Rightarrow> bytes \<Rightarrow> bool \<times> bytes \<times> bytes iter" where
  "quiche_connection_id_iter_next it out =
     (case iter_next it of (Some v, it') \<Rightarrow> (True, v, it') | (None, it') \<Rightarrow> (False, out, it'))"

text \<open>
  A 32-bit \<open>socklen_t\<close> written through a pointer to a 64-bit variable, little-endian: \<open>quiche.h\<close> declares
  \<open>peer_len\<close> as \<open>size_t *\<close>.
\<close>

definition write_socklen :: "u64 \<Rightarrow> u32 \<Rightarrow> u64" where
  "write_socklen old v = (old AND 0xffffffff00000000) OR ucast v"

definition quiche_socket_addr_iter_next ::
  "socket_addr iter \<Rightarrow> bytes \<Rightarrow> u64 \<Rightarrow> bool \<times> (bytes \<times> u64) \<times> socket_addr iter" where
  "quiche_socket_addr_iter_next it peer peer_len =
     (case iter_next it of
        (Some v, it') \<Rightarrow> (case std_addr_to_c v peer of (n, peer') \<Rightarrow>
          (True, (peer', write_socklen peer_len (of_nat n)), it'))
      | (None, it') \<Rightarrow> (False, (peer, peer_len), it'))"

text \<open>
  All retired connection IDs, taken out of the connection's queue into an iterator.  \<open>retired_scid_next\<close> takes
  the first.
\<close>

fun drain_scids :: "bytes list \<Rightarrow> bytes list \<Rightarrow> bytes list \<times> bytes list" where
  "drain_scids cids [] = (cids, [])"
| "drain_scids cids (cid # retired) = drain_scids (cids @ [cid]) retired"

definition quiche_conn_retired_scid_iter :: "bytes list \<Rightarrow> bytes iter \<times> bytes list" where
  "quiche_conn_retired_scid_iter retired =
     (case drain_scids [] retired of (cids, retired) \<Rightarrow> (iter_new cids, retired))"

definition quiche_conn_retired_scids :: "bytes list \<Rightarrow> nat" where
  "quiche_conn_retired_scids retired = length retired"

section \<open>Reading back an address\<close>

lemma length_le_num [simp]: "length (le_num k n) = k"
  by (simp add: le_num_def)

lemma le_nat_le_num: "le_nat (le_num k n) = be_nat (be_bytes k n)"
  by (simp add: le_nat_def le_num_def)

lemma length_sockaddr_struct: "length (sockaddr_struct a) = (case a of V4 _ _ \<Rightarrow> 16 | V6 _ _ _ _ \<Rightarrow> 28)"
  by (cases a) (simp_all del: be_bytes.simps)

lemma unat_bounds: "unat (w :: u16) < 2 ^ 16" "unat (v :: u32) < 2 ^ 32" "unat (x :: 128 word) < 2 ^ 128"
  using unsigned_less [of w] unsigned_less [of v] unsigned_less [of x] by simp_all

lemma sockaddr_in_read:
  assumes "8 \<le> length r"
  shows "std_addr_from_c (le_num 2 AF_INET @ be_bytes 2 (unat port) @ be_bytes 4 (unat ip) @ r) 16 = Some (V4 ip port)"
proof -
  let ?b = "le_num 2 AF_INET @ be_bytes 2 (unat port) @ be_bytes 4 (unat ip) @ r"
  have "field 0 2 ?b = le_num 2 AF_INET" "field 2 2 ?b = be_bytes 2 (unat port)" "field 4 4 ?b = be_bytes 4 (unat ip)"
    by (simp_all add: field_def del: be_bytes.simps)
  then show ?thesis
    using unat_bounds(1) [of port] unat_bounds(2) [of ip] assms
    by (simp add: std_addr_from_c_def le_nat_le_num be_nat_be_bytes AF_INET_def del: be_bytes.simps)
qed

lemma sockaddr_in6_read: "std_addr_from_c (sockaddr_struct (V6 ip port flowinfo scope_id) @ r) 28 =
  Some (V6 ip port flowinfo scope_id)"
proof -
  let ?b = "le_num 2 AF_INET6 @ be_bytes 2 (unat port) @ le_num 4 (unat flowinfo) @ be_bytes 16 (unat ip)
    @ le_num 4 (unat scope_id) @ r"
  have "field 0 2 ?b = le_num 2 AF_INET6" "field 2 2 ?b = be_bytes 2 (unat port)" "field 4 4 ?b = le_num 4 (unat flowinfo)"
    "field 8 16 ?b = be_bytes 16 (unat ip)" "field 24 4 ?b = le_num 4 (unat scope_id)"
    by (simp_all add: field_def del: be_bytes.simps)
  then show ?thesis
    using unat_bounds(1) [of port] unat_bounds(2) [of flowinfo] unat_bounds(2) [of scope_id] unat_bounds(3) [of ip]
    by (simp add: std_addr_from_c_def le_nat_le_num be_nat_be_bytes AF_INET_def AF_INET6_def del: be_bytes.simps)
qed

lemma sockaddr_read: "std_addr_from_c (sockaddr_struct a @ r) (length (sockaddr_struct a)) = Some a"
  using sockaddr_in_read [of "replicate 8 0 @ r"] sockaddr_in6_read [of _ _ _ _ r]
  by (cases a) (simp_all del: be_bytes.simps replicate.simps)

end
