(* ===== verification/PathProps.thy ===== *)
theory PathProps
  imports Paths Server Client
begin

text \<open>
  What the addresses, path events and iterators of \<open>quiche.h\<close> promise, and that the loops of the programs over
  an iterator are the recursions over a list they are modelled by.
\<close>

section \<open>Addresses\<close>

lemma be_bytes_be_nat: "length b = k \<Longrightarrow> be_bytes k (be_nat b) = b"
  using be_nat_bound [of b] by (intro be_nat_inj) (simp_all add: be_nat_be_bytes del: be_bytes.simps)

lemma le_num_le_nat: "length b = k \<Longrightarrow> le_num k (le_nat b) = b"
  using be_bytes_be_nat [of "rev b" k] by (simp add: le_num_def le_nat_def)

lemma unat_be_nat:
  "length b = 2 \<Longrightarrow> unat (of_nat (be_nat b) :: u16) = be_nat b"
  "length b = 4 \<Longrightarrow> unat (of_nat (be_nat b) :: u32) = be_nat b"
  "length b = 16 \<Longrightarrow> unat (of_nat (be_nat b) :: 128 word) = be_nat b"
  using be_nat_bound [of b] by (simp_all add: unat_of_nat)

lemma unat_le_nat: "length b = 4 \<Longrightarrow> unat (of_nat (le_nat b) :: u32) = le_nat b"
  unfolding le_nat_def by (rule unat_be_nat) simp

lemma length_field: "off + n \<le> length b \<Longrightarrow> length (field off n b) = n"
  by (simp add: field_def)

lemma field_split: "take (off + n) b = take off b @ field off n b"
  by (simp add: field_def take_add)

lemma family_bytes: "2 \<le> length b \<Longrightarrow> le_nat (field 0 2 b) = n \<Longrightarrow> field 0 2 b = le_num 2 n"
  using le_num_le_nat [of "field 0 2 b" 2] length_field [of 0 2 b] by simp

text \<open>What of the structure carries information: all but the padding of a \<open>sockaddr_in\<close>.\<close>

definition significant :: "socket_addr \<Rightarrow> nat" where
  "significant a = (case a of V4 _ _ \<Rightarrow> 8 | V6 _ _ _ _ \<Rightarrow> 28)"

lemma from_c_significant:
  assumes "std_addr_from_c b n = Some a"
  shows "n = length (sockaddr_struct a) \<and> n \<le> length b
    \<and> take (significant a) b = take (significant a) (sockaddr_struct a)"
proof -
  consider (v4) "le_nat (field 0 2 b) = AF_INET" "n = 16" "16 \<le> length b"
      "a = V4 (of_nat (be_nat (field 4 4 b))) (of_nat (be_nat (field 2 2 b)))"
    | (v6) "le_nat (field 0 2 b) = AF_INET6" "n = 28" "28 \<le> length b"
      "a = V6 (of_nat (be_nat (field 8 16 b))) (of_nat (be_nat (field 2 2 b)))
        (of_nat (le_nat (field 4 4 b))) (of_nat (le_nat (field 24 4 b)))"
    using assms by (auto simp: std_addr_from_c_def Let_def split: if_splits)
  then show ?thesis
  proof cases
    case v4
    have l: "length (field 2 2 b) = 2" "length (field 4 4 b) = 4" using v4(3) by (simp_all add: length_field)
    have "take 8 b = field 0 2 b @ field 2 2 b @ field 4 4 b"
      using field_split [of 4 4 b] field_split [of 2 2 b] by (simp add: field_def)
    also have "\<dots> = le_num 2 AF_INET @ be_bytes 2 (be_nat (field 2 2 b)) @ be_bytes 4 (be_nat (field 4 4 b))"
      using family_bytes [of b AF_INET] v4(1,3) l by (simp add: be_bytes_be_nat del: be_bytes.simps)
    finally show ?thesis using v4(2-4) l
      by (simp add: significant_def length_sockaddr_struct unat_be_nat del: be_bytes.simps)
  next
    case v6
    have l: "length (field 2 2 b) = 2" "length (field 4 4 b) = 4" "length (field 8 16 b) = 16" "length (field 24 4 b) = 4"
      using v6(3) by (simp_all add: length_field)
    have "take 28 b = field 0 2 b @ field 2 2 b @ field 4 4 b @ field 8 16 b @ field 24 4 b"
      using field_split [of 24 4 b] field_split [of 8 16 b] field_split [of 4 4 b] field_split [of 2 2 b]
      by (simp add: field_def)
    also have "\<dots> = le_num 2 AF_INET6 @ be_bytes 2 (be_nat (field 2 2 b)) @ le_num 4 (le_nat (field 4 4 b))
        @ be_bytes 16 (be_nat (field 8 16 b)) @ le_num 4 (le_nat (field 24 4 b))"
      using family_bytes [of b AF_INET6] v6(1,3) l by (simp add: be_bytes_be_nat le_num_le_nat del: be_bytes.simps)
    finally show ?thesis using v6(2-4) l
      by (simp add: significant_def length_sockaddr_struct unat_be_nat unat_le_nat del: be_bytes.simps)
  qed
qed

lemma significant_from_c:
  assumes "n = length (sockaddr_struct a)" and "n \<le> length b"
    and "take (significant a) b = take (significant a) (sockaddr_struct a)"
  shows "std_addr_from_c b n = Some a"
proof (cases a)
  case (V4 ip port)
  have "b = take 8 (sockaddr_struct a) @ drop 8 b"
    using assms(3) append_take_drop_id [of 8 b] by (simp add: V4 significant_def)
  also have "take 8 (sockaddr_struct a) = le_num 2 AF_INET @ be_bytes 2 (unat port) @ be_bytes 4 (unat ip)"
    by (simp add: V4 del: be_bytes.simps)
  finally show ?thesis
    using sockaddr_in_read [of "drop 8 b" port ip] assms(1,2) by (simp add: V4 length_sockaddr_struct del: be_bytes.simps)
next
  case (V6 ip port flowinfo scope_id)
  have "b = sockaddr_struct a @ drop 28 b"
    using assms(3) append_take_drop_id [of 28 b] by (simp add: V6 significant_def length_sockaddr_struct del: sockaddr_struct.simps)
  then show ?thesis
    using sockaddr_in6_read [of ip port flowinfo scope_id "drop 28 b"] assms(1)
    by (simp add: V6 length_sockaddr_struct del: sockaddr_struct.simps)
qed

text \<open>
  C37: The engine reads an address from a C structure exactly when it is that of the address, up to the padding of an
  IPv4 one, with the length that belongs to its family, and panics otherwise; and an address it writes into a
  \<open>sockaddr_storage\<close> is read back as the same, with the length it reports.
\<close>

theorem sockaddr_exact:
  assumes "length out = SOCKADDR_STORAGE_LEN"
  shows "(std_addr_from_c b n = Some a \<longleftrightarrow> n = length (sockaddr_struct a) \<and> n \<le> length b
      \<and> take (significant a) b = take (significant a) (sockaddr_struct a))
    \<and> (case std_addr_to_c a out of (len, out') \<Rightarrow> length out' = SOCKADDR_STORAGE_LEN \<and> std_addr_from_c out' len = Some a)"
proof -
  have "length (sockaddr_struct a) \<le> 128" by (simp add: length_sockaddr_struct split: socket_addr.split)
  then have "case std_addr_to_c a out of (len, out') \<Rightarrow> length out' = SOCKADDR_STORAGE_LEN \<and> std_addr_from_c out' len = Some a"
    using sockaddr_read [of a] assms by (simp add: std_addr_to_c_def Let_def SOCKADDR_STORAGE_LEN_def)
  moreover have "std_addr_from_c b n = Some a \<longleftrightarrow> n = length (sockaddr_struct a) \<and> n \<le> length b
      \<and> take (significant a) b = take (significant a) (sockaddr_struct a)"
    using from_c_significant [of b n a] significant_from_c [of n a b] by blast
  ultimately show ?thesis by blast
qed

theorem sockaddr_exact_witness:
  "std_addr_from_c [2, 0, 0x11, 0x5c, 127, 0, 0, 1, 9, 9, 9, 9, 9, 9, 9, 9] 16 = Some (V4 0x7f000001 4444)"
proof -
  have k: "(2 :: nat) = Suc (Suc 0)" "(4 :: nat) = Suc (Suc (Suc (Suc 0)))" by simp_all
  have z: "replicate 8 (0 :: u8) = [0, 0, 0, 0, 0, 0, 0, 0]" by (simp add: eval_nat_numeral)
  have "be_bytes 2 4444 = [0x11, 0x5c]" "be_bytes 4 0x7f000001 = [127, 0, 0, 1]" "le_num 2 AF_INET = [2, 0]"
    unfolding k le_num_def AF_INET_def by simp_all
  then have "sockaddr_struct (V4 0x7f000001 4444) = [2, 0, 0x11, 0x5c, 127, 0, 0, 1, 0, 0, 0, 0, 0, 0, 0, 0]"
    using z by (simp del: be_bytes.simps)
  then show ?thesis
    using sockaddr_exact [of "replicate 128 0" "[2, 0, 0x11, 0x5c, 127, 0, 0, 1, 9, 9, 9, 9, 9, 9, 9, 9]" 16 "V4 0x7f000001 4444"]
    by (simp add: SOCKADDR_STORAGE_LEN_def significant_def)
qed

section \<open>Path events\<close>

text \<open>What reading the two buffers after an accessor gives.\<close>

definition read_pair :: "(nat \<times> bytes) \<times> (nat \<times> bytes) \<Rightarrow> socket_addr option \<times> socket_addr option" where
  "read_pair r = (std_addr_from_c (snd (fst r)) (fst (fst r)), std_addr_from_c (snd (snd r)) (fst (snd r)))"

lemma read_put_pair [simp]: "read_pair (put_pair local peer lo po) = (Some local, Some peer)"
  using sockaddr_read [of local] sockaddr_read [of peer] by (simp add: read_pair_def put_pair_def std_addr_to_c_def Let_def)

text \<open>
  The number \<open>quiche_path_event_type\<close> returns names the event by its constant in \<open>quiche.h\<close>; of the six
  accessors exactly the one for that constant may be called, any other panics; and what it writes is read back as
  the addresses of the event, whatever was in the buffers.
\<close>

theorem path_event_accessors:
  "(quiche_path_event_new ev lo po \<noteq> None \<longleftrightarrow> quiche_path_event_type_of ev = QUICHE_PATH_EVENT_NEW)
   \<and> (quiche_path_event_validated ev lo po \<noteq> None \<longleftrightarrow> quiche_path_event_type_of ev = QUICHE_PATH_EVENT_VALIDATED)
   \<and> (quiche_path_event_failed_validation ev lo po \<noteq> None \<longleftrightarrow>
        quiche_path_event_type_of ev = QUICHE_PATH_EVENT_FAILED_VALIDATION)
   \<and> (quiche_path_event_closed ev lo po \<noteq> None \<longleftrightarrow> quiche_path_event_type_of ev = QUICHE_PATH_EVENT_CLOSED)
   \<and> (quiche_path_event_reused_source_connection_id ev olo opo lo po \<noteq> None \<longleftrightarrow>
        quiche_path_event_type_of ev = QUICHE_PATH_EVENT_REUSED_SOURCE_CONNECTION_ID)
   \<and> (quiche_path_event_peer_migrated ev lo po \<noteq> None \<longleftrightarrow> quiche_path_event_type_of ev = QUICHE_PATH_EVENT_PEER_MIGRATED)
   \<and> (case ev of
        New local peer \<Rightarrow> map_option read_pair (quiche_path_event_new ev lo po) = Some (Some local, Some peer)
      | Validated local peer \<Rightarrow> map_option read_pair (quiche_path_event_validated ev lo po) = Some (Some local, Some peer)
      | FailedValidation local peer \<Rightarrow>
          map_option read_pair (quiche_path_event_failed_validation ev lo po) = Some (Some local, Some peer)
      | Closed local peer \<Rightarrow> map_option read_pair (quiche_path_event_closed ev lo po) = Some (Some local, Some peer)
      | ReusedSourceConnectionId seq old new \<Rightarrow>
          map_option (map_prod id (map_prod read_pair read_pair))
              (quiche_path_event_reused_source_connection_id ev olo opo lo po) =
            Some (seq, (Some (fst old), Some (snd old)), (Some (fst new), Some (snd new)))
      | PeerMigrated local peer \<Rightarrow>
          map_option read_pair (quiche_path_event_peer_migrated ev lo po) = Some (Some local, Some peer))"
  by (cases ev) (simp_all add: quiche_path_event_type_of_def path_event_types_def)

section \<open>Iterators\<close>

text \<open>The contract of an iterator: what is left, fetched one by one.\<close>

locale iterator =
  fixes remaining :: "'it \<Rightarrow> 'a list" and next_of :: "'it \<Rightarrow> 'a option \<times> 'it"
  assumes next_end: "remaining it = [] \<Longrightarrow> next_of it = (None, it)"
    and next_item: "remaining it = x # xs \<Longrightarrow> \<exists>it'. next_of it = (Some x, it') \<and> remaining it' = xs"
begin

text \<open>The results of \<open>n\<close> calls.\<close>

primrec fetch :: "nat \<Rightarrow> 'it \<Rightarrow> 'a option list" where
  "fetch 0 it = []"
| "fetch (Suc n) it = fst (next_of it) # fetch n (snd (next_of it))"

lemma fetch_items: "fetch n it = map Some (take n (remaining it)) @ replicate (n - length (remaining it)) None"
proof (induction n arbitrary: it)
  case (Suc n)
  show ?case
  proof (cases "remaining it")
    case Nil
    then show ?thesis using Suc.IH [of it] next_end [of it] by simp
  next
    case (Cons x xs)
    then obtain it' where "next_of it = (Some x, it')" "remaining it' = xs" using next_item by blast
    then show ?thesis using Suc.IH [of it'] Cons by simp
  qed
qed simp

end

definition it_remaining :: "'a iter \<Rightarrow> 'a list" where
  "it_remaining it = drop (it_index it) (it_items it)"

interpretation it: iterator it_remaining iter_next
proof
  fix it :: "'a iter" and x xs
  show "iter_next it = (None, it)" if "it_remaining it = []"
    using that by (simp add: it_remaining_def iter_next_def)
  show "\<exists>it'. iter_next it = (Some x, it') \<and> it_remaining it' = xs" if "it_remaining it = x # xs"
  proof -
    have i: "it_index it < length (it_items it)" using that by (simp add: it_remaining_def not_le [symmetric]) (metis drop_all list.distinct(1))
    have "it_items it ! it_index it # drop (Suc (it_index it)) (it_items it) = x # xs"
      using that Cons_nth_drop_Suc [OF i] by (simp add: it_remaining_def)
    then show ?thesis using i by (simp add: iter_next_def it_remaining_def)
  qed
qed

text \<open>The same for the connection IDs that have been retired, which are given once and are gone.\<close>

lemma drain_scids_eq: "drain_scids cids retired = (cids @ retired, [])"
  by (induction cids retired rule: drain_scids.induct) simp_all

text \<open>
  The retired connection IDs: the iterator gives each of them once, in the order of their retirement, and then
  none for ever; after it was made none is left in the connection, so a second one gives nothing.
\<close>

theorem retired_scids_once:
  "case quiche_conn_retired_scid_iter retired of (it, left) \<Rightarrow>
     it.fetch (length retired + n) it = map Some retired @ replicate n None
     \<and> quiche_conn_retired_scids left = 0 \<and> it.fetch n (fst (quiche_conn_retired_scid_iter left)) = replicate n None"
  by (simp add: quiche_conn_retired_scid_iter_def drain_scids_eq it.fetch_items it_remaining_def iter_new_def
      quiche_conn_retired_scids_def)

section \<open>The loops of the programs\<close>

text \<open>
  The loops of \<open>server.c\<close> and \<open>client.c\<close> over the readable streams as they are written, with the iterator and the
  variable \<open>s\<close> it writes.
\<close>

function server_stream_while ::
  "'c quiche_api \<Rightarrow> u64 iter \<Rightarrow> u64 \<Rightarrow> 'c \<Rightarrow> history \<Rightarrow> 'c \<times> history" where
  "server_stream_while api readable s conn tr =
     (case quiche_stream_iter_next readable s of
        (False, _, _) \<Rightarrow> (conn, tr)
      | (True, s, readable) \<Rightarrow>
          let tr = Stderr (STR ''stream %lu is readable'') [uint s] # tr in
          (case quiche_conn_stream_recv api conn s 65535 of
             (Inl _, conn) \<Rightarrow> (conn, tr)
           | (Inr (_, fin), conn) \<Rightarrow>
               let conn = (if fin then snd (quiche_conn_stream_send api conn s (take 5 resp) True) else conn)
               in server_stream_while api readable s conn tr))"
  by pat_completeness auto
termination
  by (relation "measure (\<lambda>(api, readable, s, conn, tr). length (it_items readable) - it_index readable)")
    (auto simp: quiche_stream_iter_next_def iter_next_def split: if_splits)

function client_stream_while ::
  "'c quiche_api \<Rightarrow> u64 iter \<Rightarrow> u64 \<Rightarrow> 'c \<Rightarrow> history \<Rightarrow> 'c \<times> history" where
  "client_stream_while api readable s conn tr =
     (case quiche_stream_iter_next readable s of
        (False, _, _) \<Rightarrow> (conn, tr)
      | (True, s, readable) \<Rightarrow>
          let tr = Stderr (STR ''stream %lu is readable'') [uint s] # tr in
          (case quiche_conn_stream_recv api conn s 65535 of
             (Inl _, conn) \<Rightarrow> (conn, tr)
           | (Inr (b, fin), conn) \<Rightarrow>
               let tr = Stdout (format_text b) # tr in
               (case (if fin then close_conn api conn tr else (conn, tr)) of
                  (conn, tr) \<Rightarrow> client_stream_while api readable s conn tr)))"
  by pat_completeness auto
termination
  by (relation "measure (\<lambda>(api, readable, s, conn, tr). length (it_items readable) - it_index readable)")
    (auto simp: quiche_stream_iter_next_def iter_next_def split: if_splits)

declare server_stream_while.simps [simp del] client_stream_while.simps [simp del]

lemma stream_iter_end: "it_remaining it = [] \<Longrightarrow> quiche_stream_iter_next it s = (False, s, it)"
  using it.next_end [of it] by (simp add: quiche_stream_iter_next_def)

lemma stream_iter_item:
  assumes "it_remaining it = v # vs"
  obtains it' where "quiche_stream_iter_next it s = (True, v, it')" and "it_remaining it' = vs"
  using it.next_item [OF assms] by (auto simp: quiche_stream_iter_next_def)

lemma server_while_eq: "server_stream_while api it s c tr = stream_loop api (it_remaining it) c tr"
proof (induction "it_remaining it" arbitrary: it s c tr)
  case Nil
  then show ?case by (subst server_stream_while.simps) (simp add: stream_iter_end flip: Nil)
next
  case (Cons v vs)
  from Cons.hyps(2) [symmetric] obtain it' where n: "quiche_stream_iter_next it s = (True, v, it')"
    and vs: "it_remaining it' = vs" by (rule stream_iter_item)
  show ?case
    using Cons.hyps(1) [OF vs [symmetric]] vs
    by (subst server_stream_while.simps) (simp add: n Let_def split: prod.split sum.split flip: Cons.hyps(2))
qed

lemma client_while_eq: "client_stream_while api it s c tr = read_streams api (it_remaining it) c tr"
proof (induction "it_remaining it" arbitrary: it s c tr)
  case Nil
  then show ?case by (subst client_stream_while.simps) (simp add: stream_iter_end flip: Nil)
next
  case (Cons v vs)
  from Cons.hyps(2) [symmetric] obtain it' where n: "quiche_stream_iter_next it s = (True, v, it')"
    and vs: "it_remaining it' = vs" by (rule stream_iter_item)
  show ?case
    using Cons.hyps(1) [OF vs [symmetric]] vs
    by (subst client_stream_while.simps) (simp add: n Let_def split: prod.split sum.split flip: Cons.hyps(2))
qed

text \<open>
  The loops over the readable streams, written with an iterator that is advanced and a variable that is
  overwritten, do what the recursions over the list of the streams do, for the server and for the client; in
  particular they end, and look at each stream at most once.
\<close>

theorem stream_while_loops:
  "server_stream_while api (iter_new streams) s c tr = stream_loop api streams c tr
   \<and> client_stream_while api (iter_new streams) s c tr = read_streams api streams c tr"
  by (simp add: server_while_eq client_while_eq it_remaining_def iter_new_def)

section \<open>The length of a peer address\<close>

lemma upper_half_zero: "(old :: u64) AND 0xffffffff00000000 = 0 \<longleftrightarrow> unat old < 2 ^ 32"
proof -
  have "old AND 0xffffffff00000000 = 0 \<longleftrightarrow> drop_bit 32 old = 0"
  proof
    assume z: "old AND 0xffffffff00000000 = 0"
    have m: "drop_bit 32 (0xffffffff00000000 :: u64) = mask 32" by (simp add: mask_eq_exp_minus_1)
    have "drop_bit 32 (old AND 0xffffffff00000000) = drop_bit 32 old AND mask 32" by (simp only: drop_bit_and m)
    moreover have "drop_bit 32 old AND mask 32 = drop_bit 32 old"
      by (rule bit_word_eqI) (auto simp: bit_simps dest: bit_imp_le_length)
    ultimately show "drop_bit 32 old = 0" using z by simp
  next
    assume z: "drop_bit 32 old = 0"
    have p: "push_bit 32 (0xffffffff :: u64) = 0xffffffff00000000" by (simp add: push_bit_eq_mult)
    have "old AND push_bit 32 m = push_bit 32 (drop_bit 32 old AND m)" for m
      by (rule bit_word_eqI) (auto simp: bit_simps)
    from this [of "0xffffffff"] show "old AND 0xffffffff00000000 = 0" using z by (simp add: p)
  qed
  also have "\<dots> \<longleftrightarrow> unat old < 2 ^ 32" by (rule drop_bit_eq_0_iff)
  finally show ?thesis .
qed

lemma write_socklen_exact:
  assumes "n = 16 \<or> n = 28"
  shows "unat (write_socklen old (of_nat n)) = n \<longleftrightarrow> unat old < 2 ^ 32"
proof -
  have "unat (write_socklen old (of_nat n)) = n \<longleftrightarrow> write_socklen old (of_nat n) = of_nat n"
    using assms by (auto simp: word_eq_iff_unsigned [where ?'a = nat])
  also have "\<dots> \<longleftrightarrow> old AND 0xffffffff00000000 = 0"
  proof
    assume w: "write_socklen old (of_nat n) = of_nat n"
    have "write_socklen old (of_nat n) AND 0xffffffff00000000 = old AND 0xffffffff00000000"
      using assms by (auto simp: write_socklen_def bit.conj_disj_distrib2 and.assoc)
    then show "old AND 0xffffffff00000000 = 0" using w assms by auto
  qed (use assms in \<open>auto simp: write_socklen_def\<close>)
  finally show ?thesis by (simp add: upper_half_zero)
qed

text \<open>
  \<open>quiche_socket_addr_iter_next\<close> writes a 32-bit length where \<open>quiche.h\<close> declares 64 bits: the caller's
  variable holds the length of the address exactly when its upper half was zero before the call; the address itself
  is written as it should be.
\<close>

theorem socket_addr_iter_length:
  assumes "it_remaining it = a # rest"
  shows "\<exists>it' peer' peer_len'. quiche_socket_addr_iter_next it peer peer_len = (True, (peer', peer_len'), it')
    \<and> it_remaining it' = rest \<and> std_addr_from_c peer' (length (sockaddr_struct a)) = Some a
    \<and> (unat peer_len' = length (sockaddr_struct a) \<longleftrightarrow> unat peer_len < 2 ^ 32)"
proof -
  obtain it' where n: "iter_next it = (Some a, it')" and r: "it_remaining it' = rest"
    using it.next_item [OF assms] by blast
  have small: "length (sockaddr_struct a) = 16 \<or> length (sockaddr_struct a) = 28"
    by (simp add: length_sockaddr_struct split: socket_addr.split)
  show ?thesis
    using n r write_socklen_exact [OF small, of peer_len] sockaddr_read [of a "drop (length (sockaddr_struct a)) peer"]
    by (simp add: quiche_socket_addr_iter_next_def std_addr_to_c_def Let_def)
qed

theorem socket_addr_iter_length_witness:
  "\<exists>it' peer' peer_len'.
     quiche_socket_addr_iter_next (iter_new [V4 0xc0a80001 443]) [] 0xffffffff00000000 =
       (True, (peer', peer_len'), it') \<and> unat peer_len' \<noteq> 16"
  using socket_addr_iter_length [of "iter_new [V4 0xc0a80001 443]" "V4 0xc0a80001 443" "[]" "[]"
      "0xffffffff00000000"]
  by (auto simp: it_remaining_def iter_new_def length_sockaddr_struct)

end
