(* ===== verification/Cids.thy ===== *)
theory Cids
  imports Dgram Paths
begin

text \<open>
  The connection IDs of a connection: the functions of \<open>quiche.h\<close> that issue, list and retire them, from the
  sets in \<open>src/cid.rs\<close> over the connection in \<open>src/lib.rs\<close> and the two frames in \<open>src/frame.rs\<close> to the C
  functions in \<open>src/ffi.rs\<close>.  Sequence numbers are natural numbers: one's own are counted up by one for each
  connection ID, those of the peer come from 62-bit integers, so that no \<open>u64\<close> overflows.  Of a path only
  what these functions read and write is in the model.
\<close>

section \<open>Entries and sets\<close>

record cid_entry =
  ce_cid :: bytes
  ce_seq :: nat
  ce_reset_token :: "128 word option"
  ce_path_id :: "nat option"

text \<open>\<open>BoundedConnectionIdSeqSet\<close>.\<close>

record seq_set =
  ss_inner :: "nat set"
  ss_capacity :: nat

definition ss_new :: "nat \<Rightarrow> seq_set" where
  "ss_new capacity = \<lparr>ss_inner = {}, ss_capacity = capacity\<rparr>"

definition ss_insert :: "nat \<Rightarrow> seq_set \<Rightarrow> quiche_error + seq_set" where
  "ss_insert e s =
     (if ss_capacity s \<le> card (ss_inner s) then Inl QUICHE_ERR_ID_LIMIT
      else Inr (s\<lparr>ss_inner := insert e (ss_inner s)\<rparr>))"

definition ss_remove :: "nat \<Rightarrow> seq_set \<Rightarrow> seq_set" where
  "ss_remove e s = s\<lparr>ss_inner := ss_inner s - {e}\<rparr>"

definition ss_is_empty :: "seq_set \<Rightarrow> bool" where
  "ss_is_empty s \<longleftrightarrow> ss_inner s = {}"

text \<open>\<open>BoundedNonEmptyConnectionIdVecDeque\<close>.\<close>

record cid_deque =
  cd_inner :: "cid_entry list"
  cd_capacity :: nat

definition cd_new :: "nat \<Rightarrow> cid_entry \<Rightarrow> cid_deque" where
  "cd_new capacity initial_entry = \<lparr>cd_inner = [initial_entry], cd_capacity = capacity\<rparr>"

definition cd_resize :: "nat \<Rightarrow> cid_deque \<Rightarrow> cid_deque" where
  "cd_resize new_capacity d = (if cd_capacity d < new_capacity then d\<lparr>cd_capacity := new_capacity\<rparr> else d)"

text \<open>\<open>None\<close> is the panic of \<open>expect\<close>.\<close>

definition cd_get_oldest :: "cid_deque \<Rightarrow> cid_entry option" where
  "cd_get_oldest d = (case cd_inner d of [] \<Rightarrow> None | e # _ \<Rightarrow> Some e)"

definition cd_get :: "nat \<Rightarrow> cid_deque \<Rightarrow> cid_entry option" where
  "cd_get seq d = find (\<lambda>e. ce_seq e = seq) (cd_inner d)"

text \<open>What is done through \<open>get_mut\<close>: the first entry with the number is changed, if there is one.\<close>

fun update_first :: "nat \<Rightarrow> (cid_entry \<Rightarrow> cid_entry) \<Rightarrow> cid_entry list \<Rightarrow> cid_entry list option" where
  "update_first seq f [] = None"
| "update_first seq f (e # es) =
     (if ce_seq e = seq then Some (f e # es) else map_option ((#) e) (update_first seq f es))"

definition cd_update :: "nat \<Rightarrow> (cid_entry \<Rightarrow> cid_entry) \<Rightarrow> cid_deque \<Rightarrow> cid_deque option" where
  "cd_update seq f d = map_option (\<lambda>es. d\<lparr>cd_inner := es\<rparr>) (update_first seq f (cd_inner d))"

definition cd_len :: "cid_deque \<Rightarrow> nat" where
  "cd_len d = length (cd_inner d)"

definition cd_insert :: "cid_entry \<Rightarrow> cid_deque \<Rightarrow> quiche_error + cid_deque" where
  "cd_insert e d =
     (case cd_update (ce_seq e) (\<lambda>_. e) d of
        Some d' \<Rightarrow> Inr d'
      | None \<Rightarrow>
          if cd_capacity d \<le> cd_len d then Inl QUICHE_ERR_ID_LIMIT
          else Inr (d\<lparr>cd_inner := cd_inner d @ [e]\<rparr>))"

definition cd_clear_and_insert :: "cid_entry \<Rightarrow> cid_deque \<Rightarrow> cid_deque" where
  "cd_clear_and_insert e d = d\<lparr>cd_inner := [e]\<rparr>"

fun remove_first :: "nat \<Rightarrow> cid_entry list \<Rightarrow> cid_entry option \<times> cid_entry list" where
  "remove_first seq [] = (None, [])"
| "remove_first seq (e # es) =
     (if ce_seq e = seq then (Some e, es) else map_prod id ((#) e) (remove_first seq es))"

definition cd_remove :: "nat \<Rightarrow> cid_deque \<Rightarrow> quiche_error + cid_entry option \<times> cid_deque" where
  "cd_remove seq d =
     (if cd_len d \<le> 1 then Inl QUICHE_ERR_OUT_OF_IDENTIFIERS
      else Inr (map_prod id (\<lambda>es. d\<lparr>cd_inner := es\<rparr>) (remove_first seq (cd_inner d))))"

text \<open>\<open>inspect\<close> is the closure with what it changes, called on each entry that is removed, in their order.\<close>

definition cd_retire_prior_to :: "nat \<Rightarrow> (cid_entry \<Rightarrow> 's \<Rightarrow> 's) \<Rightarrow> 's \<Rightarrow> cid_deque \<Rightarrow> 's \<times> cid_deque" where
  "cd_retire_prior_to n inspect s d =
     (fold inspect (filter (\<lambda>e. ce_seq e < n) (cd_inner d)) s,
      d\<lparr>cd_inner := filter (\<lambda>e. \<not> ce_seq e < n) (cd_inner d)\<rparr>)"

section \<open>The identifiers of a connection\<close>

record connection_ids =
  ci_dcids :: cid_deque
  ci_scids :: cid_deque
  ci_advertise_new_scid_seqs :: "nat list"
  ci_retire_dcid_seqs :: seq_set
  ci_retired_scids :: "bytes list"
  ci_largest_peer_retire_prior_to :: nat
  ci_largest_destination_seq :: nat
  ci_next_scid_seq :: nat
  ci_retire_prior_to :: nat
  ci_source_conn_id_limit :: nat
  ci_zero_length_scid :: bool
  ci_zero_length_dcid :: bool

definition RETIRED_CONN_ID_LIMIT_MULTIPLIER :: nat where
  "RETIRED_CONN_ID_LIMIT_MULTIPLIER = 3"

text \<open>The product is computed in a \<open>u64\<close>.\<close>

definition ci_new :: "nat \<Rightarrow> bytes \<Rightarrow> nat \<Rightarrow> 128 word option \<Rightarrow> connection_ids" where
  "ci_new destination_conn_id_limit initial_scid initial_path_id reset_token =
     (let destination_conn_id_limit = (if destination_conn_id_limit < 2 then 2 else destination_conn_id_limit);
          source_conn_id_limit = 2;
          val = (destination_conn_id_limit * RETIRED_CONN_ID_LIMIT_MULTIPLIER) mod 2 ^ 64
      in \<lparr>ci_dcids = cd_new destination_conn_id_limit
            \<lparr>ce_cid = [], ce_seq = 0, ce_reset_token = None, ce_path_id = Some initial_path_id\<rparr>,
          ci_scids = cd_new (2 * source_conn_id_limit - 1)
            \<lparr>ce_cid = initial_scid, ce_seq = 0, ce_reset_token = reset_token, ce_path_id = Some initial_path_id\<rparr>,
          ci_advertise_new_scid_seqs = [],
          ci_retire_dcid_seqs = ss_new (min SIZE_MAX val),
          ci_retired_scids = [],
          ci_largest_peer_retire_prior_to = 0,
          ci_largest_destination_seq = 0,
          ci_next_scid_seq = 1,
          ci_retire_prior_to = 0,
          ci_source_conn_id_limit = source_conn_id_limit,
          ci_zero_length_scid = (initial_scid = []),
          ci_zero_length_dcid = False\<rparr>)"

definition set_source_conn_id_limit :: "nat \<Rightarrow> connection_ids \<Rightarrow> connection_ids" where
  "set_source_conn_id_limit v ids =
     (let v = min v (SIZE_MAX div 2) in
      if 2 \<le> v then ids\<lparr>ci_source_conn_id_limit := v, ci_scids := cd_resize (2 * v - 1) (ci_scids ids)\<rparr>
      else ids)"

definition get_dcid :: "nat \<Rightarrow> connection_ids \<Rightarrow> quiche_error + cid_entry" where
  "get_dcid seq_num ids =
     (case cd_get seq_num (ci_dcids ids) of None \<Rightarrow> Inl QUICHE_ERR_INVALID_STATE | Some e \<Rightarrow> Inr e)"

definition get_scid :: "nat \<Rightarrow> connection_ids \<Rightarrow> quiche_error + cid_entry" where
  "get_scid seq_num ids =
     (case cd_get seq_num (ci_scids ids) of None \<Rightarrow> Inl QUICHE_ERR_INVALID_STATE | Some e \<Rightarrow> Inr e)"

text \<open>The iterators of the source: \<open>filter_map\<close> and \<open>min\<close>.\<close>

definition lowest :: "nat list \<Rightarrow> nat option" where
  "lowest seqs = (case seqs of [] \<Rightarrow> None | s # ss \<Rightarrow> Some (fold min ss s))"

definition lowest_usable_scid_seq :: "connection_ids \<Rightarrow> quiche_error + nat" where
  "lowest_usable_scid_seq ids =
     (case lowest (filter (\<lambda>seq. ci_retire_prior_to ids \<le> seq) (map ce_seq (cd_inner (ci_scids ids)))) of
        None \<Rightarrow> Inl QUICHE_ERR_INVALID_STATE
      | Some seq \<Rightarrow> Inr seq)"

definition lowest_available_dcid_seq :: "connection_ids \<Rightarrow> nat option" where
  "lowest_available_dcid_seq ids =
     lowest (map ce_seq (filter (\<lambda>e. ce_path_id e = None) (cd_inner (ci_dcids ids))))"

definition mark_advertise_new_scid_seq :: "nat \<Rightarrow> bool \<Rightarrow> connection_ids \<Rightarrow> connection_ids" where
  "mark_advertise_new_scid_seq scid_seq advertise ids =
     (if advertise then ids\<lparr>ci_advertise_new_scid_seqs := ci_advertise_new_scid_seqs ids @ [scid_seq]\<rparr>
      else ids\<lparr>ci_advertise_new_scid_seqs := remove1 scid_seq (ci_advertise_new_scid_seqs ids)\<rparr>)"

definition mark_retire_dcid_seq :: "nat \<Rightarrow> bool \<Rightarrow> connection_ids \<Rightarrow> (quiche_error + unit) \<times> connection_ids" where
  "mark_retire_dcid_seq dcid_seq retire ids =
     (if retire then
        (case ss_insert dcid_seq (ci_retire_dcid_seqs ids) of
           Inl e \<Rightarrow> (Inl e, ids)
         | Inr s \<Rightarrow> (Inr (), ids\<lparr>ci_retire_dcid_seqs := s\<rparr>))
      else (Inr (), ids\<lparr>ci_retire_dcid_seqs := ss_remove dcid_seq (ci_retire_dcid_seqs ids)\<rparr>))"

text \<open>
  The request to retire the lowest usable source connection ID, then the new one.  An error after the request
  leaves \<open>retire_prior_to\<close> as it was set.
\<close>

definition request_retirement :: "bool \<Rightarrow> connection_ids \<Rightarrow> quiche_error + connection_ids" where
  "request_retirement retire_if_needed ids =
     (if ci_source_conn_id_limit ids \<le> cd_len (ci_scids ids) then
        (if \<not> retire_if_needed then Inl QUICHE_ERR_ID_LIMIT
         else (case lowest_usable_scid_seq ids of
             Inl e \<Rightarrow> Inl e
           | Inr lowest_seq \<Rightarrow> Inr (ids\<lparr>ci_retire_prior_to := lowest_seq + 1\<rparr>)))
      else Inr ids)"

definition ci_new_scid ::
  "bytes \<Rightarrow> 128 word option \<Rightarrow> bool \<Rightarrow> nat option \<Rightarrow> bool \<Rightarrow> connection_ids \<Rightarrow> (quiche_error + nat) \<times> connection_ids" where
  "ci_new_scid cid reset_token advertise path_id retire_if_needed ids =
     (if ci_zero_length_scid ids then (Inl QUICHE_ERR_INVALID_STATE, ids)
      else (case request_retirement retire_if_needed ids of
          Inl e \<Rightarrow> (Inl e, ids)
        | Inr ids \<Rightarrow>
            let seq = ci_next_scid_seq ids in
            if reset_token = None \<and> seq \<noteq> 0 then (Inl QUICHE_ERR_INVALID_STATE, ids)
            else (case find (\<lambda>e. ce_cid e = cid) (cd_inner (ci_scids ids)) of
                Some e \<Rightarrow>
                  if ce_reset_token e \<noteq> reset_token then (Inl QUICHE_ERR_INVALID_STATE, ids)
                  else (Inr (ce_seq e), ids)
              | None \<Rightarrow>
                  (case cd_insert \<lparr>ce_cid = cid, ce_seq = seq, ce_reset_token = reset_token, ce_path_id = path_id\<rparr>
                      (ci_scids ids) of
                     Inl e \<Rightarrow> (Inl e, ids)
                   | Inr scids \<Rightarrow>
                       let ids = ids\<lparr>ci_scids := scids, ci_next_scid_seq := ci_next_scid_seq ids + 1\<rparr>
                       in (Inr seq, mark_advertise_new_scid_seq seq advertise ids)))))"

definition ci_set_initial_dcid :: "bytes \<Rightarrow> 128 word option \<Rightarrow> nat option \<Rightarrow> connection_ids \<Rightarrow> connection_ids" where
  "ci_set_initial_dcid cid reset_token path_id ids =
     ids\<lparr>ci_zero_length_dcid := (cid = []),
       ci_dcids := cd_clear_and_insert
         \<lparr>ce_cid = cid, ce_seq = 0, ce_reset_token = reset_token, ce_path_id = path_id\<rparr> (ci_dcids ids)\<rparr>"

text \<open>
  A connection ID of the peer.  \<open>retire_one\<close> is the closure that is called on each entry below
  \<open>retire_prior_to\<close>: the paths that used it, the numbers to announce, and the first error.
\<close>

type_synonym retire_state = "(nat \<times> nat) list \<times> seq_set \<times> quiche_error option"

fun retire_one :: "cid_entry \<Rightarrow> retire_state \<Rightarrow> retire_state" where
  "retire_one e (paths, retired, err) =
     (let paths = (case ce_path_id e of Some pid \<Rightarrow> paths @ [(ce_seq e, pid)] | None \<Rightarrow> paths) in
      (case ss_insert (ce_seq e) retired of
         Inr retired \<Rightarrow> (paths, retired, err)
       | Inl er \<Rightarrow> (paths, retired, (case err of None \<Rightarrow> Some er | Some _ \<Rightarrow> err))))"

definition insert_dcid ::
  "cid_entry \<Rightarrow> quiche_error option \<Rightarrow> connection_ids \<Rightarrow> (quiche_error + unit) \<times> connection_ids" where
  "insert_dcid new_entry err ids =
     (case cd_insert new_entry (ci_dcids ids) of
        Inl e \<Rightarrow> (Inl e, ids)
      | Inr dcids \<Rightarrow> ((case err of Some e \<Rightarrow> Inl e | None \<Rightarrow> Inr ()), ids\<lparr>ci_dcids := dcids\<rparr>))"

definition ci_new_dcid ::
  "bytes \<Rightarrow> nat \<Rightarrow> 128 word \<Rightarrow> nat \<Rightarrow> connection_ids \<Rightarrow> (quiche_error + unit) \<times> (nat \<times> nat) list \<times> connection_ids" where
  "ci_new_dcid cid seq reset_token retire_prior_to ids =
     (if ci_zero_length_dcid ids then (Inl QUICHE_ERR_INVALID_STATE, [], ids)
      else (case find (\<lambda>e. ce_cid e = cid \<or> ce_seq e = seq) (cd_inner (ci_dcids ids)) of
          Some e \<Rightarrow>
            (if ce_cid e \<noteq> cid \<or> ce_seq e \<noteq> seq \<or> ce_reset_token e \<noteq> Some reset_token
             then Inl QUICHE_ERR_INVALID_FRAME else Inr (), [], ids)
        | None \<Rightarrow>
            if seq < retire_prior_to then (Inl QUICHE_ERR_INVALID_FRAME, [], ids)
            else if seq < ci_largest_peer_retire_prior_to ids then
              (case mark_retire_dcid_seq seq True ids of (r, ids) \<Rightarrow> (r, [], ids))
            else
              let ids = (if ci_largest_destination_seq ids < seq then ids\<lparr>ci_largest_destination_seq := seq\<rparr> else ids);
                  new_entry = \<lparr>ce_cid = cid, ce_seq = seq, ce_reset_token = Some reset_token, ce_path_id = None\<rparr>
              in if ci_largest_peer_retire_prior_to ids < retire_prior_to then
                   (if ce_seq new_entry < retire_prior_to then (Inl QUICHE_ERR_OUT_OF_IDENTIFIERS, [], ids)
                    else (case cd_retire_prior_to retire_prior_to retire_one ([], ci_retire_dcid_seqs ids, None)
                          (ci_dcids ids) of
                        ((paths, retired, err), dcids) \<Rightarrow>
                          let ids = ids\<lparr>ci_dcids := dcids, ci_retire_dcid_seqs := retired,
                                ci_largest_peer_retire_prior_to := retire_prior_to\<rparr>
                          in (case insert_dcid new_entry err ids of (r, ids) \<Rightarrow> (r, paths, ids))))
                 else (case insert_dcid new_entry None ids of (r, ids) \<Rightarrow> (r, [], ids))))"

text \<open>
  The peer retires a source connection ID in a packet that was sent to \<open>pkt_dcid\<close>.  The entry is removed
  before it is compared with that.
\<close>

definition ci_retire_scid ::
  "nat \<Rightarrow> bytes \<Rightarrow> connection_ids \<Rightarrow> (quiche_error + nat option) \<times> connection_ids" where
  "ci_retire_scid seq pkt_dcid ids =
     (if ci_next_scid_seq ids \<le> seq then (Inl QUICHE_ERR_INVALID_STATE, ids)
      else (case cd_remove seq (ci_scids ids) of
          Inl e \<Rightarrow> (Inl e, ids)
        | Inr (None, scids) \<Rightarrow> (Inr None, ids\<lparr>ci_scids := scids\<rparr>)
        | Inr (Some e, scids) \<Rightarrow>
            let ids = ids\<lparr>ci_scids := scids\<rparr> in
            if ce_cid e = pkt_dcid then (Inl QUICHE_ERR_INVALID_STATE, ids)
            else
              let ids = ids\<lparr>ci_retired_scids := ci_retired_scids ids @ [ce_cid e]\<rparr> in
              (case lowest_usable_scid_seq ids of
                 Inl er \<Rightarrow> (Inl er, ids)
               | Inr lowest_scid_seq \<Rightarrow> (Inr (ce_path_id e), ids\<lparr>ci_retire_prior_to := lowest_scid_seq\<rparr>))))"

definition ci_retire_dcid :: "nat \<Rightarrow> connection_ids \<Rightarrow> (quiche_error + nat option) \<times> connection_ids" where
  "ci_retire_dcid seq ids =
     (if ci_zero_length_dcid ids then (Inl QUICHE_ERR_INVALID_STATE, ids)
      else (case cd_remove seq (ci_dcids ids) of
          Inl e \<Rightarrow> (Inl e, ids)
        | Inr (None, dcids) \<Rightarrow> (Inl QUICHE_ERR_INVALID_STATE, ids\<lparr>ci_dcids := dcids\<rparr>)
        | Inr (Some e, dcids) \<Rightarrow>
            (case mark_retire_dcid_seq seq True (ids\<lparr>ci_dcids := dcids\<rparr>) of
               (Inl er, ids) \<Rightarrow> (Inl er, ids)
             | (Inr _, ids) \<Rightarrow> (Inr (ce_path_id e), ids))))"

definition link_scid_to_path_id :: "nat \<Rightarrow> nat \<Rightarrow> connection_ids \<Rightarrow> quiche_error + connection_ids" where
  "link_scid_to_path_id seq path_id ids =
     (case cd_update seq (\<lambda>e. e\<lparr>ce_path_id := Some path_id\<rparr>) (ci_scids ids) of
        None \<Rightarrow> Inl QUICHE_ERR_INVALID_STATE
      | Some d \<Rightarrow> Inr (ids\<lparr>ci_scids := d\<rparr>))"

definition link_dcid_to_path_id :: "nat \<Rightarrow> nat \<Rightarrow> connection_ids \<Rightarrow> quiche_error + connection_ids" where
  "link_dcid_to_path_id seq path_id ids =
     (case cd_update seq (\<lambda>e. e\<lparr>ce_path_id := Some path_id\<rparr>) (ci_dcids ids) of
        None \<Rightarrow> Inl QUICHE_ERR_INVALID_STATE
      | Some d \<Rightarrow> Inr (ids\<lparr>ci_dcids := d\<rparr>))"

definition find_scid_seq :: "bytes \<Rightarrow> connection_ids \<Rightarrow> (nat \<times> nat option) option" where
  "find_scid_seq scid ids =
     map_option (\<lambda>e. (ce_seq e, ce_path_id e)) (find (\<lambda>e. ce_cid e = scid) (cd_inner (ci_scids ids)))"

definition available_scids :: "connection_ids \<Rightarrow> nat" where
  "available_scids ids = length (filter (\<lambda>e. ce_path_id e = None) (cd_inner (ci_scids ids)))"

definition available_dcids :: "connection_ids \<Rightarrow> nat" where
  "available_dcids ids =
     (if ci_zero_length_dcid ids then 0
      else length (filter (\<lambda>e. ce_path_id e = None) (cd_inner (ci_dcids ids))))"

definition next_advertise_new_scid_seq :: "connection_ids \<Rightarrow> nat option" where
  "next_advertise_new_scid_seq ids =
     (case ci_advertise_new_scid_seqs ids of [] \<Rightarrow> None | s # _ \<Rightarrow> Some s)"

definition has_new_scids :: "connection_ids \<Rightarrow> bool" where
  "has_new_scids ids \<longleftrightarrow> ci_advertise_new_scid_seqs ids \<noteq> []"

definition has_retire_dcids :: "connection_ids \<Rightarrow> bool" where
  "has_retire_dcids ids \<longleftrightarrow> \<not> ss_is_empty (ci_retire_dcid_seqs ids)"

definition active_source_cids :: "connection_ids \<Rightarrow> nat" where
  "active_source_cids ids = cd_len (ci_scids ids)"

definition retired_source_cids :: "connection_ids \<Rightarrow> nat" where
  "retired_source_cids ids = length (ci_retired_scids ids)"

definition pop_retired_scid :: "connection_ids \<Rightarrow> bytes option \<times> connection_ids" where
  "pop_retired_scid ids =
     (case ci_retired_scids ids of
        [] \<Rightarrow> (None, ids)
      | cid # cids \<Rightarrow> (Some cid, ids\<lparr>ci_retired_scids := cids\<rparr>))"

section \<open>Frames\<close>

text \<open>The two frames; every other type of frame is a parameter of the reader.\<close>

datatype 'f cid_frame = NewConnectionId nat nat bytes bytes | RetireConnectionId nat | Other_cid_frame 'f

definition get_new_connection_id_frame_for :: "nat \<Rightarrow> connection_ids \<Rightarrow> quiche_error + 'f cid_frame" where
  "get_new_connection_id_frame_for seq_num ids =
     (case cd_get seq_num (ci_scids ids) of
        None \<Rightarrow> Inl QUICHE_ERR_INVALID_STATE
      | Some e \<Rightarrow> (case ce_reset_token e of
            None \<Rightarrow> Inl QUICHE_ERR_INVALID_STATE
          | Some token \<Rightarrow> Inr (NewConnectionId seq_num (ci_retire_prior_to ids) (ce_cid e) (be_bytes 16 (unat token)))))"

definition read_new_connection_id :: "'f cid_frame octets_get" where
  "read_new_connection_id =
     oct_bind octets_get_varint (\<lambda>seq_num. oct_bind octets_get_varint (\<lambda>retire_prior_to.
     oct_bind octets_get_u8 (\<lambda>conn_id_len.
       if \<not> (1 \<le> conn_id_len \<and> conn_id_len \<le> MAX_CID_LEN) then oct_err QUICHE_ERR_INVALID_FRAME
       else oct_bind (octets_get_bytes (unat conn_id_len)) (\<lambda>conn_id. oct_bind (octets_get_bytes 16) (\<lambda>reset_token.
         oct_ret (NewConnectionId (unat seq_num) (unat retire_prior_to) conn_id reset_token))))))"

text \<open>\<open>Frame::from_bytes\<close> in a packet of type \<open>pkt\<close>, with the check of what the packet may hold.\<close>

definition cid_frame_from_bytes :: "(u64 \<Rightarrow> 'f octets_get) \<Rightarrow> pkt_type \<Rightarrow> 'f cid_frame octets_get" where
  "cid_frame_from_bytes other pkt =
     oct_bind octets_get_varint (\<lambda>frame_type.
       oct_bind
         (if frame_type = 0x18 then read_new_connection_id
          else if frame_type = 0x19 then oct_bind octets_get_varint (\<lambda>seq_num. oct_ret (RetireConnectionId (unat seq_num)))
          else oct_bind (other frame_type) (\<lambda>f. oct_ret (Other_cid_frame f)))
         (\<lambda>frame. if frame_allowed pkt frame_type then oct_ret frame else oct_err QUICHE_ERR_INVALID_PACKET))"

text \<open>Writing; \<open>None\<close> is the panic for an integer of more than 62 bits.\<close>

type_synonym octets_put_or_panic = "nat \<Rightarrow> bytes \<Rightarrow> (quiche_error + bytes) option"

definition then_put :: "octets_put_or_panic \<Rightarrow> octets_put_or_panic \<Rightarrow> octets_put_or_panic" where
  "then_put p q cap w =
     (case p cap w of None \<Rightarrow> None | Some (Inl e) \<Rightarrow> Some (Inl e) | Some (Inr w') \<Rightarrow> q cap w')"

definition no_panic :: "octets_put \<Rightarrow> octets_put_or_panic" where
  "no_panic p cap w = Some (p cap w)"

fun cid_frame_to_bytes :: "('f \<Rightarrow> octets_put_or_panic) \<Rightarrow> 'f cid_frame \<Rightarrow> octets_put_or_panic" where
  "cid_frame_to_bytes other (NewConnectionId seq_num retire_prior_to conn_id reset_token) =
     then_put (octets_put_varint 0x18) (then_put (octets_put_varint (of_nat seq_num))
       (then_put (octets_put_varint (of_nat retire_prior_to)) (then_put (no_panic (octets_put_u8 (of_nat (length conn_id))))
         (then_put (no_panic (octets_put_bytes conn_id)) (no_panic (octets_put_bytes reset_token))))))"
| "cid_frame_to_bytes other (RetireConnectionId seq_num) =
     then_put (octets_put_varint 0x19) (octets_put_varint (of_nat seq_num))"
| "cid_frame_to_bytes other (Other_cid_frame f) = other f"

fun cid_frame_wire_len :: "('f \<Rightarrow> nat option) \<Rightarrow> 'f cid_frame \<Rightarrow> nat option" where
  "cid_frame_wire_len other (NewConnectionId seq_num retire_prior_to conn_id reset_token) =
     (case (varint_len (of_nat seq_num), varint_len (of_nat retire_prior_to)) of
        (Some n, Some m) \<Rightarrow> Some (1 + n + m + 1 + length conn_id + length reset_token)
      | _ \<Rightarrow> None)"
| "cid_frame_wire_len other (RetireConnectionId seq_num) = map_option (\<lambda>n. 1 + n) (varint_len (of_nat seq_num))"
| "cid_frame_wire_len other (Other_cid_frame f) = other f"

text \<open>
  The macro \<open>push_frame_to_pkt\<close>: \<open>left\<close> is the room in the packet, \<open>w\<close> what was written into its buffer of \<open>cap\<close>
  bytes.  The frames of these loops are the two of this theory.
\<close>

datatype push_result = Pushed nat bytes | No_room | Push_error quiche_error | Push_panic

definition push_frame :: "unit cid_frame \<Rightarrow> nat \<Rightarrow> nat \<Rightarrow> bytes \<Rightarrow> push_result" where
  "push_frame f cap left w =
     (case cid_frame_wire_len (\<lambda>_. None) f of
        None \<Rightarrow> Push_panic
      | Some n \<Rightarrow>
          if n \<le> left then
            (case cid_frame_to_bytes (\<lambda>_ _ _. None) f cap w of
               None \<Rightarrow> Push_panic
             | Some (Inl e) \<Rightarrow> Push_error e
             | Some (Inr w') \<Rightarrow> Pushed (left - n) w')
          else No_room)"

text \<open>The loop of \<open>send_single\<close> that announces new source connection IDs; an error ends the function.\<close>

function emit_new_cids ::
  "nat \<Rightarrow> nat \<Rightarrow> bytes \<Rightarrow> connection_ids \<Rightarrow> (quiche_error + bytes \<times> nat) option \<times> connection_ids" where
  "emit_new_cids cap left w ids =
     (case next_advertise_new_scid_seq ids of
        None \<Rightarrow> (Some (Inr (w, left)), ids)
      | Some seq_num \<Rightarrow>
          (case get_new_connection_id_frame_for seq_num ids of
             Inl e \<Rightarrow> (Some (Inl e), ids)
           | Inr frame \<Rightarrow>
               (case push_frame frame cap left w of
                  Pushed left w \<Rightarrow> emit_new_cids cap left w (mark_advertise_new_scid_seq seq_num False ids)
                | No_room \<Rightarrow> (Some (Inr (w, left)), ids)
                | Push_error e \<Rightarrow> (Some (Inl e), ids)
                | Push_panic \<Rightarrow> (None, ids))))"
  by pat_completeness auto
termination
  by (relation "measure (\<lambda>(cap, left, w, ids). length (ci_advertise_new_scid_seqs ids))")
    (auto simp: next_advertise_new_scid_seq_def mark_advertise_new_scid_seq_def split: list.splits)

declare emit_new_cids.simps [simp del]

text \<open>
  The loop that announces retired destination connection IDs, over a copy of the set in the order \<open>seqs\<close> in which
  it is iterated; \<open>dcid_seq\<close> is the number of the one the packet is sent to.
\<close>

fun emit_retired_cids ::
  "nat option \<Rightarrow> nat list \<Rightarrow> nat \<Rightarrow> nat \<Rightarrow> bytes \<Rightarrow> connection_ids
     \<Rightarrow> (quiche_error + bytes \<times> nat) option \<times> connection_ids" where
  "emit_retired_cids active_dcid_seq [] cap left w ids = (Some (Inr (w, left)), ids)"
| "emit_retired_cids active_dcid_seq (seq_num # seqs) cap left w ids =
     (case active_dcid_seq of
        None \<Rightarrow> (Some (Inl QUICHE_ERR_INVALID_STATE), ids)
      | Some dcid_seq \<Rightarrow>
          if seq_num = dcid_seq then emit_retired_cids active_dcid_seq seqs cap left w ids
          else (case push_frame (RetireConnectionId seq_num) cap left w of
              Pushed left w \<Rightarrow>
                (case mark_retire_dcid_seq seq_num False ids of
                   (Inl e, ids) \<Rightarrow> (Some (Inl e), ids)
                 | (Inr _, ids) \<Rightarrow> emit_retired_cids active_dcid_seq seqs cap left w ids)
            | No_room \<Rightarrow> (Some (Inr (w, left)), ids)
            | Push_error e \<Rightarrow> (Some (Inl e), ids)
            | Push_panic \<Rightarrow> (None, ids)))"

text \<open>When a packet with one of the frames is lost, it is to be sent again.\<close>

fun cid_frame_lost :: "'f cid_frame \<Rightarrow> connection_ids \<Rightarrow> (quiche_error + unit) \<times> connection_ids" where
  "cid_frame_lost (NewConnectionId seq_num retire_prior_to conn_id reset_token) ids =
     (Inr (), mark_advertise_new_scid_seq seq_num True ids)"
| "cid_frame_lost (RetireConnectionId seq_num) ids = mark_retire_dcid_seq seq_num True ids"
| "cid_frame_lost (Other_cid_frame f) ids = (Inr (), ids)"

section \<open>The connection\<close>

datatype path_state = Path_failed | Path_unknown | Path_validating | Path_validating_mtu | Path_validated

record cid_path =
  pt_active :: bool
  pt_state :: path_state
  pt_active_scid_seq :: "nat option"
  pt_active_dcid_seq :: "nat option"

definition path_is_active :: "cid_path \<Rightarrow> bool" where
  "path_is_active p \<longleftrightarrow> pt_active p \<and> pt_state p \<noteq> Path_failed \<and> pt_active_dcid_seq p \<noteq> None"

definition path_is_usable :: "cid_path \<Rightarrow> bool" where
  "path_is_usable p \<longleftrightarrow> path_is_active p \<or> pt_state p = Path_validated \<and> pt_active_dcid_seq p \<noteq> None"

text \<open>The paths are a slab: a vector with vacant places, iterated by index.\<close>

record cid_conn =
  cc_ids :: connection_ids
  cc_paths :: "cid_path option list"
  cc_peer_active_conn_id_limit :: nat
  cc_local_active_conn_id_limit :: nat

definition slab_iter :: "cid_path option list \<Rightarrow> (nat \<times> cid_path) list" where
  "slab_iter paths = List.map_filter (\<lambda>(i, p). map_option (Pair i) p) (enumerate 0 paths)"

definition paths_get :: "nat \<Rightarrow> cid_conn \<Rightarrow> quiche_error + cid_path" where
  "paths_get pid c =
     (if pid < length (cc_paths c) then
        (case cc_paths c ! pid of None \<Rightarrow> Inl QUICHE_ERR_INVALID_STATE | Some p \<Rightarrow> Inr p)
      else Inl QUICHE_ERR_INVALID_STATE)"

definition paths_put :: "nat \<Rightarrow> cid_path \<Rightarrow> cid_conn \<Rightarrow> cid_conn" where
  "paths_put pid p c = c\<lparr>cc_paths := (cc_paths c)[pid := Some p]\<rparr>"

definition get_active_with_pid :: "cid_conn \<Rightarrow> (nat \<times> cid_path) option" where
  "get_active_with_pid c = find (\<lambda>(pid, p). path_is_active p) (slab_iter (cc_paths c))"

definition conn_new_scid :: "bytes \<Rightarrow> 128 word \<Rightarrow> bool \<Rightarrow> cid_conn \<Rightarrow> (quiche_error + nat) \<times> cid_conn" where
  "conn_new_scid scid reset_token retire_if_needed c =
     (case ci_new_scid scid (Some reset_token) True None retire_if_needed (cc_ids c) of
        (r, ids) \<Rightarrow> (r, c\<lparr>cc_ids := ids\<rparr>))"

definition scids_left :: "cid_conn \<Rightarrow> nat" where
  "scids_left c =
     min (cc_peer_active_conn_id_limit c) (cc_local_active_conn_id_limit c) - active_source_cids (cc_ids c)"

text \<open>The last part of \<open>retire_dcid\<close>: a path that used the connection ID takes another one, if there is any.\<close>

definition retire_and_relink :: "nat \<Rightarrow> cid_conn \<Rightarrow> (quiche_error + unit) \<times> cid_conn" where
  "retire_and_relink dcid_seq c =
     (case ci_retire_dcid dcid_seq (cc_ids c) of
        (Inl e, ids) \<Rightarrow> (Inl e, c\<lparr>cc_ids := ids\<rparr>)
      | (Inr None, ids) \<Rightarrow> (Inr (), c\<lparr>cc_ids := ids\<rparr>)
      | (Inr (Some pid), ids) \<Rightarrow>
          let c = c\<lparr>cc_ids := ids\<rparr> in
          (case paths_get pid c of
             Inl e \<Rightarrow> (Inl e, c)
           | Inr path \<Rightarrow>
               (case lowest_available_dcid_seq ids of
                  None \<Rightarrow> (Inr (), paths_put pid (path\<lparr>pt_active_dcid_seq := None\<rparr>) c)
                | Some seq \<Rightarrow>
                    (case link_dcid_to_path_id seq pid ids of
                       Inl e \<Rightarrow> (Inl e, c)
                     | Inr ids \<Rightarrow>
                         (Inr (), paths_put pid (path\<lparr>pt_active_dcid_seq := Some seq\<rparr>) (c\<lparr>cc_ids := ids\<rparr>))))))"

definition conn_retire_dcid :: "nat \<Rightarrow> cid_conn \<Rightarrow> (quiche_error + unit) \<times> cid_conn" where
  "conn_retire_dcid dcid_seq c =
     (if ci_zero_length_dcid (cc_ids c) then (Inl QUICHE_ERR_INVALID_STATE, c)
      else (case get_active_with_pid c of
          None \<Rightarrow> (Inl QUICHE_ERR_INVALID_STATE, c)
        | Some (active_path_id, active) \<Rightarrow>
            (case pt_active_dcid_seq active of
               None \<Rightarrow> (Inl QUICHE_ERR_INVALID_STATE, c)
             | Some active_path_dcid_seq \<Rightarrow>
                 if active_path_dcid_seq = dcid_seq \<and> lowest_available_dcid_seq (cc_ids c) = None
                    \<and> \<not> list_ex (\<lambda>(pid, p). pid \<noteq> active_path_id \<and> path_is_usable p) (slab_iter (cc_paths c))
                 then (Inl QUICHE_ERR_OUT_OF_IDENTIFIERS, c)
                 else retire_and_relink dcid_seq c)))"

text \<open>
  A \<open>NEW_CONNECTION_ID\<close> frame: the paths that used a connection ID that is retired take another, then the
  error of \<open>new_dcid\<close> is returned.
\<close>

fun relink_paths :: "(nat \<times> nat) list \<Rightarrow> cid_conn \<Rightarrow> (quiche_error + unit) \<times> cid_conn" where
  "relink_paths [] c = (Inr (), c)"
| "relink_paths ((dcid_seq, pid) # rest) c =
     (case paths_get pid c of
        Inl e \<Rightarrow> (Inl e, c)
      | Inr path \<Rightarrow>
          if pt_active_dcid_seq path \<noteq> Some dcid_seq then relink_paths rest c
          else (case lowest_available_dcid_seq (cc_ids c) of
              Some new_dcid_seq \<Rightarrow>
                let c = paths_put pid (path\<lparr>pt_active_dcid_seq := Some new_dcid_seq\<rparr>) c in
                (case link_dcid_to_path_id new_dcid_seq pid (cc_ids c) of
                   Inl e \<Rightarrow> (Inl e, c)
                 | Inr ids \<Rightarrow> relink_paths rest (c\<lparr>cc_ids := ids\<rparr>))
            | None \<Rightarrow> relink_paths rest (paths_put pid (path\<lparr>pt_active_dcid_seq := None\<rparr>) c)))"

definition process_new_connection_id ::
  "nat \<Rightarrow> nat \<Rightarrow> bytes \<Rightarrow> bytes \<Rightarrow> cid_conn \<Rightarrow> (quiche_error + unit) \<times> cid_conn" where
  "process_new_connection_id seq_num retire_prior_to conn_id reset_token c =
     (if ci_zero_length_dcid (cc_ids c) then (Inl QUICHE_ERR_INVALID_STATE, c)
      else (case ci_new_dcid conn_id seq_num (of_nat (be_nat reset_token)) retire_prior_to (cc_ids c) of
          (r, retired_path_ids, ids) \<Rightarrow>
            (case relink_paths retired_path_ids (c\<lparr>cc_ids := ids\<rparr>) of
               (Inl e, c) \<Rightarrow> (Inl e, c)
             | (Inr _, c) \<Rightarrow> (r, c))))"

text \<open>A \<open>RETIRE_CONNECTION_ID\<close> frame in a packet whose destination connection ID is \<open>pkt_dcid\<close>.\<close>

definition process_retire_connection_id ::
  "nat \<Rightarrow> bytes \<Rightarrow> cid_conn \<Rightarrow> (quiche_error + unit) \<times> cid_conn" where
  "process_retire_connection_id seq_num pkt_dcid c =
     (if ci_zero_length_scid (cc_ids c) then (Inl QUICHE_ERR_INVALID_STATE, c)
      else (case ci_retire_scid seq_num pkt_dcid (cc_ids c) of
          (Inl e, ids) \<Rightarrow> (Inl e, c\<lparr>cc_ids := ids\<rparr>)
        | (Inr None, ids) \<Rightarrow> (Inr (), c\<lparr>cc_ids := ids\<rparr>)
        | (Inr (Some pid), ids) \<Rightarrow>
            let c = c\<lparr>cc_ids := ids\<rparr> in
            (case paths_get pid c of
               Inl e \<Rightarrow> (Inl e, c)
             | Inr path \<Rightarrow>
                 (Inr (), if pt_active_scid_seq path = Some seq_num
                          then paths_put pid (path\<lparr>pt_active_scid_seq := None\<rparr>) c else c))))"

definition source_id :: "cid_conn \<Rightarrow> bytes option" where
  "source_id c =
     (case Option.bind (get_active_with_pid c) (\<lambda>(pid, p). Option.bind (pt_active_scid_seq p) (\<lambda>s. cd_get s (ci_scids (cc_ids c)))) of
        Some e \<Rightarrow> Some (ce_cid e)
      | None \<Rightarrow> map_option ce_cid (cd_get_oldest (ci_scids (cc_ids c))))"

definition destination_id :: "cid_conn \<Rightarrow> bytes option" where
  "destination_id c =
     (case Option.bind (get_active_with_pid c) (\<lambda>(pid, p). Option.bind (pt_active_dcid_seq p) (\<lambda>s. cd_get s (ci_dcids (cc_ids c)))) of
        Some e \<Rightarrow> Some (ce_cid e)
      | None \<Rightarrow> map_option ce_cid (cd_get_oldest (ci_dcids (cc_ids c))))"

section \<open>The C functions\<close>

text \<open>
  The prototypes of \<open>quiche.h\<close>.  \<open>quiche_conn_new_scid\<close> gives the result and, when that is zero, the
  number it writes to \<open>scid_seq\<close>; the reset token is 16 bytes.
\<close>

record 'c quiche_endpoint_ids =
  quiche_conn_source_id :: "'c \<Rightarrow> bytes option"
  quiche_conn_source_ids :: "'c \<Rightarrow> bytes iter"
  quiche_conn_destination_id :: "'c \<Rightarrow> bytes option"

record 'c quiche_connection_ids = "'c quiche_endpoint_ids" +
  quiche_conn_retired_scids_of :: "'c \<Rightarrow> nat"
  quiche_conn_available_dcids :: "'c \<Rightarrow> nat"
  quiche_conn_scids_left :: "'c \<Rightarrow> nat"
  quiche_conn_active_scids :: "'c \<Rightarrow> nat"
  quiche_conn_new_scid :: "'c \<Rightarrow> bytes \<Rightarrow> bytes \<Rightarrow> bool \<Rightarrow> (int \<times> nat option) \<times> 'c"
  quiche_conn_retire_dcid :: "'c \<Rightarrow> nat \<Rightarrow> int \<times> 'c"

definition ffi_new_scid :: "cid_conn \<Rightarrow> bytes \<Rightarrow> bytes \<Rightarrow> bool \<Rightarrow> (int \<times> nat option) \<times> cid_conn" where
  "ffi_new_scid c scid reset_token retire_if_needed =
     (case conn_new_scid scid (of_nat (be_nat reset_token)) retire_if_needed c of
        (Inr seq, c) \<Rightarrow> ((0, Some seq), c)
      | (Inl e, c) \<Rightarrow> ((quiche_error_code e, None), c))"

definition ffi_retire_dcid :: "cid_conn \<Rightarrow> nat \<Rightarrow> int \<times> cid_conn" where
  "ffi_retire_dcid c dcid_seq =
     (case conn_retire_dcid dcid_seq c of (Inr _, c) \<Rightarrow> (0, c) | (Inl e, c) \<Rightarrow> (quiche_error_code e, c))"

definition cid_api :: "cid_conn quiche_connection_ids" where
  "cid_api =
     \<lparr>quiche_conn_source_id = source_id,
      quiche_conn_source_ids = (\<lambda>c. iter_new (map ce_cid (cd_inner (ci_scids (cc_ids c))))),
      quiche_conn_destination_id = destination_id,
      quiche_conn_retired_scids_of = (\<lambda>c. retired_source_cids (cc_ids c)),
      quiche_conn_available_dcids = (\<lambda>c. available_dcids (cc_ids c)),
      quiche_conn_scids_left = scids_left,
      quiche_conn_active_scids = (\<lambda>c. active_source_cids (cc_ids c)),
      quiche_conn_new_scid = ffi_new_scid,
      quiche_conn_retire_dcid = ffi_retire_dcid\<rparr>"

section \<open>What the operations keep\<close>

text \<open>Sequence numbers and connection IDs are distinct, there is at least one entry, and not too many.\<close>

definition cd_ok :: "cid_deque \<Rightarrow> bool" where
  "cd_ok d \<longleftrightarrow> distinct (map ce_seq (cd_inner d)) \<and> distinct (map ce_cid (cd_inner d))
     \<and> cd_inner d \<noteq> [] \<and> length (cd_inner d) \<le> cd_capacity d"

text \<open>What an entry is without its path, which is what linking it leaves alone.\<close>

definition ce_id :: "cid_entry \<Rightarrow> nat \<times> bytes \<times> 128 word option" where
  "ce_id e = (ce_seq e, ce_cid e, ce_reset_token e)"

definition cd_ids :: "cid_deque \<Rightarrow> (nat \<times> bytes \<times> 128 word option) list" where
  "cd_ids d = map ce_id (cd_inner d)"

lemma ce_id_sel [simp]: "fst (ce_id e) = ce_seq e" "fst (snd (ce_id e)) = ce_cid e" "snd (snd (ce_id e)) = ce_reset_token e"
  by (simp_all add: ce_id_def)

lemma cd_ids_maps:
  "map ce_seq (cd_inner d) = map fst (cd_ids d)" "map ce_cid (cd_inner d) = map (fst \<circ> snd) (cd_ids d)"
  "length (cd_inner d) = length (cd_ids d)" "cd_inner d = [] \<longleftrightarrow> cd_ids d = []"
  by (simp_all add: cd_ids_def)

lemma cd_ok_ids: "cd_ok d \<longleftrightarrow> distinct (map fst (cd_ids d)) \<and> distinct (map (fst \<circ> snd) (cd_ids d)) \<and> cd_ids d \<noteq> []
    \<and> length (cd_ids d) \<le> cd_capacity d"
  by (simp only: cd_ok_def cd_ids_maps)

lemma update_first_ids:
  assumes "update_first seq f es = Some es'" and "\<And>e. ce_id (f e) = ce_id e"
  shows "map ce_id es' = map ce_id es"
  using assms(1) by (induction es arbitrary: es') (auto simp: assms(2) split: if_splits)

lemma update_first_None: "update_first seq f es = None \<longleftrightarrow> seq \<notin> ce_seq ` set es"
  by (induction es) auto

lemma cd_update_ids:
  assumes "cd_update seq f d = Some d'" and "\<And>e. ce_id (f e) = ce_id e"
  shows "cd_ids d' = cd_ids d" and "cd_capacity d' = cd_capacity d"
  using assms update_first_ids [of seq f "cd_inner d"] by (auto simp: cd_update_def cd_ids_def)

text \<open>An entry with a new number goes to the end, or there is no room.\<close>

lemma cd_insert_new:
  assumes "ce_seq e \<notin> ce_seq ` set (cd_inner d)"
  shows "cd_insert e d = (if cd_capacity d \<le> length (cd_inner d) then Inl QUICHE_ERR_ID_LIMIT
    else Inr (d\<lparr>cd_inner := cd_inner d @ [e]\<rparr>))"
  using assms update_first_None [of "ce_seq e" "\<lambda>_. e" "cd_inner d"]
  by (simp add: cd_insert_def cd_update_def cd_len_def)

lemma remove_first_cases:
  obtains (absent) "remove_first seq es = (None, es)" and "seq \<notin> ce_seq ` set es"
  | (removed) xs e ys where "remove_first seq es = (Some e, xs @ ys)" and "es = xs @ e # ys" and "ce_seq e = seq"
      and "seq \<notin> ce_seq ` set xs"
proof (induction es arbitrary: thesis)
  case (Cons a es)
  show ?case
  proof (cases "ce_seq a = seq")
    case True
    then show ?thesis using Cons.prems(2) [of a "[]" es] by simp
  next
    case False
    show ?thesis
    proof (rule Cons.IH)
      assume "remove_first seq es = (None, es)" and "seq \<notin> ce_seq ` set es"
      then show ?thesis using Cons.prems(1) False by simp
    next
      fix e xs ys
      assume "remove_first seq es = (Some e, xs @ ys)" "es = xs @ e # ys" "ce_seq e = seq" "seq \<notin> ce_seq ` set xs"
      then show ?thesis using Cons.prems(2) [of e "a # xs" ys] False by simp
    qed
  qed
qed simp

lemma cd_remove_cases:
  assumes "cd_remove seq d = Inr (r, d')"
  obtains (absent) "r = None" and "d' = d" and "seq \<notin> ce_seq ` set (cd_inner d)"
  | (removed) xs e ys where "r = Some e" and "cd_inner d = xs @ e # ys" and "d' = d\<lparr>cd_inner := xs @ ys\<rparr>"
      and "ce_seq e = seq" and "xs @ ys \<noteq> []"
proof -
  have len: "1 < length (cd_inner d)"
    and r: "map_prod id (\<lambda>es. d\<lparr>cd_inner := es\<rparr>) (remove_first seq (cd_inner d)) = (r, d')"
    using assms by (simp_all add: cd_remove_def cd_len_def split: if_splits)
  show thesis
  proof (cases rule: remove_first_cases [of seq "cd_inner d"])
    case absent
    then show ?thesis using r that(1) by simp
  next
    case (removed xs e ys)
    then have "xs @ ys \<noteq> []" using len by auto
    then show ?thesis using removed r that(2) [of e xs ys] by simp
  qed
qed

lemma cd_ok_removed: "cd_ok d \<Longrightarrow> cd_remove seq d = Inr (r, d') \<Longrightarrow> cd_ok d'"
  by (erule cd_remove_cases) (auto simp: cd_ok_def)

lemma cd_ok_resize: "cd_ok d \<Longrightarrow> cd_ok (cd_resize n d)"
  by (simp add: cd_ok_def cd_resize_def)

lemma cd_ok_append:
  assumes "distinct (map ce_seq (cd_inner d))" and "distinct (map ce_cid (cd_inner d))"
    and "find (\<lambda>x. ce_cid x = ce_cid e \<or> ce_seq x = ce_seq e) (cd_inner d) = None"
    and "length (cd_inner d) < cd_capacity d"
  shows "cd_ok (d\<lparr>cd_inner := cd_inner d @ [e]\<rparr>)"
  using assms by (auto simp: cd_ok_def find_None_iff)

text \<open>The lowest of some numbers.\<close>

lemma lowest_None [simp]: "lowest xs = None \<longleftrightarrow> xs = []"
  by (simp add: lowest_def split: list.split)

lemma lowest_Some: "lowest xs = Some n \<longleftrightarrow> n \<in> set xs \<and> (\<forall>x \<in> set xs. n \<le> x)"
proof -
  have f: "fold min ys y = Min (insert y (set ys))" for ys and y :: nat
  proof (induction ys arbitrary: y)
    case (Cons a ys)
    then show ?case by (cases "ys = []") (simp_all add: ac_simps)
  qed simp
  show ?thesis
  proof (cases xs)
    case (Cons y ys)
    then have "lowest xs = Some (Min (set xs))" by (simp add: lowest_def f)
    moreover have "Min (set xs) = n \<longleftrightarrow> n \<in> set xs \<and> (\<forall>x \<in> set xs. n \<le> x)" using Cons by (intro Min_eq_iff) auto
    ultimately show ?thesis by auto
  qed (simp add: lowest_def)
qed

lemma lowest_usable_iff: "lowest_usable_scid_seq ids = Inr n \<longleftrightarrow> n \<in> ce_seq ` set (cd_inner (ci_scids ids))
    \<and> ci_retire_prior_to ids \<le> n
    \<and> (\<forall>e \<in> set (cd_inner (ci_scids ids)). ci_retire_prior_to ids \<le> ce_seq e \<longrightarrow> n \<le> ce_seq e)"
proof -
  have "lowest_usable_scid_seq ids = Inr n \<longleftrightarrow>
      lowest (filter (\<lambda>seq. ci_retire_prior_to ids \<le> seq) (map ce_seq (cd_inner (ci_scids ids)))) = Some n"
    by (cases "lowest (filter (\<lambda>seq. ci_retire_prior_to ids \<le> seq) (map ce_seq (cd_inner (ci_scids ids))))")
      (simp_all only: lowest_usable_scid_seq_def option.case sum.inject sum.distinct option.inject option.distinct)
  then show ?thesis unfolding lowest_Some by fastforce
qed

section \<open>The closure of \<open>retire_prior_to\<close>\<close>

text \<open>
  The numbers that are announced afterwards are some of those retired, and as many as there is room for; only
  \<open>IdLimit\<close> can go wrong.
\<close>

definition ss_ok :: "seq_set \<Rightarrow> bool" where
  "ss_ok s \<longleftrightarrow> finite (ss_inner s) \<and> card (ss_inner s) \<le> ss_capacity s"

lemma ss_insert_ok:
  assumes "ss_insert e s = Inr s'" and "ss_ok s"
  shows "ss_ok s'" and "ss_inner s' = insert e (ss_inner s)" and "ss_capacity s' = ss_capacity s"
  using assms by (auto simp: ss_insert_def ss_ok_def card_insert_if split: if_splits)

lemma ss_insert_error: "ss_insert e s = Inl er \<Longrightarrow> er = QUICHE_ERR_ID_LIMIT"
  by (auto simp: ss_insert_def split: if_splits)

lemma ss_remove_ok: "ss_ok s \<Longrightarrow> ss_ok (ss_remove e s)"
  by (auto simp: ss_remove_def ss_ok_def intro: order_trans card_mono)

lemma retire_fold:
  assumes "fold retire_one es (paths, s, err) = (paths', s', err')" and "ss_ok s"
  shows "ss_ok s' \<and> ss_inner s \<subseteq> ss_inner s' \<and> ss_inner s' \<subseteq> ss_inner s \<union> ce_seq ` set es
    \<and> ss_capacity s' = ss_capacity s \<and> (err' = err \<or> err' = Some QUICHE_ERR_ID_LIMIT)"
  using assms
proof (induction es arbitrary: paths s err)
  case (Cons e es)
  show ?case
  proof (cases "ss_insert (ce_seq e) s")
    case (Inl er)
    then show ?thesis using Cons.IH [of _ s] Cons.prems ss_insert_error [OF Inl]
      by (fastforce simp: Let_def split: option.splits)
  next
    case (Inr s1)
    note ok = ss_insert_ok [OF Inr Cons.prems(2)]
    from Cons.prems(1) Inr obtain p where "fold retire_one es (p, s1, err) = (paths', s', err')"
      by (simp add: Let_def)
    from Cons.IH [OF this ok(1)] ok show ?thesis by auto
  qed
qed simp

section \<open>The invariant\<close>

definition ids_ok :: "connection_ids \<Rightarrow> bool" where
  "ids_ok ids \<longleftrightarrow> cd_ok (ci_scids ids) \<and> cd_ok (ci_dcids ids) \<and> ss_ok (ci_retire_dcid_seqs ids)
     \<and> (\<forall>e \<in> set (cd_inner (ci_scids ids)). ce_seq e < ci_next_scid_seq ids)
     \<and> (\<forall>e \<in> set (cd_inner (ci_dcids ids)). ci_largest_peer_retire_prior_to ids \<le> ce_seq e)
     \<and> ci_retire_prior_to ids \<le> ci_next_scid_seq ids"

text \<open>Only the paths of the entries differ.\<close>

definition relinked :: "connection_ids \<Rightarrow> connection_ids \<Rightarrow> bool" where
  "relinked ids ids' \<longleftrightarrow> (\<exists>d d'. ids' = ids\<lparr>ci_dcids := d, ci_scids := d'\<rparr>
     \<and> cd_ids d = cd_ids (ci_dcids ids) \<and> cd_capacity d = cd_capacity (ci_dcids ids)
     \<and> cd_ids d' = cd_ids (ci_scids ids) \<and> cd_capacity d' = cd_capacity (ci_scids ids))"

lemma relinked_refl: "relinked ids ids"
  unfolding relinked_def by (rule exI [of _ "ci_dcids ids"], rule exI [of _ "ci_scids ids"]) simp

lemma relinked_trans: "relinked a b \<Longrightarrow> relinked b c \<Longrightarrow> relinked a c"
  unfolding relinked_def by force

lemma ball_ids: "(\<forall>e \<in> set (cd_inner d). P (ce_seq e)) \<longleftrightarrow> (\<forall>t \<in> set (cd_ids d). P (fst t))"
  by (simp add: cd_ids_def)

lemma relinked_ok: "relinked ids ids' \<Longrightarrow> ids_ok ids \<Longrightarrow> ids_ok ids'"
  unfolding relinked_def ids_ok_def cd_ok_ids ball_ids [of _ "\<lambda>s. s < n" for n] ball_ids [of _ "\<lambda>s. n \<le> s" for n]
  by force

lemma link_dcid_relinked: "link_dcid_to_path_id seq pid ids = Inr ids' \<Longrightarrow> relinked ids ids'"
proof -
  assume "link_dcid_to_path_id seq pid ids = Inr ids'"
  then obtain d where d: "cd_update seq (\<lambda>e. e\<lparr>ce_path_id := Some pid\<rparr>) (ci_dcids ids) = Some d"
    and i: "ids' = ids\<lparr>ci_dcids := d\<rparr>" by (auto simp: link_dcid_to_path_id_def split: option.splits)
  have "ce_id (e\<lparr>ce_path_id := Some pid\<rparr>) = ce_id e" for e by (simp add: ce_id_def)
  from cd_update_ids [OF d this] show ?thesis
    unfolding relinked_def i by (intro exI [of _ d] exI [of _ "ci_scids ids"]) simp
qed

lemma link_scid_relinked: "link_scid_to_path_id seq pid ids = Inr ids' \<Longrightarrow> relinked ids ids'"
proof -
  assume "link_scid_to_path_id seq pid ids = Inr ids'"
  then obtain d where d: "cd_update seq (\<lambda>e. e\<lparr>ce_path_id := Some pid\<rparr>) (ci_scids ids) = Some d"
    and i: "ids' = ids\<lparr>ci_scids := d\<rparr>" by (auto simp: link_scid_to_path_id_def split: option.splits)
  have "ce_id (e\<lparr>ce_path_id := Some pid\<rparr>) = ce_id e" for e by (simp add: ce_id_def)
  from cd_update_ids [OF d this] show ?thesis
    unfolding relinked_def i by (intro exI [of _ "ci_dcids ids"] exI [of _ d]) simp
qed

lemma relink_paths_relinked:
  "relink_paths l c = (r, c') \<Longrightarrow> relinked (cc_ids c) (cc_ids c') \<and> (r = Inr () \<or> r = Inl QUICHE_ERR_INVALID_STATE)"
proof (induction l c rule: relink_paths.induct)
  case (2 s pid rest c)
  show ?case
  proof (cases "paths_get pid c")
    case (Inl e)
    then show ?thesis using 2(4) relinked_refl by (auto simp: paths_get_def split: if_splits option.splits)
  next
    case (Inr path)
    let ?c = "\<lambda>n. paths_put pid (path\<lparr>pt_active_dcid_seq := n\<rparr>) c"
    have ids: "cc_ids (?c n) = cc_ids c" for n by (simp add: paths_put_def)
    show ?thesis
    proof (cases "pt_active_dcid_seq path = Some s")
      case False
      then show ?thesis using 2(1) [OF Inr] 2(4) Inr by simp
    next
      case used: True
      show ?thesis
      proof (cases "lowest_available_dcid_seq (cc_ids c)")
        case None
        then show ?thesis using 2(2) [OF Inr] used 2(4) Inr ids by simp
      next
        case (Some n)
        show ?thesis
        proof (cases "link_dcid_to_path_id n pid (cc_ids c)")
          case Inl
          then show ?thesis using 2(4) used Some relinked_refl ids \<open>paths_get pid c = Inr path\<close>
            by (auto simp: link_dcid_to_path_id_def Let_def split: option.splits)
        next
          case l: (Inr ids')
          from 2(3) [OF Inr _ Some refl] used l ids 2(4) Inr Some
          have "relinked ids' (cc_ids c') \<and> (r = Inr () \<or> r = Inl QUICHE_ERR_INVALID_STATE)" by (simp add: Let_def)
          then show ?thesis using link_dcid_relinked [OF l] relinked_trans by blast
        qed
      qed
    qed
  qed
qed (simp add: relinked_refl)

section \<open>What each operation does\<close>

lemma ci_new_scid_cases:
  assumes "ci_new_scid cid token advertise pid force ids = (r, ids')" and "ids_ok ids"
  obtains (refused) n where "ids' = ids\<lparr>ci_retire_prior_to := n\<rparr>"
      and "n = ci_retire_prior_to ids \<or> force \<and> (\<exists>m. lowest_usable_scid_seq ids = Inr m \<and> n = m + 1)"
      and "\<And>s. r = Inr s \<Longrightarrow> \<exists>e \<in> set (cd_inner (ci_scids ids)). ce_seq e = s \<and> ce_cid e = cid \<and> ce_reset_token e = token"
  | (added) n where "r = Inr (ci_next_scid_seq ids)" and "cid \<notin> ce_cid ` set (cd_inner (ci_scids ids))"
      and "n = ci_retire_prior_to ids \<or> force \<and> (\<exists>m. lowest_usable_scid_seq ids = Inr m \<and> n = m + 1)"
      and "length (cd_inner (ci_scids ids)) < cd_capacity (ci_scids ids)" and "\<not> ci_zero_length_scid ids"
      and "ids' = mark_advertise_new_scid_seq (ci_next_scid_seq ids) advertise (ids\<lparr>ci_retire_prior_to := n,
        ci_scids := (ci_scids ids)\<lparr>cd_inner := cd_inner (ci_scids ids) @
          [\<lparr>ce_cid = cid, ce_seq = ci_next_scid_seq ids, ce_reset_token = token, ce_path_id = pid\<rparr>]\<rparr>,
        ci_next_scid_seq := ci_next_scid_seq ids + 1\<rparr>)"
proof (cases "\<exists>ids1. \<not> ci_zero_length_scid ids \<and> request_retirement force ids = Inr ids1")
  case False
  then have "ids' = ids" "\<And>s. r \<noteq> Inr s"
    using assms(1) by (auto simp: ci_new_scid_def split: if_splits sum.splits)
  then show ?thesis using refused [of "ci_retire_prior_to ids"] by simp
next
  case True
  then obtain ids1 where nz: "\<not> ci_zero_length_scid ids" and req: "request_retirement force ids = Inr ids1" by blast
  have "\<exists>n. ids1 = ids\<lparr>ci_retire_prior_to := n\<rparr>
      \<and> (n = ci_retire_prior_to ids \<or> force \<and> (\<exists>m. lowest_usable_scid_seq ids = Inr m \<and> n = m + 1))"
  proof (cases "ci_source_conn_id_limit ids \<le> cd_len (ci_scids ids)")
    case True
    then obtain m where "force" "lowest_usable_scid_seq ids = Inr m" "ids1 = ids\<lparr>ci_retire_prior_to := m + 1\<rparr>"
      using req by (auto simp: request_retirement_def split: if_splits sum.splits)
    then show ?thesis by blast
  next
    case False
    then have "ids1 = ids\<lparr>ci_retire_prior_to := ci_retire_prior_to ids\<rparr>" using req by (simp add: request_retirement_def)
    then show ?thesis by blast
  qed
  then obtain n where i1: "ids1 = ids\<lparr>ci_retire_prior_to := n\<rparr>"
    and n: "n = ci_retire_prior_to ids \<or> force \<and> (\<exists>m. lowest_usable_scid_seq ids = Inr m \<and> n = m + 1)" by blast
  let ?e = "\<lparr>ce_cid = cid, ce_seq = ci_next_scid_seq ids, ce_reset_token = token, ce_path_id = pid\<rparr>"
  have fresh: "ce_seq ?e \<notin> ce_seq ` set (cd_inner (ci_scids ids))" using assms(2) by (auto simp: ids_ok_def)
  show ?thesis
  proof (cases "token = None \<and> ci_next_scid_seq ids \<noteq> 0")
    case True
    then have "ids' = ids1" "\<And>s. r \<noteq> Inr s" using assms(1) nz req i1 by (auto simp: ci_new_scid_def Let_def)
    then show ?thesis using refused [OF _ n] i1 by simp
  next
    case tok: False
    show ?thesis
    proof (cases "find (\<lambda>e. ce_cid e = cid) (cd_inner (ci_scids ids))")
      case (Some e)
      then have "e \<in> set (cd_inner (ci_scids ids))" "ce_cid e = cid" by (auto simp: find_Some_iff)
      moreover have "ids' = ids1" "r = (if ce_reset_token e \<noteq> token then Inl QUICHE_ERR_INVALID_STATE else Inr (ce_seq e))"
        using assms(1) nz req i1 tok Some by (auto simp: ci_new_scid_def Let_def split: if_splits)
      ultimately show ?thesis using refused [OF _ n] i1 by (auto split: if_splits)
    next
      case None
      then have new: "cid \<notin> ce_cid ` set (cd_inner (ci_scids ids))" by (auto simp: find_None_iff)
      show ?thesis
      proof (cases "cd_capacity (ci_scids ids) \<le> length (cd_inner (ci_scids ids))")
        case True
        then have "ids' = ids1" "r = Inl QUICHE_ERR_ID_LIMIT"
          using assms(1) nz req i1 tok None cd_insert_new [OF fresh] by (auto simp: ci_new_scid_def Let_def)
        then show ?thesis using refused [OF _ n] i1 by simp
      next
        case False
        then show ?thesis using added [OF _ new n _ nz] assms(1) nz req i1 tok None cd_insert_new [OF fresh]
          by (auto simp: ci_new_scid_def Let_def)
      qed
    qed
  qed
qed

lemma insert_dcid_cases:
  assumes "insert_dcid e err ids = (r, ids')" and "ce_seq e \<notin> ce_seq ` set (cd_inner (ci_dcids ids))"
  obtains (full) "cd_capacity (ci_dcids ids) \<le> length (cd_inner (ci_dcids ids))" "r = Inl QUICHE_ERR_ID_LIMIT" "ids' = ids"
  | (room) "length (cd_inner (ci_dcids ids)) < cd_capacity (ci_dcids ids)" "r = (case err of Some e \<Rightarrow> Inl e | None \<Rightarrow> Inr ())"
      "ids' = ids\<lparr>ci_dcids := (ci_dcids ids)\<lparr>cd_inner := cd_inner (ci_dcids ids) @ [e]\<rparr>\<rparr>"
  using assms cd_insert_new [OF assms(2)] by (auto simp: insert_dcid_def split: if_splits)

text \<open>
  A connection ID of the peer that is stored: those below \<open>retire_prior_to\<close> are gone first, and it is last,
  if there is room.
\<close>

definition stored_dcids :: "bytes \<Rightarrow> nat \<Rightarrow> 128 word \<Rightarrow> nat \<Rightarrow> cid_deque \<Rightarrow> cid_deque" where
  "stored_dcids cid seq token rpt d =
     (let es = filter (\<lambda>e. \<not> ce_seq e < rpt) (cd_inner d) in
      d\<lparr>cd_inner := (if cd_capacity d \<le> length es then es
        else es @ [\<lparr>ce_cid = cid, ce_seq = seq, ce_reset_token = Some token, ce_path_id = None\<rparr>])\<rparr>)"

lemma ci_new_dcid_cases:
  assumes "ci_new_dcid cid seq token rpt ids = (r, paths, ids')" and "ids_ok ids"
  obtains (zero) "ci_zero_length_dcid ids" "r = Inl QUICHE_ERR_INVALID_STATE" "ids' = ids"
  | (known) e where "\<not> ci_zero_length_dcid ids" "e \<in> set (cd_inner (ci_dcids ids))" "ce_cid e = cid \<or> ce_seq e = seq" "ids' = ids"
      "r = (if ce_id e = (seq, cid, Some token) then Inr () else Inl QUICHE_ERR_INVALID_FRAME)"
  | (bad) "seq < rpt" "r = Inl QUICHE_ERR_INVALID_FRAME" "ids' = ids"
  | (late) s where "seq < ci_largest_peer_retire_prior_to ids" "ids' = ids\<lparr>ci_retire_dcid_seqs := s\<rparr>" "ss_ok s"
      "ss_inner s \<subseteq> insert seq (ss_inner (ci_retire_dcid_seqs ids))" "ss_capacity s = ss_capacity (ci_retire_dcid_seqs ids)"
      "r = Inr () \<or> r = Inl QUICHE_ERR_ID_LIMIT"
  | (stored) s l where "\<forall>e \<in> set (cd_inner (ci_dcids ids)). ce_cid e \<noteq> cid \<and> ce_seq e \<noteq> seq" "rpt \<le> seq"
      "ci_largest_peer_retire_prior_to ids \<le> seq" "\<not> ci_zero_length_dcid ids"
      "ids' = ids\<lparr>ci_largest_destination_seq := l, ci_dcids := stored_dcids cid seq token rpt (ci_dcids ids),
        ci_retire_dcid_seqs := s, ci_largest_peer_retire_prior_to := max (ci_largest_peer_retire_prior_to ids) rpt\<rparr>"
      "ss_ok s" "ss_inner s \<subseteq> ss_inner (ci_retire_dcid_seqs ids) \<union> ce_seq ` set (cd_inner (ci_dcids ids))"
      "ss_capacity s = ss_capacity (ci_retire_dcid_seqs ids)" "r = Inr () \<or> r = Inl QUICHE_ERR_ID_LIMIT"
proof (cases "ci_zero_length_dcid ids")
  case True
  then have "r = Inl QUICHE_ERR_INVALID_STATE" "ids' = ids" using assms(1) by (simp_all add: ci_new_dcid_def)
  with True show ?thesis by (rule zero)
next
  case nz: False
  let ?es = "cd_inner (ci_dcids ids)"
  have ss: "ss_ok (ci_retire_dcid_seqs ids)" using assms(2) by (simp add: ids_ok_def)
  show ?thesis
  proof (cases "find (\<lambda>e. ce_cid e = cid \<or> ce_seq e = seq) ?es")
    case (Some e)
    then have "e \<in> set ?es" "ce_cid e = cid \<or> ce_seq e = seq" by (auto simp: find_Some_iff)
    moreover have "ids' = ids \<and> r = (if ce_id e = (seq, cid, Some token) then Inr () else Inl QUICHE_ERR_INVALID_FRAME)"
    proof (cases "ce_id e = (seq, cid, Some token)")
      case True
      then show ?thesis using assms(1) nz Some by (simp add: ci_new_dcid_def ce_id_def)
    next
      case False
      then have "ce_cid e \<noteq> cid \<or> ce_seq e \<noteq> seq \<or> ce_reset_token e \<noteq> Some token" by (auto simp: ce_id_def)
      then show ?thesis using assms(1) nz Some False by (simp add: ci_new_dcid_def)
    qed
    ultimately show ?thesis using known nz by blast
  next
    case None
    then have new: "\<forall>e \<in> set ?es. ce_cid e \<noteq> cid \<and> ce_seq e \<noteq> seq" by (auto simp: find_None_iff)
    show ?thesis
    proof (cases "seq < rpt")
      case True
      then have "r = Inl QUICHE_ERR_INVALID_FRAME" "ids' = ids" using assms(1) nz None by (simp_all add: ci_new_dcid_def)
      with True show ?thesis by (rule bad)
    next
      case order: False
      show ?thesis
      proof (cases "seq < ci_largest_peer_retire_prior_to ids")
        case True
        show ?thesis
        proof (cases "ss_insert seq (ci_retire_dcid_seqs ids)")
          case (Inl e)
          then have "r = Inl e" "ids' = ids\<lparr>ci_retire_dcid_seqs := ci_retire_dcid_seqs ids\<rparr>"
            using assms(1) nz None order True by (simp_all add: ci_new_dcid_def mark_retire_dcid_seq_def)
          then show ?thesis using late [OF True _ ss] ss_insert_error [OF Inl] by blast
        next
          case (Inr s)
          note ok = ss_insert_ok [OF Inr ss]
          have "r = Inr ()" "ids' = ids\<lparr>ci_retire_dcid_seqs := s\<rparr>"
            using assms(1) nz None order True Inr by (simp_all add: ci_new_dcid_def mark_retire_dcid_seq_def)
          then show ?thesis using late [OF True _ ok(1)] ok(2,3) by blast
        qed
      next
        case below: False
        define l where "l = (if ci_largest_destination_seq ids < seq then seq else ci_largest_destination_seq ids)"
        define ids1 where "ids1 = ids\<lparr>ci_largest_destination_seq := l\<rparr>"
        let ?e = "\<lparr>ce_cid = cid, ce_seq = seq, ce_reset_token = Some token, ce_path_id = None\<rparr>"
        have i1: "(if ci_largest_destination_seq ids < seq then ids\<lparr>ci_largest_destination_seq := seq\<rparr> else ids) = ids1"
          by (simp add: ids1_def l_def)
        show ?thesis
        proof (cases "ci_largest_peer_retire_prior_to ids < rpt")
          case more: True
          obtain ps s err where fold: "fold retire_one (filter (\<lambda>e. ce_seq e < rpt) ?es) ([], ci_retire_dcid_seqs ids, None) =
              (ps, s, err)" using prod_cases3 by blast
          from retire_fold [OF fold ss] have s: "ss_ok s" "ss_inner s \<subseteq> ss_inner (ci_retire_dcid_seqs ids) \<union> ce_seq ` set ?es"
            "ss_capacity s = ss_capacity (ci_retire_dcid_seqs ids)" "err = None \<or> err = Some QUICHE_ERR_ID_LIMIT" by auto
          define ids2 where "ids2 = ids1\<lparr>ci_dcids := (ci_dcids ids)\<lparr>cd_inner := filter (\<lambda>e. \<not> ce_seq e < rpt) ?es\<rparr>,
            ci_retire_dcid_seqs := s, ci_largest_peer_retire_prior_to := rpt\<rparr>"
          have "insert_dcid ?e err ids2 = (r, ids')"
            using assms(1) nz None order below more fold i1
            by (auto simp: ci_new_dcid_def cd_retire_prior_to_def ids2_def ids1_def Let_def split: prod.splits)
          moreover have "ce_seq ?e \<notin> ce_seq ` set (cd_inner (ci_dcids ids2))" using new by (auto simp: ids2_def)
          ultimately show ?thesis
            by (cases rule: insert_dcid_cases; intro stored [OF new _ _ nz, of s l])
              (use order below more s in \<open>auto simp: ids2_def ids1_def stored_dcids_def Let_def\<close>)
        next
          case False
          have all: "filter (\<lambda>e. \<not> ce_seq e < rpt) ?es = ?es"
            using assms(2) False by (auto simp: ids_ok_def filter_id_conv)
          have "insert_dcid ?e None ids1 = (r, ids')"
            using assms(1) nz None order below False i1
            by (auto simp: ci_new_dcid_def ids1_def Let_def split: prod.splits)
          moreover have "ce_seq ?e \<notin> ce_seq ` set (cd_inner (ci_dcids ids1))" using new by (auto simp: ids1_def)
          ultimately show ?thesis
            by (cases rule: insert_dcid_cases; intro stored [OF new _ _ nz, of "ci_retire_dcid_seqs ids" l])
              (use order below False ss all in \<open>auto simp: ids1_def stored_dcids_def Let_def max_def\<close>)
        qed
      qed
    qed
  qed
qed

lemma stored_dcids_ok:
  assumes "cd_ok d" and "\<forall>e \<in> set (cd_inner d). ce_cid e \<noteq> cid \<and> ce_seq e \<noteq> seq"
  shows "cd_ok (stored_dcids cid seq token rpt d)"
proof (cases "cd_capacity d \<le> length (filter (\<lambda>e. \<not> ce_seq e < rpt) (cd_inner d))")
  case True
  then have "filter (\<lambda>e. \<not> ce_seq e < rpt) (cd_inner d) \<noteq> []" using assms(1) by (auto simp: cd_ok_def)
  moreover have "length (filter (\<lambda>e. \<not> ce_seq e < rpt) (cd_inner d)) \<le> cd_capacity d"
    using assms(1) unfolding cd_ok_def by (meson length_filter_le order_trans)
  ultimately show ?thesis using True assms(1) by (simp add: stored_dcids_def Let_def cd_ok_def distinct_map_filter)
next
  case False
  then show ?thesis using assms
    by (auto simp: stored_dcids_def Let_def cd_ok_def distinct_map_filter)
qed

lemma ids_ok_new_dcid: "ci_new_dcid cid seq token rpt ids = (r, paths, ids') \<Longrightarrow> ids_ok ids \<Longrightarrow> ids_ok ids'"
proof (erule ci_new_dcid_cases, assumption)
  fix s l
  assume ok: "ids_ok ids" and new: "\<forall>e \<in> set (cd_inner (ci_dcids ids)). ce_cid e \<noteq> cid \<and> ce_seq e \<noteq> seq"
    and le: "rpt \<le> seq" "ci_largest_peer_retire_prior_to ids \<le> seq" and "ss_ok s"
    and i: "ids' = ids\<lparr>ci_largest_destination_seq := l, ci_dcids := stored_dcids cid seq token rpt (ci_dcids ids),
        ci_retire_dcid_seqs := s, ci_largest_peer_retire_prior_to := max (ci_largest_peer_retire_prior_to ids) rpt\<rparr>"
  have "cd_ok (stored_dcids cid seq token rpt (ci_dcids ids))"
    by (rule stored_dcids_ok [OF _ new]) (use ok in \<open>simp add: ids_ok_def\<close>)
  moreover have "\<forall>e \<in> set (cd_inner (stored_dcids cid seq token rpt (ci_dcids ids))).
      max (ci_largest_peer_retire_prior_to ids) rpt \<le> ce_seq e"
    using ok le by (auto simp: ids_ok_def stored_dcids_def Let_def)
  ultimately show "ids_ok ids'" using ok \<open>ss_ok s\<close> by (simp add: ids_ok_def i)
qed (simp_all add: ids_ok_def)

lemma mark_advertise_fields [simp]:
  "ci_scids (mark_advertise_new_scid_seq s b ids) = ci_scids ids"
  "ci_dcids (mark_advertise_new_scid_seq s b ids) = ci_dcids ids"
  "ci_retire_dcid_seqs (mark_advertise_new_scid_seq s b ids) = ci_retire_dcid_seqs ids"
  "ci_next_scid_seq (mark_advertise_new_scid_seq s b ids) = ci_next_scid_seq ids"
  "ci_retire_prior_to (mark_advertise_new_scid_seq s b ids) = ci_retire_prior_to ids"
  "ci_largest_peer_retire_prior_to (mark_advertise_new_scid_seq s b ids) = ci_largest_peer_retire_prior_to ids"
  "ci_zero_length_scid (mark_advertise_new_scid_seq s b ids) = ci_zero_length_scid ids"
  "ci_retired_scids (mark_advertise_new_scid_seq s b ids) = ci_retired_scids ids"
  by (simp_all add: mark_advertise_new_scid_seq_def)

lemma ids_ok_new_scid:
  assumes "ci_new_scid cid token advertise pid force ids = (r, ids')" and ok: "ids_ok ids"
  shows "ids_ok ids'"
  using assms
proof (cases rule: ci_new_scid_cases)
  case (refused n)
  have "n \<le> ci_next_scid_seq ids" using refused(2) ok by (auto simp: ids_ok_def lowest_usable_iff)
  then show ?thesis using ok by (simp add: ids_ok_def refused(1))
next
  case (added n)
  let ?d = "(ci_scids ids)\<lparr>cd_inner := cd_inner (ci_scids ids) @
    [\<lparr>ce_cid = cid, ce_seq = ci_next_scid_seq ids, ce_reset_token = token, ce_path_id = pid\<rparr>]\<rparr>"
  have n: "n \<le> ci_next_scid_seq ids" using added(3) ok by (auto simp: ids_ok_def lowest_usable_iff)
  have "cd_ok ?d" by (rule cd_ok_append) (use ok added(2,4) in \<open>auto simp: ids_ok_def cd_ok_def find_None_iff\<close>)
  moreover have "\<forall>e \<in> set (cd_inner ?d). ce_seq e < ci_next_scid_seq ids + 1" using ok by (auto simp: ids_ok_def)
  ultimately show ?thesis using ok n unfolding added(6) ids_ok_def by simp
qed

lemma mark_retire_cases:
  assumes "mark_retire_dcid_seq seq b ids = (r, ids')" and "ss_ok (ci_retire_dcid_seqs ids)"
  obtains s where "ids' = ids\<lparr>ci_retire_dcid_seqs := s\<rparr>" and "ss_ok s" and "ss_capacity s = ss_capacity (ci_retire_dcid_seqs ids)"
    and "ss_inner s \<subseteq> (if b then insert seq else id) (ss_inner (ci_retire_dcid_seqs ids))"
    and "r = Inr () \<or> r = Inl QUICHE_ERR_ID_LIMIT" and "r = Inr () \<Longrightarrow> b \<Longrightarrow> seq \<in> ss_inner s"
proof (cases b)
  case True
  show ?thesis
  proof (cases "ss_insert seq (ci_retire_dcid_seqs ids)")
    case (Inl e)
    then show ?thesis using assms True ss_insert_error [OF Inl] that [of "ci_retire_dcid_seqs ids"]
      by (auto simp: mark_retire_dcid_seq_def)
  next
    case (Inr s)
    then show ?thesis using assms True ss_insert_ok [OF Inr assms(2)] that [of s] by (auto simp: mark_retire_dcid_seq_def)
  qed
next
  case False
  then show ?thesis using assms ss_remove_ok [OF assms(2), of seq] that [of "ss_remove seq (ci_retire_dcid_seqs ids)"]
    by (auto simp: mark_retire_dcid_seq_def ss_remove_def)
qed

lemma ids_ok_mark_retire: "mark_retire_dcid_seq seq b ids = (r, ids') \<Longrightarrow> ids_ok ids \<Longrightarrow> ids_ok ids'"
  by (erule mark_retire_cases) (simp_all add: ids_ok_def)

lemma ci_retire_scid_cases:
  assumes "ci_retire_scid seq d ids = (r, ids')"
  obtains (unknown) "ci_next_scid_seq ids \<le> seq" "r = Inl QUICHE_ERR_INVALID_STATE" "ids' = ids"
  | (last) "r = Inl QUICHE_ERR_OUT_OF_IDENTIFIERS" "ids' = ids"
  | (absent) "r = Inr None" "ids' = ids" "seq \<notin> ce_seq ` set (cd_inner (ci_scids ids))"
  | (removed) xs e ys n cids where "cd_inner (ci_scids ids) = xs @ e # ys" "ce_seq e = seq" "xs @ ys \<noteq> []" "seq < ci_next_scid_seq ids"
      "ids' = ids\<lparr>ci_scids := (ci_scids ids)\<lparr>cd_inner := xs @ ys\<rparr>, ci_retired_scids := cids, ci_retire_prior_to := n\<rparr>"
      "n = ci_retire_prior_to ids \<or> n \<in> ce_seq ` set (xs @ ys) \<and>
         (\<forall>x \<in> set (xs @ ys). ci_retire_prior_to ids \<le> ce_seq x \<longrightarrow> n \<le> ce_seq x)"
      "r = Inl QUICHE_ERR_INVALID_STATE \<longrightarrow> ce_cid e = d \<or> (\<forall>x \<in> set (xs @ ys). ce_seq x < ci_retire_prior_to ids)"
      "cids = ci_retired_scids ids @ (if ce_cid e = d then [] else [ce_cid e])"
      "r = Inl QUICHE_ERR_INVALID_STATE \<or> r = Inr (ce_path_id e)"
proof (cases "ci_next_scid_seq ids \<le> seq")
  case True
  then have "r = Inl QUICHE_ERR_INVALID_STATE" "ids' = ids" using assms by (simp_all add: ci_retire_scid_def)
  with True show ?thesis by (rule unknown)
next
  case lt: False
  show ?thesis
  proof (cases "cd_remove seq (ci_scids ids)")
    case (Inl e)
    then have "e = QUICHE_ERR_OUT_OF_IDENTIFIERS" by (auto simp: cd_remove_def split: if_splits)
    then have "r = Inl QUICHE_ERR_OUT_OF_IDENTIFIERS" "ids' = ids" using assms lt Inl by (simp_all add: ci_retire_scid_def)
    then show ?thesis by (rule last)
  next
    case (Inr q)
    obtain eo d' where q: "q = (eo, d')" by fastforce
    from Inr [unfolded q] show ?thesis
    proof (cases rule: cd_remove_cases)
      case a: absent
      then have "r = Inr None" "ids' = ids" using assms lt Inr q by (auto simp: ci_retire_scid_def)
      then show ?thesis using a(3) by (rule absent)
    next
      case (removed xs e ys)
      have seq: "seq < ci_next_scid_seq ids" using lt by simp
      let ?i1 = "ids\<lparr>ci_scids := (ci_scids ids)\<lparr>cd_inner := xs @ ys\<rparr>\<rparr>"
      let ?i2 = "?i1\<lparr>ci_retired_scids := ci_retired_scids ids @ [ce_cid e]\<rparr>"
      show ?thesis
      proof (cases "ce_cid e = d")
        case True
        then have "r = Inl QUICHE_ERR_INVALID_STATE" "ids' = ?i1" using assms lt Inr q removed by (auto simp: ci_retire_scid_def Let_def)
        then show ?thesis
          by (intro that(4) [OF removed(2,4,5) seq, of "ci_retire_prior_to ids" "ci_retired_scids ids"]) (simp_all add: True)
      next
        case False
        show ?thesis
        proof (cases "lowest_usable_scid_seq ?i2")
          case l: (Inl er)
          then have er: "er = QUICHE_ERR_INVALID_STATE" and none: "\<forall>x \<in> set (xs @ ys). ce_seq x < ci_retire_prior_to ids"
            by (auto simp: lowest_usable_scid_seq_def filter_empty_conv not_le split: option.splits)
          have "r = Inl QUICHE_ERR_INVALID_STATE" "ids' = ?i2"
            using assms lt Inr q removed False l er by (auto simp: ci_retire_scid_def Let_def)
          then show ?thesis
            by (intro that(4) [OF removed(2,4,5) seq, of "ci_retire_prior_to ids" "ci_retired_scids ids @ [ce_cid e]"])
              (simp_all add: False none)
        next
          case l: (Inr n)
          have "r = Inr (ce_path_id e)" "ids' = ?i2\<lparr>ci_retire_prior_to := n\<rparr>"
            using assms lt Inr q removed False l by (auto simp: ci_retire_scid_def Let_def)
          then show ?thesis
            by (intro that(4) [OF removed(2,4,5) seq, of n "ci_retired_scids ids @ [ce_cid e]"])
              (use False l [unfolded lowest_usable_iff] in simp_all)
        qed
      qed
    qed
  qed
qed

lemma ids_ok_retire_scid:
  assumes "ci_retire_scid seq d ids = (r, ids')" and ok: "ids_ok ids"
  shows "ids_ok ids'"
  using assms(1)
proof (cases rule: ci_retire_scid_cases)
  case (removed xs e ys n cids)
  have c: "cd_ok ((ci_scids ids)\<lparr>cd_inner := xs @ ys\<rparr>)"
    using ok removed(1,3) by (auto simp: ids_ok_def cd_ok_def)
  have lt: "\<forall>x \<in> set (xs @ ys). ce_seq x < ci_next_scid_seq ids" using ok removed(1) by (auto simp: ids_ok_def)
  then have "n \<le> ci_next_scid_seq ids" using removed(6) ok by (auto simp: ids_ok_def intro: less_imp_le)
  then show ?thesis using ok c lt by (simp add: ids_ok_def removed(5))
qed (use ok in simp_all)

lemma ci_retire_dcid_cases:
  assumes "ci_retire_dcid seq ids = (r, ids')" and "ids_ok ids"
  obtains (refused) er where "r = Inl er" "ids' = ids" "er = QUICHE_ERR_INVALID_STATE \<or> er = QUICHE_ERR_OUT_OF_IDENTIFIERS"
  | (removed) xs e ys s where "cd_inner (ci_dcids ids) = xs @ e # ys" "ce_seq e = seq" "xs @ ys \<noteq> []"
      "\<not> ci_zero_length_dcid ids"
      "ids' = ids\<lparr>ci_dcids := (ci_dcids ids)\<lparr>cd_inner := xs @ ys\<rparr>, ci_retire_dcid_seqs := s\<rparr>" "ss_ok s"
      "ss_inner s \<subseteq> insert seq (ss_inner (ci_retire_dcid_seqs ids))" "ss_capacity s = ss_capacity (ci_retire_dcid_seqs ids)"
      "r = Inr (ce_path_id e) \<and> seq \<in> ss_inner s \<or> r = Inl QUICHE_ERR_ID_LIMIT"
proof (cases "ci_zero_length_dcid ids")
  case True
  then have "r = Inl QUICHE_ERR_INVALID_STATE" "ids' = ids" using assms by (simp_all add: ci_retire_dcid_def)
  then show ?thesis using refused by blast
next
  case nz: False
  show ?thesis
  proof (cases "cd_remove seq (ci_dcids ids)")
    case (Inl e)
    then have "e = QUICHE_ERR_OUT_OF_IDENTIFIERS" by (auto simp: cd_remove_def split: if_splits)
    then have "r = Inl QUICHE_ERR_OUT_OF_IDENTIFIERS" "ids' = ids" using assms nz Inl by (simp_all add: ci_retire_dcid_def)
    then show ?thesis using refused by blast
  next
    case (Inr q)
    obtain eo d' where q: "q = (eo, d')" by fastforce
    from Inr [unfolded q] show ?thesis
    proof (cases rule: cd_remove_cases)
      case absent
      then have "r = Inl QUICHE_ERR_INVALID_STATE" "ids' = ids" using assms nz Inr q by (auto simp: ci_retire_dcid_def)
      then show ?thesis using refused by blast
    next
      case gone: (removed xs e ys)
      let ?i = "ids\<lparr>ci_dcids := (ci_dcids ids)\<lparr>cd_inner := xs @ ys\<rparr>\<rparr>"
      obtain r1 i1 where m: "mark_retire_dcid_seq seq True ?i = (r1, i1)" by fastforce
      have "ss_ok (ci_retire_dcid_seqs ?i)" using assms(2) by (simp add: ids_ok_def)
      from m this show ?thesis
      proof (cases rule: mark_retire_cases)
        case (1 s)
        have "ids' = i1" "r = (case r1 of Inl er \<Rightarrow> Inl er | Inr _ \<Rightarrow> Inr (ce_path_id e))"
          using assms nz Inr q gone m by (auto simp: ci_retire_dcid_def split: sum.splits)
        then show ?thesis using 1 by (intro removed [OF gone(2,4,5) nz, of s]) auto
      qed
    qed
  qed
qed

lemma ids_ok_retire_dcid:
  assumes "ci_retire_dcid seq ids = (r, ids')" and ok: "ids_ok ids"
  shows "ids_ok ids'"
  using assms
proof (cases rule: ci_retire_dcid_cases)
  case (removed xs e ys s)
  have "cd_ok ((ci_dcids ids)\<lparr>cd_inner := xs @ ys\<rparr>)" using ok removed(1,3) by (auto simp: ids_ok_def cd_ok_def)
  then show ?thesis using ok removed(1,6) by (auto simp: ids_ok_def removed(5))
qed (use ok in simp)

lemma emit_new_cids_frame:
  "emit_new_cids cap left w ids = (r, ids') \<Longrightarrow> \<exists>l. ids' = ids\<lparr>ci_advertise_new_scid_seqs := l\<rparr>"
proof (induction cap left w ids arbitrary: r ids' rule: emit_new_cids.induct)
  case (1 cap left w ids)
  note sim = emit_new_cids.simps [of cap left w ids]
  show ?case
  proof (cases "\<exists>s f left' w'. next_advertise_new_scid_seq ids = Some s \<and> get_new_connection_id_frame_for s ids = Inr f
      \<and> push_frame f cap left w = Pushed left' w'")
    case True
    then obtain s f left' w' where p: "next_advertise_new_scid_seq ids = Some s" "get_new_connection_id_frame_for s ids = Inr f"
      "push_frame f cap left w = Pushed left' w'" by blast
    then have "emit_new_cids cap left' w' (mark_advertise_new_scid_seq s False ids) = (r, ids')" using 1(2) sim by simp
    from 1(1) [OF p this] show ?thesis by (auto simp: mark_advertise_new_scid_seq_def)
  next
    case False
    then have "ids' = ids" using 1(2) unfolding sim by (auto split: option.splits sum.splits push_result.splits)
    then show ?thesis by (intro exI [of _ "ci_advertise_new_scid_seqs ids"]) simp
  qed
qed

lemma emit_retired_cids_frame:
  "emit_retired_cids active seqs cap left w ids = (r, ids') \<Longrightarrow> ss_ok (ci_retire_dcid_seqs ids) \<Longrightarrow>
     \<exists>s. ids' = ids\<lparr>ci_retire_dcid_seqs := s\<rparr> \<and> ss_ok s \<and> ss_inner s \<subseteq> ss_inner (ci_retire_dcid_seqs ids)
       \<and> ss_capacity s = ss_capacity (ci_retire_dcid_seqs ids)"
proof (induction active seqs cap left w ids arbitrary: r ids' rule: emit_retired_cids.induct)
  case (2 active s seqs cap left w ids)
  let ?i = "ids\<lparr>ci_retire_dcid_seqs := ss_remove s (ci_retire_dcid_seqs ids)\<rparr>"
  have same: "\<exists>t. ids = ids\<lparr>ci_retire_dcid_seqs := t\<rparr> \<and> ss_ok t \<and> ss_inner t \<subseteq> ss_inner (ci_retire_dcid_seqs ids)
      \<and> ss_capacity t = ss_capacity (ci_retire_dcid_seqs ids)"
    using 2(4) by (intro exI [of _ "ci_retire_dcid_seqs ids"]) simp
  have m: "mark_retire_dcid_seq s False ids = (Inr (), ?i)" by (simp add: mark_retire_dcid_seq_def)
  show ?case
  proof (cases active)
    case None
    then show ?thesis using 2(3) same by simp
  next
    case (Some a)
    show ?thesis
    proof (cases "s = a")
      case True
      then show ?thesis using 2(1) [OF Some True] 2(3,4) Some by simp
    next
      case False
      show ?thesis
      proof (cases "push_frame (RetireConnectionId s) cap left w")
        case (Pushed left' w')
        then have "emit_retired_cids active seqs cap left' w' ?i = (r, ids')" using 2(3) Some False m by simp
        from 2(2) [OF Some False Pushed m [symmetric] refl this] ss_remove_ok [OF 2(4), of s]
        show ?thesis by (auto simp: ss_remove_def)
      qed (use 2(3) Some False same in simp_all)
    qed
  qed
next
  case (1 active cap left w ids)
  then show ?case by (intro exI [of _ "ci_retire_dcid_seqs ids"]) simp
qed

lemma ids_ok_new:
  "ids_ok (ci_set_initial_dcid dcid t p (ci_new n scid pid token))"
  by (auto simp: ids_ok_def ci_set_initial_dcid_def ci_new_def Let_def cd_ok_def cd_new_def cd_clear_and_insert_def ss_new_def ss_ok_def)

lemma ids_ok_limit: "ids_ok ids \<Longrightarrow> ids_ok (set_source_conn_id_limit v ids)"
  using cd_ok_resize [of "ci_scids ids"] by (simp add: ids_ok_def set_source_conn_id_limit_def Let_def cd_resize_def)

lemma ids_ok_advertise: "ids_ok ids \<Longrightarrow> ids_ok (ids\<lparr>ci_advertise_new_scid_seqs := l\<rparr>)"
  by (simp add: ids_ok_def)

lemma ids_ok_retired: "ids_ok ids \<Longrightarrow> ids_ok (ids\<lparr>ci_retired_scids := l\<rparr>)"
  by (simp add: ids_ok_def)

section \<open>The connection functions\<close>

lemma conn_retire_dcid_cases:
  assumes "conn_retire_dcid seq c = (r, c')"
  obtains (refused) er where "r = Inl er" "cc_ids c' = cc_ids c"
  | (called) q ids where "ci_retire_dcid seq (cc_ids c) = (q, ids)" "relinked ids (cc_ids c')"
      "r = Inr () \<longrightarrow> (\<exists>p. q = Inr p)"
proof -
  have "(\<exists>er. conn_retire_dcid seq c = (Inl er, c)) \<or> conn_retire_dcid seq c = retire_and_relink seq c"
    by (simp add: conn_retire_dcid_def split: option.split prod.split)
  then consider (early) er where "conn_retire_dcid seq c = (Inl er, c)" | (go) "conn_retire_dcid seq c = retire_and_relink seq c"
    by blast
  then show thesis
  proof cases
    case early
    then show ?thesis using assms refused by auto
  next
    case go
    obtain q ids where q: "ci_retire_dcid seq (cc_ids c) = (q, ids)" by fastforce
    have "relinked ids (cc_ids c')"
      using assms go q relinked_refl link_dcid_relinked
      by (auto simp: retire_and_relink_def Let_def paths_put_def split: sum.splits option.splits)
    moreover have "r = Inr () \<longrightarrow> (\<exists>p. q = Inr p)"
      using assms go q by (cases q) (auto simp: retire_and_relink_def)
    ultimately show ?thesis using called q by blast
  qed
qed

lemma process_new_cid_cases:
  assumes "process_new_connection_id seq rpt cid token c = (r, c')"
  obtains (zero) "ci_zero_length_dcid (cc_ids c)" "r = Inl QUICHE_ERR_INVALID_STATE" "c' = c"
  | (called) q paths ids where "ci_new_dcid cid seq (of_nat (be_nat token)) rpt (cc_ids c) = (q, paths, ids)"
      "relinked ids (cc_ids c')" "r = q \<or> r = Inl QUICHE_ERR_INVALID_STATE"
proof (cases "ci_zero_length_dcid (cc_ids c)")
  case True
  then have "r = Inl QUICHE_ERR_INVALID_STATE" "c' = c" using assms by (simp_all add: process_new_connection_id_def)
  with True show ?thesis by (rule zero)
next
  case False
  obtain q paths ids where q: "ci_new_dcid cid seq (of_nat (be_nat token)) rpt (cc_ids c) = (q, paths, ids)"
    using prod_cases3 by blast
  obtain r1 c1 where l: "relink_paths paths (c\<lparr>cc_ids := ids\<rparr>) = (r1, c1)" by fastforce
  from relink_paths_relinked [OF l] have "relinked ids (cc_ids c1)" "r1 = Inr () \<or> r1 = Inl QUICHE_ERR_INVALID_STATE" by simp_all
  moreover have "c' = c1" "r = (case r1 of Inl e \<Rightarrow> Inl e | Inr _ \<Rightarrow> q)"
    using assms False q l by (auto simp: process_new_connection_id_def split: sum.splits)
  ultimately show ?thesis using called [OF q] by auto
qed

lemma process_retire_cid_cases:
  assumes "process_retire_connection_id seq d c = (r, c')"
  obtains (zero) "ci_zero_length_scid (cc_ids c)" "c' = c"
  | (called) q where "ci_retire_scid seq d (cc_ids c) = (q, cc_ids c')" "\<And>e. q = Inl e \<Longrightarrow> r = Inl e"
proof (cases "ci_zero_length_scid (cc_ids c)")
  case True
  then have "c' = c" using assms by (simp add: process_retire_connection_id_def)
  with True show ?thesis by (rule zero)
next
  case False
  obtain q ids where q: "ci_retire_scid seq d (cc_ids c) = (q, ids)" by fastforce
  have "cc_ids c' = ids" "\<And>e. q = Inl e \<Longrightarrow> r = Inl e"
    using assms False q
    by (auto simp: process_retire_connection_id_def Let_def paths_put_def split: sum.splits option.splits if_splits)
  then show ?thesis using called q by blast
qed

end
