(* ===== verification/CidProps.thy ===== *)
theory CidProps
  imports Cids
begin

text \<open>
  What the connection IDs of \<open>quiche.h\<close> promise: their invariant under any sequence of calls, frames and losses,
  the agreement of two endpoints that exchange them, the frames on the wire, and three ways in which they go
  wrong: a renewal that is forced, a frame that arrives late, and a retirement of what was not announced yet.
\<close>

section \<open>Everything that happens to the connection IDs of a connection\<close>

text \<open>
  Calls of the application, frames of the peer, packets that are filled, frames that are declared lost, the limit
  in the transport parameters of the peer, and connection IDs being taken into use by a path.
\<close>

datatype cid_event =
    Call_new_scid bytes bytes bool
  | Call_retire_dcid nat
  | Call_retired_scids
  | Got_new_connection_id nat nat bytes bytes
  | Got_retire_connection_id nat bytes
  | Fill_new_cids nat nat bytes
  | Fill_retired_cids "nat option" "nat list" nat nat bytes
  | Frame_lost "unit cid_frame"
  | Peer_limit nat
  | Path_uses_scid nat nat
  | Path_uses_dcid nat nat

fun cid_step :: "cid_event \<Rightarrow> cid_conn \<Rightarrow> cid_conn" where
  "cid_step (Call_new_scid scid reset_token retire_if_needed) c = snd (ffi_new_scid c scid reset_token retire_if_needed)"
| "cid_step (Call_retire_dcid seq) c = snd (ffi_retire_dcid c seq)"
| "cid_step Call_retired_scids c =
     c\<lparr>cc_ids := (cc_ids c)\<lparr>ci_retired_scids := snd (quiche_conn_retired_scid_iter (ci_retired_scids (cc_ids c)))\<rparr>\<rparr>"
| "cid_step (Got_new_connection_id seq rpt cid token) c = snd (process_new_connection_id seq rpt cid token c)"
| "cid_step (Got_retire_connection_id seq dcid) c = snd (process_retire_connection_id seq dcid c)"
| "cid_step (Fill_new_cids cap left w) c = c\<lparr>cc_ids := snd (emit_new_cids cap left w (cc_ids c))\<rparr>"
| "cid_step (Fill_retired_cids active seqs cap left w) c =
     c\<lparr>cc_ids := snd (emit_retired_cids active seqs cap left w (cc_ids c))\<rparr>"
| "cid_step (Frame_lost f) c = c\<lparr>cc_ids := snd (cid_frame_lost f (cc_ids c))\<rparr>"
| "cid_step (Peer_limit v) c = c\<lparr>cc_ids := set_source_conn_id_limit v (cc_ids c), cc_peer_active_conn_id_limit := v\<rparr>"
| "cid_step (Path_uses_scid seq pid) c =
     (case link_scid_to_path_id seq pid (cc_ids c) of Inl e \<Rightarrow> c | Inr ids \<Rightarrow> c\<lparr>cc_ids := ids\<rparr>)"
| "cid_step (Path_uses_dcid seq pid) c =
     (case link_dcid_to_path_id seq pid (cc_ids c) of Inl e \<Rightarrow> c | Inr ids \<Rightarrow> c\<lparr>cc_ids := ids\<rparr>)"

text \<open>What the functions do to the identifiers alone.\<close>

lemma ffi_new_scid_ids:
  "ci_new_scid scid (Some (of_nat (be_nat token))) True None force (cc_ids c) =
    (fst (conn_new_scid scid (of_nat (be_nat token)) force c), cc_ids (snd (ffi_new_scid c scid token force)))"
  by (auto simp: ffi_new_scid_def conn_new_scid_def split: prod.split sum.split)

lemma ffi_retire_dcid_conn: "snd (ffi_retire_dcid c seq) = snd (conn_retire_dcid seq c)"
  by (auto simp: ffi_retire_dcid_def split: prod.split sum.split)

lemma cid_step_ok:
  assumes "ids_ok (cc_ids c)"
  shows "ids_ok (cc_ids (cid_step ev c))"
proof (cases ev)
  case (Call_new_scid scid token force)
  show ?thesis using ids_ok_new_scid [OF ffi_new_scid_ids assms] by (simp add: Call_new_scid)
next
  case (Call_retire_dcid seq)
  obtain r c' where r: "conn_retire_dcid seq c = (r, c')" by fastforce
  then have "ids_ok (cc_ids c')"
    by (cases rule: conn_retire_dcid_cases) (use assms ids_ok_retire_dcid relinked_ok in \<open>force+\<close>)
  then show ?thesis by (simp add: Call_retire_dcid ffi_retire_dcid_conn r)
next
  case (Got_new_connection_id seq rpt cid token)
  obtain r c' where r: "process_new_connection_id seq rpt cid token c = (r, c')" by fastforce
  then have "ids_ok (cc_ids c')"
    by (cases rule: process_new_cid_cases) (use assms ids_ok_new_dcid relinked_ok in \<open>force+\<close>)
  then show ?thesis by (simp add: Got_new_connection_id r)
next
  case (Got_retire_connection_id seq d)
  obtain r c' where r: "process_retire_connection_id seq d c = (r, c')" by fastforce
  then have "ids_ok (cc_ids c')"
    by (cases rule: process_retire_cid_cases) (use assms ids_ok_retire_scid in \<open>force+\<close>)
  then show ?thesis by (simp add: Got_retire_connection_id r)
next
  case (Fill_new_cids cap left w)
  obtain r ids where e: "emit_new_cids cap left w (cc_ids c) = (r, ids)" by fastforce
  from emit_new_cids_frame [OF this] show ?thesis using ids_ok_advertise [OF assms] by (auto simp: Fill_new_cids e)
next
  case (Fill_retired_cids active seqs cap left w)
  obtain r ids where e: "emit_retired_cids active seqs cap left w (cc_ids c) = (r, ids)" by fastforce
  from emit_retired_cids_frame [OF e] show ?thesis using assms by (auto simp: Fill_retired_cids e ids_ok_def)
next
  case (Frame_lost f)
  show ?thesis
  proof (cases f)
    case (RetireConnectionId seq)
    obtain r ids where "mark_retire_dcid_seq seq True (cc_ids c) = (r, ids)" by fastforce
    from this ids_ok_mark_retire [OF this assms] show ?thesis by (simp add: Frame_lost RetireConnectionId)
  qed (use assms in \<open>simp_all add: Frame_lost mark_advertise_new_scid_seq_def ids_ok_advertise\<close>)
next
  case (Path_uses_scid seq pid)
  then show ?thesis using assms relinked_ok [OF link_scid_relinked] by (simp split: sum.split)
next
  case (Path_uses_dcid seq pid)
  then show ?thesis using assms relinked_ok [OF link_dcid_relinked] by (simp split: sum.split)
qed (use assms ids_ok_limit ids_ok_retired in simp_all)

lemma cid_steps_ok: "ids_ok (cc_ids c) \<Longrightarrow> ids_ok (cc_ids (fold cid_step evs c))"
  by (induction evs arbitrary: c) (simp_all add: cid_step_ok)

text \<open>The bounds never change, but for the one on the own connection IDs, which the peer may raise.\<close>

definition id_bounds :: "connection_ids \<Rightarrow> nat \<times> nat \<times> nat" where
  "id_bounds ids = (cd_capacity (ci_scids ids), cd_capacity (ci_dcids ids), ss_capacity (ci_retire_dcid_seqs ids))"

lemma relinked_bounds: "relinked ids ids' \<Longrightarrow> id_bounds ids' = id_bounds ids"
  by (auto simp: relinked_def id_bounds_def)

lemma cid_step_bounds:
  assumes "ids_ok (cc_ids c)" and "\<And>v. ev \<noteq> Peer_limit v"
  shows "id_bounds (cc_ids (cid_step ev c)) = id_bounds (cc_ids c)"
proof (cases ev)
  case (Call_new_scid scid token force)
  from ffi_new_scid_ids [of scid token force c] assms(1) show ?thesis
    by (cases rule: ci_new_scid_cases) (simp_all add: Call_new_scid id_bounds_def)
next
  case (Call_retire_dcid seq)
  obtain r c' where r: "conn_retire_dcid seq c = (r, c')" by fastforce
  then have "id_bounds (cc_ids c') = id_bounds (cc_ids c)"
  proof (cases rule: conn_retire_dcid_cases)
    case (called q ids)
    from called(1) assms(1) have "id_bounds ids = id_bounds (cc_ids c)"
      by (cases rule: ci_retire_dcid_cases) (simp_all add: id_bounds_def)
    then show ?thesis using relinked_bounds [OF called(2)] by simp
  qed (simp add: id_bounds_def)
  then show ?thesis by (simp add: Call_retire_dcid ffi_retire_dcid_conn r)
next
  case (Got_new_connection_id seq rpt cid token)
  obtain r c' where r: "process_new_connection_id seq rpt cid token c = (r, c')" by fastforce
  then have "id_bounds (cc_ids c') = id_bounds (cc_ids c)"
  proof (cases rule: process_new_cid_cases)
    case (called q paths ids)
    from called(1) assms(1) have "id_bounds ids = id_bounds (cc_ids c)"
      by (cases rule: ci_new_dcid_cases) (simp_all add: id_bounds_def stored_dcids_def Let_def)
    then show ?thesis using relinked_bounds [OF called(2)] by simp
  qed simp
  then show ?thesis by (simp add: Got_new_connection_id r)
next
  case (Got_retire_connection_id seq d)
  obtain r c' where r: "process_retire_connection_id seq d c = (r, c')" by fastforce
  then have "id_bounds (cc_ids c') = id_bounds (cc_ids c)"
  proof (cases rule: process_retire_cid_cases)
    case (called q)
    then show ?thesis by (cases rule: ci_retire_scid_cases) (simp_all add: id_bounds_def)
  qed simp
  then show ?thesis by (simp add: Got_retire_connection_id r)
next
  case (Fill_new_cids cap left w)
  obtain r ids where e: "emit_new_cids cap left w (cc_ids c) = (r, ids)" by fastforce
  from emit_new_cids_frame [OF this] show ?thesis by (auto simp: Fill_new_cids e id_bounds_def)
next
  case (Fill_retired_cids active seqs cap left w)
  obtain r ids where e: "emit_retired_cids active seqs cap left w (cc_ids c) = (r, ids)" by fastforce
  from emit_retired_cids_frame [OF this] assms(1) show ?thesis by (auto simp: Fill_retired_cids e id_bounds_def ids_ok_def)
next
  case (Frame_lost f)
  show ?thesis
  proof (cases f)
    case (RetireConnectionId seq)
    obtain r ids where m: "mark_retire_dcid_seq seq True (cc_ids c) = (r, ids)" by fastforce
    moreover have "ss_ok (ci_retire_dcid_seqs (cc_ids c))" using assms(1) by (simp add: ids_ok_def)
    ultimately have "id_bounds ids = id_bounds (cc_ids c)" by (cases rule: mark_retire_cases) (simp add: id_bounds_def)
    then show ?thesis using m by (simp add: Frame_lost RetireConnectionId)
  qed (simp_all add: Frame_lost id_bounds_def)
next
  case (Path_uses_scid seq pid)
  then show ?thesis using relinked_bounds [OF link_scid_relinked] by (simp split: sum.split)
next
  case (Path_uses_dcid seq pid)
  then show ?thesis using relinked_bounds [OF link_dcid_relinked] by (simp split: sum.split)
qed (use assms in \<open>simp_all add: id_bounds_def\<close>)

section \<open>The invariant\<close>

text \<open>A new connection: what \<open>with_tls\<close> and \<open>set_initial_dcid\<close> make of the identifiers.\<close>

definition new_ids :: "nat \<Rightarrow> bytes \<Rightarrow> 128 word option \<Rightarrow> bytes \<Rightarrow> 128 word option \<Rightarrow> connection_ids" where
  "new_ids limit scid token dcid peer_token = ci_set_initial_dcid dcid peer_token (Some 0) (ci_new limit scid 0 token)"

lemma new_ids_bounds: "id_bounds (new_ids n scid t dcid t') = (3, max 2 n, (max 2 n * 3) mod 2 ^ 64)"
  by (auto simp: new_ids_def ci_set_initial_dcid_def ci_new_def Let_def id_bounds_def cd_new_def cd_clear_and_insert_def
      ss_new_def RETIRED_CONN_ID_LIMIT_MULTIPLIER_def max_def min_def)

lemma cid_steps_bounds:
  assumes "ids_ok (cc_ids c)" and "\<And>v. Peer_limit v \<in> set evs \<Longrightarrow> v \<le> l" and "cd_capacity (ci_scids (cc_ids c)) \<le> 2 * l - 1"
  shows "cd_capacity (ci_scids (cc_ids (fold cid_step evs c))) \<le> 2 * l - 1
    \<and> snd (id_bounds (cc_ids (fold cid_step evs c))) = snd (id_bounds (cc_ids c))"
  using assms
proof (induction evs arbitrary: c)
  case (Cons ev evs)
  let ?c = "cid_step ev c"
  have "cd_capacity (ci_scids (cc_ids ?c)) \<le> 2 * l - 1 \<and> snd (id_bounds (cc_ids ?c)) = snd (id_bounds (cc_ids c))"
  proof (cases "\<exists>v. ev = Peer_limit v")
    case True
    then obtain v where v: "ev = Peer_limit v" "v \<le> l" using Cons.prems(2) by auto
    then show ?thesis using Cons.prems(3)
      by (auto simp: set_source_conn_id_limit_def Let_def cd_resize_def id_bounds_def min_def)
  next
    case False
    with cid_step_bounds [OF Cons.prems(1), of ev] Cons.prems(3) show ?thesis by (auto simp: id_bounds_def)
  qed
  moreover from this have "cd_capacity (ci_scids (cc_ids (fold cid_step evs ?c))) \<le> 2 * l - 1
      \<and> snd (id_bounds (cc_ids (fold cid_step evs ?c))) = snd (id_bounds (cc_ids ?c))"
    using Cons.prems(2) by (intro Cons.IH cid_step_ok [OF Cons.prems(1)]) auto
  ultimately show ?case by simp
qed simp

lemma ids_known:
  assumes "ids_ok (cc_ids c)"
  shows "quiche_conn_source_id cid_api c \<noteq> None" and "quiche_conn_destination_id cid_api c \<noteq> None"
  using assms
  by (auto simp: cid_api_def source_id_def destination_id_def ids_ok_def cd_ok_def cd_get_oldest_def split: option.split list.splits)

text \<open>
  C29: Whatever the application, the peer and the network do to a connection, in any order: its own active
  connection IDs have distinct sequence numbers and are distinct, there is at least one and there are at most
  \<open>2 * l - 1\<close> when the peer allows \<open>l\<close>; those of the peer are distinct, at least one and at most as many as the
  configuration allows; at most three times as many retirements wait to be announced; and
  \<open>quiche_conn_source_id\<close> and \<open>quiche_conn_destination_id\<close> never panic.
\<close>

theorem connection_ids_invariant:
  assumes "cc_ids c0 = new_ids n scid token dcid peer_token" and "\<And>v. Peer_limit v \<in> set evs \<Longrightarrow> v \<le> l" and "2 \<le> l"
    and "c = fold cid_step evs c0"
  shows "distinct (map ce_seq (cd_inner (ci_scids (cc_ids c)))) \<and> distinct (map ce_cid (cd_inner (ci_scids (cc_ids c))))
    \<and> 1 \<le> quiche_conn_active_scids cid_api c \<and> quiche_conn_active_scids cid_api c \<le> 2 * l - 1
    \<and> distinct (map ce_seq (cd_inner (ci_dcids (cc_ids c)))) \<and> distinct (map ce_cid (cd_inner (ci_dcids (cc_ids c))))
    \<and> 1 \<le> cd_len (ci_dcids (cc_ids c)) \<and> cd_len (ci_dcids (cc_ids c)) \<le> max 2 n
    \<and> card (ss_inner (ci_retire_dcid_seqs (cc_ids c))) \<le> 3 * max 2 n
    \<and> quiche_conn_source_id cid_api c \<noteq> None \<and> quiche_conn_destination_id cid_api c \<noteq> None"
proof -
  have ok0: "ids_ok (cc_ids c0)" unfolding assms(1) new_ids_def by (rule ids_ok_new)
  have ok: "ids_ok (cc_ids c)" unfolding assms(4) by (rule cid_steps_ok [OF ok0])
  have "cd_capacity (ci_scids (cc_ids c0)) \<le> 2 * l - 1"
    using new_ids_bounds [of n scid token dcid peer_token] assms(1,3) by (simp add: id_bounds_def)
  from cid_steps_bounds [OF ok0 assms(2) this] have b: "cd_capacity (ci_scids (cc_ids c)) \<le> 2 * l - 1"
    "cd_capacity (ci_dcids (cc_ids c)) = max 2 n" "ss_capacity (ci_retire_dcid_seqs (cc_ids c)) = (max 2 n * 3) mod 2 ^ 64"
    using new_ids_bounds [of n scid token dcid peer_token] by (simp_all add: assms(1,4) id_bounds_def)
  have "ss_capacity (ci_retire_dcid_seqs (cc_ids c)) \<le> 3 * max 2 n" unfolding b(3) by (simp add: mult.commute)
  moreover have "x \<noteq> [] \<Longrightarrow> Suc 0 \<le> length x" for x :: "cid_entry list" by (cases x) simp_all
  ultimately show ?thesis using ok b(1,2) ids_known [OF ok]
    by (auto simp: ids_ok_def cd_ok_def ss_ok_def cd_len_def cid_api_def active_source_cids_def)
qed

text \<open>The connection of the witnesses: two sequence numbers at each end.\<close>

definition demo_cids :: cid_conn where
  "demo_cids = \<lparr>cc_ids = new_ids 2 [1] (Some 11) [2] (Some 22),
     cc_paths = [Some \<lparr>pt_active = True, pt_state = Path_validated, pt_active_scid_seq = Some 0, pt_active_dcid_seq = Some 0\<rparr>],
     cc_peer_active_conn_id_limit = 2, cc_local_active_conn_id_limit = 2\<rparr>"

theorem connection_ids_invariant_witness:
  "quiche_conn_active_scids cid_api
     (fold cid_step [Peer_limit 2, Call_new_scid [3] [12] False, Got_new_connection_id 1 0 [4] [23], Got_retire_connection_id 0 [3]]
       demo_cids) \<le> 3"
  using connection_ids_invariant [of demo_cids 2 "[1]" "Some 11" "[2]" "Some 22"
      "[Peer_limit 2, Call_new_scid [3] [12] False, Got_new_connection_id 1 0 [4] [23], Got_retire_connection_id 0 [3]]" 2]
  by (simp add: demo_cids_def)

section \<open>Two endpoints\<close>

text \<open>
  An endpoint \<open>a\<close> that issues connection IDs and its peer \<open>b\<close>, the frames that were sent in either direction, and
  the connection IDs that were ever issued.  A frame that was sent may arrive at any time, more than once or never,
  and may be declared lost.  The application of \<open>a\<close> uses no connection ID twice and does not force the
  retirement of others.
\<close>

record exchange =
  ex_a :: cid_conn
  ex_b :: cid_conn
  ex_new :: "unit cid_frame set"
  ex_retired :: "nat set"
  ex_issued :: "bytes set"

inductive exchange_step :: "exchange \<Rightarrow> exchange \<Rightarrow> bool" where
  issue: "cid \<notin> ex_issued x \<Longrightarrow>
     exchange_step x (x\<lparr>ex_a := cid_step (Call_new_scid cid token False) (ex_a x), ex_issued := insert cid (ex_issued x)\<rparr>)"
| announce: "next_advertise_new_scid_seq (cc_ids (ex_a x)) = Some s \<Longrightarrow>
     get_new_connection_id_frame_for s (cc_ids (ex_a x)) = Inr f \<Longrightarrow>
     exchange_step x (x\<lparr>ex_a := (ex_a x)\<lparr>cc_ids := mark_advertise_new_scid_seq s False (cc_ids (ex_a x))\<rparr>,
       ex_new := insert f (ex_new x)\<rparr>)"
| new_lost: "f \<in> ex_new x \<Longrightarrow> exchange_step x (x\<lparr>ex_a := cid_step (Frame_lost f) (ex_a x)\<rparr>)"
| learn: "NewConnectionId s rpt cid token \<in> ex_new x \<Longrightarrow>
     exchange_step x (x\<lparr>ex_b := cid_step (Got_new_connection_id s rpt cid token) (ex_b x)\<rparr>)"
| retire: "exchange_step x (x\<lparr>ex_b := cid_step (Call_retire_dcid s) (ex_b x)\<rparr>)"
| announce_retired: "s \<in> ss_inner (ci_retire_dcid_seqs (cc_ids (ex_b x))) \<Longrightarrow>
     mark_retire_dcid_seq s False (cc_ids (ex_b x)) = (r, ids) \<Longrightarrow>
     exchange_step x (x\<lparr>ex_b := (ex_b x)\<lparr>cc_ids := ids\<rparr>, ex_retired := insert s (ex_retired x)\<rparr>)"
| retired_lost: "s \<in> ex_retired x \<Longrightarrow>
     exchange_step x (x\<lparr>ex_b := cid_step (Frame_lost (RetireConnectionId s)) (ex_b x)\<rparr>)"
| drop: "s \<in> ex_retired x \<Longrightarrow> exchange_step x (x\<lparr>ex_a := cid_step (Got_retire_connection_id s d) (ex_a x)\<rparr>)"
| fetch_retired: "exchange_step x (x\<lparr>ex_a := cid_step Call_retired_scids (ex_a x)\<rparr>)"
| limit: "exchange_step x (x\<lparr>ex_a := cid_step (Peer_limit v) (ex_a x)\<rparr>)"
| a_uses: "exchange_step x (x\<lparr>ex_a := cid_step (Path_uses_scid s pid) (ex_a x)\<rparr>)"
| b_uses: "exchange_step x (x\<lparr>ex_b := cid_step (Path_uses_dcid s pid) (ex_b x)\<rparr>)"

text \<open>
  \<open>iss\<close> tells which connection ID and token were issued under a number.  What either endpoint holds, and what is on
  its way, agrees with it; different numbers have different connection IDs.
\<close>

definition agrees :: "(nat \<Rightarrow> (bytes \<times> 128 word option) option) \<Rightarrow> exchange \<Rightarrow> bool" where
  "agrees iss x \<longleftrightarrow> ids_ok (cc_ids (ex_a x)) \<and> ids_ok (cc_ids (ex_b x)) \<and> \<not> ci_zero_length_dcid (cc_ids (ex_b x))
     \<and> {..<ci_next_scid_seq (cc_ids (ex_a x))} = dom iss
     \<and> (\<forall>s v. iss s = Some v \<longrightarrow> fst v \<in> ex_issued x)
     \<and> (\<forall>s s' v v'. iss s = Some v \<longrightarrow> iss s' = Some v' \<longrightarrow> fst v = fst v' \<longrightarrow> s = s')
     \<and> (\<forall>t \<in> set (cd_ids (ci_scids (cc_ids (ex_a x)))). iss (fst t) = Some (snd t) \<and> ci_retire_prior_to (cc_ids (ex_a x)) \<le> fst t)
     \<and> (\<forall>t \<in> set (cd_ids (ci_dcids (cc_ids (ex_b x)))). iss (fst t) = Some (snd t))
     \<and> (\<forall>f \<in> ex_new x. case f of
          NewConnectionId s rpt cid token \<Rightarrow> iss s = Some (cid, Some (of_nat (be_nat token))) \<and> rpt \<le> s
        | _ \<Rightarrow> False)
     \<and> ex_retired x \<union> ss_inner (ci_retire_dcid_seqs (cc_ids (ex_b x))) \<subseteq> dom iss"

text \<open>Changes of one endpoint that keep the agreement.\<close>

lemma agrees_a:
  assumes "agrees iss x" and "ids_ok (cc_ids a)" and "ci_next_scid_seq (cc_ids a) = ci_next_scid_seq (cc_ids (ex_a x))"
    and "set (cd_ids (ci_scids (cc_ids a))) \<subseteq> set (cd_ids (ci_scids (cc_ids (ex_a x))))"
    and "\<forall>t \<in> set (cd_ids (ci_scids (cc_ids a))). ci_retire_prior_to (cc_ids a) \<le> fst t"
    and "ex_issued x \<subseteq> i"
  shows "agrees iss (x\<lparr>ex_a := a, ex_issued := i\<rparr>)"
  using assms unfolding agrees_def by (auto 4 3)

lemma agrees_b:
  assumes "agrees iss x" and "ids_ok (cc_ids b)" and "ci_zero_length_dcid (cc_ids b) = ci_zero_length_dcid (cc_ids (ex_b x))"
    and "\<forall>t \<in> set (cd_ids (ci_dcids (cc_ids b))). iss (fst t) = Some (snd t)"
    and "ss_inner (ci_retire_dcid_seqs (cc_ids b)) \<subseteq> dom iss"
  shows "agrees iss (x\<lparr>ex_b := b\<rparr>)"
  using assms unfolding agrees_def by auto


lemma agrees_ok:
  assumes "agrees iss x"
  shows "ids_ok (cc_ids (ex_a x))" "ids_ok (cc_ids (ex_b x))"
    "ids_ok (cc_ids (cid_step ev (ex_a x)))" "ids_ok (cc_ids (cid_step ev (ex_b x)))"
proof -
  show a: "ids_ok (cc_ids (ex_a x))" and b: "ids_ok (cc_ids (ex_b x))" using assms by (simp_all add: agrees_def)
  show "ids_ok (cc_ids (cid_step ev (ex_a x)))" by (rule cid_step_ok [OF a])
  show "ids_ok (cc_ids (cid_step ev (ex_b x)))" by (rule cid_step_ok [OF b])
qed

lemma relinked_parts:
  assumes "relinked ids ids'"
  shows "cd_ids (ci_scids ids') = cd_ids (ci_scids ids)" "cd_ids (ci_dcids ids') = cd_ids (ci_dcids ids)"
    "ci_retire_dcid_seqs ids' = ci_retire_dcid_seqs ids" "ci_next_scid_seq ids' = ci_next_scid_seq ids"
    "ci_retire_prior_to ids' = ci_retire_prior_to ids" "ci_zero_length_dcid ids' = ci_zero_length_dcid ids"
  using assms by (auto simp: relinked_def)

lemma agrees_issue:
  assumes "agrees iss x" and "cid \<notin> ex_issued x"
  shows "\<exists>iss'. agrees iss' (x\<lparr>ex_a := cid_step (Call_new_scid cid token False) (ex_a x), ex_issued := insert cid (ex_issued x)\<rparr>)"
proof -
  let ?a = "ex_a x" and ?a' = "cid_step (Call_new_scid cid token False) (ex_a x)"
  note ok = agrees_ok(1,3) [OF assms(1)]
  have c: "ci_new_scid cid (Some (of_nat (be_nat token))) True None False (cc_ids ?a) =
      (fst (conn_new_scid cid (of_nat (be_nat token)) False ?a), cc_ids ?a')"
    using ffi_new_scid_ids [of cid token False ?a] by simp
  from c ok(1) show ?thesis
  proof (cases rule: ci_new_scid_cases)
    case (refused n)
    then have "cc_ids ?a' = cc_ids ?a" by simp
    then show ?thesis using agrees_a [OF assms(1) ok(2)] assms(1) by (intro exI [of _ iss]) (auto simp: agrees_def)
  next
    case (added n)
    let ?n = "ci_next_scid_seq (cc_ids ?a)" and ?v = "(cid, Some (of_nat (be_nat token)) :: 128 word option)"
    have n: "ci_retire_prior_to (cc_ids ?a) \<le> ?n" using ok(1) by (simp add: ids_ok_def)
    have iss: "dom iss = {..<?n}" using assms(1) unfolding agrees_def by blast
    then have new: "iss ?n = None" by (metis domIff lessThan_iff less_irrefl)
    have ids: "ci_next_scid_seq (cc_ids ?a') = ?n + 1" "ci_retire_prior_to (cc_ids ?a') = ci_retire_prior_to (cc_ids ?a)"
      "cd_ids (ci_scids (cc_ids ?a')) = cd_ids (ci_scids (cc_ids ?a)) @ [(?n, ?v)]"
      using added(3) unfolding added(6) by (simp_all add: cd_ids_def ce_id_def)
    let ?iss = "iss(?n \<mapsto> ?v)"
    from assms(1) have issd: "\<And>s v. iss s = Some v \<Longrightarrow> fst v \<in> ex_issued x"
      and inj: "\<And>s s' v v'. iss s = Some v \<Longrightarrow> iss s' = Some v' \<Longrightarrow> fst v = fst v' \<Longrightarrow> s = s'"
      and sc: "\<forall>t \<in> set (cd_ids (ci_scids (cc_ids ?a))). iss (fst t) = Some (snd t) \<and> ci_retire_prior_to (cc_ids ?a) \<le> fst t"
      and dc: "\<forall>t \<in> set (cd_ids (ci_dcids (cc_ids (ex_b x)))). iss (fst t) = Some (snd t)"
      and fr: "\<forall>f \<in> ex_new x. case f of
          NewConnectionId s rpt cid token \<Rightarrow> iss s = Some (cid, Some (of_nat (be_nat token))) \<and> rpt \<le> s | _ \<Rightarrow> False"
      and rt: "ex_retired x \<union> ss_inner (ci_retire_dcid_seqs (cc_ids (ex_b x))) \<subseteq> dom iss"
      and bz: "ids_ok (cc_ids (ex_b x))" "\<not> ci_zero_length_dcid (cc_ids (ex_b x))"
      unfolding agrees_def by blast+
    have old: "?iss s = Some v" if "iss s = Some v" for s v using that new by auto
    have p1: "{..<ci_next_scid_seq (cc_ids ?a')} = dom ?iss" using iss ids(1) by auto
    have p2: "\<forall>s v. ?iss s = Some v \<longrightarrow> fst v \<in> insert cid (ex_issued x)" using issd by auto
    have p3: "\<forall>s s' v v'. ?iss s = Some v \<longrightarrow> ?iss s' = Some v' \<longrightarrow> fst v = fst v' \<longrightarrow> s = s'"
    proof (intro allI impI)
      fix s s' v v' assume v: "?iss s = Some v" "?iss s' = Some v'" "fst v = fst v'"
      have ne: "fst w \<noteq> cid" if "iss t = Some w" for t w using issd [OF that] assms(2) by blast
      show "s = s'"
      proof (cases "s = ?n")
        case True
        then have "fst v = cid" using v(1) by auto
        then show ?thesis using True v(2,3) ne [of s' v'] by (cases "s' = ?n") simp_all
      next
        case False
        then have i: "iss s = Some v" using v(1) by simp
        then have "s' \<noteq> ?n" using ne [OF i] v(2,3) by auto
        then have "iss s' = Some v'" using v(2) by simp
        from inj [OF i this v(3)] show ?thesis .
      qed
    qed
    have p4: "\<forall>t \<in> set (cd_ids (ci_scids (cc_ids ?a'))). ?iss (fst t) = Some (snd t) \<and> ci_retire_prior_to (cc_ids ?a') \<le> fst t"
      using sc old n unfolding ids(2,3) by auto
    have p5: "\<forall>t \<in> set (cd_ids (ci_dcids (cc_ids (ex_b x)))). ?iss (fst t) = Some (snd t)" using dc old by blast
    have p6: "\<forall>f \<in> ex_new x. case f of
        NewConnectionId s rpt cid token \<Rightarrow> ?iss s = Some (cid, Some (of_nat (be_nat token))) \<and> rpt \<le> s | _ \<Rightarrow> False"
    proof
      fix f assume "f \<in> ex_new x"
      with fr show "case f of
          NewConnectionId s rpt cid token \<Rightarrow> ?iss s = Some (cid, Some (of_nat (be_nat token))) \<and> rpt \<le> s | _ \<Rightarrow> False"
        using old by (cases f) (auto simp del: fun_upd_apply)
    qed
    have p7: "ex_retired x \<union> ss_inner (ci_retire_dcid_seqs (cc_ids (ex_b x))) \<subseteq> dom ?iss" using rt by auto
    let ?x = "x\<lparr>ex_a := ?a', ex_issued := insert cid (ex_issued x)\<rparr>"
    have sel: "ex_a ?x = ?a'" "ex_b ?x = ex_b x" "ex_new ?x = ex_new x" "ex_retired ?x = ex_retired x"
      "ex_issued ?x = insert cid (ex_issued x)" by simp_all
    have "agrees ?iss ?x" unfolding agrees_def sel by (intro conjI ok(2) bz p1 p2 p3 p4 p5 p6 p7)
    then show ?thesis by blast
  qed
qed

lemma agrees_learn:
  assumes "agrees iss x" and "NewConnectionId s rpt cid token \<in> ex_new x"
  shows "agrees iss (x\<lparr>ex_b := cid_step (Got_new_connection_id s rpt cid token) (ex_b x)\<rparr>)"
    and "fst (process_new_connection_id s rpt cid token (ex_b x)) \<noteq> Inl QUICHE_ERR_INVALID_FRAME"
proof -
  let ?b = "ex_b x"
  obtain r b' where r: "process_new_connection_id s rpt cid token ?b = (r, b')" by fastforce
  have f: "iss s = Some (cid, Some (of_nat (be_nat token)))" "rpt \<le> s" using assms by (auto simp: agrees_def)
  note ok = agrees_ok(2) [OF assms(1)] agrees_ok(4) [OF assms(1), of "Got_new_connection_id s rpt cid token"]
  have inj: "\<And>s s' v v'. iss s = Some v \<Longrightarrow> iss s' = Some v' \<Longrightarrow> fst v = fst v' \<Longrightarrow> s = s'"
    and d: "\<forall>t \<in> set (cd_ids (ci_dcids (cc_ids ?b))). iss (fst t) = Some (snd t)"
    and ss: "ss_inner (ci_retire_dcid_seqs (cc_ids ?b)) \<subseteq> dom iss"
    using assms(1) unfolding agrees_def by blast+
  have dm: "ce_seq ` set (cd_inner (ci_dcids (cc_ids ?b))) \<subseteq> dom iss" using d by (force simp: cd_ids_def)
  have "ids_ok (cc_ids b') \<Longrightarrow> agrees iss (x\<lparr>ex_b := b'\<rparr>) \<and> r \<noteq> Inl QUICHE_ERR_INVALID_FRAME"
    using r
  proof (cases rule: process_new_cid_cases)
    case zero
    then show ?thesis using assms(1) by (simp add: agrees_def)
  next
    case (called q paths ids)
    note rel = relinked_parts [OF called(2)]
    assume okb: "ids_ok (cc_ids b')"
    from called(1) ok(1) have "q \<noteq> Inl QUICHE_ERR_INVALID_FRAME \<and> ci_zero_length_dcid ids = ci_zero_length_dcid (cc_ids ?b)
        \<and> (\<forall>t \<in> set (cd_ids (ci_dcids ids)). iss (fst t) = Some (snd t)) \<and> ss_inner (ci_retire_dcid_seqs ids) \<subseteq> dom iss"
    proof (cases rule: ci_new_dcid_cases)
      case (known e)
      have e: "iss (ce_seq e) = Some (ce_cid e, ce_reset_token e)" using d known(2) by (auto simp: cd_ids_def ce_id_def)
      then have "ce_seq e = s" using known(3) inj [OF e f(1)] by auto
      then have "ce_id e = (s, cid, Some (of_nat (be_nat token)))" using e f(1) by (simp add: ce_id_def)
      then show ?thesis using known d ss by simp
    next
      case (late t)
      then show ?thesis using d ss f by (auto simp: insert_absorb)
    next
      case (stored t l)
      have "set (cd_ids (stored_dcids cid s (of_nat (be_nat token)) rpt (ci_dcids (cc_ids ?b)))) \<subseteq>
          insert (s, cid, Some (of_nat (be_nat token))) (set (cd_ids (ci_dcids (cc_ids ?b))))"
        by (auto simp: stored_dcids_def Let_def cd_ids_def ce_id_def)
      moreover have "ss_inner t \<subseteq> dom iss" using stored(7) ss dm by blast
      ultimately show ?thesis using stored d f by auto
    qed (use d ss f in auto)
    then show ?thesis using agrees_b [OF assms(1) okb] rel called(3) by auto
  qed
  then show "agrees iss (x\<lparr>ex_b := cid_step (Got_new_connection_id s rpt cid token) ?b\<rparr>)"
    "fst (process_new_connection_id s rpt cid token ?b) \<noteq> Inl QUICHE_ERR_INVALID_FRAME"
    using ok(2) by (simp_all add: r)
qed

lemma agrees_retire:
  assumes "agrees iss x"
  shows "agrees iss (x\<lparr>ex_b := cid_step (Call_retire_dcid s) (ex_b x)\<rparr>)"
proof -
  let ?b = "ex_b x"
  obtain r b' where r: "conn_retire_dcid s ?b = (r, b')" by fastforce
  have d: "\<forall>t \<in> set (cd_ids (ci_dcids (cc_ids ?b))). iss (fst t) = Some (snd t)"
    and ss: "ss_inner (ci_retire_dcid_seqs (cc_ids ?b)) \<subseteq> dom iss" using assms unfolding agrees_def by blast+
  have ok: "ids_ok (cc_ids b')" using agrees_ok(4) [OF assms, of "Call_retire_dcid s"] by (simp add: ffi_retire_dcid_conn r)
  from r have "agrees iss (x\<lparr>ex_b := b'\<rparr>)"
  proof (cases rule: conn_retire_dcid_cases)
    case (refused er)
    then show ?thesis using agrees_b [OF assms ok] d ss by simp
  next
    case (called q ids)
    note rel = relinked_parts [OF called(2)]
    from called(1) agrees_ok(2) [OF assms] have "ci_zero_length_dcid ids = ci_zero_length_dcid (cc_ids ?b)
        \<and> (\<forall>t \<in> set (cd_ids (ci_dcids ids)). iss (fst t) = Some (snd t)) \<and> ss_inner (ci_retire_dcid_seqs ids) \<subseteq> dom iss"
    proof (cases rule: ci_retire_dcid_cases)
      case (removed xs e ys t)
      have "iss s = Some (snd (ce_id e))" using d removed(1,2) by (auto simp: cd_ids_def ce_id_def)
      then show ?thesis using removed d ss by (auto simp: cd_ids_def)
    qed (use d ss in simp)
    then show ?thesis using agrees_b [OF assms ok] rel by auto
  qed
  then show ?thesis by (simp add: ffi_retire_dcid_conn r)
qed

lemma agrees_drop:
  assumes "agrees iss x"
  shows "agrees iss (x\<lparr>ex_a := cid_step (Got_retire_connection_id s d) (ex_a x)\<rparr>)"
proof -
  let ?a = "ex_a x"
  obtain r a' where r: "process_retire_connection_id s d ?a = (r, a')" by fastforce
  have t: "\<forall>t \<in> set (cd_ids (ci_scids (cc_ids ?a))). ci_retire_prior_to (cc_ids ?a) \<le> fst t"
    using assms unfolding agrees_def by blast
  have ok: "ids_ok (cc_ids a')" using agrees_ok(3) [OF assms, of "Got_retire_connection_id s d"] by (simp add: r)
  from r have "agrees iss (x\<lparr>ex_a := a', ex_issued := ex_issued x\<rparr>)"
  proof (cases rule: process_retire_cid_cases)
    case zero
    then show ?thesis using agrees_a [OF assms ok, of "ex_issued x"] t by simp
  next
    case (called q)
    have t': "\<forall>e \<in> set (cd_inner (ci_scids (cc_ids ?a))). ci_retire_prior_to (cc_ids ?a) \<le> ce_seq e"
      using t by (simp add: cd_ids_def)
    from called(1) have "ci_next_scid_seq (cc_ids a') = ci_next_scid_seq (cc_ids ?a)
        \<and> set (cd_ids (ci_scids (cc_ids a'))) \<subseteq> set (cd_ids (ci_scids (cc_ids ?a)))
        \<and> (\<forall>e \<in> set (cd_inner (ci_scids (cc_ids a'))). ci_retire_prior_to (cc_ids a') \<le> ce_seq e)"
    proof (cases rule: ci_retire_scid_cases)
      case (removed xs e ys n cids)
      then show ?thesis using t' by (auto simp: cd_ids_def)
    qed (use t' in auto)
    then show ?thesis using agrees_a [OF assms ok, of "ex_issued x"] by (simp add: cd_ids_def)
  qed
  then show ?thesis by (simp add: r)
qed

lemma cd_get_Some: "cd_get seq d = Some e \<Longrightarrow> e \<in> set (cd_inner d) \<and> ce_seq e = seq"
  by (auto simp: cd_get_def find_Some_iff)

lemma agrees_announce:
  assumes "agrees iss x" and "get_new_connection_id_frame_for s (cc_ids (ex_a x)) = Inr f"
  shows "agrees iss (x\<lparr>ex_a := (ex_a x)\<lparr>cc_ids := mark_advertise_new_scid_seq s False (cc_ids (ex_a x))\<rparr>,
       ex_new := insert f (ex_new x)\<rparr>)"
proof -
  obtain e token where e: "e \<in> set (cd_inner (ci_scids (cc_ids (ex_a x))))" "ce_seq e = s" "ce_reset_token e = Some token"
    and f: "f = NewConnectionId s (ci_retire_prior_to (cc_ids (ex_a x))) (ce_cid e) (be_bytes 16 (unat token))"
    using assms(2) by (auto simp: get_new_connection_id_frame_for_def dest: cd_get_Some split: option.splits)
  have "be_nat (be_bytes 16 (unat token)) = unat token"
    using unsigned_less [of token, where ?'a = nat] by (simp add: be_nat_be_bytes del: be_bytes.simps)
  moreover have "iss s = Some (ce_cid e, Some token) \<and> ci_retire_prior_to (cc_ids (ex_a x)) \<le> s"
    using assms(1) e by (force simp: agrees_def cd_ids_def ce_id_def)
  ultimately have "case f of NewConnectionId s rpt cid token \<Rightarrow> iss s = Some (cid, Some (of_nat (be_nat token))) \<and> rpt \<le> s
      | _ \<Rightarrow> False" by (simp add: f)
  moreover have "ids_ok (mark_advertise_new_scid_seq s False (cc_ids (ex_a x)))"
    using ids_ok_advertise agrees_ok(1) [OF assms(1)] by (simp add: mark_advertise_new_scid_seq_def)
  ultimately show ?thesis using assms(1) by (simp add: agrees_def)
qed


lemma agrees_step: "exchange_step x x' \<Longrightarrow> agrees iss x \<Longrightarrow> \<exists>iss'. agrees iss' x'"
proof (induction arbitrary: iss rule: exchange_step.induct)
  case (issue cid x token)
  then show ?case using agrees_issue by blast
next
  case (announce x s f)
  then show ?case using agrees_announce by blast
next
  case (new_lost f x)
  then obtain s rpt cid token where f: "f = NewConnectionId s rpt cid token" by (cases f) (auto simp: agrees_def)
  have "agrees iss (x\<lparr>ex_a := cid_step (Frame_lost f) (ex_a x), ex_issued := ex_issued x\<rparr>)"
    using new_lost(2) by (intro agrees_a [OF new_lost(2)] agrees_ok(3)) (auto simp: f agrees_def)
  then show ?case by auto
next
  case (learn s rpt cid token x)
  then show ?case using agrees_learn(1) by blast
next
  case (retire x s)
  then show ?case using agrees_retire by blast
next
  case (announce_retired s x r ids)
  have i: "ids = (cc_ids (ex_b x))\<lparr>ci_retire_dcid_seqs := ss_remove s (ci_retire_dcid_seqs (cc_ids (ex_b x)))\<rparr>"
    using announce_retired(2) by (simp add: mark_retire_dcid_seq_def)
  have ss: "ex_retired x \<union> ss_inner (ci_retire_dcid_seqs (cc_ids (ex_b x))) \<subseteq> dom iss"
    using announce_retired(3) unfolding agrees_def by blast
  have "agrees iss (x\<lparr>ex_b := (ex_b x)\<lparr>cc_ids := ids\<rparr>\<rparr>)"
    using announce_retired(3) ids_ok_mark_retire [OF announce_retired(2)] ss
    by (intro agrees_b [OF announce_retired(3)]) (auto simp: i agrees_def ss_remove_def)
  then have "agrees iss (x\<lparr>ex_b := (ex_b x)\<lparr>cc_ids := ids\<rparr>, ex_retired := insert s (ex_retired x)\<rparr>)"
    using ss announce_retired(1) unfolding agrees_def by auto
  then show ?case by blast
next
  case (retired_lost s x)
  let ?b = "cid_step (Frame_lost (RetireConnectionId s)) (ex_b x)"
  obtain r ids where m: "mark_retire_dcid_seq s True (cc_ids (ex_b x)) = (r, ids)" by fastforce
  have ss: "ss_ok (ci_retire_dcid_seqs (cc_ids (ex_b x)))" using retired_lost(2) by (simp add: agrees_def ids_ok_def)
  have sub: "s \<in> dom iss" "ss_inner (ci_retire_dcid_seqs (cc_ids (ex_b x))) \<subseteq> dom iss"
    using retired_lost unfolding agrees_def by blast+
  have b: "cc_ids ?b = ids" by (simp add: m)
  from m ss have "agrees iss (x\<lparr>ex_b := ?b\<rparr>)"
  proof (cases rule: mark_retire_cases)
    case (1 t)
    then have "ss_inner t \<subseteq> dom iss" using sub by auto
    with 1(1) show ?thesis using retired_lost(2)
      by (intro agrees_b [OF retired_lost(2)] agrees_ok(4)) (simp_all only: b, simp_all add: agrees_def)
  qed
  then show ?case by blast
next
  case (drop s x d)
  then show ?case using agrees_drop by blast
next
  case (fetch_retired x)
  have "agrees iss (x\<lparr>ex_a := cid_step Call_retired_scids (ex_a x), ex_issued := ex_issued x\<rparr>)"
    using fetch_retired by (intro agrees_a [OF fetch_retired] agrees_ok(3)) (auto simp: agrees_def)
  then show ?case by auto
next
  case (limit x v)
  have "agrees iss (x\<lparr>ex_a := cid_step (Peer_limit v) (ex_a x), ex_issued := ex_issued x\<rparr>)"
    using limit
    by (intro agrees_a [OF limit] agrees_ok(3))
      (auto simp: agrees_def set_source_conn_id_limit_def Let_def cd_resize_def cd_ids_def)
  then show ?case by auto
next
  case (a_uses x s pid)
  have "relinked (cc_ids (ex_a x)) (cc_ids (cid_step (Path_uses_scid s pid) (ex_a x)))"
    using link_scid_relinked relinked_refl by (simp split: sum.split)
  from relinked_parts [OF this] have "agrees iss (x\<lparr>ex_a := cid_step (Path_uses_scid s pid) (ex_a x), ex_issued := ex_issued x\<rparr>)"
    using a_uses by (intro agrees_a [OF a_uses] agrees_ok(3)) (auto simp: agrees_def simp del: cid_step.simps)
  then show ?case by auto
next
  case (b_uses x s pid)
  have "relinked (cc_ids (ex_b x)) (cc_ids (cid_step (Path_uses_dcid s pid) (ex_b x)))"
    using link_dcid_relinked relinked_refl by (simp split: sum.split)
  from relinked_parts [OF this] have "agrees iss (x\<lparr>ex_b := cid_step (Path_uses_dcid s pid) (ex_b x)\<rparr>)"
    using b_uses by (intro agrees_b [OF b_uses] agrees_ok(4)) (auto simp: agrees_def simp del: cid_step.simps)
  then show ?case by auto
qed

text \<open>Both ends as a handshake makes them: \<open>b\<close> has learnt the first connection ID of \<open>a\<close> and its token.\<close>

definition new_exchange :: "cid_conn \<Rightarrow> cid_conn \<Rightarrow> bytes \<Rightarrow> exchange" where
  "new_exchange a b cid = \<lparr>ex_a = a, ex_b = b, ex_new = {}, ex_retired = {}, ex_issued = {cid}\<rparr>"

lemma agrees_new:
  assumes "cc_ids a = new_ids n cid token bcid btoken" and "cc_ids b = new_ids m bcid btoken cid token" and "cid \<noteq> []"
  shows "agrees [0 \<mapsto> (cid, token)] (new_exchange a b cid)"
proof -
  have "ids_ok (cc_ids a)" "ids_ok (cc_ids b)" unfolding assms new_ids_def by (rule ids_ok_new)+
  then show ?thesis using assms
    by (auto simp: agrees_def new_exchange_def new_ids_def ci_set_initial_dcid_def ci_new_def Let_def cd_new_def
        cd_clear_and_insert_def cd_ids_def ce_id_def ss_new_def)
qed

lemma agrees_steps: "exchange_step\<^sup>*\<^sup>* x x' \<Longrightarrow> agrees iss x \<Longrightarrow> \<exists>iss'. agrees iss' x'"
  by (induction rule: rtranclp_induct) (use agrees_step in blast)+

text \<open>
  C30: One endpoint issues connection IDs to another, each of them fresh and none with a forced renewal, and the
  network loses, delays, repeats and reorders their frames.  No \<open>NEW_CONNECTION_ID\<close> frame under way is ever an
  invalid frame for the receiver (one that contradicts what it holds), every retirement under way is of a number that
  was issued, and the connection IDs that both hold are the same exactly when their numbers are.  The other errors
  (too many connection IDs, none left, a state that is invalid) are not excluded.
\<close>

theorem endpoints_agree:
  assumes "exchange_step\<^sup>*\<^sup>* (new_exchange a b cid) x"
    and "cc_ids a = new_ids n cid token bcid btoken" and "cc_ids b = new_ids m bcid btoken cid token" and "cid \<noteq> []"
  shows "(\<forall>s rpt i t. NewConnectionId s rpt i t \<in> ex_new x \<longrightarrow>
        fst (process_new_connection_id s rpt i t (ex_b x)) \<noteq> Inl QUICHE_ERR_INVALID_FRAME)
    \<and> (\<forall>s \<in> ex_retired x. s < ci_next_scid_seq (cc_ids (ex_a x)))
    \<and> (\<forall>e \<in> set (cd_inner (ci_scids (cc_ids (ex_a x)))). \<forall>e' \<in> set (cd_inner (ci_dcids (cc_ids (ex_b x)))).
        ce_seq e = ce_seq e' \<longleftrightarrow> ce_cid e = ce_cid e')"
proof -
  obtain iss where ag: "agrees iss x" using agrees_steps [OF assms(1) agrees_new [OF assms(2-4)]] by blast
  have sc: "\<forall>t \<in> set (cd_ids (ci_scids (cc_ids (ex_a x)))). iss (fst t) = Some (snd t)"
    and dc: "\<forall>t \<in> set (cd_ids (ci_dcids (cc_ids (ex_b x)))). iss (fst t) = Some (snd t)"
    and inj: "\<And>s s' v v'. iss s = Some v \<Longrightarrow> iss s' = Some v' \<Longrightarrow> fst v = fst v' \<Longrightarrow> s = s'"
    and rt: "ex_retired x \<subseteq> {..<ci_next_scid_seq (cc_ids (ex_a x))}"
    using ag unfolding agrees_def by blast+
  have "ce_seq e = ce_seq e' \<longleftrightarrow> ce_cid e = ce_cid e'"
    if "e \<in> set (cd_inner (ci_scids (cc_ids (ex_a x))))" "e' \<in> set (cd_inner (ci_dcids (cc_ids (ex_b x))))" for e e'
  proof -
    have "iss (ce_seq e) = Some (ce_cid e, ce_reset_token e)" "iss (ce_seq e') = Some (ce_cid e', ce_reset_token e')"
      using sc dc that by (auto simp: cd_ids_def ce_id_def)
    with inj show ?thesis by fastforce
  qed
  with agrees_learn(2) [OF ag] rt show ?thesis by blast
qed

lemma exchange_rtranclp_step: "exchange_step\<^sup>*\<^sup>* x y \<Longrightarrow> exchange_step y z \<Longrightarrow> exchange_step\<^sup>*\<^sup>* x z"
  by (rule rtranclp.rtrancl_into_rtrancl)

theorem endpoints_agree_witness:
  "\<exists>x. exchange_step\<^sup>*\<^sup>* (new_exchange demo_cids (demo_cids\<lparr>cc_ids := new_ids 2 [2] (Some 22) [1] (Some 11)\<rparr>) [1]) x
     \<and> ex_new x = {NewConnectionId 1 0 [3] (be_bytes 16 12)}
     \<and> fst (process_new_connection_id 1 0 [3] (be_bytes 16 12) (ex_b x)) \<noteq> Inl QUICHE_ERR_INVALID_FRAME"
proof -
  let ?b = "demo_cids\<lparr>cc_ids := new_ids 2 [2] (Some 22) [1] (Some 11)\<rparr>"
  let ?x0 = "new_exchange demo_cids ?b [1]"
  let ?a1 = "cid_step (Call_new_scid [3] [12] False) demo_cids"
  let ?x1 = "?x0\<lparr>ex_a := ?a1, ex_issued := {[3], [1]}\<rparr>"
  let ?f = "NewConnectionId 1 0 [3] (be_bytes 16 12) :: unit cid_frame"
  let ?x2 = "?x1\<lparr>ex_a := ?a1\<lparr>cc_ids := mark_advertise_new_scid_seq 1 False (cc_ids ?a1)\<rparr>, ex_new := {?f}\<rparr>"
  have a1: "next_advertise_new_scid_seq (cc_ids ?a1) = Some 1" "get_new_connection_id_frame_for 1 (cc_ids ?a1) = Inr ?f"
    by (simp_all add: demo_cids_def new_ids_def ci_set_initial_dcid_def ci_new_def Let_def cd_new_def cd_clear_and_insert_def
        ffi_new_scid_def conn_new_scid_def ci_new_scid_def request_retirement_def cd_len_def cd_insert_def cd_update_def
        mark_advertise_new_scid_seq_def next_advertise_new_scid_seq_def get_new_connection_id_frame_for_def cd_get_def
        be_nat_def del: be_bytes.simps)
  have "exchange_step ?x0 ?x1"
    using exchange_step.issue [of "[3]" ?x0 "[12]"] by (simp add: new_exchange_def)
  moreover have "exchange_step ?x1 ?x2"
    using exchange_step.announce [of ?x1 1 ?f] a1 by (simp add: new_exchange_def)
  ultimately have run: "exchange_step\<^sup>*\<^sup>* ?x0 ?x2" using exchange_rtranclp_step by blast
  have "?f \<in> ex_new ?x2" by simp
  with endpoints_agree [OF run, of 2 "Some 11" "[2]" "Some 22" 2]
  have "fst (process_new_connection_id 1 0 [3] (be_bytes 16 12) (ex_b ?x2)) \<noteq> Inl QUICHE_ERR_INVALID_FRAME"
    by (simp add: demo_cids_def del: be_bytes.simps)
  with run show ?thesis by (intro exI [of _ ?x2]) simp
qed

section \<open>Frames on the wire\<close>

lemma then_put_bytes:
  "then_put (no_panic (octets_put_bytes a)) (no_panic (octets_put_bytes b)) = no_panic (octets_put_bytes (a @ b))"
  by (intro ext) (simp add: then_put_def no_panic_def octets_put_bytes_def)

lemma put_varint_bytes:
  assumes "n < 2 ^ 62"
  shows "octets_put_varint (of_nat n) = no_panic (octets_put_bytes (varint_bytes n))"
proof -
  have "unat (of_nat n :: u64) = n" using assms by (simp add: unat_of_nat)
  then show ?thesis using assms by (intro ext) (simp add: octets_put_varint_Some no_panic_def)
qed

text \<open>A \<open>NEW_CONNECTION_ID\<close> frame as it is on the wire.\<close>

definition new_cid_bytes :: "nat \<Rightarrow> nat \<Rightarrow> bytes \<Rightarrow> bytes \<Rightarrow> bytes" where
  "new_cid_bytes s rpt cid token =
     varint_bytes 0x18 @ varint_bytes s @ varint_bytes rpt @ [of_nat (length cid)] @ cid @ token"

lemma new_cid_to_bytes:
  assumes "s < 2 ^ 62" and "rpt < 2 ^ 62"
  shows "cid_frame_to_bytes x (NewConnectionId s rpt cid token) = no_panic (octets_put_bytes (new_cid_bytes s rpt cid token))"
  using put_varint_bytes [of "0x18"]
  by (simp add: put_varint_bytes [OF assms(1)] put_varint_bytes [OF assms(2)] octets_put_u8_def then_put_bytes new_cid_bytes_def)

lemma get_u8_Cons: "octets_get_u8 (a # r) = Inr (a, r)"
  by (simp add: octets_get_u8_def octets_get_bytes_def oct_bind_def oct_ret_def be_nat_def)

lemma new_cid_from_bytes:
  assumes "s < 2 ^ 62" and "rpt < 2 ^ 62" and "length token = 16" and "length cid < 256"
  shows "cid_frame_from_bytes other pkt (new_cid_bytes s rpt cid token @ r) =
    (if 1 \<le> length cid \<and> length cid \<le> 20
     then if pkt = Short \<or> pkt = ZeroRTT then Inr (NewConnectionId s rpt cid token, r) else Inl QUICHE_ERR_INVALID_PACKET
     else Inl QUICHE_ERR_INVALID_FRAME)"
proof -
  have n: "unat (of_nat s :: u64) = s" "unat (of_nat rpt :: u64) = rpt" using assms by (simp_all add: unat_of_nat)
  have l: "unat (of_nat (length cid) :: u8) = length cid" using assms(4) by (simp add: unat_of_nat)
  then have c: "1 \<le> (of_nat (length cid) :: u8) \<longleftrightarrow> 1 \<le> length cid"
      "of_nat (length cid) \<le> MAX_CID_LEN \<longleftrightarrow> length cid \<le> 20"
    by (simp_all add: word_le_nat_alt MAX_CID_LEN_def)
  show ?thesis
    using octets_get_varint_bytes [of "0x18"] octets_get_varint_bytes [OF assms(1)] octets_get_varint_bytes [OF assms(2)] l
    by (simp add: cid_frame_from_bytes_def new_cid_bytes_def oct_bind_def read_new_connection_id_def get_u8_Cons
        octets_get_bytes_def assms(3) oct_ret_def oct_err_def frame_allowed_def n c del: One_nat_def)
qed

lemma new_cid_wire_len:
  assumes "s < 2 ^ 62" and "rpt < 2 ^ 62"
  shows "cid_frame_wire_len x (NewConnectionId s rpt cid token) = Some (length (new_cid_bytes s rpt cid token))"
proof -
  have v: "varint_len (of_nat n) = Some (length (varint_bytes n))" if "n < 2 ^ 62" for n
  proof -
    have "unat (of_nat n :: u64) = n" using that by (simp add: unat_of_nat)
    then show ?thesis using that by (simp add: varint_len_unat length_varint_bytes)
  qed
  have "length (varint_bytes 0x18) = 1" by (simp add: length_varint_bytes)
  then show ?thesis using v [OF assms(1)] v [OF assms(2)] by (simp add: new_cid_bytes_def)
qed

text \<open>
  C31: A \<open>NEW_CONNECTION_ID\<close> frame fills exactly the room that is computed for it, and the peer's reader gives it back,
  in a 0-RTT or 1-RTT packet, when the connection ID has between 1 and 20 bytes; for any other length, which
  \<open>quiche_conn_new_scid\<close> accepts, it is an invalid frame, and in a packet of another type an invalid packet.
\<close>

theorem new_cid_frame_roundtrip:
  assumes "s < 2 ^ 62" and "rpt < 2 ^ 62" and "length token = 16" and "length cid < 256"
    and "cid_frame_to_bytes x (NewConnectionId s rpt cid token) cap [] = Some (Inr out)"
  shows "cid_frame_wire_len y (NewConnectionId s rpt cid token) = Some (length out)
    \<and> cid_frame_from_bytes other pkt (out @ r) =
      (if 1 \<le> length cid \<and> length cid \<le> 20
       then if pkt = Short \<or> pkt = ZeroRTT then Inr (NewConnectionId s rpt cid token, r) else Inl QUICHE_ERR_INVALID_PACKET
       else Inl QUICHE_ERR_INVALID_FRAME)"
proof -
  have out: "out = new_cid_bytes s rpt cid token"
    using assms(5) by (simp add: new_cid_to_bytes [OF assms(1,2)] no_panic_def octets_put_bytes_def
        del: cid_frame_to_bytes.simps split: if_splits)
  show ?thesis unfolding out by (intro conjI new_cid_wire_len new_cid_from_bytes assms)
qed

theorem new_cid_frame_roundtrip_witness:
  "\<exists>out. cid_frame_to_bytes (\<lambda>_ _ _. None) (NewConnectionId 1 0 (replicate 21 7) (replicate 16 9)) 100 [] = Some (Inr out)
     \<and> cid_frame_from_bytes (\<lambda>_ _. Inl QUICHE_ERR_INVALID_FRAME :: quiche_error + unit \<times> bytes) Short (out @ [5]) =
       Inl QUICHE_ERR_INVALID_FRAME"
proof -
  let ?f = "NewConnectionId 1 0 (replicate 21 7) (replicate 16 9) :: unit cid_frame"
  have "length (new_cid_bytes 1 0 (replicate 21 7) (replicate 16 9)) = 41"
    by (simp add: new_cid_bytes_def length_varint_bytes)
  then have "cid_frame_to_bytes (\<lambda>_ _ _. None) ?f 100 [] = Some (Inr (new_cid_bytes 1 0 (replicate 21 7) (replicate 16 9)))"
    by (simp add: new_cid_to_bytes no_panic_def octets_put_bytes_def del: cid_frame_to_bytes.simps)
  with new_cid_frame_roundtrip [OF _ _ _ _ this, where r = "[5]" and pkt = Short
      and other = "\<lambda>_ _. Inl QUICHE_ERR_INVALID_FRAME :: quiche_error + unit \<times> bytes"]
  show ?thesis by auto
qed

section \<open>A renewal that is forced\<close>

lemma find_seq_unique:
  "e \<in> set es \<Longrightarrow> distinct (map ce_seq es) \<Longrightarrow> find (\<lambda>x. ce_seq x = ce_seq e) (es @ xs) = Some e"
  by (induction es) force+

lemma cd_get_unique:
  assumes "cd_ok d" and "e \<in> set (cd_inner d)"
  shows "cd_get (ce_seq e) (d\<lparr>cd_inner := cd_inner d @ xs\<rparr>) = Some e"
  using assms find_seq_unique [of e "cd_inner d" xs] by (simp add: cd_get_def cd_ok_def)

text \<open>Frames of connection IDs that are still held are written one after the other, as far as there is room.\<close>

lemma push_new_cid:
  assumes "s < 2 ^ 62" and "rpt < 2 ^ 62" and "length w + left \<le> cap"
  shows "push_frame (NewConnectionId s rpt cid token) cap left w =
    (let f = new_cid_bytes s rpt cid token in if length f \<le> left then Pushed (left - length f) (w @ f) else No_room)"
  unfolding push_frame_def new_cid_wire_len [OF assms(1,2)] new_cid_to_bytes [OF assms(1,2)] Let_def
  using assms(3) by (simp add: no_panic_def octets_put_bytes_def)

definition announceable :: "connection_ids \<Rightarrow> bool" where
  "announceable ids \<longleftrightarrow> ci_retire_prior_to ids < 2 ^ 62 \<and>
     (\<forall>s \<in> set (ci_advertise_new_scid_seqs ids). s < 2 ^ 62 \<and>
        (\<exists>e t. cd_get s (ci_scids ids) = Some e \<and> ce_reset_token e = Some t))"

lemma announceable_marked: "announceable ids \<Longrightarrow> announceable (mark_advertise_new_scid_seq s False ids)"
  unfolding announceable_def mark_advertise_new_scid_seq_def using set_remove1_subset [of s "ci_advertise_new_scid_seqs ids"] by (simp add: subset_iff)

lemma emit_announceable:
  "announceable ids \<Longrightarrow> length w + left \<le> cap \<Longrightarrow>
     \<exists>z left' ids'. emit_new_cids cap left w ids = (Some (Inr (w @ z, left')), ids')"
proof (induction cap left w ids rule: emit_new_cids.induct)
  case (1 cap left w ids)
  note sim = emit_new_cids.simps [of cap left w ids]
  show ?case
  proof (cases "next_advertise_new_scid_seq ids")
    case None
    then show ?thesis unfolding sim by (simp add: exI [of _ "[]"])
  next
    case (Some s)
    then have s: "s \<in> set (ci_advertise_new_scid_seqs ids)" by (auto simp: next_advertise_new_scid_seq_def split: list.splits)
    then obtain e t where e: "cd_get s (ci_scids ids) = Some e" "ce_reset_token e = Some t" and b: "s < 2 ^ 62"
        "ci_retire_prior_to ids < 2 ^ 62"
      using 1(2) unfolding announceable_def by blast
    let ?f = "NewConnectionId s (ci_retire_prior_to ids) (ce_cid e) (be_bytes 16 (unat t)) :: unit cid_frame"
    let ?b = "new_cid_bytes s (ci_retire_prior_to ids) (ce_cid e) (be_bytes 16 (unat t))"
    have g: "get_new_connection_id_frame_for s ids = Inr ?f" using e by (simp add: get_new_connection_id_frame_for_def)
    note pf = push_new_cid [OF b 1(3), of "ce_cid e" "be_bytes 16 (unat t)", unfolded Let_def]
    show ?thesis
    proof (cases "length ?b \<le> left")
      case True
      then have p: "push_frame ?f cap left w = Pushed (left - length ?b) (w @ ?b)" by (simp only: pf if_True)
      note announceable_marked [OF 1(2), of s]
      moreover have "length (w @ ?b) + (left - length ?b) \<le> cap" using 1(3) True by simp
      ultimately obtain z left' ids' where
        "emit_new_cids cap (left - length ?b) (w @ ?b) (mark_advertise_new_scid_seq s False ids) =
          (Some (Inr ((w @ ?b) @ z, left')), ids')"
        using 1(1) [OF Some g p] by blast
      then have "emit_new_cids cap left w ids = (Some (Inr (w @ (?b @ z), left')), ids')"
        unfolding sim Some g option.case sum.case p push_result.case by simp
      then show ?thesis by blast
    next
      case False
      then have p: "push_frame ?f cap left w = No_room" by (simp only: pf if_False)
      have "emit_new_cids cap left w ids = (Some (Inr (w @ [], left)), ids)"
        unfolding sim Some g option.case sum.case p push_result.case by simp
      then show ?thesis by blast
    qed
  qed
qed

lemma emit_first:
  assumes "announceable ids" and "length w + left \<le> cap" and "next_advertise_new_scid_seq ids = Some s"
    and "cd_get s (ci_scids ids) = Some e" and "ce_reset_token e = Some t"
    and "length (new_cid_bytes s (ci_retire_prior_to ids) (ce_cid e) (be_bytes 16 (unat t))) \<le> left"
  shows "\<exists>z left' ids'. emit_new_cids cap left w ids =
    (Some (Inr (w @ new_cid_bytes s (ci_retire_prior_to ids) (ce_cid e) (be_bytes 16 (unat t)) @ z, left')), ids')"
proof -
  let ?b = "new_cid_bytes s (ci_retire_prior_to ids) (ce_cid e) (be_bytes 16 (unat t))"
  let ?f = "NewConnectionId s (ci_retire_prior_to ids) (ce_cid e) (be_bytes 16 (unat t)) :: unit cid_frame"
  let ?ids = "mark_advertise_new_scid_seq s False ids"
  have "s \<in> set (ci_advertise_new_scid_seqs ids)" using assms(3) by (auto simp: next_advertise_new_scid_seq_def split: list.splits)
  then have b: "s < 2 ^ 62" "ci_retire_prior_to ids < 2 ^ 62" using assms(1) by (auto simp: announceable_def)
  have g: "get_new_connection_id_frame_for s ids = Inr ?f" using assms(4,5) by (simp add: get_new_connection_id_frame_for_def)
  have p: "push_frame ?f cap left w = Pushed (left - length ?b) (w @ ?b)"
    using push_new_cid [OF b assms(2), of "ce_cid e" "be_bytes 16 (unat t)", unfolded Let_def] assms(6) by (simp only: if_True)
  from emit_announceable [OF announceable_marked [OF assms(1), of s], of "w @ ?b" "left - length ?b" cap] assms(2,6) obtain z left' ids' where
    "emit_new_cids cap (left - length ?b) (w @ ?b) ?ids = (Some (Inr ((w @ ?b) @ z, left')), ids')" by auto
  then have "emit_new_cids cap left w ids = (Some (Inr (w @ ?b @ z, left')), ids')"
    unfolding emit_new_cids.simps [of cap left w ids] assms(3) g option.case sum.case p push_result.case by simp
  then show ?thesis by blast
qed

text \<open>What a forced renewal does to the identifiers, whether it succeeds or not.\<close>

lemma forced_renewal_ids:
  assumes "ids_ok (cc_ids c)" and "\<not> ci_zero_length_scid (cc_ids c)"
    and "ci_source_conn_id_limit (cc_ids c) \<le> quiche_conn_active_scids cid_api c"
    and "lowest_usable_scid_seq (cc_ids c) = Inr n" and "ffi_new_scid c scid token True = (r, c')"
  obtains "cc_ids c' = (cc_ids c)\<lparr>ci_retire_prior_to := n + 1\<rparr>"
  | x where "ce_seq x = ci_next_scid_seq (cc_ids c)" "ce_reset_token x \<noteq> None"
      "cc_ids c' = (cc_ids c)\<lparr>ci_retire_prior_to := n + 1,
         ci_scids := (ci_scids (cc_ids c))\<lparr>cd_inner := cd_inner (ci_scids (cc_ids c)) @ [x]\<rparr>,
         ci_next_scid_seq := ci_next_scid_seq (cc_ids c) + 1,
         ci_advertise_new_scid_seqs := ci_advertise_new_scid_seqs (cc_ids c) @ [ci_next_scid_seq (cc_ids c)]\<rparr>"
proof -
  let ?x = "\<lparr>ce_cid = scid, ce_seq = ci_next_scid_seq (cc_ids c), ce_reset_token = Some (of_nat (be_nat token)),
    ce_path_id = None\<rparr> :: cid_entry"
  have req: "request_retirement True (cc_ids c) = Inr ((cc_ids c)\<lparr>ci_retire_prior_to := n + 1\<rparr>)"
    using assms(3,4) by (simp add: request_retirement_def cid_api_def active_source_cids_def)
  have new: "ci_next_scid_seq (cc_ids c) \<notin> ce_seq ` set (cd_inner (ci_scids (cc_ids c)))"
    using assms(1) by (auto simp: ids_ok_def)
  have c': "cc_ids c' = snd (ci_new_scid scid (Some (of_nat (be_nat token))) True None True (cc_ids c))"
    using assms(5) by (auto simp: ffi_new_scid_def conn_new_scid_def split: prod.splits sum.splits)
  show thesis
  proof (cases "find (\<lambda>e. ce_cid e = scid) (cd_inner (ci_scids (cc_ids c))) = None
      \<and> \<not> cd_capacity (ci_scids (cc_ids c)) \<le> length (cd_inner (ci_scids (cc_ids c)))")
    case True
    then show ?thesis using c' cd_insert_new [of ?x "ci_scids (cc_ids c)"] new assms(2) req
      by (intro that(2) [of ?x]) (simp_all add: ci_new_scid_def Let_def mark_advertise_new_scid_seq_def)
  next
    case False
    then have "cc_ids c' = (cc_ids c)\<lparr>ci_retire_prior_to := n + 1\<rparr>"
      using c' cd_insert_new [of ?x "ci_scids (cc_ids c)"] new assms(2) req
      by (auto simp: ci_new_scid_def Let_def split: option.split)
    then show ?thesis by (rule that(1))
  qed
qed

lemma find_last: "P x \<Longrightarrow> \<forall>e \<in> set es. \<not> P e \<Longrightarrow> find P (es @ [x]) = Some x"
  by (induction es) auto

lemma cd_get_append: "cd_get s d = Some e \<Longrightarrow> cd_get s (d\<lparr>cd_inner := cd_inner d @ xs\<rparr>) = Some e"
proof -
  have "find P es = Some e \<Longrightarrow> find P (es @ xs) = Some e" for P and es :: "cid_entry list"
    by (induction es) (auto split: if_splits)
  then show "cd_get s d = Some e \<Longrightarrow> cd_get s (d\<lparr>cd_inner := cd_inner d @ xs\<rparr>) = Some e" by (simp add: cd_get_def)
qed

text \<open>
  C33: The application forces the renewal of its connection IDs while as many are active as the peer allows, and the
  announcement of the lowest usable one, number \<open>n\<close>, is the next to be sent (not sent so far, or to be sent again
  after a loss).  Then, even when the call is refused with an error, the next packet that is filled starts with a
  frame for \<open>n\<close> that asks to retire all below \<open>n + 1\<close>; the peer reads it as that, and when it does not know this
  connection ID, it takes the frame as invalid.  (A forced renewal with nothing left to announce sends no such frame.)
\<close>

theorem forced_renewal_refused:
  assumes "ids_ok (cc_ids c)" and "\<not> ci_zero_length_scid (cc_ids c)"
    and "ci_source_conn_id_limit (cc_ids c) \<le> quiche_conn_active_scids cid_api c"
    and "lowest_usable_scid_seq (cc_ids c) = Inr (ce_seq e)" and "e \<in> set (cd_inner (ci_scids (cc_ids c)))"
    and "ce_reset_token e = Some t" and "1 \<le> length (ce_cid e)" and "length (ce_cid e) \<le> 20"
    and "next_advertise_new_scid_seq (cc_ids c) = Some (ce_seq e)"
    and "announceable (cc_ids c)" and "ci_next_scid_seq (cc_ids c) < 2 ^ 62"
    and "ffi_new_scid c scid token True = (r, c')"
    and "length (new_cid_bytes (ce_seq e) (ce_seq e + 1) (ce_cid e) (be_bytes 16 (unat t))) \<le> left"
    and "length w + left \<le> cap"
    and "\<not> ci_zero_length_dcid (cc_ids b)"
    and "\<And>e'. e' \<in> set (cd_inner (ci_dcids (cc_ids b))) \<Longrightarrow> ce_cid e' \<noteq> ce_cid e \<and> ce_seq e' \<noteq> ce_seq e"
  shows "\<exists>out rest left' ids'. emit_new_cids cap left w (cc_ids c') = (Some (Inr (w @ out, left')), ids')
    \<and> cid_frame_from_bytes other Short out =
        Inr (NewConnectionId (ce_seq e) (ce_seq e + 1) (ce_cid e) (be_bytes 16 (unat t)), rest)
    \<and> process_new_connection_id (ce_seq e) (ce_seq e + 1) (ce_cid e) (be_bytes 16 (unat t)) b =
        (Inl QUICHE_ERR_INVALID_FRAME, b)"
proof -
  let ?n = "ce_seq e" and ?tok = "be_bytes 16 (unat t)"
  let ?f = "new_cid_bytes ?n (?n + 1) (ce_cid e) ?tok"
  have ok: "cd_ok (ci_scids (cc_ids c))" and nn: "?n < ci_next_scid_seq (cc_ids c)"
    using assms(1,5) by (auto simp: ids_ok_def)
  have ge: "cd_get ?n (ci_scids (cc_ids c)) = Some e" using cd_get_unique [OF ok assms(5), of "[]"] by simp
  from assms(9) obtain q where adv: "ci_advertise_new_scid_seqs (cc_ids c) = ?n # q"
    by (auto simp: next_advertise_new_scid_seq_def split: list.splits)
  from assms(1-4,12) have "announceable (cc_ids c') \<and> next_advertise_new_scid_seq (cc_ids c') = Some ?n
    \<and> cd_get ?n (ci_scids (cc_ids c')) = Some e \<and> ci_retire_prior_to (cc_ids c') = ?n + 1"
  proof (cases rule: forced_renewal_ids)
    case 1
    then show ?thesis using assms(10,11) nn ge adv by (simp add: announceable_def next_advertise_new_scid_seq_def)
  next
    case (2 x)
    have known: "\<exists>e t. cd_get s (ci_scids (cc_ids c')) = Some e \<and> ce_reset_token e = Some t"
      if "s \<in> set (ci_advertise_new_scid_seqs (cc_ids c'))" for s
    proof (cases "s \<in> set (ci_advertise_new_scid_seqs (cc_ids c))")
      case True
      then show ?thesis using assms(10) cd_get_append [of s "ci_scids (cc_ids c)" _ "[x]"]
        unfolding announceable_def 2(3) by fastforce
    next
      case False
      then have s: "s = ci_next_scid_seq (cc_ids c)" using that 2(3) by auto
      have "find (\<lambda>e. ce_seq e = s) (cd_inner (ci_scids (cc_ids c)) @ [x]) = Some x"
        using assms(1) 2(1) by (intro find_last) (auto simp: ids_ok_def s)
      then show ?thesis using 2(2) by (auto simp: 2(3) cd_get_def)
    qed
    have "\<forall>s \<in> set (ci_advertise_new_scid_seqs (cc_ids c')). s < 2 ^ 62"
      using assms(10,11) by (auto simp: announceable_def 2(3))
    then have "announceable (cc_ids c')" using known nn assms(11) by (simp add: announceable_def 2(3))
    then show ?thesis using adv cd_get_append [OF ge, of "[x]"] by (simp add: 2(3) next_advertise_new_scid_seq_def)
  qed
  then have c': "announceable (cc_ids c')" "next_advertise_new_scid_seq (cc_ids c') = Some ?n"
    "cd_get ?n (ci_scids (cc_ids c')) = Some e" "ci_retire_prior_to (cc_ids c') = ?n + 1" by simp_all
  from emit_first [OF c'(1) assms(14) c'(2,3) assms(6)] assms(13) obtain z left' ids' where
    z: "emit_new_cids cap left w (cc_ids c') = (Some (Inr (w @ ?f @ z, left')), ids')"
    unfolding c'(4) by blast
  have l: "?n < 2 ^ 62" "?n + 1 < 2 ^ 62" "length ?tok = 16" "length (ce_cid e) < 256" using assms(8,11) nn by simp_all
  have rd: "cid_frame_from_bytes other Short (?f @ z) = Inr (NewConnectionId ?n (?n + 1) (ce_cid e) ?tok, z)"
    using new_cid_from_bytes [OF l, of other Short z] assms(7,8) by simp
  have "find (\<lambda>e'. ce_cid e' = ce_cid e \<or> ce_seq e' = ce_seq e) (cd_inner (ci_dcids (cc_ids b))) = None"
    using assms(16) by (auto simp: find_None_iff)
  then have "process_new_connection_id ?n (?n + 1) (ce_cid e) ?tok b = (Inl QUICHE_ERR_INVALID_FRAME, b)"
    using assms(15) by (simp add: process_new_connection_id_def ci_new_dcid_def del: be_bytes.simps)
  with z rd show ?thesis by blast
qed

lemmas demo_cid_defs = demo_cids_def new_ids_def ci_set_initial_dcid_def ci_new_def Let_def cd_new_def cd_clear_and_insert_def

text \<open>Two connection IDs of one's own, of which the second is not announced yet.\<close>

definition demo_cids2 :: cid_conn where
  "demo_cids2 = cid_step (Call_new_scid [3] [12] False) demo_cids"

lemma demo_cids2_ids:
  "cc_ids demo_cids2 = (new_ids 2 [1] (Some 11) [2] (Some 22))
     \<lparr>ci_scids := \<lparr>cd_inner = [\<lparr>ce_cid = [1], ce_seq = 0, ce_reset_token = Some 11, ce_path_id = Some 0\<rparr>,
         \<lparr>ce_cid = [3], ce_seq = 1, ce_reset_token = Some 12, ce_path_id = None\<rparr>], cd_capacity = 3\<rparr>,
       ci_next_scid_seq := 2, ci_advertise_new_scid_seqs := [1]\<rparr>"
  by (simp add: demo_cids2_def demo_cid_defs ffi_new_scid_def conn_new_scid_def ci_new_scid_def request_retirement_def
      cd_len_def cd_insert_def cd_update_def mark_advertise_new_scid_seq_def be_nat_def)

lemma demo_cids2_ok: "ids_ok (cc_ids demo_cids2)"
  unfolding demo_cids2_def
  by (rule cid_step_ok) (unfold demo_cids_def new_ids_def, simp only: cid_conn.simps, rule ids_ok_new)

text \<open>Then the renewal is forced twice before anything could be sent.\<close>

definition demo_cids3 :: cid_conn where
  "demo_cids3 = cid_step (Call_new_scid [4] [13] True) demo_cids2"

lemma demo_cids3_ids:
  "cc_ids demo_cids3 = (cc_ids demo_cids2)
     \<lparr>ci_scids := \<lparr>cd_inner = [\<lparr>ce_cid = [1], ce_seq = 0, ce_reset_token = Some 11, ce_path_id = Some 0\<rparr>,
         \<lparr>ce_cid = [3], ce_seq = 1, ce_reset_token = Some 12, ce_path_id = None\<rparr>,
         \<lparr>ce_cid = [4], ce_seq = 2, ce_reset_token = Some 13, ce_path_id = None\<rparr>], cd_capacity = 3\<rparr>,
       ci_next_scid_seq := 3, ci_retire_prior_to := 1, ci_advertise_new_scid_seqs := [1, 2]\<rparr>"
  by (simp add: demo_cids3_def ffi_new_scid_def conn_new_scid_def ci_new_scid_def request_retirement_def demo_cids2_ids
      demo_cid_defs cd_len_def cd_insert_def cd_update_def mark_advertise_new_scid_seq_def be_nat_def
      lowest_usable_scid_seq_def lowest_def)

text \<open>A peer that has learnt the first one only.\<close>

definition demo_peer :: cid_conn where
  "demo_peer = demo_cids\<lparr>cc_ids := new_ids 2 [2] (Some 22) [1] (Some 11)\<rparr>"

theorem forced_renewal_refused_witness:
  "fst (ffi_new_scid demo_cids3 [5] [14] True) = (quiche_error_code QUICHE_ERR_ID_LIMIT, None)
   \<and> (\<exists>out rest left' ids'.
      emit_new_cids 1200 1200 [] (cc_ids (snd (ffi_new_scid demo_cids3 [5] [14] True))) = (Some (Inr (out, left')), ids')
      \<and> cid_frame_from_bytes (\<lambda>_ _. Inl QUICHE_ERR_INVALID_FRAME :: quiche_error + unit \<times> bytes) Short out =
          Inr (NewConnectionId 1 2 [3] (be_bytes 16 12), rest)
      \<and> process_new_connection_id 1 2 [3] (be_bytes 16 12) demo_peer = (Inl QUICHE_ERR_INVALID_FRAME, demo_peer))"
proof -
  let ?e = "\<lparr>ce_cid = [3], ce_seq = 1, ce_reset_token = Some 12, ce_path_id = None\<rparr> :: cid_entry"
  let ?other = "\<lambda>_ _. Inl QUICHE_ERR_INVALID_FRAME :: quiche_error + unit \<times> bytes"
  have ok: "ids_ok (cc_ids demo_cids3)" unfolding demo_cids3_def by (rule cid_step_ok [OF demo_cids2_ok])
  have nz: "\<not> ci_zero_length_scid (cc_ids demo_cids3)" and e: "?e \<in> set (cd_inner (ci_scids (cc_ids demo_cids3)))"
    and lim: "ci_source_conn_id_limit (cc_ids demo_cids3) \<le> quiche_conn_active_scids cid_api demo_cids3"
    and nx: "next_advertise_new_scid_seq (cc_ids demo_cids3) = Some (ce_seq ?e)"
    and an: "announceable (cc_ids demo_cids3)" and sm: "ci_next_scid_seq (cc_ids demo_cids3) < 2 ^ 62"
    by (simp_all add: demo_cids3_ids demo_cids2_ids demo_cid_defs cid_api_def active_source_cids_def cd_len_def
        next_advertise_new_scid_seq_def announceable_def cd_get_def)
  have low: "lowest_usable_scid_seq (cc_ids demo_cids3) = Inr (ce_seq ?e)" by (auto simp: lowest_usable_iff demo_cids3_ids)
  obtain r c' where c': "ffi_new_scid demo_cids3 [5] [14] True = (r, c')" by fastforce
  have r: "fst (ffi_new_scid demo_cids3 [5] [14] True) = (quiche_error_code QUICHE_ERR_ID_LIMIT, None)"
    by (simp add: ffi_new_scid_def conn_new_scid_def ci_new_scid_def request_retirement_def low demo_cids3_ids demo_cids2_ids
        demo_cid_defs cd_len_def cd_insert_def cd_update_def lowest_usable_scid_seq_def lowest_def)
  have t: "ce_reset_token ?e = Some 12" by simp
  have b: "\<not> ci_zero_length_dcid (cc_ids demo_peer)"
    "\<And>e'. e' \<in> set (cd_inner (ci_dcids (cc_ids demo_peer))) \<Longrightarrow> ce_cid e' \<noteq> ce_cid ?e \<and> ce_seq e' \<noteq> ce_seq ?e"
    by (auto simp: demo_peer_def demo_cid_defs)
  have n: "ce_seq ?e = 1" "ce_cid ?e = [3]" "unat (12 :: 128 word) = 12" by simp_all
  have l: "1 \<le> length (ce_cid ?e)" "length (ce_cid ?e) \<le> 20" by simp_all
  have room: "length (new_cid_bytes (ce_seq ?e) (ce_seq ?e + 1) (ce_cid ?e) (be_bytes 16 (unat (12 :: 128 word)))) \<le> 1200"
    "length ([] :: bytes) + 1200 \<le> 1200" by (simp_all add: new_cid_bytes_def length_varint_bytes)
  from forced_renewal_refused [OF ok nz lim low e t l nx an sm c' room b, of ?other] r
  show ?thesis by (simp only: n one_add_one append_Nil c' snd_conv fst_conv simp_thms)
qed

section \<open>A frame that arrives late\<close>

lemma relinked_largest:
  "relinked ids ids' \<Longrightarrow> ci_largest_peer_retire_prior_to ids' = ci_largest_peer_retire_prior_to ids"
  by (auto simp: relinked_def)

text \<open>
  C34: A connection ID of the peer that the application has retired comes back when its frame arrives once more: it is
  stored and counted as available while its retirement is still to be announced.
\<close>

theorem late_frame_revives:
  assumes "ids_ok (cc_ids c)" and "e \<in> set (cd_inner (ci_dcids (cc_ids c)))" and "ce_reset_token e = Some t"
    and "ffi_retire_dcid c (ce_seq e) = (0, c1)" and "rpt \<le> ci_largest_peer_retire_prior_to (cc_ids c)"
  shows "\<exists>c2. process_new_connection_id (ce_seq e) rpt (ce_cid e) (be_bytes 16 (unat t)) c1 = (Inr (), c2)
    \<and> ce_seq e \<in> ss_inner (ci_retire_dcid_seqs (cc_ids c2))
    \<and> quiche_conn_available_dcids cid_api c2 = quiche_conn_available_dcids cid_api c1 + 1
    \<and> (\<exists>e' \<in> set (cd_inner (ci_dcids (cc_ids c2))). ce_seq e' = ce_seq e \<and> ce_cid e' = ce_cid e)"
proof -
  let ?s = "ce_seq e" and ?tok = "be_bytes 16 (unat t)"
  have err: "quiche_error_code er \<noteq> 0" for er by (cases er) simp_all
  have ok: "ids_ok (cc_ids c1)"
    using cid_step_ok [OF assms(1), of "Call_retire_dcid ?s"] assms(4) by simp
  have "conn_retire_dcid ?s c = (Inr (), c1)"
    using assms(4) err by (auto simp: ffi_retire_dcid_def split: prod.splits sum.splits)
  then obtain p ids where q: "ci_retire_dcid ?s (cc_ids c) = (Inr p, ids)" and rel: "relinked ids (cc_ids c1)"
    by (cases rule: conn_retire_dcid_cases) auto
  from q assms(1) have "\<exists>xs e0 ys s. cd_inner (ci_dcids (cc_ids c)) = xs @ e0 # ys \<and> ce_seq e0 = ?s \<and> \<not> ci_zero_length_dcid (cc_ids c)
      \<and> ids = (cc_ids c)\<lparr>ci_dcids := (ci_dcids (cc_ids c))\<lparr>cd_inner := xs @ ys\<rparr>, ci_retire_dcid_seqs := s\<rparr> \<and> ?s \<in> ss_inner s"
  proof (cases rule: ci_retire_dcid_cases)
    case (removed xs e0 ys s)
    then have "?s \<in> ss_inner s" by simp
    with removed(1,2,4,5) show ?thesis by blast
  qed simp
  then obtain xs e0 ys s where d: "cd_inner (ci_dcids (cc_ids c)) = xs @ e0 # ys" "ce_seq e0 = ?s" "\<not> ci_zero_length_dcid (cc_ids c)"
      "ids = (cc_ids c)\<lparr>ci_dcids := (ci_dcids (cc_ids c))\<lparr>cd_inner := xs @ ys\<rparr>, ci_retire_dcid_seqs := s\<rparr>" "?s \<in> ss_inner s"
    by (elim exE conjE) (rule that)
  have dist: "cd_ok (ci_dcids (cc_ids c))" using assms(1) by (simp add: ids_ok_def)
  then have "e0 = e" using assms(2) d(1,2) by (auto simp: cd_ok_def)
  have ids1: "cd_ids (ci_dcids (cc_ids c1)) = map ce_id (xs @ ys)" "ci_retire_dcid_seqs (cc_ids c1) = s"
    "cd_capacity (ci_dcids (cc_ids c1)) = cd_capacity (ci_dcids (cc_ids c))" "\<not> ci_zero_length_dcid (cc_ids c1)"
    "ci_largest_peer_retire_prior_to (cc_ids c1) = ci_largest_peer_retire_prior_to (cc_ids c)"
  proof -
    have i: "cd_ids (ci_dcids ids) = map ce_id (xs @ ys)" "ci_retire_dcid_seqs ids = s"
      "cd_capacity (ci_dcids ids) = cd_capacity (ci_dcids (cc_ids c))" "\<not> ci_zero_length_dcid ids"
      "ci_largest_peer_retire_prior_to ids = ci_largest_peer_retire_prior_to (cc_ids c)"
      using d(3) by (simp_all add: d(4) cd_ids_def)
    note r = relinked_parts [OF rel]
    have cap: "cd_capacity (ci_dcids (cc_ids c1)) = cd_capacity (ci_dcids ids)"
      using relinked_bounds [OF rel] unfolding id_bounds_def by (simp only: prod.inject)
    show "cd_ids (ci_dcids (cc_ids c1)) = map ce_id (xs @ ys)" by (simp only: r i)
    show "ci_retire_dcid_seqs (cc_ids c1) = s" by (simp only: r i)
    show "cd_capacity (ci_dcids (cc_ids c1)) = cd_capacity (ci_dcids (cc_ids c))" by (simp only: cap i)
    show "\<not> ci_zero_length_dcid (cc_ids c1)" using i(4) by (simp only: r not_False_eq_True)
    show "ci_largest_peer_retire_prior_to (cc_ids c1) = ci_largest_peer_retire_prior_to (cc_ids c)"
      by (simp only: relinked_largest [OF rel] i)
  qed
  have new: "\<forall>x \<in> set (cd_inner (ci_dcids (cc_ids c1))). ce_cid x \<noteq> ce_cid e \<and> ce_seq x \<noteq> ?s"
  proof
    fix x assume "x \<in> set (cd_inner (ci_dcids (cc_ids c1)))"
    then have "ce_id x \<in> set (map ce_id (xs @ ys))" unfolding ids1(1) [symmetric] by (simp add: cd_ids_def)
    then obtain y where y: "y \<in> set (xs @ ys)" "ce_id x = ce_id y" unfolding set_map by (rule imageE)
    have "ce_seq e \<notin> ce_seq ` set (xs @ ys)" "ce_cid e \<notin> ce_cid ` set (xs @ ys)"
      using dist d(1) \<open>e0 = e\<close> by (auto simp: cd_ok_def)
    with imageI [OF y(1), of ce_seq] imageI [OF y(1), of ce_cid] have "ce_seq y \<noteq> ce_seq e" "ce_cid y \<noteq> ce_cid e" by metis+
    then show "ce_cid x \<noteq> ce_cid e \<and> ce_seq x \<noteq> ?s" using y(2) by (simp add: ce_id_def)
  qed
  have len: "length (cd_inner (ci_dcids (cc_ids c1))) < cd_capacity (ci_dcids (cc_ids c1))"
    using ids1(1,3) dist d(1) by (simp add: cd_ok_def cd_ids_maps(3))
  have "ci_largest_peer_retire_prior_to (cc_ids c1) \<le> ?s" using assms(1,2) ids1(5) by (simp add: ids_ok_def)
  then have le: "\<not> ?s < rpt" "\<not> ?s < ci_largest_peer_retire_prior_to (cc_ids c1)" "\<not> ci_largest_peer_retire_prior_to (cc_ids c1) < rpt"
    using assms(5) ids1(5) by auto
  have t: "(of_nat (be_nat ?tok) :: 128 word) = t"
  proof -
    have "be_nat ?tok = unat t" using unsigned_less [of t, where ?'a = nat] by (simp add: be_nat_be_bytes del: be_bytes.simps)
    then show ?thesis by simp
  qed
  let ?e = "\<lparr>ce_cid = ce_cid e, ce_seq = ?s, ce_reset_token = Some t, ce_path_id = None\<rparr>"
  let ?l = "if ci_largest_destination_seq (cc_ids c1) < ?s then ?s else ci_largest_destination_seq (cc_ids c1)"
  let ?ids2 = "(cc_ids c1)\<lparr>ci_largest_destination_seq := ?l,
      ci_dcids := (ci_dcids (cc_ids c1))\<lparr>cd_inner := cd_inner (ci_dcids (cc_ids c1)) @ [?e]\<rparr>\<rparr>"
  have "find (\<lambda>x. ce_cid x = ce_cid e \<or> ce_seq x = ?s) (cd_inner (ci_dcids (cc_ids c1))) = None"
    using new by (auto simp: find_None_iff)
  moreover have "ce_seq ?e \<notin> ce_seq ` set (cd_inner (ci_dcids (cc_ids c1)))" using new by auto
  ultimately have "ci_new_dcid (ce_cid e) ?s t rpt (cc_ids c1) = (Inr (), [], ?ids2)"
    using ids1(4) le cd_insert_new [of ?e "ci_dcids (cc_ids c1)"] len by (simp add: ci_new_dcid_def Let_def insert_dcid_def)
  then have p: "process_new_connection_id ?s rpt (ce_cid e) ?tok c1 = (Inr (), c1\<lparr>cc_ids := ?ids2\<rparr>)"
    using ids1(4) by (simp add: process_new_connection_id_def t del: be_bytes.simps)
  show ?thesis
    by (rule exI [of _ "c1\<lparr>cc_ids := ?ids2\<rparr>"]) (use p ids1(2,4) d(5) in \<open>simp add: cid_api_def available_dcids_def del: be_bytes.simps\<close>)
qed

text \<open>A connection that knows a second connection ID of its peer.\<close>

definition demo_known :: cid_conn where
  "demo_known = cid_step (Got_new_connection_id 1 0 [4] (be_bytes 16 23)) demo_cids"

lemma demo_known_ids:
  "cc_ids demo_known = (new_ids 2 [1] (Some 11) [2] (Some 22))
     \<lparr>ci_dcids := \<lparr>cd_inner = [\<lparr>ce_cid = [2], ce_seq = 0, ce_reset_token = Some 22, ce_path_id = Some 0\<rparr>,
         \<lparr>ce_cid = [4], ce_seq = 1, ce_reset_token = Some 23, ce_path_id = None\<rparr>], cd_capacity = 2\<rparr>,
       ci_largest_destination_seq := 1\<rparr>"
  "cc_paths demo_known = cc_paths demo_cids"
proof -
  have t: "be_nat (be_bytes 16 23) = 23" by (simp add: be_nat_be_bytes del: be_bytes.simps)
  show "cc_ids demo_known = (new_ids 2 [1] (Some 11) [2] (Some 22))
     \<lparr>ci_dcids := \<lparr>cd_inner = [\<lparr>ce_cid = [2], ce_seq = 0, ce_reset_token = Some 22, ce_path_id = Some 0\<rparr>,
         \<lparr>ce_cid = [4], ce_seq = 1, ce_reset_token = Some 23, ce_path_id = None\<rparr>], cd_capacity = 2\<rparr>,
       ci_largest_destination_seq := 1\<rparr>"
    "cc_paths demo_known = cc_paths demo_cids"
    by (simp_all add: demo_known_def demo_cid_defs process_new_connection_id_def ci_new_dcid_def t insert_dcid_def
        cd_insert_def cd_update_def cd_len_def del: be_bytes.simps)
qed

theorem late_frame_revives_witness:
  "\<exists>c1 c2. ffi_retire_dcid demo_known 1 = (0, c1)
     \<and> process_new_connection_id 1 0 [4] (be_bytes 16 23) c1 = (Inr (), c2)
     \<and> 1 \<in> ss_inner (ci_retire_dcid_seqs (cc_ids c2))"
proof -
  let ?e = "\<lparr>ce_cid = [4], ce_seq = 1, ce_reset_token = Some 23, ce_path_id = None\<rparr> :: cid_entry"
  have ok: "ids_ok (cc_ids demo_known)" unfolding demo_known_def
    by (rule cid_step_ok) (unfold demo_cids_def new_ids_def, simp only: cid_conn.simps, rule ids_ok_new)
  obtain r c1 where r: "ffi_retire_dcid demo_known (ce_seq ?e) = (r, c1)" by fastforce
  then have "r = 0"
    by (simp add: ffi_retire_dcid_def conn_retire_dcid_def demo_known_ids demo_cid_defs available_dcids_def retire_and_relink_def
        ci_retire_dcid_def cd_remove_def cd_len_def mark_retire_dcid_seq_def ss_insert_def ss_new_def
        RETIRED_CONN_ID_LIMIT_MULTIPLIER_def get_active_with_pid_def slab_iter_def path_is_active_def)
  with r have z: "ffi_retire_dcid demo_known (ce_seq ?e) = (0, c1)" by simp
  have m: "?e \<in> set (cd_inner (ci_dcids (cc_ids demo_known)))" "ce_reset_token ?e = Some 23"
    "0 \<le> ci_largest_peer_retire_prior_to (cc_ids demo_known)" by (simp_all add: demo_known_ids)
  have n: "ce_seq ?e = 1" "ce_cid ?e = [4]" "unat (23 :: 128 word) = 23" by simp_all
  from late_frame_revives [OF ok m(1,2) z m(3)] z show ?thesis unfolding n by blast
qed

section \<open>A retirement of what is still to be announced\<close>

text \<open>The first number to be announced is one of a connection ID that is gone.\<close>

definition stuck_on :: "nat \<Rightarrow> connection_ids \<Rightarrow> bool" where
  "stuck_on s ids \<longleftrightarrow> ids_ok ids \<and> s < ci_next_scid_seq ids \<and> s \<notin> ce_seq ` set (cd_inner (ci_scids ids))
     \<and> (\<exists>q. ci_advertise_new_scid_seqs ids = s # q)"

lemma stuck_emit:
  assumes "stuck_on s ids"
  shows "emit_new_cids cap left w ids = (Some (Inl QUICHE_ERR_INVALID_STATE), ids)"
proof -
  have "next_advertise_new_scid_seq ids = Some s" using assms by (auto simp: stuck_on_def next_advertise_new_scid_seq_def)
  moreover have "cd_get s (ci_scids ids) = None" using assms by (auto simp: stuck_on_def cd_get_def find_None_iff)
  then have "(get_new_connection_id_frame_for s ids :: quiche_error + unit cid_frame) = Inl QUICHE_ERR_INVALID_STATE"
    by (simp add: get_new_connection_id_frame_for_def)
  ultimately show ?thesis by (simp add: emit_new_cids.simps)
qed

text \<open>What can happen to one's own connection IDs leaves it there.\<close>

lemma stuck_kept:
  assumes "stuck_on s ids" and "ids_ok ids'" and "ci_next_scid_seq ids \<le> ci_next_scid_seq ids'"
    and "ce_seq ` set (cd_inner (ci_scids ids')) \<subseteq> ce_seq ` set (cd_inner (ci_scids ids)) \<union> {ci_next_scid_seq ids..}"
    and "\<exists>q. ci_advertise_new_scid_seqs ids' = ci_advertise_new_scid_seqs ids @ q"
  shows "stuck_on s ids'"
  using assms by (fastforce simp: stuck_on_def)

lemma stuck_same:
  assumes "stuck_on s ids" and "ids_ok ids'" and "ci_next_scid_seq ids' = ci_next_scid_seq ids"
    and "ci_scids ids' = ci_scids ids" and "ci_advertise_new_scid_seqs ids' = ci_advertise_new_scid_seqs ids"
  shows "stuck_on s ids'"
  using assms by (simp add: stuck_on_def)

lemma relinked_stuck:
  assumes "relinked ids ids'" and "stuck_on s ids"
  shows "stuck_on s ids'"
proof (rule stuck_kept [OF assms(2)])
  show "ids_ok ids'" using relinked_ok [OF assms(1)] assms(2) by (simp add: stuck_on_def)
  have "ce_seq ` set (cd_inner (ci_scids ids')) = fst ` set (cd_ids (ci_scids ids'))" by (simp add: cd_ids_def image_image)
  also have "\<dots> = fst ` set (cd_ids (ci_scids ids))" using relinked_parts(1) [OF assms(1)] by simp
  also have "\<dots> = ce_seq ` set (cd_inner (ci_scids ids))" by (simp add: cd_ids_def image_image)
  finally show "ce_seq ` set (cd_inner (ci_scids ids')) \<subseteq> ce_seq ` set (cd_inner (ci_scids ids)) \<union> {ci_next_scid_seq ids..}"
    by simp
  show "ci_next_scid_seq ids \<le> ci_next_scid_seq ids'" using relinked_parts(4) [OF assms(1)] by simp
  show "\<exists>q. ci_advertise_new_scid_seqs ids' = ci_advertise_new_scid_seqs ids @ q"
    using assms(1) by (auto simp: relinked_def)
qed

lemma stuck_step:
  assumes "stuck_on s (cc_ids c)"
  shows "stuck_on s (cc_ids (cid_step ev c))"
proof -
  have ok: "ids_ok (cc_ids c)" using assms by (simp add: stuck_on_def)
  note ok' = cid_step_ok [OF ok, of ev]
  show ?thesis
  proof (cases ev)
    case (Call_new_scid scid token force)
    from ffi_new_scid_ids [of scid token force c] ok show ?thesis
      by (cases rule: ci_new_scid_cases; intro stuck_kept [OF assms ok'])
        (auto simp: Call_new_scid mark_advertise_new_scid_seq_def)
  next
    case (Call_retire_dcid seq)
    obtain r c' where r: "conn_retire_dcid seq c = (r, c')" by fastforce
    then have "stuck_on s (cc_ids c')"
    proof (cases rule: conn_retire_dcid_cases)
      case (called q ids)
      from called(1) ok have "stuck_on s ids"
        by (cases rule: ci_retire_dcid_cases; intro stuck_same [OF assms ids_ok_retire_dcid [OF called(1) ok]]) simp_all
      with called(2) show ?thesis by (rule relinked_stuck)
    qed (use assms in simp)
    then show ?thesis by (simp add: Call_retire_dcid ffi_retire_dcid_conn r)
  next
    case (Got_new_connection_id seq rpt cid token)
    obtain r c' where r: "process_new_connection_id seq rpt cid token c = (r, c')" by fastforce
    then have "stuck_on s (cc_ids c')"
    proof (cases rule: process_new_cid_cases)
      case (called q paths ids)
      from called(1) ok have "stuck_on s ids"
        by (cases rule: ci_new_dcid_cases; intro stuck_same [OF assms ids_ok_new_dcid [OF called(1) ok]]) simp_all
      with called(2) show ?thesis by (rule relinked_stuck)
    qed (use assms in simp)
    then show ?thesis by (simp add: Got_new_connection_id r)
  next
    case (Got_retire_connection_id seq d)
    obtain r c' where r: "process_retire_connection_id seq d c = (r, c')" by fastforce
    then have "stuck_on s (cc_ids c')"
    proof (cases rule: process_retire_cid_cases)
      case (called q)
      then show ?thesis
        by (cases rule: ci_retire_scid_cases; intro stuck_kept [OF assms ids_ok_retire_scid [OF called(1) ok]]) auto
    qed (use assms in simp)
    then show ?thesis by (simp add: Got_retire_connection_id r)
  next
    case (Fill_new_cids cap left w)
    then show ?thesis using assms by (simp add: stuck_emit [OF assms])
  next
    case (Fill_retired_cids active seqs cap left w)
    obtain r ids where e: "emit_retired_cids active seqs cap left w (cc_ids c) = (r, ids)" by fastforce
    from emit_retired_cids_frame [OF e] ok show ?thesis
      by (intro stuck_same [OF assms ok']) (auto simp: Fill_retired_cids e ids_ok_def)
  next
    case (Frame_lost f)
    show ?thesis
    proof (cases f)
      case (RetireConnectionId seq)
      obtain r ids where m: "mark_retire_dcid_seq seq True (cc_ids c) = (r, ids)" by fastforce
      moreover have "ss_ok (ci_retire_dcid_seqs (cc_ids c))" using ok by (simp add: ids_ok_def)
      ultimately show ?thesis
        by (cases rule: mark_retire_cases; intro stuck_same [OF assms ok']) (simp_all add: Frame_lost RetireConnectionId)
    qed (use assms ok' in \<open>auto simp: Frame_lost mark_advertise_new_scid_seq_def stuck_on_def\<close>)
  next
    case (Path_uses_scid seq pid)
    then show ?thesis using assms relinked_stuck [OF link_scid_relinked] by (simp split: sum.split)
  next
    case (Path_uses_dcid seq pid)
    then show ?thesis using assms relinked_stuck [OF link_dcid_relinked] by (simp split: sum.split)
  qed (use assms ok' in \<open>auto simp: stuck_on_def set_source_conn_id_limit_def Let_def cd_resize_def\<close>)
qed

lemma stuck_steps: "stuck_on s (cc_ids c) \<Longrightarrow> stuck_on s (cc_ids (fold cid_step evs c))"
  by (induction evs arbitrary: c) (simp_all add: stuck_step)

text \<open>
  C32: When the peer retires the connection ID whose announcement is next to be sent (once more, because the packet
  with it was declared lost though it arrived), then from there on, whatever happens, filling a packet fails with
  an invalid state: the connection sends no packet of application data any more.
\<close>

theorem retired_unannounced_blocks:
  assumes "ids_ok (cc_ids c)" and "next_advertise_new_scid_seq (cc_ids c) = Some s"
    and "s \<in> ce_seq ` set (cd_inner (ci_scids (cc_ids c)))"
    and "process_retire_connection_id s pkt_dcid c = (Inr (), c1)"
  shows "fst (emit_new_cids cap left w (cc_ids (fold cid_step evs c1))) = Some (Inl QUICHE_ERR_INVALID_STATE)"
proof -
  have "stuck_on s (cc_ids c1)"
    using assms(4)
  proof (cases rule: process_retire_cid_cases)
    case zero
    then show ?thesis using assms(4) by (simp add: process_retire_connection_id_def)
  next
    case (called q)
    have ok: "ids_ok (cc_ids c1)" by (rule ids_ok_retire_scid [OF called(1) assms(1)])
    from called(1) show ?thesis
    proof (cases rule: ci_retire_scid_cases)
      case (removed xs e ys n cids)
      have "distinct (map ce_seq (cd_inner (ci_scids (cc_ids c))))" using assms(1) by (simp add: ids_ok_def cd_ok_def)
      then have "s \<notin> ce_seq ` set (xs @ ys)" using removed(1,2) by auto
      with ok assms(2) removed(4,5) show ?thesis
        by (auto simp: stuck_on_def next_advertise_new_scid_seq_def split: list.splits)
    qed (use called(2) assms(3) in auto)
  qed
  from stuck_emit [OF stuck_steps [OF this]] show ?thesis by simp
qed

theorem retired_unannounced_blocks_witness:
  "\<exists>c1. process_retire_connection_id 1 [1] demo_cids2 = (Inr (), c1)
     \<and> fst (emit_new_cids 1200 1200 [] (cc_ids (fold cid_step [Call_new_scid [5] [14] False, Fill_new_cids 1200 1200 []] c1))) =
       Some (Inl QUICHE_ERR_INVALID_STATE)"
proof -
  obtain r c1 where r: "process_retire_connection_id 1 [1] demo_cids2 = (r, c1)" by fastforce
  have "fst (process_retire_connection_id 1 [1] demo_cids2) = Inr ()"
    by (simp add: process_retire_connection_id_def demo_cids2_ids demo_cid_defs ci_retire_scid_def cd_remove_def cd_len_def
        lowest_usable_scid_seq_def lowest_def)
  then have r0: "process_retire_connection_id 1 [1] demo_cids2 = (Inr (), c1)" by (simp only: r fst_conv)
  have n: "next_advertise_new_scid_seq (cc_ids demo_cids2) = Some 1"
    "1 \<in> ce_seq ` set (cd_inner (ci_scids (cc_ids demo_cids2)))"
    by (simp_all add: demo_cids2_ids next_advertise_new_scid_seq_def)
  from retired_unannounced_blocks [OF demo_cids2_ok n r0] r0 show ?thesis by blast
qed

end
