(* ===== verification/Btree.thy ===== *)
theory Btree
  imports Prelude
begin

text \<open>
  What the engine uses of a \<open>BTreeMap<u64, V>\<close> of the Rust library: the list of its entries in ascending order of
  their keys.  Used by the range sets and by the receive buffers of streams.
\<close>

type_synonym 'v btree = "(nat \<times> 'v) list"

fun bt_insert :: "nat \<Rightarrow> 'v \<Rightarrow> 'v btree \<Rightarrow> 'v btree" where
  "bt_insert k v [] = [(k, v)]"
| "bt_insert k v ((k', v') # m) =
     (if k < k' then (k, v) # (k', v') # m
      else if k = k' then (k, v) # m
      else (k', v') # bt_insert k v m)"

definition bt_remove :: "nat \<Rightarrow> 'v btree \<Rightarrow> 'v btree" where
  "bt_remove k m = filter (\<lambda>(k', v). k' \<noteq> k) m"

text \<open>\<open>range(k..)\<close> and \<open>range(..=k)\<close>.\<close>

definition bt_range_from :: "nat \<Rightarrow> 'v btree \<Rightarrow> 'v btree" where
  "bt_range_from k m = dropWhile (\<lambda>(k', v). k' < k) m"

definition bt_range_upto :: "nat \<Rightarrow> 'v btree \<Rightarrow> 'v btree" where
  "bt_range_upto k m = takeWhile (\<lambda>(k', v). k' \<le> k) m"

definition bt_of_list :: "(nat \<times> 'v) list \<Rightarrow> 'v btree" where
  "bt_of_list xs = fold (\<lambda>(k, v). bt_insert k v) xs []"

text \<open>The keys are in strictly ascending order.\<close>

definition bt_ok :: "'v btree \<Rightarrow> bool" where
  "bt_ok m \<longleftrightarrow> sorted_wrt (<) (map fst m)"

lemma bt_ok_simps [simp]:
  "bt_ok []"
  "bt_ok ((k, v) # m) \<longleftrightarrow> (\<forall>k' \<in> fst ` set m. k < k') \<and> bt_ok m"
  "bt_ok (m @ m') \<longleftrightarrow> bt_ok m \<and> bt_ok m' \<and> (\<forall>k \<in> fst ` set m. \<forall>k' \<in> fst ` set m'. k < k')"
  by (auto simp: bt_ok_def sorted_wrt_append)

lemma bt_insert_keys [simp]: "fst ` set (bt_insert k v m) = insert k (fst ` set m)"
  by (induction k v m rule: bt_insert.induct) auto

lemma bt_insert_ok [simp]: "bt_ok m \<Longrightarrow> bt_ok (bt_insert k v m)"
  by (induction k v m rule: bt_insert.induct) (auto simp del: image_iff)

text \<open>Where an entry is put.\<close>

lemma bt_insert_split:
  assumes "bt_ok m"
  shows "bt_insert k v m = filter (\<lambda>(k', v). k' < k) m @ (k, v) # filter (\<lambda>(k', v). k < k') m"
  using assms
proof (induction k v m rule: bt_insert.induct)
  case (2 k v k' v' m)
  have above: "\<forall>(a, b) \<in> set m. k' < a" using 2(2) by force
  consider "k < k'" | "k = k'" | "k' < k" by linarith
  then show ?case
  proof cases
    case 1
    then have "filter (\<lambda>(k', v). k' < k) m = []" "filter (\<lambda>(k', v). k < k') m = m"
      using above by (auto simp: filter_empty_conv filter_id_conv)
    then show ?thesis using 1 by simp
  next
    case 2
    then have "filter (\<lambda>(k', v). k' < k) m = []" "filter (\<lambda>(k', v). k < k') m = m"
      using above by (auto simp: filter_empty_conv filter_id_conv)
    then show ?thesis using 2 by simp
  next
    case 3
    then show ?thesis using 2 by simp
  qed
qed simp

lemma bt_insert_last: "\<forall>k' \<in> fst ` set m. k' < k \<Longrightarrow> bt_insert k v m = m @ [(k, v)]"
  by (induction k v m rule: bt_insert.induct) auto

lemma bt_of_list_ok:
  assumes "bt_ok xs"
  shows "bt_of_list xs = xs"
proof -
  have "bt_ok (ys @ xs) \<Longrightarrow> fold (\<lambda>(k, v). bt_insert k v) xs ys = ys @ xs" for ys
  proof (induction xs arbitrary: ys)
    case (Cons x xs)
    have "bt_insert (fst x) (snd x) ys = ys @ [x]" using Cons.prems by (subst bt_insert_last) (auto simp: bt_ok_def sorted_wrt_append)
    then show ?case using Cons.IH [of "ys @ [x]"] Cons.prems by (simp add: case_prod_beta)
  qed simp
  from this [of "[]"] show ?thesis using assms by (simp add: bt_of_list_def)
qed

lemma bt_range_from_filter: "bt_ok m \<Longrightarrow> bt_range_from k m = filter (\<lambda>(k', v). k \<le> k') m"
proof (induction m)
  case (Cons e m)
  obtain a b where e: "e = (a, b)" by fastforce
  have above: "\<forall>(a', b') \<in> set m. a < a'" using Cons.prems e by force
  show ?case
  proof (cases "a < k")
    case True
    then show ?thesis using Cons by (simp add: bt_range_from_def e)
  next
    case False
    then have "filter (\<lambda>(k', v). k \<le> k') m = m" using above by (auto simp: filter_id_conv)
    then show ?thesis using False by (simp add: bt_range_from_def e)
  qed
qed (simp add: bt_range_from_def)

lemma bt_range_upto_filter: "bt_ok m \<Longrightarrow> bt_range_upto k m = filter (\<lambda>(k', v). k' \<le> k) m"
proof (induction m)
  case (Cons e m)
  obtain a b where e: "e = (a, b)" by fastforce
  have above: "\<forall>(a', b') \<in> set m. a < a'" using Cons.prems e by force
  show ?case
  proof (cases "a \<le> k")
    case True
    then show ?thesis using Cons by (simp add: bt_range_upto_def e)
  next
    case False
    then have "filter (\<lambda>(k', v). k' \<le> k) m = []" using above by (auto simp: filter_empty_conv)
    then show ?thesis using False by (simp add: bt_range_upto_def e)
  qed
qed (simp add: bt_range_upto_def)

lemma bt_ok_filter: "bt_ok m \<Longrightarrow> bt_ok (filter P m)"
  by (induction m) (auto simp: bt_ok_def)

lemma bt_remove_head [simp]: "bt_ok ((k, v) # m) \<Longrightarrow> bt_remove k ((k, v) # m) = m"
  by (force simp: bt_remove_def filter_id_conv)

end
