(* ===== verification/RecvBuf.thy ===== *)
theory RecvBuf
  imports Btree QuicheTypes "HOL-Library.Monad_Syntax"
begin

text \<open>
  The receive side of a stream: pieces of data at offsets (\<open>src/range_buf.rs\<close>), the flow control window
  (\<open>src/flowcontrol.rs\<close>) and the receive buffer (\<open>src/stream/recv_buf.rs\<close>), which puts the data of frames that
  arrive in any order, repeated and overlapping, in order for \<open>quiche_conn_stream_recv\<close>.  Offsets are natural
  numbers: those of a frame are below \<open>2\<^sup>6\<^sup>2\<close> and its data is shorter than a packet, so that no \<open>u64\<close> overflows.
  \<open>None\<close> stands for a panic, and for a loop that does not end.
\<close>

section \<open>Errors and pieces of data\<close>

text \<open>The errors of the engine with their application error codes, and what the C functions make of them.\<close>

datatype stream_error = Stream_error quiche_error | StreamReset nat | StreamStopped nat

fun stream_error_code :: "stream_error \<Rightarrow> int" where
  "stream_error_code (Stream_error e) = quiche_error_code e"
| "stream_error_code (StreamReset e) = quiche_error_code QUICHE_ERR_STREAM_RESET"
| "stream_error_code (StreamStopped e) = quiche_error_code QUICHE_ERR_STREAM_STOPPED"

fun stream_out_error_code :: "stream_error \<Rightarrow> nat option" where
  "stream_out_error_code (Stream_error e) = None"
| "stream_out_error_code (StreamReset e) = Some e"
| "stream_out_error_code (StreamStopped e) = Some e"

record range_buf =
  rb_data :: bytes
  rb_start :: nat
  rb_pos :: nat
  rb_len :: nat
  rb_off :: nat
  rb_fin :: bool

definition rb_from :: "bytes \<Rightarrow> nat \<Rightarrow> bool \<Rightarrow> range_buf" where
  "rb_from buf off fin = \<lparr>rb_data = buf, rb_start = 0, rb_pos = 0, rb_len = length buf, rb_off = off, rb_fin = fin\<rparr>"

text \<open>The methods \<open>off\<close>, \<open>len\<close>, \<open>max_off\<close>, \<open>is_empty\<close> and \<open>deref\<close>.\<close>

definition rb_front :: "range_buf \<Rightarrow> nat" where
  "rb_front b = (rb_off b - rb_start b) + rb_pos b"

definition rb_length :: "range_buf \<Rightarrow> nat" where
  "rb_length b = rb_len b - (rb_pos b - rb_start b)"

definition rb_max_off :: "range_buf \<Rightarrow> nat" where
  "rb_max_off b = rb_front b + rb_length b"

definition rb_is_empty :: "range_buf \<Rightarrow> bool" where
  "rb_is_empty b \<longleftrightarrow> rb_length b = 0"

definition rb_bytes :: "range_buf \<Rightarrow> bytes" where
  "rb_bytes b = take (rb_start b + rb_len b - rb_pos b) (drop (rb_pos b) (rb_data b))"

definition rb_consume :: "nat \<Rightarrow> range_buf \<Rightarrow> range_buf" where
  "rb_consume count b = b\<lparr>rb_pos := rb_pos b + count\<rparr>"

text \<open>The first part stays, the second is returned.\<close>

definition rb_split_off :: "nat \<Rightarrow> range_buf \<Rightarrow> (range_buf \<times> range_buf) option" where
  "rb_split_off at b =
     (if at \<le> rb_len b then
        Some (b\<lparr>rb_pos := min (rb_pos b) (rb_start b + at), rb_len := at, rb_fin := False\<rparr>,
          \<lparr>rb_data = rb_data b, rb_start = rb_start b + at, rb_pos = max (rb_pos b) (rb_start b + at),
           rb_len = rb_len b - at, rb_off = rb_off b + at, rb_fin = rb_fin b\<rparr>)
      else None)"

section \<open>Flow control\<close>

text \<open>Times are in nanoseconds.\<close>

record flow_control =
  fc_consumed :: nat
  fc_max_data :: nat
  fc_window :: nat
  fc_max_window :: nat
  fc_last_update :: "nat option"

definition WINDOW_INCREASE_FACTOR :: nat where "WINDOW_INCREASE_FACTOR = 2"

definition WINDOW_TRIGGER_FACTOR :: nat where "WINDOW_TRIGGER_FACTOR = 2"

definition fc_new :: "nat \<Rightarrow> nat \<Rightarrow> nat \<Rightarrow> flow_control" where
  "fc_new max_data window max_window =
     \<lparr>fc_consumed = 0, fc_max_data = max_data, fc_window = min window max_window, fc_max_window = max_window,
      fc_last_update = None\<rparr>"

definition fc_add_consumed :: "nat \<Rightarrow> flow_control \<Rightarrow> flow_control" where
  "fc_add_consumed consumed f = f\<lparr>fc_consumed := fc_consumed f + consumed\<rparr>"

text \<open>\<open>None\<close>: the difference is negative.\<close>

definition fc_should_update_max_data :: "flow_control \<Rightarrow> bool option" where
  "fc_should_update_max_data f =
     (if fc_max_data f < fc_consumed f then None else Some (fc_max_data f - fc_consumed f < fc_window f div 2))"

definition fc_max_data_next :: "flow_control \<Rightarrow> nat" where
  "fc_max_data_next f = fc_consumed f + fc_window f"

definition fc_update_max_data :: "nat \<Rightarrow> flow_control \<Rightarrow> flow_control" where
  "fc_update_max_data now f = f\<lparr>fc_max_data := fc_max_data_next f, fc_last_update := Some now\<rparr>"

definition fc_set_window :: "nat \<Rightarrow> flow_control \<Rightarrow> flow_control" where
  "fc_set_window window f = f\<lparr>fc_window := min window (fc_max_window f)\<rparr>"

definition fc_autotune_window :: "nat \<Rightarrow> nat \<Rightarrow> flow_control \<Rightarrow> flow_control" where
  "fc_autotune_window now rtt f =
     (case fc_last_update f of
        Some last_update \<Rightarrow>
          if now - last_update < rtt * WINDOW_TRIGGER_FACTOR then fc_set_window (fc_window f * WINDOW_INCREASE_FACTOR) f else f
      | None \<Rightarrow> f)"

definition fc_ensure_window_lower_bound :: "nat \<Rightarrow> flow_control \<Rightarrow> flow_control" where
  "fc_ensure_window_lower_bound min_window f = (if fc_window f < min_window then fc_set_window min_window f else f)"

section \<open>The receive buffer\<close>

text \<open>The pieces are stored under the offset of their end.\<close>

record recv_buf =
  rv_data :: "range_buf btree"
  rv_off :: nat
  rv_len :: nat
  rv_flow_control :: flow_control
  rv_fin_off :: "nat option"
  rv_error :: "nat option"
  rv_drain :: bool

definition recv_new :: "nat \<Rightarrow> nat \<Rightarrow> nat \<Rightarrow> recv_buf" where
  "recv_new max_data initial_window max_window =
     \<lparr>rv_data = [], rv_off = 0, rv_len = 0, rv_flow_control = fc_new max_data initial_window max_window,
      rv_fin_off = None, rv_error = None, rv_drain = False\<rparr>"

text \<open>
  The loop over the stored pieces that may overlap with \<open>buf\<close>: what is left of it, unless it is contained in one of
  them, and the parts behind a stored piece, which are looked at later.
\<close>

fun recv_overlaps ::
  "range_buf list \<Rightarrow> range_buf \<Rightarrow> range_buf list \<Rightarrow> (range_buf option \<times> range_buf list) option" where
  "recv_overlaps [] buf tmp = Some (Some buf, tmp)"
| "recv_overlaps (b # bs) buf tmp =
     (let off = rb_front buf in
      if rb_max_off buf < rb_front b then Some (Some buf, tmp)
      else if rb_front b \<le> off \<and> rb_max_off buf \<le> rb_max_off b then Some (None, tmp)
      else do {
        buf \<leftarrow> (if rb_front b \<le> off \<and> off < rb_max_off b then map_option snd (rb_split_off (rb_max_off b - off) buf)
          else Some buf);
        (buf, tmp) \<leftarrow>
          (if off < rb_front b \<and> rb_front b < rb_max_off buf
           then map_option (\<lambda>(buf, rest). (buf, tmp @ [rest])) (rb_split_off (rb_front b - off) buf)
           else Some (buf, tmp));
        recv_overlaps bs buf tmp
      })"

definition recv_store :: "range_buf \<Rightarrow> recv_buf \<Rightarrow> recv_buf" where
  "recv_store buf r =
     (let r = r\<lparr>rv_len := max (rv_len r) (rb_max_off buf)\<rparr> in
      if \<not> rv_drain r then r\<lparr>rv_data := bt_insert (rb_max_off buf) buf (rv_data r)\<rparr> else r\<lparr>rv_off := rv_len r\<rparr>)"

text \<open>One round of the loop over \<open>tmp_bufs\<close>, for the piece that was taken from the front.\<close>

definition recv_piece :: "range_buf \<Rightarrow> range_buf list \<Rightarrow> recv_buf \<Rightarrow> (range_buf list \<times> recv_buf) option" where
  "recv_piece buf tmp r =
     do {
       buf \<leftarrow> (if rb_front buf < rv_off r then map_option snd (rb_split_off (rv_off r - rb_front buf) buf) else Some buf);
       (kept, tmp) \<leftarrow>
         (if rb_front buf < rv_len r \<or> rb_is_empty buf
          then recv_overlaps (map snd (bt_range_from (rb_front buf) (rv_data r))) buf tmp
          else Some (Some buf, tmp));
       Some (tmp, case kept of None \<Rightarrow> r | Some buf \<Rightarrow> recv_store buf r)
     }"

partial_function (option) recv_pieces :: "range_buf list \<Rightarrow> recv_buf \<Rightarrow> recv_buf option" where
  "recv_pieces tmp_bufs r =
     (case tmp_bufs of
        [] \<Rightarrow> Some r
      | buf # tmp \<Rightarrow> Option.bind (recv_piece buf tmp r) (\<lambda>(tmp, r). recv_pieces tmp r))"

text \<open>The checks before the loop: the error or early success, or the state to go on with.\<close>

definition recv_write :: "range_buf \<Rightarrow> recv_buf \<Rightarrow> ((quiche_error + unit) \<times> recv_buf) option" where
  "recv_write buf r =
     (if fc_max_data (rv_flow_control r) < rb_max_off buf then Some (Inl QUICHE_ERR_FLOW_CONTROL, r)
      else if (case rv_fin_off r of
          Some fin_off \<Rightarrow> fin_off < rb_max_off buf \<or> rb_fin buf \<and> fin_off \<noteq> rb_max_off buf
        | None \<Rightarrow> False) then Some (Inl QUICHE_ERR_FINAL_SIZE, r)
      else if rb_fin buf \<and> rb_max_off buf < rv_len r then Some (Inl QUICHE_ERR_FINAL_SIZE, r)
      else if rv_fin_off r \<noteq> None \<and> rb_is_empty buf then Some (Inr (), r)
      else
        let r = (if rb_fin buf then r\<lparr>rv_fin_off := Some (rb_max_off buf)\<rparr> else r) in
        if \<not> rb_fin buf \<and> rb_is_empty buf then Some (Inr (), r)
        else if rb_max_off buf \<le> rv_off r \<and> \<not> rb_is_empty buf then Some (Inr (), r)
        else map_option (Pair (Inr ())) (recv_pieces [buf] r))"

definition recv_ready :: "recv_buf \<Rightarrow> bool" where
  "recv_ready r = (case rv_data r of [] \<Rightarrow> False | (k, buf) # _ \<Rightarrow> rb_front buf = rv_off r)"

definition recv_is_fin :: "recv_buf \<Rightarrow> bool" where
  "recv_is_fin r \<longleftrightarrow> rv_fin_off r = Some (rv_off r)"

text \<open>The loop of \<open>emit_or_discard\<close> over the entries of the map; the result is what is put into \<open>out\<close>.\<close>

fun recv_take :: "nat \<Rightarrow> nat \<Rightarrow> range_buf btree \<Rightarrow> bytes \<times> nat \<times> range_buf btree" where
  "recv_take cap off [] = ([], off, [])"
| "recv_take cap off ((k, buf) # data) =
     (if 0 < cap \<and> rb_front buf = off then
        let buf_len = min (rb_length buf) cap in
        if buf_len < rb_length buf then (take buf_len (rb_bytes buf), off + buf_len, (k, rb_consume buf_len buf) # data)
        else (case recv_take (cap - buf_len) (off + buf_len) data of
            (out, off, data) \<Rightarrow> (take buf_len (rb_bytes buf) @ out, off, data))
      else ([], off, (k, buf) # data))"

datatype recv_action = Emit nat | Discard nat

text \<open>The result is what is written to the buffer, the length, and whether the stream is finished.\<close>

definition recv_emit_or_discard ::
  "recv_action \<Rightarrow> recv_buf \<Rightarrow> (stream_error + bytes \<times> nat \<times> bool) \<times> recv_buf" where
  "recv_emit_or_discard action r =
     (let cap = (case action of Emit n \<Rightarrow> n | Discard n \<Rightarrow> n) in
      if \<not> recv_ready r then (Inl (Stream_error QUICHE_ERR_DONE), r)
      else (case rv_error r of
          Some e \<Rightarrow> (Inl (StreamReset e), r\<lparr>rv_data := []\<rparr>)
        | None \<Rightarrow>
            (case recv_take cap (rv_off r) (rv_data r) of
               (out, off, data) \<Rightarrow>
                 let len = off - rv_off r;
                     r = r\<lparr>rv_data := data, rv_off := off, rv_flow_control := fc_add_consumed len (rv_flow_control r)\<rparr>
                 in (Inr (case action of Emit _ \<Rightarrow> out | Discard _ \<Rightarrow> [], len, recv_is_fin r), r))))"

definition recv_emit :: "nat \<Rightarrow> recv_buf \<Rightarrow> (stream_error + bytes \<times> nat \<times> bool) \<times> recv_buf" where
  "recv_emit out_len = recv_emit_or_discard (Emit out_len)"

text \<open>\<open>reset\<close> gives \<open>max_data_delta\<close> and \<open>consumed_flowcontrol\<close>; a difference that is negative is a panic.\<close>

definition recv_reset :: "nat \<Rightarrow> nat \<Rightarrow> recv_buf \<Rightarrow> ((quiche_error + nat \<times> nat) \<times> recv_buf) option" where
  "recv_reset error_code final_size r =
     (if (case rv_fin_off r of Some fin_off \<Rightarrow> fin_off \<noteq> final_size | None \<Rightarrow> False) then Some (Inl QUICHE_ERR_FINAL_SIZE, r)
      else if final_size < rv_len r then Some (Inl QUICHE_ERR_FINAL_SIZE, r)
      else if rv_error r \<noteq> None then Some (Inr (0, 0), r)
      else if final_size < rv_off r then None
      else
        let result = (final_size - rv_len r, final_size - rv_off r);
            r = r\<lparr>rv_error := Some error_code, rv_off := final_size, rv_data := []\<rparr>
        in map_option (\<lambda>(res, r). (case res of Inl e \<Rightarrow> Inl e | Inr _ \<Rightarrow> Inr result, r))
             (recv_write (rb_from [] final_size True) r))"

definition recv_shutdown :: "recv_buf \<Rightarrow> ((quiche_error + nat) \<times> recv_buf) option" where
  "recv_shutdown r =
     (if rv_drain r then Some (Inl QUICHE_ERR_DONE, r)
      else if rv_len r < rv_off r then None
      else Some (Inr (rv_len r - rv_off r), r\<lparr>rv_drain := True, rv_data := [], rv_off := rv_len r\<rparr>))"

definition recv_almost_full :: "recv_buf \<Rightarrow> bool option" where
  "recv_almost_full r = (if rv_fin_off r = None then fc_should_update_max_data (rv_flow_control r) else Some False)"

definition recv_update_max_data :: "nat \<Rightarrow> recv_buf \<Rightarrow> recv_buf" where
  "recv_update_max_data now r = r\<lparr>rv_flow_control := fc_update_max_data now (rv_flow_control r)\<rparr>"

definition recv_autotune_window :: "nat \<Rightarrow> nat \<Rightarrow> recv_buf \<Rightarrow> recv_buf" where
  "recv_autotune_window now rtt r = r\<lparr>rv_flow_control := fc_autotune_window now rtt (rv_flow_control r)\<rparr>"

end
