(* ===== verification/Ranges.thy ===== *)
theory Ranges
  imports Btree
begin

text \<open>
  Sets of numbers as ranges (\<open>src/ranges.rs\<close>): the packet numbers to acknowledge and the acknowledged bytes of a
  stream.  Up to three ranges are kept in an array, more in a map from their starts to their ends.  A range has its end
  excluded; it may be empty, which the send buffers use for an end of stream without data.
\<close>

type_synonym ranges = "(nat \<times> nat) list"

definition MAX_INLINE_CAPACITY :: nat where "MAX_INLINE_CAPACITY = 4"

definition MIN_TO_INLINE :: nat where "MIN_TO_INLINE = 2"

datatype range_set = InlineSet ranges nat | BTreeSet "nat btree" nat

definition rs_new :: "nat \<Rightarrow> range_set" where
  "rs_new capacity = InlineSet [] capacity"

fun rs_iter :: "range_set \<Rightarrow> ranges" where
  "rs_iter (InlineSet inner capacity) = inner"
| "rs_iter (BTreeSet inner capacity) = inner"

fun rs_capacity :: "range_set \<Rightarrow> nat" where
  "rs_capacity (InlineSet inner capacity) = capacity"
| "rs_capacity (BTreeSet inner capacity) = capacity"

definition rs_len :: "range_set \<Rightarrow> nat" where
  "rs_len rs = length (rs_iter rs)"

fun rs_fixup :: "range_set \<Rightarrow> range_set" where
  "rs_fixup (InlineSet inner capacity) =
     (if length inner = MAX_INLINE_CAPACITY then BTreeSet (bt_of_list inner) capacity else InlineSet inner capacity)"
| "rs_fixup (BTreeSet inner capacity) =
     (if length inner \<le> MIN_TO_INLINE then InlineSet inner capacity else BTreeSet inner capacity)"

section \<open>The array\<close>

text \<open>The loop that merges the ranges behind a range that has grown.\<close>

fun inline_merge :: "nat \<Rightarrow> nat \<Rightarrow> ranges \<Rightarrow> ranges" where
  "inline_merge start end [] = [(start, end)]"
| "inline_merge start end ((s, e) # inner) =
     (if end < s then (start, end) # (s, e) # inner else inline_merge start (max e end) inner)"

text \<open>
  The loop of \<open>insert\<close>, at the position behind \<open>before\<close>.  \<open>None\<close>: \<open>remove(0)\<close> of an empty array, or
  \<open>pos - 1\<close> at position 0.
\<close>

fun inline_find :: "nat \<Rightarrow> nat \<Rightarrow> nat \<Rightarrow> ranges \<Rightarrow> ranges \<Rightarrow> ranges option" where
  "inline_find capacity start end before [] =
     (if length before \<noteq> capacity then Some (before @ [(start, end)])
      else if before = [] then None
      else Some (tl before @ [(start, end)]))"
| "inline_find capacity start end before ((s, e) # after) =
     (if e < start then inline_find capacity start end (before @ [(s, e)]) after
      else if end < s then
        (if length (before @ (s, e) # after) \<noteq> capacity then Some (before @ (start, end) # (s, e) # after)
         else if before = [] then None
         else Some (tl before @ (start, end) # (s, e) # after))
      else if e < end then Some (before @ inline_merge (min start s) end after)
      else Some (before @ (min start s, e) # after))"

definition inline_insert :: "nat \<Rightarrow> nat \<Rightarrow> nat \<Rightarrow> ranges \<Rightarrow> ranges option" where
  "inline_insert capacity start end inner = inline_find capacity start end [] inner"

fun inline_remove_until :: "nat \<Rightarrow> ranges \<Rightarrow> ranges" where
  "inline_remove_until largest [] = []"
| "inline_remove_until largest ((s, e) # inner) =
     (if e \<le> largest then inline_remove_until largest inner
      else if max (largest + 1) s = e then inner
      else (max (largest + 1) s, e) # inner)"

section \<open>The map\<close>

definition range_overlaps :: "nat \<times> nat \<Rightarrow> nat \<times> nat \<Rightarrow> bool" where
  "range_overlaps r other \<longleftrightarrow> fst r \<le> fst other \<and> fst other \<le> snd r \<or> fst r \<le> snd other \<and> snd other \<le> snd r"

definition range_contains :: "nat \<times> nat \<Rightarrow> nat \<Rightarrow> bool" where
  "range_contains r i \<longleftrightarrow> fst r \<le> i \<and> i < snd r"

definition prev_to :: "nat \<Rightarrow> nat btree \<Rightarrow> (nat \<times> nat) option" where
  "prev_to item inner = (if bt_range_upto item inner = [] then None else Some (last (bt_range_upto item inner)))"

definition next_to :: "nat \<Rightarrow> nat btree \<Rightarrow> (nat \<times> nat) option" where
  "next_to item inner = (case bt_range_from item inner of [] \<Rightarrow> None | r # rs \<Rightarrow> Some r)"

lemma next_to_mem: "next_to i inner = Some r \<Longrightarrow> r \<in> set inner"
  using set_dropWhileD [of r "\<lambda>(k', v). k' < i" inner] by (simp add: next_to_def bt_range_from_def split: list.splits)

lemma bt_remove_shorter:
  assumes "(k, v) \<in> set m"
  shows "length (bt_remove k m) < length m"
  unfolding bt_remove_def by (rule length_filter_less [OF assms]) simp

text \<open>The loop over the ranges that follow.\<close>

function btree_merge :: "nat \<times> nat \<Rightarrow> nat \<Rightarrow> nat \<Rightarrow> nat btree \<Rightarrow> nat \<times> nat \<times> nat btree" where
  "btree_merge item start end inner =
     (case next_to start inner of
        None \<Rightarrow> (start, end, inner)
      | Some r \<Rightarrow>
          if range_contains item (fst r) \<and> range_contains item (snd r) then btree_merge item start end (bt_remove (fst r) inner)
          else if \<not> range_overlaps r item then (start, end, inner)
          else btree_merge item (min start (fst r)) (max end (snd r)) (bt_remove (fst r) inner))"
  by pat_completeness auto

termination
proof (relation "measure (\<lambda>(item, start, end, inner). length inner)")
  fix item :: "nat \<times> nat" and start "end" :: nat and inner r
  assume "next_to start inner = Some r"
  then have "length (bt_remove (fst r) inner) < length inner"
    using next_to_mem [of start inner r] bt_remove_shorter [of "fst r" "snd r" inner] by simp
  then show "((item, start, end, bt_remove (fst r) inner), item, start, end, inner) \<in> measure (\<lambda>(item, start, end, inner). length inner)"
    and "((item, min start (fst r), max end (snd r), bt_remove (fst r) inner), item, start, end, inner)
      \<in> measure (\<lambda>(item, start, end, inner). length inner)"
    by simp_all
qed simp

declare btree_merge.simps [simp del]

definition btree_insert :: "nat \<Rightarrow> nat \<Rightarrow> nat \<Rightarrow> nat btree \<Rightarrow> nat btree" where
  "btree_insert capacity start end inner =
     (let item = (start, end);
          (start, end, inner) =
            (case prev_to start inner of
               Some r \<Rightarrow>
                 if range_overlaps r item then (min start (fst r), max end (snd r), bt_remove (fst r) inner)
                 else (start, end, inner)
             | None \<Rightarrow> (start, end, inner));
          (start, end, inner) = btree_merge item start end inner;
          inner = (if capacity \<le> length inner then tl inner else inner)
      in bt_insert start end inner)"

definition btree_remove_until :: "nat \<Rightarrow> nat \<Rightarrow> nat btree \<Rightarrow> nat btree" where
  "btree_remove_until capacity largest inner =
     fold (\<lambda>(s, e) inner.
         let inner = bt_remove s inner in
         if largest + 1 < e then btree_insert capacity (largest + 1) e inner else inner)
       (bt_range_upto largest inner) inner"

section \<open>The two together\<close>

fun rs_insert :: "nat \<Rightarrow> nat \<Rightarrow> range_set \<Rightarrow> range_set option" where
  "rs_insert start end (InlineSet inner capacity) =
     map_option (\<lambda>inner. rs_fixup (InlineSet inner capacity)) (inline_insert capacity start end inner)"
| "rs_insert start end (BTreeSet inner capacity) = Some (rs_fixup (BTreeSet (btree_insert capacity start end inner) capacity))"

fun rs_remove_until :: "nat \<Rightarrow> range_set \<Rightarrow> range_set" where
  "rs_remove_until largest (InlineSet inner capacity) = rs_fixup (InlineSet (inline_remove_until largest inner) capacity)"
| "rs_remove_until largest (BTreeSet inner capacity) =
     rs_fixup (BTreeSet (btree_remove_until capacity largest inner) capacity)"

definition rs_push_item :: "nat \<Rightarrow> range_set \<Rightarrow> range_set option" where
  "rs_push_item item rs = rs_insert item (item + 1) rs"

text \<open>\<open>None\<close> of the outer option: the smallest number minus one.\<close>

definition rs_last :: "range_set \<Rightarrow> nat option option" where
  "rs_last rs =
     (if rs_iter rs = [] then Some None
      else if snd (last (rs_iter rs)) = 0 then None
      else Some (Some (snd (last (rs_iter rs)) - 1)))"

definition rs_equals_range :: "range_set \<Rightarrow> nat \<Rightarrow> nat \<Rightarrow> bool" where
  "rs_equals_range rs start end \<longleftrightarrow> rs_iter rs = [(start, end)]"

end
