(* ===== verification/SendBuf.thy ===== *)
theory SendBuf
  imports RecvBuf Ranges
begin

text \<open>
  The send side of a stream (\<open>src/stream/send_buf.rs\<close>): what the application writes is cut into pieces, which stay
  until the peer has acknowledged them; what is to be sent, for the first time or again, is what the pieces have not
  consumed.  As on the receive side offsets do not overflow, and \<open>None\<close> stands for a panic.
\<close>

definition SEND_BUFFER_SIZE :: nat where "SEND_BUFFER_SIZE = 4096"

definition USIZE_MAX :: nat where "USIZE_MAX = 2 ^ 64 - 1"

record send_buf =
  sn_data :: "range_buf list"
  sn_pos :: nat
  sn_off :: nat
  sn_emit_off :: nat
  sn_buffered_bytes :: nat
  sn_max_data :: nat
  sn_blocked_at :: "nat option"
  sn_fin_off :: "nat option"
  sn_shut :: bool
  sn_acked :: range_set
  sn_error :: "nat option"

definition send_new :: "nat \<Rightarrow> send_buf" where
  "send_new max_data =
     \<lparr>sn_data = [], sn_pos = 0, sn_off = 0, sn_emit_off = 0, sn_buffered_bytes = 0, sn_max_data = max_data,
      sn_blocked_at = None, sn_fin_off = None, sn_shut = False, sn_acked = rs_new USIZE_MAX, sn_error = None\<rparr>"

section \<open>What a buffer tells\<close>

fun front_from :: "nat \<Rightarrow> range_buf list \<Rightarrow> nat" where
  "front_from off [] = off"
| "front_from off (b # bs) = (if \<not> rb_is_empty b then rb_front b else front_from off bs)"

definition sn_off_front :: "send_buf \<Rightarrow> nat" where
  "sn_off_front s = front_from (sn_off s) (drop (sn_pos s) (sn_data s))"

fun first_end :: "ranges \<Rightarrow> nat" where
  "first_end [] = 0"
| "first_end ((start, end) # rs) = (if start = 0 then end else 0)"

definition sn_ack_off :: "send_buf \<Rightarrow> nat" where
  "sn_ack_off s = first_end (rs_iter (sn_acked s))"

definition sn_cap :: "send_buf \<Rightarrow> (stream_error + nat) option" where
  "sn_cap s =
     (case sn_error s of
        Some e \<Rightarrow> Some (Inl (StreamStopped e))
      | None \<Rightarrow> if sn_max_data s < sn_off s then None else Some (Inr (sn_max_data s - sn_off s)))"

definition sn_is_fin :: "send_buf \<Rightarrow> bool" where
  "sn_is_fin s \<longleftrightarrow> sn_fin_off s = Some (sn_off s)"

definition sn_is_complete :: "send_buf \<Rightarrow> bool" where
  "sn_is_complete s \<longleftrightarrow> (case sn_fin_off s of Some fin_off \<Rightarrow> rs_equals_range (sn_acked s) 0 fin_off | None \<Rightarrow> False)"

definition sn_is_flushable :: "send_buf \<Rightarrow> bool" where
  "sn_is_flushable s \<longleftrightarrow> (let off_front = sn_off_front s in
     sn_data s \<noteq> [] \<and> off_front < sn_off s \<and> off_front < sn_max_data s)"

section \<open>Writing\<close>

text \<open>The number of bytes that are reserved, and whether the last of them is the end of the stream.\<close>

definition reserve_for_write :: "nat \<Rightarrow> bool \<Rightarrow> send_buf \<Rightarrow> ((stream_error + nat \<times> bool) \<times> send_buf) option" where
  "reserve_for_write len fin s =
     (let max_off = sn_off s + len in
      case sn_cap s of
        None \<Rightarrow> None
      | Some (Inl e) \<Rightarrow> Some (Inl e, s)
      | Some (Inr cap) \<Rightarrow>
          let (len, fin) = (if cap < len then (cap, False) else (len, fin)) in
          if (case sn_fin_off s of
              Some fin_off \<Rightarrow> fin_off < max_off \<or> max_off = fin_off \<and> \<not> fin
            | None \<Rightarrow> False) then Some (Inl (Stream_error QUICHE_ERR_FINAL_SIZE), s)
          else
            let s = (if fin then s\<lparr>sn_fin_off := Some max_off\<rparr> else s) in
            Some (Inr (if max_off \<le> sn_ack_off s then 0 else len, fin), s))"

text \<open>\<open>append_buf\<close> of the reservation: what is still reserved, and the buffer.\<close>

definition reserved_append :: "bytes \<Rightarrow> nat \<times> bool \<Rightarrow> send_buf \<Rightarrow> (quiche_error + nat \<times> bool) \<times> send_buf" where
  "reserved_append buf reserve s =
     (case reserve of (reserved, fin) \<Rightarrow>
        if reserved < length buf then (Inl QUICHE_ERR_BUFFER_TOO_SHORT, s)
        else (Inr (reserved - length buf, fin),
          s\<lparr>sn_data := sn_data s @ [rb_from buf (sn_off s) (reserved = length buf \<and> fin)],
            sn_off := sn_off s + length buf,
            sn_buffered_bytes := sn_buffered_bytes s + length buf\<rparr>))"

function chunks :: "nat \<Rightarrow> 'a list \<Rightarrow> 'a list list" where
  "chunks n xs = (if xs = [] \<or> n = 0 then [] else take n xs # chunks n (drop n xs))"
  by pat_completeness auto

termination
  by (relation "measure (\<lambda>(n, xs). length xs)") auto

declare chunks.simps [simp del]

text \<open>The loop over the chunks; at its end the reservation must be used up.\<close>

fun append_chunks :: "bytes list \<Rightarrow> nat \<times> bool \<Rightarrow> send_buf \<Rightarrow> ((quiche_error + unit) \<times> send_buf) option" where
  "append_chunks [] reserve s = (if fst reserve = 0 then Some (Inr (), s) else None)"
| "append_chunks (c # cs) reserve s =
     (case reserved_append c reserve s of
        (Inl e, s) \<Rightarrow> None
      | (Inr reserve, s) \<Rightarrow> append_chunks cs reserve s)"

definition send_write :: "bytes \<Rightarrow> bool \<Rightarrow> send_buf \<Rightarrow> ((stream_error + nat) \<times> send_buf) option" where
  "send_write data fin s =
     (case reserve_for_write (length data) fin s of
        None \<Rightarrow> None
      | Some (Inl e, s) \<Rightarrow> Some (Inl e, s)
      | Some (Inr (reserved, fin), s) \<Rightarrow>
          if reserved = 0 then Some (Inr 0, s)
          else map_option (\<lambda>(res, s). (Inr reserved, s))
             (append_chunks (chunks SEND_BUFFER_SIZE (take reserved data)) (reserved, fin) s))"

text \<open>A buffer that is handed over is not cut; what does not fit is given back.\<close>

definition send_append_buf :: "bytes \<Rightarrow> nat \<Rightarrow> bool \<Rightarrow> send_buf \<Rightarrow> ((stream_error + nat \<times> bytes option) \<times> send_buf) option" where
  "send_append_buf data cap fin s =
     (case reserve_for_write (min cap (length data)) fin s of
        None \<Rightarrow> None
      | Some (Inl e, s) \<Rightarrow> Some (Inl e, s)
      | Some (Inr (reserved, fin), s) \<Rightarrow>
          if reserved = 0 then Some (Inr (0, Some data), s)
          else
            let remainder = (if reserved < length data then Some (drop reserved data) else None);
                data = (if reserved < length data then take reserved data else data)
            in map_option (\<lambda>(res, s). (Inr (reserved, remainder), s)) (append_chunks [data] (reserved, fin) s))"

section \<open>Sending\<close>

text \<open>The loop of \<open>emit\<close>; \<open>out_off\<close> is the offset of the first byte of \<open>out\<close>.\<close>

function emit_loop :: "nat \<Rightarrow> nat \<Rightarrow> nat \<Rightarrow> bytes \<Rightarrow> send_buf \<Rightarrow> (nat \<times> nat \<times> bytes \<times> send_buf) option" where
  "emit_loop out_off out_len next_off out s =
     (if out_len = 0 then Some (out_len, next_off, out, s)
      else
        let off_front = sn_off_front s in
        if sn_data s = [] \<or> sn_off s \<le> off_front \<or> off_front \<noteq> next_off \<or> sn_max_data s \<le> off_front
        then Some (out_len, next_off, out, s)
        else if length (sn_data s) \<le> sn_pos s then Some (out_len, next_off, out, s)
        else
          let buf = sn_data s ! sn_pos s in
          if rb_is_empty buf then emit_loop out_off out_len next_off out (s\<lparr>sn_pos := sn_pos s + 1\<rparr>)
          else
            let buf_len = min (rb_length buf) out_len;
                partial = buf_len < rb_length buf;
                out_pos = next_off - out_off
            in
            if next_off < out_off \<or> length out < out_pos + buf_len \<or> sn_buffered_bytes s < buf_len then None
            else
              let out = take out_pos out @ take buf_len (rb_bytes buf) @ drop (out_pos + buf_len) out;
                  s = s\<lparr>sn_buffered_bytes := sn_buffered_bytes s - buf_len,
                        sn_data := (sn_data s)[sn_pos s := rb_consume buf_len buf]\<rparr>;
                  out_len = out_len - buf_len;
                  next_off = rb_front buf + buf_len
              in
              if partial then Some (out_len, next_off, out, s)
              else emit_loop out_off out_len next_off out (s\<lparr>sn_pos := sn_pos s + 1\<rparr>))"
  by pat_completeness auto

termination
  by (relation "measure (\<lambda>(out_off, out_len, next_off, out, s). length (sn_data s) - sn_pos s)") (auto simp: Let_def)

declare emit_loop.simps [simp del]

text \<open>The number of bytes written to \<open>out\<close>, whether the stream ends there, and \<open>out\<close>.\<close>

definition send_emit :: "bytes \<Rightarrow> send_buf \<Rightarrow> ((nat \<times> bool) \<times> bytes \<times> send_buf) option" where
  "send_emit out s =
     (let out_off = sn_off_front s in
      map_option
        (\<lambda>(out_len, next_off, out', s).
           ((length out - out_len, sn_fin_off s = Some next_off), out', s\<lparr>sn_emit_off := max (sn_emit_off s) next_off\<rparr>))
        (emit_loop out_off (length out) out_off out s))"

definition send_update_max_data :: "nat \<Rightarrow> send_buf \<Rightarrow> send_buf" where
  "send_update_max_data max_data s = s\<lparr>sn_max_data := max (sn_max_data s) max_data\<rparr>"

definition send_update_blocked_at :: "nat option \<Rightarrow> send_buf \<Rightarrow> send_buf" where
  "send_update_blocked_at blocked_at s = s\<lparr>sn_blocked_at := blocked_at\<rparr>"

section \<open>Acknowledgements and losses\<close>

definition send_ack :: "nat \<Rightarrow> nat \<Rightarrow> send_buf \<Rightarrow> send_buf option" where
  "send_ack off len s = map_option (\<lambda>acked. s\<lparr>sn_acked := acked\<rparr>) (rs_insert off (off + len) (sn_acked s))"

text \<open>How many pieces at the front are acknowledged.\<close>

fun drop_count :: "nat \<Rightarrow> range_buf list \<Rightarrow> nat" where
  "drop_count ack_off [] = 0"
| "drop_count ack_off (b # bs) =
     (if ack_off \<le> rb_off b then 0
      else if rb_off b < ack_off \<and> ack_off < rb_max_off b then 0
      else Suc (drop_count ack_off bs))"

definition total_length :: "range_buf list \<Rightarrow> nat" where
  "total_length bs = sum_list (map rb_length bs)"

definition send_ack_and_drop :: "nat \<Rightarrow> nat \<Rightarrow> send_buf \<Rightarrow> (nat \<times> send_buf) option" where
  "send_ack_and_drop off len s =
     map_option
       (\<lambda>s. let ack_off = sn_ack_off s; n = drop_count ack_off (sn_data s) in
          if sn_data s = [] \<or> ack_off < off \<or> n = 0 then (0, s)
          else
            let dropped_len = total_length (take n (sn_data s)) in
            (dropped_len, s\<lparr>sn_buffered_bytes := sn_buffered_bytes s - dropped_len, sn_data := drop n (sn_data s),
               sn_pos := sn_pos s - n\<rparr>))
       (send_ack off len s)"

text \<open>
  The loop of \<open>retransmit\<close> over \<open>0..self.data.len()\<close>: \<open>n\<close> rounds are left, \<open>i\<close> is the index of the first piece of the
  list.  The result is the list, the position and the number of bytes that are to be sent again.
\<close>

fun retransmit_loop ::
  "nat \<Rightarrow> nat \<Rightarrow> nat \<Rightarrow> nat \<Rightarrow> nat \<Rightarrow> range_buf list \<Rightarrow> (range_buf list \<times> nat \<times> nat) option" where
  "retransmit_loop off max_off 0 i pos bs = Some (bs, pos, 0)"
| "retransmit_loop off max_off (Suc n) i pos [] = None"
| "retransmit_loop off max_off (Suc n) i pos (b # bs) =
     (if max_off \<le> rb_off b then Some (b # bs, pos, 0)
      else if rb_max_off b < off then
        map_option (\<lambda>(bs, pos, total). (b # bs, pos, total)) (retransmit_loop off max_off n (i + 1) pos bs)
      else do {
        (b, new_buf) \<leftarrow>
          (if rb_off b < max_off \<and> max_off < rb_max_off b
           then map_option (\<lambda>(b, rest). (b, [rest])) (rb_split_off (max_off - rb_off b) b)
           else Some (b, []));
        let prev_pos = rb_pos b;
            b = b\<lparr>rb_pos := (if rb_off b < off \<and> off \<le> rb_max_off b then min (rb_pos b) (rb_start b + (off - rb_off b)) else rb_start b)\<rparr>;
            pos = min pos i;
            retransmitted = prev_pos - rb_pos b
        in
        if prev_pos < rb_pos b then None
        else map_option (\<lambda>(bs, pos, total). (b # bs, pos, retransmitted + total))
               (retransmit_loop off max_off n (i + 1) pos (new_buf @ bs))
      })"

definition send_retransmit :: "nat \<Rightarrow> nat \<Rightarrow> send_buf \<Rightarrow> (nat \<times> send_buf) option" where
  "send_retransmit off len s =
     (let max_off = off + len in
      if sn_data s = [] \<or> max_off \<le> sn_ack_off s then Some (0, s)
      else map_option
        (\<lambda>(data, pos, total). (total, s\<lparr>sn_data := data, sn_pos := pos, sn_buffered_bytes := sn_buffered_bytes s + total\<rparr>))
        (retransmit_loop off max_off (length (sn_data s)) 0 (sn_pos s) (sn_data s)))"

section \<open>Ending a stream early\<close>

text \<open>The largest offset that was sent, and the number of bytes that will not be.\<close>

definition send_reset :: "send_buf \<Rightarrow> ((nat \<times> nat) \<times> send_buf) option" where
  "send_reset s =
     (let unsent_off = max (sn_off_front s) (sn_emit_off s);
          unsent_len = sn_off s - unsent_off
      in map_option (\<lambda>s. ((sn_emit_off s, unsent_len), s\<lparr>sn_pos := 0, sn_buffered_bytes := 0\<rparr>))
           (send_ack 0 unsent_off (s\<lparr>sn_fin_off := Some unsent_off, sn_data := [], sn_off := unsent_off\<rparr>)))"

definition send_stop :: "nat \<Rightarrow> send_buf \<Rightarrow> ((quiche_error + nat \<times> nat) \<times> send_buf) option" where
  "send_stop error_code s =
     (if sn_error s \<noteq> None then Some (Inl QUICHE_ERR_DONE, s)
      else map_option (\<lambda>(res, s). (Inr res, s\<lparr>sn_error := Some error_code\<rparr>)) (send_reset s))"

definition send_shutdown :: "send_buf \<Rightarrow> ((quiche_error + nat \<times> nat) \<times> send_buf) option" where
  "send_shutdown s =
     (if sn_shut s then Some (Inl QUICHE_ERR_DONE, s)
      else map_option (\<lambda>(res, s). (Inr res, s)) (send_reset (s\<lparr>sn_shut := True\<rparr>)))"

end
