(* ===== verification/RangeProps.thy ===== *)
theory RangeProps
  imports Ranges
begin

text \<open>
  The array and the map of a range set do the same: both compute \<open>ranges_add\<close> and \<open>ranges_cut\<close>, which are union and
  difference of sets of numbers in a normal form.
\<close>

section \<open>The normal form\<close>

definition rs_ok :: "ranges \<Rightarrow> bool" where
  "rs_ok rs \<longleftrightarrow> sorted_wrt (\<lambda>r r'. snd r < fst r') rs \<and> (\<forall>r \<in> set rs. fst r \<le> snd r)"

definition rs_set :: "ranges \<Rightarrow> nat set" where
  "rs_set rs = (\<Union>r \<in> set rs. {fst r..<snd r})"

fun ranges_add :: "nat \<Rightarrow> nat \<Rightarrow> ranges \<Rightarrow> ranges" where
  "ranges_add a b [] = [(a, b)]"
| "ranges_add a b ((s, e) # rs) =
     (if e < a then (s, e) # ranges_add a b rs
      else if b < s then (a, b) # (s, e) # rs
      else ranges_add (min a s) (max b e) rs)"

fun ranges_cut :: "nat \<Rightarrow> ranges \<Rightarrow> ranges" where
  "ranges_cut n [] = []"
| "ranges_cut n ((s, e) # rs) = (if e \<le> n then ranges_cut n rs else (max n s, e) # rs)"

lemma rs_ok_simps [simp]:
  "rs_ok []"
  "rs_ok ((s, e) # rs) \<longleftrightarrow> s \<le> e \<and> (\<forall>r \<in> set rs. e < fst r) \<and> rs_ok rs"
  "rs_ok (xs @ ys) \<longleftrightarrow> rs_ok xs \<and> rs_ok ys \<and> (\<forall>x \<in> set xs. \<forall>y \<in> set ys. snd x < fst y)"
  by (auto simp: rs_ok_def sorted_wrt_append)

lemma rs_set_simps [simp]: "rs_set [] = {}" "rs_set ((s, e) # rs) = {s..<e} \<union> rs_set rs" "rs_set (xs @ ys) = rs_set xs \<union> rs_set ys"
  by (auto simp: rs_set_def)

lemma rs_ok_order: "rs_ok rs \<Longrightarrow> r \<in> set rs \<Longrightarrow> fst r \<le> snd r"
  by (simp add: rs_ok_def)

lemma ranges_add_above: "\<forall>r \<in> set rs. b < fst r \<Longrightarrow> a \<le> b \<Longrightarrow> rs_ok rs \<Longrightarrow> ranges_add a b rs = (a, b) # rs"
proof (cases rs)
  case (Cons r rs')
  assume p: "\<forall>r \<in> set rs. b < fst r" "a \<le> b" "rs_ok rs"
  obtain s e where r: "r = (s, e)" by fastforce
  have "b < s" "s \<le> e" using p by (simp_all add: Cons r)
  then show ?thesis using p(2) by (simp add: Cons r)
qed simp

lemma ranges_add_above_all:
  assumes "\<forall>r \<in> set rs. n < fst r" and "n < a" and "a \<le> b" and "rs_ok rs"
  shows "\<forall>r \<in> set (ranges_add a b rs). n < fst r"
  using assms by (induction a b rs rule: ranges_add.induct) auto

lemma ranges_add_ok:
  assumes "rs_ok rs" and "a \<le> b"
  shows "rs_ok (ranges_add a b rs)" and "rs_set (ranges_add a b rs) = rs_set rs \<union> {a..<b}"
proof -
  have "rs_ok (ranges_add a b rs) \<and> rs_set (ranges_add a b rs) = rs_set rs \<union> {a..<b}" using assms
  proof (induction a b rs rule: ranges_add.induct)
    case (2 a b s e rs)
    consider "e < a" | "\<not> e < a" "b < s" | "a \<le> e" "s \<le> b" by linarith
    then show ?case
    proof cases
      case 1
      then show ?thesis using 2 ranges_add_above_all [of rs e a b] by auto
    next
      case 2
      then show ?thesis using \<open>rs_ok ((s, e) # rs)\<close> \<open>a \<le> b\<close> by auto
    next
      case 3
      then have "{min a s..<max b e} = {a..<b} \<union> {s..<e}" using \<open>rs_ok ((s, e) # rs)\<close> \<open>a \<le> b\<close> by auto
      then show ?thesis using 2 3 by auto
    qed
  qed simp
  then show "rs_ok (ranges_add a b rs)" "rs_set (ranges_add a b rs) = rs_set rs \<union> {a..<b}" by simp_all
qed

lemma ranges_cut_ok:
  assumes "rs_ok rs"
  shows "rs_ok (ranges_cut n rs)" and "rs_set (ranges_cut n rs) = rs_set rs - {..<n}"
proof -
  have above: "rs_set rs - {..<n} = rs_set rs" if "\<forall>r \<in> set rs. e < fst r" "n \<le> e" for rs and n e :: nat
    using that by (fastforce simp: rs_set_def)
  have "rs_ok (ranges_cut n rs) \<and> rs_set (ranges_cut n rs) = rs_set rs - {..<n}" using assms
  proof (induction n rs rule: ranges_cut.induct)
    case (2 n s e rs)
    show ?case
    proof (cases "e \<le> n")
      case True
      then have "rs_set ((s, e) # rs) - {..<n} = rs_set rs - {..<n}" by auto
      then show ?thesis using 2 True by simp
    next
      case False
      have "{s..<e} - {..<n} = {max n s..<e}" by auto
      moreover have "rs_set rs - {..<n} = rs_set rs" by (rule above [of rs e n]) (use 2 False in auto)
      ultimately show ?thesis using 2 False by (simp add: Un_Diff)
    qed
  qed simp
  then show "rs_ok (ranges_cut n rs)" "rs_set (ranges_cut n rs) = rs_set rs - {..<n}" by simp_all
qed

lemma ranges_cut_above: "rs_ok rs \<Longrightarrow> \<forall>r \<in> set rs. n < fst r \<Longrightarrow> ranges_cut n rs = rs"
  by (cases rs) auto

section \<open>The array\<close>

lemma inline_merge_eq:
  assumes "start \<le> end" and "\<forall>r \<in> set inner. start < fst r" and "rs_ok inner"
  shows "inline_merge start end inner = ranges_add start end inner"
  using assms
proof (induction start "end" inner rule: inline_merge.induct)
  case (2 start "end" s e inner)
  have "start < s" "s \<le> e" "\<forall>r \<in> set inner. e < fst r" using 2 by simp_all
  moreover have "max e end = max end e" by simp
  ultimately show ?case using 2 by auto
qed simp

lemma inline_find_eq:
  assumes "rs_ok inner" and "start \<le> end" and "length (before @ inner) < capacity"
  shows "inline_find capacity start end before inner = Some (before @ ranges_add start end inner)"
  using assms
proof (induction capacity start "end" before inner rule: inline_find.induct)
  case (2 capacity start "end" before s e after)
  have se: "s \<le> e" "\<forall>r \<in> set after. e < fst r" "rs_ok after" using 2 by simp_all
  consider "e < start" | "\<not> e < start" "end < s" | "start \<le> e" "s \<le> end" "e < end" | "start \<le> e" "s \<le> end" "end \<le> e" by linarith
  then show ?case
  proof cases
    case 3
    have "\<forall>r \<in> set after. min start s < fst r" using se 3 by fastforce
    then have "inline_merge (min start s) end after = ranges_add (min start s) end after"
      using inline_merge_eq se 2 by simp
    moreover have "max end e = end" using 3 by simp
    ultimately show ?thesis using 3 by simp
  next
    case 4
    have "ranges_add (min start s) (max end e) after = (min start s, e) # after"
      using ranges_add_above [of after e "min start s"] se 4 by (simp add: max_def)
    then show ?thesis using 4 by simp
  qed (use 2 in auto)
qed simp

lemma inline_insert_eq:
  "rs_ok inner \<Longrightarrow> start \<le> end \<Longrightarrow> length inner < capacity \<Longrightarrow>
    inline_insert capacity start end inner = Some (ranges_add start end inner)"
  by (simp add: inline_insert_def inline_find_eq)

text \<open>An empty range behind the number is dropped by the array only.\<close>

lemma inline_remove_until_eq: "rs_ok inner \<Longrightarrow> \<forall>r \<in> set inner. fst r < snd r \<Longrightarrow>
    inline_remove_until largest inner = ranges_cut (largest + 1) inner"
proof (induction largest inner rule: inline_remove_until.induct)
  case (2 largest s e inner)
  have "ranges_cut (largest + 1) inner = inner" if "largest < e"
    using ranges_cut_above [of inner "largest + 1"] 2(2) that by fastforce
  then show ?case using 2 by auto
qed simp

section \<open>The map\<close>

lemma rs_ok_bt: "rs_ok rs \<Longrightarrow> bt_ok rs"
proof (induction rs)
  case (Cons r rs)
  then show ?case by (cases r) (fastforce intro: le_less_trans)
qed simp

lemma rs_remove:
  assumes "rs_ok (xs @ (s, e) # ys)"
  shows "bt_remove s (xs @ (s, e) # ys) = xs @ ys"
proof -
  have "fst x \<noteq> s" if "x \<in> set xs \<union> set ys" for x
    using assms that rs_ok_order [of xs x] by fastforce
  then have "filter (\<lambda>(k', v). k' \<noteq> s) xs = xs" "filter (\<lambda>(k', v). k' \<noteq> s) ys = ys"
    by (fastforce simp: filter_id_conv)+
  then show ?thesis by (simp add: bt_remove_def)
qed

text \<open>What follows a number that is behind \<open>xs\<close>.\<close>

lemma rs_next:
  assumes "\<forall>r \<in> set xs. fst r < i"
  shows "next_to i (xs @ ys) = next_to i ys"
proof -
  have "dropWhile (\<lambda>(k', v). k' < i) (xs @ ys) = dropWhile (\<lambda>(k', v). k' < i) ys"
    using assms by (subst dropWhile_append2) auto
  then show ?thesis by (simp add: next_to_def bt_range_from_def)
qed

lemma btree_merge_eq:
  assumes "rs_ok (xs @ ys)" and "\<forall>r \<in> set xs. snd r < start" and "\<forall>r \<in> set ys. a < fst r"
    and "start \<le> a" and "a \<le> b" and "b \<le> end" and "b < end \<longrightarrow> (\<forall>r \<in> set ys. end < fst r)"
  shows "\<exists>end' zs. btree_merge (a, b) start end (xs @ ys) = (start, end', xs @ zs) \<and> ranges_add start end ys = (start, end') # zs"
  using assms
proof (induction ys arbitrary: "end")
  case Nil
  have "next_to start xs = None"
    using rs_next [of xs start "[]"] Nil(1,2) rs_ok_order [of xs] by (fastforce simp: next_to_def bt_range_from_def)
  then show ?case by (simp add: btree_merge.simps)
next
  case (Cons r ys)
  obtain s e where r: "r = (s, e)" by fastforce
  have p: "s \<le> e" "a < s" "\<forall>r \<in> set ys. e < fst r" "rs_ok ys" "rs_ok xs" using Cons.prems by (auto simp: r)
  have lt: "\<forall>r \<in> set xs. fst r < start" using Cons.prems(2) rs_ok_order [OF p(5)] by fastforce
  have next_: "next_to start (xs @ (s, e) # ys) = Some (s, e)"
    using rs_next [OF lt, of "(s, e) # ys"] p(2) Cons.prems(4) by (simp add: next_to_def bt_range_from_def)
  have rm: "bt_remove s (xs @ (s, e) # ys) = xs @ ys" using rs_remove Cons.prems(1) by (simp add: r)
  have ih: "\<exists>end' zs. btree_merge (a, b) start end0 (xs @ ys) = (start, end', xs @ zs) \<and> ranges_add start end0 ys = (start, end') # zs"
    if "b \<le> end0" "b < end0 \<longrightarrow> (\<forall>r \<in> set ys. end0 < fst r)" for end0
    using Cons.IH [of end0] Cons.prems that by (simp add: r)
  show ?case
  proof (cases "b < s")
    case True
    have "end < s" using True Cons.prems(6,7) by (cases "b < end") (auto simp: r)
    then have "ranges_add start end (r # ys) = (start, end) # r # ys" using p(1,2) Cons.prems(4) by (simp add: r)
    moreover have "btree_merge (a, b) start end (xs @ r # ys) = (start, end, xs @ r # ys)"
      unfolding r btree_merge.simps [of _ _ _ "xs @ (s, e) # ys"] next_
      using True p(2) Cons.prems(5) by (simp add: range_contains_def range_overlaps_def)
    ultimately show ?thesis by simp
  next
    case False
    then have eb: "end = b" using Cons.prems(6,7) by (cases "b < end") (auto simp: r)
    have add: "ranges_add start end (r # ys) = ranges_add start (max end e) ys"
      using False p(1,2) Cons.prems(4) eb by (simp add: r min_def)
    have "btree_merge (a, b) start end (xs @ r # ys) = btree_merge (a, b) start (max end e) (xs @ ys)"
      unfolding r btree_merge.simps [of _ _ _ "xs @ (s, e) # ys"] next_ option.case fst_conv snd_conv rm
      using False p(1,2) Cons.prems(4) eb by (auto simp: range_contains_def range_overlaps_def max_def min_def)
    moreover have "b < max end e \<longrightarrow> (\<forall>r \<in> set ys. max end e < fst r)" using p(3) eb by (auto simp: max_def)
    ultimately show ?thesis using ih [of "max end e"] eb add by simp
  qed
qed

text \<open>The ranges that end before a range are passed over.\<close>

lemma ranges_add_skip: "\<forall>r \<in> set xs. snd r < a \<Longrightarrow> ranges_add a b (xs @ ys) = xs @ ranges_add a b ys"
  by (induction xs) auto

lemma rs_ok_insert:
  assumes "rs_ok (xs @ (s, e) # ys)"
  shows "bt_insert s e (xs @ ys) = xs @ (s, e) # ys"
proof -
  have ok: "rs_ok (xs @ ys)" using assms by auto
  have lo: "\<forall>r \<in> set xs. fst r < s" and hi: "\<forall>r \<in> set ys. s < fst r" using assms rs_ok_order [of xs] by fastforce+
  have "filter (\<lambda>(k', v). k' < s) xs = xs" "filter (\<lambda>(k', v). s < k') ys = ys"
    "filter (\<lambda>(k', v). s < k') xs = []" "filter (\<lambda>(k', v). k' < s) ys = []"
    using lo hi by (fastforce simp: filter_id_conv filter_empty_conv)+
  then show ?thesis using bt_insert_split [OF rs_ok_bt [OF ok], of s e] by simp
qed

lemma btree_insert_eq:
  assumes "rs_ok inner" and "a \<le> b" and "length inner < capacity"
  shows "btree_insert capacity a b inner = ranges_add a b inner"
proof -
  define xs where "xs = takeWhile (\<lambda>r. snd r < a) inner"
  define ys where "ys = dropWhile (\<lambda>r. snd r < a) inner"
  have split: "inner = xs @ ys" by (simp add: xs_def ys_def)
  have lo: "\<forall>r \<in> set xs. snd r < a" using set_takeWhileD unfolding xs_def by fast
  have ok: "rs_ok xs" "rs_ok ys" "\<forall>x \<in> set xs. \<forall>y \<in> set ys. snd x < fst y" using assms(1) by (simp_all add: split)
  have lo': "\<forall>r \<in> set xs. fst r \<le> a" using lo rs_ok_order [OF ok(1)] by fastforce
  show ?thesis
  proof (cases "ys \<noteq> [] \<and> fst (hd ys) \<le> a")
    case True
    then obtain s e zs where y: "ys = (s, e) # zs" "s \<le> a" by (cases ys) auto
    have e: "a \<le> e" using y(1) hd_dropWhile [of "\<lambda>r. snd r < a" inner] unfolding ys_def [symmetric] by simp
    have far: "\<forall>r \<in> set zs. a < fst r" using ok(2) y(1) e by fastforce
    have up: "bt_range_upto a inner = xs @ [(s, e)]"
      unfolding bt_range_upto_def split y(1) using lo' y(2) far
      by (subst takeWhile_append2) (fastforce, cases zs, auto)
    have "prev_to a inner = Some (s, e)" by (simp add: prev_to_def up)
    moreover have "range_overlaps (s, e) (a, b)" using y(2) e by (simp add: range_overlaps_def)
    moreover have "bt_remove s inner = xs @ zs" using rs_remove assms(1) by (simp add: split y(1))
    moreover have "\<exists>end' ws. btree_merge (a, b) s (max b e) (xs @ zs) = (s, end', xs @ ws) \<and> ranges_add s (max b e) zs = (s, end') # ws"
    proof (rule btree_merge_eq)
      show "rs_ok (xs @ zs)" using assms(1) by (auto simp: split y(1))
      show "\<forall>r \<in> set xs. snd r < s" using ok(3) y(1) by auto
      show "b < max b e \<longrightarrow> (\<forall>r \<in> set zs. max b e < fst r)" using ok(2) y(1) by (auto simp: max_def)
    qed (use far y(2) assms(2) in auto)
    then obtain end' ws where m: "btree_merge (a, b) s (max b e) (xs @ zs) = (s, end', xs @ ws)"
      "ranges_add s (max b e) zs = (s, end') # ws" by blast
    moreover have add: "ranges_add a b inner = xs @ (s, end') # ws"
      using m(2) lo y e assms(2) ok(2) by (auto simp: split ranges_add_skip min_def)
    moreover have "length (xs @ ws) < capacity"
    proof -
      have "length (ranges_add a b rs) \<le> Suc (length rs)" for a b rs by (induction a b rs rule: ranges_add.induct) auto
      from this [of s "max b e" zs] m(2) assms(3) show ?thesis by (simp add: split y(1))
    qed
    moreover have "bt_insert s end' (xs @ ws) = xs @ (s, end') # ws"
      using ranges_add_ok(1) [OF assms(1,2)] by (simp add: add rs_ok_insert)
    moreover have "min a s = s" using y(2) by simp
    ultimately show ?thesis by (simp add: btree_insert_def)
  next
    case False
    have far: "\<forall>r \<in> set ys. a < fst r"
    proof (cases ys)
      case (Cons y zs)
      then have "a < fst y" using False by simp
      then show ?thesis using ok(2) Cons by (cases y) fastforce
    qed simp
    have up: "bt_range_upto a inner = xs"
      unfolding bt_range_upto_def split using lo' far
      by (subst takeWhile_append2) (fastforce, cases ys, auto)
    have none: "(case prev_to a inner of
               Some r \<Rightarrow> if range_overlaps r (a, b) then (min a (fst r), max b (snd r), bt_remove (fst r) inner) else (a, b, inner)
             | None \<Rightarrow> (a, b, inner)) = (a, b, inner)"
    proof (cases "xs = []")
      case False
      then have "last xs \<in> set xs" by simp
      then show ?thesis using lo assms(2) False by (fastforce simp: prev_to_def up range_overlaps_def)
    qed (simp add: prev_to_def up)
    have "\<exists>end' ws. btree_merge (a, b) a b (xs @ ys) = (a, end', xs @ ws) \<and> ranges_add a b ys = (a, end') # ws"
      by (rule btree_merge_eq) (use assms(1,2) split lo far in auto)
    then obtain end' ws where m: "btree_merge (a, b) a b inner = (a, end', xs @ ws)"
      "ranges_add a b ys = (a, end') # ws" by (auto simp: split)
    have add: "ranges_add a b inner = xs @ (a, end') # ws" using m(2) lo by (simp add: split ranges_add_skip)
    have "length (xs @ ws) < capacity"
    proof -
      have "length (ranges_add a b rs) \<le> Suc (length rs)" for a b rs by (induction a b rs rule: ranges_add.induct) auto
      from this [of a b ys] m(2) assms(3) show ?thesis by (simp add: split)
    qed
    moreover have "bt_insert a end' (xs @ ws) = xs @ (a, end') # ws"
      using ranges_add_ok(1) [OF assms(1,2)] by (simp add: add rs_ok_insert)
    ultimately show ?thesis by (simp add: btree_insert_def none m(1) add)
  qed
qed

lemma btree_remove_until_eq:
  assumes "rs_ok inner" and "\<forall>r \<in> set inner. fst r < snd r" and "length inner \<le> capacity"
  shows "btree_remove_until capacity largest inner = ranges_cut (largest + 1) inner"
proof -
  define f where "f = (\<lambda>(s, e) inner. let inner = bt_remove s inner in
      if largest + 1 < e then btree_insert capacity (largest + 1) e inner else inner)"
  have *: "fold f xs (xs @ ys) = ranges_cut (largest + 1) (xs @ ys)"
    if "rs_ok (xs @ ys)" "\<forall>r \<in> set xs. fst r \<le> largest" "\<forall>r \<in> set ys. largest < fst r \<and> fst r < snd r" "length (xs @ ys) \<le> capacity" for xs ys
    using that
  proof (induction xs)
    case Nil
    show ?case
    proof (cases ys)
      case (Cons y zs)
      then show ?thesis using Nil by (cases y) auto
    qed simp
  next
    case (Cons r xs)
    obtain s e where r: "r = (s, e)" by fastforce
    have rm: "bt_remove s ((s, e) # xs @ ys) = xs @ ys" using rs_remove [of "[]" s e "xs @ ys"] Cons.prems(1) by (simp add: r)
    show ?case
    proof (cases "largest + 1 < e")
      case False
      then show ?thesis using Cons rm by (simp add: r f_def)
    next
      case True
      have "x \<notin> set xs" for x
      proof
        assume "x \<in> set xs"
        then have "e < fst x" "fst x \<le> largest" using Cons.prems(1,2) by (auto simp: r)
        then show False using True by simp
      qed
      then have xs: "xs = []" by (cases xs) auto
      have "\<forall>r \<in> set ys. e < fst r" "rs_ok ys" using Cons.prems(1) by (simp_all add: r)
      then have "btree_insert capacity (largest + 1) e ys = (largest + 1, e) # ys"
        using True Cons.prems by (subst btree_insert_eq) (auto simp: ranges_add_above)
      then show ?thesis using True rm Cons.prems(2) by (simp add: r xs f_def max_def)
    qed
  qed
  define xs where "xs = takeWhile (\<lambda>(s, e). s \<le> largest) inner"
  define ys where "ys = dropWhile (\<lambda>(s, e). s \<le> largest) inner"
  have split: "inner = xs @ ys" by (simp add: xs_def ys_def)
  have lo: "\<forall>r \<in> set xs. fst r \<le> largest" unfolding xs_def by (auto dest: set_takeWhileD)
  have hi: "\<forall>r \<in> set ys. largest < fst r"
  proof (cases ys)
    case (Cons y zs)
    then have "largest < fst y" using hd_dropWhile [of "\<lambda>(s, e). s \<le> largest" inner] unfolding ys_def [symmetric] by (simp add: case_prod_beta)
    moreover have "rs_ok (y # zs)" using assms(1) Cons by (simp add: split)
    ultimately show ?thesis using Cons by (cases y) fastforce
  qed simp
  have "bt_range_upto largest inner = xs" by (simp add: bt_range_upto_def xs_def)
  then show ?thesis using * [of xs ys] assms lo hi unfolding split by (simp add: btree_remove_until_def f_def split)
qed

section \<open>The two together\<close>

lemma rs_iter_fixup [simp]: "rs_ok (rs_iter rs) \<Longrightarrow> rs_iter (rs_fixup rs) = rs_iter rs"
  by (cases rs) (simp_all add: bt_of_list_ok rs_ok_bt)

lemma rs_capacity_fixup [simp]: "rs_capacity (rs_fixup rs) = rs_capacity rs"
  by (cases rs) simp_all

lemma rs_insert_eq:
  assumes "rs_ok (rs_iter rs)" and "a \<le> b" and "rs_len rs < rs_capacity rs"
  shows "\<exists>rs'. rs_insert a b rs = Some rs' \<and> rs_iter rs' = ranges_add a b (rs_iter rs) \<and> rs_capacity rs' = rs_capacity rs"
proof (cases rs)
  case (InlineSet inner capacity)
  then show ?thesis using assms inline_insert_eq [of inner a b capacity] ranges_add_ok(1) [of inner a b]
      rs_iter_fixup [of "InlineSet (ranges_add a b inner) capacity"] by (simp add: rs_len_def del: rs_fixup.simps)
next
  case (BTreeSet inner capacity)
  then show ?thesis using assms btree_insert_eq [of inner a b capacity] ranges_add_ok(1) [of inner a b]
      rs_iter_fixup [of "BTreeSet (ranges_add a b inner) capacity"] by (simp add: rs_len_def del: rs_fixup.simps)
qed

text \<open>
  C28: The two algorithms of a range set agree.  As long as there is room, inserting a range into the array or
  into the map gives the same ranges, whatever they overlap with, and no panic: the ranges stay in order and apart, and
  the numbers in them are those before and those of the range.
\<close>

theorem range_set_insert:
  assumes "rs_ok (rs_iter rs)" and "a \<le> b" and "rs_len rs < rs_capacity rs"
  shows "\<exists>rs'. rs_insert a b rs = Some rs' \<and> rs_ok (rs_iter rs') \<and> rs_set (rs_iter rs') = rs_set (rs_iter rs) \<union> {a..<b}
    \<and> Some (rs_iter rs') = inline_insert (rs_capacity rs) a b (rs_iter rs)
    \<and> rs_iter rs' = btree_insert (rs_capacity rs) a b (rs_iter rs)"
  using rs_insert_eq [OF assms] ranges_add_ok [OF assms(1,2)] inline_insert_eq [OF assms(1,2)] btree_insert_eq [OF assms(1,2)]
    assms(3) unfolding rs_len_def by fastforce

lemma range_set_insert_witness:
  "\<exists>rs'. rs_insert 3 9 (InlineSet [(1, 3), (5, 6), (20, 30)] 10) = Some rs' \<and> rs_set (rs_iter rs') = {1..<9} \<union> {20..<30}"
proof -
  have "{1..<3} \<union> ({5..<6} \<union> {20..<30}) \<union> {3..<9} = {1..<9} \<union> {20..<30::nat}" by auto
  then show ?thesis using range_set_insert [of "InlineSet [(1, 3), (5, 6), (20, 30)] 10" 3 9] by (auto simp: rs_len_def simp del: rs_insert.simps)
qed

text \<open>
  Removing the numbers up to a limit removes just these, in both representations, which agree.
\<close>

theorem range_set_remove_until:
  assumes "rs_ok (rs_iter rs)" and "\<forall>r \<in> set (rs_iter rs). fst r < snd r" and "rs_len rs \<le> rs_capacity rs"
  shows "rs_ok (rs_iter (rs_remove_until n rs)) \<and> rs_set (rs_iter (rs_remove_until n rs)) = rs_set (rs_iter rs) - {..n}
    \<and> rs_iter (rs_remove_until n rs) = inline_remove_until n (rs_iter rs)
    \<and> rs_iter (rs_remove_until n rs) = btree_remove_until (rs_capacity rs) n (rs_iter rs)"
proof -
  note eq = inline_remove_until_eq [OF assms(1,2)] btree_remove_until_eq [OF assms(1,2)]
  note cut = ranges_cut_ok [OF assms(1), of "n + 1"]
  have n: "{..<n + 1} = {..n}" by auto
  have "rs_iter (rs_remove_until n rs) = ranges_cut (n + 1) (rs_iter rs)"
  proof (cases rs)
    case (InlineSet inner capacity)
    then show ?thesis using eq(1) cut(1) by (simp add: rs_iter_fixup del: rs_fixup.simps)
  next
    case (BTreeSet inner capacity)
    then show ?thesis using eq(2) cut(1) assms(3) by (simp add: rs_iter_fixup rs_len_def del: rs_fixup.simps)
  qed
  then show ?thesis using eq cut assms(3) n by (simp add: rs_len_def)
qed

lemma range_set_remove_until_witness:
  "rs_set (rs_iter (rs_remove_until 5 (BTreeSet [(1, 3), (4, 9), (20, 30)] 68)))
     = rs_set (rs_iter (BTreeSet [(1, 3), (4, 9), (20, 30)] 68)) - {..5}"
  by (rule conjunct1 [OF conjunct2 [OF range_set_remove_until]]) (simp_all add: rs_len_def)

text \<open>
  A full set does not drop the smallest range.  A range below all others, inserted into a map at its capacity,
  stays, and the smallest of the others is dropped in its place; the array panics.
\<close>

theorem range_set_full:
  assumes "rs_ok ((s, e) # rs)" and "a \<le> b" and "b < s" and "capacity = Suc (length rs)"
  shows "btree_insert capacity a b ((s, e) # rs) = (a, b) # rs \<and> inline_insert capacity a b ((s, e) # rs) = None"
proof -
  have lt: "\<forall>r \<in> set ((s, e) # rs). a < fst r" using assms(1-3) by fastforce
  have "takeWhile (\<lambda>(k', v). k' \<le> a) ((s, e) # rs) = []" using assms(2,3) by simp
  then have prev: "prev_to a ((s, e) # rs) = None" by (simp add: prev_to_def bt_range_upto_def)
  have "next_to a ((s, e) # rs) = Some (s, e)" using assms(2,3) by (simp add: next_to_def bt_range_from_def)
  then have "btree_merge (a, b) a b ((s, e) # rs) = (a, b, (s, e) # rs)"
    using assms(2,3) by (simp add: btree_merge.simps range_contains_def range_overlaps_def)
  moreover have "bt_insert a b rs = (a, b) # rs"
    using rs_ok_insert [of "[]" a b rs] assms(1-3) by fastforce
  ultimately have "btree_insert capacity a b ((s, e) # rs) = (a, b) # rs"
    by (simp add: btree_insert_def prev assms(4))
  moreover have "inline_insert capacity a b ((s, e) # rs) = None"
    using assms by (simp add: inline_insert_def)
  ultimately show ?thesis by simp
qed

lemma range_set_full_witness:
  "btree_insert 2 1 2 [(5, 6), (8, 9)] = [(1, 2), (8, 9)] \<and> inline_insert 2 1 2 [(5, 6), (8, 9)] = None"
  by (rule range_set_full) simp_all

end
