(* ===== verification/RecvProps.thy ===== *)
theory RecvProps
  imports RecvBuf
begin

text \<open>
  What the receive buffer promises: the bytes it holds are a partial function from offsets, which each frame that is
  accepted extends where it is undefined yet, and a read takes the longest prefix there is.
\<close>

section \<open>Pieces of data\<close>

definition rb_ok :: "range_buf \<Rightarrow> bool" where
  "rb_ok b \<longleftrightarrow> rb_start b \<le> rb_pos b \<and> rb_pos b \<le> rb_start b + rb_len b \<and> rb_start b + rb_len b \<le> length (rb_data b)
     \<and> rb_start b \<le> rb_off b"

text \<open>Nothing of it is consumed.\<close>

definition rb_fresh :: "range_buf \<Rightarrow> bool" where
  "rb_fresh b \<longleftrightarrow> rb_ok b \<and> rb_pos b = rb_start b"

lemma rb_length_bytes: "rb_ok b \<Longrightarrow> rb_length b = length (rb_bytes b)"
  by (auto simp: rb_ok_def rb_length_def rb_bytes_def)

lemma rb_fresh_ok [simp]: "rb_fresh b \<Longrightarrow> rb_ok b"
  by (simp add: rb_fresh_def)

lemma rb_from_fresh [simp]:
  "rb_fresh (rb_from d off fin)" "rb_front (rb_from d off fin) = off" "rb_bytes (rb_from d off fin) = d"
  "rb_fin (rb_from d off fin) = fin" "rb_length (rb_from d off fin) = length d" "rb_max_off (rb_from d off fin) = off + length d"
  by (simp_all add: rb_fresh_def rb_ok_def rb_from_def rb_front_def rb_bytes_def rb_length_def rb_max_off_def)

lemma rb_fresh_eqs:
  assumes "rb_fresh b"
  shows "rb_front b = rb_off b" "rb_length b = rb_len b" "rb_bytes b = take (rb_len b) (drop (rb_start b) (rb_data b))"
  using assms by (simp_all add: rb_fresh_def rb_ok_def rb_front_def rb_length_def rb_bytes_def)

lemma rb_split_fresh:
  assumes "rb_fresh b" and "at \<le> rb_length b"
  obtains x y where "rb_split_off at b = Some (x, y)" and "rb_fresh x" and "rb_fresh y"
    and "rb_front x = rb_front b" and "rb_bytes x = take at (rb_bytes b)" and "rb_length x = at"
    and "rb_front y = rb_front b + at" and "rb_bytes y = drop at (rb_bytes b)" and "rb_length y = rb_length b - at"
    and "rb_fin y = rb_fin b" and "\<not> rb_fin x"
proof -
  let ?x = "b\<lparr>rb_len := at, rb_fin := False\<rparr>"
  let ?y = "\<lparr>rb_data = rb_data b, rb_start = rb_start b + at, rb_pos = rb_start b + at,
           rb_len = rb_len b - at, rb_off = rb_off b + at, rb_fin = rb_fin b\<rparr>"
  note b = rb_fresh_eqs [OF assms(1)]
  have at: "at \<le> rb_len b" using assms(2) b by simp
  have pos: "rb_pos b = rb_start b" "rb_start b + rb_len b \<le> length (rb_data b)" "rb_start b \<le> rb_off b"
    using assms(1) by (simp_all add: rb_fresh_def rb_ok_def)
  have x: "rb_fresh ?x" and y: "rb_fresh ?y" using pos at by (simp_all add: rb_fresh_def rb_ok_def)
  have "rb_split_off at b = Some (?x, ?y)" using at pos by (simp add: rb_split_off_def)
  then show thesis
    by (rule that [OF _ x y]) (simp_all add: rb_fresh_eqs [OF x] rb_fresh_eqs [OF y] b at min_def drop_take add.commute [of at])
qed

lemma rb_consumed:
  assumes "rb_ok b" and "n \<le> rb_length b"
  shows "rb_ok (rb_consume n b)" "rb_front (rb_consume n b) = rb_front b + n" "rb_bytes (rb_consume n b) = drop n (rb_bytes b)"
    "rb_max_off (rb_consume n b) = rb_max_off b" "rb_length (rb_consume n b) = rb_length b - n" "rb_fin (rb_consume n b) = rb_fin b"
  using assms by (auto simp: rb_ok_def rb_consume_def rb_front_def rb_length_def rb_bytes_def rb_max_off_def drop_take add.commute)

text \<open>The bytes of a piece, by their offsets, and those of several.\<close>

definition rb_map :: "range_buf \<Rightarrow> nat \<rightharpoonup> u8" where
  "rb_map b i = (if rb_front b \<le> i \<and> i < rb_max_off b then Some (rb_bytes b ! (i - rb_front b)) else None)"

fun bufs_map :: "range_buf list \<Rightarrow> nat \<rightharpoonup> u8" where
  "bufs_map [] = Map.empty"
| "bufs_map (b # bs) = bufs_map bs ++ rb_map b"

lemma rb_map_None [simp]: "rb_map b i = None \<longleftrightarrow> i < rb_front b \<or> rb_max_off b \<le> i"
  by (auto simp: rb_map_def)

lemma bufs_map_None: "bufs_map bs i = None \<longleftrightarrow> (\<forall>b \<in> set bs. rb_map b i = None)"
  by (induction bs) (auto simp: map_add_def simp del: rb_map_None split: option.splits)

lemma bufs_map_append: "bufs_map (xs @ ys) = bufs_map ys ++ bufs_map xs"
  by (induction xs) simp_all

text \<open>The map of a part of a piece is part of its map.\<close>

lemma rb_split_map:
  assumes "rb_fresh b" and "at \<le> rb_length b" and "rb_split_off at b = Some (x, y)"
  shows "rb_map x = rb_map b |` {..<rb_front b + at}" and "rb_map y = rb_map b |` {rb_front b + at..}"
proof -
  from assms(1,2) obtain x' y' where s: "rb_split_off at b = Some (x', y')" "rb_fresh x'" "rb_fresh y'"
    "rb_front x' = rb_front b" "rb_bytes x' = take at (rb_bytes b)" "rb_length x' = at"
    "rb_front y' = rb_front b + at" "rb_bytes y' = drop at (rb_bytes b)" "rb_length y' = rb_length b - at"
    by (rule rb_split_fresh)
  have xy: "x' = x" "y' = y" using s(1) assms(3) by simp_all
  have l: "length (rb_bytes b) = rb_length b" using assms(1) by (simp add: rb_length_bytes)
  show "rb_map x = rb_map b |` {..<rb_front b + at}"
    using s assms(2) xy by (auto simp: rb_map_def rb_max_off_def restrict_map_def fun_eq_iff)
  show "rb_map y = rb_map b |` {rb_front b + at..}"
    using s assms(2) xy l by (auto simp: rb_map_def rb_max_off_def restrict_map_def fun_eq_iff intro: arg_cong2)
qed

section \<open>The loop over the stored pieces\<close>

text \<open>
  What \<open>recv_overlaps\<close> leaves of a piece: at most one part to store, disjoint from the stored ones, and at most one
  to look at later, which is shorter.  Together with the stored ones they have all its bytes.
\<close>

definition rb_apart :: "range_buf \<Rightarrow> range_buf \<Rightarrow> bool" where
  "rb_apart b b' \<longleftrightarrow> rb_max_off b \<le> rb_front b' \<or> rb_max_off b' \<le> rb_front b"

definition part_of :: "range_buf \<Rightarrow> range_buf \<Rightarrow> bool" where
  "part_of p buf \<longleftrightarrow> rb_fresh p \<and> rb_front buf \<le> rb_front p \<and> rb_max_off p \<le> rb_max_off buf \<and> rb_map p \<subseteq>\<^sub>m rb_map buf
     \<and> (rb_length buf > 0 \<longrightarrow> rb_length p > 0) \<and> (rb_length buf = 0 \<longrightarrow> p = buf)"

lemma part_of_refl: "rb_fresh b \<Longrightarrow> part_of b b"
  by (simp add: part_of_def)

lemma part_of_trans: "part_of a b \<Longrightarrow> part_of b c \<Longrightarrow> part_of a c"
  unfolding part_of_def using map_le_trans by (metis gr0I order_trans)

lemma restrict_le: "m |` A \<subseteq>\<^sub>m m"
  by (auto simp: map_le_def restrict_map_def)

lemma restrict_split: "m (i :: nat) = Some x \<Longrightarrow> (m |` {..<n}) i = Some x \<or> (m |` {n..}) i = Some x"
  by (auto simp: restrict_map_def)

lemma rb_fresh_length: "rb_fresh b \<Longrightarrow> rb_max_off b = rb_front b + rb_length b"
  by (simp add: rb_max_off_def)

lemma rb_split_parts:
  assumes "rb_fresh buf" and "0 < at" and "at < rb_length buf"
  obtains x y where "rb_split_off at buf = Some (x, y)" and "part_of x buf" and "part_of y buf"
    and "rb_front x = rb_front buf" and "rb_max_off x = rb_front buf + at"
    and "rb_front y = rb_front buf + at" and "rb_max_off y = rb_max_off buf" and "rb_length y < rb_length buf"
    and "rb_map x = rb_map buf |` {..<rb_front buf + at}" and "rb_map y = rb_map buf |` {rb_front buf + at..}"
proof -
  obtain x y where s: "rb_split_off at buf = Some (x, y)" "rb_fresh x" "rb_fresh y" "rb_front x = rb_front buf" "rb_length x = at"
    "rb_front y = rb_front buf + at" "rb_length y = rb_length buf - at"
    using rb_split_fresh [OF assms(1) less_imp_le [OF assms(3)]] by blast
  note m = rb_split_map [OF assms(1) less_imp_le [OF assms(3)] s(1)]
  show thesis
    using assms s m restrict_le by (intro that [OF s(1)]) (auto simp: part_of_def rb_max_off_def)
qed

text \<open>Behind the piece there is nothing to do.\<close>

lemma recv_overlaps_behind:
  assumes "\<forall>b \<in> set bs. rb_max_off buf \<le> rb_front b" and "rb_front buf < rb_max_off buf"
  shows "recv_overlaps bs buf tmp = Some (Some buf, tmp)"
  using assms by (induction bs) (auto simp: Let_def)

definition left_over :: "range_buf \<Rightarrow> range_buf list \<Rightarrow> range_buf option \<Rightarrow> range_buf list \<Rightarrow> bool" where
  "left_over buf bs kept ps \<longleftrightarrow>
     (ps = [] \<or> (\<exists>p. ps = [p] \<and> part_of p buf \<and> rb_length p < rb_length buf \<and> rb_max_off p = rb_max_off buf))
     \<and> (\<forall>k. kept = Some k \<longrightarrow> part_of k buf \<and> (\<forall>b \<in> set bs. rb_apart b k))
     \<and> (rb_length buf = 0 \<longrightarrow> kept = None \<longrightarrow> (\<exists>b \<in> set bs. rb_front b \<le> rb_front buf \<and> rb_front buf \<le> rb_max_off b))
     \<and> (rb_length buf = 0 \<longrightarrow> kept \<noteq> None \<longrightarrow> (\<forall>b \<in> set bs. rb_max_off b \<noteq> rb_max_off buf))
     \<and> (\<forall>i x. rb_map buf i = Some x \<longrightarrow> bufs_map bs i \<noteq> None \<or> (\<exists>k. kept = Some k \<and> rb_map k i = Some x)
          \<or> (\<exists>p \<in> set ps. rb_map p i = Some x))
     \<and> (ps = [] \<and> kept = None \<longrightarrow> (\<exists>b \<in> set bs. rb_max_off buf \<le> rb_max_off b))
     \<and> (ps = [] \<and> kept \<noteq> None \<longrightarrow> rb_max_off (the kept) = rb_max_off buf)"

text \<open>A stored piece before the one that is looked at changes nothing, when it ends where that begins.\<close>

lemma left_over_Cons:
  assumes "left_over y bs kept ps" and "part_of y buf" and "rb_max_off y = rb_max_off buf" and "rb_length y \<le> rb_length buf"
    and "rb_length buf \<noteq> 0" and "rb_max_off b \<le> rb_front y"
    and "\<And>i x. rb_map buf i = Some x \<Longrightarrow> rb_map b i \<noteq> None \<or> rb_map y i = Some x"
  shows "left_over buf (b # bs) kept ps"
proof -
  have apart: "rb_apart b k" if "part_of k y" for k using that assms(6) by (simp add: rb_apart_def part_of_def)
  from assms(1) have y:
    "ps = [] \<or> (\<exists>p. ps = [p] \<and> part_of p y \<and> rb_length p < rb_length y \<and> rb_max_off p = rb_max_off y)"
    "\<forall>k. kept = Some k \<longrightarrow> part_of k y \<and> (\<forall>b \<in> set bs. rb_apart b k)"
    "\<And>i x. rb_map y i = Some x \<Longrightarrow> bufs_map bs i \<noteq> None \<or> (\<exists>k. kept = Some k \<and> rb_map k i = Some x)
        \<or> (\<exists>p \<in> set ps. rb_map p i = Some x)"
    "ps = [] \<and> kept = None \<longrightarrow> (\<exists>b \<in> set bs. rb_max_off y \<le> rb_max_off b)"
    "ps = [] \<and> kept \<noteq> None \<longrightarrow> rb_max_off (the kept) = rb_max_off y"
    unfolding left_over_def by blast+
  have none: "bufs_map (b # bs) i = None \<longleftrightarrow> bufs_map bs i = None \<and> rb_map b i = None" for i
    by (auto simp: bufs_map_None simp del: rb_map_None)
  have "ps = [] \<or> (\<exists>p. ps = [p] \<and> part_of p buf \<and> rb_length p < rb_length buf \<and> rb_max_off p = rb_max_off buf)"
    using y(1) part_of_trans [OF _ assms(2)] assms(3,4) by (auto intro: less_le_trans)
  moreover have "\<forall>k. kept = Some k \<longrightarrow> part_of k buf \<and> (\<forall>b' \<in> set (b # bs). rb_apart b' k)"
    using y(2) part_of_trans [OF _ assms(2)] apart by auto
  moreover have "ps = [] \<and> kept = None \<longrightarrow> (\<exists>b' \<in> set (b # bs). rb_max_off buf \<le> rb_max_off b')" using y(4) assms(3) by auto
  moreover have "ps = [] \<and> kept \<noteq> None \<longrightarrow> rb_max_off (the kept) = rb_max_off buf" using y(5) assms(3) by auto
  moreover have "\<forall>i x. rb_map buf i = Some x \<longrightarrow> bufs_map (b # bs) i \<noteq> None \<or> (\<exists>k. kept = Some k \<and> rb_map k i = Some x)
      \<or> (\<exists>p \<in> set ps. rb_map p i = Some x)"
    using y(3) assms(7) none by blast
  ultimately show ?thesis using assms(5) unfolding left_over_def by blast
qed

lemma recv_overlaps_spec:
  assumes "rb_fresh buf" and "\<forall>b \<in> set bs. rb_ok b \<and> rb_front buf \<le> rb_max_off b"
    and "sorted_wrt (\<lambda>b b'. rb_max_off b \<le> rb_front b') bs"
  shows "\<exists>kept ps. recv_overlaps bs buf tmp = Some (kept, tmp @ ps) \<and> left_over buf bs kept ps"
  using assms
proof (induction bs arbitrary: buf)
  case Nil
  then show ?case by (auto simp: part_of_refl left_over_def)
next
  case (Cons b bs)
  note fresh = Cons.prems(1)
  have b: "rb_ok b" "rb_front buf \<le> rb_max_off b" and later: "\<forall>b' \<in> set bs. rb_max_off b \<le> rb_front b'" using Cons.prems by auto
  have order: "rb_front b' \<le> rb_max_off b'" for b' by (simp add: rb_max_off_def)
  consider (past) "rb_max_off buf < rb_front b" | (inside) "rb_front b \<le> rb_front buf" "rb_max_off buf \<le> rb_max_off b"
    | (start) "rb_front b \<le> rb_front buf" "rb_max_off b < rb_max_off buf"
    | (over) "rb_front buf < rb_front b" "rb_front b \<le> rb_max_off buf" by linarith
  then show ?case
  proof cases
    case past
    have far: "\<forall>b' \<in> set (b # bs). rb_max_off buf < rb_front b'"
    proof
      fix b' assume "b' \<in> set (b # bs)"
      then show "rb_max_off buf < rb_front b'" using past later order [of b] by (auto intro: less_le_trans)
    qed
    then have "rb_max_off b' \<noteq> rb_max_off buf" "rb_apart b' buf" if "b' \<in> set (b # bs)" for b'
      using that order [of b'] by (auto simp: rb_apart_def)
    then have "left_over buf (b # bs) (Some buf) []" using part_of_refl [OF fresh] by (auto simp: left_over_def)
    moreover have "recv_overlaps (b # bs) buf tmp = Some (Some buf, tmp @ [])" using past by simp
    ultimately show ?thesis by blast
  next
    case inside
    then have "recv_overlaps (b # bs) buf tmp = Some (None, tmp @ [])" using order [of buf] by (auto simp: Let_def)
    moreover have "bufs_map (b # bs) i \<noteq> None" if "rb_map buf i = Some x" for i x
      using that inside by (simp add: bufs_map_None rb_map_def split: if_splits)
    then have "left_over buf (b # bs) None []" using inside order [of buf] by (auto simp: left_over_def)
    ultimately show ?thesis by blast
  next
    case start
    show ?thesis
    proof (cases "rb_front buf = rb_max_off b")
      case True
      have eq: "recv_overlaps (b # bs) buf tmp = recv_overlaps bs buf tmp" using start True by (simp add: Let_def)
      have "\<exists>kept ps. recv_overlaps bs buf tmp = Some (kept, tmp @ ps) \<and> left_over buf bs kept ps"
        by (rule Cons.IH) (use Cons.prems in auto)
      moreover have "left_over buf bs kept ps \<Longrightarrow> left_over buf (b # bs) kept ps" for kept ps
        using start True by (elim left_over_Cons) (auto simp: part_of_refl [OF fresh] rb_max_off_def)
      ultimately show ?thesis unfolding eq by blast
    next
      case False
      let ?at = "rb_max_off b - rb_front buf"
      have at: "0 < ?at" "?at < rb_length buf" using False b(2) start by (auto simp: rb_max_off_def)
      obtain x y where s: "rb_split_off ?at buf = Some (x, y)" "part_of y buf" "rb_front y = rb_front buf + ?at"
        "rb_max_off y = rb_max_off buf" "rb_length y < rb_length buf" "rb_map y = rb_map buf |` {rb_front buf + ?at..}"
        by (rule rb_split_parts [OF fresh at]) (rule that)
      have fr: "rb_front y = rb_max_off b" using s(3) b(2) by simp
      have eq: "recv_overlaps (b # bs) buf tmp = recv_overlaps bs y tmp"
        using start False b(2) s(1) by (simp add: Let_def)
      have lt: "\<forall>b' \<in> set bs. rb_front y \<le> rb_max_off b'" using later order fr by (metis order_trans)
      have "\<exists>kept ps. recv_overlaps bs y tmp = Some (kept, tmp @ ps) \<and> left_over y bs kept ps"
        by (rule Cons.IH) (use Cons.prems lt s(2) in \<open>auto simp: part_of_def\<close>)
      moreover have "rb_map b i \<noteq> None \<or> rb_map y i = Some z" if "rb_map buf i = Some z" for i z
        using that s(6) fr start by (auto simp: restrict_map_def rb_map_def split: if_splits)
      then have "left_over y bs kept ps \<Longrightarrow> left_over buf (b # bs) kept ps" for kept ps
        using s(2,4,5) fr at by (elim left_over_Cons) auto
      ultimately show ?thesis unfolding eq by blast
    qed
  next
    case over
    show ?thesis
    proof (cases "rb_front b = rb_max_off buf")
      case True
      then have "\<forall>b' \<in> set (b # bs). rb_max_off buf \<le> rb_front b'" using later order [of b] by auto
      moreover have lt: "rb_front buf < rb_max_off buf" using True over by simp
      ultimately have eq: "recv_overlaps (b # bs) buf tmp = Some (Some buf, tmp @ [])"
        unfolding append_Nil2 by (rule recv_overlaps_behind)
      have "rb_apart b' buf" if "b' \<in> set (b # bs)" for b' using that True later order [of b] by (auto simp: rb_apart_def)
      moreover have "rb_length buf \<noteq> 0" using lt by (simp add: rb_max_off_def)
      ultimately have "left_over buf (b # bs) (Some buf) []" using part_of_refl [OF fresh] by (auto simp: left_over_def)
      with eq show ?thesis by blast
    next
      case False
      let ?at = "rb_front b - rb_front buf"
      have at: "0 < ?at" "?at < rb_length buf" using False over by (auto simp: rb_max_off_def)
      obtain x y where s: "rb_split_off ?at buf = Some (x, y)" "part_of x buf" "part_of y buf" "rb_front x = rb_front buf"
        "rb_max_off x = rb_front buf + ?at" "rb_max_off y = rb_max_off buf" "rb_length y < rb_length buf"
        "rb_map x = rb_map buf |` {..<rb_front buf + ?at}" "rb_map y = rb_map buf |` {rb_front buf + ?at..}"
        by (rule rb_split_parts [OF fresh at]) (rule that)
      have mx: "rb_max_off x = rb_front b" using s(5) over by simp
      have beh: "\<forall>b' \<in> set bs. rb_max_off x \<le> rb_front b'" "rb_front x < rb_max_off x"
        using mx later order [of b] s(4) over by auto
      have "recv_overlaps (b # bs) buf tmp = recv_overlaps bs x (tmp @ [y])"
        using over False s(1) by (simp add: Let_def)
      also have "\<dots> = Some (Some x, tmp @ [y])" using beh by (rule recv_overlaps_behind)
      finally have eq: "recv_overlaps (b # bs) buf tmp = Some (Some x, tmp @ [y])" .
      have "rb_apart b' x" if "b' \<in> set (b # bs)" for b' using that mx beh(1) by (auto simp: rb_apart_def)
      moreover have "rb_map x i = Some z \<or> rb_map y i = Some z" if "rb_map buf i = Some z" for i z
        using restrict_split [of "rb_map buf" i z] that s(8,9) by simp
      ultimately have "left_over buf (b # bs) (Some x) [y]" using s(2-7) at by (auto simp: left_over_def)
      with eq show ?thesis by blast
    qed
  qed
qed

section \<open>The invariant, and one piece\<close>

text \<open>
  The stored pieces are apart and in order, what has been read is gone, and a piece is empty only when it marks the
  end.  In the middle of a frame with the end of the stream the end may be known before the data is there.
\<close>

definition recv_mid :: "recv_buf \<Rightarrow> bool" where
  "recv_mid r \<longleftrightarrow> bt_ok (rv_data r)
     \<and> (\<forall>(k, b) \<in> set (rv_data r). rb_ok b \<and> k = rb_max_off b \<and> rv_off r \<le> rb_front b \<and> k \<le> rv_len r
          \<and> (rb_length b = 0 \<longrightarrow> rv_fin_off r = Some k))
     \<and> sorted_wrt (\<lambda>b b'. rb_max_off b \<le> rb_front b') (map snd (rv_data r))
     \<and> rv_off r \<le> rv_len r \<and> (\<forall>f. rv_fin_off r = Some f \<longrightarrow> rv_len r \<le> f)
     \<and> (rv_drain r \<longrightarrow> rv_data r = [] \<and> rv_off r = rv_len r)"

definition recv_ok :: "recv_buf \<Rightarrow> bool" where
  "recv_ok r \<longleftrightarrow> recv_mid r \<and> (\<forall>f. rv_fin_off r = Some f \<longrightarrow> rv_len r = f)"

definition recv_map :: "recv_buf \<Rightarrow> nat \<rightharpoonup> u8" where
  "recv_map r = bufs_map (map snd (rv_data r))"

text \<open>What a frame and a read leave alone.\<close>

definition recv_same :: "recv_buf \<Rightarrow> recv_buf \<Rightarrow> bool" where
  "recv_same r r' \<longleftrightarrow> rv_flow_control r' = rv_flow_control r \<and> rv_fin_off r' = rv_fin_off r \<and> rv_error r' = rv_error r
     \<and> rv_drain r' = rv_drain r"

lemma bufs_map_Some:
  assumes "sorted_wrt (\<lambda>b b'. rb_max_off b \<le> rb_front b') bs"
  shows "bufs_map bs i = Some x \<longleftrightarrow> (\<exists>b \<in> set bs. rb_map b i = Some x)"
  using assms
proof (induction bs)
  case (Cons b bs)
  have ord: "rb_front b' \<le> rb_max_off b'" for b' by (simp add: rb_max_off_def)
  show ?case
  proof (cases "rb_map b i")
    case None
    then show ?thesis using Cons by (auto simp: map_add_def simp del: rb_map_None split: option.split)
  next
    case (Some y)
    then have "i < rb_max_off b" by (auto simp: rb_map_def split: if_splits)
    then have none: "rb_map b' i = None" if "b' \<in> set bs" for b' using that Cons.prems by (auto intro: less_le_trans)
    show ?thesis
    proof
      assume "\<exists>b' \<in> set (b # bs). rb_map b' i = Some x"
      then obtain b' where "b' = b \<or> b' \<in> set bs" "rb_map b' i = Some x" by auto
      with none [of b'] show "bufs_map (b # bs) i = Some x" by (auto simp del: rb_map_None)
    qed (use Some in auto)
  qed
qed simp

lemma recv_map_Some:
  "recv_mid r \<Longrightarrow> recv_map r i = Some x \<longleftrightarrow> (\<exists>k b. (k, b) \<in> set (rv_data r) \<and> rb_map b i = Some x)"
  using bufs_map_Some [of "map snd (rv_data r)" i x] by (force simp: recv_map_def recv_mid_def)

lemma recv_map_bounds:
  assumes "recv_mid r" and "recv_map r i \<noteq> None"
  shows "rv_off r \<le> i" and "i < rv_len r"
proof -
  obtain x where "recv_map r i = Some x" using assms(2) by auto
  then obtain k b where b: "(k, b) \<in> set (rv_data r)" "rb_map b i = Some x" using recv_map_Some [OF assms(1)] by auto
  then have "rv_off r \<le> rb_front b" "rb_max_off b \<le> rv_len r" using assms(1) by (auto simp: recv_mid_def)
  then show "rv_off r \<le> i" "i < rv_len r" using b(2) by (auto simp: rb_map_def split: if_splits)
qed

lemma recv_store_ok:
  assumes "recv_mid r" and "\<not> rv_drain r" and "rb_fresh k" and "rv_off r \<le> rb_front k"
    and "\<And>k' b. (k', b) \<in> set (rv_data r) \<Longrightarrow> rb_apart b k"
    and "rb_length k = 0 \<Longrightarrow> rv_fin_off r = Some (rb_max_off k) \<and> rb_max_off k \<notin> fst ` set (rv_data r)"
    and "\<And>f. rv_fin_off r = Some f \<Longrightarrow> rb_max_off k \<le> f"
  shows "recv_mid (recv_store k r)" and "recv_map (recv_store k r) = rb_map k ++ recv_map r"
    and "rv_off (recv_store k r) = rv_off r" and "rv_len (recv_store k r) = max (rv_len r) (rb_max_off k)"
    and "recv_same r (recv_store k r)"
proof -
  let ?K = "rb_max_off k" and ?d = "rv_data r"
  let ?lo = "filter (\<lambda>(k', v). k' < ?K) ?d" and ?hi = "filter (\<lambda>(k', v). ?K < k') ?d"
  have ord: "rb_front b \<le> rb_max_off b" for b by (simp add: rb_max_off_def)
  have bt: "bt_ok ?d" and d: "\<And>k' b. (k', b) \<in> set ?d \<Longrightarrow> rb_ok b \<and> k' = rb_max_off b \<and> rv_off r \<le> rb_front b \<and> k' \<le> rv_len r
          \<and> (rb_length b = 0 \<longrightarrow> rv_fin_off r = Some k')"
    and so: "sorted_wrt (\<lambda>x y. rb_max_off (snd x) \<le> rb_front (snd y)) ?d"
    using assms(1) by (auto simp: recv_mid_def sorted_wrt_map case_prod_beta)
  have data: "rv_data (recv_store k r) = ?lo @ (?K, k) # ?hi"
    using assms(2) bt_insert_split [OF bt] by (simp add: recv_store_def Let_def)
  show len: "rv_len (recv_store k r) = max (rv_len r) ?K" and off: "rv_off (recv_store k r) = rv_off r"
    and same: "recv_same r (recv_store k r)"
    using assms(2) by (simp_all add: recv_store_def Let_def recv_same_def)
  have fin: "rv_fin_off (recv_store k r) = rv_fin_off r" "\<not> rv_drain (recv_store k r)"
    using same assms(2) by (simp_all add: recv_same_def)
  have lo: "rb_max_off b \<le> rb_front k" if "(k', b) \<in> set ?lo" for k' b
    using that assms(5) d ord [of b] by (fastforce simp: rb_apart_def)
  have hi: "?K \<le> rb_front b" if "(k', b) \<in> set ?hi" for k' b
    using that assms(5) d ord [of k] by (fastforce simp: rb_apart_def)
  have lohi: "rb_max_off b \<le> rb_front b'" if "(k1, b) \<in> set ?lo" "(k2, b') \<in> set ?hi" for k1 k2 b b'
    using lo [OF that(1)] hi [OF that(2)] ord [of k] by linarith
  have "sorted_wrt (\<lambda>x y. rb_max_off (snd x) \<le> rb_front (snd y)) (?lo @ (?K, k) # ?hi)"
    using so lo hi lohi by (auto simp: sorted_wrt_append intro!: sorted_wrt_filter)
  then have so': "sorted_wrt (\<lambda>b b'. rb_max_off b \<le> rb_front b') (map snd (?lo @ (?K, k) # ?hi))"
    by (simp only: sorted_wrt_map)
  have bt': "bt_ok (?lo @ (?K, k) # ?hi)"
    using bt bt_insert_ok [OF bt, of ?K k] bt_insert_split [OF bt, of ?K k] by simp
  have el: "rb_ok b \<and> k' = rb_max_off b \<and> rv_off r \<le> rb_front b \<and> k' \<le> max (rv_len r) ?K
      \<and> (rb_length b = 0 \<longrightarrow> rv_fin_off r = Some k')" if "(k', b) \<in> set (?lo @ (?K, k) # ?hi)" for k' b
  proof -
    from that have "(k', b) \<in> set ?d \<or> (k', b) = (?K, k)" by auto
    then show ?thesis using d [of k' b] assms(3,4,6) by auto
  qed
  have "rv_off r \<le> max (rv_len r) ?K" "\<forall>f. rv_fin_off r = Some f \<longrightarrow> max (rv_len r) ?K \<le> f"
    using assms(1,7) by (auto simp: recv_mid_def)
  with bt' so' el fin(2) show mid: "recv_mid (recv_store k r)"
    unfolding recv_mid_def data len off fin(1) by blast
  show "recv_map (recv_store k r) = rb_map k ++ recv_map r"
  proof
    fix i
    have "recv_map (recv_store k r) i = Some x \<longleftrightarrow> (rb_map k ++ recv_map r) i = Some x" for x
    proof -
      have gone: "rb_map b i = None" if "(?K, b) \<in> set ?d" for b
      proof -
        have "0 < rb_length k" using assms(6) that by force
        then have "rb_max_off b = ?K" "rb_front b = ?K" using d [OF that] assms(5) [OF that] ord [of b] by (auto simp: rb_apart_def rb_max_off_def)
        then show ?thesis by auto
      qed
      have one: "rb_map b i = None \<or> rb_map k i = None" if "(k', b) \<in> set ?d" for k' b
        using assms(5) [OF that] by (auto simp: rb_apart_def)
      have mem: "(k', b) \<in> set (?lo @ (?K, k) # ?hi) \<longleftrightarrow> k' = ?K \<and> b = k \<or> (k', b) \<in> set ?d \<and> k' \<noteq> ?K" for k' b by auto
      have "recv_map (recv_store k r) i = Some x \<longleftrightarrow>
          rb_map k i = Some x \<or> (\<exists>k' b. (k', b) \<in> set ?d \<and> k' \<noteq> ?K \<and> rb_map b i = Some x)"
        unfolding recv_map_Some [OF mid] data mem by blast
      also have "\<dots> \<longleftrightarrow> rb_map k i = Some x \<or> recv_map r i = Some x"
        unfolding recv_map_Some [OF assms(1)] using gone by (metis option.distinct(1))
      also have "\<dots> \<longleftrightarrow> (rb_map k ++ recv_map r) i = Some x"
      proof (cases "recv_map r i")
        case (Some y)
        then obtain k' b where "(k', b) \<in> set ?d" "rb_map b i = Some y" using recv_map_Some [OF assms(1)] by auto
        then have "rb_map k i = None" using one by fastforce
        then show ?thesis by (simp add: map_add_def Some del: rb_map_None)
      qed (simp add: map_add_def)
      finally show ?thesis .
    qed
    then show "recv_map (recv_store k r) i = (rb_map k ++ recv_map r) i" by (metis not_None_eq)
  qed
qed

lemma left_over_superset:
  assumes "left_over buf bs kept ps" and "set bs \<subseteq> set bs'"
    and "\<And>b. b \<in> set bs' \<Longrightarrow> b \<notin> set bs \<Longrightarrow> rb_max_off b < rb_front buf"
  shows "left_over buf bs' kept ps"
proof -
  have none: "bufs_map bs i \<noteq> None \<Longrightarrow> bufs_map bs' i \<noteq> None" for i
    using assms(2) by (auto simp: bufs_map_None simp del: rb_map_None)
  have apart: "rb_apart b k" if "part_of k buf" "b \<in> set bs'" "\<forall>b \<in> set bs. rb_apart b k" for b k
    using that assms(3) [of b] by (cases "b \<in> set bs") (auto simp: part_of_def rb_apart_def)
  have other: "b \<in> set bs' \<Longrightarrow> b \<notin> set bs \<Longrightarrow> rb_max_off b \<noteq> rb_max_off buf" for b
    using assms(3) [of b] by (auto simp: rb_max_off_def)
  note l = assms(1) [unfolded left_over_def]
  have 1: "ps = [] \<or> (\<exists>p. ps = [p] \<and> part_of p buf \<and> rb_length p < rb_length buf \<and> rb_max_off p = rb_max_off buf)"
    and 7: "ps = [] \<and> kept \<noteq> None \<longrightarrow> rb_max_off (the kept) = rb_max_off buf" using l by simp_all
  have "\<forall>k. kept = Some k \<longrightarrow> part_of k buf \<and> (\<forall>b\<in>set bs. rb_apart b k)" using l by simp
  then have 2: "\<forall>k. kept = Some k \<longrightarrow> part_of k buf \<and> (\<forall>b\<in>set bs'. rb_apart b k)" using apart by simp
  have "rb_length buf = 0 \<longrightarrow> kept = None \<longrightarrow> (\<exists>b \<in> set bs. rb_front b \<le> rb_front buf \<and> rb_front buf \<le> rb_max_off b)" using l by simp
  then have 3: "rb_length buf = 0 \<longrightarrow> kept = None \<longrightarrow> (\<exists>b \<in> set bs'. rb_front b \<le> rb_front buf \<and> rb_front buf \<le> rb_max_off b)"
    using assms(2) by blast
  have "rb_length buf = 0 \<longrightarrow> kept \<noteq> None \<longrightarrow> (\<forall>b\<in>set bs. rb_max_off b \<noteq> rb_max_off buf)" using l by simp
  then have 4: "rb_length buf = 0 \<longrightarrow> kept \<noteq> None \<longrightarrow> (\<forall>b\<in>set bs'. rb_max_off b \<noteq> rb_max_off buf)" using other by blast
  have "\<forall>i x. rb_map buf i = Some x \<longrightarrow> bufs_map bs i \<noteq> None \<or> (\<exists>k. kept = Some k \<and> rb_map k i = Some x)
      \<or> (\<exists>p \<in> set ps. rb_map p i = Some x)" using l by simp
  then have 5: "\<forall>i x. rb_map buf i = Some x \<longrightarrow> bufs_map bs' i \<noteq> None \<or> (\<exists>k. kept = Some k \<and> rb_map k i = Some x)
      \<or> (\<exists>p \<in> set ps. rb_map p i = Some x)" using none by blast
  have "ps = [] \<and> kept = None \<longrightarrow> (\<exists>b \<in> set bs. rb_max_off buf \<le> rb_max_off b)" using l by simp
  then have 6: "ps = [] \<and> kept = None \<longrightarrow> (\<exists>b \<in> set bs'. rb_max_off buf \<le> rb_max_off b)" using assms(2) by blast
  show ?thesis unfolding left_over_def by (intro conjI 1 2 3 4 5 6 7)
qed

text \<open>The part of a piece that is not read yet.\<close>

lemma recv_trim:
  assumes "rb_fresh buf" and "rb_length buf > 0 \<Longrightarrow> off < rb_max_off buf" and "rb_length buf = 0 \<Longrightarrow> off \<le> rb_max_off buf"
  obtains buf0 where "(if rb_front buf < off then map_option snd (rb_split_off (off - rb_front buf) buf) else Some buf) = Some buf0"
    and "part_of buf0 buf" and "off \<le> rb_front buf0" and "rb_max_off buf0 = rb_max_off buf"
    and "rb_map buf0 = rb_map buf |` {off..}" and "rb_length buf0 \<le> rb_length buf"
proof (cases "rb_front buf < off")
  case True
  have "rb_length buf > 0"
  proof (rule ccontr)
    assume "\<not> rb_length buf > 0"
    then show False using assms(3) True by (simp add: rb_max_off_def)
  qed
  then have at: "0 < off - rb_front buf" "off - rb_front buf < rb_length buf"
    using assms(2) True by (simp_all add: rb_max_off_def)
  obtain x y where s: "rb_split_off (off - rb_front buf) buf = Some (x, y)" "part_of y buf"
    "rb_front y = rb_front buf + (off - rb_front buf)" "rb_max_off y = rb_max_off buf" "rb_length y < rb_length buf"
    "rb_map y = rb_map buf |` {rb_front buf + (off - rb_front buf)..}"
    by (rule rb_split_parts [OF assms(1) at]) (rule that)
  then show thesis using True by (intro that [of y]) auto
next
  case False
  have "rb_map buf = rb_map buf |` {off..}" using False by (auto simp: fun_eq_iff restrict_map_def rb_map_def)
  then show thesis using False assms(1) by (intro that [of buf]) (auto simp: part_of_refl)
qed

lemma map_le_union: "m \<subseteq>\<^sub>m n ++ m" for m :: "nat \<rightharpoonup> 'a"
  by (auto simp: map_le_def map_add_def split: option.split)

text \<open>One round of the loop: what is stored, and what is left for the next.\<close>

definition piece_done :: "range_buf \<Rightarrow> recv_buf \<Rightarrow> range_buf list \<Rightarrow> recv_buf \<Rightarrow> bool" where
  "piece_done buf r ps r' \<longleftrightarrow> recv_mid r' \<and> recv_same r r' \<and> rv_off r' = (if rv_drain r then rv_len r' else rv_off r)
     \<and> rv_len r \<le> rv_len r' \<and> rv_len r' \<le> max (rv_len r) (rb_max_off buf)
     \<and> (ps = [] \<and> rv_len r' = max (rv_len r) (rb_max_off buf)
        \<or> (\<exists>p. ps = [p] \<and> rb_fresh p \<and> 0 < rb_length p \<and> rb_length p < rb_length buf \<and> rb_max_off p = rb_max_off buf
             \<and> rb_map p \<subseteq>\<^sub>m rb_map buf \<and> rv_off r \<le> rb_front p \<and> \<not> rv_drain r))
     \<and> recv_map r \<subseteq>\<^sub>m recv_map r' \<and> recv_map r' \<subseteq>\<^sub>m rb_map buf |` {rv_off r..} ++ recv_map r
     \<and> (\<not> rv_drain r \<longrightarrow> (\<forall>i x. rv_off r \<le> i \<longrightarrow> rb_map buf i = Some x \<longrightarrow>
          recv_map r' i \<noteq> None \<or> (\<exists>p \<in> set ps. rb_map p i = Some x)))
     \<and> (rb_length buf = 0 \<longrightarrow> \<not> rv_drain r \<longrightarrow> rb_max_off buf \<in> fst ` set (rv_data r'))
     \<and> fst ` set (rv_data r) \<subseteq> fst ` set (rv_data r')"

lemma recv_piece_left:
  assumes "recv_mid r" and "rb_fresh buf0" and "rv_off r \<le> rb_front buf0"
  obtains kept ps where
    "(if rb_front buf0 < rv_len r \<or> rb_is_empty buf0
      then recv_overlaps (map snd (bt_range_from (rb_front buf0) (rv_data r))) buf0 []
      else Some (Some buf0, [])) = Some (kept, ps)"
    and "left_over buf0 (map snd (rv_data r)) kept ps"
proof (cases "rb_front buf0 < rv_len r \<or> rb_is_empty buf0")
  case True
  have bt: "bt_ok (rv_data r)" and d: "\<And>k b. (k, b) \<in> set (rv_data r) \<Longrightarrow> rb_ok b \<and> k = rb_max_off b"
    and so: "sorted_wrt (\<lambda>x y. rb_max_off (snd x) \<le> rb_front (snd y)) (rv_data r)"
    using assms(1) by (auto simp: recv_mid_def sorted_wrt_map)
  let ?R = "filter (\<lambda>(k', v). rb_front buf0 \<le> k') (rv_data r)"
  have eq: "bt_range_from (rb_front buf0) (rv_data r) = ?R" by (rule bt_range_from_filter [OF bt])
  have "\<exists>kept ps. recv_overlaps (map snd ?R) buf0 [] = Some (kept, [] @ ps) \<and> left_over buf0 (map snd ?R) kept ps"
  proof (rule recv_overlaps_spec [OF assms(2)])
    show "\<forall>b\<in>set (map snd ?R). rb_ok b \<and> rb_front buf0 \<le> rb_max_off b" using d by auto
    show "sorted_wrt (\<lambda>b b'. rb_max_off b \<le> rb_front b') (map snd ?R)"
      unfolding sorted_wrt_map by (rule sorted_wrt_filter [OF so])
  qed
  then obtain kept ps where k: "recv_overlaps (map snd ?R) buf0 [] = Some (kept, ps)" "left_over buf0 (map snd ?R) kept ps" by auto
  have "left_over buf0 (map snd (rv_data r)) kept ps"
    by (rule left_over_superset [OF k(2)]) (use d in \<open>force simp: not_le\<close>)+
  with k(1) True show thesis by (intro that) (simp_all add: eq)
next
  case False
  have "rb_apart b buf0" if "b \<in> set (map snd (rv_data r))" for b
  proof -
    have "rb_max_off b \<le> rv_len r" using that assms(1) by (force simp: recv_mid_def)
    then show ?thesis using False by (simp add: rb_apart_def)
  qed
  then have "left_over buf0 (map snd (rv_data r)) (Some buf0) []"
    using False assms(2) by (auto simp: left_over_def part_of_refl rb_is_empty_def)
  then show thesis using False by (intro that) simp_all
qed

lemma map_le_restrict_add: "m \<subseteq>\<^sub>m n \<Longrightarrow> m ++ l \<subseteq>\<^sub>m n ++ l"
  by (auto simp: map_le_def map_add_def split: option.splits)

lemma recv_piece_spec:
  assumes "recv_mid r" and "rb_fresh buf" and pos: "rb_length buf > 0 \<Longrightarrow> rv_off r < rb_max_off buf"
    and empt: "rb_length buf = 0 \<Longrightarrow> rv_fin_off r = Some (rb_max_off buf)"
    and fin: "\<And>f. rv_fin_off r = Some f \<Longrightarrow> rb_max_off buf \<le> f"
  shows "\<exists>ps r'. recv_piece buf [] r = Some (ps, r') \<and> piece_done buf r ps r'"
proof -
  have "rb_length buf = 0 \<Longrightarrow> rv_off r \<le> rb_max_off buf" using assms(1) empt by (auto simp: recv_mid_def)
  from recv_trim [OF assms(2) pos this] obtain buf0 where
    t: "(if rb_front buf < rv_off r then map_option snd (rb_split_off (rv_off r - rb_front buf) buf) else Some buf) = Some buf0"
      "part_of buf0 buf" "rv_off r \<le> rb_front buf0" "rb_max_off buf0 = rb_max_off buf" "rb_map buf0 = rb_map buf |` {rv_off r..}"
      "rb_length buf0 \<le> rb_length buf" by blast
  have f0: "rb_fresh buf0" using t(2) by (simp add: part_of_def)
  have len0: "rb_length buf0 = 0 \<longleftrightarrow> rb_length buf = 0" using t(2,6) by (auto simp: part_of_def)
  obtain kept ps where k:
    "(if rb_front buf0 < rv_len r \<or> rb_is_empty buf0
      then recv_overlaps (map snd (bt_range_from (rb_front buf0) (rv_data r))) buf0 []
      else Some (Some buf0, [])) = Some (kept, ps)"
    "left_over buf0 (map snd (rv_data r)) kept ps" by (rule recv_piece_left [OF assms(1) f0 t(3)])
  let ?r' = "case kept of None \<Rightarrow> r | Some k \<Rightarrow> recv_store k r"
  have piece: "recv_piece buf [] r = Some (ps, ?r')"
    unfolding recv_piece_def by (simp only: t(1) k(1) bind.bind_lunit case_prod_conv)
  have "piece_done buf r ps ?r'"
  proof (cases "rv_drain r")
    case True
    then have d: "rv_data r = []" "rv_off r = rv_len r" using assms(1) by (auto simp: recv_mid_def)
    from k(1) have kp: "kept = Some buf0" "ps = []" by (auto simp: d bt_range_from_def split: if_splits)
    have "recv_mid (recv_store buf0 r)" using assms(1) True d fin t(4) by (auto simp: recv_mid_def recv_store_def Let_def)
    then show ?thesis using True d t(4)
      by (auto simp: piece_done_def kp recv_store_def Let_def recv_same_def recv_map_def map_le_def)
  next
    case False
    note l = k(2) [unfolded left_over_def]
    have rest: "ps = [] \<or> (\<exists>p. ps = [p] \<and> part_of p buf0 \<and> rb_length p < rb_length buf0 \<and> rb_max_off p = rb_max_off buf0)"
      using l by simp
    have sub0: "rb_map buf0 \<subseteq>\<^sub>m rb_map buf" unfolding t(5) by (rule restrict_le)
    have rest': "ps = [] \<or> (\<exists>p. ps = [p] \<and> rb_fresh p \<and> 0 < rb_length p \<and> rb_length p < rb_length buf \<and> rb_max_off p = rb_max_off buf
             \<and> rb_map p \<subseteq>\<^sub>m rb_map buf \<and> rv_off r \<le> rb_front p \<and> \<not> rv_drain r)"
      using rest
    proof (elim disjE exE conjE)
      fix p assume p: "ps = [p]" "part_of p buf0" "rb_length p < rb_length buf0" "rb_max_off p = rb_max_off buf0"
      then have "0 < rb_length p" "rb_map p \<subseteq>\<^sub>m rb_map buf0" "rb_front buf0 \<le> rb_front p" "rb_fresh p"
        by (auto simp: part_of_def)
      with p t(3,4,6) False show ?thesis using map_le_trans [OF _ sub0] by simp
    qed simp
    have cover: "recv_map r i \<noteq> None \<or> (\<exists>k. kept = Some k \<and> rb_map k i = Some x) \<or> (\<exists>p \<in> set ps. rb_map p i = Some x)"
      if "rv_off r \<le> i" "rb_map buf i = Some x" for i x
    proof -
      have "rb_map buf0 i = Some x" using that by (simp add: t(5))
      moreover have "\<forall>i x. rb_map buf0 i = Some x \<longrightarrow> recv_map r i \<noteq> None \<or> (\<exists>k. kept = Some k \<and> rb_map k i = Some x)
          \<or> (\<exists>p \<in> set ps. rb_map p i = Some x)" unfolding recv_map_def using l by (elim conjE) assumption
      ultimately show ?thesis by blast
    qed
    show ?thesis
    proof (cases kept)
      case None
      have "\<exists>b \<in> set (map snd (rv_data r)). rb_max_off buf0 \<le> rb_max_off b" if "ps = []" using l None that by simp
      then have ge: "rb_max_off buf \<le> rv_len r" if "ps = []" using that assms(1) t(4) by (fastforce simp: recv_mid_def)
      have key: "rb_max_off buf \<in> fst ` set (rv_data r)" if z: "rb_length buf = 0"
      proof -
        have "\<exists>b \<in> set (map snd (rv_data r)). rb_front b \<le> rb_front buf0 \<and> rb_front buf0 \<le> rb_max_off b"
          using l None z len0 by simp
        then obtain k b where b: "(k, b) \<in> set (rv_data r)" "rb_front buf0 \<le> rb_max_off b" by auto
        have "rb_front buf0 = rb_max_off buf" using z len0 t(4) by (simp add: rb_max_off_def)
        moreover have "k = rb_max_off b" "k \<le> rv_len r" "rv_len r \<le> rb_max_off buf"
          using b(1) assms(1) empt [OF z] by (auto simp: recv_mid_def)
        ultimately have "k = rb_max_off buf" using b(2) by simp
        then show ?thesis using b(1) by force
      qed
      have "ps = [] \<Longrightarrow> rv_len r = max (rv_len r) (rb_max_off buf)" using ge by simp
      then show ?thesis
        using assms(1) False rest' cover key map_le_union [of "recv_map r"] unfolding piece_done_def None option.case
        by (auto simp: recv_same_def)
    next
      case (Some k)
      have kp: "part_of k buf0" "\<forall>b \<in> set (map snd (rv_data r)). rb_apart b k" using l Some by simp_all
      have kf: "rb_fresh k" "rv_off r \<le> rb_front k" "rb_max_off k \<le> rb_max_off buf" using kp(1) t(3,4) by (auto simp: part_of_def)
      have kz: "rv_fin_off r = Some (rb_max_off k) \<and> rb_max_off k \<notin> fst ` set (rv_data r)" if "rb_length k = 0"
      proof -
        have z: "rb_length buf0 = 0" using kp(1) that by (auto simp: part_of_def)
        then have "k = buf0" using kp(1) by (simp add: part_of_def)
        moreover have "\<forall>b \<in> set (map snd (rv_data r)). rb_max_off b \<noteq> rb_max_off buf0" using l Some z by simp
        then have "rb_max_off buf0 \<notin> fst ` set (rv_data r)" using assms(1) by (fastforce simp: recv_mid_def)
        ultimately show ?thesis using empt z len0 t(4) by simp
      qed
      have ap: "\<And>k' b. (k', b) \<in> set (rv_data r) \<Longrightarrow> rb_apart b k" using kp(2) by force
      have kfin: "\<And>f. rv_fin_off r = Some f \<Longrightarrow> rb_max_off k \<le> f" using order_trans [OF kf(3) fin] .
      have st: "recv_mid (recv_store k r)" "recv_map (recv_store k r) = rb_map k ++ recv_map r" "rv_off (recv_store k r) = rv_off r"
        "rv_len (recv_store k r) = max (rv_len r) (rb_max_off k)" "recv_same r (recv_store k r)"
        by (rule recv_store_ok [OF assms(1) False kf(1,2)]; fact ap kz kfin)+
      have "rb_map k \<subseteq>\<^sub>m rb_map buf |` {rv_off r..}" using kp(1) by (simp add: part_of_def t(5))
      from map_le_restrict_add [OF this, of "recv_map r"] have sub: "recv_map (recv_store k r) \<subseteq>\<^sub>m rb_map buf |` {rv_off r..} ++ recv_map r"
        unfolding st(2) .
      have key: "rb_max_off k \<in> fst ` set (rv_data (recv_store k r))"
        and keys: "fst ` set (rv_data r) \<subseteq> fst ` set (rv_data (recv_store k r))"
        using False by (auto simp: recv_store_def Let_def)
      have "ps = [] \<Longrightarrow> rb_max_off k = rb_max_off buf" using l Some t(4) by simp
      moreover have "rb_length buf = 0 \<longrightarrow> \<not> rv_drain r \<longrightarrow> rb_max_off buf \<in> fst ` set (rv_data (recv_store k r))"
      proof (intro impI)
        assume "rb_length buf = 0"
        then have "k = buf0" using kp(1) len0 by (simp add: part_of_def)
        then show "rb_max_off buf \<in> fst ` set (rv_data (recv_store k r))" using key t(4) by (simp only:)
      qed
      moreover have "recv_map (recv_store k r) i \<noteq> None \<or> (\<exists>p \<in> set ps. rb_map p i = Some x)"
        if "rv_off r \<le> i" "rb_map buf i = Some x" for i x
        using cover [OF that] unfolding st(2) Some by (auto simp: map_add_def simp del: rb_map_None split: option.split)
      ultimately show ?thesis
        using st(1,3,4,5) False rest' keys map_le_union [of "recv_map r" "rb_map k"] sub kf(3)
        unfolding piece_done_def Some option.case st(2) by auto
    qed
  qed
  with piece show ?thesis by blast
qed

section \<open>A frame\<close>

lemma map_between: "M \<subseteq>\<^sub>m N \<Longrightarrow> dom N \<subseteq> dom M \<Longrightarrow> M = N" for M :: "nat \<rightharpoonup> 'a"
  by (metis domIff map_le_antisym map_le_def subsetD)

lemma recv_pieces_unfold:
  "recv_pieces [] r = Some r"
  "recv_pieces (buf # tmp) r = Option.bind (recv_piece buf tmp r) (\<lambda>(tmp, r). recv_pieces tmp r)"
  by (subst recv_pieces.simps, simp)+

lemma piece_done_last:
  assumes "piece_done buf r [] r'" and "\<not> rv_drain r" and "recv_mid r"
  shows "recv_map r' = rb_map buf |` {rv_off r..} ++ recv_map r"
proof (rule map_between)
  let ?N = "rb_map buf |` {rv_off r..} ++ recv_map r"
  show "recv_map r' \<subseteq>\<^sub>m ?N" using assms(1) by (simp add: piece_done_def)
  have le: "recv_map r \<subseteq>\<^sub>m recv_map r'" and cov: "\<And>i x. rv_off r \<le> i \<Longrightarrow> rb_map buf i = Some x \<Longrightarrow> recv_map r' i \<noteq> None"
    using assms(1,2) by (auto simp: piece_done_def)
  show "dom ?N \<subseteq> dom (recv_map r')"
  proof
    fix i assume "i \<in> dom ?N"
    then consider x where "recv_map r i = Some x" | x where "rv_off r \<le> i" "rb_map buf i = Some x"
      by (auto simp: restrict_map_def split: if_splits)
    then show "i \<in> dom (recv_map r')"
    proof cases
      case 1
      then show ?thesis using le by (metis domI map_le_def)
    next
      case 2
      then show ?thesis using cov [OF 2] by auto
    qed
  qed
qed

lemma piece_done_more:
  assumes "piece_done buf r [p] r1" and "\<not> rv_drain r" and "recv_mid r"
  shows "rb_map p |` {rv_off r..} ++ recv_map r1 = rb_map buf |` {rv_off r..} ++ recv_map r"
proof -
  let ?N = "rb_map buf |` {rv_off r..} ++ recv_map r" and ?M = "rb_map p |` {rv_off r..} ++ recv_map r1"
  have le: "recv_map r \<subseteq>\<^sub>m recv_map r1" and le1: "recv_map r1 \<subseteq>\<^sub>m ?N" and p: "rb_map p \<subseteq>\<^sub>m rb_map buf"
    and cov: "\<And>i x. rv_off r \<le> i \<Longrightarrow> rb_map buf i = Some x \<Longrightarrow> recv_map r1 i \<noteq> None \<or> rb_map p i = Some x"
    using assms(1,2) by (auto simp: piece_done_def)
  show ?thesis
  proof (rule map_between)
    show "?M \<subseteq>\<^sub>m ?N"
      unfolding map_le_def
    proof
      fix i assume i: "i \<in> dom ?M"
      show "?M i = ?N i"
      proof (cases "recv_map r1 i")
        case None
        then have "recv_map r i = None" using le by (metis domIff map_le_def)
        moreover obtain x where "rv_off r \<le> i" "rb_map p i = Some x" using i None by (auto simp: restrict_map_def split: if_splits)
        moreover from this have "rb_map buf i = Some x" using p by (metis domI map_le_def)
        ultimately show ?thesis using None by (simp add: map_add_def)
      next
        case (Some x)
        then have "?N i = Some x" using le1 by (metis domI map_le_def)
        then show ?thesis by (simp add: Some)
      qed
    qed
    show "dom ?N \<subseteq> dom ?M"
    proof
      fix i assume "i \<in> dom ?N"
      then consider x where "recv_map r i = Some x" | x where "rv_off r \<le> i" "rb_map buf i = Some x"
        by (auto simp: restrict_map_def split: if_splits)
      then show "i \<in> dom ?M"
      proof cases
        case 1
        then have "recv_map r1 i = Some x" using le by (metis domI map_le_def)
        then show ?thesis by auto
      next
        case 2
        then show ?thesis using cov [OF 2] by (auto simp: restrict_map_def)
      qed
    qed
  qed
qed

lemma recv_pieces_spec:
  assumes "recv_mid r" and "rb_fresh buf" and "rb_length buf > 0 \<Longrightarrow> rv_off r < rb_max_off buf"
    and "rb_length buf = 0 \<Longrightarrow> rv_fin_off r = Some (rb_max_off buf)"
    and "\<And>f. rv_fin_off r = Some f \<Longrightarrow> rb_max_off buf \<le> f"
  shows "\<exists>r'. recv_pieces [buf] r = Some r' \<and> recv_mid r' \<and> recv_same r r' \<and> rv_len r' = max (rv_len r) (rb_max_off buf)
    \<and> rv_off r' = (if rv_drain r then rv_len r' else rv_off r)
    \<and> (\<not> rv_drain r \<longrightarrow> recv_map r' = rb_map buf |` {rv_off r..} ++ recv_map r)
    \<and> (rb_length buf = 0 \<longrightarrow> \<not> rv_drain r \<longrightarrow> rb_max_off buf \<in> fst ` set (rv_data r'))"
  using assms
proof (induction "rb_length buf" arbitrary: buf r rule: less_induct)
  case less
  obtain ps r1 where p: "recv_piece buf [] r = Some (ps, r1)" and d: "piece_done buf r ps r1"
    using recv_piece_spec [OF less.prems] by blast
  have u: "recv_pieces [buf] r = recv_pieces ps r1" by (simp add: recv_pieces_unfold p)
  have d1: "recv_mid r1" "recv_same r r1" "rv_off r1 = (if rv_drain r then rv_len r1 else rv_off r)"
    "rv_len r \<le> rv_len r1" "rv_len r1 \<le> max (rv_len r) (rb_max_off buf)" using d by (simp_all add: piece_done_def)
  show ?case
  proof (cases "ps = []")
    case True
    have "rv_len r1 = max (rv_len r) (rb_max_off buf)"
      "rb_length buf = 0 \<longrightarrow> \<not> rv_drain r \<longrightarrow> rb_max_off buf \<in> fst ` set (rv_data r1)"
      using d True by (simp_all add: piece_done_def)
    moreover have "\<not> rv_drain r \<longrightarrow> recv_map r1 = rb_map buf |` {rv_off r..} ++ recv_map r"
      using piece_done_last d True less.prems(1) by blast
    ultimately show ?thesis using d1 True by (simp add: u recv_pieces_unfold(1))
  next
    case False
    then obtain p where q: "ps = [p]" "rb_fresh p" "0 < rb_length p" "rb_length p < rb_length buf" "rb_max_off p = rb_max_off buf"
      "rb_map p \<subseteq>\<^sub>m rb_map buf" "rv_off r \<le> rb_front p" "\<not> rv_drain r" using d by (auto simp: piece_done_def)
    have same: "rv_off r1 = rv_off r" "\<not> rv_drain r1" "rv_fin_off r1 = rv_fin_off r"
      using d1 q(8) by (simp_all add: recv_same_def)
    have "\<exists>r'. recv_pieces [p] r1 = Some r' \<and> recv_mid r' \<and> recv_same r1 r' \<and> rv_len r' = max (rv_len r1) (rb_max_off p)
      \<and> rv_off r' = (if rv_drain r1 then rv_len r' else rv_off r1)
      \<and> (\<not> rv_drain r1 \<longrightarrow> recv_map r' = rb_map p |` {rv_off r1..} ++ recv_map r1)
      \<and> (rb_length p = 0 \<longrightarrow> \<not> rv_drain r1 \<longrightarrow> rb_max_off p \<in> fst ` set (rv_data r'))"
    proof (rule less.hyps [OF q(4) d1(1) q(2)])
      show "rv_off r1 < rb_max_off p" using less.prems(3) q(4,5) same by simp
      show "rb_max_off p \<le> f" if "rv_fin_off r1 = Some f" for f using less.prems(5) that q(5) same by simp
    qed (use q(3) in simp)
    then obtain r' where r': "recv_pieces [p] r1 = Some r'" "recv_mid r'" "recv_same r1 r'" "rv_len r' = max (rv_len r1) (rb_max_off p)"
      "rv_off r' = rv_off r" "recv_map r' = rb_map p |` {rv_off r..} ++ recv_map r1" using same by auto
    have "recv_same r r'" using d1(2) r'(3) by (simp add: recv_same_def)
    moreover have "rv_len r' = max (rv_len r) (rb_max_off buf)" using r'(4) d1(4,5) q(5) by auto
    moreover have "recv_map r' = rb_map buf |` {rv_off r..} ++ recv_map r"
      unfolding r'(6) using piece_done_more d q(1,8) less.prems(1) by blast
    ultimately show ?thesis using r'(1,2,5) q(1,4,8) by (simp add: u)
  qed
qed

text \<open>Which frames are refused, and with which error.\<close>

definition recv_refusal :: "range_buf \<Rightarrow> recv_buf \<Rightarrow> quiche_error option" where
  "recv_refusal buf r =
     (if fc_max_data (rv_flow_control r) < rb_max_off buf then Some QUICHE_ERR_FLOW_CONTROL
      else if (\<exists>f. rv_fin_off r = Some f \<and> (f < rb_max_off buf \<or> rb_fin buf \<and> rb_max_off buf \<noteq> f))
        \<or> rb_fin buf \<and> rb_max_off buf < rv_len r then Some QUICHE_ERR_FINAL_SIZE
      else None)"

lemma recv_write_refused: "recv_refusal buf r = Some e \<Longrightarrow> recv_write buf r = Some (Inl e, r)"
  by (auto simp: recv_refusal_def recv_write_def split: if_splits option.split)

lemma recv_mid_fin:
  assumes "recv_ok r" and "rv_fin_off r = None \<or> rv_fin_off r = Some f" and "rv_len r \<le> f"
  shows "recv_mid (r\<lparr>rv_fin_off := Some f\<rparr>)"
proof -
  have "recv_mid r" using assms(1) by (simp add: recv_ok_def)
  moreover have "(\<forall>(k, b) \<in> set (rv_data r). rb_length b = 0 \<longrightarrow> Some f = Some k)"
    using calculation assms(2) by (auto simp: recv_mid_def)
  ultimately show ?thesis using assms(3) by (auto simp: recv_mid_def)
qed

lemma recv_map_fields [simp]:
  "recv_map (r\<lparr>rv_fin_off := f\<rparr>) = recv_map r" "recv_map (r\<lparr>rv_flow_control := fc\<rparr>) = recv_map r"
  by (simp_all add: recv_map_def)

lemma rb_map_empty: "rb_length b = 0 \<Longrightarrow> rb_map b = Map.empty"
  by (auto simp: rb_map_def rb_max_off_def fun_eq_iff)

lemma restrict_empty_add: "Map.empty |` A ++ m = m"
  by (auto simp: fun_eq_iff map_add_def restrict_map_def split: option.split)

text \<open>What an accepted frame does.\<close>

definition recv_added :: "range_buf \<Rightarrow> recv_buf \<Rightarrow> recv_buf \<Rightarrow> bool" where
  "recv_added buf r r' \<longleftrightarrow> recv_ok r'
     \<and> rv_flow_control r' = rv_flow_control r \<and> rv_error r' = rv_error r \<and> rv_drain r' = rv_drain r
     \<and> rv_fin_off r' = (if rb_fin buf then Some (rb_max_off buf) else rv_fin_off r)
     \<and> rv_len r' = (if rb_length buf = 0 \<and> \<not> rb_fin buf then rv_len r else max (rv_len r) (rb_max_off buf))
     \<and> rv_off r' = (if rv_drain r then rv_len r' else rv_off r)
     \<and> (\<not> rv_drain r \<longrightarrow> recv_map r' = rb_map buf |` {rv_off r..} ++ recv_map r)"

lemma recv_write_accepted:
  assumes "recv_ok r" and "rb_fresh buf" and "recv_refusal buf r = None"
  shows "\<exists>r'. recv_write buf r = Some (Inr (), r') \<and> recv_added buf r r'"
proof -
  have mid: "recv_mid r" and fl: "\<And>f. rv_fin_off r = Some f \<Longrightarrow> rv_len r = f" using assms(1) by (simp_all add: recv_ok_def)
  have off: "rv_off r \<le> rv_len r" and dr: "rv_drain r \<Longrightarrow> rv_off r = rv_len r" using mid by (simp_all add: recv_mid_def)
  have acc: "\<not> fc_max_data (rv_flow_control r) < rb_max_off buf"
    "\<And>f. rv_fin_off r = Some f \<Longrightarrow> rb_max_off buf \<le> f \<and> (rb_fin buf \<longrightarrow> rb_max_off buf = f)"
    "rb_fin buf \<Longrightarrow> rv_len r \<le> rb_max_off buf"
    using assms(3) by (auto simp: recv_refusal_def split: if_splits)
  define r1 where "r1 = (if rb_fin buf then r\<lparr>rv_fin_off := Some (rb_max_off buf)\<rparr> else r)"
  have r1: "rv_off r1 = rv_off r" "rv_len r1 = rv_len r" "rv_drain r1 = rv_drain r" "rv_error r1 = rv_error r"
    "rv_flow_control r1 = rv_flow_control r" "recv_map r1 = recv_map r"
    "rv_fin_off r1 = (if rb_fin buf then Some (rb_max_off buf) else rv_fin_off r)" by (simp_all add: r1_def)
  have mid1: "recv_mid r1"
  proof (cases "rb_fin buf")
    case True
    then show ?thesis using recv_mid_fin [OF assms(1) _ acc(3)] acc(2) unfolding r1_def
      by (cases "rv_fin_off r") auto
  qed (simp add: r1_def mid)
  have wr: "recv_write buf r =
      (if rv_fin_off r \<noteq> None \<and> rb_is_empty buf then Some (Inr (), r)
       else if \<not> rb_fin buf \<and> rb_is_empty buf then Some (Inr (), r1)
       else if rb_max_off buf \<le> rv_off r \<and> \<not> rb_is_empty buf then Some (Inr (), r1)
       else map_option (Pair (Inr ())) (recv_pieces [buf] r1))"
    using acc unfolding recv_write_def r1_def Let_def by (auto split: option.split)
  consider (known) "rv_fin_off r \<noteq> None" "rb_is_empty buf" | (none) "rv_fin_off r = None" "\<not> rb_fin buf" "rb_is_empty buf"
    | (old) "rb_max_off buf \<le> rv_off r" "\<not> rb_is_empty buf"
    | (new) "rb_is_empty buf \<Longrightarrow> rb_fin buf \<and> rv_fin_off r = None" "\<not> rb_is_empty buf \<Longrightarrow> rv_off r < rb_max_off buf" by force
  then show ?thesis
  proof cases
    case known
    then obtain f where f: "rv_fin_off r = Some f" by auto
    then have "recv_added buf r r"
      using assms(1) known acc(2) [OF f] fl [OF f] off dr rb_map_empty [of buf]
      by (auto simp: recv_added_def rb_is_empty_def restrict_empty_add)
    then show ?thesis using known by (simp add: wr)
  next
    case none
    then have "recv_added buf r r"
      using assms(1) dr rb_map_empty [of buf] by (auto simp: recv_added_def rb_is_empty_def restrict_empty_add)
    then show ?thesis using none by (auto simp: wr r1_def)
  next
    case old
    have len: "max (rv_len r) (rb_max_off buf) = rv_len r" using old(1) off by simp
    have "rb_map buf |` {rv_off r..} = Map.empty" using old(1) by (auto simp: restrict_map_def rb_map_def fun_eq_iff)
    moreover have "recv_ok r1" using mid1 fl acc(3) old(1) off r1 unfolding recv_ok_def by auto
    ultimately have "recv_added buf r r1"
      using old(2) len dr by (auto simp: recv_added_def r1 rb_is_empty_def)
    then show ?thesis using old by (auto simp: wr)
  next
    case new
    have pos: "rb_length buf > 0 \<Longrightarrow> rv_off r1 < rb_max_off buf" using new(2) r1 by (simp add: rb_is_empty_def)
    have empt: "rb_length buf = 0 \<Longrightarrow> rv_fin_off r1 = Some (rb_max_off buf)" using new(1) r1 by (simp add: rb_is_empty_def)
    have fin: "\<And>f. rv_fin_off r1 = Some f \<Longrightarrow> rb_max_off buf \<le> f" using acc(2) r1(7) by (auto split: if_splits)
    obtain r' where r': "recv_pieces [buf] r1 = Some r'" "recv_mid r'" "recv_same r1 r'" "rv_len r' = max (rv_len r1) (rb_max_off buf)"
      "rv_off r' = (if rv_drain r1 then rv_len r' else rv_off r1)"
      "\<not> rv_drain r1 \<longrightarrow> recv_map r' = rb_map buf |` {rv_off r1..} ++ recv_map r1"
      using recv_pieces_spec [OF mid1 assms(2) pos empt fin] by auto
    have "recv_ok r'" using r'(2,3,4) acc(2,3) fl unfolding recv_ok_def by (auto simp: recv_same_def r1 split: if_splits)
    then have "recv_added buf r r'"
      using r' new(1) by (auto simp: recv_added_def r1 recv_same_def rb_is_empty_def)
    moreover have "recv_write buf r = Some (Inr (), r')" using new r'(1) by (auto simp: wr)
    ultimately show ?thesis by blast
  qed
qed

section \<open>A read\<close>

text \<open>The stored pieces, from an offset on.\<close>

definition data_ok :: "nat \<Rightarrow> range_buf btree \<Rightarrow> bool" where
  "data_ok off d \<longleftrightarrow> bt_ok d \<and> (\<forall>(k, b) \<in> set d. rb_ok b \<and> k = rb_max_off b \<and> off \<le> rb_front b)
     \<and> sorted_wrt (\<lambda>b b'. rb_max_off b \<le> rb_front b') (map snd d)"

lemma data_okI:
  assumes "bt_ok d" and "\<And>k b. (k, b) \<in> set d \<Longrightarrow> rb_ok b \<and> k = rb_max_off b \<and> off \<le> rb_front b"
    and "sorted_wrt (\<lambda>x y. rb_max_off (snd x) \<le> rb_front (snd y)) d"
  shows "data_ok off d"
  using assms by (auto simp: data_ok_def sorted_wrt_map)

lemma data_okD:
  assumes "data_ok off d"
  shows "bt_ok d" and "(k, b) \<in> set d \<Longrightarrow> rb_ok b \<and> k = rb_max_off b \<and> off \<le> rb_front b"
    and "sorted_wrt (\<lambda>x y. rb_max_off (snd x) \<le> rb_front (snd y)) d"
  using assms by (auto simp: data_ok_def sorted_wrt_map)

lemma data_ok_ConsD:
  assumes "data_ok off ((k, b) # d)"
  shows "rb_ok b" and "k = rb_max_off b" and "off \<le> rb_front b" and "\<forall>k' \<in> fst ` set d. k < k'" and "data_ok k d"
proof -
  have "rb_ok b \<and> k = rb_max_off b \<and> off \<le> rb_front b" using data_okD(2) [OF assms, of k b] by simp
  then show b: "rb_ok b" "k = rb_max_off b" "off \<le> rb_front b" by simp_all
  show "\<forall>k' \<in> fst ` set d. k < k'" using data_okD(1) [OF assms] by simp
  show "data_ok k d"
  proof (rule data_okI)
    fix k' b' assume e: "(k', b') \<in> set d"
    have "rb_max_off b \<le> rb_front b'" using data_okD(3) [OF assms] e by force
    then show "rb_ok b' \<and> k' = rb_max_off b' \<and> k \<le> rb_front b'" using data_okD(2) [OF assms, of k' b'] e b(2) by simp
  qed (use data_okD(1,3) [OF assms] in simp_all)
qed

lemma data_ok_ConsI:
  assumes "rb_ok b" and "off \<le> rb_front b" and "\<forall>k' \<in> fst ` set d. rb_max_off b < k'" and "data_ok (rb_max_off b) d"
  shows "data_ok off ((rb_max_off b, b) # d)"
proof (rule data_okI)
  fix k' b' assume "(k', b') \<in> set ((rb_max_off b, b) # d)"
  then consider "k' = rb_max_off b" "b' = b" | "(k', b') \<in> set d" by auto
  then show "rb_ok b' \<and> k' = rb_max_off b' \<and> off \<le> rb_front b'"
  proof cases
    case 2
    have "rb_front b \<le> rb_max_off b" by (simp add: rb_max_off_def)
    then show ?thesis using data_okD(2) [OF assms(4) 2] assms(2) by simp
  qed (use assms(1,2) in simp)
next
  have far: "rb_max_off b \<le> rb_front b'" if "(k', b') \<in> set d" for k' b' using data_okD(2) [OF assms(4) that] by simp
  show "sorted_wrt (\<lambda>x y. rb_max_off (snd x) \<le> rb_front (snd y)) ((rb_max_off b, b) # d)"
    using far data_okD(3) [OF assms(4)] by auto
qed (use data_okD(1) [OF assms(4)] assms(3) in simp)

lemma data_map_below:
  assumes "data_ok off d" and "i < off"
  shows "bufs_map (map snd d) i = None"
  unfolding bufs_map_None
proof
  fix b assume "b \<in> set (map snd d)"
  then obtain k where "(k, b) \<in> set d" by auto
  then show "rb_map b i = None" using data_okD(2) [OF assms(1)] assms(2) by fastforce
qed

lemma data_map_from: "data_ok off d \<Longrightarrow> bufs_map (map snd d) |` {off..} = bufs_map (map snd d)"
  using data_map_below by (fastforce simp: restrict_map_def fun_eq_iff)

text \<open>A read takes the longest prefix there is, up to its length.\<close>

lemma recv_take_spec:
  assumes "data_ok off d" and "recv_take cap off d = (out, off', d')"
  shows "off' = off + length out \<and> length out \<le> cap
    \<and> (\<forall>j < length out. bufs_map (map snd d) (off + j) = Some (out ! j))
    \<and> (length out < cap \<longrightarrow> bufs_map (map snd d) (off + length out) = None)
    \<and> bufs_map (map snd d') = bufs_map (map snd d) |` {off'..}
    \<and> data_ok off' d' \<and> (\<forall>(k, b) \<in> set d'. rb_length b = 0 \<longrightarrow> (k, b) \<in> set d) \<and> fst ` set d' \<subseteq> fst ` set d"
  using assms
proof (induction cap off d arbitrary: out off' d' rule: recv_take.induct)
  case (1 cap off)
  then show ?case by (auto simp: data_ok_def)
next
  case (2 cap off k b d)
  let ?M = "bufs_map (map snd ((k, b) # d))"
  have ok: "rb_ok b" "k = rb_max_off b" "off \<le> rb_front b" "\<forall>k' \<in> fst ` set d. k < k'" "data_ok k d"
    using data_ok_ConsD [OF 2(2)] by simp_all
  have len: "rb_length b = length (rb_bytes b)" by (rule rb_length_bytes [OF ok(1)])
  show ?case
  proof (cases "0 < cap \<and> rb_front b = off")
    case False
    then have res: "out = []" "off' = off" "d' = (k, b) # d" using 2(3) by (auto split: if_splits)
    have "?M off = None" if "0 < cap"
    proof -
      have "off < rb_front b" "rb_front b \<le> k" using False ok(2,3) that by (auto simp: rb_max_off_def)
      then show ?thesis using data_map_below [OF ok(5), of off] by (simp add: map_add_None)
    qed
    then show ?thesis using 2(2) data_map_from [OF 2(2)] by (auto simp: res simp del: bufs_map.simps)
  next
    case True
    then have fr: "rb_front b = off" and c: "0 < cap" by simp_all
    have mb: "rb_map b i = (if off \<le> i \<and> i < off + length (rb_bytes b) then Some (rb_bytes b ! (i - off)) else None)" for i
      by (simp add: rb_map_def fr rb_max_off_def len)
    have k: "k = off + length (rb_bytes b)" using ok(2) by (simp add: rb_max_off_def fr len)
    show ?thesis
    proof (cases "cap < rb_length b")
      case part: True
      then have res: "out = take cap (rb_bytes b)" "off' = off + cap" "d' = (k, rb_consume cap b) # d"
        using 2(3) True by (auto simp: min_def)
      note cs = rb_consumed [OF ok(1) less_imp_le [OF part]]
      have lo: "length out = cap" using part len by (simp add: res)
      have mc: "rb_map (rb_consume cap b) i = (rb_map b |` {off + cap..}) i" for i
        using part len by (auto simp: rb_map_def cs fr restrict_map_def)
      have far: "bufs_map (map snd d) i = None" if "i < off + cap" for i
        using data_map_below [OF ok(5), of i] that part len k by simp
      have "bufs_map (map snd d') = ?M |` {off'..}"
        using far by (auto simp: fun_eq_iff res mc map_add_def restrict_map_def split: option.split)
      moreover have "data_ok off' d'"
        using data_ok_ConsI [OF cs(1), of off' d] cs(2,4) fr ok(2,4,5) by (simp add: res)
      moreover have "\<forall>j < length out. ?M (off + j) = Some (out ! j)"
        using part len by (auto simp: res map_add_def mb)
      ultimately show ?thesis using part lo cs(5) by (auto simp: res simp del: bufs_map.simps)
    next
      case whole: False
      then have ml: "min (rb_length b) cap = length (rb_bytes b)" using len by simp
      obtain out1 off1 d1 where r: "recv_take (cap - length (rb_bytes b)) (off + length (rb_bytes b)) d = (out1, off1, d1)"
        using prod_cases3 by blast
      have res: "out = rb_bytes b @ out1" "off' = off1" "d' = d1"
        using 2(3) True whole r ml len by (auto simp: Let_def)
      have "data_ok (off + length (rb_bytes b)) d" using ok(5) k by simp
      from 2(1) [OF True ml [symmetric] _ this r] whole len have ih:
        "off1 = off + length (rb_bytes b) + length out1" "length out1 \<le> cap - length (rb_bytes b)"
        "\<forall>j < length out1. bufs_map (map snd d) (off + length (rb_bytes b) + j) = Some (out1 ! j)"
        "length out1 < cap - length (rb_bytes b) \<longrightarrow> bufs_map (map snd d) (off + length (rb_bytes b) + length out1) = None"
        "bufs_map (map snd d1) = bufs_map (map snd d) |` {off1..}" "data_ok off1 d1"
        "\<forall>(k, b) \<in> set d1. rb_length b = 0 \<longrightarrow> (k, b) \<in> set d" "fst ` set d1 \<subseteq> fst ` set d"
        by auto
      have below: "bufs_map (map snd d) i = None" if "i < off + length (rb_bytes b)" for i
        using data_map_below [OF ok(5), of i] that k by simp
      have out: "?M (off + j) = Some (out ! j)" if "j < length out" for j
      proof (cases "j < length (rb_bytes b)")
        case True
        then show ?thesis by (simp add: res nth_append mb map_add_def)
      next
        case False
        then have "bufs_map (map snd d) (off + j) = Some (out1 ! (j - length (rb_bytes b)))"
          using ih(3) [rule_format, of "j - length (rb_bytes b)"] that by (simp add: res)
        then show ?thesis using False by (simp add: res nth_append mb map_add_def)
      qed
      have "bufs_map (map snd d') = ?M |` {off'..}"
        using ih(1) by (auto simp: fun_eq_iff res ih(5) map_add_def restrict_map_def mb split: option.split)
      moreover have "length out < cap \<longrightarrow> ?M (off + length out) = None"
        using ih(4) whole len by (auto simp: res mb map_add_def add.assoc)
      ultimately show ?thesis using out ih(1,2,6-8) whole len by (auto simp: res simp del: bufs_map.simps)
    qed
  qed
qed

end
