(* ===== verification/RecvStream.thy ===== *)
theory RecvStream
  imports RecvProps
begin

text \<open>
  Reading from the receive buffer, and what a stream promises: whatever happens to the frames on the way, the
  application reads a prefix of what the peer wrote, and all of it when everything arrived; and where the end of a stream
  or its reset is not reported.
\<close>

lemma recv_ok_data: "recv_ok r \<Longrightarrow> data_ok (rv_off r) (rv_data r)"
  by (auto simp: recv_ok_def recv_mid_def data_ok_def)

text \<open>What a read of at most \<open>cap\<close> bytes leaves, when there is data.\<close>

definition recv_given :: "nat \<Rightarrow> recv_buf \<Rightarrow> bytes \<Rightarrow> recv_buf \<Rightarrow> bool" where
  "recv_given cap r out r' \<longleftrightarrow> recv_ok r' \<and> rv_off r' = rv_off r + length out \<and> length out \<le> cap
     \<and> (\<forall>j < length out. recv_map r (rv_off r + j) = Some (out ! j))
     \<and> (length out < cap \<longrightarrow> recv_map r (rv_off r + length out) = None)
     \<and> recv_map r' = recv_map r |` {rv_off r'..}
     \<and> rv_flow_control r' = fc_add_consumed (length out) (rv_flow_control r)
     \<and> rv_len r' = rv_len r \<and> rv_fin_off r' = rv_fin_off r \<and> rv_error r' = rv_error r \<and> rv_drain r' = rv_drain r"

lemma recv_emit_given:
  assumes "recv_ok r" and "recv_ready r" and "rv_error r = None"
  shows "\<exists>out r'. recv_emit cap r = (Inr (out, length out, recv_is_fin r'), r') \<and> recv_given cap r out r'"
proof -
  obtain out off' d' where t: "recv_take cap (rv_off r) (rv_data r) = (out, off', d')" using prod_cases3 by blast
  note s = recv_take_spec [OF recv_ok_data [OF assms(1)] t]
  let ?r' = "r\<lparr>rv_data := d', rv_off := off', rv_flow_control := fc_add_consumed (length out) (rv_flow_control r)\<rparr>"
  have len: "off' - rv_off r = length out" using s by simp
  have e: "recv_emit cap r = (Inr (out, length out, recv_is_fin ?r'), ?r')"
    using assms(2,3) by (simp add: recv_emit_def recv_emit_or_discard_def t len Let_def)
  have mid: "recv_mid r" and fl: "\<And>f. rv_fin_off r = Some f \<Longrightarrow> rv_len r = f" using assms(1) by (simp_all add: recv_ok_def)
  have d: "\<And>k b. (k, b) \<in> set (rv_data r) \<Longrightarrow> k \<le> rv_len r \<and> (rb_length b = 0 \<longrightarrow> rv_fin_off r = Some k)"
    and off: "rv_off r \<le> rv_len r" and dr: "rv_drain r \<Longrightarrow> rv_data r = [] \<and> rv_off r = rv_len r"
    using mid by (auto simp: recv_mid_def)
  have d': "data_ok off' d'" "\<And>k b. (k, b) \<in> set d' \<Longrightarrow> rb_length b = 0 \<Longrightarrow> (k, b) \<in> set (rv_data r)"
    "\<And>k b. (k, b) \<in> set d' \<Longrightarrow> k \<in> fst ` set (rv_data r)" using s by force+
  have el: "k \<le> rv_len r \<and> (rb_length b = 0 \<longrightarrow> rv_fin_off r = Some k)" if "(k, b) \<in> set d'" for k b
    using d'(2,3) [OF that] d by force
  have le: "off' \<le> rv_len r"
  proof (cases "length out")
    case (Suc n)
    have "\<forall>j < length out. recv_map r (rv_off r + j) = Some (out ! j)" using s unfolding recv_map_def by (elim conjE) assumption
    then have "recv_map r (rv_off r + n) \<noteq> None" using Suc by simp
    from recv_map_bounds(2) [OF mid this] show ?thesis using len Suc by simp
  qed (use s off in simp)
  have dr': "rv_drain r \<Longrightarrow> d' = [] \<and> off' = rv_len r" using dr t by auto
  have ok: "recv_ok ?r'"
    using d'(1) el le dr' fl by (auto simp: recv_ok_def recv_mid_def data_ok_def)
  have "recv_given cap r out ?r'"
    using ok s by (simp add: recv_given_def recv_map_def)
  with e show ?thesis by blast
qed

lemma recv_not_ready:
  assumes "recv_ok r" and "\<not> recv_ready r"
  shows "recv_emit cap r = (Inl (Stream_error QUICHE_ERR_DONE), r)" and "recv_map r (rv_off r) = None"
proof -
  show "recv_emit cap r = (Inl (Stream_error QUICHE_ERR_DONE), r)"
    using assms(2) by (simp add: recv_emit_def recv_emit_or_discard_def)
  show "recv_map r (rv_off r) = None"
  proof (cases "rv_data r")
    case (Cons e d)
    obtain k b where e: "e = (k, b)" by fastforce
    have "data_ok (rv_off r) ((k, b) # d)" using recv_ok_data [OF assms(1)] Cons e by simp
    from data_ok_ConsD [OF this] have b: "k = rb_max_off b" "rv_off r \<le> rb_front b" "data_ok k d" by simp_all
    have lt: "rv_off r < rb_front b" using b(2) assms(2) Cons e by (simp add: recv_ready_def)
    then have "rv_off r < k" using b(1) by (simp add: rb_max_off_def)
    then show ?thesis using data_map_below [OF b(3)] lt by (simp add: recv_map_def Cons e map_add_None)
  qed (simp add: recv_map_def)
qed

section \<open>A stream\<close>

text \<open>
  What a stream receives and what the application reads, in any order.  \<open>recv_run\<close> gives the bytes that were read
  one after the other, whether the end was reported, and the buffer; \<open>None\<close> when a frame is refused, or a read fails
  for another reason than that there is nothing to read, so that a run with a result excludes both.
\<close>

datatype recv_op = Frame nat bytes bool | Read nat

fun recv_run :: "recv_op list \<Rightarrow> recv_buf \<Rightarrow> (bytes \<times> bool \<times> recv_buf) option" where
  "recv_run [] r = Some ([], False, r)"
| "recv_run (Frame off d fin # ops) r =
     (case recv_write (rb_from d off fin) r of Some (Inr _, r) \<Rightarrow> recv_run ops r | _ \<Rightarrow> None)"
| "recv_run (Read cap # ops) r =
     (case recv_emit cap r of
        (Inr (out, len, fin), r) \<Rightarrow> map_option (\<lambda>(outs, fins, r). (out @ outs, fin \<or> fins, r)) (recv_run ops r)
      | (Inl e, r) \<Rightarrow> if e = Stream_error QUICHE_ERR_DONE then recv_run ops r else None)"

text \<open>A frame carries a part of the stream, and its end when it says so.\<close>

fun frame_of :: "bytes \<Rightarrow> recv_op \<Rightarrow> bool" where
  "frame_of s (Frame off d fin) \<longleftrightarrow> off + length d \<le> length s \<and> d = take (length d) (drop off s) \<and> (fin \<longrightarrow> off + length d = length s)"
| "frame_of s (Read cap) \<longleftrightarrow> True"

fun in_frame :: "nat \<Rightarrow> recv_op \<Rightarrow> bool" where
  "in_frame i (Frame off d fin) \<longleftrightarrow> off \<le> i \<and> i < off + length d"
| "in_frame i (Read cap) \<longleftrightarrow> False"

definition fin_frame :: "recv_op \<Rightarrow> bool" where
  "fin_frame oper \<longleftrightarrow> (case oper of Frame off d fin \<Rightarrow> fin | Read cap \<Rightarrow> False)"

text \<open>The buffer after a number of frames.\<close>

definition recv_of :: "bytes \<Rightarrow> recv_op list \<Rightarrow> recv_buf \<Rightarrow> bool" where
  "recv_of s ops r \<longleftrightarrow> recv_ok r \<and> \<not> rv_drain r \<and> rv_error r = None \<and> length s \<le> fc_max_data (rv_flow_control r)
     \<and> rv_len r \<le> length s
     \<and> rv_fin_off r = (if \<exists>oper \<in> set ops. fin_frame oper then Some (length s) else None)
     \<and> (\<forall>i < rv_off r. \<exists>oper \<in> set ops. in_frame i oper)
     \<and> (\<forall>i. recv_map r i = (if rv_off r \<le> i \<and> (\<exists>oper \<in> set ops. in_frame i oper) then Some (s ! i) else None))"

lemma recv_of_new: "length s \<le> max_data \<Longrightarrow> recv_of s [] (recv_new max_data w m)"
  by (simp add: recv_of_def recv_new_def recv_ok_def recv_mid_def fc_new_def recv_map_def)

lemma recv_of_frame:
  assumes "recv_of s ops r" and "frame_of s (Frame off d fin)"
  shows "\<exists>r'. recv_write (rb_from d off fin) r = Some (Inr (), r') \<and> recv_of s (ops @ [Frame off d fin]) r' \<and> rv_off r' = rv_off r"
proof -
  let ?b = "rb_from d off fin"
  have fr: "off + length d \<le> length s" "d = take (length d) (drop off s)" "fin \<Longrightarrow> off + length d = length s" using assms(2) by simp_all
  have r: "recv_ok r" "\<not> rv_drain r" "rv_error r = None" "length s \<le> fc_max_data (rv_flow_control r)" "rv_len r \<le> length s"
    "\<And>f. rv_fin_off r = Some f \<Longrightarrow> f = length s"
    using assms(1) by (auto simp: recv_of_def split: if_splits)
  have "recv_refusal ?b r = None"
    using fr r by (auto simp: recv_refusal_def)
  from recv_write_accepted [OF r(1) rb_from_fresh(1) this] obtain r' where
    w: "recv_write ?b r = Some (Inr (), r')" and a: "recv_added ?b r r'" by blast
  have nth: "d ! (i - off) = s ! i" if "off \<le> i" "i < off + length d" for i
  proof -
    have "d ! (i - off) = take (length d) (drop off s) ! (i - off)" using fr(2) by simp
    also have "\<dots> = s ! i" using that fr(1) by simp
    finally show ?thesis .
  qed
  have bm: "rb_map ?b i = (if off \<le> i \<and> i < off + length d then Some (s ! i) else None)" for i
    by (simp add: rb_map_def nth)
  have m: "recv_map r' = rb_map ?b |` {rv_off r..} ++ recv_map r" and off: "rv_off r' = rv_off r"
    using a r(2) by (simp_all add: recv_added_def)
  have map: "recv_map r' i = (if rv_off r \<le> i \<and> (\<exists>oper \<in> set (ops @ [Frame off d fin]). in_frame i oper) then Some (s ! i) else None)" for i
    using assms(1) by (auto simp: m recv_of_def map_add_def restrict_map_def bm split: option.split)
  have fin: "rv_fin_off r' = (if \<exists>oper \<in> set (ops @ [Frame off d fin]). fin_frame oper then Some (length s) else None)"
    using a fr(3) assms(1) by (auto simp: recv_added_def recv_of_def fin_frame_def)
  have "rv_len r' \<le> length s" using a r(5) fr(1) by (auto simp: recv_added_def split: if_splits)
  then have "recv_of s (ops @ [Frame off d fin]) r'"
    using a r(2-4) map fin off assms(1) unfolding recv_of_def recv_added_def by auto
  then show ?thesis using w off by blast
qed

lemma recv_of_read:
  assumes "recv_of s ops r" and "\<forall>oper \<in> set ops. frame_of s oper"
  shows "recv_emit cap r = (Inl (Stream_error QUICHE_ERR_DONE), r) \<and> recv_map r (rv_off r) = None
    \<or> (\<exists>out r'. recv_emit cap r = (Inr (out, length out, recv_is_fin r'), r') \<and> recv_given cap r out r'
        \<and> recv_of s ops r' \<and> take (length out) (drop (rv_off r) s) = out)"
proof (cases "recv_ready r")
  case False
  then show ?thesis using recv_not_ready assms(1) unfolding recv_of_def by blast
next
  case True
  have r: "recv_ok r" "rv_error r = None" using assms(1) by (simp_all add: recv_of_def)
  obtain out r' where e: "recv_emit cap r = (Inr (out, length out, recv_is_fin r'), r')" and g: "recv_given cap r out r'"
    using recv_emit_given [OF r(1) True r(2)] by blast
  have off: "rv_off r' = rv_off r + length out" and map: "recv_map r' = recv_map r |` {rv_off r'..}"
    and ok: "recv_ok r'" and bytes: "\<And>j. j < length out \<Longrightarrow> recv_map r (rv_off r + j) = Some (out ! j)"
    and same: "rv_len r' = rv_len r" "rv_fin_off r' = rv_fin_off r" "rv_error r' = rv_error r" "rv_drain r' = rv_drain r"
    using g by (simp_all add: recv_given_def)
  have cov: "\<And>i. recv_map r i = (if rv_off r \<le> i \<and> (\<exists>oper \<in> set ops. in_frame i oper) then Some (s ! i) else None)"
    using assms(1) by (simp add: recv_of_def)
  have le: "rv_off r' \<le> length s" using ok same assms(1) by (simp add: recv_ok_def recv_mid_def recv_of_def)
  have byte: "out ! j = s ! (rv_off r + j) \<and> (\<exists>oper \<in> set ops. in_frame (rv_off r + j) oper)" if "j < length out" for j
    using bytes [OF that] cov by (auto split: if_splits)
  have out: "out = take (length out) (drop (rv_off r) s)"
    using byte le off by (auto simp: list_eq_iff_nth_eq)
  have below: "\<exists>oper \<in> set ops. in_frame i oper" if "i < rv_off r'" for i
  proof (cases "i < rv_off r")
    case True
    then show ?thesis using assms(1) by (simp add: recv_of_def)
  next
    case False
    then show ?thesis using byte [of "i - rv_off r"] that off by simp
  qed
  have "fc_max_data (rv_flow_control r') = fc_max_data (rv_flow_control r)" using g by (simp add: recv_given_def fc_add_consumed_def)
  then have "recv_of s ops r'"
    using assms(1) same below ok map cov off unfolding recv_of_def by (auto simp: restrict_map_def)
  then show ?thesis using e g out [symmetric] by blast
qed

text \<open>Along a run: what was read, and what was received.\<close>

lemma recv_run_of:
  assumes "recv_of s ops0 r" and "\<forall>oper \<in> set (ops0 @ ops). frame_of s oper"
  shows "\<exists>out fin r'. recv_run ops r = Some (out, fin, r') \<and> recv_of s (ops0 @ ops) r'
    \<and> rv_off r' = rv_off r + length out \<and> take (length out) (drop (rv_off r) s) = out
    \<and> (fin \<longrightarrow> rv_off r' = length s \<and> (\<exists>oper \<in> set (ops0 @ ops). fin_frame oper))"
  using assms
proof (induction ops arbitrary: ops0 r)
  case Nil
  then show ?case by (intro exI [of _ "[]"] exI [of _ False] exI [of _ r]) simp
next
  case (Cons oper ops)
  note all = Cons.prems(2)
  have more: "recv_of s (ops0 @ [oper]) r1 \<Longrightarrow> \<exists>out fin r'. recv_run ops r1 = Some (out, fin, r') \<and> recv_of s (ops0 @ oper # ops) r'
    \<and> rv_off r' = rv_off r1 + length out \<and> take (length out) (drop (rv_off r1) s) = out
    \<and> (fin \<longrightarrow> rv_off r' = length s \<and> (\<exists>oper \<in> set (ops0 @ oper # ops). fin_frame oper))" for r1
    using Cons.IH [of "ops0 @ [oper]" r1] all by simp
  show ?case
  proof (cases oper)
    case (Frame off d fin)
    then obtain r1 where r1: "recv_write (rb_from d off fin) r = Some (Inr (), r1)" "recv_of s (ops0 @ [oper]) r1" "rv_off r1 = rv_off r"
      using recv_of_frame [OF Cons.prems(1), of off d fin] all by auto
    show ?thesis using more [OF r1(2)] r1(1,3) Frame by simp
  next
    case (Read cap)
    have add: "recv_of s (ops0 @ [oper]) r1 \<longleftrightarrow> recv_of s ops0 r1" for r1 by (simp add: recv_of_def Read fin_frame_def)
    have ops0: "\<forall>oper \<in> set ops0. frame_of s oper" using all by simp
    from recv_of_read [OF Cons.prems(1) ops0, of cap] show ?thesis
    proof (elim disjE exE conjE)
      assume e: "recv_emit cap r = (Inl (Stream_error QUICHE_ERR_DONE), r)"
      have "recv_of s (ops0 @ [oper]) r" using Cons.prems(1) add by blast
      moreover have "recv_run (oper # ops) r = recv_run ops r" using e by (simp add: Read)
      ultimately show ?thesis using more [of r] by (simp only:)
    next
      fix out r1
      assume e: "recv_emit cap r = (Inr (out, length out, recv_is_fin r1), r1)" and g: "recv_given cap r out r1"
        and r1: "recv_of s ops0 r1" and out: "take (length out) (drop (rv_off r) s) = out"
      have "recv_of s (ops0 @ [oper]) r1" using r1 add by blast
      from more [OF this] obtain outs fins r' where m: "recv_run ops r1 = Some (outs, fins, r')" "recv_of s (ops0 @ oper # ops) r'"
        "rv_off r' = rv_off r1 + length outs" "take (length outs) (drop (rv_off r1) s) = outs"
        "fins \<longrightarrow> rv_off r' = length s \<and> (\<exists>oper \<in> set (ops0 @ oper # ops). fin_frame oper)" by blast
      have off: "rv_off r1 = rv_off r + length out" using g by (simp add: recv_given_def)
      have "take (length (out @ outs)) (drop (rv_off r) s)
          = take (length out) (drop (rv_off r) s) @ take (length outs) (drop (rv_off r1) s)"
        by (simp add: take_add off add.commute)
      then have both: "take (length (out @ outs)) (drop (rv_off r) s) = out @ outs" using out m(4) by simp
      have fin: "rv_off r' = length s \<and> (\<exists>oper \<in> set (ops0 @ oper # ops). fin_frame oper)" if "recv_is_fin r1 \<or> fins"
      proof (cases fins)
        case False
        then have f: "rv_fin_off r1 = Some (rv_off r1)" using that by (simp add: recv_is_fin_def)
        then have ex: "\<exists>oper \<in> set ops0. fin_frame oper" and l: "rv_off r1 = length s"
          using r1 by (auto simp: recv_of_def split: if_splits)
        have "rv_off r' \<le> length s" using m(2) by (auto simp: recv_of_def recv_ok_def recv_mid_def)
        then show ?thesis using ex l m(3) by auto
      qed (use m(5) in simp)
      have "recv_run (oper # ops) r = Some (out @ outs, recv_is_fin r1 \<or> fins, r')" using e m(1) by (simp add: Read)
      moreover have "rv_off r' = rv_off r + length (out @ outs)" using m(3) off by simp
      ultimately show ?thesis using m(2) both fin by blast
    qed
  qed
qed


text \<open>A read of the whole stream, when all its bytes have come.\<close>

lemma recv_of_rest:
  assumes "recv_of s ops r" and "\<forall>oper \<in> set ops. frame_of s oper" and "\<forall>i < length s. \<exists>oper \<in> set ops. in_frame i oper"
    and "length s \<le> cap" and "rv_off r < length s"
  shows "\<exists>r'. recv_emit cap r = (Inr (drop (rv_off r) s, length s - rv_off r, \<exists>oper \<in> set ops. fin_frame oper), r')
    \<and> rv_off r' = length s"
proof -
  have map: "\<And>i. recv_map r i = (if rv_off r \<le> i \<and> (\<exists>oper \<in> set ops. in_frame i oper) then Some (s ! i) else None)"
    using assms(1) by (simp add: recv_of_def)
  have "recv_map r (rv_off r) \<noteq> None" using assms(3,5) map by simp
  then obtain out r' where e: "recv_emit cap r = (Inr (out, length out, recv_is_fin r'), r')" and g: "recv_given cap r out r'"
    and r': "recv_of s ops r'" and out: "take (length out) (drop (rv_off r) s) = out"
    using recv_of_read [OF assms(1,2), of cap] by (elim disjE exE conjE) simp
  have off: "rv_off r' = rv_off r + length out" and stop: "length out < cap \<Longrightarrow> recv_map r (rv_off r + length out) = None"
    using g by (simp_all add: recv_given_def)
  have le: "rv_off r' \<le> length s" using r' by (auto simp: recv_of_def recv_ok_def recv_mid_def)
  have full: "rv_off r' = length s"
  proof (rule ccontr)
    assume "rv_off r' \<noteq> length s"
    then have "rv_off r + length out < length s" using le off by simp
    then have "recv_map r (rv_off r + length out) \<noteq> None" "length out < cap" using assms(3,4) map by auto
    then show False using stop by simp
  qed
  have n: "length out = length s - rv_off r" using full off by simp
  have "out = drop (rv_off r) s" using out n by (metis length_drop take_all_iff order_refl)
  moreover have "recv_is_fin r' \<longleftrightarrow> (\<exists>oper \<in> set ops. fin_frame oper)"
    using r' full by (auto simp: recv_of_def recv_is_fin_def)
  ultimately show ?thesis using e n full by simp
qed

lemma recv_run_new:
  assumes "\<forall>oper \<in> set ops. frame_of s oper" and "length s \<le> max_data"
  obtains out fin r where "recv_run ops (recv_new max_data window max_window) = Some (out, fin, r)" and "recv_of s ops r"
    and "rv_off r = length out" and "take (length out) s = out"
    and "fin \<longrightarrow> length out = length s \<and> (\<exists>oper \<in> set ops. fin_frame oper)"
proof -
  have "\<forall>oper \<in> set ([] @ ops). frame_of s oper" using assms(1) by simp
  from recv_run_of [OF recv_of_new [OF assms(2), of window max_window] this] obtain out fin r where
    r: "recv_run ops (recv_new max_data window max_window) = Some (out, fin, r)" "recv_of s ([] @ ops) r"
    "rv_off r = rv_off (recv_new max_data window max_window) + length out"
    "take (length out) (drop (rv_off (recv_new max_data window max_window)) s) = out"
    "fin \<longrightarrow> rv_off r = length s \<and> (\<exists>oper \<in> set ([] @ ops). fin_frame oper)" by (elim exE conjE)
  have "rv_off (recv_new max_data window max_window) = 0" by (simp add: recv_new_def)
  then show thesis using r by (intro that [OF r(1)]) simp_all
qed

lemma recv_run_append:
  "recv_run (ops @ ops') r = (case recv_run ops r of None \<Rightarrow> None
    | Some (out, fin, r) \<Rightarrow> map_option (\<lambda>(outs, fins, r). (out @ outs, fin \<or> fins, r)) (recv_run ops' r))"
proof (induction ops arbitrary: r)
  case Nil
  then show ?case by (cases "recv_run ops' r") auto
next
  case (Cons oper ops)
  show ?case
  proof (cases oper)
    case (Frame off d fin)
    then show ?thesis using Cons.IH by (auto split: option.split sum.split)
  next
    case (Read cap)
    obtain x r1 where e: "recv_emit cap r = (x, r1)" by fastforce
    show ?thesis
    proof (cases x)
      case (Inl a)
      then show ?thesis using Cons.IH [of r1] by (simp add: Read e)
    next
      case (Inr y)
      obtain out len fin where "y = (out, len, fin)" using prod_cases3 by blast
      then show ?thesis using Cons.IH [of r1] Inr
        by (cases "recv_run ops r1"; cases "recv_run ops' (snd (snd (the (recv_run ops r1))))") (auto simp: Read e)
    qed
  qed
qed

text \<open>A buffer that reports nothing any more.\<close>

definition recv_silent :: "recv_buf \<Rightarrow> bool" where
  "recv_silent r \<longleftrightarrow> rv_data r = [] \<and> rv_fin_off r = Some (rv_off r)"

lemma recv_silent_write:
  assumes "recv_silent r"
  shows "\<exists>res. recv_write buf r = Some (res, r)"
proof -
  have "rv_fin_off r = Some (rv_off r)" using assms by (simp add: recv_silent_def)
  moreover have "r\<lparr>rv_fin_off := Some (rv_off r)\<rparr> = r" using calculation by simp
  ultimately show ?thesis by (auto simp: recv_write_def Let_def not_less rb_is_empty_def)
qed

lemma recv_silent_emit: "recv_silent r \<Longrightarrow> recv_emit cap r = (Inl (Stream_error QUICHE_ERR_DONE), r)"
  by (simp add: recv_silent_def recv_emit_def recv_emit_or_discard_def recv_ready_def)

lemma recv_silent_run: "recv_silent r \<Longrightarrow> recv_run ops r \<in> {None, Some ([], False, r)}"
proof (induction ops)
  case (Cons oper ops)
  show ?case
  proof (cases oper)
    case (Frame off d fin)
    obtain res where "recv_write (rb_from d off fin) r = Some (res, r)" using recv_silent_write [OF Cons.prems] by blast
    then show ?thesis using Cons Frame by (cases res) auto
  next
    case (Read cap)
    then show ?thesis using Cons by (simp add: recv_silent_emit)
  qed
qed simp

section \<open>What the buffer promises\<close>

text \<open>
  C23: The receive buffer refines a partial map of the bytes that arrived and were not read: a frame is refused
  exactly when it is beyond the flow control limit or contradicts the size of the stream, and then changes nothing;
  otherwise its bytes that are not there yet are added, those that are there stay as they are, the known length and the
  end are updated, and no panic and no endless loop happens, however the frame overlaps with what is stored.
\<close>

theorem recv_frame_refines:
  assumes "recv_ok r" and "rv_drain r = False"
  shows "\<exists>res r'. recv_write (rb_from d off fin) r = Some (res, r') \<and> recv_ok r' \<and> rv_off r' = rv_off r
    \<and> (if fc_max_data (rv_flow_control r) < off + length d then res = Inl QUICHE_ERR_FLOW_CONTROL \<and> r' = r
       else if (\<exists>f. rv_fin_off r = Some f \<and> (f < off + length d \<or> fin \<and> off + length d \<noteq> f)) \<or> fin \<and> off + length d < rv_len r
       then res = Inl QUICHE_ERR_FINAL_SIZE \<and> r' = r
       else res = Inr () \<and> rv_flow_control r' = rv_flow_control r \<and> rv_error r' = rv_error r \<and> \<not> rv_drain r'
         \<and> rv_fin_off r' = (if fin then Some (off + length d) else rv_fin_off r)
         \<and> rv_len r' = (if d = [] \<and> \<not> fin then rv_len r else max (rv_len r) (off + length d))
         \<and> (\<forall>i. recv_map r' i = (case recv_map r i of Some x \<Rightarrow> Some x
              | None \<Rightarrow> if rv_off r \<le> i \<and> off \<le> i \<and> i < off + length d then Some (d ! (i - off)) else None)))"
proof (cases "recv_refusal (rb_from d off fin) r")
  case None
  from recv_write_accepted [OF assms(1) rb_from_fresh(1) None] obtain r' where
    w: "recv_write (rb_from d off fin) r = Some (Inr (), r')" and a: "recv_added (rb_from d off fin) r r'" by blast
  have m: "recv_map r' = rb_map (rb_from d off fin) |` {rv_off r..} ++ recv_map r" using a assms(2) by (simp add: recv_added_def)
  have map: "\<forall>i. recv_map r' i = (case recv_map r i of Some x \<Rightarrow> Some x
      | None \<Rightarrow> if rv_off r \<le> i \<and> off \<le> i \<and> i < off + length d then Some (d ! (i - off)) else None)"
    by (auto simp: m map_add_def restrict_map_def rb_map_def split: option.split)
  have acc: "\<not> fc_max_data (rv_flow_control r) < off + length d"
    "\<not> ((\<exists>f. rv_fin_off r = Some f \<and> (f < off + length d \<or> fin \<and> off + length d \<noteq> f)) \<or> fin \<and> off + length d < rv_len r)"
    using None by (auto simp: recv_refusal_def split: if_splits)
  show ?thesis
    using w a assms(2) map acc
    by (intro exI [of _ "Inr ()"] exI [of _ r'], simp only: if_False) (simp add: recv_added_def)
next
  case (Some e)
  have "recv_write (rb_from d off fin) r = Some (Inl e, r)" by (rule recv_write_refused [OF Some])
  then show ?thesis using Some assms(1) unfolding recv_refusal_def rb_from_fresh
    by (intro exI [of _ "Inl e"] exI [of _ r]) (auto split: if_splits)
qed

lemma recv_ok_new [simp]: "recv_ok (recv_new max_data w m)"
  by (simp add: recv_new_def recv_ok_def recv_mid_def fc_new_def)

lemma recv_frame_refines_witness:
  "\<exists>r'. recv_write (rb_from [1, 2] 3 False) (recv_new 10 8 8) = Some (Inr (), r') \<and> recv_map r' 4 = Some 2"
proof -
  have new: "rv_drain (recv_new 10 8 8) = False" "fc_max_data (rv_flow_control (recv_new 10 8 8)) = 10"
    "rv_fin_off (recv_new 10 8 8) = None" "rv_off (recv_new 10 8 8) = 0" "recv_map (recv_new 10 8 8) = Map.empty"
    by (simp_all add: recv_new_def fc_new_def recv_map_def)
  show ?thesis using recv_frame_refines [OF recv_ok_new new(1), of "[1, 2]" 3 False] new by auto
qed

text \<open>
  C24: A stream is put together in order.  Whatever frames of a stream arrive, cut at any place, in any order,
  repeated and overlapping, and however the application reads in between, no frame and no read fails, what was read is a
  prefix of the stream, and its end is reported only when the whole stream was read and its end is known.
\<close>

theorem recv_reassembles:
  assumes "\<forall>oper \<in> set ops. frame_of s oper" and "length s \<le> max_data"
  shows "\<exists>out fin r. recv_run ops (recv_new max_data window max_window) = Some (out, fin, r)
    \<and> out = take (length out) s \<and> length out \<le> length s
    \<and> (\<forall>i < length out. \<exists>oper \<in> set ops. in_frame i oper)
    \<and> (fin \<longrightarrow> out = s \<and> (\<exists>oper \<in> set ops. fin_frame oper))"
proof -
  obtain out fin r where r: "recv_run ops (recv_new max_data window max_window) = Some (out, fin, r)" "recv_of s ops r"
    "rv_off r = length out" "take (length out) s = out" "fin \<longrightarrow> length out = length s \<and> (\<exists>oper \<in> set ops. fin_frame oper)"
    using recv_run_new [OF assms(1,2)] by blast
  have "rv_off r \<le> length s" "\<forall>i < rv_off r. \<exists>oper \<in> set ops. in_frame i oper"
    using r(2) by (auto simp: recv_of_def recv_ok_def recv_mid_def)
  moreover have "fin \<longrightarrow> out = s" using r(4,5) by (metis take_all_iff order_refl)
  ultimately show ?thesis using r(1,3,5) r(4) [symmetric] by (intro exI [of _ out] exI [of _ fin] exI [of _ r] conjI) simp_all
qed

lemma recv_reassembles_witness:
  "\<exists>out fin r. recv_run [Frame 2 [3, 4] True, Read 5, Frame 0 [1, 2, 3] False, Read 2, Frame 1 [2] False, Read 9] (recv_new 9 9 9)
      = Some (out, fin, r) \<and> out = take (length out) [1, 2, 3, 4] \<and> length out \<le> 4"
  using recv_reassembles [of "[Frame 2 [3, 4] True, Read 5, Frame 0 [1, 2, 3] False, Read 2, Frame 1 [2] False, Read 9]"
      "[1, 2, 3, 4]" 9 9 9] by auto

text \<open>
  When its frames have brought every byte of a stream, one more read gives all that is left, and the end with it when it
  is known, unless the application had read the last byte before.
\<close>

lemma recv_completes:
  assumes "\<forall>oper \<in> set ops. frame_of s oper" and "length s \<le> max_data"
    and "\<forall>i < length s. \<exists>oper \<in> set ops. in_frame i oper" and "length s \<le> cap"
  shows "\<exists>out fin r fin' r'. recv_run ops (recv_new max_data window max_window) = Some (out, fin, r)
    \<and> recv_run (ops @ [Read cap]) (recv_new max_data window max_window) = Some (s, fin', r') \<and> rv_off r' = length s
    \<and> (out \<noteq> s \<and> (\<exists>oper \<in> set ops. fin_frame oper) \<longrightarrow> fin')"
proof -
  obtain out fin r where r: "recv_run ops (recv_new max_data window max_window) = Some (out, fin, r)" "recv_of s ops r"
    "rv_off r = length out" "take (length out) s = out"
    using recv_run_new [OF assms(1,2)] by blast
  have ops: "\<forall>oper \<in> set (ops @ [Read cap]). frame_of s oper" using assms(1) by simp
  obtain out' fin' r' where r': "recv_run (ops @ [Read cap]) (recv_new max_data window max_window) = Some (out', fin', r')"
    "rv_off r' = length out'" "take (length out') s = out'"
    by (rule recv_run_new [OF ops assms(2), of window max_window]) (rule that)
  note run = r'(1) [unfolded recv_run_append r(1) option.case prod.case]
  show ?thesis
  proof (cases "rv_off r < length s")
    case True
    obtain r1 where "recv_emit cap r = (Inr (drop (length out) s, length s - length out, \<exists>oper \<in> set ops. fin_frame oper), r1)"
      using recv_of_rest [OF r(2) assms(1,3,4) True] r(3) by auto
    then have "out' = out @ drop (length out) s" "(\<exists>oper \<in> set ops. fin_frame oper) \<longrightarrow> fin'" using run by auto
    moreover have "out @ drop (length out) s = s" using append_take_drop_id [of "length out" s] r(4) by simp
    ultimately have "out' = s" "(\<exists>oper \<in> set ops. fin_frame oper) \<longrightarrow> fin'" by simp_all
    then show ?thesis using r(1) r'(1,2) by blast
  next
    case False
    then have "out = s" using r(3,4) by simp
    moreover have "out' = out @ drop (length out) out'" using run r(1) by (auto split: sum.splits prod.splits if_splits)
    then have "length out \<le> length out'" by (metis length_append le_add1)
    ultimately have "out' = s" using r'(3) by simp
    then show ?thesis using r(1) r'(1,2) \<open>out = s\<close> by blast
  qed
qed

text \<open>
  The end of a stream can get lost.  When the application has read all bytes of a stream whose end is not
  known, and the last frame is repeated, now with its end, the frame is taken, the stream is finished, and no read
  reports it, whatever arrives afterwards.
\<close>

lemma late_fin_not_reported:
  assumes "recv_ok r" and "rv_data r = []" and "rv_fin_off r = None" and "rv_len r = rv_off r"
    and "off + length d = rv_off r" and "d \<noteq> []" and "rv_off r \<le> fc_max_data (rv_flow_control r)"
  shows "\<exists>r'. recv_write (rb_from d off True) r = Some (Inr (), r') \<and> recv_is_fin r' \<and> \<not> recv_ready r'
    \<and> recv_silent r'"
proof -
  let ?r = "r\<lparr>rv_fin_off := Some (rv_off r)\<rparr>"
  have "recv_write (rb_from d off True) r = Some (Inr (), ?r)"
    using assms by (simp add: recv_write_def rb_is_empty_def)
  moreover have "recv_silent ?r" using assms(2) by (simp add: recv_silent_def)
  ultimately show ?thesis using assms(2) by (auto simp: recv_is_fin_def recv_ready_def)
qed

text \<open>
  C27: A reset can get lost.  When the end of a stream is known, a reset by the peer is taken and drops the data that was
  not read; but from then on each read, of however many bytes, gives \<open>Done\<close> (nothing to read) and never
  \<open>StreamReset\<close>, and this stays so, since no frame and no further reset changes the buffer: the empty piece that is to
  report the reset is taken for a repeated end.
\<close>

theorem reset_not_reported:
  assumes "recv_ok r" and "rv_fin_off r = Some final_size" and "rv_error r = None"
    and "final_size \<le> fc_max_data (rv_flow_control r)"
  shows "\<exists>r'. recv_reset error_code final_size r = Some (Inr (0, final_size - rv_off r), r')
    \<and> rv_error r' = Some error_code \<and> \<not> recv_ready r'
    \<and> (\<forall>cap. recv_emit cap r' = (Inl (Stream_error QUICHE_ERR_DONE), r'))
    \<and> (\<forall>off d fin. \<exists>res. recv_write (rb_from d off fin) r' = Some (res, r'))
    \<and> (\<forall>code size. \<exists>res. recv_reset code size r' = Some (res, r'))"
proof -
  let ?r = "r\<lparr>rv_error := Some error_code, rv_off := final_size, rv_data := []\<rparr>"
  have len: "rv_len r = final_size" "rv_off r \<le> final_size" using assms(1,2) by (auto simp: recv_ok_def recv_mid_def)
  have "recv_write (rb_from [] final_size True) ?r = Some (Inr (), ?r)"
    using assms(2,4) len by (simp add: recv_write_def rb_is_empty_def)
  then have "recv_reset error_code final_size r = Some (Inr (0, final_size - rv_off r), ?r)"
    using assms(2,3) len by (simp add: recv_reset_def)
  moreover have s: "recv_silent ?r" using assms(2) by (simp add: recv_silent_def)
  moreover have "\<exists>res. recv_reset code size ?r = Some (res, ?r)" for code size
    by (simp add: recv_reset_def)
  ultimately show ?thesis using recv_silent_emit [OF s] recv_silent_write [OF s]
    by (intro exI [of _ ?r] conjI) (simp_all add: recv_ready_def)
qed

lemma reset_not_reported_witness:
  "\<exists>r'. recv_reset 5 4 ((recv_new 9 9 9)\<lparr>rv_len := 4, rv_fin_off := Some 4\<rparr>)
      = Some (Inr (0, 4 - rv_off ((recv_new 9 9 9)\<lparr>rv_len := 4, rv_fin_off := Some 4\<rparr>)), r')
    \<and> rv_error r' = Some 5 \<and> \<not> recv_ready r'
    \<and> (\<forall>cap. recv_emit cap r' = (Inl (Stream_error QUICHE_ERR_DONE), r'))
    \<and> (\<forall>off d fin. \<exists>res. recv_write (rb_from d off fin) r' = Some (res, r'))
    \<and> (\<forall>code size. \<exists>res. recv_reset code size r' = Some (res, r'))"
  by (rule reset_not_reported) (simp_all add: recv_new_def fc_new_def recv_ok_def recv_mid_def)

text \<open>Otherwise the next read gives the error.\<close>

lemma reset_reported:
  assumes "recv_ok r" and "rv_fin_off r = None" and "rv_error r = None" and "rv_len r \<le> final_size"
    and "final_size \<le> fc_max_data (rv_flow_control r)" and "\<not> rv_drain r"
  shows "\<exists>r'. recv_reset error_code final_size r = Some (Inr (final_size - rv_len r, final_size - rv_off r), r')
    \<and> fst (recv_emit cap r') = Inl (StreamReset error_code)"
proof -
  let ?r = "r\<lparr>rv_error := Some error_code, rv_off := final_size, rv_data := []\<rparr>"
  let ?b = "rb_from [] final_size True"
  let ?r1 = "?r\<lparr>rv_fin_off := Some final_size\<rparr>"
  have off: "rv_off r \<le> final_size" using assms(1,4) by (auto simp: recv_ok_def recv_mid_def)
  have "recv_pieces [?b] ?r1 = Some (recv_store ?b ?r1)"
    by (simp add: recv_pieces_unfold recv_piece_def bt_range_from_def)
  then have "recv_reset error_code final_size r = Some (Inr (final_size - rv_len r, final_size - rv_off r), recv_store ?b ?r1)"
    using assms off by (simp add: recv_reset_def recv_write_def rb_is_empty_def not_less)
  moreover have "fst (recv_emit cap (recv_store ?b ?r1)) = Inl (StreamReset error_code)"
    using assms(6) by (simp add: recv_store_def Let_def recv_emit_def recv_emit_or_discard_def recv_ready_def)
  ultimately show ?thesis by blast
qed

end
