(* ===== verification/SendProps.thy ===== *)
theory SendProps
  imports SendBuf RangeProps RecvStream
begin

text \<open>
  What the send buffer promises.  Its state stands for the stream that was written and the set of offsets that are to be
  sent; each operation is a simple one on these.
\<close>

section \<open>The pieces of a stream\<close>

definition piece_at :: "bytes \<Rightarrow> nat \<Rightarrow> range_buf \<Rightarrow> bool" where
  "piece_at s p b \<longleftrightarrow> rb_ok b \<and> rb_off b = p \<and> p + rb_len b \<le> length s
     \<and> take (rb_len b) (drop (rb_start b) (rb_data b)) = take (rb_len b) (drop p s)"

fun pieces_at :: "bytes \<Rightarrow> nat \<Rightarrow> range_buf list \<Rightarrow> nat \<Rightarrow> bool" where
  "pieces_at s p [] q \<longleftrightarrow> p = q"
| "pieces_at s p (b # bs) q \<longleftrightarrow> piece_at s p b \<and> pieces_at s (p + rb_len b) bs q"

definition pending :: "range_buf list \<Rightarrow> nat set" where
  "pending bs = (\<Union>b \<in> set bs. {rb_front b..<rb_max_off b})"

lemma pending_simps [simp]: "pending [] = {}" "pending (b # bs) = {rb_front b..<rb_max_off b} \<union> pending bs"
  "pending (xs @ ys) = pending xs \<union> pending ys"
  by (auto simp: pending_def)

lemma total_length_simps [simp]: "total_length [] = 0" "total_length (b # bs) = rb_length b + total_length bs"
  "total_length (xs @ ys) = total_length xs + total_length ys"
  by (simp_all add: total_length_def)

lemma pieces_append: "pieces_at s p (xs @ ys) r \<longleftrightarrow> (\<exists>q. pieces_at s p xs q \<and> pieces_at s q ys r)"
  by (induction xs arbitrary: p) auto

lemma piece_at_facts:
  assumes "piece_at s p b"
  shows "rb_ok b" "p \<le> rb_front b" "rb_max_off b = p + rb_len b" "rb_front b \<le> rb_max_off b" "p + rb_len b \<le> length s"
    "rb_bytes b = take (rb_length b) (drop (rb_front b) s)" "rb_length b = rb_max_off b - rb_front b"
proof -
  have b: "rb_start b \<le> rb_pos b" "rb_pos b \<le> rb_start b + rb_len b" "rb_start b + rb_len b \<le> length (rb_data b)" "rb_start b \<le> rb_off b"
    and p: "rb_off b = p" "p + rb_len b \<le> length s"
    and t: "take (rb_len b) (drop (rb_start b) (rb_data b)) = take (rb_len b) (drop p s)"
    using assms by (simp_all add: piece_at_def rb_ok_def)
  show "rb_ok b" "p + rb_len b \<le> length s" using assms by (simp_all add: piece_at_def)
  show "p \<le> rb_front b" "rb_max_off b = p + rb_len b" "rb_front b \<le> rb_max_off b" "rb_length b = rb_max_off b - rb_front b"
    using b p by (simp_all add: rb_front_def rb_max_off_def rb_length_def)
  have "rb_bytes b = drop (rb_pos b - rb_start b) (take (rb_len b) (drop (rb_start b) (rb_data b)))"
    using b by (simp add: rb_bytes_def drop_take add.commute [of "rb_len b"])
  also have "\<dots> = drop (rb_pos b - rb_start b) (take (rb_len b) (drop p s))" by (simp add: t)
  also have "\<dots> = take (rb_length b) (drop (rb_front b) s)"
    using b p by (simp add: drop_take rb_length_def rb_front_def add.commute)
  finally show "rb_bytes b = take (rb_length b) (drop (rb_front b) s)" .
qed

lemma pieces_bounds:
  assumes "pieces_at s p bs q"
  shows "p \<le> q" and "pending bs \<subseteq> {p..<q}" and "bs \<noteq> [] \<Longrightarrow> q \<le> length s"
proof -
  have "p \<le> q \<and> pending bs \<subseteq> {p..<q} \<and> (bs \<noteq> [] \<longrightarrow> q \<le> length s)" using assms
  proof (induction bs arbitrary: p)
    case (Cons b bs)
    note f = piece_at_facts [of s p b]
    have b: "piece_at s p b" "pieces_at s (p + rb_len b) bs q" using Cons.prems by simp_all
    note ih = Cons.IH [OF b(2)]
    have "bs = [] \<Longrightarrow> q = p + rb_len b" using b(2) by simp
    then show ?case using ih f [OF b(1)] by (cases "bs = []") auto
  qed simp
  then show "p \<le> q" "pending bs \<subseteq> {p..<q}" "bs \<noteq> [] \<Longrightarrow> q \<le> length s" by simp_all
qed

lemma piece_at_append: "piece_at s p b \<Longrightarrow> piece_at (s @ t) p b"
  by (auto simp: piece_at_def)

lemma pieces_at_append: "pieces_at s p bs q \<Longrightarrow> pieces_at (s @ t) p bs q"
  by (induction bs arbitrary: p) (auto intro: piece_at_append)

lemma total_pending:
  assumes "pieces_at s p bs q"
  shows "total_length bs = card (pending bs)"
  using assms
proof (induction bs arbitrary: p)
  case (Cons b bs)
  have b: "piece_at s p b" "pieces_at s (p + rb_len b) bs q" using Cons.prems by simp_all
  note f = piece_at_facts [OF b(1)]
  have "{rb_front b..<rb_max_off b} \<inter> pending bs = {}" using pieces_bounds(2) [OF b(2)] f(3) by auto
  moreover have "finite (pending bs)" by (simp add: pending_def)
  ultimately show ?case using Cons.IH [OF b(2)] f(7) by (simp add: card_Un_disjoint)
qed simp

lemma piece_consume:
  assumes "piece_at s p b" and "n \<le> rb_length b"
  shows "piece_at s p (rb_consume n b)"
  using assms rb_consumed(1) [of b n] by (simp add: piece_at_def rb_consume_def)

lemma piece_empty: "piece_at s p b \<Longrightarrow> rb_is_empty b \<longleftrightarrow> rb_front b = rb_max_off b"
  using piece_at_facts [of s p b] by (auto simp: rb_is_empty_def)

text \<open>The first offset that is pending.\<close>

lemma front_from_spec:
  assumes "pieces_at s p bs q"
  shows "pending bs = {} \<and> front_from off bs = off
    \<or> front_from off bs \<in> pending bs \<and> (\<forall>i \<in> pending bs. front_from off bs \<le> i)"
  using assms
proof (induction bs arbitrary: p)
  case (Cons b bs)
  have b: "piece_at s p b" "pieces_at s (p + rb_len b) bs q" using Cons.prems by simp_all
  note f = piece_at_facts [OF b(1)]
  show ?case
  proof (cases "rb_is_empty b")
    case True
    then have "{rb_front b..<rb_max_off b} = {}" using piece_empty [OF b(1)] by simp
    then show ?thesis using Cons.IH [OF b(2)] True by simp
  next
    case False
    then have "rb_front b < rb_max_off b" using piece_empty [OF b(1)] f(4) by simp
    then show ?thesis using pieces_bounds(2) [OF b(2)] f(3) False by auto
  qed
qed simp

section \<open>The invariant\<close>

text \<open>\<open>s\<close> is the stream that was written so far.\<close>

definition send_ok :: "bytes \<Rightarrow> send_buf \<Rightarrow> bool" where
  "send_ok s b \<longleftrightarrow> (\<exists>p. pieces_at s p (sn_data b) (length s) \<and> {..<p} \<subseteq> rs_set (rs_iter (sn_acked b)))
     \<and> sn_pos b \<le> length (sn_data b) \<and> pending (take (sn_pos b) (sn_data b)) = {}
     \<and> sn_off b = length s \<and> sn_off b \<le> sn_max_data b \<and> sn_max_data b < 2 ^ 62 \<and> sn_emit_off b \<le> sn_off b
     \<and> sn_buffered_bytes b = total_length (sn_data b)
     \<and> rs_ok (rs_iter (sn_acked b)) \<and> (\<forall>r \<in> set (rs_iter (sn_acked b)). snd r \<le> sn_emit_off b)
     \<and> rs_capacity (sn_acked b) = USIZE_MAX
     \<and> (\<forall>f. sn_fin_off b = Some f \<longrightarrow> f = length s) \<and> sn_error b = None"

abbreviation to_send :: "send_buf \<Rightarrow> nat set" where
  "to_send b \<equiv> pending (sn_data b)"

lemma send_ok_new: "max_data < 2 ^ 62 \<Longrightarrow> send_ok [] (send_new max_data)"
  by (auto simp: send_ok_def send_new_def rs_new_def)

lemma send_ok_front:
  assumes "send_ok s b"
  shows "to_send b = {} \<and> sn_off_front b = length s
    \<or> sn_off_front b \<in> to_send b \<and> (\<forall>i \<in> to_send b. sn_off_front b \<le> i)" and "to_send b \<subseteq> {..<length s}"
    and "sn_off_front b \<le> length s"
proof -
  obtain p where p: "pieces_at s p (sn_data b) (length s)" using assms by (auto simp: send_ok_def)
  have "sn_data b = take (sn_pos b) (sn_data b) @ drop (sn_pos b) (sn_data b)" by simp
  then have "\<exists>q. pieces_at s q (drop (sn_pos b) (sn_data b)) (length s)" using p pieces_append by metis
  then obtain q where "pieces_at s q (drop (sn_pos b) (sn_data b)) (length s)" by blast
  note f = front_from_spec [OF this, of "sn_off b"]
  have "pending (take (sn_pos b) (sn_data b)) \<union> pending (drop (sn_pos b) (sn_data b)) = to_send b"
    by (metis append_take_drop_id pending_simps(3))
  then have eq: "pending (drop (sn_pos b) (sn_data b)) = to_send b" using assms by (simp add: send_ok_def)
  show 1: "to_send b = {} \<and> sn_off_front b = length s
    \<or> sn_off_front b \<in> to_send b \<and> (\<forall>i \<in> to_send b. sn_off_front b \<le> i)"
    using f assms unfolding eq by (auto simp: sn_off_front_def send_ok_def)
  show 2: "to_send b \<subseteq> {..<length s}" using pieces_bounds(2) [OF p] by auto
  show "sn_off_front b \<le> length s" using 1 2 by (auto dest: subsetD)
qed

text \<open>The bytes that still have to be sent are counted exactly.\<close>

lemma send_ok_count: "send_ok s b \<Longrightarrow> sn_buffered_bytes b = card (to_send b)"
  using total_pending by (fastforce simp: send_ok_def)

section \<open>Sending\<close>

text \<open>
  What the loop does to the pieces from the position on: \<open>n\<close> bytes are sent, and they are the first that are pending.
\<close>

definition sent_to :: "nat set \<Rightarrow> nat \<Rightarrow> nat \<Rightarrow> nat \<Rightarrow> nat set \<Rightarrow> bool" where
  "sent_to P off len n P' \<longleftrightarrow> n \<le> len \<and> {off..<off + n} \<subseteq> P \<and> P' = P - {off..<off + n} \<and> (n < len \<longrightarrow> off + n \<notin> P)"

lemma sent_to_more:
  assumes "sent_to (P - {off..<off + m}) (off + m) (len - m) n P'" and "{off..<off + m} \<subseteq> P" and "m \<le> len"
  shows "sent_to P off len (m + n) P'"
proof -
  have "{off..<off + (m + n)} = {off..<off + m} \<union> {off + m..<off + m + n}" by auto
  then show ?thesis using assms unfolding sent_to_def by (auto simp: add.assoc)
qed

text \<open>The output after the loop: the bytes of the stream are in their place.\<close>

definition put_bytes :: "bytes \<Rightarrow> nat \<Rightarrow> bytes \<Rightarrow> bytes" where
  "put_bytes out i d = take i out @ d @ drop (i + length d) out"

lemma put_bytes_more:
  assumes "i + length d \<le> length out"
  shows "put_bytes (put_bytes out i d) (i + length d) e = put_bytes out i (d @ e)"
proof (cases "d = []")
  case False
  then have "i < length out" using assms by (cases d) simp_all
  then show ?thesis using assms by (simp add: put_bytes_def min_def ac_simps)
qed (use assms in \<open>simp add: put_bytes_def\<close>)

lemma emit_loop_spec:
  assumes "sn_data b = xs @ bs" and "sn_pos b = length xs" and "pending xs = {}"
    and "pieces_at s p (sn_data b) (length s)" and "sn_off b = length s" and "length s \<le> sn_max_data b"
    and "sn_buffered_bytes b = total_length (sn_data b)"
    and "\<forall>i \<in> pending bs. next_off \<le> i" and "out_off \<le> next_off" and "next_off - out_off + out_len = length out"
  shows "\<exists>n data pos. emit_loop out_off out_len next_off out b =
      Some (out_len - n, next_off + n, put_bytes out (next_off - out_off) (take n (drop next_off s)),
        b\<lparr>sn_data := data, sn_pos := pos, sn_buffered_bytes := total_length data\<rparr>)
    \<and> pieces_at s p data (length s) \<and> pos \<le> length data \<and> pending (take pos data) = {}
    \<and> sent_to (pending (sn_data b)) next_off out_len n (pending data)"
  using assms
proof (induction bs arbitrary: xs b out_len next_off out)
  case Nil
  then have "sn_off_front b = length s" by (simp add: sn_off_front_def)
  then have "emit_loop out_off out_len next_off out b = Some (out_len, next_off, out, b)"
    using Nil by (simp add: emit_loop.simps [of _ _ _ _ b])
  moreover have "b\<lparr>sn_data := xs, sn_pos := length xs, sn_buffered_bytes := total_length xs\<rparr> = b" using Nil by simp
  ultimately show ?case
    using Nil by (intro exI [of _ 0] exI [of _ xs] exI [of _ "length xs"]) (simp add: sent_to_def put_bytes_def)
next
  case (Cons c cs)
  note prems = Cons.prems
  have stop: "\<exists>n data pos. Some (out_len, next_off, out, b) =
      Some (out_len - n, next_off + n, put_bytes out (next_off - out_off) (take n (drop next_off s)),
        b\<lparr>sn_data := data, sn_pos := pos, sn_buffered_bytes := total_length data\<rparr>)
    \<and> pieces_at s p data (length s) \<and> pos \<le> length data \<and> pending (take pos data) = {}
    \<and> sent_to (pending (sn_data b)) next_off out_len n (pending data)"
    if "out_len = 0 \<or> next_off \<notin> pending (sn_data b)"
  proof -
    have "b\<lparr>sn_data := sn_data b, sn_pos := sn_pos b, sn_buffered_bytes := total_length (sn_data b)\<rparr> = b" using prems(7) by simp
    then show ?thesis using that prems(1-4)
      by (intro exI [of _ 0] exI [of _ "sn_data b"] exI [of _ "sn_pos b"]) (auto simp: sent_to_def put_bytes_def)
  qed
  obtain q where xq: "pieces_at s p xs q" and cq: "pieces_at s q (c # cs) (length s)"
    using prems(4) unfolding prems(1) pieces_append by blast
  have c: "piece_at s q c" "pieces_at s (q + rb_len c) cs (length s)" using cq by simp_all
  note f = piece_at_facts [OF c(1)]
  have all: "pending (sn_data b) = pending (c # cs)" using prems(1,3) by simp
  have fr: "sn_off_front b = front_from (length s) (c # cs)" using prems(1,2,5) by (simp add: sn_off_front_def)
  have fspec: "pending (c # cs) = {} \<and> sn_off_front b = length s
      \<or> sn_off_front b \<in> pending (c # cs) \<and> (\<forall>i \<in> pending (c # cs). sn_off_front b \<le> i)"
    unfolding fr by (rule front_from_spec [OF cq])
  have lt: "pending (c # cs) \<subseteq> {..<length s}" using pieces_bounds(2) [OF cq] by auto
  show ?case
  proof (cases "out_len = 0 \<or> sn_off_front b \<noteq> next_off \<or> length s \<le> next_off")
    case True
    have "next_off \<notin> pending (c # cs)" if "out_len \<noteq> 0"
    proof
      assume n: "next_off \<in> pending (c # cs)"
      then have "next_off < length s" using lt by auto
      moreover have "sn_off_front b = next_off" using fspec n prems(8) by (auto intro: antisym)
      ultimately show False using True that by simp
    qed
    moreover have "emit_loop out_off out_len next_off out b = Some (out_len, next_off, out, b)"
      using True prems(5) by (auto simp: emit_loop.simps [of _ _ _ _ b] Let_def)
    ultimately show ?thesis using stop all by auto
  next
    case False
    then have go: "out_len \<noteq> 0" "sn_off_front b = next_off" "next_off < length s" by simp_all
    have nth: "sn_data b ! sn_pos b = c" using prems(1,2) by simp
    have c0: "(out_len = 0) = False" "(length (sn_data b) \<le> sn_pos b) = False"
      "(sn_data b = [] \<or> sn_off b \<le> sn_off_front b \<or> sn_off_front b \<noteq> next_off \<or> sn_max_data b \<le> sn_off_front b) = False"
      using go prems(1,2,5,6) by simp_all
    have step: "emit_loop out_off out_len next_off out b =
      (if rb_is_empty c then emit_loop out_off out_len next_off out (b\<lparr>sn_pos := sn_pos b + 1\<rparr>)
       else
         let buf_len = min (rb_length c) out_len;
             partial = buf_len < rb_length c;
             out_pos = next_off - out_off
         in
         if next_off < out_off \<or> length out < out_pos + buf_len \<or> sn_buffered_bytes b < buf_len then None
         else
           let out = take out_pos out @ take buf_len (rb_bytes c) @ drop (out_pos + buf_len) out;
               b = b\<lparr>sn_buffered_bytes := sn_buffered_bytes b - buf_len,
                     sn_data := (sn_data b)[sn_pos b := rb_consume buf_len c]\<rparr>;
               out_len = out_len - buf_len;
               next_off = rb_front c + buf_len
           in
           if partial then Some (out_len, next_off, out, b)
           else emit_loop out_off out_len next_off out (b\<lparr>sn_pos := sn_pos b + 1\<rparr>))"
      by (simp only: emit_loop.simps [of out_off out_len next_off out b] Let_def nth c0 if_False)
    show ?thesis
    proof (cases "rb_is_empty c")
      case True
      have e: "{rb_front c..<rb_max_off c} = {}" using True piece_empty [OF c(1)] by simp
      let ?b = "b\<lparr>sn_pos := sn_pos b + 1\<rparr>"
      have "\<exists>n data pos. emit_loop out_off out_len next_off out ?b =
          Some (out_len - n, next_off + n, put_bytes out (next_off - out_off) (take n (drop next_off s)),
            ?b\<lparr>sn_data := data, sn_pos := pos, sn_buffered_bytes := total_length data\<rparr>)
        \<and> pieces_at s p data (length s) \<and> pos \<le> length data \<and> pending (take pos data) = {}
        \<and> sent_to (pending (sn_data ?b)) next_off out_len n (pending data)"
        by (rule Cons.IH [of ?b "xs @ [c]"]) (use prems e in simp_all)
      then show ?thesis using True by (simp add: step)
    next
      case ne: False
      have cf: "rb_front c = next_off" using go(2) ne by (simp add: fr)
      have len: "0 < rb_length c" "rb_max_off c = next_off + rb_length c" using ne cf by (simp_all add: rb_is_empty_def rb_max_off_def)
      define m where "m = min (rb_length c) out_len"
      have m: "m \<le> rb_length c" "m \<le> out_len" "0 < m" using len(1) go(1) by (simp_all add: m_def)
      define d where "d = take m (drop next_off s)"
      have dl: "length d = m" using f(3,5) len(2) m(1) by (simp add: d_def)
      have bytes: "take m (rb_bytes c) = d" using m(1) by (simp add: f(6) cf d_def min_def)
      let ?c = "rb_consume m c"
      let ?data = "xs @ ?c # cs"
      let ?b = "b\<lparr>sn_buffered_bytes := sn_buffered_bytes b - m, sn_data := (sn_data b)[sn_pos b := ?c]\<rparr>"
      let ?out = "put_bytes out (next_off - out_off) d"
      note cs = rb_consumed [OF f(1) m(1)]
      have data: "(sn_data b)[sn_pos b := ?c] = ?data" using prems(1,2) by simp
      have total: "sn_buffered_bytes b = total_length xs + (rb_length c + total_length cs)" using prems(1,7) by simp
      have total': "sn_buffered_bytes b - m = total_length ?data" using total cs(5) m(1) by simp
      have at: "pieces_at s p ?data (length s)"
        using xq piece_consume [OF c(1) m(1)] c(2) by (auto simp: pieces_append rb_consume_def)
      have far: "pending cs \<subseteq> {next_off + rb_length c..}" using pieces_bounds(2) [OF c(2)] f(3) len(2) by auto
      have pend: "pending ?data = pending (sn_data b) - {next_off..<next_off + m}"
      proof -
        have "{next_off + m..<next_off + rb_length c} = {next_off..<next_off + rb_length c} - {next_off..<next_off + m}" using m(1) by auto
        moreover have "pending cs - {next_off..<next_off + m} = pending cs" using far m(1) by force
        ultimately show ?thesis using prems(3) by (simp add: all cs(2,4) cf len(2) Un_Diff)
      qed
      have sub: "{next_off..<next_off + m} \<subseteq> pending (sn_data b)" using m(1) by (auto simp: all cf len(2))
      have lo: "next_off - out_off + m \<le> length out" using prems(10) m(2) by simp
      have st: "emit_loop out_off out_len next_off out b =
          (if m < rb_length c then Some (out_len - m, next_off + m, ?out, ?b)
           else emit_loop out_off (out_len - m) (next_off + m) ?out (?b\<lparr>sn_pos := sn_pos b + 1\<rparr>))"
        unfolding step using ne prems(9) lo total m(1) bytes dl
        by (simp add: Let_def m_def [symmetric] cf put_bytes_def del: list_update.simps)
      show ?thesis
      proof (cases "m < rb_length c")
        case True
        then have "m = out_len" by (simp add: m_def min_def split: if_splits)
        moreover have "?b = b\<lparr>sn_data := ?data, sn_pos := sn_pos b, sn_buffered_bytes := total_length ?data\<rparr>"
          unfolding data total' by simp
        ultimately have "emit_loop out_off out_len next_off out b = Some (out_len - m, next_off + m, ?out,
            b\<lparr>sn_data := ?data, sn_pos := sn_pos b, sn_buffered_bytes := total_length ?data\<rparr>)" using st True by simp
        moreover have "sent_to (pending (sn_data b)) next_off out_len m (pending ?data)"
          using sub pend \<open>m = out_len\<close> unfolding sent_to_def by simp
        moreover have "sn_pos b \<le> length ?data" "pending (take (sn_pos b) ?data) = {}" using prems(2,3) by simp_all
        ultimately show ?thesis using at unfolding d_def by blast
      next
        case whole: False
        then have ml: "m = rb_length c" using m(1) by simp
        let ?b1 = "?b\<lparr>sn_pos := sn_pos b + 1\<rparr>"
        have e: "{rb_front ?c..<rb_max_off ?c} = {}" unfolding cs(2,4) cf len(2) using ml by simp
        have b1: "sn_data ?b1 = ?data" "sn_pos ?b1 = length (xs @ [?c])" "sn_off ?b1 = sn_off b" "sn_max_data ?b1 = sn_max_data b"
          "sn_buffered_bytes ?b1 = total_length ?data" using data total' prems(2) by simp_all
        have "\<exists>n data pos. emit_loop out_off (out_len - m) (next_off + m) ?out ?b1 =
            Some (out_len - m - n, next_off + m + n, put_bytes ?out (next_off + m - out_off) (take n (drop (next_off + m) s)),
              ?b1\<lparr>sn_data := data, sn_pos := pos, sn_buffered_bytes := total_length data\<rparr>)
          \<and> pieces_at s p data (length s) \<and> pos \<le> length data \<and> pending (take pos data) = {}
          \<and> sent_to (pending (sn_data ?b1)) (next_off + m) (out_len - m) n (pending data)"
        proof (rule Cons.IH [of ?b1 "xs @ [?c]"])
          show "sn_data ?b1 = (xs @ [?c]) @ cs" using b1(1) by simp
          show "pending (xs @ [?c]) = {}" using prems(3) e by simp
          show "pieces_at s p (sn_data ?b1) (length s)" using at b1(1) by simp
          show "\<forall>i \<in> pending cs. next_off + m \<le> i" using far ml by auto
          show "next_off + m - out_off + (out_len - m) = length ?out" using prems(9,10) m(2) lo dl by (simp add: put_bytes_def)
          show "sn_buffered_bytes ?b1 = total_length (sn_data ?b1)" by (simp only: b1)
        qed (use b1 prems(5,6,9) in simp_all)
        then obtain n data' pos where r: "emit_loop out_off (out_len - m) (next_off + m) ?out ?b1 =
            Some (out_len - m - n, next_off + m + n, put_bytes ?out (next_off + m - out_off) (take n (drop (next_off + m) s)),
              ?b1\<lparr>sn_data := data', sn_pos := pos, sn_buffered_bytes := total_length data'\<rparr>)"
          "pieces_at s p data' (length s)" "pos \<le> length data'" "pending (take pos data') = {}"
          "sent_to (pending (sn_data ?b1)) (next_off + m) (out_len - m) n (pending data')" by blast
        have "sent_to (pending (sn_data b)) next_off out_len (m + n) (pending data')"
          by (rule sent_to_more [OF _ sub m(2)]) (use r(5) pend b1(1) in simp)
        moreover have "put_bytes ?out (next_off + m - out_off) (take n (drop (next_off + m) s))
            = put_bytes out (next_off - out_off) (take (m + n) (drop next_off s))"
        proof -
          have "next_off + m - out_off = next_off - out_off + length d" using prems(9) dl by simp
          then show ?thesis using put_bytes_more [of "next_off - out_off" d out] lo dl by (simp add: d_def take_add add.commute)
        qed
        moreover have "?b1\<lparr>sn_data := data', sn_pos := pos, sn_buffered_bytes := total_length data'\<rparr>
            = b\<lparr>sn_data := data', sn_pos := pos, sn_buffered_bytes := total_length data'\<rparr>" by simp
        ultimately have "emit_loop out_off out_len next_off out b =
            Some (out_len - (m + n), next_off + (m + n), put_bytes out (next_off - out_off) (take (m + n) (drop next_off s)),
              b\<lparr>sn_data := data', sn_pos := pos, sn_buffered_bytes := total_length data'\<rparr>)
          \<and> sent_to (pending (sn_data b)) next_off out_len (m + n) (pending data')"
          using st whole r(1) by (simp add: add.assoc)
        then show ?thesis using r(2-4) by blast
      qed
    qed
  qed
qed

lemma send_emit_ok:
  assumes "send_ok s b"
  shows "\<exists>n b'. send_emit out b = Some ((n, sn_fin_off b = Some (sn_off_front b + n)),
        put_bytes out 0 (take n (drop (sn_off_front b) s)), b')
    \<and> send_ok s b' \<and> sent_to (to_send b) (sn_off_front b) (length out) n (to_send b') \<and> sn_off_front b + n \<le> length s
    \<and> sn_emit_off b' = max (sn_emit_off b) (sn_off_front b + n) \<and> sn_fin_off b' = sn_fin_off b \<and> sn_acked b' = sn_acked b
    \<and> sn_max_data b' = sn_max_data b"
proof -
  note front = send_ok_front [OF assms]
  from assms obtain p where p: "pieces_at s p (sn_data b) (length s)" "{..<p} \<subseteq> rs_set (rs_iter (sn_acked b))"
    by (auto simp: send_ok_def)
  have b: "pending (take (sn_pos b) (sn_data b)) = {}" "sn_pos b \<le> length (sn_data b)" "sn_off b = length s"
    "length s \<le> sn_max_data b" "sn_buffered_bytes b = total_length (sn_data b)"
    using assms by (simp_all add: send_ok_def)
  have bs: "\<forall>i \<in> pending (drop (sn_pos b) (sn_data b)). sn_off_front b \<le> i"
  proof
    fix i assume "i \<in> pending (drop (sn_pos b) (sn_data b))"
    then have "i \<in> to_send b" using pending_simps(3) [of "take (sn_pos b) (sn_data b)" "drop (sn_pos b) (sn_data b)"] by simp
    then show "sn_off_front b \<le> i" using front(1) by auto
  qed
  obtain n data pos where l: "emit_loop (sn_off_front b) (length out) (sn_off_front b) out b =
      Some (length out - n, sn_off_front b + n, put_bytes out (sn_off_front b - sn_off_front b) (take n (drop (sn_off_front b) s)),
        b\<lparr>sn_data := data, sn_pos := pos, sn_buffered_bytes := total_length data\<rparr>)"
    "pieces_at s p data (length s)" "pos \<le> length data" "pending (take pos data) = {}"
    "sent_to (to_send b) (sn_off_front b) (length out) n (pending data)"
    using emit_loop_spec [of b "take (sn_pos b) (sn_data b)" "drop (sn_pos b) (sn_data b)" s p "sn_off_front b" "sn_off_front b"
        "length out" out] b p(1) bs by auto
  let ?b' = "b\<lparr>sn_data := data, sn_pos := pos, sn_buffered_bytes := total_length data,
      sn_emit_off := max (sn_emit_off b) (sn_off_front b + n)\<rparr>"
  have n: "n \<le> length out" and sub: "{sn_off_front b..<sn_off_front b + n} \<subseteq> to_send b" using l(5) by (simp_all add: sent_to_def)
  have end_: "sn_off_front b + n \<le> length s"
  proof (cases n)
    case (Suc m)
    then have "sn_off_front b + m \<in> to_send b" using sub by auto
    then show ?thesis using front(2) Suc by auto
  qed (use front(3) in simp)
  have "send_ok s ?b'"
    using assms l(2,3,4) p(2) end_ unfolding send_ok_def by (auto simp: le_max_iff_disj)
  moreover have "send_emit out b = Some ((n, sn_fin_off b = Some (sn_off_front b + n)),
      put_bytes out 0 (take n (drop (sn_off_front b) s)), ?b')"
    using l(1) n by (simp add: send_emit_def Let_def)
  ultimately show ?thesis using l(5) end_ by (intro exI [of _ n] exI [of _ ?b']) simp
qed

section \<open>Writing\<close>

lemma concat_chunks: "0 < n \<Longrightarrow> concat (chunks n xs) = xs"
proof (induction n xs rule: chunks.induct)
  case (1 n xs)
  then show ?case by (subst chunks.simps) auto
qed

lemma piece_new: "piece_at (s @ c @ t) (length s) (rb_from c (length s) fin)"
  by (simp add: piece_at_def rb_from_def rb_ok_def)

lemma append_chunks_spec:
  assumes "sn_off b = length s"
  shows "\<exists>new. append_chunks cs (length (concat cs), fin) b =
      Some (Inr (), b\<lparr>sn_data := sn_data b @ new, sn_off := length s + length (concat cs),
        sn_buffered_bytes := sn_buffered_bytes b + length (concat cs)\<rparr>)
    \<and> pieces_at (s @ concat cs) (length s) new (length s + length (concat cs))
    \<and> pending new = {length s..<length s + length (concat cs)} \<and> total_length new = length (concat cs)"
  using assms
proof (induction cs arbitrary: s b)
  case Nil
  then show ?case by (auto intro: exI [of _ "[]"])
next
  case (Cons c cs)
  let ?p = "rb_from c (length s) (length (concat (c # cs)) = length c \<and> fin)"
  let ?b = "b\<lparr>sn_data := sn_data b @ [?p], sn_off := length s + length c, sn_buffered_bytes := sn_buffered_bytes b + length c\<rparr>"
  have a: "append_chunks (c # cs) (length (concat (c # cs)), fin) b = append_chunks cs (length (concat cs), fin) ?b"
    using Cons.prems by (simp add: reserved_append_def)
  obtain new where n: "append_chunks cs (length (concat cs), fin) ?b =
      Some (Inr (), ?b\<lparr>sn_data := sn_data ?b @ new, sn_off := length (s @ c) + length (concat cs),
        sn_buffered_bytes := sn_buffered_bytes ?b + length (concat cs)\<rparr>)"
    "pieces_at ((s @ c) @ concat cs) (length (s @ c)) new (length (s @ c) + length (concat cs))"
    "pending new = {length (s @ c)..<length (s @ c) + length (concat cs)}" "total_length new = length (concat cs)"
    using Cons.IH [of ?b "s @ c"] by auto
  have len: "rb_len ?p = length c" by (simp add: rb_from_def)
  show ?case
    by (intro exI [of _ "?p # new"]) (use a n len piece_new [of s c "concat cs"] in \<open>auto simp: add.assoc\<close>)
qed

lemma first_end_bound: "\<forall>r \<in> set rs. snd r \<le> m \<Longrightarrow> first_end rs \<le> m"
  by (cases rs rule: first_end.cases) auto

lemma send_ok_ack_off: "send_ok s b \<Longrightarrow> sn_ack_off b \<le> sn_emit_off b"
  by (simp add: send_ok_def sn_ack_off_def first_end_bound)

text \<open>What a write stores, and when it is refused.\<close>

definition send_room :: "send_buf \<Rightarrow> bytes \<Rightarrow> nat" where
  "send_room b data = min (sn_max_data b - sn_off b) (length data)"

lemma send_write_ok:
  assumes "send_ok s b"
  shows "if sn_fin_off b \<noteq> None \<and> (data \<noteq> [] \<or> \<not> fin)
    then send_write data fin b = Some (Inl (Stream_error QUICHE_ERR_FINAL_SIZE), b)
    else \<exists>b'. send_write data fin b = Some (Inr (send_room b data), b') \<and> send_ok (s @ take (send_room b data) data) b'
      \<and> to_send b' = to_send b \<union> {length s..<length s + send_room b data}
      \<and> sn_fin_off b' = (if fin \<and> length data = send_room b data then Some (length s + length data) else sn_fin_off b)
      \<and> sn_emit_off b' = sn_emit_off b \<and> sn_acked b' = sn_acked b \<and> sn_max_data b' = sn_max_data b"
proof -
  from assms obtain p where p: "pieces_at s p (sn_data b) (length s)" "{..<p} \<subseteq> rs_set (rs_iter (sn_acked b))"
    by (auto simp: send_ok_def)
  have b: "sn_off b = length s" "length s \<le> sn_max_data b" "sn_error b = None" "sn_fin_off b = None \<or> sn_fin_off b = Some (length s)"
    "sn_emit_off b \<le> length s"
    using assms by (auto simp: send_ok_def) (cases "sn_fin_off b"; auto)
  define cap where "cap = sn_max_data b - length s"
  define fin' where "fin' = (fin \<and> length data \<le> cap)"
  let ?n = "send_room b data"
  have n: "?n = min cap (length data)" by (simp add: send_room_def cap_def b(1))
  have c: "sn_cap b = Some (Inr cap)" using b by (simp add: sn_cap_def cap_def)
  have lf: "(if cap < length data then (cap, False) else (length data, fin)) = (?n, fin')" by (auto simp: n fin'_def)
  show ?thesis
  proof (cases "sn_fin_off b \<noteq> None \<and> (data \<noteq> [] \<or> \<not> fin)")
    case True
    then obtain f where f: "sn_fin_off b = Some f" "f = length s" using b(4) by auto
    have "f < length s + length data \<or> length s + length data = f \<and> \<not> fin'" using True f(2) by (auto simp: fin'_def)
    then have "reserve_for_write (length data) fin b = Some (Inl (Stream_error QUICHE_ERR_FINAL_SIZE), b)"
      unfolding reserve_for_write_def Let_def c option.case sum.case lf prod.case f(1) b(1) by simp
    then show ?thesis using True by (simp add: send_write_def)
  next
    case False
    let ?b = "if fin' then b\<lparr>sn_fin_off := Some (length s + length data)\<rparr> else b"
    have ack: "sn_ack_off ?b = sn_ack_off b" by (simp add: sn_ack_off_def)
    have z: "(if length s + length data \<le> sn_ack_off b then 0 else ?n) = ?n"
    proof (cases "length s + length data \<le> sn_ack_off b")
      case True
      then have "length data = 0" using send_ok_ack_off [OF assms] b(5) by linarith
      then show ?thesis by (simp add: send_room_def)
    qed simp
    have ok: "\<not> (case sn_fin_off b of Some fin_off \<Rightarrow> fin_off < length s + length data \<or> length s + length data = fin_off \<and> \<not> fin'
        | None \<Rightarrow> False)"
      using False b(4) by (auto simp: fin'_def split: option.split)
    have r: "reserve_for_write (length data) fin b = Some (Inr (?n, fin'), ?b)"
      unfolding reserve_for_write_def Let_def c option.case sum.case lf prod.case b(1) ack z if_not_P [OF ok] by simp
    have fl: "fin' \<longleftrightarrow> fin \<and> length data = ?n" by (auto simp: fin'_def n)
    show ?thesis
    proof (cases "?n = 0")
      case True
      have "send_write data fin b = Some (Inr 0, ?b)" using r True by (simp add: send_write_def)
      moreover have "send_ok s ?b" using assms True fl by (auto simp: send_ok_def)
      ultimately show ?thesis using False True fl by (auto simp: send_room_def)
    next
      case pos: False
      let ?d = "take ?n data"
      have dl: "length ?d = ?n" by (simp add: n)
      have cc: "concat (chunks SEND_BUFFER_SIZE ?d) = ?d" by (simp add: concat_chunks SEND_BUFFER_SIZE_def)
      have off: "sn_off ?b = length s" using b(1) by simp
      from append_chunks_spec [OF off, of "chunks SEND_BUFFER_SIZE ?d" fin'] obtain new where
        a: "append_chunks (chunks SEND_BUFFER_SIZE ?d) (?n, fin') ?b =
          Some (Inr (), ?b\<lparr>sn_data := sn_data ?b @ new, sn_off := length s + ?n, sn_buffered_bytes := sn_buffered_bytes ?b + ?n\<rparr>)"
        and new: "pieces_at (s @ ?d) (length s) new (length s + ?n)" "pending new = {length s..<length s + ?n}" "total_length new = ?n"
        unfolding cc dl by blast
      let ?b' = "?b\<lparr>sn_data := sn_data ?b @ new, sn_off := length s + ?n, sn_buffered_bytes := sn_buffered_bytes ?b + ?n\<rparr>"
      have w: "send_write data fin b = Some (Inr ?n, ?b')" using r pos a by (simp add: send_write_def)
      have at: "pieces_at (s @ ?d) p (sn_data b @ new) (length (s @ ?d))"
        unfolding pieces_append using pieces_at_append [OF p(1)] new(1) dl by auto
      have "data \<noteq> []" using pos by (auto simp: send_room_def)
      then have none: "sn_fin_off b = None" using False by blast
      have sel: "sn_data ?b' = sn_data b @ new" "sn_pos ?b' = sn_pos b" "sn_off ?b' = length (s @ ?d)" "sn_emit_off ?b' = sn_emit_off b"
        "sn_buffered_bytes ?b' = total_length (sn_data b @ new)" "sn_acked ?b' = sn_acked b" "sn_error ?b' = None"
        "sn_max_data ?b' = sn_max_data b" "sn_fin_off ?b' = (if fin' then Some (length s + length data) else None)"
        using assms dl new(3) none by (simp_all add: send_ok_def)
      have le: "length s + ?n \<le> sn_max_data b" using b(2) by (simp add: n cap_def)
      have fin_: "\<And>f. sn_fin_off ?b' = Some f \<Longrightarrow> f = length (s @ ?d)" using sel(9) fl dl by (auto split: if_splits)
      have "send_ok (s @ ?d) ?b'"
        unfolding send_ok_def sel(1-8)
        using assms at p(2) le dl fin_ by (auto simp: send_ok_def)
      moreover have "to_send ?b' = to_send b \<union> {length s..<length s + ?n}" using sel(1) new(2) by simp
      moreover have "sn_fin_off ?b' = (if fin \<and> length data = ?n then Some (length s + length data) else sn_fin_off b)"
        unfolding sel(9) fl using none by simp
      ultimately show ?thesis unfolding if_not_P [OF False] using w sel(4,6,8) by blast
    qed
  qed
qed

section \<open>Acknowledgements\<close>

lemma rs_ok_length:
  assumes "rs_ok rs" and "\<forall>r \<in> set rs. snd r \<le> m"
  shows "length rs \<le> Suc m"
proof -
  have d: "distinct (map snd rs)" using assms(1)
  proof (induction rs)
    case (Cons r rs)
    have ok: "rs_ok rs" "\<forall>r' \<in> set rs. snd r < fst r'" using Cons.prems by (cases r; simp)+
    have "snd r < snd r'" if "r' \<in> set rs" for r' using ok(2) that rs_ok_order [OF ok(1) that] by fastforce
    then have "snd r \<notin> snd ` set rs" by fastforce
    then show ?case using Cons.IH [OF ok(1)] by simp
  qed simp
  have "snd ` set rs \<subseteq> {..m}" using assms(2) by auto
  then have "card (snd ` set rs) \<le> Suc m" using card_mono [of "{..m}" "snd ` set rs"] by simp
  then show ?thesis using distinct_card [OF d] by simp
qed

lemma first_end_below:
  assumes "rs_ok rs" and "i < first_end rs"
  shows "i \<in> rs_set rs"
  using assms by (cases rs rule: first_end.cases) (auto split: if_splits)

lemma first_end_le:
  assumes "rs_ok rs" and "{..<p} \<subseteq> rs_set rs"
  shows "p \<le> first_end rs"
proof (rule ccontr)
  assume "\<not> p \<le> first_end rs"
  then have in_: "first_end rs \<in> rs_set rs" "0 < p" "{..<p} \<subseteq> rs_set rs" using assms(2) by auto
  show False
  proof (cases rs rule: first_end.cases)
    case (2 start e rs')
    have later: "i > e" if "i \<in> rs_set rs'" for i using that assms(1) 2 by (fastforce simp: rs_set_def)
    show ?thesis
    proof (cases "start = 0")
      case True
      then show ?thesis using in_(1) 2 later [of e] by auto
    next
      case False
      have "0 \<in> rs_set rs" using in_(2,3) by auto
      then show ?thesis using 2 False later [of 0] by auto
    qed
  qed (use in_(1) in simp)
qed

text \<open>The pieces that are dropped are those that end at the acknowledged offset or before.\<close>

lemma drop_count_spec:
  assumes "pieces_at s p bs q"
  shows "\<exists>m. pieces_at s p (take (drop_count a bs) bs) m \<and> pieces_at s m (drop (drop_count a bs) bs) q
    \<and> (p \<le> a \<longrightarrow> m \<le> a) \<and> drop_count a bs \<le> length bs"
  using assms
proof (induction bs arbitrary: p)
  case (Cons b bs)
  have b: "piece_at s p b" "pieces_at s (p + rb_len b) bs q" using Cons.prems by simp_all
  note f = piece_at_facts [OF b(1)]
  have off: "rb_off b = p" using b(1) by (simp add: piece_at_def)
  show ?case
  proof (cases "a \<le> p \<or> a < p + rb_len b")
    case True
    then have "drop_count a (b # bs) = 0" by (auto simp: off f(3))
    then show ?thesis using Cons.prems by auto
  next
    case False
    then have "drop_count a (b # bs) = Suc (drop_count a bs)" by (simp add: off f(3))
    then show ?thesis using Cons.IH [OF b(2)] False b(1) by auto
  qed
qed auto

lemma send_ack_ok:
  assumes "send_ok s b" and "off + len \<le> sn_emit_off b"
  shows "\<exists>acked. send_ack off len b = Some (b\<lparr>sn_acked := acked\<rparr>) \<and> send_ok s (b\<lparr>sn_acked := acked\<rparr>)
    \<and> rs_set (rs_iter acked) = rs_set (rs_iter (sn_acked b)) \<union> {off..<off + len}
    \<and> rs_iter acked = ranges_add off (off + len) (rs_iter (sn_acked b))"
proof -
  have b: "rs_ok (rs_iter (sn_acked b))" "\<forall>r \<in> set (rs_iter (sn_acked b)). snd r \<le> sn_emit_off b"
    "rs_capacity (sn_acked b) = USIZE_MAX" "sn_emit_off b \<le> sn_max_data b" "sn_max_data b < 2 ^ 62"
    using assms(1) by (simp_all add: send_ok_def)
  have "length (rs_iter (sn_acked b)) \<le> Suc (sn_emit_off b)" by (rule rs_ok_length [OF b(1,2)])
  also have "\<dots> < USIZE_MAX" using b(4,5) by (simp add: USIZE_MAX_def)
  finally have "rs_len (sn_acked b) < rs_capacity (sn_acked b)" by (simp add: rs_len_def b(3))
  from rs_insert_eq [OF b(1) _ this, of off "off + len"] obtain acked where
    a: "rs_insert off (off + len) (sn_acked b) = Some acked" "rs_iter acked = ranges_add off (off + len) (rs_iter (sn_acked b))"
      "rs_capacity acked = USIZE_MAX" by (auto simp: b(3))
  note ok = ranges_add_ok [OF b(1), of off "off + len"]
  have le: "\<forall>r \<in> set (ranges_add x y rs). snd r \<le> m" if "\<forall>r \<in> set rs. snd r \<le> m" "y \<le> m" for x y m rs
    using that by (induction x y rs rule: ranges_add.induct) auto
  have "send_ok s (b\<lparr>sn_acked := acked\<rparr>)"
    using assms(1) a(3) ok le [OF b(2) assms(2), of off] unfolding send_ok_def by (auto simp: a(2))
  then show ?thesis using a(1,2) ok(2) by (intro exI [of _ acked]) (simp add: send_ack_def)
qed

lemma send_ack_and_drop_ok:
  assumes "send_ok s b" and "off + len \<le> sn_emit_off b"
  shows "\<exists>n b' p. send_ack_and_drop off len b = Some (n, b') \<and> send_ok s b'
    \<and> to_send b' = to_send b - {..<p} \<and> {..<p} \<subseteq> rs_set (rs_iter (sn_acked b'))
    \<and> rs_set (rs_iter (sn_acked b')) = rs_set (rs_iter (sn_acked b)) \<union> {off..<off + len}
    \<and> rs_iter (sn_acked b') = ranges_add off (off + len) (rs_iter (sn_acked b))
    \<and> sn_emit_off b' = sn_emit_off b \<and> sn_fin_off b' = sn_fin_off b \<and> sn_max_data b' = sn_max_data b"
proof -
  from send_ack_ok [OF assms] obtain acked where a: "send_ack off len b = Some (b\<lparr>sn_acked := acked\<rparr>)"
    "send_ok s (b\<lparr>sn_acked := acked\<rparr>)" "rs_set (rs_iter acked) = rs_set (rs_iter (sn_acked b)) \<union> {off..<off + len}"
    "rs_iter acked = ranges_add off (off + len) (rs_iter (sn_acked b))" by blast
  let ?a = "b\<lparr>sn_acked := acked\<rparr>"
  let ?n = "drop_count (sn_ack_off ?a) (sn_data b)"
  have un: "send_ack_and_drop off len b = Some
      (if sn_data b = [] \<or> sn_ack_off ?a < off \<or> ?n = 0 then (0, ?a)
       else (total_length (take ?n (sn_data b)), ?a\<lparr>sn_buffered_bytes := sn_buffered_bytes b - total_length (take ?n (sn_data b)),
          sn_data := drop ?n (sn_data b), sn_pos := sn_pos b - ?n\<rparr>))"
    by (simp add: send_ack_and_drop_def a(1) Let_def)
  show ?thesis
  proof (cases "sn_data b = [] \<or> sn_ack_off ?a < off \<or> ?n = 0")
    case True
    then have "send_ack_and_drop off len b = Some (0, ?a)" by (simp only: un if_True)
    then show ?thesis using a(2-4) by (intro exI [of _ 0] exI [of _ ?a]) simp
  next
    case False
    from a(2) obtain p where p: "pieces_at s p (sn_data b) (length s)" "{..<p} \<subseteq> rs_set (rs_iter acked)" "rs_ok (rs_iter acked)"
      by (auto simp: send_ok_def)
    have pa: "p \<le> sn_ack_off ?a" using first_end_le [OF p(3,2)] by (simp add: sn_ack_off_def)
    obtain m where m: "pieces_at s p (take ?n (sn_data b)) m" "pieces_at s m (drop ?n (sn_data b)) (length s)" "m \<le> sn_ack_off ?a"
      "?n \<le> length (sn_data b)" using drop_count_spec [OF p(1), of "sn_ack_off ?a"] pa by blast
    have acked: "{..<m} \<subseteq> rs_set (rs_iter acked)"
      using first_end_below [OF p(3)] m(3) by (force simp: sn_ack_off_def)
    let ?b' = "?a\<lparr>sn_buffered_bytes := sn_buffered_bytes b - total_length (take ?n (sn_data b)),
          sn_data := drop ?n (sn_data b), sn_pos := sn_pos b - ?n\<rparr>"
    have "total_length (sn_data b) = total_length (take ?n (sn_data b)) + total_length (drop ?n (sn_data b))"
      by (metis append_take_drop_id total_length_simps(3))
    then have tot: "sn_buffered_bytes b - total_length (take ?n (sn_data b)) = total_length (drop ?n (sn_data b))"
      using assms(1) by (simp add: send_ok_def)
    have "to_send b = pending (take ?n (sn_data b)) \<union> pending (drop ?n (sn_data b))"
      by (metis append_take_drop_id pending_simps(3))
    then have pend: "to_send ?b' = to_send b - {..<m}"
      using pieces_bounds(2) [OF m(1)] pieces_bounds(2) [OF m(2)] by fastforce
    have "pending (take (sn_pos b - ?n) (drop ?n (sn_data b))) \<subseteq> pending (take (sn_pos b) (sn_data b))"
    proof (cases "sn_pos b \<le> ?n")
      case False
      then have "take (sn_pos b - ?n) (drop ?n (sn_data b)) = drop ?n (take (sn_pos b) (sn_data b))" by (simp add: drop_take)
      then show ?thesis using set_drop_subset [of ?n "take (sn_pos b) (sn_data b)"] by (auto simp: pending_def)
    qed simp
    then have "send_ok s ?b'"
      using a(2) m(2) acked tot unfolding send_ok_def by auto
    moreover have "send_ack_and_drop off len b = Some (total_length (take ?n (sn_data b)), ?b')" using False by (simp only: un if_False)
    ultimately show ?thesis using pend acked a(3,4)
      by (intro exI [of _ "total_length (take ?n (sn_data b))"] exI [of _ ?b'] exI [of _ m]) simp
  qed
qed

section \<open>Losses\<close>

text \<open>The bytes of a range that are still stored are to be sent again.\<close>

lemma piece_split:
  assumes "piece_at s p b" and "p < m" and "m < p + rb_len b"
  shows "\<exists>x y. rb_split_off (m - p) b = Some (x, y) \<and> piece_at s p x \<and> piece_at s m y \<and> rb_len x = m - p \<and> rb_len y = p + rb_len b - m
    \<and> {rb_front x..<rb_max_off x} = {rb_front b..<rb_max_off b} \<inter> {..<m}
    \<and> {rb_front y..<rb_max_off y} = {rb_front b..<rb_max_off b} \<inter> {m..}
    \<and> rb_length x + rb_length y = rb_length b"
proof -
  obtain at where m: "m = p + at" "0 < at" "at < rb_len b" using assms(2,3) by (metis add_less_cancel_left less_imp_add_positive)
  have b: "rb_start b \<le> rb_pos b" "rb_pos b \<le> rb_start b + rb_len b" "rb_start b + rb_len b \<le> length (rb_data b)" "rb_start b \<le> rb_off b"
    and o: "rb_off b = p" "p + rb_len b \<le> length s"
    and t: "take (rb_len b) (drop (rb_start b) (rb_data b)) = take (rb_len b) (drop p s)"
    using assms(1) by (simp_all add: piece_at_def rb_ok_def)
  let ?x = "b\<lparr>rb_pos := min (rb_pos b) (rb_start b + at), rb_len := at, rb_fin := False\<rparr>"
  let ?y = "\<lparr>rb_data = rb_data b, rb_start = rb_start b + at, rb_pos = max (rb_pos b) (rb_start b + at),
           rb_len = rb_len b - at, rb_off = rb_off b + at, rb_fin = rb_fin b\<rparr>"
  have split: "rb_split_off (m - p) b = Some (?x, ?y)" using m by (simp add: rb_split_off_def)
  have "take at (drop (rb_start b) (rb_data b)) = take at (take (rb_len b) (drop (rb_start b) (rb_data b)))" using m by (simp add: min_def)
  also have "\<dots> = take at (drop p s)" unfolding t using m by (simp add: min_def)
  finally have tx: "take at (drop (rb_start b) (rb_data b)) = take at (drop p s)" .
  have "take (rb_len b - at) (drop (rb_start b + at) (rb_data b)) = drop at (take (rb_len b) (drop (rb_start b) (rb_data b)))"
    by (simp add: drop_take add.commute)
  also have "\<dots> = take (rb_len b - at) (drop m s)" unfolding t by (simp add: drop_take m(1) add.commute)
  finally have ty: "take (rb_len b - at) (drop (rb_start b + at) (rb_data b)) = take (rb_len b - at) (drop m s)" .
  have "piece_at s p ?x" using b o m tx by (simp add: piece_at_def rb_ok_def)
  moreover have "piece_at s m ?y" using b o m ty by (simp add: piece_at_def rb_ok_def)
  moreover have "{rb_front ?x..<rb_max_off ?x} = {rb_front b..<rb_max_off b} \<inter> {..<m}"
    "{rb_front ?y..<rb_max_off ?y} = {rb_front b..<rb_max_off b} \<inter> {m..}" "rb_length ?x + rb_length ?y = rb_length b"
    using b o m by (auto simp: rb_front_def rb_max_off_def rb_length_def min_def max_def)
  ultimately show ?thesis using split m by (intro exI [of _ ?x] exI [of _ ?y]) simp
qed

text \<open>A piece is expanded to the start of the range, or to its own.\<close>

definition expand :: "nat \<Rightarrow> range_buf \<Rightarrow> range_buf" where
  "expand off b = b\<lparr>rb_pos := (if rb_off b < off \<and> off \<le> rb_max_off b then min (rb_pos b) (rb_start b + (off - rb_off b)) else rb_start b)\<rparr>"

lemma piece_expand:
  assumes "piece_at s p b" and "off \<le> p + rb_len b"
  shows "piece_at s p (expand off b)" and "rb_len (expand off b) = rb_len b" and "rb_pos (expand off b) \<le> rb_pos b"
    and "{rb_front (expand off b)..<rb_max_off (expand off b)} = {rb_front b..<rb_max_off b} \<union> {max p off..<p + rb_len b}"
    and "rb_length (expand off b) = rb_length b + (rb_pos b - rb_pos (expand off b))"
proof -
  have b: "rb_start b \<le> rb_pos b" "rb_pos b \<le> rb_start b + rb_len b" "rb_start b + rb_len b \<le> length (rb_data b)" "rb_start b \<le> rb_off b"
    and o: "rb_off b = p" "p + rb_len b \<le> length s" "rb_max_off b = p + rb_len b"
    using assms(1) piece_at_facts(3) [OF assms(1)] by (simp_all add: piece_at_def rb_ok_def)
  show "piece_at s p (expand off b)" using assms(1) b o by (auto simp: piece_at_def expand_def rb_ok_def)
  show "rb_len (expand off b) = rb_len b" "rb_pos (expand off b) \<le> rb_pos b" using b by (simp_all add: expand_def)
  show "rb_length (expand off b) = rb_length b + (rb_pos b - rb_pos (expand off b))"
    using b o by (auto simp: expand_def rb_length_def)
  have "rb_front (expand off b) = (if p < off then min (rb_front b) off else p)" "rb_max_off (expand off b) = p + rb_len b"
    using b o assms(2) by (auto simp: expand_def rb_front_def rb_max_off_def rb_length_def)
  then show "{rb_front (expand off b)..<rb_max_off (expand off b)} = {rb_front b..<rb_max_off b} \<union> {max p off..<p + rb_len b}"
    using o(3) piece_at_facts(2,4) [OF assms(1)] by auto
qed

lemma retransmit_loop_unfold:
  "retransmit_loop off max_off (Suc n) i pos (b # bs) =
     (if max_off \<le> rb_off b then Some (b # bs, pos, 0)
      else if rb_max_off b < off then
        map_option (\<lambda>(bs, pos, total). (b # bs, pos, total)) (retransmit_loop off max_off n (i + 1) pos bs)
      else do {
        (b, new_buf) \<leftarrow>
          (if rb_off b < max_off \<and> max_off < rb_max_off b
           then map_option (\<lambda>(b, rest). (b, [rest])) (rb_split_off (max_off - rb_off b) b)
           else Some (b, []));
        if rb_pos b < rb_pos (expand off b) then None
        else map_option (\<lambda>(bs, pos, total). (expand off b # bs, pos, (rb_pos b - rb_pos (expand off b)) + total))
               (retransmit_loop off max_off n (i + 1) (min pos i) (new_buf @ bs))
      })"
  by (simp only: retransmit_loop.simps expand_def Let_def)

lemma retransmit_stop:
  "pieces_at s p bs q \<Longrightarrow> max_off \<le> p \<Longrightarrow> n \<le> length bs \<Longrightarrow> retransmit_loop off max_off n i pos bs = Some (bs, pos, 0)"
  by (cases n; cases bs) (simp_all add: piece_at_def)

lemma take_pending_0: "pending (take 0 bs) = {}"
  by simp

lemma retransmit_loop_spec:
  assumes "pieces_at s p bs q" and "n = length bs" and "pending (take (pos - i) bs) = {}" and "pos - i \<le> length bs"
    and "off \<le> max_off"
  shows "\<exists>bs' pos' total. retransmit_loop off max_off n i pos bs = Some (bs', pos', total) \<and> pieces_at s p bs' q
    \<and> pending bs' = pending bs \<union> ({off..<max_off} \<inter> {p..<q}) \<and> total_length bs' = total_length bs + total
    \<and> pending (take (pos' - i) bs') = {} \<and> pos' \<le> pos \<and> min pos i \<le> pos' \<and> pos' - i \<le> length bs'"
  using assms
proof (induction n arbitrary: p i pos bs)
  case 0
  then show ?case by auto
next
  case (Suc n)
  then obtain b bs0 where bs: "bs = b # bs0" by (cases bs) auto
  have b: "piece_at s p b" "pieces_at s (p + rb_len b) bs0 q" "n = length bs0" using Suc.prems bs by simp_all
  note f = piece_at_facts [OF b(1)]
  have ob: "rb_off b = p" using b(1) by (simp add: piece_at_def)
  note bq = pieces_bounds [OF b(2)]
  have tl_take: "pending (take (pos - (i + 1)) bs0) = {}"
  proof (cases "pos - i")
    case (Suc k)
    then have "pos - (i + 1) = k" by simp
    then have "take (pos - i) bs = b # take (pos - (i + 1)) bs0" using Suc by (simp add: bs)
    then show ?thesis using Suc.prems(3) by simp
  qed simp
  have tl_len: "pos - (i + 1) \<le> length bs0" using Suc.prems(4) bs by simp
  consider "max_off \<le> p" | "p < max_off" "p + rb_len b < off" | "p < max_off" "off \<le> p + rb_len b" "max_off < p + rb_len b"
    | "off \<le> p + rb_len b" "p + rb_len b \<le> max_off" "p < max_off" by linarith
  then show ?case
  proof cases
    case 1
    then have "retransmit_loop off max_off (Suc n) i pos bs = Some (bs, pos, 0)" using retransmit_stop Suc.prems(1,2) by simp
    then show ?thesis using Suc.prems 1 by auto
  next
    case 2
    from Suc.IH [OF b(2,3) tl_take tl_len Suc.prems(5)] obtain bs' pos' total where r:
      "retransmit_loop off max_off n (i + 1) pos bs0 = Some (bs', pos', total)" "pieces_at s (p + rb_len b) bs' q"
      "pending bs' = pending bs0 \<union> ({off..<max_off} \<inter> {p + rb_len b..<q})" "total_length bs' = total_length bs0 + total"
      "pending (take (pos' - (i + 1)) bs') = {}" "pos' \<le> pos" "min pos (i + 1) \<le> pos'" "pos' - (i + 1) \<le> length bs'" by blast
    have "retransmit_loop off max_off (Suc n) i pos bs = Some (b # bs', pos', total)"
      using 2 r(1) ob f(3) by (simp add: bs)
    moreover have "{off..<max_off} \<inter> {p + rb_len b..<q} = {off..<max_off} \<inter> {p..<q}" using 2 by auto
    moreover have "pending (take (pos' - i) (b # bs')) = {}"
    proof (cases "pos' - i")
      case (Suc k)
      then have "pos - i \<noteq> 0" using r(6) by simp
      then have "{rb_front b..<rb_max_off b} = {}" using Suc.prems(3) by (cases "pos - i") (simp_all add: bs)
      moreover have "k = pos' - (i + 1)" using Suc by simp
      ultimately show ?thesis using r(5) Suc by simp
    qed simp
    moreover have "pos' - i \<le> length (b # bs')" using r(8) by simp
    moreover have "min pos i \<le> pos'" using r(7) by simp
    ultimately show ?thesis using r(2,3,4,6) b(1) by (intro exI [of _ "b # bs'"] exI [of _ pos'] exI [of _ total]) (auto simp: bs)
  next
    case 3
    obtain x y where sp: "rb_split_off (max_off - p) b = Some (x, y)" "piece_at s p x" "piece_at s max_off y" "rb_len x = max_off - p"
      "rb_len y = p + rb_len b - max_off" "{rb_front x..<rb_max_off x} = {rb_front b..<rb_max_off b} \<inter> {..<max_off}"
      "{rb_front y..<rb_max_off y} = {rb_front b..<rb_max_off b} \<inter> {max_off..}" "rb_length x + rb_length y = rb_length b"
      using piece_split [OF b(1) 3(1,3)] by blast
    have "off \<le> p + rb_len x" using 3(1) sp(4) Suc.prems(5) by simp
    note ex = piece_expand [OF sp(2) this]
    have "pieces_at s max_off (y # bs0) q" using sp(3,5) b(2) 3 by simp
    then have stop: "retransmit_loop off max_off n (i + 1) (min pos i) (y # bs0) = Some (y # bs0, min pos i, 0)"
      by (rule retransmit_stop) (use b(3) in simp_all)
    let ?l = "expand off x # y # bs0"
    have e: "retransmit_loop off max_off (Suc n) i pos bs = Some (?l, min pos i, rb_pos x - rb_pos (expand off x))"
      unfolding bs retransmit_loop_unfold using 3 ob f(3) sp(1) ex(3) stop by simp
    have at: "pieces_at s p ?l q" using ex(1,2) sp(3,4,5) 3 b(2) by simp
    have "{rb_front x..<rb_max_off x} \<union> {rb_front y..<rb_max_off y} = {rb_front b..<rb_max_off b}" unfolding sp(6,7) by auto
    moreover have "{max p off..<p + rb_len x} = {off..<max_off} \<inter> {p..<q}" using sp(4) 3 bq(1) by auto
    moreover have "pending ?l = {rb_front x..<rb_max_off x} \<union> {max p off..<p + rb_len x} \<union> {rb_front y..<rb_max_off y} \<union> pending bs0"
      unfolding pending_simps ex(4) by blast
    ultimately have "pending ?l = pending bs \<union> ({off..<max_off} \<inter> {p..<q})" unfolding bs pending_simps by blast
    then show ?thesis using e at ex(5) sp(8)
      by (intro exI [of _ ?l] exI [of _ "min pos i"] exI [of _ "rb_pos x - rb_pos (expand off x)"]) (simp add: bs)
  next
    case 4
    note ex = piece_expand [OF b(1) 4(1)]
    have tk: "pending (take (min pos i - (i + 1)) bs0) = {}" "min pos i - (i + 1) \<le> length bs0" by simp_all
    from Suc.IH [OF b(2,3) tk Suc.prems(5)] obtain bs' pos' total where r:
      "retransmit_loop off max_off n (i + 1) (min pos i) bs0 = Some (bs', pos', total)" "pieces_at s (p + rb_len b) bs' q"
      "pending bs' = pending bs0 \<union> ({off..<max_off} \<inter> {p + rb_len b..<q})" "total_length bs' = total_length bs0 + total"
      "pos' \<le> min pos i" "min (min pos i) (i + 1) \<le> pos'" by blast
    let ?l = "expand off b # bs'" and ?t = "(rb_pos b - rb_pos (expand off b)) + total"
    have pos': "pos' = min pos i" using r(5,6) by (auto simp: min_def split: if_splits)
    have e: "retransmit_loop off max_off (Suc n) i pos bs = Some (?l, pos', ?t)"
      unfolding bs retransmit_loop_unfold using 4 ob f(3) ex(3) r(1) by simp
    have at: "pieces_at s p ?l q" using ex(1,2) r(2) by simp
    have "{off..<max_off} \<inter> {p..<q} = {max p off..<p + rb_len b} \<union> ({off..<max_off} \<inter> {p + rb_len b..<q})"
      using 4 bq(1) by auto
    then have "pending ?l = pending bs \<union> ({off..<max_off} \<inter> {p..<q})" unfolding bs pending_simps ex(4) r(3) by blast
    then show ?thesis using e at ex(5) r(4) by (intro exI [of _ ?l] exI [of _ pos'] exI [of _ ?t]) (simp add: bs pos')
  qed
qed

lemma send_retransmit_ok:
  assumes "send_ok s b"
  shows "\<exists>n b'. send_retransmit off len b = Some (n, b') \<and> send_ok s b'
    \<and> to_send b \<subseteq> to_send b' \<and> to_send b' \<subseteq> to_send b \<union> {off..<off + len}
    \<and> {off..<off + len} \<inter> {..<length s} - rs_set (rs_iter (sn_acked b)) \<subseteq> to_send b'
    \<and> card (to_send b') = card (to_send b) + n
    \<and> sn_acked b' = sn_acked b \<and> sn_emit_off b' = sn_emit_off b \<and> sn_fin_off b' = sn_fin_off b \<and> sn_max_data b' = sn_max_data b"
proof -
  from assms obtain p where p: "pieces_at s p (sn_data b) (length s)" "{..<p} \<subseteq> rs_set (rs_iter (sn_acked b))"
    by (auto simp: send_ok_def)
  have rs: "rs_ok (rs_iter (sn_acked b))" using assms by (simp add: send_ok_def)
  show ?thesis
  proof (cases "sn_data b = [] \<or> off + len \<le> sn_ack_off b")
    case True
    have "{off..<off + len} \<inter> {..<length s} \<subseteq> rs_set (rs_iter (sn_acked b))"
    proof (cases "sn_data b = []")
      case True
      then show ?thesis using p by auto
    next
      case False
      then show ?thesis using True first_end_below [OF rs] by (force simp: sn_ack_off_def)
    qed
    then show ?thesis using True assms by (intro exI [of _ 0] exI [of _ b]) (auto simp: send_retransmit_def Let_def)
  next
    case False
    have tk: "pending (take (sn_pos b - 0) (sn_data b)) = {}" "sn_pos b - 0 \<le> length (sn_data b)" using assms by (simp_all add: send_ok_def)
    obtain bs' pos' total where r: "retransmit_loop off (off + len) (length (sn_data b)) 0 (sn_pos b) (sn_data b) = Some (bs', pos', total)"
      "pieces_at s p bs' (length s)" "pending bs' = to_send b \<union> ({off..<off + len} \<inter> {p..<length s})"
      "total_length bs' = total_length (sn_data b) + total" "pending (take (pos' - 0) bs') = {}" "pos' - 0 \<le> length bs'"
      using retransmit_loop_spec [OF p(1) refl tk, of off "off + len"] by auto
    let ?b' = "b\<lparr>sn_data := bs', sn_pos := pos', sn_buffered_bytes := sn_buffered_bytes b + total\<rparr>"
    have e: "send_retransmit off len b = Some (total, ?b')" using False r(1) by (auto simp: send_retransmit_def Let_def)
    have ok: "send_ok s ?b'" using assms r(2,4-6) p(2) by (auto simp: send_ok_def)
    have "{off..<off + len} \<inter> {..<length s} - rs_set (rs_iter (sn_acked b)) \<subseteq> to_send ?b'"
    proof
      fix x assume x: "x \<in> {off..<off + len} \<inter> {..<length s} - rs_set (rs_iter (sn_acked b))"
      then have "x \<notin> {..<p}" using p(2) by blast
      then show "x \<in> to_send ?b'" using x r(3) by simp
    qed
    moreover have "card (to_send ?b') = card (to_send b) + total"
      using total_pending [OF p(1)] total_pending [OF r(2)] r(4) by simp
    moreover have "to_send ?b' \<subseteq> to_send b \<union> {off..<off + len}" "to_send b \<subseteq> to_send ?b'" using r(3) by auto
    moreover have "sn_acked ?b' = sn_acked b" "sn_emit_off ?b' = sn_emit_off b" "sn_fin_off ?b' = sn_fin_off b"
      "sn_max_data ?b' = sn_max_data b" by simp_all
    ultimately show ?thesis using e ok by blast
  qed
qed

end
