(* ===== verification/SendStream.thy ===== *)
theory SendStream
  imports SendProps
begin

text \<open>
  A stream from one endpoint to the other: the application writes, the send buffer fills frames, the network delivers,
  loses, repeats and reorders them, the frames are acknowledged or declared lost, and the receive buffer puts them
  together.
\<close>

section \<open>The sender\<close>

text \<open>
  What happens to a send buffer.  A frame that was sent is acknowledged or declared lost by its number, any number of
  times and in any order: a frame that is declared lost may have arrived, and what is sent again after a probe timeout
  may still be acknowledged.  Not among the operations are those that give the stream up (\<open>send_reset\<close>, \<open>send_stop\<close>,
  \<open>send_shutdown\<close>), and a write that hands its buffer over (\<open>send_append_buf\<close>).
\<close>

datatype send_op = Write bytes bool | Send nat | Acked nat | Lost nat | Max_data nat

text \<open>
  The frames that were sent, in order, the numbers of those that were neither acknowledged nor declared lost, the stream,
  and the buffer.
\<close>

type_synonym sender = "recv_op list \<times> nat set \<times> bytes \<times> send_buf"

fun send_step :: "send_op \<Rightarrow> sender \<Rightarrow> sender option" where
  "send_step (Write d fin) (sent, flight, s, b) =
     (case send_write d fin b of
        Some (Inr n, b) \<Rightarrow> Some (sent, flight, s @ take n d, b)
      | Some (Inl e, b) \<Rightarrow> Some (sent, flight, s, b)
      | None \<Rightarrow> None)"
| "send_step (Send len) (sent, flight, s, b) =
     (case send_emit (replicate len 0) b of
        Some ((n, fin), out, b') \<Rightarrow>
          Some (sent @ [Frame (sn_off_front b) (take n out) fin], insert (length sent) flight, s, b')
      | None \<Rightarrow> None)"
| "send_step (Acked i) (sent, flight, s, b) =
     (if i < length sent then
        case sent ! i of
          Frame off d fin \<Rightarrow> map_option (\<lambda>(n, b). (sent, flight - {i}, s, b)) (send_ack_and_drop off (length d) b)
        | Read cap \<Rightarrow> None
      else Some (sent, flight, s, b))"
| "send_step (Lost i) (sent, flight, s, b) =
     (if i < length sent then
        case sent ! i of
          Frame off d fin \<Rightarrow> map_option (\<lambda>(n, b). (sent, flight - {i}, s, b)) (send_retransmit off (length d) b)
        | Read cap \<Rightarrow> None
      else Some (sent, flight, s, b))"
| "send_step (Max_data m) (sent, flight, s, b) = Some (sent, flight, s, send_update_max_data m b)"

fun sender_run :: "send_op list \<Rightarrow> sender \<Rightarrow> sender option" where
  "sender_run [] st = Some st"
| "sender_run (oper # ops) st = (case send_step oper st of Some st \<Rightarrow> sender_run ops st | None \<Rightarrow> None)"

text \<open>The limits that the peer announces are varints.\<close>

definition limit_ok :: "send_op \<Rightarrow> bool" where
  "limit_ok oper \<longleftrightarrow> (case oper of Max_data m \<Rightarrow> m < 2 ^ 62 | _ \<Rightarrow> True)"

text \<open>
  Every byte of the stream is to be sent, or in a frame whose fate is not known, or acknowledged; what is acknowledged was
  in a frame that was sent; and every frame that was sent carries its part of the stream.
\<close>

fun sender_ok :: "sender \<Rightarrow> bool" where
  "sender_ok (sent, flight, s, b) \<longleftrightarrow> send_ok s b
     \<and> (\<forall>f \<in> set sent. frame_of s f \<and> (\<exists>off d fin. f = Frame off d fin \<and> off + length d \<le> sn_emit_off b))
     \<and> ((\<exists>f \<in> set sent. fin_frame f) \<longrightarrow> sn_fin_off b = Some (length s))
     \<and> (\<forall>i \<in> flight. i < length sent)
     \<and> (\<forall>i < length s. i \<in> to_send b \<or> i \<in> rs_set (rs_iter (sn_acked b)) \<or> (\<exists>j \<in> flight. in_frame i (sent ! j)))
     \<and> (\<forall>i \<in> rs_set (rs_iter (sn_acked b)). \<exists>f \<in> set sent. in_frame i f)"

lemma frame_of_append: "frame_of s f \<Longrightarrow> \<not> fin_frame f \<or> t = [] \<Longrightarrow> frame_of (s @ t) f"
  by (cases f) (auto simp: fin_frame_def)

lemma sender_ok_write:
  assumes "sender_ok (sent, flight, s, b)"
  shows "\<exists>st. send_step (Write d fin) (sent, flight, s, b) = Some st \<and> sender_ok st"
proof -
  have ok: "send_ok s b" using assms by simp
  note w = send_write_ok [OF ok, of d fin]
  show ?thesis
  proof (cases "sn_fin_off b \<noteq> None \<and> (d \<noteq> [] \<or> \<not> fin)")
    case True
    then have "send_write d fin b = Some (Inl (Stream_error QUICHE_ERR_FINAL_SIZE), b)" using w by simp
    then show ?thesis using assms by simp
  next
    case False
    let ?n = "send_room b d"
    obtain b' where b': "send_write d fin b = Some (Inr ?n, b')" "send_ok (s @ take ?n d) b'"
      "to_send b' = to_send b \<union> {length s..<length s + ?n}"
      "sn_fin_off b' = (if fin \<and> length d = ?n then Some (length s + length d) else sn_fin_off b)"
      "sn_emit_off b' = sn_emit_off b" "sn_acked b' = sn_acked b"
      using w unfolding if_not_P [OF False] by blast
    have len: "length (take ?n d) = ?n" by (simp add: send_room_def)
    have none: "take ?n d = []" if "sn_fin_off b \<noteq> None" using False that by (auto simp: send_room_def)
    have frames: "frame_of (s @ take ?n d) f" if "f \<in> set sent" for f
      using assms that none by (intro frame_of_append) auto
    have fin_: "sn_fin_off b' = Some (length (s @ take ?n d))" if "\<exists>f \<in> set sent. fin_frame f"
    proof -
      have f: "sn_fin_off b = Some (length s)" using assms that by simp
      then have "take ?n d = []" using none by simp
      moreover have "d = []" using False f by auto
      ultimately show ?thesis using b'(4) f by (auto split: if_splits)
    qed
    have bytes: "i \<in> to_send b' \<or> i \<in> rs_set (rs_iter (sn_acked b')) \<or> (\<exists>j \<in> flight. in_frame i (sent ! j))"
      if "i < length (s @ take ?n d)" for i
      using assms that len unfolding b'(3,6) by (cases "i < length s") auto
    have "sender_ok (sent, flight, s @ take ?n d, b')"
      using assms b'(2,5,6) frames fin_ bytes unfolding sender_ok.simps by simp
    then show ?thesis using b'(1) by simp
  qed
qed

lemma send_ok_fin: "send_ok s b \<Longrightarrow> sn_fin_off b = Some f \<Longrightarrow> f = length s"
  by (simp add: send_ok_def)

lemma sender_ok_emit:
  assumes "sender_ok (sent, flight, s, b)"
  shows "\<exists>st. send_step (Send len) (sent, flight, s, b) = Some st \<and> sender_ok st"
proof -
  have ok: "send_ok s b" using assms by simp
  let ?off = "sn_off_front b"
  obtain n b' where e: "send_emit (replicate len 0) b = Some ((n, sn_fin_off b = Some (?off + n)),
        put_bytes (replicate len 0) 0 (take n (drop ?off s)), b')"
    "send_ok s b'" "sent_to (to_send b) ?off len n (to_send b')" "?off + n \<le> length s"
    "sn_emit_off b' = max (sn_emit_off b) (?off + n)" "sn_fin_off b' = sn_fin_off b" "sn_acked b' = sn_acked b"
    using send_emit_ok [OF ok, of "replicate len 0"] by auto
  have n: "n \<le> len" "to_send b' = to_send b - {?off..<?off + n}" using e(3) by (simp_all add: sent_to_def)
  let ?d = "take n (drop ?off s)"
  have d: "take n (put_bytes (replicate len 0) 0 ?d) = ?d" "length ?d = n" using e(4) by (simp_all add: put_bytes_def)
  let ?f = "Frame ?off ?d (sn_fin_off b = Some (?off + n))"
  have f: "frame_of s ?f" using e(4) d(2) send_ok_fin [OF ok] by auto
  have bytes: "i \<in> to_send b' \<or> i \<in> rs_set (rs_iter (sn_acked b')) \<or> (\<exists>j \<in> insert (length sent) flight. in_frame i ((sent @ [?f]) ! j))"
    if i: "i < length s" for i
  proof (cases "i \<in> {?off..<?off + n}")
    case True
    then have "in_frame i ((sent @ [?f]) ! length sent)" using d(2) by simp
    then show ?thesis by blast
  next
    case False
    have "i \<in> to_send b \<or> i \<in> rs_set (rs_iter (sn_acked b)) \<or> (\<exists>j \<in> flight. in_frame i (sent ! j))" using assms i by simp
    then show ?thesis
    proof (elim disjE bexE)
      fix j assume j: "j \<in> flight" "in_frame i (sent ! j)"
      then have "in_frame i ((sent @ [?f]) ! j)" using assms by (simp add: nth_append)
      then show ?thesis using j(1) by blast
    qed (use False n(2) e(7) in auto)
  qed
  have fin_: "sn_fin_off b' = Some (length s)" if "\<exists>f \<in> set (sent @ [?f]). fin_frame f"
  proof -
    have "(\<exists>f \<in> set sent. fin_frame f) \<or> sn_fin_off b = Some (?off + n)" using that by (auto simp: fin_frame_def)
    then show ?thesis using assms e(6) send_ok_fin [OF ok] by auto
  qed
  have old: "frame_of s f \<and> (\<exists>off d fin. f = Frame off d fin \<and> off + length d \<le> sn_emit_off b')" if "f \<in> set (sent @ [?f])" for f
  proof (cases "f = ?f")
    case True
    have "?off + length ?d \<le> sn_emit_off b'" unfolding d(2) e(5) by simp
    then show ?thesis using f True by blast
  next
    case False
    then have "f \<in> set sent" using that by simp
    then obtain off d fin where o: "frame_of s f" "f = Frame off d fin" "off + length d \<le> sn_emit_off b"
      using assms unfolding sender_ok.simps by blast
    have "off + length d \<le> sn_emit_off b'" using o(3) e(5) by simp
    then show ?thesis using o(1,2) by blast
  qed
  have fl: "\<forall>i \<in> insert (length sent) flight. i < length (sent @ [?f])" using assms by auto
  have ac: "\<forall>i \<in> rs_set (rs_iter (sn_acked b')). \<exists>f \<in> set (sent @ [?f]). in_frame i f" using assms e(7) by auto
  have "sender_ok (sent @ [?f], insert (length sent) flight, s, b')"
    unfolding sender_ok.simps using e(2) old fin_ fl bytes ac by blast
  moreover have "send_step (Send len) (sent, flight, s, b) = Some (sent @ [?f], insert (length sent) flight, s, b')"
    using e(1) d(1) by simp
  ultimately show ?thesis by blast
qed

lemma sender_ok_frame:
  assumes "sender_ok (sent, flight, s, b)" and "i < length sent"
  obtains off d fin where "sent ! i = Frame off d fin" and "off + length d \<le> sn_emit_off b" and "off + length d \<le> length s"
    and "Frame off d fin \<in> set sent"
proof -
  have "sent ! i \<in> set sent" using assms by simp
  then show thesis using that assms(1) by force
qed

lemma sender_ok_acked:
  assumes "sender_ok (sent, flight, s, b)"
  shows "\<exists>st. send_step (Acked i) (sent, flight, s, b) = Some st \<and> sender_ok st"
proof (cases "i < length sent")
  case True
  obtain off d fin where f: "sent ! i = Frame off d fin" "off + length d \<le> sn_emit_off b" "Frame off d fin \<in> set sent"
    using sender_ok_frame [OF assms True] by blast
  have ok: "send_ok s b" using assms by simp
  obtain n b' p where a: "send_ack_and_drop off (length d) b = Some (n, b')" "send_ok s b'" "to_send b' = to_send b - {..<p}"
    "{..<p} \<subseteq> rs_set (rs_iter (sn_acked b'))"
    "rs_set (rs_iter (sn_acked b')) = rs_set (rs_iter (sn_acked b)) \<union> {off..<off + length d}"
    "sn_emit_off b' = sn_emit_off b" "sn_fin_off b' = sn_fin_off b"
    using send_ack_and_drop_ok [OF ok f(2)] by blast
  have bytes: "k \<in> to_send b' \<or> k \<in> rs_set (rs_iter (sn_acked b')) \<or> (\<exists>j \<in> flight - {i}. in_frame k (sent ! j))" if k: "k < length s" for k
  proof -
    have "k \<in> to_send b \<or> k \<in> rs_set (rs_iter (sn_acked b)) \<or> (\<exists>j \<in> flight. in_frame k (sent ! j))" using assms k by simp
    then show ?thesis
    proof (elim disjE bexE)
      assume "k \<in> to_send b"
      then show ?thesis using a(3,4) by auto
    next
      fix j assume "j \<in> flight" "in_frame k (sent ! j)"
      then show ?thesis using a(5) f(1) by (cases "j = i") auto
    qed (use a(5) in simp)
  qed
  have ac: "\<forall>k \<in> rs_set (rs_iter (sn_acked b')). \<exists>f \<in> set sent. in_frame k f"
  proof
    fix k assume "k \<in> rs_set (rs_iter (sn_acked b'))"
    then consider "k \<in> rs_set (rs_iter (sn_acked b))" | "in_frame k (Frame off d fin)" unfolding a(5) by auto
    then show "\<exists>f \<in> set sent. in_frame k f"
    proof cases
      case 1
      then show ?thesis using assms by simp
    next
      case 2
      then show ?thesis using f(3) by blast
    qed
  qed
  have "sender_ok (sent, flight - {i}, s, b')"
    using assms a(2,6,7) bytes ac unfolding sender_ok.simps by simp
  then show ?thesis using True f(1) a(1) by simp
qed (use assms in simp)

lemma sender_ok_lost:
  assumes "sender_ok (sent, flight, s, b)"
  shows "\<exists>st. send_step (Lost i) (sent, flight, s, b) = Some st \<and> sender_ok st"
proof (cases "i < length sent")
  case True
  obtain off d fin where f: "sent ! i = Frame off d fin" "off + length d \<le> length s"
    using sender_ok_frame [OF assms True] by blast
  have ok: "send_ok s b" using assms by simp
  obtain n b' where a: "send_retransmit off (length d) b = Some (n, b')" "send_ok s b'" "to_send b \<subseteq> to_send b'"
    "{off..<off + length d} \<inter> {..<length s} - rs_set (rs_iter (sn_acked b)) \<subseteq> to_send b'"
    "sn_acked b' = sn_acked b" "sn_emit_off b' = sn_emit_off b" "sn_fin_off b' = sn_fin_off b"
    using send_retransmit_ok [OF ok, of off "length d"] by blast
  have bytes: "k \<in> to_send b' \<or> k \<in> rs_set (rs_iter (sn_acked b')) \<or> (\<exists>j \<in> flight - {i}. in_frame k (sent ! j))" if k: "k < length s" for k
  proof -
    have "k \<in> to_send b \<or> k \<in> rs_set (rs_iter (sn_acked b)) \<or> (\<exists>j \<in> flight. in_frame k (sent ! j))" using assms k by simp
    then show ?thesis
    proof (elim disjE bexE)
      fix j assume j: "j \<in> flight" "in_frame k (sent ! j)"
      show ?thesis
      proof (cases "j = i")
        case True
        then have "k \<in> {off..<off + length d} \<inter> {..<length s}" using j(2) f(1) k by simp
        then show ?thesis using a(4,5) by auto
      qed (use j in blast)
    qed (use a(3,5) in auto)
  qed
  have "sender_ok (sent, flight - {i}, s, b')"
    using assms a(2,5,6,7) bytes unfolding sender_ok.simps by simp
  then show ?thesis using True f(1) a(1) by simp
qed (use assms in simp)

lemma sender_ok_max_data:
  assumes "sender_ok (sent, flight, s, b)" and "m < 2 ^ 62"
  shows "\<exists>st. send_step (Max_data m) (sent, flight, s, b) = Some st \<and> sender_ok st"
proof -
  let ?b = "send_update_max_data m b"
  have "send_ok s b" using assms(1) by simp
  then have "send_ok s ?b" using assms(2) unfolding send_ok_def by (simp add: send_update_max_data_def le_max_iff_disj)
  then have "sender_ok (sent, flight, s, ?b)" using assms(1) unfolding sender_ok.simps by (simp add: send_update_max_data_def)
  then show ?thesis by simp
qed

lemma sender_ok_run:
  assumes "sender_ok st" and "\<forall>oper \<in> set ops. limit_ok oper"
  shows "\<exists>st'. sender_run ops st = Some st' \<and> sender_ok st'"
  using assms
proof (induction ops arbitrary: st)
  case (Cons oper ops)
  obtain sent flight s b where st: "st = (sent, flight, s, b)" by (cases st)
  have ok: "sender_ok (sent, flight, s, b)" and l: "limit_ok oper" using Cons.prems by (simp_all add: st)
  have "\<exists>st1. send_step oper st = Some st1 \<and> sender_ok st1"
    unfolding st
  proof (cases oper)
    case (Write d fin)
    show "\<exists>st1. send_step oper (sent, flight, s, b) = Some st1 \<and> sender_ok st1" unfolding Write by (rule sender_ok_write [OF ok])
  next
    case (Send len)
    show "\<exists>st1. send_step oper (sent, flight, s, b) = Some st1 \<and> sender_ok st1" unfolding Send by (rule sender_ok_emit [OF ok])
  next
    case (Acked i)
    show "\<exists>st1. send_step oper (sent, flight, s, b) = Some st1 \<and> sender_ok st1" unfolding Acked by (rule sender_ok_acked [OF ok])
  next
    case (Lost i)
    show "\<exists>st1. send_step oper (sent, flight, s, b) = Some st1 \<and> sender_ok st1" unfolding Lost by (rule sender_ok_lost [OF ok])
  next
    case (Max_data m)
    have "m < 2 ^ 62" using l by (simp add: limit_ok_def Max_data)
    then show "\<exists>st1. send_step oper (sent, flight, s, b) = Some st1 \<and> sender_ok st1"
      unfolding Max_data by (rule sender_ok_max_data [OF ok])
  qed
  then obtain st1 where st1: "send_step oper st = Some st1" "sender_ok st1" by blast
  have "\<forall>oper \<in> set ops. limit_ok oper" using Cons.prems by simp
  from Cons.IH [OF st1(2) this] show ?case using st1(1) by simp
qed simp

definition new_sender :: "nat \<Rightarrow> sender" where
  "new_sender max_data = ([], {}, [], send_new max_data)"

lemma sender_ok_new: "max_data < 2 ^ 62 \<Longrightarrow> sender_ok (new_sender max_data)"
  using send_ok_new [of max_data] unfolding new_sender_def sender_ok.simps by (simp add: send_new_def rs_new_def)

lemma send_ok_flushable:
  assumes "send_ok s b"
  shows "sn_is_flushable b \<longleftrightarrow> to_send b \<noteq> {}"
proof -
  note f = send_ok_front [OF assms]
  have b: "sn_off b = length s" "length s \<le> sn_max_data b" using assms by (simp_all add: send_ok_def)
  show ?thesis
  proof (cases "to_send b = {}")
    case True
    then show ?thesis using f(1) b by (simp add: sn_is_flushable_def)
  next
    case False
    then have "sn_off_front b < length s" "sn_data b \<noteq> []" using f(1,2) by auto
    then show ?thesis using False b by (simp add: sn_is_flushable_def)
  qed
qed

lemma send_run_then: "sender_run ops st = Some st' \<Longrightarrow> send_step oper st' = Some st'' \<Longrightarrow> sender_run (ops @ [oper]) st = Some st''"
  by (induction ops arbitrary: st) (auto split: option.splits)

text \<open>A short stream, sent at once.\<close>

lemma send_first:
  assumes "send_ok d b" and "to_send b = {0..<length d}" and "d \<noteq> []" and "length d \<le> n"
  shows "\<exists>b'. send_step (Send n) (sent, flight, d, b)
      = Some (sent @ [Frame 0 d (sn_fin_off b = Some (length d))], insert (length sent) flight, d, b')
    \<and> send_ok d b' \<and> to_send b' = {} \<and> sn_fin_off b' = sn_fin_off b \<and> sn_acked b' = sn_acked b
    \<and> sn_emit_off b' = length d \<and> sn_max_data b' = sn_max_data b"
proof -
  have off: "sn_emit_off b \<le> length d" using assms(1) by (simp add: send_ok_def)
  have "0 \<in> to_send b" using assms(2,3) by simp
  then have front: "sn_off_front b = 0" using send_ok_front(1) [OF assms(1)] by auto
  obtain k b' where e: "send_emit (replicate n 0) b = Some ((k, sn_fin_off b = Some k), put_bytes (replicate n 0) 0 (take k d), b')"
    "send_ok d b'" "sent_to (to_send b) 0 n k (to_send b')" "k \<le> length d" "sn_emit_off b' = max (sn_emit_off b) k" "sn_fin_off b' = sn_fin_off b"
    "sn_acked b' = sn_acked b" "sn_max_data b' = sn_max_data b"
    using send_emit_ok [OF assms(1), of "replicate n 0"] front by auto
  have k: "k = length d"
  proof (rule ccontr)
    assume "k \<noteq> length d"
    then have "k < length d" using e(4) by simp
    then have "k \<in> to_send b" "k < n" using assms(2,4) by simp_all
    then show False using e(3) by (simp add: sent_to_def)
  qed
  have "to_send b' = {}" using e(3) assms(2) k by (simp add: sent_to_def)
  moreover have "take k (put_bytes (replicate n 0) 0 (take k d)) = d" by (simp add: put_bytes_def k)
  moreover have "sn_emit_off b' = length d" using e(5) off k by simp
  ultimately show ?thesis using e(1,2,6-8) front k by simp
qed

lemma send_once:
  assumes "d \<noteq> []" and "length d \<le> max_data" and "max_data < 2 ^ 62" and "length d \<le> n"
  shows "\<exists>b. sender_run [Write d fin, Send n] (new_sender max_data) = Some ([Frame 0 d fin], {0}, d, b)
    \<and> send_ok d b \<and> to_send b = {} \<and> sn_fin_off b = (if fin then Some (length d) else None)
    \<and> rs_iter (sn_acked b) = [] \<and> sn_emit_off b = length d"
proof -
  let ?b = "send_new max_data"
  have ok: "send_ok [] ?b" by (rule send_ok_new [OF assms(3)])
  have new: "sn_fin_off ?b = None" "send_room ?b d = length d" "to_send ?b = {}" "rs_iter (sn_acked ?b) = []"
    using assms(2) by (simp_all add: send_new_def send_room_def rs_new_def)
  obtain b1 where b1: "send_write d fin ?b = Some (Inr (length d), b1)" "send_ok d b1" "to_send b1 = {0..<length d}"
    "sn_fin_off b1 = (if fin then Some (length d) else None)" "rs_iter (sn_acked b1) = []"
    using send_write_ok [OF ok, of d fin] new by auto
  have w: "sender_run [Write d fin] (new_sender max_data) = Some ([], {}, d, b1)" using b1(1) by (simp add: new_sender_def)
  obtain b where e: "send_step (Send n) ([], {}, d, b1) = Some ([Frame 0 d fin], {0}, d, b)"
    "send_ok d b" "to_send b = {}" "sn_fin_off b = sn_fin_off b1" "sn_acked b = sn_acked b1" "sn_emit_off b = length d"
    using send_first [OF b1(2,3) assms(1,4), of "[]" "{}"] b1(4) by auto
  show ?thesis using send_run_then [OF w e(1)] e(2-6) b1(4,5) by simp
qed

lemma send_once_acked:
  assumes "send_ok d b" and "to_send b = {}" and "rs_iter (sn_acked b) = []" and "sn_emit_off b = length d" and "sn_fin_off b = f"
  shows "\<exists>b'. send_step (Acked 0) ([Frame 0 d fin], {0}, d, b) = Some ([Frame 0 d fin], {}, d, b')
    \<and> rs_iter (sn_acked b') = [(0, length d)] \<and> to_send b' = {} \<and> sn_fin_off b' = f \<and> send_ok d b'"
proof -
  obtain n b' where a: "send_ack_and_drop 0 (length d) b = Some (n, b')" "send_ok d b'" "to_send b' \<subseteq> to_send b"
    "rs_iter (sn_acked b') = ranges_add 0 (0 + length d) (rs_iter (sn_acked b))" "sn_fin_off b' = sn_fin_off b"
    using send_ack_and_drop_ok [OF assms(1), of 0 "length d"] assms(4) by auto
  then show ?thesis using assms(2,3,5) by simp
qed

section \<open>What a stream promises\<close>

text \<open>
  C22: No byte of a stream is forgotten.  Whatever is written, sent, acknowledged, declared lost and allowed (the
  operations \<open>Write\<close>, \<open>Send\<close>, \<open>Acked\<close>, \<open>Lost\<close> and \<open>Max_data\<close>), in any order, there is no panic; the buffer holds at most what the peer allows; the number of bytes that are to be sent is
  counted exactly, and the buffer is flushable just when there are some; each frame that was sent carries its part of the
  stream; and each byte is to be sent, or in a frame whose fate is not known, or acknowledged.
\<close>

theorem send_buffer_invariant:
  assumes "max_data < 2 ^ 62" and "\<forall>oper \<in> set ops. limit_ok oper"
  shows "\<exists>sent flight s b. sender_run ops (new_sender max_data) = Some (sent, flight, s, b)
    \<and> sn_off b = length s \<and> length s \<le> sn_max_data b
    \<and> sn_buffered_bytes b = card (to_send b) \<and> (sn_is_flushable b \<longleftrightarrow> to_send b \<noteq> {})
    \<and> (\<forall>f \<in> set sent. frame_of s f)
    \<and> (\<forall>i < length s. i \<in> to_send b \<or> i \<in> rs_set (rs_iter (sn_acked b)) \<or> (\<exists>j \<in> flight. in_frame i (sent ! j)))"
proof -
  obtain st where st: "sender_run ops (new_sender max_data) = Some st" "sender_ok st"
    using sender_ok_run [OF sender_ok_new [OF assms(1)] assms(2)] by blast
  obtain sent flight s b where e: "st = (sent, flight, s, b)" by (cases st)
  have ok: "send_ok s b" using st(2) by (simp add: e)
  have "sn_off b = length s" "length s \<le> sn_max_data b" using ok by (simp_all add: send_ok_def)
  moreover have "\<forall>f \<in> set sent. frame_of s f" using st(2) by (simp add: e)
  moreover have "\<forall>i < length s. i \<in> to_send b \<or> i \<in> rs_set (rs_iter (sn_acked b)) \<or> (\<exists>j \<in> flight. in_frame i (sent ! j))"
    using st(2) by (simp add: e)
  ultimately show ?thesis using st(1) send_ok_count [OF ok] send_ok_flushable [OF ok] unfolding e by blast
qed

lemma send_buffer_invariant_witness:
  "\<exists>sent flight s b. sender_run [Write [1, 2, 3] False, Send 2, Lost 0, Send 9, Acked 0, Max_data 50, Write [4] True] (new_sender 3)
    = Some (sent, flight, s, b) \<and> sn_buffered_bytes b = card (to_send b) \<and> (\<forall>f \<in> set sent. frame_of s f)"
proof -
  let ?ops = "[Write [1, 2, 3] False, Send 2, Lost 0, Send 9, Acked 0, Max_data 50, Write [4] True]"
  have "\<forall>oper \<in> set ?ops. limit_ok oper" "3 < (2 :: nat) ^ 62" by (simp_all add: limit_ok_def)
  from send_buffer_invariant [OF this(2,1)] show ?thesis by blast
qed

text \<open>
  C20: A stream arrives as it was written.  Whatever the sender does (with the operations of \<open>send_op\<close>) and whichever of its frames the network
  delivers, in any order and any number of times, and however the receiving application reads in between, no frame and no
  read fails, what is read is a prefix of what was written, and the end of the stream is reported only when all of it was
  read and the sender has ended it.
\<close>

theorem stream_transfer:
  assumes "max_data < 2 ^ 62" and "\<forall>oper \<in> set ops. limit_ok oper"
    and "sender_run ops (new_sender max_data) = Some (sent, flight, s, b)"
    and "\<forall>oper \<in> set rops. oper \<in> set sent \<or> (\<exists>cap. oper = Read cap)" and "length s \<le> rmax"
  shows "\<exists>out fin r. recv_run rops (recv_new rmax window max_window) = Some (out, fin, r)
    \<and> out = take (length out) s \<and> (fin \<longrightarrow> out = s \<and> sn_fin_off b = Some (length s))"
proof -
  have ok: "sender_ok (sent, flight, s, b)"
    using sender_ok_run [OF sender_ok_new [OF assms(1)] assms(2)] assms(3) by simp
  have "\<forall>f \<in> set sent. frame_of s f" using ok by simp
  then have fr: "\<forall>oper \<in> set rops. frame_of s oper" using assms(4) by fastforce
  obtain out fin r where r: "recv_run rops (recv_new rmax window max_window) = Some (out, fin, r)" "recv_of s rops r"
    "take (length out) s = out" "fin \<longrightarrow> length out = length s \<and> (\<exists>oper \<in> set rops. fin_frame oper)"
    by (rule recv_run_new [OF fr assms(5), of window max_window]) (rule that; assumption)
  have "sn_fin_off b = Some (length s)" if ex: "\<exists>oper \<in> set rops. fin_frame oper"
  proof -
    from ex obtain oper where o: "oper \<in> set rops" "fin_frame oper" by blast
    then have "oper \<in> set sent" using assms(4) by (auto simp: fin_frame_def)
    then have "\<exists>f \<in> set sent. fin_frame f" using o(2) by blast
    then show ?thesis using ok by simp
  qed
  moreover have "out = s" if "fin" using r(3,4) that by simp
  moreover have "\<exists>oper \<in> set rops. fin_frame oper" if "fin" using r(4) that by simp
  ultimately show ?thesis using r(1,3) by (intro exI [of _ out] exI [of _ fin] exI [of _ r]) simp
qed

lemma stream_transfer_witness:
  "\<exists>sent flight b out fin r. sender_run [Write [1, 2] True, Send 5] (new_sender 8) = Some (sent, flight, [1, 2], b)
    \<and> recv_run [Frame 0 [1, 2] True, Read 4] (recv_new 9 9 9) = Some (out, fin, r) \<and> out = take (length out) [1, 2]"
proof -
  obtain b where b: "sender_run [Write [1, 2] True, Send 5] (new_sender 8) = Some ([Frame 0 [1, 2] True], {0}, [1, 2], b)"
    using send_once [of "[1, 2]" 8 5 True] by auto
  have "\<exists>out fin r. recv_run [Frame 0 [1, 2] True, Read 4] (recv_new 9 9 9) = Some (out, fin, r) \<and> out = take (length out) [1, 2]
      \<and> (fin \<longrightarrow> out = [1, 2] \<and> sn_fin_off b = Some (length [1, 2 :: u8]))"
    by (rule stream_transfer [OF _ _ b]) (simp_all add: limit_ok_def)
  then show ?thesis using b by blast
qed

section \<open>Delivery\<close>

text \<open>What is acknowledged was in a frame that is acknowledged; the numbers of frames do not change.\<close>

lemma send_step_acked:
  assumes "sender_ok (sent, flight, s, b)" and "send_step oper (sent, flight, s, b) = Some (sent', flight', s', b')"
  shows "(\<exists>more. sent' = sent @ more) \<and> (\<forall>i \<in> flight. i < length sent)
    \<and> (\<forall>k \<in> rs_set (rs_iter (sn_acked b')). k \<in> rs_set (rs_iter (sn_acked b))
        \<or> (\<exists>i. oper = Acked i \<and> i < length sent \<and> in_frame k (sent ! i)))"
proof -
  have ok: "send_ok s b" and fl: "\<forall>i \<in> flight. i < length sent" using assms(1) by simp_all
  show ?thesis
  proof (cases oper)
    case (Write d fin)
    have "sn_acked b' = sn_acked b \<and> sent' = sent"
    proof (cases "sn_fin_off b \<noteq> None \<and> (d \<noteq> [] \<or> \<not> fin)")
      case True
      then show ?thesis using send_write_ok [OF ok, of d fin] assms(2) Write by simp
    next
      case False
      show ?thesis using send_write_ok [OF ok, of d fin] assms(2) unfolding if_not_P [OF False] Write by auto
    qed
    then show ?thesis using fl by simp
  next
    case (Send len)
    have "sn_acked b' = sn_acked b \<and> (\<exists>more. sent' = sent @ more)"
      using send_emit_ok [OF ok, of "replicate len 0"] assms(2) unfolding Send by auto
    then show ?thesis using fl by simp
  next
    case (Acked i)
    show ?thesis
    proof (cases "i < length sent")
      case True
      obtain off d fin where f: "sent ! i = Frame off d fin" "off + length d \<le> sn_emit_off b"
        using sender_ok_frame [OF assms(1) True] by blast
      have "sent' = sent \<and> rs_set (rs_iter (sn_acked b')) = rs_set (rs_iter (sn_acked b)) \<union> {off..<off + length d}"
        using send_ack_and_drop_ok [OF ok f(2)] assms(2) True f(1) unfolding Acked by auto
      then show ?thesis using fl True f(1) Acked by auto
    qed (use assms(2) fl Acked in auto)
  next
    case (Lost i)
    show ?thesis
    proof (cases "i < length sent")
      case True
      obtain off d fin where f: "sent ! i = Frame off d fin" using sender_ok_frame [OF assms(1) True] by blast
      have "sent' = sent \<and> sn_acked b' = sn_acked b"
        using send_retransmit_ok [OF ok, of off "length d"] assms(2) True f unfolding Lost by auto
      then show ?thesis using fl by simp
    qed (use assms(2) fl Lost in auto)
  next
    case (Max_data m)
    then show ?thesis using assms(2) fl by (auto simp: send_update_max_data_def)
  qed
qed

lemma send_run_acked:
  assumes "sender_ok (sent, flight, s, b)" and "\<forall>oper \<in> set ops. limit_ok oper"
    and "sender_run ops (sent, flight, s, b) = Some (sent', flight', s', b')"
  shows "(\<exists>more. sent' = sent @ more)
    \<and> (\<forall>k \<in> rs_set (rs_iter (sn_acked b')). k \<in> rs_set (rs_iter (sn_acked b))
        \<or> (\<exists>i. Acked i \<in> set ops \<and> i < length sent' \<and> in_frame k (sent' ! i)))"
  using assms
proof (induction ops arbitrary: sent flight s b)
  case (Cons oper ops)
  obtain sent1 flight1 s1 b1 where st: "send_step oper (sent, flight, s, b) = Some (sent1, flight1, s1, b1)"
    using Cons.prems(3) by (auto split: option.splits)
  have "limit_ok oper" using Cons.prems(2) by simp
  then have ok1: "sender_ok (sent1, flight1, s1, b1)" using sender_ok_run [OF Cons.prems(1), of "[oper]"] st by (simp del: send_step.simps)
  have run: "sender_run ops (sent1, flight1, s1, b1) = Some (sent', flight', s', b')" using Cons.prems(3) st by simp
  have lim: "\<forall>oper \<in> set ops. limit_ok oper" using Cons.prems(2) by simp
  note a = send_step_acked [OF Cons.prems(1) st]
  note ih = Cons.IH [OF ok1 lim run]
  obtain m1 where m1: "sent1 = sent @ m1" using a by (elim conjE exE)
  obtain m2 where m2: "sent' = sent1 @ m2" using ih by (elim conjE exE)
  note m = m1 m2
  have "k \<in> rs_set (rs_iter (sn_acked b)) \<or> (\<exists>i. Acked i \<in> set (oper # ops) \<and> i < length sent' \<and> in_frame k (sent' ! i))"
    if "k \<in> rs_set (rs_iter (sn_acked b'))" for k
  proof -
    have "k \<in> rs_set (rs_iter (sn_acked b1)) \<or> (\<exists>i. Acked i \<in> set ops \<and> i < length sent' \<and> in_frame k (sent' ! i))" using ih that by blast
    then show ?thesis
    proof
      assume "k \<in> rs_set (rs_iter (sn_acked b1))"
      then have "k \<in> rs_set (rs_iter (sn_acked b)) \<or> (\<exists>i. oper = Acked i \<and> i < length sent \<and> in_frame k (sent ! i))" using a by blast
      then show ?thesis using m by (auto simp: nth_append)
    qed auto
  qed
  moreover have "\<exists>more. sent' = sent @ more" using m by simp
  ultimately show ?case by blast
qed auto

text \<open>
  C21: A stream is delivered.  When the sender has nothing left to send and the fate of all frames is known, and
  every frame that was acknowledged has arrived, then one read gives the receiving application all that it has not read
  yet of the stream, and the end with it, when a frame with the end has arrived and the last byte had not been read before.
\<close>

theorem stream_delivered:
  assumes "max_data < 2 ^ 62" and "\<forall>oper \<in> set ops. limit_ok oper"
    and "sender_run ops (new_sender max_data) = Some (sent, flight, s, b)"
    and "\<forall>oper \<in> set rops. oper \<in> set sent \<or> (\<exists>cap. oper = Read cap)" and "length s \<le> rmax"
    and "flight = {}" and "\<not> sn_is_flushable b"
    and "\<forall>i. Acked i \<in> set ops \<and> i < length sent \<longrightarrow> sent ! i \<in> set rops" and "length s \<le> cap"
  shows "\<exists>out fin r fin' r'. recv_run rops (recv_new rmax window max_window) = Some (out, fin, r)
    \<and> recv_run (rops @ [Read cap]) (recv_new rmax window max_window) = Some (s, fin', r')
    \<and> (out \<noteq> s \<and> (\<exists>oper \<in> set rops. fin_frame oper) \<longrightarrow> fin')"
proof -
  have ok: "sender_ok (sent, flight, s, b)"
    using sender_ok_run [OF sender_ok_new [OF assms(1)] assms(2)] assms(3) by simp
  have sok: "send_ok s b" using ok by simp
  have "\<forall>f \<in> set sent. frame_of s f" using ok by simp
  then have fr: "\<forall>oper \<in> set rops. frame_of s oper" using assms(4) by fastforce
  have none: "to_send b = {}" using assms(7) send_ok_flushable [OF sok] by simp
  have run: "sender_run ops ([], {}, [], send_new max_data) = Some (sent, flight, s, b)" using assms(3) by (simp add: new_sender_def)
  have ok0: "sender_ok ([], {}, [], send_new max_data)" using sender_ok_new [OF assms(1)] by (simp only: new_sender_def)
  have all: "\<exists>oper \<in> set rops. in_frame k oper" if "k < length s" for k
  proof -
    have "k \<in> rs_set (rs_iter (sn_acked b))" using ok none assms(6) that by auto
    then have "k \<in> rs_set (rs_iter (sn_acked (send_new max_data))) \<or> (\<exists>i. Acked i \<in> set ops \<and> i < length sent \<and> in_frame k (sent ! i))"
      using send_run_acked [OF ok0 assms(2) run] by blast
    then obtain i where "Acked i \<in> set ops" "i < length sent" "in_frame k (sent ! i)" by (auto simp: send_new_def rs_new_def)
    then show ?thesis using assms(8) by blast
  qed
  show ?thesis using recv_completes [OF fr assms(5) _ assms(9), of window max_window] all by blast
qed

lemma stream_delivered_witness:
  "\<exists>sent b out fin r fin' r'. sender_run [Write [1, 2] True, Send 5, Acked 0] (new_sender 8) = Some (sent, {}, [1, 2], b)
    \<and> recv_run [Frame 0 [1, 2] True] (recv_new 9 9 9) = Some (out, fin, r)
    \<and> recv_run ([Frame 0 [1, 2] True] @ [Read 4]) (recv_new 9 9 9) = Some ([1, 2], fin', r') \<and> (out \<noteq> [1, 2] \<longrightarrow> fin')"
proof -
  obtain b0 where b0: "sender_run [Write [1, 2] True, Send 5] (new_sender 8) = Some ([Frame 0 [1, 2] True], {0}, [1, 2], b0)"
    "send_ok [1, 2] b0" "to_send b0 = {}" "rs_iter (sn_acked b0) = []" "sn_emit_off b0 = length [1, 2 :: u8]"
    using send_once [of "[1, 2]" 8 5 True] by auto
  obtain b where b: "send_step (Acked 0) ([Frame 0 [1, 2] True], {0}, [1, 2], b0) = Some ([Frame 0 [1, 2] True], {}, [1, 2], b)"
    "to_send b = {}" "send_ok [1, 2] b"
    using send_once_acked [OF b0(2-5) refl, of True] by blast
  have run: "sender_run [Write [1, 2] True, Send 5, Acked 0] (new_sender 8) = Some ([Frame 0 [1, 2] True], {}, [1, 2], b)"
    using send_run_then [OF b0(1) b(1)] by (simp only: append.simps)
  have "\<not> sn_is_flushable b" using send_ok_flushable [OF b(3)] b(2) by simp
  then have "\<exists>out fin r fin' r'. recv_run [Frame 0 [1, 2] True] (recv_new 9 9 9) = Some (out, fin, r)
    \<and> recv_run ([Frame 0 [1, 2] True] @ [Read 4]) (recv_new 9 9 9) = Some ([1, 2], fin', r')
    \<and> (out \<noteq> [1, 2] \<and> (\<exists>oper \<in> set [Frame 0 [1, 2 :: u8] True]. fin_frame oper) \<longrightarrow> fin')"
    by (intro stream_delivered [OF _ _ run]) (auto simp: limit_ok_def less_Suc_eq nth_Cons')
  then show ?thesis using run by (fastforce simp: fin_frame_def)
qed

section \<open>Where the end of a stream gets lost\<close>

text \<open>
  C26: A stream is taken for complete without its end.  When the application ends a stream after its data was sent,
  and that data is acknowledged before the end is sent (or while the frame with the end is on its way), the send side is
  complete, although no frame with the end was sent; the engine then drops the stream, and the end with it.
\<close>

theorem complete_without_fin:
  assumes "d \<noteq> []" and "length d \<le> max_data" and "max_data < 2 ^ 62" and "length d \<le> n"
  shows "\<exists>b. sender_run [Write d False, Send n, Write [] True, Acked 0] (new_sender max_data) = Some ([Frame 0 d False], {}, d, b)
    \<and> sn_is_complete b \<and> sn_is_fin b \<and> \<not> sn_is_flushable b"
proof -
  obtain b where b: "sender_run [Write d False, Send n] (new_sender max_data) = Some ([Frame 0 d False], {0}, d, b)"
    "send_ok d b" "to_send b = {}" "sn_fin_off b = None" "rs_iter (sn_acked b) = []" "sn_emit_off b = length d"
    using send_once [OF assms, of False] by auto
  have r: "send_room b [] = 0" by (simp add: send_room_def)
  obtain b1 where w: "send_write [] True b = Some (Inr 0, b1)" "send_ok d b1" "to_send b1 = {}" "sn_fin_off b1 = Some (length d)"
    "sn_emit_off b1 = length d" "rs_iter (sn_acked b1) = []"
    using send_write_ok [OF b(2), of "[]" True] b(3-6) r by auto
  have w': "send_step (Write [] True) ([Frame 0 d False], {0}, d, b) = Some ([Frame 0 d False], {0}, d, b1)" using w(1) by simp
  obtain b2 where a: "send_step (Acked 0) ([Frame 0 d False], {0}, d, b1) = Some ([Frame 0 d False], {}, d, b2)"
    "rs_iter (sn_acked b2) = [(0, length d)]" "to_send b2 = {}" "sn_fin_off b2 = Some (length d)" "send_ok d b2"
    using send_once_acked [OF w(2,3,6,5,4), of False] by blast
  have run: "sender_run [Write d False, Send n, Write [] True, Acked 0] (new_sender max_data) = Some ([Frame 0 d False], {}, d, b2)"
    using send_run_then [OF send_run_then [OF b(1) w'] a(1)] by (simp only: append.simps)
  have "sn_is_complete b2" using a(2,4) by (simp add: sn_is_complete_def rs_equals_range_def)
  moreover have "sn_is_fin b2" using a(4,5) by (simp add: sn_is_fin_def send_ok_def)
  ultimately show ?thesis using run send_ok_flushable [OF a(5)] a(3) by blast
qed

lemma complete_without_fin_witness:
  "\<exists>b. sender_run [Write [7] False, Send 3, Write [] True, Acked 0] (new_sender 8) = Some ([Frame 0 [7] False], {}, [7], b)
    \<and> sn_is_complete b \<and> sn_is_fin b \<and> \<not> sn_is_flushable b"
  by (rule complete_without_fin) simp_all

text \<open>A short stream, received and read at once.\<close>

lemma recv_once:
  assumes "length d \<le> n" and "length d \<le> rmax"
  shows "\<exists>r. recv_run [Frame 0 d False, Read n] (recv_new rmax window max_window) = Some (d, False, r)
    \<and> recv_of d [Frame 0 d False, Read n] r \<and> rv_off r = length d"
proof -
  have fr: "\<forall>oper \<in> set [Frame 0 d False]. frame_of d oper" "\<forall>oper \<in> set ([Frame 0 d False] @ [Read n]). frame_of d oper" by simp_all
  obtain fin r where r: "recv_run ([Frame 0 d False] @ [Read n]) (recv_new rmax window max_window) = Some (d, fin, r)" "rv_off r = length d"
    using recv_completes [OF fr(1) assms(2) _ assms(1), of window max_window] by auto
  obtain out fin' r' where q: "recv_run ([Frame 0 d False] @ [Read n]) (recv_new rmax window max_window) = Some (out, fin', r')"
    "recv_of d ([Frame 0 d False] @ [Read n]) r'" "fin' \<longrightarrow> length out = length d \<and> (\<exists>oper \<in> set ([Frame 0 d False] @ [Read n]). fin_frame oper)"
    by (rule recv_run_new [OF fr(2) assms(2), of window max_window]) (rule that; assumption)
  have eq: "r' = r" "fin' = fin" using r(1) q(1) by simp_all
  have "\<not> fin" using q(3) eq by (auto simp: fin_frame_def)
  then show ?thesis using r q(2) eq by simp
qed

lemma recv_of_all:
  assumes "recv_of s ops r" and "rv_off r = length s"
  shows "rv_len r = rv_off r" and "rv_fin_off r = None \<Longrightarrow> rv_data r = []"
proof -
  have mid: "recv_mid r" and len: "rv_len r \<le> length s" using assms(1) by (simp_all add: recv_of_def recv_ok_def)
  show l: "rv_len r = rv_off r" using mid len assms(2) by (simp add: recv_mid_def)
  have none: "recv_map r i = None" for i
    using recv_map_bounds [OF mid, of i] l by (cases "recv_map r i") auto
  show "rv_data r = []" if "rv_fin_off r = None"
  proof (cases "rv_data r")
    case (Cons e d)
    obtain k b where e: "(k, b) \<in> set (rv_data r)" using Cons by (cases e) auto
    then have "rb_length b \<noteq> 0" using mid that by (auto simp: recv_mid_def)
    then have "rb_map b (rb_front b) = Some (rb_bytes b ! 0)" by (simp add: rb_map_def rb_max_off_def)
    then have "recv_map r (rb_front b) \<noteq> None" using recv_map_Some [OF mid] e by auto
    then show ?thesis using none by simp
  qed
qed

text \<open>
  C25: The end of a stream is not reported although it arrived.  When the frame with the data was declared lost but
  had arrived and was read, and the application ends the stream before the data is sent again, the end goes out with the
  repeated data, in one frame; the receiver takes it, its stream is finished, and no read ever says so, however often the
  frames of the stream arrive.
\<close>

theorem end_of_stream_lost:
  assumes "d \<noteq> []" and "length d \<le> max_data" and "max_data < 2 ^ 62" and "length d \<le> n" and "length d \<le> rmax"
  shows "\<exists>b r. sender_run [Write d False, Send n, Lost 0, Write [] True, Send n] (new_sender max_data)
      = Some ([Frame 0 d False, Frame 0 d True], {1}, d, b) \<and> \<not> sn_is_flushable b
    \<and> recv_run [Frame 0 d False, Read n, Frame 0 d True] (recv_new rmax window max_window) = Some (d, False, r)
    \<and> recv_is_fin r
    \<and> (\<forall>rops. (\<forall>oper \<in> set rops. oper \<in> {Frame 0 d False, Frame 0 d True} \<or> (\<exists>cap. oper = Read cap))
        \<longrightarrow> recv_run rops r = Some ([], False, r))"
proof -
  obtain b where b: "sender_run [Write d False, Send n] (new_sender max_data) = Some ([Frame 0 d False], {0}, d, b)"
    "send_ok d b" "to_send b = {}" "sn_fin_off b = None" "rs_iter (sn_acked b) = []" "sn_emit_off b = length d"
    using send_once [OF assms(1-4), of False] by auto
  obtain k b1 where l: "send_retransmit 0 (length d) b = Some (k, b1)" "send_ok d b1" "to_send b1 = {0..<length d}"
    "sn_fin_off b1 = None" "sn_emit_off b1 = length d"
  proof -
    obtain k b1 where l: "send_retransmit 0 (length d) b = Some (k, b1)" "send_ok d b1" "to_send b1 \<subseteq> to_send b \<union> {0..<0 + length d}"
      "{0..<0 + length d} \<inter> {..<length d} - rs_set (rs_iter (sn_acked b)) \<subseteq> to_send b1" "sn_emit_off b1 = sn_emit_off b"
      "sn_fin_off b1 = sn_fin_off b"
      using send_retransmit_ok [OF b(2), of 0 "length d"] by blast
    have "to_send b1 = {0..<length d}" using l(3,4) b(3,5) by auto
    then show thesis using that [OF l(1,2)] l(5,6) b(4,6) by simp
  qed
  have l': "send_step (Lost 0) ([Frame 0 d False], {0}, d, b) = Some ([Frame 0 d False], {}, d, b1)" using l(1) by simp
  have r: "send_room b1 [] = 0" by (simp add: send_room_def)
  obtain b2 where w: "send_write [] True b1 = Some (Inr 0, b2)" "send_ok d b2" "to_send b2 = {0..<length d}" "sn_fin_off b2 = Some (length d)"
    using send_write_ok [OF l(2), of "[]" True] l(3,4) r by auto
  have w': "send_step (Write [] True) ([Frame 0 d False], {}, d, b1) = Some ([Frame 0 d False], {}, d, b2)" using w(1) by simp
  obtain b3 where e: "send_step (Send n) ([Frame 0 d False], {}, d, b2) = Some ([Frame 0 d False, Frame 0 d True], {1}, d, b3)"
    "send_ok d b3" "to_send b3 = {}" using send_first [OF w(2,3) assms(1,4), of "[Frame 0 d False]" "{}"] w(4) by auto
  have run: "sender_run [Write d False, Send n, Lost 0, Write [] True, Send n] (new_sender max_data)
      = Some ([Frame 0 d False, Frame 0 d True], {1}, d, b3)"
    using send_run_then [OF send_run_then [OF send_run_then [OF b(1) l'] w'] e(1)] by (simp only: append.simps)
  obtain r1 where r1: "recv_run [Frame 0 d False, Read n] (recv_new rmax window max_window) = Some (d, False, r1)"
    "recv_of d [Frame 0 d False, Read n] r1" "rv_off r1 = length d"
    using recv_once [OF assms(4,5)] by blast
  have idle: "recv_ok r1" "rv_data r1 = []" "rv_fin_off r1 = None" "rv_len r1 = rv_off r1" "rv_off r1 \<le> fc_max_data (rv_flow_control r1)"
    using recv_of_all [OF r1(2,3)] r1(2,3) by (auto simp: recv_of_def fin_frame_def)
  obtain r2 where r2: "recv_write (rb_from d 0 True) r1 = Some (Inr (), r2)" "recv_is_fin r2"
    "recv_silent r2"
    using late_fin_not_reported [OF idle(1-4), of 0 d] assms(1) idle(5) r1(3) by auto
  have got: "recv_run ([Frame 0 d False, Read n] @ [Frame 0 d True]) (recv_new rmax window max_window) = Some (d, False, r2)"
    unfolding recv_run_append r1(1) option.case prod.case using r2(1) by simp
  have later: "recv_run rops r2 = Some ([], False, r2)"
    if "\<forall>oper \<in> set rops. oper \<in> {Frame 0 d False, Frame 0 d True} \<or> (\<exists>cap. oper = Read cap)" for rops
  proof -
    have "\<forall>oper \<in> set (([Frame 0 d False, Read n] @ [Frame 0 d True]) @ rops). frame_of d oper" using that by auto
    then obtain out fin r where
      "recv_run (([Frame 0 d False, Read n] @ [Frame 0 d True]) @ rops) (recv_new rmax window max_window) = Some (out, fin, r)"
      by (rule recv_run_new [OF _ assms(5), of _ window max_window]) (rule that; assumption)
    then have "recv_run rops r2 \<noteq> None" unfolding recv_run_append [of "[Frame 0 d False, Read n] @ [Frame 0 d True]"] got by auto
    moreover have "recv_run rops r2 = None \<or> recv_run rops r2 = Some ([], False, r2)" using recv_silent_run [OF r2(3)] by auto
    ultimately show ?thesis by (elim disjE) simp_all
  qed
  show ?thesis using run send_ok_flushable [OF e(2)] e(3) got r2(2) later by (simp only: append.simps) blast
qed

lemma end_of_stream_lost_witness:
  "\<exists>b r. sender_run [Write [7] False, Send 5, Lost 0, Write [] True, Send 5] (new_sender 8)
      = Some ([Frame 0 [7] False, Frame 0 [7] True], {1}, [7], b) \<and> \<not> sn_is_flushable b
    \<and> recv_run [Frame 0 [7] False, Read 5, Frame 0 [7] True] (recv_new 9 9 9) = Some ([7], False, r)
    \<and> recv_is_fin r
    \<and> (\<forall>rops. (\<forall>oper \<in> set rops. oper \<in> {Frame 0 [7] False, Frame 0 [7] True} \<or> (\<exists>cap. oper = Read cap))
        \<longrightarrow> recv_run rops r = Some ([], False, r))"
  by (rule end_of_stream_lost) simp_all

end
